(* ===== verification/Prelude.thy ===== *)
theory Prelude
  imports Main "HOL-Library.Word" "HOL-Library.Monad_Syntax"
begin

text \<open>
  Shared vocabulary of the development: the C integer types as words, bounds-checked access to
  C arrays, the gcc bit-counting builtins, and the generic lemmas on words and lists that the
  component theories use.  Undefined behaviour of the C code (an access outside an array, a null
  dereference, a shift by the width) and a loop that does not return are both the value
  \<open>None\<close>.
\<close>

unbundle bit_operations_syntax

type_synonym u8 = "8 word"
type_synonym u16 = "16 word"
type_synonym u32 = "32 word"
type_synonym u64 = "64 word"

named_theorems mem_simps \<open>reads and writes of C arrays\<close>
named_theorems word_pow2 \<open>words against powers of two\<close>

subsection \<open>C arrays with bounds-checked access\<close>

definition rd :: "'a list \<Rightarrow> 'n::len word \<Rightarrow> 'a option" where
  "rd xs i = (if unat i < length xs then Some (xs ! unat i) else None)"

definition wr :: "'a list \<Rightarrow> 'n::len word \<Rightarrow> 'a \<Rightarrow> 'a list option" where
  "wr xs i v = (if unat i < length xs then Some (xs[unat i := v]) else None)"

lemma rd_Some [mem_simps]: "unat i < length xs \<Longrightarrow> rd xs i = Some (xs ! unat i)"
  by (simp add: rd_def)

lemma wr_Some [mem_simps]: "unat i < length xs \<Longrightarrow> wr xs i v = Some (xs[unat i := v])"
  by (simp add: wr_def)

lemma rd_None [mem_simps]: "length xs \<le> unat i \<Longrightarrow> rd xs i = None"
  by (simp add: rd_def)

lemma wr_None [mem_simps]: "length xs \<le> unat i \<Longrightarrow> wr xs i v = None"
  by (simp add: wr_def)

lemma rd_eq_Some_iff: "rd xs i = Some v \<longleftrightarrow> unat i < length xs \<and> v = xs ! unat i"
  by (auto simp: rd_def)

lemma wr_eq_Some_iff: "wr xs i v = Some ys \<longleftrightarrow> unat i < length xs \<and> ys = xs[unat i := v]"
  by (auto simp: wr_def)

subsection \<open>Block copies between arrays\<close>

text \<open>The effect of copying \<open>k\<close> consecutive cells of \<open>src\<close> from \<open>j\<close> to \<open>dst\<close> from \<open>i\<close>.\<close>

fun copyn :: "nat \<Rightarrow> 'a list \<Rightarrow> nat \<Rightarrow> 'a list \<Rightarrow> nat \<Rightarrow> 'a list" where
  "copyn 0 dst i src j = dst"
| "copyn (Suc k) dst i src j = copyn k (dst[i := src ! j]) (Suc i) src (Suc j)"

lemma length_copyn [simp]: "length (copyn k dst i src j) = length dst"
  by (induction k dst i src j rule: copyn.induct) auto

lemma copyn_add: "copyn (a + b) dst i src j = copyn b (copyn a dst i src j) (i + a) src (j + a)"
  by (induction a dst i src j rule: copyn.induct) auto

lemma nth_copyn:
  "p < length dst \<Longrightarrow>
   copyn k dst i src j ! p = (if i \<le> p \<and> p < i + k then src ! (j + (p - i)) else dst ! p)"
proof (induction k dst i src j rule: copyn.induct)
  case (1 dst i src j)
  show ?case by auto
next
  case (2 k dst i src j)
  have IH: "copyn k (dst[i := src ! j]) (Suc i) src (Suc j) ! p =
      (if Suc i \<le> p \<and> p < Suc i + k then src ! (Suc j + (p - Suc i)) else dst[i := src ! j] ! p)"
    using "2.prems" by (intro "2.IH") simp
  consider "p < i" | "p = i" | "i < p" by arith
  then show ?case
    using IH "2.prems" by cases (auto simp: Suc_diff_Suc)
qed

subsection \<open>Counting in an updated list\<close>

lemma length_filter_update:
  "i < length xs \<Longrightarrow>
   length (filter P (xs[i := v])) + (if P (xs ! i) then 1 else 0) =
   length (filter P xs) + (if P v then 1 else 0)"
proof (induction xs arbitrary: i)
  case (Cons x xs)
  then show ?case by (cases i) auto
qed simp

lemma length_filter_pos: "i < length xs \<Longrightarrow> P (xs ! i) \<Longrightarrow> 0 < length (filter P xs)"
  by (auto simp: length_greater_0_conv filter_empty_conv)

subsection \<open>Words and powers of two\<close>

lemma bit_word_iff_odd_unat: "bit (w :: 'a::len word) n \<longleftrightarrow> odd (unat w div 2 ^ n)"
  by (metis bit_nat_def bit_unsigned_iff not_bit_length bit_imp_le_length not_le possible_bit_nat)

lemma unat_and_mask [word_pow2]: "unat (w AND mask k :: 'a::len word) = unat w mod 2 ^ k"
  by (metis take_bit_eq_mask take_bit_eq_mod unsigned_take_bit_eq)

lemma unat_of_nat_small: "n < 2 ^ LENGTH('a) \<Longrightarrow> unat (of_nat n :: 'a::len word) = n"
  by (simp add: unat_of_nat take_bit_eq_mod)

lemma unat_pow2 [word_pow2]:
  assumes "k < LENGTH('a)"
  shows "unat (2 ^ k :: 'a::len word) = 2 ^ k"
proof -
  have "(2::nat) ^ k < 2 ^ LENGTH('a)" using assms by simp
  then have "unat (of_nat (2 ^ k) :: 'a word) = 2 ^ k" by (rule unat_of_nat_small)
  then show ?thesis by simp
qed

lemma mask_eq_pow2_minus_1: "mask k = (2 ^ k :: 'a::len word) - 1"
  by (simp add: mask_eq_exp_minus_1)

lemma of_nat_unat_same: "of_nat (unat w) = (w :: 'a::len word)"
  by simp

lemma unat_less_pow [simp]: "unat (w :: 'a::len word) < 2 ^ LENGTH('a)"
  by (rule unsigned_less)

lemma unat_add_mod: "unat (a + b :: 'a::len word) = (unat a + unat b) mod 2 ^ LENGTH('a)"
  by (rule unat_word_ariths)

lemma unat_add_mod_pow2:
  assumes "k \<le> LENGTH('a)"
  shows "unat (a + b :: 'a::len word) mod 2 ^ k = (unat a + unat b) mod 2 ^ k"
  using assms by (simp add: unat_add_mod mod_mod_cancel le_imp_power_dvd)

lemma unat_add_no_wrap:
  "unat a + unat b < 2 ^ LENGTH('a) \<Longrightarrow> unat (a + b :: 'a::len word) = unat a + unat b"
  by (simp add: unat_add_mod)

lemma unat_add_of_nat:
  "unat a + n < 2 ^ LENGTH('a) \<Longrightarrow> unat (a + of_nat n :: 'a::len word) = unat a + n"
  by (simp add: unat_add_mod unat_of_nat take_bit_eq_mod mod_add_right_eq)

lemma unat_mod_pow2_of_nat:
  assumes "k \<le> LENGTH('a)"
  shows "unat (a + of_nat n :: 'a::len word) mod 2 ^ k = (unat a + n) mod 2 ^ k"
proof -
  have "unat (of_nat n :: 'a word) mod 2 ^ k = n mod 2 ^ k"
    using assms by (simp add: unat_of_nat mod_mod_cancel le_imp_power_dvd)
  then show ?thesis
    using unat_add_mod_pow2 [OF assms, of a "of_nat n"] by (metis mod_add_right_eq)
qed

lemma unat_sub_le: "b \<le> a \<Longrightarrow> unat (a - b :: 'a::len word) = unat a - unat b"
  by (rule unat_sub)

lemma unat_ucast_mod: "unat (ucast (w :: 'a::len word) :: 'b::len word) = unat w mod 2 ^ LENGTH('b)"
  by (simp add: unsigned_ucast_eq take_bit_eq_mod)

lemma sint_eq_unat:
  assumes "unat w < 2 ^ (LENGTH('a) - 1)"
  shows "sint (w :: 'a::len word) = int (unat w)"
proof -
  have "uint w < 2 ^ (LENGTH('a) - 1)"
    using assms by (metis of_nat_less_numeral_power_cancel_iff uint_nat)
  moreover have "- (2 ^ (LENGTH('a) - 1)) \<le> uint w" by (rule order_trans [of _ 0]) simp_all
  ultimately have "signed_take_bit (LENGTH('a) - 1) (uint w) = uint w"
    by (simp add: signed_take_bit_int_eq_self)
  then show ?thesis by (simp add: sint_uint)
qed

subsection \<open>The gcc bit-counting builtins\<close>

text \<open>
  \<open>__builtin_ctz\<close> and \<open>__builtin_clz\<close> (and their \<open>ll\<close> forms): the number of trailing and leading
  zero bits.  gcc leaves the result for 0 undefined; here it is the width, and every use in the
  model either excludes 0 or makes the undefined call the value \<open>None\<close>.
\<close>

definition ctz :: "'a::len word \<Rightarrow> nat" where
  "ctz w = length (takeWhile (\<lambda>i. \<not> bit w i) [0..<LENGTH('a)])"

definition clz :: "'a::len word \<Rightarrow> nat" where
  "clz w = length (takeWhile (\<lambda>i. \<not> bit w i) (rev [0..<LENGTH('a)]))"

lemma takeWhile_length_eqI:
  assumes "k < length xs" "\<not> P (xs ! k)" "\<And>i. i < k \<Longrightarrow> P (xs ! i)"
  shows "length (takeWhile P xs) = k"
proof -
  have "takeWhile P xs = take k xs"
    using assms by (intro takeWhile_eq_take_P_nth) auto
  then show ?thesis using assms(1) by simp
qed

lemma ctz_eqI:
  assumes "bit (w :: 'a::len word) k" "\<And>i. i < k \<Longrightarrow> \<not> bit w i"
  shows "ctz w = k"
proof -
  have "k < LENGTH('a)" using assms(1) by (rule bit_imp_le_length)
  then show ?thesis
    unfolding ctz_def using assms by (intro takeWhile_length_eqI) auto
qed

lemma ctz_cases:
  assumes "(w :: 'a::len word) \<noteq> 0"
  shows "ctz w < LENGTH('a)" "bit w (ctz w)" "i < ctz w \<Longrightarrow> \<not> bit w i"
proof -
  obtain j where "bit w j" using assms bit_eqI by (metis bit_0_eq bot_apply bot_bool_def)
  then obtain k where k: "bit w k" "\<And>i. i < k \<Longrightarrow> \<not> bit w i"
    using exists_least_iff [of "bit w"] by auto
  then have "ctz w = k" by (rule ctz_eqI)
  with k show "ctz w < LENGTH('a)" "bit w (ctz w)" "i < ctz w \<Longrightarrow> \<not> bit w i"
    by (auto dest: bit_imp_le_length)
qed

end
