(* ===== verification/Interleaving.thy ===== *)
theory Interleaving
  imports Prelude
begin

text \<open>
  Threads that share memory.  One access of one thread is a relation between the memory and the
  thread's program counter before and after; threads step in any order, so the steps of the whole
  are the accesses of any one thread.  The locales say what an invariant has to provide.
\<close>

subsection \<open>Threads that share a cell\<close>

text \<open>\<open>act\<close> is one thread's access: the cell and its program counter, before and after.\<close>

inductive interleave ::
    "('m \<Rightarrow> 'p \<Rightarrow> 'm \<Rightarrow> 'p \<Rightarrow> bool) \<Rightarrow> 'm \<times> 'p list \<Rightarrow> 'm \<times> 'p list \<Rightarrow> bool"
  for act where
  step: "i < length ps \<Longrightarrow> act m (ps ! i) m' p \<Longrightarrow> interleave act (m, ps) (m', ps[i := p])"

inductive_cases interleaveE: "interleave act (m, ps) s"

text \<open>How many threads are at a program counter.\<close>

definition at :: "'p \<Rightarrow> 'p list \<Rightarrow> nat" where
  "at p ps = length (filter (\<lambda>q. q = p) ps)"

lemma at_update:
  "i < length ps \<Longrightarrow> at p (ps[i := q]) + (if ps ! i = p then 1 else 0) = at p ps + (if q = p then 1 else 0)"
  unfolding at_def by (rule length_filter_update)

lemma at_pos: "i < length ps \<Longrightarrow> 0 < at (ps ! i) ps"
  unfolding at_def by (rule length_filter_pos) auto

lemma at_le: "at p ps + at q ps \<le> length ps" if "p \<noteq> q"
proof (induction ps)
  case (Cons x ps)
  then show ?case using that by (auto simp: at_def)
qed (simp add: at_def)

lemma at_zero_iff: "at p ps = 0 \<longleftrightarrow> p \<notin> set ps"
  by (auto simp: at_def filter_empty_conv)

subsection \<open>The interface of a protocol\<close>

text \<open>An invariant that every access of every thread keeps holds in every reachable state.\<close>

locale kept =
  fixes act :: "'m \<Rightarrow> 'p \<Rightarrow> 'm \<Rightarrow> 'p \<Rightarrow> bool"
    and inv :: "'m \<times> 'p list \<Rightarrow> bool"
  assumes preserved: "inv (m, ps) \<Longrightarrow> i < length ps \<Longrightarrow> act m (ps ! i) m' p \<Longrightarrow> inv (m', ps[i := p])"
begin

lemma reachable_inv: "(interleave act)\<^sup>*\<^sup>* s s' \<Longrightarrow> inv s \<Longrightarrow> inv s'"
proof (induction rule: rtranclp_induct)
  case (step y z)
  then show ?case by (cases y) (auto elim!: interleaveE intro: preserved)
qed

end

text \<open>When the invariant excludes two threads from being in each other's way, they never are.\<close>

locale protocol = kept act inv
  for act :: "'m \<Rightarrow> 'p \<Rightarrow> 'm \<Rightarrow> 'p \<Rightarrow> bool" and inv :: "'m \<times> 'p list \<Rightarrow> bool" +
  fixes safe :: "'p list \<Rightarrow> bool"
  assumes exclusive: "inv (m, ps) \<Longrightarrow> safe ps"
begin

lemma reachable_safe: "(interleave act)\<^sup>*\<^sup>* s (m, ps) \<Longrightarrow> inv s \<Longrightarrow> safe ps"
  using reachable_inv exclusive by blast

end

subsection \<open>One thread alone\<close>

text \<open>The accesses of one thread, and the same accesses among threads that stand still.\<close>

definition alone :: "('m \<Rightarrow> 'p \<Rightarrow> 'm \<Rightarrow> 'p \<Rightarrow> bool) \<Rightarrow> 'm \<times> 'p \<Rightarrow> 'm \<times> 'p \<Rightarrow> bool" where
  "alone act = (\<lambda>(m, p) (m', p'). act m p m' p')"

lemma alone_interleave:
  assumes "(alone act)\<^sup>*\<^sup>* (m, p) (m', p')" "i < length ps" "ps ! i = p"
  shows "(interleave act)\<^sup>*\<^sup>* (m, ps) (m', ps[i := p'])"
  using assms(1)
proof (induction rule: rtranclp_induct2)
  case refl
  then show ?case using assms by auto
next
  case (step m1 p1 m2 p2)
  have "interleave act (m1, ps[i := p1]) (m2, (ps[i := p1])[i := p2])"
    using step(2) assms(2) by (intro interleave.step) (simp_all add: alone_def)
  then show ?case using step(3) by simp
qed

subsection \<open>Runs by schedule\<close>

text \<open>
  A thread whose next access is computed by a function: a schedule, the thread to step each time, gives a run.
\<close>

fun schedule :: "('m \<Rightarrow> 'p \<Rightarrow> ('m \<times> 'p) option) \<Rightarrow> nat list \<Rightarrow> 'm \<times> 'p list \<Rightarrow> ('m \<times> 'p list) option" where
  "schedule next [] s = Some s"
| "schedule next (i # is) (m, ps) =
     (if i < length ps
      then (case next m (ps ! i) of None \<Rightarrow> None | Some (m', p) \<Rightarrow> schedule next is (m', ps[i := p]))
      else None)"

lemma schedule_reaches:
  assumes next_act: "\<And>m p m' p'. next m p = Some (m', p') \<Longrightarrow> act m p m' p'"
  shows "schedule next is s = Some s' \<Longrightarrow> (interleave act)\<^sup>*\<^sup>* s s'"
proof (induction "is" arbitrary: s)
  case (Cons i "is")
  obtain m ps where s: "s = (m, ps)" by (cases s)
  from Cons.prems obtain m' p where "i < length ps" and act: "next m (ps ! i) = Some (m', p)"
    and rest: "schedule next is (m', ps[i := p]) = Some s'"
    by (auto simp: s split: if_splits option.splits)
  then have "interleave act s (m', ps[i := p])" unfolding s by (intro interleave.step next_act)
  then show ?case using Cons.IH [OF rest] by (rule converse_rtranclp_into_rtranclp)
qed simp

subsection \<open>How many threads are where\<close>

definition tally :: "('p \<Rightarrow> bool) \<Rightarrow> 'p list \<Rightarrow> nat" where
  "tally Q ps = length (filter Q ps)"

lemma tally_update: "i < length ps \<Longrightarrow> tally Q (ps[i := p]) + (if Q (ps ! i) then 1 else 0) = tally Q ps + (if Q p then 1 else 0)"
  unfolding tally_def by (rule length_filter_update)

lemma tally_pos: "i < length ps \<Longrightarrow> Q (ps ! i) \<Longrightarrow> 0 < tally Q ps"
  unfolding tally_def by (rule length_filter_pos)

lemma tally_mono: "(\<And>p. Q p \<Longrightarrow> R p) \<Longrightarrow> tally Q ps \<le> tally R ps"
  by (induction ps) (auto simp: tally_def)

lemma tally_in: "p \<in> set ps \<Longrightarrow> Q p \<Longrightarrow> 0 < tally Q ps"
  by (auto simp: tally_def filter_empty_conv)

lemma tally_zero: "tally Q ps = 0 \<longleftrightarrow> (\<forall>p\<in>set ps. \<not> Q p)"
  by (auto simp: tally_def filter_empty_conv)

lemma tally_append [simp]: "tally Q (ps @ qs) = tally Q ps + tally Q qs"
  by (simp add: tally_def)

lemma tally_replicate [simp]: "tally Q (replicate n p) = (if Q p then n else 0)"
  by (simp add: tally_def)

lemma cnt_map_zero: "(\<And>x. \<not> Q (f x)) \<Longrightarrow> tally Q (map f xs) = 0"
  by (simp add: tally_def filter_empty_conv)

subsection \<open>Protocols that come to rest\<close>

text \<open>
  When every access of its own that a thread makes uses up some of the work there is, the threads make boundedly many;
  \<open>act\<close> may have further accesses, forced from outside, that do not.
\<close>

lemma sum_list_map_update:
  "i < length ps \<Longrightarrow> sum_list (map f (ps[i := p])) + f (ps ! i) = sum_list (map f ps) + (f p :: nat)"
proof (induction ps arbitrary: i)
  case (Cons q ps)
  then show ?case by (cases i) auto
qed simp

definition work :: "('m \<Rightarrow> 'p \<Rightarrow> nat) \<Rightarrow> ('m \<Rightarrow> nat) \<Rightarrow> 'm \<times> 'p list \<Rightarrow> nat" where
  "work pw mw = (\<lambda>(m, ps). sum_list (map (pw m) ps) + mw m)"

locale resting = kept act inv
  for act :: "'m \<Rightarrow> 'p \<Rightarrow> 'm \<Rightarrow> 'p \<Rightarrow> bool" and inv :: "'m \<times> 'p list \<Rightarrow> bool" +
  fixes own :: "'m \<Rightarrow> 'p \<Rightarrow> 'm \<Rightarrow> 'p \<Rightarrow> bool"
    and pw :: "'m \<Rightarrow> 'p \<Rightarrow> nat"
    and mw :: "'m \<Rightarrow> nat"
  assumes own_act: "own m p m' p' \<Longrightarrow> act m p m' p'"
    and pw_same: "own m p m' p' \<Longrightarrow> pw m' = pw m"
    and uses_work: "inv (m, ps) \<Longrightarrow> p \<in> set ps \<Longrightarrow> own m p m' p' \<Longrightarrow> pw m p' + mw m' < pw m p + mw m"
begin

lemma step_work:
  assumes inv: "inv s" and step: "interleave own s s'"
  shows "work pw mw s' < work pw mw s"
proof -
  obtain m ps where s: "s = (m, ps)" by (cases s)
  from step obtain i m' p where i: "i < length ps" and act: "own m (ps ! i) m' p" and s': "s' = (m', ps[i := p])"
    unfolding s by (rule interleaveE)
  have "pw m p + mw m' < pw m (ps ! i) + mw m" using uses_work inv i act by (simp add: s)
  then show ?thesis using sum_list_map_update [OF i, of "pw m" p] pw_same [OF act] by (simp add: s s' work_def)
qed

lemma own_steps_act: "(interleave own)\<^sup>*\<^sup>* s s' \<Longrightarrow> (interleave act)\<^sup>*\<^sup>* s s'"
  by (erule mono_rtranclp [rule_format, rotated])
    (auto elim!: interleave.cases intro: interleave.step own_act)

lemma steps_work:
  assumes "inv s" "(interleave own ^^ k) s s'"
  shows "work pw mw s' + k \<le> work pw mw s"
  using assms(2)
proof (induction k arbitrary: s')
  case (Suc k)
  then obtain u where u: "(interleave own ^^ k) s u" "interleave own u s'" by auto
  then have "inv u" using assms(1) by (meson own_steps_act reachable_inv relpowp_imp_rtranclp)
  then show ?case using Suc.IH [OF u(1)] step_work [OF _ u(2)] by simp
qed simp

end

text \<open>Threads whose next access is a function: nobody can go on.\<close>

definition stuck :: "('m \<Rightarrow> 'p \<Rightarrow> ('m \<times> 'p) option) \<Rightarrow> 'm \<times> 'p list \<Rightarrow> bool" where
  "stuck next = (\<lambda>(m, ps). list_all (\<lambda>p. next m p = None) ps)"

lemma stuck_iff:
  assumes "\<And>m p m' p'. own m p m' p' \<longleftrightarrow> next m p = Some (m', p')"
  shows "stuck next s \<longleftrightarrow> (\<nexists>s'. interleave own s s')"
proof -
  obtain m ps where s: "s = (m, ps)" by (cases s)
  have "(\<exists>s'. interleave own s s') \<longleftrightarrow> (\<exists>i<length ps. \<exists>m' p. own m (ps ! i) m' p)"
    unfolding s by (auto elim!: interleaveE intro: interleave.step)
  also have "\<dots> \<longleftrightarrow> (\<exists>i<length ps. next m (ps ! i) \<noteq> None)" by (auto simp: assms)
  finally show ?thesis by (auto simp: s stuck_def list_all_length)
qed

end
