(* ===== verification/Rte_Common.thy ===== *)
theory Rte_Common
  imports Prelude
begin

text \<open>
  The arithmetic helpers of \<open>dpdk_fbarray/rte_common.h\<close>: alignment macros, powers of two,
  minimum and maximum, bit scans.  A macro over \<open>typeof(val)\<close> is a definition over words of any
  width; the second type variable is the width of the alignment operand, which the macro casts.
  The lemmas say what the bit tricks compute: the largest or smallest multiple of a power of two,
  the smallest or largest power of two, the rounded-up binary logarithm.
\<close>

subsection \<open>Pointer arithmetic (addresses are 64-bit words)\<close>

definition RTE_PTR_ADD :: "u64 \<Rightarrow> 'b::len word \<Rightarrow> u64" where
  "RTE_PTR_ADD ptr x = ptr + ucast x"

definition RTE_PTR_SUB :: "u64 \<Rightarrow> 'b::len word \<Rightarrow> u64" where
  "RTE_PTR_SUB ptr x = ptr - ucast x"

definition RTE_PTR_DIFF :: "u64 \<Rightarrow> u64 \<Rightarrow> u64" where
  "RTE_PTR_DIFF ptr1 ptr2 = ptr1 - ptr2"

subsection \<open>Alignment\<close>

definition RTE_ALIGN_FLOOR :: "'a::len word \<Rightarrow> 'b::len word \<Rightarrow> 'a word" where
  "RTE_ALIGN_FLOOR val align = val AND NOT (ucast (align - 1))"

definition RTE_ALIGN_CEIL :: "'a::len word \<Rightarrow> 'b::len word \<Rightarrow> 'a word" where
  "RTE_ALIGN_CEIL val align = RTE_ALIGN_FLOOR (val + (ucast align - 1)) align"

definition RTE_ALIGN :: "'a::len word \<Rightarrow> 'b::len word \<Rightarrow> 'a word" where
  "RTE_ALIGN val align = RTE_ALIGN_CEIL val align"

definition RTE_PTR_ALIGN_FLOOR :: "u64 \<Rightarrow> 'b::len word \<Rightarrow> u64" where
  "RTE_PTR_ALIGN_FLOOR ptr align = RTE_ALIGN_FLOOR ptr align"

definition RTE_PTR_ALIGN_CEIL :: "u64 \<Rightarrow> 'b::len word \<Rightarrow> u64" where
  "RTE_PTR_ALIGN_CEIL ptr align = RTE_PTR_ALIGN_FLOOR (RTE_PTR_ADD ptr (align - 1)) align"

definition RTE_PTR_ALIGN :: "u64 \<Rightarrow> 'b::len word \<Rightarrow> u64" where
  "RTE_PTR_ALIGN ptr align = RTE_PTR_ALIGN_CEIL ptr align"

text \<open>A division by zero traps, so the two macros that divide return \<open>None\<close> there.\<close>

definition RTE_ALIGN_MUL_CEIL :: "'a::len word \<Rightarrow> 'b::len word \<Rightarrow> 'a word option" where
  "RTE_ALIGN_MUL_CEIL v mul =
     (if (ucast mul :: 'a word) = 0 then None
      else Some (((v + ucast mul - 1) div ucast mul) * ucast mul))"

definition RTE_ALIGN_MUL_FLOOR :: "'a::len word \<Rightarrow> 'b::len word \<Rightarrow> 'a word option" where
  "RTE_ALIGN_MUL_FLOOR v mul =
     (if (ucast mul :: 'a word) = 0 then None
      else Some ((v div ucast mul) * ucast mul))"

definition rte_is_aligned :: "u64 \<Rightarrow> u32 \<Rightarrow> bool" where
  "rte_is_aligned ptr align = (RTE_PTR_ALIGN ptr align = ptr)"

subsection \<open>Powers of two\<close>

definition rte_combine32ms1b :: "u32 \<Rightarrow> u32" where
  "rte_combine32ms1b x0 =
     (let x1 = x0 OR drop_bit 1 x0;
          x2 = x1 OR drop_bit 2 x1;
          x3 = x2 OR drop_bit 4 x2;
          x4 = x3 OR drop_bit 8 x3
      in x4 OR drop_bit 16 x4)"

definition rte_combine64ms1b :: "u64 \<Rightarrow> u64" where
  "rte_combine64ms1b v0 =
     (let v1 = v0 OR drop_bit 1 v0;
          v2 = v1 OR drop_bit 2 v1;
          v3 = v2 OR drop_bit 4 v2;
          v4 = v3 OR drop_bit 8 v3;
          v5 = v4 OR drop_bit 16 v4
      in v5 OR drop_bit 32 v5)"

definition rte_is_power_of_2 :: "u32 \<Rightarrow> bool" where
  "rte_is_power_of_2 n = (n \<noteq> 0 \<and> \<not> (n AND (n - 1) \<noteq> 0))"

definition rte_align32pow2 :: "u32 \<Rightarrow> u32" where
  "rte_align32pow2 x = rte_combine32ms1b (x - 1) + 1"

definition rte_align32prevpow2 :: "u32 \<Rightarrow> u32" where
  "rte_align32prevpow2 x = (let y = rte_combine32ms1b x in y - drop_bit 1 y)"

definition rte_align64pow2 :: "u64 \<Rightarrow> u64" where
  "rte_align64pow2 v = rte_combine64ms1b (v - 1) + 1"

definition rte_align64prevpow2 :: "u64 \<Rightarrow> u64" where
  "rte_align64prevpow2 v = (let w = rte_combine64ms1b v in w - drop_bit 1 w)"

subsection \<open>Minimum, maximum, bit scan, logarithm, masks\<close>

definition RTE_MIN :: "'a::linorder \<Rightarrow> 'a \<Rightarrow> 'a" where
  "RTE_MIN a b = (if a < b then a else b)"

definition RTE_MAX :: "'a::linorder \<Rightarrow> 'a \<Rightarrow> 'a" where
  "RTE_MAX a b = (if a > b then a else b)"

text \<open>\<open>__builtin_ctz(0)\<close> is undefined, so the scan of 0 is \<open>None\<close>.\<close>

definition rte_bsf32 :: "u32 \<Rightarrow> u32 option" where
  "rte_bsf32 v = (if v = 0 then None else Some (of_nat (ctz v)))"

definition rte_log2_u32 :: "u32 \<Rightarrow> u32 option" where
  "rte_log2_u32 v = (if v = 0 then Some 0 else rte_bsf32 (rte_align32pow2 v))"

text \<open>A shift by 64 or more is undefined, which is \<open>None\<close>.\<close>

definition RTE_LEN2MASK :: "u32 \<Rightarrow> u64 option" where
  "RTE_LEN2MASK ln =
     (let sh = 64 - ucast ln :: u64
      in if unat sh < 64 then Some (drop_bit (unat sh) (- 1)) else None)"

subsection \<open>Alignment: the multiple below and above\<close>

lemma ucast_pow2_minus_1:
  assumes "k < LENGTH('b)" "k < LENGTH('a)"
  shows "ucast ((2 ^ k :: 'b::len word) - 1) = (mask k :: 'a::len word)"
proof (rule bit_word_eqI)
  fix n assume "n < LENGTH('a)"
  then show "bit (ucast ((2 ^ k :: 'b word) - 1) :: 'a word) n = bit (mask k :: 'a word) n"
    using assms by (auto simp: bit_simps simp flip: mask_eq_pow2_minus_1)
qed


lemma and_not_mask_eq_push_drop: "w AND NOT (mask k) = push_bit k (drop_bit k w :: 'a::len word)"
  by (rule bit_word_eqI) (auto simp: bit_simps)

lemma unat_and_not_mask: "unat (w AND NOT (mask k) :: 'a::len word) = unat w div 2 ^ k * 2 ^ k"
proof -
  have "unat w div 2 ^ k * 2 ^ k < 2 ^ LENGTH('a)"
    by (rule order_le_less_trans [OF div_times_less_eq_dividend]) (rule unat_less_pow)
  moreover have "drop_bit k (unat w) * 2 ^ k = unat w div 2 ^ k * 2 ^ k"
    by (simp add: drop_bit_eq_div)
  ultimately show ?thesis
    unfolding and_not_mask_eq_push_drop unsigned_push_bit_eq unsigned_drop_bit_eq
    by (simp add: push_bit_eq_mult take_bit_eq_mod drop_bit_eq_div)
qed

lemma align_floor_pow2:
  assumes "k < LENGTH('a)" "k < LENGTH('b)"
  shows "unat (RTE_ALIGN_FLOOR (val :: 'a::len word) (2 ^ k :: 'b::len word)) = unat val div 2 ^ k * 2 ^ k"
  using assms by (simp add: RTE_ALIGN_FLOOR_def ucast_pow2_minus_1 unat_and_not_mask)

lemma ucast_pow2:
  assumes "k < LENGTH('b)" "k < LENGTH('a)"
  shows "ucast (2 ^ k :: 'b::len word) = (2 ^ k :: 'a::len word)"
  using assms by (intro bit_word_eqI) (auto simp: bit_simps)

text \<open>Rounding up on naturals, and the fact that rounding up is the least multiple above.\<close>

lemma nat_round_up: "0 < (m::nat) \<Longrightarrow> n \<le> (n + (m - 1)) div m * m"
proof -
  assume "0 < m"
  then have "(n + (m - 1)) mod m < m" by simp
  moreover have "(n + (m - 1)) div m * m = n + (m - 1) - (n + (m - 1)) mod m"
    by (simp only: minus_mod_eq_div_mult)
  ultimately show ?thesis by linarith
qed

lemma nat_round_up_least:
  assumes "0 < (m::nat)" "n \<le> q * m"
  shows "(n + (m - 1)) div m * m \<le> q * m"
proof -
  have "(n + (m - 1)) div m \<le> ((m - 1) + q * m) div m"
    using assms by (intro div_le_mono) simp
  also have "\<dots> = q" using assms by (subst div_mult_self1) simp_all
  finally show ?thesis by (rule mult_le_mono1)
qed

lemma unat_ceil_arg:
  assumes "k < LENGTH('a)" "k < LENGTH('b)" "unat val + (2 ^ k - 1) < 2 ^ LENGTH('a)"
  shows "unat ((val :: 'a::len word) + (ucast (2 ^ k :: 'b::len word) - 1)) = unat val + (2 ^ k - 1)"
proof -
  have m: "unat (2 ^ k - 1 :: 'a word) = 2 ^ k - 1"
    using unat_sub_le [of 1 "2 ^ k :: 'a word"] assms(1)
    by (simp add: unat_pow2 word_le_nat_alt)
  then show ?thesis
    using assms by (subst unat_add_no_wrap) (simp_all add: ucast_pow2)
qed

lemma align_ceil_pow2:
  assumes "k < LENGTH('a)" "k < LENGTH('b)" "unat val + (2 ^ k - 1) < 2 ^ LENGTH('a)"
  shows "unat (RTE_ALIGN_CEIL (val :: 'a::len word) (2 ^ k :: 'b::len word)) =
         (unat val + (2 ^ k - 1)) div 2 ^ k * 2 ^ k"
  unfolding RTE_ALIGN_CEIL_def
  using assms by (simp add: align_floor_pow2 unat_ceil_arg)

subsection \<open>Bit smearing\<close>

text \<open>One step of the cascade: a word that ors a window of \<open>m\<close> bits becomes one that ors \<open>2m\<close>.\<close>

lemma smear_step:
  fixes x y :: "'a::len word"
  assumes "\<And>i. bit y i \<longleftrightarrow> (\<exists>d<m. bit x (i + d))" "n = m + m"
  shows "bit (y OR drop_bit m y) i \<longleftrightarrow> (\<exists>d<n. bit x (i + d))"
proof -
  have "(\<exists>d<m + m. bit x (i + d)) \<longleftrightarrow> (\<exists>d<m. bit x (i + d)) \<or> (\<exists>d<m. bit x (i + (m + d)))"
    by (metis add.commute add_diff_inverse_nat less_diff_conv2 linorder_not_less nat_add_left_cancel_less
        trans_less_add1)
  then show ?thesis
    by (simp add: bit_or_iff bit_drop_bit_eq assms add.assoc add.left_commute)
qed

lemma window_full:
  assumes "LENGTH('a) \<le> m"
  shows "(\<exists>d<m. bit (x :: 'a::len word) (i + d)) \<longleftrightarrow> (\<exists>j\<ge>i. bit x j)"
proof
  assume "\<exists>j\<ge>i. bit x j"
  then obtain j where j: "i \<le> j" "bit x j" by blast
  then have "j < LENGTH('a)" by (auto dest: bit_imp_le_length)
  with j assms have "j - i < m" "bit x (i + (j - i))" by auto
  then show "\<exists>d<m. bit x (i + d)" by blast
next
  assume "\<exists>d<m. bit x (i + d)"
  then show "\<exists>j\<ge>i. bit x j" by (metis le_add1)
qed

lemma bit_combine32: "bit (rte_combine32ms1b x) i \<longleftrightarrow> (\<exists>j\<ge>i. bit x j)"
proof -
  define x1 where "x1 = x OR drop_bit 1 x"
  define x2 where "x2 = x1 OR drop_bit 2 x1"
  define x3 where "x3 = x2 OR drop_bit 4 x2"
  define x4 where "x4 = x3 OR drop_bit 8 x3"
  have "\<And>i. bit x1 i \<longleftrightarrow> (\<exists>d<2. bit x (i + d))" unfolding x1_def by (rule smear_step) simp_all
  then have "\<And>i. bit x2 i \<longleftrightarrow> (\<exists>d<4. bit x (i + d))" unfolding x2_def by (rule smear_step) simp
  then have "\<And>i. bit x3 i \<longleftrightarrow> (\<exists>d<8. bit x (i + d))" unfolding x3_def by (rule smear_step) simp
  then have "\<And>i. bit x4 i \<longleftrightarrow> (\<exists>d<16. bit x (i + d))" unfolding x4_def by (rule smear_step) simp
  then have "bit (x4 OR drop_bit 16 x4) i \<longleftrightarrow> (\<exists>d<32. bit x (i + d))" by (rule smear_step) simp
  moreover have "rte_combine32ms1b x = x4 OR drop_bit 16 x4"
    by (simp only: rte_combine32ms1b_def Let_def x1_def x2_def x3_def x4_def)
  ultimately show ?thesis by (simp add: window_full)
qed

lemma bit_combine64: "bit (rte_combine64ms1b x) i \<longleftrightarrow> (\<exists>j\<ge>i. bit x j)"
proof -
  define x1 where "x1 = x OR drop_bit 1 x"
  define x2 where "x2 = x1 OR drop_bit 2 x1"
  define x3 where "x3 = x2 OR drop_bit 4 x2"
  define x4 where "x4 = x3 OR drop_bit 8 x3"
  define x5 where "x5 = x4 OR drop_bit 16 x4"
  have "\<And>i. bit x1 i \<longleftrightarrow> (\<exists>d<2. bit x (i + d))" unfolding x1_def by (rule smear_step) simp_all
  then have "\<And>i. bit x2 i \<longleftrightarrow> (\<exists>d<4. bit x (i + d))" unfolding x2_def by (rule smear_step) simp
  then have "\<And>i. bit x3 i \<longleftrightarrow> (\<exists>d<8. bit x (i + d))" unfolding x3_def by (rule smear_step) simp
  then have "\<And>i. bit x4 i \<longleftrightarrow> (\<exists>d<16. bit x (i + d))" unfolding x4_def by (rule smear_step) simp
  then have "\<And>i. bit x5 i \<longleftrightarrow> (\<exists>d<32. bit x (i + d))" unfolding x5_def by (rule smear_step) simp
  then have "bit (x5 OR drop_bit 32 x5) i \<longleftrightarrow> (\<exists>d<64. bit x (i + d))" by (rule smear_step) simp
  moreover have "rte_combine64ms1b x = x5 OR drop_bit 32 x5"
    by (simp only: rte_combine64ms1b_def Let_def x1_def x2_def x3_def x4_def x5_def)
  ultimately show ?thesis by (simp add: window_full)
qed

text \<open>The smeared word in closed form: all ones up to the most significant bit.\<close>

lemma bit_top:
  "2 ^ m \<le> unat x \<Longrightarrow> unat x < 2 ^ Suc m \<Longrightarrow> bit (x :: 'a::len word) m"
  by (simp add: bit_word_iff_odd_unat div_nat_eqI [of _ 1])

lemma bit_above_top:
  assumes "unat x < 2 ^ m" "m \<le> j"
  shows "\<not> bit (x :: 'a::len word) j"
proof -
  have "(2::nat) ^ m \<le> 2 ^ j" using assms(2) by (intro power_increasing) auto
  then have "unat x < 2 ^ j" using assms(1) by linarith
  then show ?thesis by (simp add: bit_word_iff_odd_unat)
qed

lemma smeared_eq_mask:
  fixes x y :: "'a::len word"
  assumes "2 ^ m \<le> unat x" "unat x < 2 ^ Suc m" "\<And>i. bit y i \<longleftrightarrow> (\<exists>j\<ge>i. bit x j)"
  shows "y = mask (Suc m)"
proof (rule bit_word_eqI)
  fix n assume "n < LENGTH('a)"
  have "\<not> bit x j" if "n \<le> j" "\<not> n < Suc m" for j
    using that by (intro bit_above_top [OF assms(2)]) simp
  then show "bit y n = bit (mask (Suc m) :: 'a word) n"
    using bit_top [OF assms(1,2)] \<open>n < LENGTH('a)\<close>
    by (auto simp: assms(3) bit_mask_iff intro: exI [of _ m])
qed

lemma msb_exists:
  assumes "(x :: 'a::len word) \<noteq> 0"
  obtains m where "2 ^ m \<le> unat x" "unat x < 2 ^ Suc m" "m < LENGTH('a)"
proof -
  have "1 \<le> unat x" using assms by (simp add: Suc_le_eq unat_gt_0)
  then obtain m where m: "2 ^ m \<le> unat x" "unat x < 2 ^ (m + 1)"
    using ex_power_ivl1 [of 2 "unat x"] by auto
  then have "(2::nat) ^ m < 2 ^ LENGTH('a)"
    using unat_less_pow [of x] by (metis order_le_less_trans)
  with m show ?thesis by (intro that) auto
qed

lemma Least_pow2:
  assumes "2 ^ m < n" "n \<le> 2 ^ Suc m"
  shows "(LEAST k. n \<le> (2::nat) ^ k) = Suc m"
proof (rule Least_equality)
  fix k assume "n \<le> (2::nat) ^ k"
  with assms(1) have "(2::nat) ^ m < 2 ^ k" by (rule order_less_le_trans)
  then show "Suc m \<le> k" by simp
qed (rule assms(2))

lemma next_pow2:
  fixes x y :: "'a::len word"
  assumes "x \<noteq> 0" "unat x \<le> 2 ^ (LENGTH('a) - 1)"
    and y: "\<And>i. bit y i \<longleftrightarrow> (\<exists>j\<ge>i. bit (x - 1) j)"
  shows "y + 1 = 2 ^ (LEAST k. unat x \<le> 2 ^ k)" "(LEAST k. unat x \<le> 2 ^ k) < LENGTH('a)"
proof -
  have "y + 1 = 2 ^ (LEAST k. unat x \<le> 2 ^ k) \<and> (LEAST k. unat x \<le> 2 ^ k) < LENGTH('a)"
  proof (cases "x = 1")
    case True
    then have "y = 0" using y by (intro bit_word_eqI) simp
    moreover have "(LEAST k. (1::nat) \<le> 2 ^ k) = 0" by (rule Least_equality) auto
    ultimately show ?thesis using True by simp
  next
    case False
    then obtain m where m: "2 ^ m \<le> unat (x - 1)" "unat (x - 1) < 2 ^ Suc m"
      using msb_exists [of "x - 1"] by auto
    have u: "unat (x - 1) = unat x - 1" "0 < unat x"
      using assms(1) by (simp_all add: unat_minus_one unat_gt_0)
    have L: "(LEAST k. unat x \<le> 2 ^ k) = Suc m"
      using m u by (intro Least_pow2) linarith+
    have "(2::nat) ^ m < 2 ^ (LENGTH('a) - 1)" using m u assms(2) by linarith
    then have "Suc m < LENGTH('a)" by simp
    moreover have "y = mask (Suc m)" by (rule smeared_eq_mask [OF m y])
    ultimately show ?thesis by (simp add: L mask_eq_pow2_minus_1)
  qed
  then show "y + 1 = 2 ^ (LEAST k. unat x \<le> 2 ^ k)" "(LEAST k. unat x \<le> 2 ^ k) < LENGTH('a)"
    by auto
qed

lemma next_pow2_wraps:
  fixes x y :: "'a::len word"
  assumes "x = 0 \<or> 2 ^ (LENGTH('a) - 1) < unat x"
    and y: "\<And>i. bit y i \<longleftrightarrow> (\<exists>j\<ge>i. bit (x - 1) j)"
  shows "y + 1 = 0"
proof -
  have "bit (x - 1) (LENGTH('a) - 1)"
  proof (cases "x = 0")
    case False
    then have "unat (x - 1) = unat x - 1" by (simp add: unat_minus_one)
    then show ?thesis
      using assms(1) False unat_less_pow [of "x - 1"] by (intro bit_top) auto
  qed simp
  then have "y = - 1"
    by (intro bit_word_eqI) (auto simp: y intro: exI [of _ "LENGTH('a) - 1"])
  then show ?thesis by simp
qed

lemma prev_pow2:
  fixes x y :: "'a::len word"
  assumes m: "2 ^ m \<le> unat x" "unat x < 2 ^ Suc m" and y: "\<And>i. bit y i \<longleftrightarrow> (\<exists>j\<ge>i. bit x j)"
  shows "y - drop_bit 1 y = 2 ^ m"
proof -
  have "(2::nat) ^ m < 2 ^ LENGTH('a)"
    using m(1) unat_less_pow [of x] by (metis order_le_less_trans)
  then have "m < LENGTH('a)" by simp
  then have "drop_bit 1 (mask (Suc m) :: 'a word) = mask m"
    by (intro bit_word_eqI) (auto simp: bit_simps)
  then have "y - drop_bit 1 y = mask (Suc m) - mask m"
    by (simp only: smeared_eq_mask [OF m y])
  then show ?thesis by (simp add: mask_eq_pow2_minus_1)
qed

subsection \<open>What the routines compute\<close>

lemma rte_align64pow2_eq:
  "rte_align64pow2 v =
     (if v = 0 \<or> 2 ^ 63 < unat v then 0 else 2 ^ (LEAST k. unat v \<le> 2 ^ k))"
  unfolding rte_align64pow2_def
  using next_pow2 [OF _ _ bit_combine64, of v] next_pow2_wraps [OF _ bit_combine64, of v]
  by (auto simp: not_less)

lemma rte_align32prevpow2_eq:
  assumes "2 ^ m \<le> unat x" "unat x < 2 ^ Suc m"
  shows "rte_align32prevpow2 x = 2 ^ m"
  unfolding rte_align32prevpow2_def Let_def by (rule prev_pow2 [OF assms bit_combine32])

lemma rte_align64prevpow2_eq:
  assumes "2 ^ m \<le> unat x" "unat x < 2 ^ Suc m"
  shows "rte_align64prevpow2 x = 2 ^ m"
  unfolding rte_align64prevpow2_def Let_def by (rule prev_pow2 [OF assms bit_combine64])

lemma rte_align32pow2_eq:
  "rte_align32pow2 x =
     (if x = 0 \<or> 2 ^ 31 < unat x then 0 else 2 ^ (LEAST k. unat x \<le> 2 ^ k))"
  unfolding rte_align32pow2_def
  using next_pow2 [OF _ _ bit_combine32, of x] next_pow2_wraps [OF _ bit_combine32, of x]
  by (auto simp: not_less)

text \<open>
  \<open>rte_align32pow2\<close> returns the least power of two that is at least its argument, for every
  argument from 1 to \<open>2 ^ 31\<close>; for 0 and for every larger argument the addition wraps and it
  returns 0.
\<close>

theorem rte_align32pow2_least:
  "rte_align32pow2 x =
     (if x = 0 \<or> 2 ^ 31 < unat x then 0 else 2 ^ (LEAST k. unat x \<le> 2 ^ k))"
  by (rule rte_align32pow2_eq)

lemma ctz_pow2: "k < LENGTH('a) \<Longrightarrow> ctz (2 ^ k :: 'a::len word) = k"
  by (rule ctz_eqI) (auto simp: bit_simps)

text \<open>
  \<open>rte_log2_u32\<close> returns the binary logarithm rounded up for every argument up to \<open>2 ^ 31\<close>.  Above
  \<open>2 ^ 31\<close> the aligned value has wrapped to 0 and the function runs \<open>__builtin_ctz(0)\<close>, whose
  result is undefined (the value \<open>None\<close>).
\<close>

theorem rte_log2_u32_spec:
  "rte_log2_u32 v =
     (if v = 0 then Some 0 else if 2 ^ 31 < unat v then None
      else Some (of_nat (LEAST k. unat v \<le> 2 ^ k)))"
proof (cases "v = 0 \<or> 2 ^ 31 < unat v")
  case True
  then show ?thesis by (auto simp: rte_log2_u32_def rte_bsf32_def rte_align32pow2_eq)
next
  case False
  then have "(LEAST k. unat v \<le> 2 ^ k) < LENGTH(32)"
    by (intro next_pow2(2) [OF _ _ bit_combine32]) auto
  then have "rte_align32pow2 v \<noteq> 0" "ctz (rte_align32pow2 v) = (LEAST k. unat v \<le> 2 ^ k)"
    using False ctz_pow2 [of "LEAST k. unat v \<le> 2 ^ k", where 'a = 32]
    by (auto simp: rte_align32pow2_eq)
  then show ?thesis using False by (simp add: rte_log2_u32_def rte_bsf32_def)
qed

lemma is_power_of_2_pow: "rte_is_power_of_2 n \<longleftrightarrow> (\<exists>k<32. n = 2 ^ k)"
proof
  assume r: "rte_is_power_of_2 n"
  then obtain m where m: "2 ^ m \<le> unat n" "unat n < 2 ^ Suc m" "m < 32"
    using msb_exists [of n] by (auto simp: rte_is_power_of_2_def)
  have "unat n = 2 ^ m"
  proof (rule ccontr)
    assume "unat n \<noteq> 2 ^ m"
    then have "2 ^ m \<le> unat (n - 1)" "unat (n - 1) < 2 ^ Suc m"
      using m r by (auto simp: rte_is_power_of_2_def unat_minus_one)
    then have "bit (n AND (n - 1)) m"
      using m by (simp add: bit_and_iff bit_top)
    then show False using r by (auto simp: rte_is_power_of_2_def)
  qed
  then have "n = 2 ^ m" using m by (intro word_unat_eq_iff [THEN iffD2]) (simp add: unat_pow2)
  with m show "\<exists>k<32. n = 2 ^ k" by blast
next
  assume "\<exists>k<32. n = 2 ^ k"
  then obtain k where k: "k < 32" "n = 2 ^ k" by blast
  have "(2 ^ k :: u32) AND mask k = 0"
    by (rule bit_word_eqI) (auto simp: bit_simps)
  then show "rte_is_power_of_2 n"
    using k by (auto simp: rte_is_power_of_2_def mask_eq_pow2_minus_1)
qed

text \<open>
  \<open>rte_is_power_of_2\<close> accepts exactly the 32-bit powers of two; 0 is rejected.
\<close>

theorem rte_is_power_of_2_iff: "rte_is_power_of_2 n \<longleftrightarrow> (\<exists>k<32. n = 2 ^ k)"
  by (rule is_power_of_2_pow)

text \<open>
  \<open>RTE_ALIGN_CEIL\<close> with a power-of-two alignment returns a multiple of it, not below the value,
  and not above any other multiple that is not below the value, unless the addition overflows.
\<close>

theorem RTE_ALIGN_CEIL_least_multiple:
  fixes val :: u64 and k :: nat
  assumes "k < 64" and "unat val + (2 ^ k - 1) < 2 ^ 64"
  shows "2 ^ k dvd unat (RTE_ALIGN_CEIL val (2 ^ k :: u64)) \<and>
         unat val \<le> unat (RTE_ALIGN_CEIL val (2 ^ k :: u64)) \<and>
         \<not> (\<exists>q. unat val \<le> q * 2 ^ k \<and> q * 2 ^ k < unat (RTE_ALIGN_CEIL val (2 ^ k :: u64)))"
proof -
  have "unat (RTE_ALIGN_CEIL val (2 ^ k :: u64)) = (unat val + (2 ^ k - 1)) div 2 ^ k * 2 ^ k"
    using assms by (intro align_ceil_pow2) auto
  then show ?thesis
    using nat_round_up [of "2 ^ k" "unat val"] nat_round_up_least [of "2 ^ k" "unat val"]
    by (auto simp: not_less)
qed

theorem RTE_ALIGN_CEIL_least_multiple_witness:
  "2 ^ 6 dvd unat (RTE_ALIGN_CEIL (100 :: u64) (2 ^ 6 :: u64)) \<and>
   RTE_ALIGN_CEIL (100 :: u64) (2 ^ 6 :: u64) = 128"
  using RTE_ALIGN_CEIL_least_multiple [of 6 100]
  by (simp add: RTE_ALIGN_CEIL_def RTE_ALIGN_FLOOR_def)

end
