(* ===== verification/Rte_Ring.thy ===== *)
theory Rte_Ring
  imports Rte_Common
begin

text \<open>
  The lockless ring of \<open>dpdk_ring/\<close> (\<open>rte_ring.h\<close>, \<open>rte_ring_c11_mem.h\<close>, \<open>rte_ring.c\<close>), one
  definition per macro and function.  The header of \<open>struct rte_ring\<close> is a record, the object table
  that follows it in memory is the list \<open>r_table\<close>; indexes are 32-bit words that wrap.  A run here is
  one call at a time: the head moves by a compare-and-set that nobody disturbs, and the waiting loop
  of \<open>update_tail\<close> either ends at once or spins for ever.  \<open>None\<close> is an access outside a table or a
  loop that does not end.
\<close>

subsection \<open>Data (rte_ring.h)\<close>

datatype rte_ring_queue_behavior = RTE_RING_QUEUE_FIXED | RTE_RING_QUEUE_VARIABLE

record rte_ring_headtail =
  ht_head :: u32
  ht_tail :: u32
  ht_single :: u32

record 'a rte_ring =
  r_flags :: u32
  r_size :: u32
  r_mask :: u32
  r_capacity :: u32
  r_prod :: rte_ring_headtail
  r_cons :: rte_ring_headtail
  r_table :: "'a list"

definition RING_F_SP_ENQ :: u32 where "RING_F_SP_ENQ = 0x0001"
definition RING_F_SC_DEQ :: u32 where "RING_F_SC_DEQ = 0x0002"
definition RTE_RING_SZ_MASK :: u32 where "RTE_RING_SZ_MASK = 0x7fffffff"
definition IS_SP :: u32 where "IS_SP = 1"
definition IS_MP :: u32 where "IS_MP = 0"
definition IS_SC :: u32 where "IS_SC = 1"
definition IS_MC :: u32 where "IS_MC = 0"

subsection \<open>The pointer copies\<close>

text \<open>
  \<open>ENQUEUE_PTRS\<close> and \<open>DEQUEUE_PTRS\<close> are the same loops around an assignment \<open>ring[idx] = obj[i]\<close> or
  \<open>obj[i] = ring[idx]\<close>: four assignments a round, the rest by the falling-through switch, or, at the
  end of the table, one loop to the end and one from the start.  The loops take the assignment as
  the argument \<open>put\<close>, which gets the state it updates, \<open>idx\<close> and \<open>i\<close>.
\<close>

partial_function (option) ptrs_by_four ::
    "('s \<Rightarrow> u32 \<Rightarrow> u32 \<Rightarrow> 's option) \<Rightarrow> u32 \<Rightarrow> 's \<Rightarrow> u32 \<Rightarrow> u32 \<Rightarrow> ('s \<times> u32 \<times> u32) option" where
  "ptrs_by_four put lim s idx i =
     (if i < lim then do {
        s \<leftarrow> put s idx i;
        s \<leftarrow> put s (idx + 1) (i + 1);
        s \<leftarrow> put s (idx + 2) (i + 2);
        s \<leftarrow> put s (idx + 3) (i + 3);
        ptrs_by_four put lim s (idx + 4) (i + 4) }
      else Some (s, idx, i))"

definition ptrs_rest ::
    "('s \<Rightarrow> u32 \<Rightarrow> u32 \<Rightarrow> 's option) \<Rightarrow> u32 \<Rightarrow> 's \<Rightarrow> u32 \<Rightarrow> u32 \<Rightarrow> 's option" where
  "ptrs_rest put n s idx i =
     (if n AND 3 = 3 then do {
        s \<leftarrow> put s idx i; s \<leftarrow> put s (idx + 1) (i + 1); put s (idx + 2) (i + 2) }
      else if n AND 3 = 2 then do { s \<leftarrow> put s idx i; put s (idx + 1) (i + 1) }
      else if n AND 3 = 1 then put s idx i
      else Some s)"

partial_function (option) ptrs_to_end ::
    "('s \<Rightarrow> u32 \<Rightarrow> u32 \<Rightarrow> 's option) \<Rightarrow> u32 \<Rightarrow> 's \<Rightarrow> u32 \<Rightarrow> u32 \<Rightarrow> ('s \<times> u32) option" where
  "ptrs_to_end put sz s idx i =
     (if idx < sz then do { s \<leftarrow> put s idx i; ptrs_to_end put sz s (idx + 1) (i + 1) }
      else Some (s, i))"

partial_function (option) ptrs_from_start ::
    "('s \<Rightarrow> u32 \<Rightarrow> u32 \<Rightarrow> 's option) \<Rightarrow> u32 \<Rightarrow> 's \<Rightarrow> u32 \<Rightarrow> u32 \<Rightarrow> 's option" where
  "ptrs_from_start put n s idx i =
     (if i < n then do { s \<leftarrow> put s idx i; ptrs_from_start put n s (idx + 1) (i + 1) }
      else Some s)"

definition copy_ptrs ::
    "('s \<Rightarrow> u32 \<Rightarrow> u32 \<Rightarrow> 's option) \<Rightarrow> u32 \<Rightarrow> u32 \<Rightarrow> u32 \<Rightarrow> 's \<Rightarrow> 's option" where
  "copy_ptrs put sz idx n s =
     (if idx + n < sz then do {
        (s, idx, i) \<leftarrow> ptrs_by_four put (n AND NOT 3) s idx 0;
        ptrs_rest put n s idx i }
      else do {
        (s, i) \<leftarrow> ptrs_to_end put sz s idx 0;
        ptrs_from_start put n s 0 i })"

definition ENQUEUE_PTRS :: "'a rte_ring \<Rightarrow> u32 \<Rightarrow> 'a list \<Rightarrow> u32 \<Rightarrow> 'a rte_ring option" where
  "ENQUEUE_PTRS r prod_head obj_table n =
     map_option (\<lambda>t. r\<lparr>r_table := t\<rparr>)
       (copy_ptrs (\<lambda>ring idx i. Option.bind (rd obj_table i) (wr ring idx))
          (r_size r) (prod_head AND r_mask r) n (r_table r))"

definition DEQUEUE_PTRS :: "'a rte_ring \<Rightarrow> u32 \<Rightarrow> 'a list \<Rightarrow> u32 \<Rightarrow> 'a list option" where
  "DEQUEUE_PTRS r cons_head obj_table n =
     copy_ptrs (\<lambda>objs idx i. Option.bind (rd (r_table r) idx) (wr objs i))
       (r_size r) (cons_head AND r_mask r) n obj_table"

subsection \<open>Moving the heads and publishing the tails (rte_ring_c11_mem.h)\<close>

partial_function (option) update_tail ::
    "rte_ring_headtail \<Rightarrow> u32 \<Rightarrow> u32 \<Rightarrow> u32 \<Rightarrow> rte_ring_headtail option" where
  "update_tail ht old_val new_val single =
     (if single = 0 \<and> ht_tail ht \<noteq> old_val then update_tail ht old_val new_val single
      else Some (ht\<lparr>ht_tail := new_val\<rparr>))"

text \<open>The outcome of moving a head: how many entries there were, and the range taken, if any.\<close>

datatype head_move = Head_stays u32 | Head_moved u32 u32 u32 u32

text \<open>\<open>n\<close> cut down to what is available, as the behavior says.\<close>

definition clip_count :: "u32 \<Rightarrow> rte_ring_queue_behavior \<Rightarrow> u32 \<Rightarrow> u32" where
  "clip_count n behavior entries =
     (if n > entries then (if behavior = RTE_RING_QUEUE_FIXED then 0 else entries) else n)"

partial_function (option) rte_ring_move_prod_head ::
    "'a rte_ring \<Rightarrow> u32 \<Rightarrow> u32 \<Rightarrow> rte_ring_queue_behavior \<Rightarrow> ('a rte_ring \<times> head_move) option" where
  "rte_ring_move_prod_head r is_sp n0 behavior =
     (let old_head = ht_head (r_prod r);
          free_entries = r_capacity r + ht_tail (r_cons r) - old_head;
          n = clip_count n0 behavior free_entries;
          new_head = old_head + n;
          r' = r\<lparr>r_prod := (r_prod r)\<lparr>ht_head := new_head\<rparr>\<rparr>
      in if n = 0 then Some (r, Head_stays free_entries)
         else if is_sp \<noteq> 0 then Some (r', Head_moved n old_head new_head free_entries)
         else if ht_head (r_prod r) = old_head
           then Some (r', Head_moved n old_head new_head free_entries)
         else rte_ring_move_prod_head r is_sp n0 behavior)"

partial_function (option) rte_ring_move_cons_head ::
    "'a rte_ring \<Rightarrow> u32 \<Rightarrow> u32 \<Rightarrow> rte_ring_queue_behavior \<Rightarrow> ('a rte_ring \<times> head_move) option" where
  "rte_ring_move_cons_head r is_sc n0 behavior =
     (let old_head = ht_head (r_cons r);
          entries = ht_tail (r_prod r) - old_head;
          n = clip_count n0 behavior entries;
          new_head = old_head + n;
          r' = r\<lparr>r_cons := (r_cons r)\<lparr>ht_head := new_head\<rparr>\<rparr>
      in if n = 0 then Some (r, Head_stays entries)
         else if is_sc \<noteq> 0 then Some (r', Head_moved n old_head new_head entries)
         else if ht_head (r_cons r) = old_head
           then Some (r', Head_moved n old_head new_head entries)
         else rte_ring_move_cons_head r is_sc n0 behavior)"

subsection \<open>Enqueue and dequeue (rte_ring.h)\<close>

text \<open>The results are the ring, the number of objects, and what \<open>*free_space\<close> or \<open>*available\<close> gets.\<close>

definition rte_ring_do_enqueue ::
    "'a rte_ring \<Rightarrow> 'a list \<Rightarrow> u32 \<Rightarrow> rte_ring_queue_behavior \<Rightarrow> u32 \<Rightarrow> ('a rte_ring \<times> u32 \<times> u32) option" where
  "rte_ring_do_enqueue r obj_table n behavior is_sp = do {
     (r, mv) \<leftarrow> rte_ring_move_prod_head r is_sp n behavior;
     case mv of
       Head_stays free_entries \<Rightarrow> Some (r, 0, free_entries - 0)
     | Head_moved n prod_head prod_next free_entries \<Rightarrow> do {
         r \<leftarrow> ENQUEUE_PTRS r prod_head obj_table n;
         ht \<leftarrow> update_tail (r_prod r) prod_head prod_next is_sp;
         Some (r\<lparr>r_prod := ht\<rparr>, n, free_entries - n) } }"

definition rte_ring_do_dequeue ::
    "'a rte_ring \<Rightarrow> 'a list \<Rightarrow> u32 \<Rightarrow> rte_ring_queue_behavior \<Rightarrow> u32 \<Rightarrow>
     ('a rte_ring \<times> 'a list \<times> u32 \<times> u32) option" where
  "rte_ring_do_dequeue r obj_table n behavior is_sc = do {
     (r, mv) \<leftarrow> rte_ring_move_cons_head r is_sc n behavior;
     case mv of
       Head_stays entries \<Rightarrow> Some (r, obj_table, 0, entries - 0)
     | Head_moved n cons_head cons_next entries \<Rightarrow> do {
         objs \<leftarrow> DEQUEUE_PTRS r cons_head obj_table n;
         ht \<leftarrow> update_tail (r_cons r) cons_head cons_next is_sc;
         Some (r\<lparr>r_cons := ht\<rparr>, objs, n, entries - n) } }"

definition ENOBUFS :: int where "ENOBUFS = 1"
definition ENOENT :: int where "ENOENT = 1"

text \<open>The public operations: fixed or variable count, single, multiple or default producer.\<close>

definition rte_ring_mp_enqueue_bulk where
  "rte_ring_mp_enqueue_bulk r obj_table n =
     rte_ring_do_enqueue r obj_table n RTE_RING_QUEUE_FIXED IS_MP"

definition rte_ring_sp_enqueue_bulk where
  "rte_ring_sp_enqueue_bulk r obj_table n =
     rte_ring_do_enqueue r obj_table n RTE_RING_QUEUE_FIXED IS_SP"

definition rte_ring_enqueue_bulk where
  "rte_ring_enqueue_bulk r obj_table n =
     rte_ring_do_enqueue r obj_table n RTE_RING_QUEUE_FIXED (ht_single (r_prod r))"

definition rte_ring_mp_enqueue_burst where
  "rte_ring_mp_enqueue_burst r obj_table n =
     rte_ring_do_enqueue r obj_table n RTE_RING_QUEUE_VARIABLE IS_MP"

definition rte_ring_sp_enqueue_burst where
  "rte_ring_sp_enqueue_burst r obj_table n =
     rte_ring_do_enqueue r obj_table n RTE_RING_QUEUE_VARIABLE IS_SP"

definition rte_ring_enqueue_burst where
  "rte_ring_enqueue_burst r obj_table n =
     rte_ring_do_enqueue r obj_table n RTE_RING_QUEUE_VARIABLE (ht_single (r_prod r))"

definition rte_ring_mp_enqueue :: "'a rte_ring \<Rightarrow> 'a \<Rightarrow> ('a rte_ring \<times> int) option" where
  "rte_ring_mp_enqueue r obj =
     map_option (\<lambda>(r, n, _). (r, if n \<noteq> 0 then 0 else - ENOBUFS)) (rte_ring_mp_enqueue_bulk r [obj] 1)"

definition rte_ring_sp_enqueue :: "'a rte_ring \<Rightarrow> 'a \<Rightarrow> ('a rte_ring \<times> int) option" where
  "rte_ring_sp_enqueue r obj =
     map_option (\<lambda>(r, n, _). (r, if n \<noteq> 0 then 0 else - ENOBUFS)) (rte_ring_sp_enqueue_bulk r [obj] 1)"

definition rte_ring_enqueue :: "'a rte_ring \<Rightarrow> 'a \<Rightarrow> ('a rte_ring \<times> int) option" where
  "rte_ring_enqueue r obj =
     map_option (\<lambda>(r, n, _). (r, if n \<noteq> 0 then 0 else - ENOBUFS)) (rte_ring_enqueue_bulk r [obj] 1)"

definition rte_ring_mc_dequeue_bulk where
  "rte_ring_mc_dequeue_bulk r obj_table n =
     rte_ring_do_dequeue r obj_table n RTE_RING_QUEUE_FIXED IS_MC"

definition rte_ring_sc_dequeue_bulk where
  "rte_ring_sc_dequeue_bulk r obj_table n =
     rte_ring_do_dequeue r obj_table n RTE_RING_QUEUE_FIXED IS_SC"

definition rte_ring_dequeue_bulk where
  "rte_ring_dequeue_bulk r obj_table n =
     rte_ring_do_dequeue r obj_table n RTE_RING_QUEUE_FIXED (ht_single (r_cons r))"

definition rte_ring_mc_dequeue_burst where
  "rte_ring_mc_dequeue_burst r obj_table n =
     rte_ring_do_dequeue r obj_table n RTE_RING_QUEUE_VARIABLE IS_MC"

definition rte_ring_sc_dequeue_burst where
  "rte_ring_sc_dequeue_burst r obj_table n =
     rte_ring_do_dequeue r obj_table n RTE_RING_QUEUE_VARIABLE IS_SC"

definition rte_ring_dequeue_burst where
  "rte_ring_dequeue_burst r obj_table n =
     rte_ring_do_dequeue r obj_table n RTE_RING_QUEUE_VARIABLE (ht_single (r_cons r))"

text \<open>The pointer \<open>obj_p\<close> is a table of one cell, which holds \<open>old\<close> before the call.\<close>

definition rte_ring_mc_dequeue :: "'a rte_ring \<Rightarrow> 'a \<Rightarrow> ('a rte_ring \<times> 'a \<times> int) option" where
  "rte_ring_mc_dequeue r old =
     map_option (\<lambda>(r, objs, n, _). (r, hd objs, if n \<noteq> 0 then 0 else - ENOENT))
       (rte_ring_mc_dequeue_bulk r [old] 1)"

definition rte_ring_sc_dequeue :: "'a rte_ring \<Rightarrow> 'a \<Rightarrow> ('a rte_ring \<times> 'a \<times> int) option" where
  "rte_ring_sc_dequeue r old =
     map_option (\<lambda>(r, objs, n, _). (r, hd objs, if n \<noteq> 0 then 0 else - ENOENT))
       (rte_ring_sc_dequeue_bulk r [old] 1)"

definition rte_ring_dequeue :: "'a rte_ring \<Rightarrow> 'a \<Rightarrow> ('a rte_ring \<times> 'a \<times> int) option" where
  "rte_ring_dequeue r old =
     map_option (\<lambda>(r, objs, n, _). (r, hd objs, if n \<noteq> 0 then 0 else - ENOENT))
       (rte_ring_dequeue_bulk r [old] 1)"

definition rte_ring_count :: "'a rte_ring \<Rightarrow> u32" where
  "rte_ring_count r =
     (let prod_tail = ht_tail (r_prod r);
          cons_tail = ht_tail (r_cons r);
          count = (prod_tail - cons_tail) AND r_mask r
      in if count > r_capacity r then r_capacity r else count)"

definition rte_ring_free_count :: "'a rte_ring \<Rightarrow> u32" where
  "rte_ring_free_count r = r_capacity r - rte_ring_count r"

definition rte_ring_full :: "'a rte_ring \<Rightarrow> bool" where
  "rte_ring_full r = (rte_ring_free_count r = 0)"

definition rte_ring_empty :: "'a rte_ring \<Rightarrow> bool" where
  "rte_ring_empty r = (rte_ring_count r = 0)"

definition rte_ring_get_size :: "'a rte_ring \<Rightarrow> u32" where
  "rte_ring_get_size r = r_size r"

definition rte_ring_get_capacity :: "'a rte_ring \<Rightarrow> u32" where
  "rte_ring_get_capacity r = r_capacity r"

subsection \<open>Creation (rte_ring.c)\<close>

definition POWEROF2 :: "'a::len word \<Rightarrow> bool" where
  "POWEROF2 x = ((x - 1) AND x = 0)"

text \<open>
  \<open>sizeof(struct rte_ring)\<close>: \<open>flags\<close>, \<open>pad0\<close>, \<open>prod\<close>, \<open>pad1\<close>, \<open>cons\<close> and \<open>pad2\<close> each start a
  64-byte cache line.
\<close>

definition sizeof_rte_ring :: u64 where "sizeof_rte_ring = 6 * 64"

definition rte_ring_get_memsize :: "u32 \<Rightarrow> u64" where
  "rte_ring_get_memsize count =
     (if \<not> POWEROF2 count \<or> count > RTE_RING_SZ_MASK then 0
      else RTE_ALIGN (sizeof_rte_ring + ucast count * 8) (64 :: u32))"

definition rte_ring_init :: "'a rte_ring \<Rightarrow> u32 \<Rightarrow> u32 \<Rightarrow> 'a rte_ring" where
  "rte_ring_init r count flags =
     r\<lparr>r_flags := flags, r_size := count, r_mask := count - 1, r_capacity := count - 1,
       r_prod := \<lparr>ht_head = 0, ht_tail = 0,
                  ht_single = (if flags AND RING_F_SP_ENQ \<noteq> 0 then IS_SP else IS_MP)\<rparr>,
       r_cons := \<lparr>ht_head = 0, ht_tail = 0,
                  ht_single = (if flags AND RING_F_SC_DEQ \<noteq> 0 then IS_SC else IS_MC)\<rparr>\<rparr>"

text \<open>
  \<open>malloc\<close> is a parameter: for a size in bytes it gives the memory as a ring whose fields and cells
  are arbitrary, or \<open>None\<close> for \<open>NULL\<close>.  The result \<open>None\<close> is the code's \<open>NULL\<close>.
\<close>

definition rte_ring_create :: "(u64 \<Rightarrow> 'a rte_ring option) \<Rightarrow> u32 \<Rightarrow> u32 \<Rightarrow> 'a rte_ring option" where
  "rte_ring_create malloc count flags =
     (let ring_size = rte_ring_get_memsize count
      in if sint ring_size \<le> 0 then None
         else case malloc ring_size of
           None \<Rightarrow> None
         | Some r \<Rightarrow> Some (rte_ring_init r count flags))"

text \<open>What C promises of \<open>malloc\<close>: the block has room for the header and the cells after it.\<close>

definition malloc_gives_room :: "(u64 \<Rightarrow> 'a rte_ring option) \<Rightarrow> bool" where
  "malloc_gives_room malloc \<longleftrightarrow>
     (\<forall>sz r. malloc sz = Some r \<longrightarrow> length (r_table r) = (unat sz - unat sizeof_rte_ring) div 8)"

text \<open>The lines \<open>rte_ring_dump\<close> prints, as the labels and the values they show.\<close>

definition rte_ring_dump :: "'a rte_ring \<Rightarrow> (string \<times> u32) list" where
  "rte_ring_dump r =
     [(''  flags'', r_flags r), (''  size'', r_size r), (''  capacity'', r_capacity r),
      (''  ct'', ht_tail (r_cons r)), (''  ch'', ht_head (r_cons r)),
      (''  pt'', ht_tail (r_prod r)), (''  ph'', ht_head (r_prod r)),
      (''  used'', rte_ring_count r), (''  avail'', rte_ring_free_count r)]"

subsection \<open>The copy loops make \<open>n\<close> assignments in order\<close>

fun iter_put :: "('s \<Rightarrow> u32 \<Rightarrow> u32 \<Rightarrow> 's option) \<Rightarrow> nat \<Rightarrow> 's \<Rightarrow> u32 \<Rightarrow> u32 \<Rightarrow> 's option" where
  "iter_put put 0 s idx i = Some s"
| "iter_put put (Suc k) s idx i = Option.bind (put s idx i) (\<lambda>s. iter_put put k s (idx + 1) (i + 1))"

lemma iter_put_add:
  "iter_put put (a + b) s idx i =
   Option.bind (iter_put put a s idx i) (\<lambda>s. iter_put put b s (idx + of_nat a) (i + of_nat a))"
proof (induction a arbitrary: s idx i)
  case 0
  then show ?case by simp
next
  case (Suc a)
  then show ?case by (cases "put s idx i") (simp_all add: algebra_simps)
qed

lemma ptrs_by_four_eq:
  "unat i + 4 * k = unat lim \<Longrightarrow>
   ptrs_by_four put lim s idx i =
     map_option (\<lambda>s. (s, idx + of_nat (4 * k), lim)) (iter_put put (4 * k) s idx i)"
proof (induction k arbitrary: s idx i)
  case 0
  then have "i = lim" by (simp add: word_unat_eq_iff)
  then show ?case by (subst ptrs_by_four.simps) simp
next
  case (Suc k)
  have lt: "i < lim" using Suc.prems by (simp add: word_less_nat_alt)
  have "unat (i + of_nat 4) = unat i + 4"
    using Suc.prems unat_less_pow [of lim] by (intro unat_add_of_nat) simp
  then have "unat (i + 4) + 4 * k = unat lim" using Suc.prems by simp
  note IH = Suc.IH [OF this]
  have four: "iter_put put (4 + m) s idx i = do {
      s \<leftarrow> put s idx i; s \<leftarrow> put s (idx + 1) (i + 1); s \<leftarrow> put s (idx + 2) (i + 2);
      s \<leftarrow> put s (idx + 3) (i + 3); iter_put put m s (idx + 4) (i + 4) }" for m
    by (simp add: numeral_eq_Suc add.assoc)
  have "4 * Suc k = 4 + 4 * k" by simp
  then show ?case
    using lt by (subst ptrs_by_four.simps) (simp only: four IH, auto simp: algebra_simps bind_eq_None_conv
        split: bind_splits)
qed

lemma ptrs_rest_eq: "ptrs_rest put n s idx i = iter_put put (unat (n AND 3)) s idx i"
proof -
  have it: "iter_put put 2 s idx i = Option.bind (put s idx i) (\<lambda>s. put s (idx + 1) (i + 1))"
    "iter_put put 3 s idx i = Option.bind (put s idx i)
       (\<lambda>s. Option.bind (put s (idx + 1) (i + 1)) (\<lambda>s. put s (idx + 2) (i + 2)))"
    by (simp_all add: numeral_eq_Suc add.assoc)
  have "n AND 3 = n AND mask 2" by (simp add: mask_eq_exp_minus_1)
  then have "unat (n AND 3) < 4" by (simp add: unat_and_mask)
  moreover have w: "n AND 3 = of_nat (unat (n AND 3))" by simp
  ultimately consider "unat (n AND 3) = 0" | "unat (n AND 3) = 1" | "unat (n AND 3) = 2" | "unat (n AND 3) = 3"
    by linarith
  then show ?thesis
  proof cases
    case 1
    then have "n AND 3 = 0" by (simp add: unat_eq_zero)
    then show ?thesis by (simp add: ptrs_rest_def)
  next
    case 2
    then have "n AND 3 = 1" using w by (metis of_nat_1)
    then show ?thesis by (simp add: ptrs_rest_def)
  next
    case 3
    then have "n AND 3 = 2" using w by (metis of_nat_numeral)
    then show ?thesis by (simp add: ptrs_rest_def it)
  next
    case 4
    then have "n AND 3 = 3" using w by (metis of_nat_numeral)
    then show ?thesis by (simp add: ptrs_rest_def it)
  qed
qed

lemma ptrs_to_end_eq:
  "unat idx + k = unat sz \<Longrightarrow>
   ptrs_to_end put sz s idx i = map_option (\<lambda>s. (s, i + of_nat k)) (iter_put put k s idx i)"
proof (induction k arbitrary: s idx i)
  case 0
  then have "idx = sz" by (simp add: word_unat_eq_iff)
  then show ?case by (subst ptrs_to_end.simps) simp
next
  case (Suc k)
  have lt: "idx < sz" using Suc.prems by (simp add: word_less_nat_alt)
  have "unat (idx + of_nat 1) = unat idx + 1"
    using Suc.prems unat_less_pow [of sz] by (intro unat_add_of_nat) simp
  then have "unat (idx + 1) + k = unat sz" using Suc.prems by simp
  note IH = Suc.IH [OF this]
  show ?case
    using lt by (subst ptrs_to_end.simps) (cases "put s idx i", simp_all add: IH add.assoc)
qed

lemma ptrs_from_start_eq:
  "unat i + k = unat n \<Longrightarrow> ptrs_from_start put n s idx i = iter_put put k s idx i"
proof (induction k arbitrary: s idx i)
  case 0
  then have "i = n" by (simp add: word_unat_eq_iff)
  then show ?case by (subst ptrs_from_start.simps) simp
next
  case (Suc k)
  have lt: "i < n" using Suc.prems by (simp add: word_less_nat_alt)
  have "unat (i + of_nat 1) = unat i + 1"
    using Suc.prems unat_less_pow [of n] by (intro unat_add_of_nat) simp
  then have "unat (i + 1) + k = unat n" using Suc.prems by simp
  note IH = Suc.IH [OF this]
  show ?case
    using lt by (subst ptrs_from_start.simps) (cases "put s idx i", simp_all add: IH)
qed

lemma unat_and_not_3: "unat (n AND NOT 3 :: u32) = 4 * (unat n div 4)"
  using unat_and_not_mask [of n 2] by (simp add: mask_eq_exp_minus_1)

lemma unat_and_3: "unat (n AND 3 :: u32) = unat n mod 4"
  using unat_and_mask [of n 2] by (simp add: mask_eq_exp_minus_1)

lemma copy_ptrs_eq:
  assumes "idx < sz" "unat idx + unat n < 2 ^ 32" "unat n \<le> unat sz"
  shows "copy_ptrs put sz idx n s =
    (if unat idx + unat n < unat sz then iter_put put (unat n) s idx 0
     else Option.bind (iter_put put (unat sz - unat idx) s idx 0)
       (\<lambda>s. iter_put put (unat n - (unat sz - unat idx)) s 0 (sz - idx)))"
proof (cases "unat idx + unat n < unat sz")
  case True
  have "unat (idx + n) = unat idx + unat n" using assms(2) by (intro unat_add_no_wrap) simp
  then have lt: "idx + n < sz" using True by (simp add: word_less_nat_alt)
  define m where "m = 4 * (unat n div 4)"
  have m: "unat (n AND NOT 3) = m" by (simp only: unat_and_not_3 m_def)
  then have not3: "n AND NOT 3 = of_nat m" by (metis of_nat_unat_same)
  have four: "ptrs_by_four put (n AND NOT 3) s idx 0 =
      map_option (\<lambda>s. (s, idx + of_nat m, n AND NOT 3)) (iter_put put m s idx 0)"
    unfolding m_def by (rule ptrs_by_four_eq) (simp only: unat_and_not_3 unsigned_0 add_0)
  have "unat n = m + unat n mod 4" by (simp add: m_def)
  then have "iter_put put (unat n) s idx 0 =
      Option.bind (iter_put put m s idx 0)
        (\<lambda>s. iter_put put (unat n mod 4) s (idx + of_nat m) (0 + of_nat m))"
    by (metis iter_put_add)
  then show ?thesis
    using lt True unfolding copy_ptrs_def four unfolding not3
    by (cases "iter_put put m s idx 0") (simp_all add: ptrs_rest_eq unat_and_3)
next
  case False
  have "unat (idx + n) = unat idx + unat n" using assms(2) by (intro unat_add_no_wrap) simp
  then have ge: "\<not> idx + n < sz" using False by (simp add: word_less_nat_alt)
  have stop: "ptrs_to_end put sz s idx 0 =
      map_option (\<lambda>s. (s, 0 + of_nat (unat sz - unat idx))) (iter_put put (unat sz - unat idx) s idx 0)"
    using assms(1) by (intro ptrs_to_end_eq) (simp add: word_less_nat_alt)
  have i: "of_nat (unat sz - unat idx) = sz - idx"
    using assms(1) by (metis less_imp_le unat_sub_le of_nat_unat_same)
  have "unat (sz - idx) + (unat n - (unat sz - unat idx)) = unat n"
    using False assms(1) by (simp add: unat_sub_le less_imp_le word_less_nat_alt)
  then have start: "ptrs_from_start put n s 0 (sz - idx) =
      iter_put put (unat n - (unat sz - unat idx)) s 0 (sz - idx)" for s
    by (rule ptrs_from_start_eq)
  show ?thesis
    using ge False unfolding copy_ptrs_def stop
    by (cases "iter_put put (unat sz - unat idx) s idx 0") (simp_all add: i start)
qed

subsection \<open>The copies as block copies around the end of the table\<close>

lemma iter_put_in:
  "unat idx + k \<le> length ring \<Longrightarrow> unat i + k \<le> length objs \<Longrightarrow>
   unat idx + k < 2 ^ 32 \<Longrightarrow> unat i + k < 2 ^ 32 \<Longrightarrow>
   iter_put (\<lambda>ring idx i. Option.bind (rd objs i) (wr ring idx)) k ring idx i =
     Some (copyn k ring (unat idx) objs (unat i))"
proof (induction k arbitrary: ring idx i)
  case (Suc k)
  have "unat (idx + 1) = Suc (unat idx)" "unat (i + 1) = Suc (unat i)"
    using Suc.prems unat_add_of_nat [of idx 1] unat_add_of_nat [of i 1] by simp_all
  then show ?case using Suc.prems by (simp add: mem_simps Suc.IH)
qed simp

lemma iter_put_out:
  "unat idx + k \<le> length ring \<Longrightarrow> unat i + k \<le> length objs \<Longrightarrow>
   unat idx + k < 2 ^ 32 \<Longrightarrow> unat i + k < 2 ^ 32 \<Longrightarrow>
   iter_put (\<lambda>objs idx i. Option.bind (rd ring idx) (wr objs i)) k objs idx i =
     Some (copyn k objs (unat i) ring (unat idx))"
proof (induction k arbitrary: objs idx i)
  case (Suc k)
  have "unat (idx + 1) = Suc (unat idx)" "unat (i + 1) = Suc (unat i)"
    using Suc.prems unat_add_of_nat [of idx 1] unat_add_of_nat [of i 1] by simp_all
  then show ?case using Suc.prems by (simp add: mem_simps Suc.IH)
qed simp

lemma mod_two_cases: "h < s \<Longrightarrow> j < s \<Longrightarrow> (h + j) mod s = (if h + j < s then h + j else h + j - s)" for s :: nat
  by (simp add: mod_if)

lemma copyn_around_in:
  assumes "h < s" "n \<le> s" "s \<le> length t" "j < s"
  shows "(if h + n < s then copyn n t h objs 0
          else copyn (n - (s - h)) (copyn (s - h) t h objs 0) 0 objs (s - h)) ! ((h + j) mod s) =
         (if j < n then objs ! j else t ! ((h + j) mod s))"
  using assms by (auto simp: mod_two_cases nth_copyn)

lemma copyn_around_out:
  assumes "h < s" "n \<le> s" "j < length objs"
  shows "(if h + n < s then copyn n objs 0 t h
          else copyn (n - (s - h)) (copyn (s - h) objs 0 t h) (s - h) t 0) ! j =
         (if j < n then t ! ((h + j) mod s) else objs ! j)"
proof -
  have "(h + j) mod s = (if h + j < s then h + j else h + j - s)" if "j < n"
    using assms that by (intro mod_two_cases) auto
  then show ?thesis using assms by (auto simp: nth_copyn add.commute [of h j])
qed

end
