(* ===== verification/Rte_Ring_Fifo.thy ===== *)
theory Rte_Ring_Fifo
  imports Rte_Ring
begin

text \<open>
  What the ring of \<open>dpdk_ring/\<close> promises.  The abstract specification is a bounded queue as a list;
  the refinement lemmas say that the ring's enqueue and dequeue compute exactly what the queue does,
  for every count, both behaviors and both synchronisation modes, and for indexes anywhere in the
  32-bit range.  The locale \<open>bounded_fifo\<close> is the interface a client needs, interpreted on every
  pair of enqueue and dequeue that \<open>rte_ring.h\<close> offers.
\<close>

subsection \<open>The abstract queue\<close>

definition clip_nat :: "nat \<Rightarrow> rte_ring_queue_behavior \<Rightarrow> nat \<Rightarrow> nat" where
  "clip_nat n behavior avail =
     (if n \<le> avail then n else case behavior of RTE_RING_QUEUE_FIXED \<Rightarrow> 0 | RTE_RING_QUEUE_VARIABLE \<Rightarrow> avail)"

text \<open>The queue after the call, how many objects were taken, and the room that is left.\<close>

definition fifo_enqueue ::
    "nat \<Rightarrow> rte_ring_queue_behavior \<Rightarrow> 'a list \<Rightarrow> 'a list \<Rightarrow> nat \<Rightarrow> 'a list \<times> nat \<times> nat" where
  "fifo_enqueue cap behavior q objs n =
     (let m = clip_nat n behavior (cap - length q)
      in (q @ take m objs, m, cap - length q - m))"

text \<open>The queue after the call, the caller's table, how many objects it got, and how many remain.\<close>

definition fifo_dequeue ::
    "rte_ring_queue_behavior \<Rightarrow> 'a list \<Rightarrow> 'a list \<Rightarrow> nat \<Rightarrow> 'a list \<times> 'a list \<times> nat \<times> nat" where
  "fifo_dequeue behavior q objs n =
     (let m = clip_nat n behavior (length q)
      in (drop m q, take m q @ drop m objs, m, length q - m))"

lemma clip_nat_le: "clip_nat n behavior avail \<le> avail" "clip_nat n behavior avail \<le> n"
  by (auto simp: clip_nat_def split: rte_ring_queue_behavior.split)

subsection \<open>The invariant of a ring at rest, and its content\<close>

definition ring_len :: "'a rte_ring \<Rightarrow> nat" where
  "ring_len r = unat (ht_tail (r_prod r) - ht_tail (r_cons r))"

definition ring_wf :: "'a rte_ring \<Rightarrow> bool" where
  "ring_wf r \<longleftrightarrow>
     (\<exists>k\<le>30. r_size r = 2 ^ k) \<and> r_mask r = r_size r - 1 \<and> r_capacity r = r_size r - 1 \<and>
     unat (r_size r) \<le> length (r_table r) \<and>
     ht_head (r_prod r) = ht_tail (r_prod r) \<and> ht_head (r_cons r) = ht_tail (r_cons r) \<and>
     ring_len r \<le> unat (r_capacity r)"

definition ring_content :: "'a rte_ring \<Rightarrow> 'a list" where
  "ring_content r =
     map (\<lambda>j. r_table r ! ((unat (ht_tail (r_cons r)) + j) mod unat (r_size r))) [0..<ring_len r]"

lemma length_ring_content [simp]: "length (ring_content r) = ring_len r"
  by (simp add: ring_content_def)

lemma ring_wf_size:
  assumes "ring_wf r"
  obtains k where "k \<le> 30" "r_size r = 2 ^ k" "unat (r_size r) = 2 ^ k" "r_mask r = mask k"
    "unat (r_capacity r) = unat (r_size r) - 1" "unat (r_size r) \<le> 2 ^ 30" "0 < unat (r_size r)"
proof -
  from assms obtain k where k: "k \<le> 30" "r_size r = 2 ^ k"
    by (auto simp: ring_wf_def)
  then have u: "unat (r_size r) = 2 ^ k" by (simp add: unat_pow2)
  moreover have "(2::nat) ^ k \<le> 2 ^ 30" using k(1) by (intro power_increasing) auto
  moreover have "unat (r_size r - 1) = unat (r_size r) - 1"
    using u by (intro unat_minus_one) auto
  ultimately show ?thesis
    using assms k by (intro that [of k]) (auto simp: ring_wf_def mask_eq_pow2_minus_1)
qed

lemma unat_clip_count: "unat (clip_count n behavior entries) = clip_nat (unat n) behavior (unat entries)"
  by (auto simp: clip_count_def clip_nat_def word_less_nat_alt split: rte_ring_queue_behavior.split)

text \<open>The two modes of moving a head agree when nobody interferes.\<close>

lemma move_prod_head_eq:
  "rte_ring_move_prod_head r is_sp n behavior =
     (let old = ht_head (r_prod r); e = r_capacity r + ht_tail (r_cons r) - old; m = clip_count n behavior e
      in if m = 0 then Some (r, Head_stays e)
         else Some (r\<lparr>r_prod := (r_prod r)\<lparr>ht_head := old + m\<rparr>\<rparr>, Head_moved m old (old + m) e))"
  by (subst rte_ring_move_prod_head.simps) (simp add: Let_def)

lemma move_cons_head_eq:
  "rte_ring_move_cons_head r is_sc n behavior =
     (let old = ht_head (r_cons r); e = ht_tail (r_prod r) - old; m = clip_count n behavior e
      in if m = 0 then Some (r, Head_stays e)
         else Some (r\<lparr>r_cons := (r_cons r)\<lparr>ht_head := old + m\<rparr>\<rparr>, Head_moved m old (old + m) e))"
  by (subst rte_ring_move_cons_head.simps) (simp add: Let_def)

lemma update_tail_ready: "ht_tail ht = old \<Longrightarrow> update_tail ht old new single = Some (ht\<lparr>ht_tail := new\<rparr>)"
  by (subst update_tail.simps) simp

text \<open>\<open>update_tail\<close> of a multi-producer waits for ever for a tail that nobody moves.\<close>

lemma update_tail_spins:
  assumes "ht_tail ht \<noteq> old"
  shows "update_tail ht old new 0 = None"
proof -
  have "ht_tail ht = old \<or> single \<noteq> 0" if "update_tail ht old new single = Some ht'" for ht' single
    by (rule update_tail.raw_induct [where P = "\<lambda>ht old new single y. ht_tail ht = old \<or> single \<noteq> 0", OF _ that])
      (fastforce split: if_splits)
  then show ?thesis using assms by fastforce
qed

subsection \<open>The copies on a well-formed ring\<close>

lemma ENQUEUE_PTRS_wf:
  assumes wf: "ring_wf r" and n: "unat n \<le> unat (r_capacity r)" "unat n \<le> length objs"
  obtains t where "ENQUEUE_PTRS r h objs n = Some (r\<lparr>r_table := t\<rparr>)" "length t = length (r_table r)"
    "\<And>j. j < unat (r_size r) \<Longrightarrow> t ! ((unat h + j) mod unat (r_size r)) =
       (if j < unat n then objs ! j else r_table r ! ((unat h + j) mod unat (r_size r)))"
proof -
  let ?s = "unat (r_size r)" and ?T = "r_table r"
  from wf obtain k where k: "?s = 2 ^ k" "r_mask r = mask k" "unat (r_capacity r) = ?s - 1"
    "?s \<le> 2 ^ 30" "0 < ?s" by (rule ring_wf_size)
  define idx where "idx = h AND r_mask r"
  have uidx: "unat idx = unat h mod ?s" by (simp add: idx_def k unat_and_mask)
  then have lt: "unat idx < ?s" using k by simp
  have sT: "?s \<le> length ?T" using wf by (simp add: ring_wf_def)
  let ?put = "\<lambda>ring idx i. Option.bind (rd objs i) (wr ring idx)"
  let ?t = "if unat idx + unat n < ?s then copyn (unat n) ?T (unat idx) objs 0
            else copyn (unat n - (?s - unat idx)) (copyn (?s - unat idx) ?T (unat idx) objs 0) 0 objs (?s - unat idx)"
  have bounds: "unat idx + unat n < 2 ^ 32" "unat n \<le> ?s" using lt n k by simp_all
  have si: "unat (r_size r - idx) = ?s - unat idx"
    using lt by (intro unat_sub_le) (simp add: word_le_nat_alt)
  have "copy_ptrs ?put (r_size r) idx n ?T = Some ?t"
  proof (cases "unat idx + unat n < ?s")
    case True
    then have "iter_put ?put (unat n) ?T idx 0 = Some (copyn (unat n) ?T (unat idx) objs (unat (0::u32)))"
      using sT n bounds k by (intro iter_put_in) simp_all
    with True show ?thesis
      using lt bounds by (subst copy_ptrs_eq) (simp_all add: word_less_nat_alt)
  next
    case False
    let ?u = "copyn (?s - unat idx) ?T (unat idx) objs 0"
    have "iter_put ?put (?s - unat idx) ?T idx 0 =
        Some (copyn (?s - unat idx) ?T (unat idx) objs (unat (0::u32)))"
      using False sT n lt k bounds by (intro iter_put_in) simp_all
    moreover have "iter_put ?put (unat n - (?s - unat idx)) ?u 0 (r_size r - idx) =
        Some (copyn (unat n - (?s - unat idx)) ?u (unat (0::u32)) objs (unat (r_size r - idx)))"
      using False sT n lt k bounds si by (intro iter_put_in) simp_all
    ultimately show ?thesis
      using False lt bounds by (subst copy_ptrs_eq) (simp_all add: word_less_nat_alt si)
  qed
  then have "ENQUEUE_PTRS r h objs n = Some (r\<lparr>r_table := ?t\<rparr>)"
    by (simp add: ENQUEUE_PTRS_def flip: idx_def)
  moreover have "?t ! ((unat h + j) mod ?s) =
      (if j < unat n then objs ! j else ?T ! ((unat h + j) mod ?s))" if "j < ?s" for j
    using copyn_around_in [OF lt bounds(2) sT that, of objs] by (simp add: uidx mod_add_left_eq)
  ultimately show ?thesis by (intro that [of ?t]) auto
qed

lemma DEQUEUE_PTRS_wf:
  assumes wf: "ring_wf r" and n: "unat n \<le> unat (r_capacity r)" "unat n \<le> length objs"
  shows "DEQUEUE_PTRS r h objs n =
    Some (map (\<lambda>j. r_table r ! ((unat h + j) mod unat (r_size r))) [0..<unat n] @ drop (unat n) objs)"
proof -
  let ?s = "unat (r_size r)" and ?T = "r_table r"
  from wf obtain k where k: "?s = 2 ^ k" "r_mask r = mask k" "unat (r_capacity r) = ?s - 1"
    "?s \<le> 2 ^ 30" "0 < ?s" by (rule ring_wf_size)
  define idx where "idx = h AND r_mask r"
  have uidx: "unat idx = unat h mod ?s" by (simp add: idx_def k unat_and_mask)
  then have lt: "unat idx < ?s" using k by simp
  have sT: "?s \<le> length ?T" using wf by (simp add: ring_wf_def)
  let ?put = "\<lambda>objs idx i. Option.bind (rd ?T idx) (wr objs i)"
  let ?t = "if unat idx + unat n < ?s then copyn (unat n) objs 0 ?T (unat idx)
            else copyn (unat n - (?s - unat idx)) (copyn (?s - unat idx) objs 0 ?T (unat idx)) (?s - unat idx) ?T 0"
  have bounds: "unat idx + unat n < 2 ^ 32" "unat n \<le> ?s" using lt n k by simp_all
  have si: "unat (r_size r - idx) = ?s - unat idx"
    using lt by (intro unat_sub_le) (simp add: word_le_nat_alt)
  have "copy_ptrs ?put (r_size r) idx n objs = Some ?t"
  proof (cases "unat idx + unat n < ?s")
    case True
    then have "iter_put ?put (unat n) objs idx 0 = Some (copyn (unat n) objs (unat (0::u32)) ?T (unat idx))"
      using sT n bounds k by (intro iter_put_out) simp_all
    with True show ?thesis
      using lt bounds by (subst copy_ptrs_eq) (simp_all add: word_less_nat_alt)
  next
    case False
    let ?u = "copyn (?s - unat idx) objs 0 ?T (unat idx)"
    have "iter_put ?put (?s - unat idx) objs idx 0 =
        Some (copyn (?s - unat idx) objs (unat (0::u32)) ?T (unat idx))"
      using False sT n lt k bounds by (intro iter_put_out) simp_all
    moreover have "iter_put ?put (unat n - (?s - unat idx)) ?u 0 (r_size r - idx) =
        Some (copyn (unat n - (?s - unat idx)) ?u (unat (r_size r - idx)) ?T (unat (0::u32)))"
      using False sT n lt k bounds si by (intro iter_put_out) simp_all
    ultimately show ?thesis
      using False lt bounds by (subst copy_ptrs_eq) (simp_all add: word_less_nat_alt si)
  qed
  then have "DEQUEUE_PTRS r h objs n = Some ?t"
    by (simp add: DEQUEUE_PTRS_def flip: idx_def)
  moreover have "?t = map (\<lambda>j. ?T ! ((unat h + j) mod ?s)) [0..<unat n] @ drop (unat n) objs"
  proof (rule nth_equalityI)
    fix j assume "j < length ?t"
    then have "j < length objs" by (simp split: if_splits)
    from copyn_around_out [OF lt bounds(2) this, of ?T]
    show "?t ! j = (map (\<lambda>j. ?T ! ((unat h + j) mod ?s)) [0..<unat n] @ drop (unat n) objs) ! j"
      using n(2) by (simp add: uidx nth_append mod_add_left_eq)
  qed (use n in simp)
  ultimately show ?thesis by simp
qed

subsection \<open>The content after moving an index\<close>

lemma ring_len_le: "ring_wf r \<Longrightarrow> ring_len r \<le> unat (r_capacity r)"
  unfolding ring_wf_def by blast

lemma ring_len_less: "ring_wf r \<Longrightarrow> ring_len r < unat (r_size r)"
proof -
  assume "ring_wf r"
  then obtain "unat (r_capacity r) = unat (r_size r) - 1" "0 < unat (r_size r)" by (rule ring_wf_size)
  with ring_len_le [OF \<open>ring_wf r\<close>] show ?thesis by linarith
qed

lemma prod_tail_position:
  assumes "ring_wf r"
  shows "unat (ht_tail (r_prod r)) mod unat (r_size r) =
    (unat (ht_tail (r_cons r)) + ring_len r) mod unat (r_size r)"
proof -
  from assms obtain k where k: "k \<le> 30" "unat (r_size r) = 2 ^ k" by (rule ring_wf_size)
  have "ht_tail (r_prod r) = ht_tail (r_cons r) + of_nat (ring_len r)" by (simp add: ring_len_def)
  then show ?thesis using k by (simp add: unat_mod_pow2_of_nat)
qed

text \<open>Every cell of the table is at some distance from the producer's tail.\<close>

lemma position_from_prod:
  assumes "ring_wf r" "j < unat (r_size r)"
  shows "(unat (ht_tail (r_cons r)) + j) mod unat (r_size r) =
    (unat (ht_tail (r_prod r)) + (if ring_len r \<le> j then j - ring_len r else unat (r_size r) - ring_len r + j))
      mod unat (r_size r)"
proof -
  let ?s = "unat (r_size r)" and ?c = "unat (ht_tail (r_cons r))" and ?p = "unat (ht_tail (r_prod r))"
  have len: "ring_len r < ?s" using assms(1) by (rule ring_len_less)
  have step: "(?p + d) mod ?s = (?c + ring_len r + d) mod ?s" for d
    using prod_tail_position [OF assms(1)] by (metis mod_add_left_eq)
  show ?thesis
  proof (cases "ring_len r \<le> j")
    case True
    then have "?c + ring_len r + (j - ring_len r) = ?c + j" by simp
    with True show ?thesis using step [of "j - ring_len r"] by simp
  next
    case False
    have "?c + ring_len r + (?s - ring_len r + j) = ?c + j + ?s" using len by simp
    then have "(?p + (?s - ring_len r + j)) mod ?s = (?c + j) mod ?s"
      unfolding step by (simp only: mod_add_self2)
    then show ?thesis using False by simp
  qed
qed

lemma ring_after_enqueue:
  assumes wf: "ring_wf r" and room: "unat m \<le> unat (r_capacity r) - ring_len r" "unat m \<le> length objs"
    and t: "length t = length (r_table r)"
      "\<And>j. j < unat (r_size r) \<Longrightarrow> t ! ((unat (ht_tail (r_prod r)) + j) mod unat (r_size r)) =
         (if j < unat m then objs ! j
          else r_table r ! ((unat (ht_tail (r_prod r)) + j) mod unat (r_size r)))"
  defines "r' \<equiv> r\<lparr>r_table := t, r_prod := (r_prod r)\<lparr>ht_head := ht_tail (r_prod r) + m,
                                                    ht_tail := ht_tail (r_prod r) + m\<rparr>\<rparr>"
  shows "ring_wf r'" "ring_content r' = ring_content r @ take (unat m) objs"
proof -
  from wf obtain k where k: "unat (r_capacity r) = unat (r_size r) - 1" "unat (r_size r) \<le> 2 ^ 30"
    "0 < unat (r_size r)" by (rule ring_wf_size)
  have len: "ring_len r < unat (r_size r)" using wf by (rule ring_len_less)
  have "ht_tail (r_prod r) + m - ht_tail (r_cons r) = (ht_tail (r_prod r) - ht_tail (r_cons r)) + m" by simp
  moreover have "unat ((ht_tail (r_prod r) - ht_tail (r_cons r)) + m) = ring_len r + unat m"
  proof -
    have "ring_len r + unat m < 2 ^ LENGTH(32)" using room(1) k len by simp
    then show ?thesis unfolding ring_len_def by (rule unat_add_no_wrap)
  qed
  ultimately have "unat (ht_tail (r_prod r) + m - ht_tail (r_cons r)) = ring_len r + unat m" by metis
  then have len': "ring_len r' = ring_len r + unat m" by (simp add: r'_def ring_len_def)
  show "ring_wf r'"
    using wf room len' by (auto simp: ring_wf_def r'_def t(1))
  show "ring_content r' = ring_content r @ take (unat m) objs"
  proof (rule nth_equalityI)
    fix j assume "j < length (ring_content r')"
    then have j: "j < ring_len r + unat m" by (simp add: len')
    then have "j < unat (r_size r)" using room k len by linarith
    note pos = position_from_prod [OF wf this]
    show "ring_content r' ! j = (ring_content r @ take (unat m) objs) ! j"
    proof (cases "ring_len r \<le> j")
      case True
      then have "t ! ((unat (ht_tail (r_cons r)) + j) mod unat (r_size r)) = objs ! (j - ring_len r)"
        using j \<open>j < unat (r_size r)\<close> by (simp only: pos if_True) (subst t(2), auto)
      with True j show ?thesis
        by (simp add: ring_content_def len' nth_append) (simp add: r'_def)
    next
      case False
      then have "t ! ((unat (ht_tail (r_cons r)) + j) mod unat (r_size r)) =
          r_table r ! ((unat (ht_tail (r_cons r)) + j) mod unat (r_size r))"
        using room k len by (simp only: pos if_False) (subst t(2), auto)
      with False j show ?thesis
        by (simp add: ring_content_def len' nth_append) (simp add: r'_def)
    qed
  qed (use room in \<open>simp add: len'\<close>)
qed

lemma ring_after_dequeue:
  assumes wf: "ring_wf r" and avail: "unat m \<le> ring_len r"
  defines "r' \<equiv> r\<lparr>r_cons := (r_cons r)\<lparr>ht_head := ht_tail (r_cons r) + m,
                                       ht_tail := ht_tail (r_cons r) + m\<rparr>\<rparr>"
  shows "ring_wf r'" "ring_content r' = drop (unat m) (ring_content r)"
proof -
  from wf obtain k where k: "k \<le> 30" "unat (r_size r) = 2 ^ k" by (rule ring_wf_size)
  have "ht_tail (r_prod r) - (ht_tail (r_cons r) + m) = (ht_tail (r_prod r) - ht_tail (r_cons r)) - m" by simp
  moreover have "unat ((ht_tail (r_prod r) - ht_tail (r_cons r)) - m) = ring_len r - unat m"
    using avail unfolding ring_len_def by (intro unat_sub_le) (simp add: word_le_nat_alt)
  ultimately have "unat (ht_tail (r_prod r) - (ht_tail (r_cons r) + m)) = ring_len r - unat m" by metis
  then have len': "ring_len r' = ring_len r - unat m" by (simp add: r'_def ring_len_def)
  show "ring_wf r'"
    using wf len' by (auto simp: ring_wf_def r'_def)
  have pos: "(unat (ht_tail (r_cons r) + m) + j) mod unat (r_size r) =
      (unat (ht_tail (r_cons r)) + (unat m + j)) mod unat (r_size r)" for j
  proof -
    have "unat (ht_tail (r_cons r) + m) mod unat (r_size r) =
        (unat (ht_tail (r_cons r)) + unat m) mod unat (r_size r)"
      using k by (simp add: unat_add_mod_pow2)
    then have "(unat (ht_tail (r_cons r) + m) mod unat (r_size r) + j) mod unat (r_size r) =
        ((unat (ht_tail (r_cons r)) + unat m) mod unat (r_size r) + j) mod unat (r_size r)" by (rule arg_cong)
    then show ?thesis by (simp only: mod_add_left_eq add.assoc)
  qed
  show "ring_content r' = drop (unat m) (ring_content r)"
  proof (rule nth_equalityI)
    fix j assume "j < length (ring_content r')"
    then have j: "j < ring_len r - unat m" by (simp add: len')
    then have "ring_content r' ! j =
        r_table r ! ((unat (ht_tail (r_cons r) + m) + j) mod unat (r_size r))"
      by (simp add: ring_content_def len') (simp add: r'_def)
    with j show "ring_content r' ! j = drop (unat m) (ring_content r) ! j"
      by (simp add: ring_content_def [of r] pos) (simp add: less_diff_conv add.commute)
  qed (simp add: len')
qed

subsection \<open>Enqueue and dequeue refine the queue\<close>

lemma free_entries_eq:
  assumes "ring_wf r"
  shows "unat (r_capacity r + ht_tail (r_cons r) - ht_head (r_prod r)) = unat (r_capacity r) - ring_len r"
proof -
  have "r_capacity r + ht_tail (r_cons r) - ht_head (r_prod r) =
      r_capacity r - (ht_tail (r_prod r) - ht_tail (r_cons r))"
    using assms by (simp add: ring_wf_def)
  moreover have "unat (r_capacity r - (ht_tail (r_prod r) - ht_tail (r_cons r))) =
      unat (r_capacity r) - ring_len r"
    using ring_len_le [OF assms] unfolding ring_len_def by (intro unat_sub_le) (simp add: word_le_nat_alt)
  ultimately show ?thesis by metis
qed

text \<open>What every operation leaves as it was.\<close>

definition same_setup :: "'a rte_ring \<Rightarrow> 'a rte_ring \<Rightarrow> bool" where
  "same_setup r r' \<longleftrightarrow>
     r_flags r' = r_flags r \<and> r_size r' = r_size r \<and> r_mask r' = r_mask r \<and> r_capacity r' = r_capacity r \<and>
     length (r_table r') = length (r_table r) \<and>
     ht_single (r_prod r') = ht_single (r_prod r) \<and> ht_single (r_cons r') = ht_single (r_cons r)"

lemma same_setup_refl [simp]: "same_setup r r"
  by (simp add: same_setup_def)

text \<open>The heads stand still outside a call, so a move starts at the tails.\<close>

lemma ring_wf_heads:
  assumes "ring_wf r"
  shows "ht_head (r_prod r) = ht_tail (r_prod r)" "ht_head (r_cons r) = ht_tail (r_cons r)"
    "unat (ht_tail (r_prod r) - ht_tail (r_cons r)) = ring_len r"
  using assms by (simp_all add: ring_wf_def ring_len_def)

lemma ENQUEUE_PTRS_head:
  "ENQUEUE_PTRS (r\<lparr>r_prod := p\<rparr>) h objs m = map_option (\<lambda>r. r\<lparr>r_prod := p\<rparr>) (ENQUEUE_PTRS r h objs m)"
  by (cases r) (simp add: ENQUEUE_PTRS_def option.map_comp comp_def)

lemma do_enqueue_fifo:
  assumes wf: "ring_wf r" and objs: "unat n \<le> length objs"
  obtains r' m free where "rte_ring_do_enqueue r objs n behavior is_sp = Some (r', m, free)"
    "ring_wf r'" "same_setup r r'"
    "fifo_enqueue (unat (r_capacity r)) behavior (ring_content r) objs (unat n) =
       (ring_content r', unat m, unat free)"
proof -
  note heads = ring_wf_heads [OF wf]
  define e where "e = r_capacity r + ht_tail (r_cons r) - ht_tail (r_prod r)"
  define m where "m = clip_count n behavior e"
  have e: "unat e = unat (r_capacity r) - ring_len r"
    using free_entries_eq [OF wf] by (simp add: e_def heads)
  have mv: "rte_ring_move_prod_head r is_sp n behavior =
      (if m = 0 then Some (r, Head_stays e)
       else Some (r\<lparr>r_prod := (r_prod r)\<lparr>ht_head := ht_tail (r_prod r) + m\<rparr>\<rparr>,
                  Head_moved m (ht_tail (r_prod r)) (ht_tail (r_prod r) + m) e))"
    unfolding move_prod_head_eq Let_def heads e_def [symmetric] m_def [symmetric] by (rule refl)
  have um: "unat m = clip_nat (unat n) behavior (unat (r_capacity r) - ring_len r)"
    by (simp add: m_def unat_clip_count e)
  then have le: "unat m \<le> unat (r_capacity r) - ring_len r" "unat m \<le> length objs" "unat m \<le> unat n"
    using clip_nat_le [of "unat n" behavior] objs by (auto intro: order_trans)
  then have "m \<le> e" by (simp add: word_le_nat_alt e)
  then have ef: "unat (e - m) = unat (r_capacity r) - ring_len r - unat m" by (simp add: unat_sub_le e)
  show thesis
  proof (cases "m = 0")
    case True
    then have "rte_ring_do_enqueue r objs n behavior is_sp = Some (r, 0, e)"
      by (simp add: rte_ring_do_enqueue_def mv)
    with True um ef show thesis
      by (intro that [of r 0 e]) (simp_all add: wf fifo_enqueue_def)
  next
    case False
    let ?h = "ht_tail (r_prod r)"
    let ?r1 = "r\<lparr>r_prod := (r_prod r)\<lparr>ht_head := ?h + m\<rparr>\<rparr>"
    obtain t where t: "ENQUEUE_PTRS r ?h objs m = Some (r\<lparr>r_table := t\<rparr>)" "length t = length (r_table r)"
      "\<And>j. j < unat (r_size r) \<Longrightarrow> t ! ((unat ?h + j) mod unat (r_size r)) =
         (if j < unat m then objs ! j else r_table r ! ((unat ?h + j) mod unat (r_size r)))"
      using le by (auto intro: ENQUEUE_PTRS_wf [OF wf, of m objs ?h])
    let ?r' = "r\<lparr>r_table := t, r_prod := (r_prod r)\<lparr>ht_head := ?h + m, ht_tail := ?h + m\<rparr>\<rparr>"
    have "ENQUEUE_PTRS ?r1 ?h objs m = Some (?r1\<lparr>r_table := t\<rparr>)"
      by (simp add: ENQUEUE_PTRS_head t(1))
    then have run: "rte_ring_do_enqueue r objs n behavior is_sp = Some (?r', m, e - m)"
      using False by (simp add: rte_ring_do_enqueue_def mv update_tail_ready)
    note after = ring_after_enqueue [OF wf le(1,2) t(2,3)]
    show thesis
      by (rule that [OF run after(1)]) (simp_all add: fifo_enqueue_def same_setup_def t(2) after(2) um [symmetric] ef Let_def)
  qed
qed

lemma do_dequeue_fifo:
  assumes wf: "ring_wf r" and objs: "unat n \<le> length objs"
  obtains r' objs' m left where "rte_ring_do_dequeue r objs n behavior is_sc = Some (r', objs', m, left)"
    "ring_wf r'" "same_setup r r'"
    "fifo_dequeue behavior (ring_content r) objs (unat n) = (ring_content r', objs', unat m, unat left)"
proof -
  note heads = ring_wf_heads [OF wf]
  define e where "e = ht_tail (r_prod r) - ht_tail (r_cons r)"
  define m where "m = clip_count n behavior e"
  have e: "unat e = ring_len r" by (simp add: e_def heads)
  have mv: "rte_ring_move_cons_head r is_sc n behavior =
      (if m = 0 then Some (r, Head_stays e)
       else Some (r\<lparr>r_cons := (r_cons r)\<lparr>ht_head := ht_tail (r_cons r) + m\<rparr>\<rparr>,
                  Head_moved m (ht_tail (r_cons r)) (ht_tail (r_cons r) + m) e))"
    unfolding move_cons_head_eq Let_def heads e_def [symmetric] m_def [symmetric] by (rule refl)
  have um: "unat m = clip_nat (unat n) behavior (ring_len r)"
    by (simp add: m_def unat_clip_count e)
  then have le: "unat m \<le> ring_len r" "unat m \<le> length objs" "unat m \<le> unat (r_capacity r)"
    using clip_nat_le [of "unat n" behavior] objs ring_len_le [OF wf] by (auto intro: order_trans)
  then have "m \<le> e" by (simp add: word_le_nat_alt e)
  then have ef: "unat (e - m) = ring_len r - unat m" by (simp add: unat_sub_le e)
  show thesis
  proof (cases "m = 0")
    case True
    then have "rte_ring_do_dequeue r objs n behavior is_sc = Some (r, objs, 0, e)"
      by (simp add: rte_ring_do_dequeue_def mv)
    with True um ef show thesis
      by (intro that [of r objs 0 e]) (simp_all add: wf fifo_dequeue_def)
  next
    case False
    let ?h = "ht_tail (r_cons r)"
    let ?r1 = "r\<lparr>r_cons := (r_cons r)\<lparr>ht_head := ?h + m\<rparr>\<rparr>"
    let ?r' = "r\<lparr>r_cons := (r_cons r)\<lparr>ht_head := ?h + m, ht_tail := ?h + m\<rparr>\<rparr>"
    let ?objs = "take (unat m) (ring_content r) @ drop (unat m) objs"
    have "DEQUEUE_PTRS ?r1 ?h objs m = DEQUEUE_PTRS r ?h objs m"
      by (simp add: DEQUEUE_PTRS_def)
    also have "\<dots> = Some ?objs"
      using DEQUEUE_PTRS_wf [OF wf le(3,2), of ?h] le(1)
      by (simp add: ring_content_def take_map take_upt)
    finally have run: "rte_ring_do_dequeue r objs n behavior is_sc = Some (?r', ?objs, m, e - m)"
      using False by (simp add: rte_ring_do_dequeue_def mv update_tail_ready)
    note after = ring_after_dequeue [OF wf le(1)]
    show thesis
      by (rule that [OF run after(1)]) (simp_all add: after(2) fifo_dequeue_def same_setup_def um [symmetric] ef Let_def)
  qed
qed

subsection \<open>The counters\<close>

lemma ring_count_eq:
  assumes "ring_wf r"
  shows "unat (rte_ring_count r) = ring_len r"
proof -
  from assms obtain k where k: "unat (r_size r) = 2 ^ k" "r_mask r = mask k" by (rule ring_wf_size)
  have "unat ((ht_tail (r_prod r) - ht_tail (r_cons r)) AND r_mask r) = ring_len r"
    using k ring_len_less [OF assms] by (simp add: unat_and_mask ring_len_def)
  moreover from this have "\<not> (ht_tail (r_prod r) - ht_tail (r_cons r)) AND r_mask r > r_capacity r"
    using ring_len_le [OF assms] by (simp add: word_less_nat_alt)
  ultimately show ?thesis by (simp add: rte_ring_count_def Let_def)
qed

lemma ring_free_count_eq:
  assumes "ring_wf r"
  shows "unat (rte_ring_free_count r) = unat (r_capacity r) - ring_len r"
  using ring_count_eq [OF assms] ring_len_le [OF assms]
  by (simp add: rte_ring_free_count_def unat_sub_le word_le_nat_alt)

subsection \<open>Creation\<close>

lemma POWEROF2_iff: "POWEROF2 (w :: u32) \<longleftrightarrow> w = 0 \<or> (\<exists>k<32. w = 2 ^ k)"
proof (cases "w = 0")
  case True
  then show ?thesis by (simp add: POWEROF2_def)
next
  case False
  then show ?thesis
    using is_power_of_2_pow [of w]
    by (simp add: POWEROF2_def rte_is_power_of_2_def and.commute)
qed

text \<open>For an accepted count below 2^31 the block has a cell for every index.\<close>

lemma ring_memsize_room:
  assumes "k \<le> 30"
  shows "384 + 8 * 2 ^ k \<le> unat (rte_ring_get_memsize (2 ^ k))" "0 < sint (rte_ring_get_memsize (2 ^ k))"
proof -
  define x :: u64 where "x = sizeof_rte_ring + ucast (2 ^ k :: u32) * 8"
  have "ucast (2 ^ k :: u32) = (2 ^ k :: u64)"
    using assms by (intro ucast_pow2) simp_all
  then have "x = 384 + 2 ^ (k + 3)" by (simp add: x_def sizeof_rte_ring_def power_add)
  moreover have pow: "(2::nat) ^ (k + 3) \<le> 2 ^ 33" using assms by (intro power_increasing) auto
  moreover have "unat (2 ^ (k + 3) :: u64) = 2 ^ (k + 3)" using assms by (intro unat_pow2) simp
  ultimately have x: "unat x = 384 + 8 * 2 ^ k"
    using unat_add_no_wrap [of "384 :: u64" "2 ^ (k + 3)"] by (simp add: power_add)
  have le: "(2::nat) ^ k \<le> 2 ^ 30" using assms by (intro power_increasing) auto
  then have "unat (x + 63) = unat x + 63"
    using unat_add_no_wrap [of x 63] x by simp
  moreover have "RTE_ALIGN x (64 :: u32) = (x + 63) AND NOT (mask 6)"
    by (simp add: RTE_ALIGN_def RTE_ALIGN_CEIL_def RTE_ALIGN_FLOOR_def mask_eq_exp_minus_1)
  ultimately have u: "unat (RTE_ALIGN x (64 :: u32)) = 64 * ((unat x + 63) div 64)"
    by (simp add: unat_and_not_mask)
  have "POWEROF2 (2 ^ k :: u32)" using assms unfolding POWEROF2_iff by (intro disjI2 exI [of _ k]) simp
  moreover have "\<not> (2 ^ k :: u32) > RTE_RING_SZ_MASK"
    using assms le by (simp add: word_less_nat_alt unat_pow2 RTE_RING_SZ_MASK_def)
  ultimately have m: "rte_ring_get_memsize (2 ^ k) = RTE_ALIGN x (64 :: u32)"
    by (simp add: rte_ring_get_memsize_def x_def)
  have "unat x \<le> 64 * ((unat x + 63) div 64)" "64 * ((unat x + 63) div 64) \<le> unat x + 63" by linarith+
  with m u x show "384 + 8 * 2 ^ k \<le> unat (rte_ring_get_memsize (2 ^ k))" by simp
  have "unat (rte_ring_get_memsize (2 ^ k)) < 2 ^ 63"
    using m u x le \<open>64 * ((unat x + 63) div 64) \<le> unat x + 63\<close> by simp
  then have "sint (rte_ring_get_memsize (2 ^ k)) = int (unat (rte_ring_get_memsize (2 ^ k)))"
    by (intro sint_eq_unat) simp
  then show "0 < sint (rte_ring_get_memsize (2 ^ k))"
    using \<open>384 + 8 * 2 ^ k \<le> unat (rte_ring_get_memsize (2 ^ k))\<close> by linarith
qed

lemma create_wf:
  assumes k: "k \<le> 30" and malloc: "malloc (rte_ring_get_memsize (2 ^ k)) = Some r" "malloc_gives_room malloc"
  shows "rte_ring_create malloc (2 ^ k) flags = Some (rte_ring_init r (2 ^ k) flags)"
    "ring_wf (rte_ring_init r (2 ^ k) flags)" "ring_content (rte_ring_init r (2 ^ k) flags) = []"
proof -
  have "unat (2 ^ k :: u32) = 2 ^ k" using k by (simp add: unat_pow2)
  moreover have "2 ^ k \<le> length (r_table r)"
  proof -
    have "length (r_table r) = (unat (rte_ring_get_memsize (2 ^ k)) - 384) div 8"
      using malloc by (simp add: malloc_gives_room_def sizeof_rte_ring_def)
    then show ?thesis using ring_memsize_room(1) [OF k] by linarith
  qed
  ultimately show "ring_wf (rte_ring_init r (2 ^ k) flags)"
    using k by (auto simp: ring_wf_def rte_ring_init_def ring_len_def)
  show "ring_content (rte_ring_init r (2 ^ k) flags) = []"
    by (simp add: ring_content_def ring_len_def rte_ring_init_def)
  show "rte_ring_create malloc (2 ^ k) flags = Some (rte_ring_init r (2 ^ k) flags)"
    using ring_memsize_room(2) [OF k] by (simp add: rte_ring_create_def Let_def malloc(1))
qed

subsection \<open>The interface of a bounded queue\<close>

text \<open>
  What a client of a queue relies on: in every mode \<open>m\<close> an enqueue and a dequeue do what the list
  does, with the all-or-nothing or best-effort behavior \<open>beh m\<close>.
\<close>

locale bounded_fifo =
  fixes enq :: "'m \<Rightarrow> 's \<Rightarrow> 'a list \<Rightarrow> u32 \<Rightarrow> ('s \<times> u32 \<times> u32) option"
    and deq :: "'m \<Rightarrow> 's \<Rightarrow> 'a list \<Rightarrow> u32 \<Rightarrow> ('s \<times> 'a list \<times> u32 \<times> u32) option"
    and beh :: "'m \<Rightarrow> rte_ring_queue_behavior"
    and inv :: "'s \<Rightarrow> bool"
    and cap :: "'s \<Rightarrow> nat"
    and content :: "'s \<Rightarrow> 'a list"
  assumes bounded: "inv s \<Longrightarrow> length (content s) \<le> cap s"
    and enq: "\<lbrakk>inv s; unat n \<le> length objs\<rbrakk> \<Longrightarrow>
      \<exists>s' k free. enq m s objs n = Some (s', k, free) \<and> inv s' \<and> cap s' = cap s \<and>
        fifo_enqueue (cap s) (beh m) (content s) objs (unat n) = (content s', unat k, unat free)"
    and deq: "\<lbrakk>inv s; unat n \<le> length objs\<rbrakk> \<Longrightarrow>
      \<exists>s' objs' k left. deq m s objs n = Some (s', objs', k, left) \<and> inv s' \<and> cap s' = cap s \<and>
        fifo_dequeue (beh m) (content s) objs (unat n) = (content s', objs', unat k, unat left)"

text \<open>A client's calls, with the tables they pass; the whole table is offered or filled.\<close>

datatype ('m, 'a) fifo_call = Enqueue 'm "'a list" | Dequeue 'm "'a list"

fun call_table :: "('m, 'a) fifo_call \<Rightarrow> 'a list" where
  "call_table (Enqueue m objs) = objs"
| "call_table (Dequeue m objs) = objs"

text \<open>The state after the calls, the objects that went in and the objects that came out, in order.\<close>

fun run_calls ::
    "('m \<Rightarrow> 's \<Rightarrow> 'a list \<Rightarrow> u32 \<Rightarrow> ('s \<times> u32 \<times> u32) option) \<Rightarrow>
     ('m \<Rightarrow> 's \<Rightarrow> 'a list \<Rightarrow> u32 \<Rightarrow> ('s \<times> 'a list \<times> u32 \<times> u32) option) \<Rightarrow>
     's \<Rightarrow> ('m, 'a) fifo_call list \<Rightarrow> ('s \<times> 'a list \<times> 'a list) option" where
  "run_calls enq deq s [] = Some (s, [], [])"
| "run_calls enq deq s (Enqueue m objs # calls) = do {
     (s, k, _) \<leftarrow> enq m s objs (of_nat (length objs));
     (s, ins, outs) \<leftarrow> run_calls enq deq s calls;
     Some (s, take (unat k) objs @ ins, outs) }"
| "run_calls enq deq s (Dequeue m objs # calls) = do {
     (s, got, k, _) \<leftarrow> deq m s objs (of_nat (length objs));
     (s, ins, outs) \<leftarrow> run_calls enq deq s calls;
     Some (s, ins, take (unat k) got @ outs) }"

context bounded_fifo
begin

lemma enqueue_grows:
  assumes "inv s" "length objs < 2 ^ 32"
  shows "\<exists>s' k free. enq m s objs (of_nat (length objs)) = Some (s', k, free) \<and> inv s' \<and>
    cap s' = cap s \<and> content s' = content s @ take (unat k) objs"
  using enq [OF assms(1), of "of_nat (length objs)" objs m] assms(2)
  by (auto simp: unat_of_nat_small fifo_enqueue_def Let_def)

lemma dequeue_shrinks:
  assumes "inv s" "length objs < 2 ^ 32"
  shows "\<exists>s' got k left. deq m s objs (of_nat (length objs)) = Some (s', got, k, left) \<and> inv s' \<and>
    cap s' = cap s \<and> content s = take (unat k) got @ content s'"
proof -
  have n: "unat (of_nat (length objs) :: u32) = length objs" using assms(2) by (simp add: unat_of_nat_small)
  have le: "clip_nat (length objs) (beh m) (length (content s)) \<le> length (content s)" by (rule clip_nat_le)
  obtain s' got k left where d: "deq m s objs (of_nat (length objs)) = Some (s', got, k, left)" "inv s'"
    "cap s' = cap s"
    "fifo_dequeue (beh m) (content s) objs (length objs) = (content s', got, unat k, unat left)"
    using deq [OF assms(1), of "of_nat (length objs)" objs m] by (auto simp: n)
  from d(4) have k: "unat k = clip_nat (length objs) (beh m) (length (content s))"
    and got: "got = take (unat k) (content s) @ drop (unat k) objs" and s': "content s' = drop (unat k) (content s)"
    by (auto simp: fifo_dequeue_def Let_def)
  have "take (unat k) got = take (unat k) (content s)" using le by (simp add: got k)
  then show ?thesis using d(1-3) by (auto simp: s')
qed

text \<open>Whatever the calls, objects come out in the order they went in, none lost and none made up.\<close>

lemma fifo_history:
  "\<lbrakk>inv s; \<forall>c\<in>set calls. length (call_table c) < 2 ^ 32\<rbrakk> \<Longrightarrow>
   \<exists>s' ins outs. run_calls enq deq s calls = Some (s', ins, outs) \<and> inv s' \<and> cap s' = cap s \<and>
     content s @ ins = outs @ content s'"
proof (induction calls arbitrary: s)
  case Nil
  then show ?case by simp
next
  case (Cons c calls)
  show ?case
  proof (cases c)
    case (Enqueue m objs)
    then obtain s1 k free where "enq m s objs (of_nat (length objs)) = Some (s1, k, free)" "inv s1"
      "cap s1 = cap s" "content s1 = content s @ take (unat k) objs"
      using enqueue_grows [of s objs m] Cons.prems by auto
    moreover obtain s2 ins outs where "run_calls enq deq s1 calls = Some (s2, ins, outs)" "inv s2"
      "cap s2 = cap s1" "content s1 @ ins = outs @ content s2"
      using Cons.IH [OF \<open>inv s1\<close>] Cons.prems by auto
    ultimately show ?thesis using Enqueue by simp
  next
    case (Dequeue m objs)
    then obtain s1 got k left where "deq m s objs (of_nat (length objs)) = Some (s1, got, k, left)" "inv s1"
      "cap s1 = cap s" "content s = take (unat k) got @ content s1"
      using dequeue_shrinks [of s objs m] Cons.prems by auto
    moreover obtain s2 ins outs where "run_calls enq deq s1 calls = Some (s2, ins, outs)" "inv s2"
      "cap s2 = cap s1" "content s1 @ ins = outs @ content s2"
      using Cons.IH [OF \<open>inv s1\<close>] Cons.prems by auto
    ultimately show ?thesis using Dequeue by simp
  qed
qed

end

text \<open>The modes of the public operations: which producer or consumer, and bulk or burst.\<close>

datatype ring_sync = Single | Multi | Default
datatype ring_mode = Bulk ring_sync | Burst ring_sync

fun ring_enqueue_op :: "ring_mode \<Rightarrow> 'a rte_ring \<Rightarrow> 'a list \<Rightarrow> u32 \<Rightarrow> ('a rte_ring \<times> u32 \<times> u32) option" where
  "ring_enqueue_op (Bulk Single) = rte_ring_sp_enqueue_bulk"
| "ring_enqueue_op (Bulk Multi) = rte_ring_mp_enqueue_bulk"
| "ring_enqueue_op (Bulk Default) = rte_ring_enqueue_bulk"
| "ring_enqueue_op (Burst Single) = rte_ring_sp_enqueue_burst"
| "ring_enqueue_op (Burst Multi) = rte_ring_mp_enqueue_burst"
| "ring_enqueue_op (Burst Default) = rte_ring_enqueue_burst"

fun ring_dequeue_op ::
    "ring_mode \<Rightarrow> 'a rte_ring \<Rightarrow> 'a list \<Rightarrow> u32 \<Rightarrow> ('a rte_ring \<times> 'a list \<times> u32 \<times> u32) option" where
  "ring_dequeue_op (Bulk Single) = rte_ring_sc_dequeue_bulk"
| "ring_dequeue_op (Bulk Multi) = rte_ring_mc_dequeue_bulk"
| "ring_dequeue_op (Bulk Default) = rte_ring_dequeue_bulk"
| "ring_dequeue_op (Burst Single) = rte_ring_sc_dequeue_burst"
| "ring_dequeue_op (Burst Multi) = rte_ring_mc_dequeue_burst"
| "ring_dequeue_op (Burst Default) = rte_ring_dequeue_burst"

fun ring_behavior :: "ring_mode \<Rightarrow> rte_ring_queue_behavior" where
  "ring_behavior (Bulk _) = RTE_RING_QUEUE_FIXED"
| "ring_behavior (Burst _) = RTE_RING_QUEUE_VARIABLE"

lemmas ring_op_defs =
  rte_ring_sp_enqueue_bulk_def rte_ring_mp_enqueue_bulk_def rte_ring_enqueue_bulk_def
  rte_ring_sp_enqueue_burst_def rte_ring_mp_enqueue_burst_def rte_ring_enqueue_burst_def
  rte_ring_sc_dequeue_bulk_def rte_ring_mc_dequeue_bulk_def rte_ring_dequeue_bulk_def
  rte_ring_sc_dequeue_burst_def rte_ring_mc_dequeue_burst_def rte_ring_dequeue_burst_def

fun mode_is_single :: "ring_mode \<Rightarrow> rte_ring_headtail \<Rightarrow> u32" where
  "mode_is_single (Bulk s) ht = (case s of Single \<Rightarrow> 1 | Multi \<Rightarrow> 0 | Default \<Rightarrow> ht_single ht)"
| "mode_is_single (Burst s) ht = (case s of Single \<Rightarrow> 1 | Multi \<Rightarrow> 0 | Default \<Rightarrow> ht_single ht)"

lemma ring_op_do:
  "ring_enqueue_op m r objs n =
     rte_ring_do_enqueue r objs n (ring_behavior m) (mode_is_single m (r_prod r))"
  "ring_dequeue_op m r objs n =
     rte_ring_do_dequeue r objs n (ring_behavior m) (mode_is_single m (r_cons r))"
  by (cases m rule: ring_enqueue_op.cases;
      simp add: ring_op_defs IS_SP_def IS_MP_def IS_SC_def IS_MC_def)+

interpretation ring: bounded_fifo ring_enqueue_op ring_dequeue_op ring_behavior ring_wf
  "\<lambda>r. unat (r_capacity r)" ring_content
proof (unfold_locales, goal_cases)
  case (1 r)
  then show ?case by (simp add: ring_len_le)
next
  case (2 r n objs m)
  obtain r' k free where "rte_ring_do_enqueue r objs n (ring_behavior m) (mode_is_single m (r_prod r)) =
      Some (r', k, free)" "ring_wf r'" "same_setup r r'"
    "fifo_enqueue (unat (r_capacity r)) (ring_behavior m) (ring_content r) objs (unat n) =
       (ring_content r', unat k, unat free)"
    by (rule do_enqueue_fifo [OF 2])
  then show ?case by (simp add: ring_op_do same_setup_def)
next
  case (3 r n objs m)
  obtain r' objs' k left where "rte_ring_do_dequeue r objs n (ring_behavior m) (mode_is_single m (r_cons r)) =
      Some (r', objs', k, left)" "ring_wf r'" "same_setup r r'"
    "fifo_dequeue (ring_behavior m) (ring_content r) objs (unat n) =
       (ring_content r', objs', unat k, unat left)"
    by (rule do_dequeue_fifo [OF 3])
  then show ?case by (simp add: ring_op_do same_setup_def)
qed

subsection \<open>The properties of the ring\<close>

text \<open>A ring of 8 cells whose indexes are about to pass 2^32, with 3 of its objects in use.\<close>

definition sample_ring :: "nat rte_ring" where
  "sample_ring = \<lparr>r_flags = 0, r_size = 8, r_mask = 7, r_capacity = 7,
     r_prod = \<lparr>ht_head = 1, ht_tail = 1, ht_single = 0\<rparr>,
     r_cons = \<lparr>ht_head = 0xfffffffe, ht_tail = 0xfffffffe, ht_single = 0\<rparr>,
     r_table = [12, 0, 0, 0, 0, 0, 10, 11]\<rparr>"

lemma sample_ring_wf: "ring_wf sample_ring" "ring_content sample_ring = [10, 11, 12]"
  "unat (r_capacity sample_ring) = 7" "ring_len sample_ring = 3"
proof -
  have "(8 :: u32) = 2 ^ 3" by simp
  then show "ring_wf sample_ring"
    by (auto simp: ring_wf_def sample_ring_def ring_len_def intro!: exI [of _ 3])
  show "ring_content sample_ring = [10, 11, 12]"
    by (simp add: ring_content_def sample_ring_def ring_len_def upt_rec)
qed (simp_all add: sample_ring_def ring_len_def)

text \<open>
  C17: \<open>__rte_ring_do_enqueue\<close> refines the bounded queue: from every well-formed ring, for every count,
  behavior and synchronisation mode, the call returns, keeps the ring well-formed and its setup, and
  the content, the number taken and the free space are those of the abstract enqueue.
\<close>

theorem rte_ring_do_enqueue_refines:
  assumes "ring_wf r" and "unat n \<le> length objs"
  shows "\<exists>r' m free. rte_ring_do_enqueue r objs n behavior is_sp = Some (r', m, free) \<and>
    ring_wf r' \<and> same_setup r r' \<and>
    fifo_enqueue (unat (r_capacity r)) behavior (ring_content r) objs (unat n) =
      (ring_content r', unat m, unat free)"
  by (rule do_enqueue_fifo [OF assms]) blast

theorem rte_ring_do_enqueue_refines_witness:
  "\<exists>r' m free. rte_ring_do_enqueue sample_ring [1, 2, 3, 4, 5] 5 RTE_RING_QUEUE_VARIABLE IS_MP =
      Some (r', m, free) \<and> ring_content r' = [10, 11, 12, 1, 2, 3, 4] \<and> unat m = 4 \<and> unat free = 0"
  using rte_ring_do_enqueue_refines [OF sample_ring_wf(1), of 5 "[1, 2, 3, 4, 5]" RTE_RING_QUEUE_VARIABLE IS_MP]
  by (fastforce simp: sample_ring_wf fifo_enqueue_def clip_nat_def)

text \<open>
  C21: \<open>__rte_ring_do_dequeue\<close> refines the bounded queue: the objects that leave are the oldest, in
  order, they fill the start of the caller's table and nothing behind it, and the ring keeps the rest.
\<close>

theorem rte_ring_do_dequeue_refines:
  assumes "ring_wf r" and "unat n \<le> length objs"
  shows "\<exists>r' objs' m left. rte_ring_do_dequeue r objs n behavior is_sc = Some (r', objs', m, left) \<and>
    ring_wf r' \<and> same_setup r r' \<and>
    fifo_dequeue behavior (ring_content r) objs (unat n) = (ring_content r', objs', unat m, unat left)"
  by (rule do_dequeue_fifo [OF assms]) blast

theorem rte_ring_do_dequeue_refines_witness:
  "\<exists>r' objs' m left. rte_ring_do_dequeue sample_ring [0, 0] 2 RTE_RING_QUEUE_FIXED IS_SC =
      Some (r', objs', m, left) \<and> ring_content r' = [12] \<and> objs' = [10, 11] \<and>
      unat m = 2 \<and> unat left = 1"
  using rte_ring_do_dequeue_refines [OF sample_ring_wf(1), of 2 "[0, 0]" RTE_RING_QUEUE_FIXED IS_SC]
  by (fastforce simp: sample_ring_wf fifo_dequeue_def clip_nat_def)

text \<open>
  C2: Whatever sequence of bulk and burst calls, in any mix of single, multiple and default modes, runs
  on a ring, every call returns and the objects come out in the order they went in: none is lost,
  duplicated or made up, and what is still inside is the difference.
\<close>

theorem rte_ring_fifo_history:
  assumes "ring_wf r" and "\<forall>c\<in>set calls. length (call_table c) < 2 ^ 32"
  shows "\<exists>r' ins outs. run_calls ring_enqueue_op ring_dequeue_op r calls = Some (r', ins, outs) \<and>
    ring_wf r' \<and> unat (r_capacity r') = unat (r_capacity r) \<and>
    ring_content r @ ins = outs @ ring_content r'"
  using ring.fifo_history [OF assms] by simp

theorem rte_ring_fifo_history_witness:
  "\<exists>r' ins outs. run_calls ring_enqueue_op ring_dequeue_op sample_ring
      [Enqueue (Bulk Multi) [1, 2], Dequeue (Burst Single) [0, 0, 0, 0], Enqueue (Bulk Default) [3]] =
        Some (r', ins, outs) \<and> [10, 11, 12] @ ins = outs @ ring_content r'"
  using rte_ring_fifo_history [OF sample_ring_wf(1), of
      "[Enqueue (Bulk Multi) [1, 2], Dequeue (Burst Single) [0, 0, 0, 0], Enqueue (Bulk Default) [3]]"]
  unfolding sample_ring_wf(2) by auto

text \<open>
  On a ring at rest \<open>rte_ring_count\<close> is the number of objects inside, \<open>rte_ring_free_count\<close> the room
  that is left, and \<open>rte_ring_empty\<close> and \<open>rte_ring_full\<close> say when each is 0, wherever the 32-bit
  indexes stand.
\<close>

theorem rte_ring_counters:
  assumes "ring_wf r"
  shows "unat (rte_ring_count r) = length (ring_content r) \<and>
    unat (rte_ring_free_count r) = unat (rte_ring_get_capacity r) - length (ring_content r) \<and>
    rte_ring_empty r = (ring_content r = []) \<and>
    rte_ring_full r = (length (ring_content r) = unat (rte_ring_get_capacity r)) \<and>
    unat (rte_ring_get_capacity r) = unat (rte_ring_get_size r) - 1"
proof -
  have "rte_ring_empty r = (unat (rte_ring_count r) = 0)" "rte_ring_full r = (unat (rte_ring_free_count r) = 0)"
    by (simp_all add: rte_ring_empty_def rte_ring_full_def unat_eq_zero)
  moreover have "(ring_content r = []) = (ring_len r = 0)" by (metis length_ring_content length_0_conv)
  moreover have "unat (r_capacity r) = unat (r_size r) - 1" using assms by (rule ring_wf_size)
  ultimately show ?thesis
    using ring_len_le [OF assms]
    by (auto simp: ring_count_eq ring_free_count_eq assms rte_ring_get_capacity_def rte_ring_get_size_def)
qed

theorem rte_ring_counters_witness:
  "unat (rte_ring_count sample_ring) = 3 \<and> unat (rte_ring_free_count sample_ring) = 4 \<and>
   \<not> rte_ring_empty sample_ring \<and> \<not> rte_ring_full sample_ring"
  using rte_ring_counters [OF sample_ring_wf(1)]
  by (simp add: sample_ring_wf rte_ring_get_capacity_def)

lemma sint_zero_or_pos: "sint (rte_ring_get_memsize count) \<le> 0 \<longleftrightarrow> \<not> (count = 0 \<or> (\<exists>k\<le>30. count = 2 ^ k))"
proof -
  have eq: "POWEROF2 count \<and> \<not> count > RTE_RING_SZ_MASK \<longleftrightarrow> count = 0 \<or> (\<exists>k\<le>30. count = 2 ^ k)"
  proof -
    have "\<not> (2 ^ k :: u32) > RTE_RING_SZ_MASK \<longleftrightarrow> k \<le> 30" if "k < 32" for k
    proof -
      have "(2::nat) ^ k \<le> 2 ^ 30 \<longleftrightarrow> k \<le> 30" by (rule power_increasing_iff) simp
      moreover have "(2::nat) ^ k < 2 ^ 31 \<longleftrightarrow> k < 31" by (rule power_strict_increasing_iff) simp
      ultimately show ?thesis
        using that by (auto simp: word_less_nat_alt unat_pow2 RTE_RING_SZ_MASK_def)
    qed
    moreover have "\<not> 0 > RTE_RING_SZ_MASK" by (simp add: RTE_RING_SZ_MASK_def)
    moreover have "k < 32" if "k \<le> 30" for k :: nat using that by simp
    ultimately show ?thesis unfolding POWEROF2_iff by blast
  qed
  show ?thesis
  proof (cases "count = 0")
    case True
    then show ?thesis
      by (simp add: rte_ring_get_memsize_def POWEROF2_def RTE_RING_SZ_MASK_def sizeof_rte_ring_def
          RTE_ALIGN_def RTE_ALIGN_CEIL_def RTE_ALIGN_FLOOR_def)
  next
    case False
    then show ?thesis
      using eq ring_memsize_room(2) by (fastforce simp: rte_ring_get_memsize_def)
  qed
qed

text \<open>
  \<open>rte_ring_create\<close> gives a ring exactly when the count is a power of two up to 2^30, or 0, and
  \<open>malloc\<close> gives memory; every other count is refused before \<open>malloc\<close> is called.
\<close>

theorem rte_ring_create_accepts:
  "rte_ring_create malloc count flags =
     (if count = 0 \<or> (\<exists>k\<le>30. count = 2 ^ k)
      then map_option (\<lambda>r. rte_ring_init r count flags) (malloc (rte_ring_get_memsize count))
      else None)"
  using sint_zero_or_pos [of count]
  by (auto simp: rte_ring_create_def Let_def split: option.split)

text \<open>
  A ring created for a power of two up to 2^30 is well-formed and empty, holds one object less than
  its count, and its modes are the ones the flags ask for.
\<close>

theorem rte_ring_create_ready:
  assumes "k \<le> 30" and "malloc_gives_room malloc" and "malloc (rte_ring_get_memsize (2 ^ k)) = Some r0"
  shows "\<exists>r. rte_ring_create malloc (2 ^ k) flags = Some r \<and> ring_wf r \<and> ring_content r = [] \<and>
    unat (rte_ring_get_capacity r) = 2 ^ k - 1 \<and>
    (ht_single (r_prod r) \<noteq> 0) = (flags AND RING_F_SP_ENQ \<noteq> 0) \<and>
    (ht_single (r_cons r) \<noteq> 0) = (flags AND RING_F_SC_DEQ \<noteq> 0)"
proof -
  have "unat (2 ^ k - 1 :: u32) = 2 ^ k - 1"
    using assms(1) by (subst unat_minus_one) (auto simp: unat_pow2)
  then show ?thesis
    using create_wf [OF assms(1,3,2), of flags]
    by (auto simp: rte_ring_get_capacity_def rte_ring_init_def IS_SP_def IS_MP_def IS_SC_def IS_MC_def)
qed

definition sample_malloc :: "u64 \<Rightarrow> nat rte_ring option" where
  "sample_malloc sz = Some (sample_ring\<lparr>r_table := replicate ((unat sz - 384) div 8) 0\<rparr>)"

lemma sample_malloc_room: "malloc_gives_room sample_malloc"
  by (simp add: malloc_gives_room_def sample_malloc_def sizeof_rte_ring_def)

theorem rte_ring_create_ready_witness:
  "\<exists>r. rte_ring_create sample_malloc (2 ^ 4) RING_F_SP_ENQ = Some r \<and> ring_wf r \<and>
     unat (rte_ring_get_capacity r) = 15 \<and> ht_single (r_prod r) \<noteq> 0"
  using rte_ring_create_ready [of 4, OF _ sample_malloc_room, of _ RING_F_SP_ENQ]
  by (auto simp: sample_malloc_def RING_F_SP_ENQ_def)

text \<open>
  A count of 0 passes \<open>POWEROF2\<close>: \<open>rte_ring_create\<close> returns a ring that claims a capacity of
  2^32 - 1 but has no cell, and the first enqueue writes outside its memory.
\<close>

theorem rte_ring_create_zero:
  assumes "malloc_gives_room malloc" and "malloc (rte_ring_get_memsize 0) = Some r0"
  shows "\<exists>r. rte_ring_create malloc 0 flags = Some r \<and> unat (rte_ring_get_capacity r) = 2 ^ 32 - 1 \<and>
    rte_ring_enqueue r x = None"
proof -
  have m: "rte_ring_get_memsize 0 = 384"
    by (simp add: rte_ring_get_memsize_def POWEROF2_def RTE_RING_SZ_MASK_def sizeof_rte_ring_def
        RTE_ALIGN_def RTE_ALIGN_CEIL_def RTE_ALIGN_FLOOR_def)
  then have empty: "r_table r0 = []"
    using assms by (fastforce simp: malloc_gives_room_def sizeof_rte_ring_def)
  let ?r = "rte_ring_init r0 0 flags"
  have r: "r_size ?r = 0" "r_capacity ?r = - 1" "ht_head (r_prod ?r) = 0" "ht_tail (r_cons ?r) = 0"
    "r_table ?r = []"
    by (simp_all add: rte_ring_init_def empty)
  have copy: "ENQUEUE_PTRS (?r\<lparr>r_prod := p\<rparr>) 0 [x] 1 = None" for p
    by (simp add: ENQUEUE_PTRS_def copy_ptrs_def r ptrs_to_end.simps ptrs_from_start.simps rd_def wr_def)
  have "clip_count 1 RTE_RING_QUEUE_FIXED (- 1) = 1" by (simp add: clip_count_def)
  then have "rte_ring_enqueue ?r x = None"
    by (simp add: rte_ring_enqueue_def rte_ring_enqueue_bulk_def rte_ring_do_enqueue_def
        move_prod_head_eq Let_def r copy)
  moreover have "rte_ring_create malloc 0 flags = Some ?r"
    using assms(2) sint_zero_or_pos [of 0] by (simp add: rte_ring_create_def Let_def)
  moreover have "unat (- 1 :: u32) = 2 ^ 32 - 1" by (simp add: unsigned_minus_1_eq_mask mask_eq_exp_minus_1)
  ultimately show ?thesis by (simp add: rte_ring_get_capacity_def r(2))
qed

theorem rte_ring_create_zero_witness:
  "\<exists>r. rte_ring_create sample_malloc 0 0 = Some r \<and> rte_ring_enqueue r 7 = None"
  using rte_ring_create_zero [OF sample_malloc_room, of _ 0 7] by (auto simp: sample_malloc_def)

text \<open>
  One object at a time: \<open>rte_ring_enqueue\<close> returns 0 and appends the object, or -ENOBUFS and changes
  nothing when the ring is full; \<open>rte_ring_dequeue\<close> returns 0 and the oldest object, or -ENOENT and
  leaves the caller's cell alone when the ring is empty.
\<close>

theorem rte_ring_single_object:
  assumes "ring_wf r"
  shows "(\<exists>r'. rte_ring_enqueue r x = Some (r', if rte_ring_full r then - ENOBUFS else 0) \<and> ring_wf r' \<and>
           ring_content r' = (if rte_ring_full r then ring_content r else ring_content r @ [x])) \<and>
         (\<exists>r'. rte_ring_dequeue r y =
             Some (r', if rte_ring_empty r then y else hd (ring_content r),
                   if rte_ring_empty r then - ENOENT else 0) \<and> ring_wf r' \<and>
           ring_content r' = (if rte_ring_empty r then ring_content r else tl (ring_content r)))"
proof
  have full: "rte_ring_full r \<longleftrightarrow> unat (r_capacity r) - ring_len r = 0"
    using ring_free_count_eq [OF assms] by (simp add: rte_ring_full_def unat_eq_zero [symmetric])
  obtain r' m free where e: "rte_ring_do_enqueue r [x] 1 RTE_RING_QUEUE_FIXED (ht_single (r_prod r)) =
      Some (r', m, free)" "ring_wf r'"
    "fifo_enqueue (unat (r_capacity r)) RTE_RING_QUEUE_FIXED (ring_content r) [x] (unat (1 :: u32)) =
       (ring_content r', unat m, unat free)"
    by (rule do_enqueue_fifo [OF assms, of 1 "[x]"]) auto
  then have "m \<noteq> 0 \<longleftrightarrow> \<not> rte_ring_full r"
    "ring_content r' = (if rte_ring_full r then ring_content r else ring_content r @ [x])"
    by (auto simp: full fifo_enqueue_def clip_nat_def Let_def unat_eq_zero [symmetric] split: if_splits)
  with e show "\<exists>r'. rte_ring_enqueue r x = Some (r', if rte_ring_full r then - ENOBUFS else 0) \<and> ring_wf r' \<and>
      ring_content r' = (if rte_ring_full r then ring_content r else ring_content r @ [x])"
    by (simp add: rte_ring_enqueue_def rte_ring_enqueue_bulk_def)
next
  have empty: "rte_ring_empty r \<longleftrightarrow> ring_len r = 0"
    using ring_count_eq [OF assms] by (simp add: rte_ring_empty_def unat_eq_zero [symmetric])
  obtain r' objs m left where d: "rte_ring_do_dequeue r [y] 1 RTE_RING_QUEUE_FIXED (ht_single (r_cons r)) =
      Some (r', objs, m, left)" "ring_wf r'"
    "fifo_dequeue RTE_RING_QUEUE_FIXED (ring_content r) [y] (unat (1 :: u32)) =
       (ring_content r', objs, unat m, unat left)"
    by (rule do_dequeue_fifo [OF assms, of 1 "[y]"]) auto
  moreover have "take 1 (ring_content r) = [hd (ring_content r)]" if "ring_len r \<noteq> 0"
    using that by (cases "ring_content r") (auto dest: arg_cong [where f = length])
  ultimately have "m \<noteq> 0 \<longleftrightarrow> \<not> rte_ring_empty r"
    "hd objs = (if rte_ring_empty r then y else hd (ring_content r))"
    "ring_content r' = (if rte_ring_empty r then ring_content r else tl (ring_content r))"
    by (auto simp: empty fifo_dequeue_def clip_nat_def Let_def drop_Suc unat_eq_zero [symmetric]
        split: if_splits)
  with d show "\<exists>r'. rte_ring_dequeue r y =
        Some (r', if rte_ring_empty r then y else hd (ring_content r),
              if rte_ring_empty r then - ENOENT else 0) \<and> ring_wf r' \<and>
      ring_content r' = (if rte_ring_empty r then ring_content r else tl (ring_content r))"
    by (simp add: rte_ring_dequeue_def rte_ring_dequeue_bulk_def)
qed

theorem rte_ring_single_object_witness:
  "(\<exists>r'. rte_ring_enqueue sample_ring 5 = Some (r', 0) \<and> ring_content r' = [10, 11, 12, 5]) \<and>
   (\<exists>r'. rte_ring_dequeue sample_ring 0 = Some (r', 10, 0) \<and> ring_content r' = [11, 12])"
proof -
  have "\<not> rte_ring_full sample_ring" "\<not> rte_ring_empty sample_ring"
    by (simp_all add: rte_ring_full_def rte_ring_empty_def rte_ring_free_count_def rte_ring_count_def
        sample_ring_def)
  then show ?thesis
    using rte_ring_single_object [OF sample_ring_wf(1), of 5 0] by (auto simp: sample_ring_wf(2))
qed

end
