(* ===== verification/Rte_Ring_Concurrent.thy ===== *)
theory Rte_Ring_Concurrent
  imports Rte_Ring_Fifo Interleaving
begin

text \<open>
  The ring used by many producers and consumers at once.  Each thread is at a program counter inside
  \<open>__rte_ring_do_enqueue\<close> or \<open>__rte_ring_do_dequeue\<close> and makes one access to the ring at a time: it
  loads its own head, loads the other side's tail, swaps or stores the head, copies one cell, waits
  for its turn, stores the tail.  Accesses are sequentially consistent.

  The run also records, for the statements only, the objects in the order of the reservations
  (\<open>rr_log\<close>), the objects in the order the consumers gave their cells back (\<open>rr_out\<close>), how many
  objects are published and how many are reserved by consumers.  A counter keeps the length of
  \<open>rr_log\<close> at the load of the head: the compare-and-set of a 32-bit head cannot tell two values
  that are 2^32 objects apart, so a run in which that many objects pass a thread between its load and
  its swap is left out.
\<close>

subsection \<open>The accesses of a producer and a consumer\<close>

record 'a ring_run =
  rr_ring :: "'a rte_ring"
  rr_log :: "'a list"
  rr_out :: "'a list"
  rr_pub :: nat
  rr_taken :: nat

text \<open>The cell of the \<open>i\<close>-th object of a copy that starts at \<open>head\<close>.\<close>

definition ring_cell :: "'a rte_ring \<Rightarrow> u32 \<Rightarrow> nat \<Rightarrow> u32" where
  "ring_cell r head i =
     (let idx = head AND r_mask r
      in if unat idx + i < unat (r_size r) then idx + of_nat i else idx + of_nat i - r_size r)"

text \<open>
  A producer is outside; about to load its head; about to load the consumers' tail; about to move the
  head by the count it clipped; or copying, \<open>i\<close> cells being done, and then publishing.  It keeps
  the table and behavior of the call, the count, the head it loaded and where the head stood.
\<close>

datatype 'a ring_pc =
    P_out
  | P_load "'a list" rte_ring_queue_behavior
  | P_room "'a list" rte_ring_queue_behavior u32 nat
  | P_move "'a list" rte_ring_queue_behavior nat u32 nat
  | P_copy "'a list" u32 nat nat
  | C_out
  | C_load u32 rte_ring_queue_behavior
  | C_room u32 rte_ring_queue_behavior u32 nat
  | C_move u32 rte_ring_queue_behavior nat u32 nat
  | C_copy nat u32 nat "'a list"

text \<open>The ring after a head or a tail moved.\<close>

definition set_prod_head :: "u32 \<Rightarrow> 'a rte_ring \<Rightarrow> 'a rte_ring" where
  "set_prod_head h r = r\<lparr>r_prod := (r_prod r)\<lparr>ht_head := h\<rparr>\<rparr>"

definition set_prod_tail :: "u32 \<Rightarrow> 'a rte_ring \<Rightarrow> 'a rte_ring" where
  "set_prod_tail h r = r\<lparr>r_prod := (r_prod r)\<lparr>ht_tail := h\<rparr>\<rparr>"

definition set_cons_head :: "u32 \<Rightarrow> 'a rte_ring \<Rightarrow> 'a rte_ring" where
  "set_cons_head h r = r\<lparr>r_cons := (r_cons r)\<lparr>ht_head := h\<rparr>\<rparr>"

definition set_cons_tail :: "u32 \<Rightarrow> 'a rte_ring \<Rightarrow> 'a rte_ring" where
  "set_cons_tail h r = r\<lparr>r_cons := (r_cons r)\<lparr>ht_tail := h\<rparr>\<rparr>"

lemmas ring_setters = set_prod_head_def set_prod_tail_def set_cons_head_def set_cons_tail_def

definition prod_moved :: "'a list \<Rightarrow> u32 \<Rightarrow> 'a ring_run \<Rightarrow> 'a ring_run" where
  "prod_moved objs old s = s\<lparr>rr_ring := set_prod_head (old + of_nat (length objs)) (rr_ring s),
     rr_log := rr_log s @ objs\<rparr>"

definition cons_moved :: "nat \<Rightarrow> u32 \<Rightarrow> 'a ring_run \<Rightarrow> 'a ring_run" where
  "cons_moved n old s = s\<lparr>rr_ring := set_cons_head (old + of_nat n) (rr_ring s), rr_taken := rr_taken s + n\<rparr>"

inductive prod_act :: "'a ring_run \<Rightarrow> 'a ring_pc \<Rightarrow> 'a ring_run \<Rightarrow> 'a ring_pc \<Rightarrow> bool" where
  p_call: "length objs < 2 ^ 32 \<Longrightarrow> prod_act s P_out s (P_load objs beh)"
| p_load: "prod_act s (P_load objs beh)
    s (P_room objs beh (ht_head (r_prod (rr_ring s))) (length (rr_log s)))"
| p_room: "free = r_capacity (rr_ring s) + ht_tail (r_cons (rr_ring s)) - old \<Longrightarrow>
    n = clip_count (of_nat (length objs)) beh free \<Longrightarrow>
    prod_act s (P_room objs beh old g) s (if n = 0 then P_out else P_move objs beh (unat n) old g)"
| p_store: "ht_single (r_prod (rr_ring s)) \<noteq> 0 \<Longrightarrow>
    prod_act s (P_move objs beh n old g) (prod_moved (take n objs) old s) (P_copy (take n objs) old g 0)"
| p_swap: "ht_single (r_prod (rr_ring s)) = 0 \<Longrightarrow> ht_head (r_prod (rr_ring s)) = old \<Longrightarrow>
    length (rr_log s) < g + 2 ^ 32 \<Longrightarrow>
    prod_act s (P_move objs beh n old g) (prod_moved (take n objs) old s) (P_copy (take n objs) old g 0)"
| p_again: "ht_single (r_prod (rr_ring s)) = 0 \<Longrightarrow> ht_head (r_prod (rr_ring s)) \<noteq> old \<Longrightarrow>
    prod_act s (P_move objs beh n old g) s (P_load objs beh)"
| p_cell: "i < length objs \<Longrightarrow> wr (r_table (rr_ring s)) (ring_cell (rr_ring s) old i) (objs ! i) = Some t \<Longrightarrow>
    prod_act s (P_copy objs old g i) (s\<lparr>rr_ring := (rr_ring s)\<lparr>r_table := t\<rparr>\<rparr>) (P_copy objs old g (Suc i))"
| p_wait: "ht_single (r_prod (rr_ring s)) = 0 \<Longrightarrow> ht_tail (r_prod (rr_ring s)) \<noteq> old \<Longrightarrow>
    prod_act s (P_copy objs old g (length objs)) s (P_copy objs old g (length objs))"
| p_publish: "ht_single (r_prod (rr_ring s)) \<noteq> 0 \<or> ht_tail (r_prod (rr_ring s)) = old \<Longrightarrow>
    prod_act s (P_copy objs old g (length objs))
      (s\<lparr>rr_ring := set_prod_tail (old + of_nat (length objs)) (rr_ring s), rr_pub := rr_pub s + length objs\<rparr>) P_out"

inductive cons_act :: "'a ring_run \<Rightarrow> 'a ring_pc \<Rightarrow> 'a ring_run \<Rightarrow> 'a ring_pc \<Rightarrow> bool" where
  c_call: "cons_act s C_out s (C_load n beh)"
| c_load: "cons_act s (C_load n beh) s (C_room n beh (ht_head (r_cons (rr_ring s))) (rr_taken s))"
| c_room: "entries = ht_tail (r_prod (rr_ring s)) - old \<Longrightarrow> m = clip_count n beh entries \<Longrightarrow>
    cons_act s (C_room n beh old g) s (if m = 0 then C_out else C_move n beh (unat m) old g)"
| c_store: "ht_single (r_cons (rr_ring s)) \<noteq> 0 \<Longrightarrow>
    cons_act s (C_move n beh m old g) (cons_moved m old s) (C_copy m old g [])"
| c_swap: "ht_single (r_cons (rr_ring s)) = 0 \<Longrightarrow> ht_head (r_cons (rr_ring s)) = old \<Longrightarrow>
    rr_taken s < g + 2 ^ 32 \<Longrightarrow>
    cons_act s (C_move n beh m old g) (cons_moved m old s) (C_copy m old g [])"
| c_again: "ht_single (r_cons (rr_ring s)) = 0 \<Longrightarrow> ht_head (r_cons (rr_ring s)) \<noteq> old \<Longrightarrow>
    cons_act s (C_move n beh m old g) s (C_load n beh)"
| c_cell: "length got < m \<Longrightarrow> rd (r_table (rr_ring s)) (ring_cell (rr_ring s) old (length got)) = Some x \<Longrightarrow>
    cons_act s (C_copy m old g got) s (C_copy m old g (got @ [x]))"
| c_wait: "length got = m \<Longrightarrow> ht_single (r_cons (rr_ring s)) = 0 \<Longrightarrow> ht_tail (r_cons (rr_ring s)) \<noteq> old \<Longrightarrow>
    cons_act s (C_copy m old g got) s (C_copy m old g got)"
| c_publish: "length got = m \<Longrightarrow> ht_single (r_cons (rr_ring s)) \<noteq> 0 \<or> ht_tail (r_cons (rr_ring s)) = old \<Longrightarrow>
    cons_act s (C_copy m old g got)
      (s\<lparr>rr_ring := set_cons_tail (old + of_nat m) (rr_ring s), rr_out := rr_out s @ got\<rparr>) C_out"

definition ring_act :: "'a ring_run \<Rightarrow> 'a ring_pc \<Rightarrow> 'a ring_run \<Rightarrow> 'a ring_pc \<Rightarrow> bool" where
  "ring_act s p s' p' \<longleftrightarrow> prod_act s p s' p' \<or> cons_act s p s' p'"

inductive_cases prod_actE: "prod_act s p s' p'"
inductive_cases cons_actE: "cons_act s p s' p'"

subsection \<open>The invariant\<close>

abbreviation ring_n :: "'a ring_run \<Rightarrow> nat" where
  "ring_n s \<equiv> unat (r_size (rr_ring s))"

abbreviation ring_cap :: "'a ring_run \<Rightarrow> nat" where
  "ring_cap s \<equiv> unat (r_capacity (rr_ring s))"

definition ring_setup :: "'a rte_ring \<Rightarrow> bool" where
  "ring_setup r \<longleftrightarrow> (\<exists>k\<le>30. r_size r = 2 ^ k) \<and> r_mask r = r_size r - 1 \<and> r_capacity r = r_size r - 1 \<and>
     unat (r_size r) \<le> length (r_table r)"

text \<open>
  The four indexes are the numbers of objects given back, reserved by consumers, published and
  reserved by producers, in this order and less than a ring apart; published objects that were not
  given back are in their cells; what the consumers gave back is what the producers reserved first.
\<close>

definition shared_ok :: "'a ring_run \<Rightarrow> bool" where
  "shared_ok s \<longleftrightarrow>
     ht_head (r_prod (rr_ring s)) = of_nat (length (rr_log s)) \<and> ht_tail (r_prod (rr_ring s)) = of_nat (rr_pub s) \<and>
     ht_head (r_cons (rr_ring s)) = of_nat (rr_taken s) \<and> ht_tail (r_cons (rr_ring s)) = of_nat (length (rr_out s)) \<and>
     length (rr_out s) \<le> rr_taken s \<and> rr_taken s \<le> rr_pub s \<and> rr_pub s \<le> length (rr_log s) \<and>
     length (rr_log s) \<le> length (rr_out s) + ring_cap s \<and> rr_out s = take (length (rr_out s)) (rr_log s) \<and>
     (\<forall>p. length (rr_out s) \<le> p \<and> p < rr_pub s \<longrightarrow> r_table (rr_ring s) ! (p mod ring_n s) = rr_log s ! p)"

fun covers_prod :: "nat \<Rightarrow> 'a ring_pc \<Rightarrow> bool" where
  "covers_prod p (P_copy objs old g i) \<longleftrightarrow> g \<le> p \<and> p < g + length objs"
| "covers_prod p _ \<longleftrightarrow> False"

fun covers_cons :: "nat \<Rightarrow> 'a ring_pc \<Rightarrow> bool" where
  "covers_cons p (C_copy m old g got) \<longleftrightarrow> g \<le> p \<and> p < g + m"
| "covers_cons p _ \<longleftrightarrow> False"

fun is_producer :: "'a ring_pc \<Rightarrow> bool" where
  "is_producer P_out \<longleftrightarrow> True"
| "is_producer (P_load _ _) \<longleftrightarrow> True"
| "is_producer (P_room _ _ _ _) \<longleftrightarrow> True"
| "is_producer (P_move _ _ _ _ _) \<longleftrightarrow> True"
| "is_producer (P_copy _ _ _ _) \<longleftrightarrow> True"
| "is_producer _ \<longleftrightarrow> False"

abbreviation count_if :: "('p \<Rightarrow> bool) \<Rightarrow> 'p list \<Rightarrow> nat" where
  "count_if P ps \<equiv> length (filter P ps)"

text \<open>Every reserved position that is not published, or not given back, belongs to one thread.\<close>

definition owners_ok :: "'a ring_run \<Rightarrow> 'a ring_pc list \<Rightarrow> bool" where
  "owners_ok s ps \<longleftrightarrow>
     (\<forall>p. count_if (covers_prod p) ps = (if rr_pub s \<le> p \<and> p < length (rr_log s) then 1 else 0)) \<and>
     (\<forall>p. count_if (covers_cons p) ps = (if length (rr_out s) \<le> p \<and> p < rr_taken s then 1 else 0))"

text \<open>A ring for a single producer or consumer has one.\<close>

definition modes_ok :: "'a ring_run \<Rightarrow> 'a ring_pc list \<Rightarrow> bool" where
  "modes_ok s ps \<longleftrightarrow>
     (ht_single (r_prod (rr_ring s)) \<noteq> 0 \<longrightarrow> count_if is_producer ps \<le> 1) \<and>
     (ht_single (r_cons (rr_ring s)) \<noteq> 0 \<longrightarrow> count_if (\<lambda>pc. \<not> is_producer pc) ps \<le> 1)"

fun pc_ok :: "'a ring_run \<Rightarrow> 'a ring_pc \<Rightarrow> bool" where
  "pc_ok s P_out \<longleftrightarrow> True"
| "pc_ok s (P_load objs beh) \<longleftrightarrow> length objs < 2 ^ 32"
| "pc_ok s (P_room objs beh old g) \<longleftrightarrow> length objs < 2 ^ 32 \<and> old = of_nat g \<and> g \<le> length (rr_log s) \<and>
     (ht_single (r_prod (rr_ring s)) \<noteq> 0 \<longrightarrow> g = length (rr_log s))"
| "pc_ok s (P_move objs beh n old g) \<longleftrightarrow> length objs < 2 ^ 32 \<and> old = of_nat g \<and> g \<le> length (rr_log s) \<and>
     (ht_single (r_prod (rr_ring s)) \<noteq> 0 \<longrightarrow> g = length (rr_log s)) \<and> 0 < n \<and> n \<le> length objs \<and>
     (g = length (rr_log s) \<longrightarrow> g + n \<le> length (rr_out s) + ring_cap s)"
| "pc_ok s (P_copy objs old g i) \<longleftrightarrow> old = of_nat g \<and> i \<le> length objs \<and> objs \<noteq> [] \<and>
     g + length objs \<le> length (rr_log s) \<and> take (length objs) (drop g (rr_log s)) = objs \<and>
     (\<forall>j<i. r_table (rr_ring s) ! ((g + j) mod ring_n s) = objs ! j)"
| "pc_ok s C_out \<longleftrightarrow> True"
| "pc_ok s (C_load n beh) \<longleftrightarrow> True"
| "pc_ok s (C_room n beh old g) \<longleftrightarrow> old = of_nat g \<and> g \<le> rr_taken s \<and>
     (ht_single (r_cons (rr_ring s)) \<noteq> 0 \<longrightarrow> g = rr_taken s)"
| "pc_ok s (C_move n beh m old g) \<longleftrightarrow> old = of_nat g \<and> g \<le> rr_taken s \<and>
     (ht_single (r_cons (rr_ring s)) \<noteq> 0 \<longrightarrow> g = rr_taken s) \<and> 0 < m \<and>
     (g = rr_taken s \<longrightarrow> g + m \<le> rr_pub s)"
| "pc_ok s (C_copy m old g got) \<longleftrightarrow> old = of_nat g \<and> length got \<le> m \<and> 0 < m \<and> g + m \<le> rr_taken s \<and>
     got = take (length got) (drop g (rr_log s))"

definition ring_inv :: "'a ring_run \<times> 'a ring_pc list \<Rightarrow> bool" where
  "ring_inv = (\<lambda>(s, ps). ring_setup (rr_ring s) \<and> shared_ok s \<and> owners_ok s ps \<and> modes_ok s ps \<and>
     (\<forall>pc\<in>set ps. pc_ok s pc))"

subsection \<open>Positions and cells\<close>

lemma of_nat_eq_near:
  assumes "of_nat a = (of_nat b :: u32)" "a \<le> b" "b < a + 2 ^ 32"
  shows "a = b"
proof -
  have "a mod 2 ^ 32 = b mod 2 ^ 32"
    using arg_cong [OF assms(1), of unat] by (simp add: unat_of_nat take_bit_eq_mod)
  then have "2 ^ 32 dvd b - a" using assms(2) by (metis mod_eq_dvd_iff_nat)
  then show ?thesis using assms by (metis dvd_imp_le le_antisym less_diff_conv2 add.commute not_le zero_less_diff)
qed

lemma mod_neq_near:
  assumes "p < q" "q < p + (n::nat)"
  shows "p mod n \<noteq> q mod n"
proof
  assume "p mod n = q mod n"
  then have "n dvd q - p" using assms(1) by (metis mod_eq_dvd_iff_nat less_imp_le)
  then show False using assms by (auto dest: dvd_imp_le)
qed

lemma length_filter_two:
  assumes "i < length xs" "j < length xs" "i \<noteq> j" "P (xs ! i)" "P (xs ! j)"
  shows "2 \<le> length (filter P xs)"
proof -
  have "{i, j} \<subseteq> {k. k < length xs \<and> P (xs ! k)}" using assms by auto
  then have "card {i, j} \<le> card {k. k < length xs \<and> P (xs ! k)}" by (intro card_mono) auto
  then show ?thesis using assms(3) by (simp add: length_filter_conv_card)
qed

lemma ring_setup_size:
  assumes "ring_setup r"
  obtains k where "k \<le> 30" "unat (r_size r) = 2 ^ k" "r_mask r = mask k"
    "unat (r_capacity r) = unat (r_size r) - 1" "unat (r_size r) \<le> 2 ^ 30" "0 < unat (r_size r)"
proof -
  from assms obtain k where k: "k \<le> 30" "r_size r = 2 ^ k" by (auto simp: ring_setup_def)
  then have u: "unat (r_size r) = 2 ^ k" by (simp add: unat_pow2)
  have "unat (r_size r - 1) = unat (r_size r) - 1"
    using unat_sub_le [of 1 "r_size r"] by (simp add: word_le_nat_alt u)
  moreover have "(2::nat) ^ k \<le> 2 ^ 30" using k(1) by (intro power_increasing) simp_all
  ultimately show thesis
    using k assms u that [of k] by (auto simp: ring_setup_def mask_eq_pow2_minus_1)
qed

lemma unat_ring_cell:
  assumes "ring_setup r" "i < unat (r_size r)"
  shows "unat (ring_cell r (of_nat p) i) = (p + i) mod unat (r_size r)"
proof -
  from assms(1) obtain k where k: "k \<le> 30" "unat (r_size r) = 2 ^ k" "r_mask r = mask k"
    "unat (r_size r) \<le> 2 ^ 30" "0 < unat (r_size r)" by (rule ring_setup_size)
  define idx :: u32 where "idx = of_nat p AND r_mask r"
  have "p mod 2 ^ 32 mod 2 ^ k = p mod 2 ^ k" using k(1) by (intro mod_mod_cancel le_imp_power_dvd) simp
  moreover have "unat (of_nat p :: u32) = p mod 2 ^ 32" by (simp add: unat_of_nat take_bit_eq_mod)
  ultimately have idx: "unat idx = p mod 2 ^ k" by (simp only: idx_def k(3) unat_and_mask)
  then have lt: "unat idx < unat (r_size r)" using k by simp
  have add: "unat (idx + of_nat i) = unat idx + i"
    using lt assms(2) k by (intro unat_add_of_nat) simp
  show ?thesis
  proof (cases "unat idx + i < unat (r_size r)")
    case True
    then have "(p mod unat (r_size r) + i) mod unat (r_size r) = unat idx + i" by (simp add: idx k(2))
    then show ?thesis using True add by (simp add: ring_cell_def Let_def mod_add_left_eq flip: idx_def)
  next
    case False
    then have "unat (idx + of_nat i - r_size r) = unat idx + i - unat (r_size r)"
      using add by (subst unat_sub_le) (simp_all add: word_le_nat_alt)
    moreover have "(unat idx + i) mod unat (r_size r) = unat idx + i - unat (r_size r)"
      using False lt assms(2) by (simp add: mod_if)
    moreover have "(unat idx + i) mod unat (r_size r) = (p + i) mod unat (r_size r)"
      by (simp add: idx k(2) mod_add_left_eq)
    ultimately show ?thesis using False by (simp add: ring_cell_def Let_def flip: idx_def)
  qed
qed

subsection \<open>What a step of one thread leaves true for the others\<close>

lemma shared_order:
  assumes "shared_ok s"
  shows "length (rr_out s) \<le> rr_taken s" "rr_taken s \<le> rr_pub s" "rr_pub s \<le> length (rr_log s)"
    "length (rr_log s) \<le> length (rr_out s) + ring_cap s" "rr_pub s \<le> length (rr_out s) + ring_cap s"
    "rr_taken s \<le> length (rr_log s)"
  using assms by (auto simp: shared_ok_def)

lemma pc_ok_prod_moved:
  assumes "shared_ok s" "pc_ok s pc" "objs \<noteq> []" "ht_single (r_prod (rr_ring s)) = 0 \<or> \<not> is_producer pc"
  shows "pc_ok (prod_moved objs old s) pc"
  using assms(2-) shared_order [OF assms(1)] by (cases pc) (auto simp: prod_moved_def set_prod_head_def)

lemma pc_ok_cons_moved:
  assumes "pc_ok s pc" "0 < n" "ht_single (r_cons (rr_ring s)) = 0 \<or> is_producer pc"
  shows "pc_ok (cons_moved n old s) pc"
  using assms by (cases pc) (auto simp: cons_moved_def set_cons_head_def)

lemma pc_ok_published:
  "pc_ok s pc \<Longrightarrow> pc_ok (s\<lparr>rr_ring := set_prod_tail w (rr_ring s), rr_pub := rr_pub s + n\<rparr>) pc"
  by (cases pc) (auto simp: set_prod_tail_def)

lemma pc_ok_given_back:
  "pc_ok s pc \<Longrightarrow> pc_ok (s\<lparr>rr_ring := set_cons_tail w (rr_ring s), rr_out := rr_out s @ xs\<rparr>) pc"
  by (cases pc) (auto simp: set_cons_tail_def)

text \<open>A write to a cell of a window of the ring does not show at the other positions of the window.\<close>

lemma cell_frame:
  assumes "lo \<le> p" "lo \<le> q" "p < lo + n" "q < lo + n" "p \<noteq> q" "p mod n < length t"
  shows "t[p mod n := x] ! (q mod n) = t ! (q mod n)"
proof -
  have "p mod n \<noteq> q mod n"
    using assms mod_neq_near [of p q n] mod_neq_near [of q p n] by linarith
  then show ?thesis by simp
qed

lemma pc_ok_cell:
  assumes "shared_ok s" "pc_ok s pc" "ring_cap s < ring_n s" "ring_n s \<le> length (r_table (rr_ring s))"
    and p: "rr_pub s \<le> p" "p < length (rr_log s)" "\<not> covers_prod p pc"
    and pc: "\<And>q. covers_prod q pc \<Longrightarrow> rr_pub s \<le> q \<and> q < length (rr_log s)"
  shows "pc_ok (s\<lparr>rr_ring := (rr_ring s)\<lparr>r_table := (r_table (rr_ring s))[p mod ring_n s := x]\<rparr>\<rparr>) pc"
proof (cases pc)
  case (P_copy objs old g i)
  have "(r_table (rr_ring s))[p mod ring_n s := x] ! ((g + j) mod ring_n s) = objs ! j" if "j < i" for j
  proof -
    have "j < length objs" using that assms(2) P_copy by simp
    then have "covers_prod (g + j) pc" using P_copy by simp
    then have "rr_pub s \<le> g + j" "g + j < length (rr_log s)" "g + j \<noteq> p" using pc p(3) by auto
    moreover have "p mod ring_n s < length (r_table (rr_ring s))"
      using assms(3,4) by (meson le_less_trans mod_less_divisor not_less zero_le)
    ultimately have "(r_table (rr_ring s))[p mod ring_n s := x] ! ((g + j) mod ring_n s) =
        r_table (rr_ring s) ! ((g + j) mod ring_n s)"
      using p shared_order [OF assms(1)] assms(3) by (intro cell_frame [of "length (rr_out s)"]) linarith+
    then show ?thesis using that assms(2) P_copy by simp
  qed
  then show ?thesis using assms(2) P_copy by simp
qed (use assms(2) in auto)

subsection \<open>The shared state after each kind of step\<close>

lemma shared_prod_moved:
  assumes "shared_ok s" "length (rr_log s) + length objs \<le> length (rr_out s) + ring_cap s"
  shows "shared_ok (prod_moved objs (of_nat (length (rr_log s))) s)"
  using assms by (auto simp: shared_ok_def prod_moved_def set_prod_head_def nth_append)

lemma shared_cons_moved:
  assumes "shared_ok s" "rr_taken s + n \<le> rr_pub s"
  shows "shared_ok (cons_moved n (of_nat (rr_taken s)) s)"
  using assms by (auto simp: shared_ok_def cons_moved_def set_cons_head_def)

lemma shared_cell:
  assumes "shared_ok s" "ring_cap s < ring_n s" "ring_n s \<le> length (r_table (rr_ring s))"
    "rr_pub s \<le> p" "p < length (rr_log s)"
  shows "shared_ok (s\<lparr>rr_ring := (rr_ring s)\<lparr>r_table := (r_table (rr_ring s))[p mod ring_n s := x]\<rparr>\<rparr>)"
proof -
  have "p mod ring_n s < length (r_table (rr_ring s))"
    using assms(2,3) by (meson le_less_trans mod_less_divisor not_less zero_le)
  then have "(r_table (rr_ring s))[p mod ring_n s := x] ! (q mod ring_n s) = rr_log s ! q"
    if "length (rr_out s) \<le> q" "q < rr_pub s" for q
    using that assms shared_order [OF assms(1)]
    by (subst cell_frame [of "length (rr_out s)"]) (auto simp: shared_ok_def)
  then show ?thesis using assms(1) by (auto simp: shared_ok_def)
qed

lemma shared_published:
  assumes "shared_ok s" "pc_ok s (P_copy objs old (rr_pub s) (length objs))"
  shows "shared_ok (s\<lparr>rr_ring := set_prod_tail (old + of_nat (length objs)) (rr_ring s),
    rr_pub := rr_pub s + length objs\<rparr>)"
proof -
  have "r_table (rr_ring s) ! (p mod ring_n s) = rr_log s ! p"
    if "length (rr_out s) \<le> p" "p < rr_pub s + length objs" for p
  proof (cases "p < rr_pub s")
    case True
    then show ?thesis using that assms(1) by (simp add: shared_ok_def)
  next
    case False
    have "take (length objs) (drop (rr_pub s) (rr_log s)) = objs" using assms(2) by simp
    from arg_cong [OF this, of "\<lambda>xs. xs ! (p - rr_pub s)"] have "rr_log s ! p = objs ! (p - rr_pub s)"
      using False that assms(2) by (auto simp: nth_drop)
    then show ?thesis using False that assms(2) by (auto dest!: spec [of _ "p - rr_pub s"])
  qed
  then show ?thesis using assms by (auto simp: shared_ok_def set_prod_tail_def)
qed

lemma shared_given_back:
  assumes "shared_ok s" "pc_ok s (C_copy (length got) old (length (rr_out s)) got)"
  shows "shared_ok (s\<lparr>rr_ring := set_cons_tail (old + of_nat (length got)) (rr_ring s), rr_out := rr_out s @ got\<rparr>)"
proof -
  have "rr_out s @ got = take (length (rr_out s) + length got) (rr_log s)"
    using assms by (auto simp: shared_ok_def take_add)
  then show ?thesis using assms by (auto simp: shared_ok_def set_cons_tail_def)
qed

subsection \<open>Every step keeps the invariant\<close>

lemma ring_invD:
  assumes "ring_inv (s, ps)"
  shows "ring_setup (rr_ring s)" "shared_ok s" "owners_ok s ps" "modes_ok s ps"
    "\<And>j. j < length ps \<Longrightarrow> pc_ok s (ps ! j)" "ring_cap s < ring_n s" "ring_n s \<le> length (r_table (rr_ring s))"
    "ring_n s \<le> 2 ^ 30" "ring_cap s < 2 ^ 32"
proof -
  have "ring_setup (rr_ring s)" using assms by (simp add: ring_inv_def)
  then obtain k where "ring_cap s = ring_n s - 1" "ring_n s \<le> 2 ^ 30" "0 < ring_n s" by (rule ring_setup_size)
  then show "ring_cap s < ring_n s" "ring_n s \<le> 2 ^ 30" "ring_cap s < 2 ^ 32" by simp_all
qed (use assms in \<open>auto simp: ring_inv_def ring_setup_def\<close>)

definition in_range :: "nat \<Rightarrow> nat \<Rightarrow> nat \<Rightarrow> nat" where
  "in_range lo hi p = (if lo \<le> p \<and> p < hi then 1 else 0)"

lemma owners_update:
  assumes "owners_ok s ps" "i < length ps"
    and "\<And>p. of_bool (covers_prod p pc) + in_range (rr_pub s) (length (rr_log s)) p =
      of_bool (covers_prod p (ps ! i)) + in_range (rr_pub s') (length (rr_log s')) p"
    and "\<And>p. of_bool (covers_cons p pc) + in_range (length (rr_out s)) (rr_taken s) p =
      of_bool (covers_cons p (ps ! i)) + in_range (length (rr_out s')) (rr_taken s') p"
  shows "owners_ok s' (ps[i := pc])"
  unfolding owners_ok_def
proof (intro conjI allI)
  fix p
  have "count_if (covers_prod p) ps = in_range (rr_pub s) (length (rr_log s)) p"
    "count_if (covers_cons p) ps = in_range (length (rr_out s)) (rr_taken s) p"
    using assms(1) by (simp_all only: owners_ok_def in_range_def)
  moreover have "count_if P (ps[i := pc]) + of_bool (P (ps ! i)) = count_if P ps + of_bool (P pc)" for P
    using length_filter_update [OF assms(2), of P pc] by (simp only: of_bool_def)
  ultimately have "count_if (covers_prod p) (ps[i := pc]) = in_range (rr_pub s') (length (rr_log s')) p"
    "count_if (covers_cons p) (ps[i := pc]) = in_range (length (rr_out s')) (rr_taken s') p"
    using assms(3,4) by (metis add.commute add_left_imp_eq)+
  then show "count_if (covers_prod p) (ps[i := pc]) =
      (if rr_pub s' \<le> p \<and> p < length (rr_log s') then 1 else 0)"
    "count_if (covers_cons p) (ps[i := pc]) =
      (if length (rr_out s') \<le> p \<and> p < rr_taken s' then 1 else 0)"
    by (simp_all only: in_range_def)
qed

lemma ring_inv_step:
  assumes "ring_inv (s, ps)" "i < length ps" "ring_setup (rr_ring s')" "shared_ok s'"
    "ht_single (r_prod (rr_ring s')) = ht_single (r_prod (rr_ring s))"
    "ht_single (r_cons (rr_ring s')) = ht_single (r_cons (rr_ring s))"
    "is_producer pc = is_producer (ps ! i)" "owners_ok s' (ps[i := pc])" "pc_ok s' pc"
    "\<And>j. j < length ps \<Longrightarrow> j \<noteq> i \<Longrightarrow> pc_ok s' (ps ! j)"
  shows "ring_inv (s', ps[i := pc])"
proof -
  have "count_if is_producer (ps[i := pc]) = count_if is_producer ps"
    "count_if (\<lambda>pc. \<not> is_producer pc) (ps[i := pc]) = count_if (\<lambda>pc. \<not> is_producer pc) ps"
    using length_filter_update [OF assms(2), of is_producer pc] assms(7)
      length_filter_update [OF assms(2), of "\<lambda>pc. \<not> is_producer pc" pc] by (auto split: if_splits)
  then have "modes_ok s' (ps[i := pc])"
    using assms(1,5,6) by (simp add: ring_inv_def modes_ok_def)
  moreover have "pc_ok s' q" if "q \<in> set (ps[i := pc])" for q
    using that assms(2,9,10) by (auto simp: in_set_conv_nth nth_list_update split: if_splits)
  ultimately show ?thesis using assms by (simp add: ring_inv_def)
qed

text \<open>A step of the program counter alone.\<close>

lemma ring_inv_local:
  assumes "ring_inv (s, ps)" "i < length ps" "is_producer pc = is_producer (ps ! i)" "pc_ok s pc"
    "\<And>p. covers_prod p pc = covers_prod p (ps ! i)" "\<And>p. covers_cons p pc = covers_cons p (ps ! i)"
  shows "ring_inv (s, ps[i := pc])"
  using ring_invD [OF assms(1)] assms by (intro ring_inv_step) (auto intro: owners_update)

text \<open>A thread covers reserved positions only, and no two threads cover the same.\<close>

lemma owned:
  assumes "ring_inv (s, ps)" "j < length ps"
  shows "covers_prod p (ps ! j) \<Longrightarrow> rr_pub s \<le> p \<and> p < length (rr_log s)"
    "covers_cons p (ps ! j) \<Longrightarrow> length (rr_out s) \<le> p \<and> p < rr_taken s"
  using length_filter_pos [OF assms(2), of "covers_prod p"] length_filter_pos [OF assms(2), of "covers_cons p"]
    ring_invD(3) [OF assms(1)] by (auto simp: owners_ok_def split: if_splits)

lemma owner_unique:
  assumes "ring_inv (s, ps)" "i < length ps" "j < length ps" "i \<noteq> j" "covers_prod p (ps ! i)"
  shows "\<not> covers_prod p (ps ! j)"
proof
  assume "covers_prod p (ps ! j)"
  from length_filter_two [OF assms(2-5) this] show False
    using ring_invD(3) [OF assms(1)] by (simp add: owners_ok_def split: if_splits)
qed

lemma single_side:
  assumes "ring_inv (s, ps)" "i < length ps" "j < length ps" "i \<noteq> j"
  shows "is_producer (ps ! i) \<Longrightarrow> ht_single (r_prod (rr_ring s)) = 0 \<or> \<not> is_producer (ps ! j)"
    "\<not> is_producer (ps ! i) \<Longrightarrow> ht_single (r_cons (rr_ring s)) = 0 \<or> is_producer (ps ! j)"
  using length_filter_two [OF assms(2-4), of is_producer]
    length_filter_two [OF assms(2-4), of "\<lambda>pc. \<not> is_producer pc"] ring_invD(4) [OF assms(1)]
  by (auto simp: modes_ok_def)

text \<open>Whoever may publish reserved first.\<close>

lemma publisher_first:
  assumes inv: "ring_inv (s, ps)" and i: "i < length ps" "ps ! i = P_copy objs old g k"
    and turn: "ht_single (r_prod (rr_ring s)) \<noteq> 0 \<or> ht_tail (r_prod (rr_ring s)) = old"
  shows "g = rr_pub s"
proof -
  note D = ring_invD [OF inv]
  have ok: "old = of_nat g" "objs \<noteq> []" using D(5) [OF i(1)] i(2) by auto
  then have "covers_prod g (ps ! i)" using i(2) by simp
  from owned(1) [OF inv i(1) this] have g: "rr_pub s \<le> g" "g < length (rr_log s)" by auto
  show ?thesis
  proof (cases "ht_single (r_prod (rr_ring s)) = 0")
    case True
    then have "of_nat (rr_pub s) = (of_nat g :: u32)" using turn ok D(2) by (simp add: shared_ok_def)
    moreover have "g < rr_pub s + 2 ^ 32" using g shared_order [OF D(2)] D(9) by linarith
    ultimately show ?thesis using of_nat_eq_near [of "rr_pub s" g] g by simp
  next
    case False
    have "count_if (covers_prod (rr_pub s)) ps = 1" using D(3) g by (simp add: owners_ok_def)
    then obtain j where j: "j < length ps" "covers_prod (rr_pub s) (ps ! j)"
      by (metis filter_empty_conv in_set_conv_nth list.size(3) zero_neq_one)
    moreover have "is_producer (ps ! j)" using j(2) by (cases "ps ! j") auto
    ultimately have "j = i" using single_side(1) [OF inv j(1) i(1)] False i(2) by auto
    then show ?thesis using j(2) i(2) g by simp
  qed
qed

lemma giver_first:
  assumes inv: "ring_inv (s, ps)" and i: "i < length ps" "ps ! i = C_copy m old g got"
    and turn: "ht_single (r_cons (rr_ring s)) \<noteq> 0 \<or> ht_tail (r_cons (rr_ring s)) = old"
  shows "g = length (rr_out s)"
proof -
  note D = ring_invD [OF inv]
  have ok: "old = of_nat g" "0 < m" using D(5) [OF i(1)] i(2) by auto
  then have "covers_cons g (ps ! i)" using i(2) by simp
  from owned(2) [OF inv i(1) this] have g: "length (rr_out s) \<le> g" "g < rr_taken s" by auto
  show ?thesis
  proof (cases "ht_single (r_cons (rr_ring s)) = 0")
    case True
    then have "of_nat (length (rr_out s)) = (of_nat g :: u32)" using turn ok D(2) by (simp add: shared_ok_def)
    moreover have "g < length (rr_out s) + 2 ^ 32" using g shared_order [OF D(2)] D(9) by linarith
    ultimately show ?thesis using of_nat_eq_near [of "length (rr_out s)" g] g by simp
  next
    case False
    have "count_if (covers_cons (length (rr_out s))) ps = 1" using D(3) g by (simp add: owners_ok_def)
    then obtain j where j: "j < length ps" "covers_cons (length (rr_out s)) (ps ! j)"
      by (metis filter_empty_conv in_set_conv_nth list.size(3) zero_neq_one)
    moreover have "\<not> is_producer (ps ! j)" using j(2) by (cases "ps ! j") auto
    ultimately have "j = i" using single_side(2) [OF inv j(1) i(1)] False i(2) by auto
    then show ?thesis using j(2) i(2) g by simp
  qed
qed

lemma unat_free_room:
  assumes "shared_ok s" "ring_cap s < 2 ^ 32"
  shows "unat (r_capacity (rr_ring s) + ht_tail (r_cons (rr_ring s)) - of_nat (length (rr_log s))) =
    length (rr_out s) + ring_cap s - length (rr_log s)"
proof -
  have "r_capacity (rr_ring s) + ht_tail (r_cons (rr_ring s)) - of_nat (length (rr_log s)) =
      (of_nat (length (rr_out s) + ring_cap s - length (rr_log s)) :: u32)"
    using assms(1) shared_order(4) [OF assms(1)] by (simp add: shared_ok_def of_nat_diff)
  moreover have "length (rr_out s) + ring_cap s - length (rr_log s) < 2 ^ LENGTH(32)"
    using assms(2) shared_order [OF assms(1)] by simp
  ultimately show ?thesis by (simp only: unat_of_nat_small)
qed

lemma unat_entries:
  assumes "shared_ok s" "ring_cap s < 2 ^ 32"
  shows "unat (ht_tail (r_prod (rr_ring s)) - of_nat (rr_taken s)) = rr_pub s - rr_taken s"
proof -
  have "ht_tail (r_prod (rr_ring s)) - of_nat (rr_taken s) = (of_nat (rr_pub s - rr_taken s) :: u32)"
    using assms(1) shared_order(2) [OF assms(1)] by (simp add: shared_ok_def of_nat_diff)
  moreover have "rr_pub s - rr_taken s < 2 ^ LENGTH(32)"
    using assms(2) shared_order [OF assms(1)] by simp
  ultimately show ?thesis by (simp only: unat_of_nat_small)
qed

lemma ring_setup_setters [simp]:
  "ring_setup (set_prod_head h r) = ring_setup r" "ring_setup (set_prod_tail h r) = ring_setup r"
  "ring_setup (set_cons_head h r) = ring_setup r" "ring_setup (set_cons_tail h r) = ring_setup r"
  by (simp_all add: ring_setters ring_setup_def)

text \<open>Moving a head: the thread knows where the head stands.\<close>

lemma prod_moved_inv:
  assumes inv: "ring_inv (s, ps)" and i: "i < length ps" "ps ! i = P_move objs beh n old (length (rr_log s))"
  shows "ring_inv (prod_moved (take n objs) old s, ps[i := P_copy (take n objs) old (length (rr_log s)) 0])"
proof (rule ring_inv_step [OF inv i(1)])
  note D = ring_invD [OF inv]
  have ok: "old = of_nat (length (rr_log s))" "0 < n" "n \<le> length objs"
    "length (rr_log s) + n \<le> length (rr_out s) + ring_cap s" using D(5) [OF i(1)] i(2) by auto
  show "ring_setup (rr_ring (prod_moved (take n objs) old s))" using D(1) by (simp add: prod_moved_def)
  show "shared_ok (prod_moved (take n objs) old s)"
    unfolding ok(1) using ok D(2) by (intro shared_prod_moved) simp_all
  show "owners_ok (prod_moved (take n objs) old s) (ps[i := P_copy (take n objs) old (length (rr_log s)) 0])"
    using D(3) i(1) by (rule owners_update)
      (use ok(2,3) shared_order [OF D(2)] in \<open>auto simp: i(2) prod_moved_def in_range_def\<close>)
  show "pc_ok (prod_moved (take n objs) old s) (P_copy (take n objs) old (length (rr_log s)) 0)"
    using ok by (auto simp: prod_moved_def)
  show "pc_ok (prod_moved (take n objs) old s) (ps ! j)" if "j < length ps" "j \<noteq> i" for j
    using D(2,5) ok i(2) single_side(1) [OF inv i(1) that(1) that(2) [symmetric]] that
    by (intro pc_ok_prod_moved) auto
qed (use i in \<open>auto simp: prod_moved_def set_prod_head_def\<close>)

lemma cons_moved_inv:
  assumes inv: "ring_inv (s, ps)" and i: "i < length ps" "ps ! i = C_move n beh m old (rr_taken s)"
  shows "ring_inv (cons_moved m old s, ps[i := C_copy m old (rr_taken s) []])"
proof (rule ring_inv_step [OF inv i(1)])
  note D = ring_invD [OF inv]
  have ok: "old = of_nat (rr_taken s)" "0 < m" "rr_taken s + m \<le> rr_pub s" using D(5) [OF i(1)] i(2) by auto
  show "ring_setup (rr_ring (cons_moved m old s))" using D(1) by (simp add: cons_moved_def)
  show "shared_ok (cons_moved m old s)" unfolding ok(1) using ok D(2) by (intro shared_cons_moved) simp_all
  show "owners_ok (cons_moved m old s) (ps[i := C_copy m old (rr_taken s) []])"
    using D(3) i(1) by (rule owners_update)
      (use shared_order [OF D(2)] in \<open>auto simp: i(2) cons_moved_def in_range_def\<close>)
  show "pc_ok (cons_moved m old s) (C_copy m old (rr_taken s) [])"
    using ok by (auto simp: cons_moved_def)
  show "pc_ok (cons_moved m old s) (ps ! j)" if "j < length ps" "j \<noteq> i" for j
    using D(5) ok i(2) single_side(2) [OF inv i(1) that(1) that(2) [symmetric]] that
    by (intro pc_ok_cons_moved) auto
qed (use i in \<open>auto simp: cons_moved_def set_cons_head_def\<close>)

text \<open>Copying a cell in, and out.\<close>

lemma prod_cell_inv:
  assumes inv: "ring_inv (s, ps)" and i: "i < length ps" "ps ! i = P_copy objs old g k" "k < length objs"
    and w: "wr (r_table (rr_ring s)) (ring_cell (rr_ring s) old k) (objs ! k) = Some t"
  shows "ring_inv (s\<lparr>rr_ring := (rr_ring s)\<lparr>r_table := t\<rparr>\<rparr>, ps[i := P_copy objs old g (Suc k)])"
proof -
  note D = ring_invD [OF inv]
  have ok: "old = of_nat g" "g + length objs \<le> length (rr_log s)" "take (length objs) (drop g (rr_log s)) = objs"
    "\<forall>j<k. r_table (rr_ring s) ! ((g + j) mod ring_n s) = objs ! j"
    using D(5) [OF i(1)] i(2) by auto
  have cov: "covers_prod (g + k) (ps ! i)" using i by simp
  have p: "rr_pub s \<le> g + k" "g + k < length (rr_log s)" using owned(1) [OF inv i(1) cov] by auto
  have "covers_prod g (ps ! i)" using i by (cases objs) auto
  then have g: "rr_pub s \<le> g" using owned(1) [OF inv i(1)] by blast
  have "k < ring_n s" using p g shared_order [OF D(2)] D(6) by linarith
  then have t: "t = (r_table (rr_ring s))[(g + k) mod ring_n s := objs ! k]"
    and len: "(g + k) mod ring_n s < length (r_table (rr_ring s))"
    using w ok(1) D(1) by (auto simp: wr_eq_Some_iff unat_ring_cell)
  let ?s = "s\<lparr>rr_ring := (rr_ring s)\<lparr>r_table := t\<rparr>\<rparr>"
  show ?thesis
  proof (rule ring_inv_step [OF inv i(1)])
    show "ring_setup (rr_ring ?s)" using D(1) by (simp add: ring_setup_def t)
    show "shared_ok ?s" unfolding t using D p by (intro shared_cell) auto
    show "owners_ok ?s (ps[i := P_copy objs old g (Suc k)])"
      using D(3) i(1) by (rule owners_update) (simp_all add: i(2))
    have "t ! ((g + j) mod ring_n s) = objs ! j" if "j < Suc k" for j
    proof (cases "j = k")
      case False
      then have "j < k" using that by simp
      then have "t ! ((g + j) mod ring_n s) = r_table (rr_ring s) ! ((g + j) mod ring_n s)"
        unfolding t using p g shared_order [OF D(2)] D(6) len
        by (intro cell_frame [of "length (rr_out s)"]) linarith+
      then show ?thesis using ok(4) \<open>j < k\<close> by simp
    qed (use len in \<open>simp add: t\<close>)
    then show "pc_ok ?s (P_copy objs old g (Suc k))"
      using ok i D(5) [OF i(1)] by auto
    show "pc_ok ?s (ps ! j)" if "j < length ps" "j \<noteq> i" for j
      unfolding t using D that p owner_unique [OF inv i(1) that(1) that(2) [symmetric] cov] owned(1) [OF inv that(1)]
      by (intro pc_ok_cell) auto
  qed (use i in auto)
qed

lemma cons_cell_inv:
  assumes inv: "ring_inv (s, ps)" and i: "i < length ps" "ps ! i = C_copy m old g got" "length got < m"
    and r: "rd (r_table (rr_ring s)) (ring_cell (rr_ring s) old (length got)) = Some x"
  shows "ring_inv (s, ps[i := C_copy m old g (got @ [x])])"
proof (rule ring_inv_local [OF inv i(1)])
  note D = ring_invD [OF inv]
  have ok: "old = of_nat g" "g + m \<le> rr_taken s" "got = take (length got) (drop g (rr_log s))"
    using D(5) [OF i(1)] i(2) by auto
  have "covers_cons g (ps ! i)" using i by simp
  then have g: "length (rr_out s) \<le> g" using owned(2) [OF inv i(1)] by blast
  have k: "length got < ring_n s" "g + length got < rr_pub s" using ok(2) i(3) g shared_order [OF D(2)] D(6) by linarith+
  then have "x = r_table (rr_ring s) ! ((g + length got) mod ring_n s)"
    using r ok(1) D(1) by (auto simp: rd_eq_Some_iff unat_ring_cell)
  also have "\<dots> = rr_log s ! (g + length got)" using D(2) g k(2) by (simp add: shared_ok_def)
  finally have "x = drop g (rr_log s) ! length got" using k(2) shared_order [OF D(2)] by simp
  then have "take (Suc (length got)) (drop g (rr_log s)) = got @ [x]"
    using ok(3) k(2) shared_order [OF D(2)] by (subst take_Suc_conv_app_nth) auto
  then show "pc_ok s (C_copy m old g (got @ [x]))" using ok i(3) D(5) [OF i(1)] i(2) by auto
qed (use i in auto)

text \<open>Publishing, and giving cells back.\<close>

lemma prod_publish_inv:
  assumes inv: "ring_inv (s, ps)" and i: "i < length ps" "ps ! i = P_copy objs old g (length objs)"
    and turn: "ht_single (r_prod (rr_ring s)) \<noteq> 0 \<or> ht_tail (r_prod (rr_ring s)) = old"
  shows "ring_inv (s\<lparr>rr_ring := set_prod_tail (old + of_nat (length objs)) (rr_ring s),
    rr_pub := rr_pub s + length objs\<rparr>, ps[i := P_out])" (is "ring_inv (?s, _)")
proof (rule ring_inv_step [OF inv i(1)])
  note D = ring_invD [OF inv]
  have g: "g = rr_pub s" using publisher_first [OF inv i turn] .
  have ok: "pc_ok s (P_copy objs old (rr_pub s) (length objs))" using D(5) [OF i(1)] i(2) g by simp
  show "ring_setup (rr_ring ?s)" using D(1) by simp
  show "shared_ok ?s" using shared_published [OF D(2) ok] .
  show "owners_ok ?s (ps[i := P_out])"
    using D(3) i(1) by (rule owners_update) (use ok in \<open>auto simp: i(2) g in_range_def\<close>)
  show "pc_ok ?s (ps ! j)" if "j < length ps" "j \<noteq> i" for j
    using D(5) that by (intro pc_ok_published) auto
qed (use i in \<open>auto simp: set_prod_tail_def\<close>)

lemma cons_publish_inv:
  assumes inv: "ring_inv (s, ps)" and i: "i < length ps" "ps ! i = C_copy m old g got" "length got = m"
    and turn: "ht_single (r_cons (rr_ring s)) \<noteq> 0 \<or> ht_tail (r_cons (rr_ring s)) = old"
  shows "ring_inv (s\<lparr>rr_ring := set_cons_tail (old + of_nat m) (rr_ring s), rr_out := rr_out s @ got\<rparr>,
    ps[i := C_out])" (is "ring_inv (?s, _)")
proof (rule ring_inv_step [OF inv i(1)])
  note D = ring_invD [OF inv]
  have g: "g = length (rr_out s)" using giver_first [OF inv i(1,2) turn] .
  have ok: "pc_ok s (C_copy (length got) old (length (rr_out s)) got)" using D(5) [OF i(1)] i g by simp
  show "ring_setup (rr_ring ?s)" using D(1) by simp
  show "shared_ok ?s" using shared_given_back [OF D(2) ok] i(3) by simp
  show "owners_ok ?s (ps[i := C_out])"
    using D(3) i(1) by (rule owners_update) (use ok i(3) in \<open>auto simp: i(2) g in_range_def\<close>)
  show "pc_ok ?s (ps ! j)" if "j < length ps" "j \<noteq> i" for j
    using D(5) that by (intro pc_ok_given_back) auto
qed (use i in \<open>auto simp: set_cons_tail_def\<close>)

text \<open>The counts a thread clips are right when its head is still where it loaded it.\<close>

lemma prod_room_inv:
  assumes inv: "ring_inv (s, ps)" and i: "i < length ps" "ps ! i = P_room objs beh old g"
    and n: "n = clip_count (of_nat (length objs)) beh (r_capacity (rr_ring s) + ht_tail (r_cons (rr_ring s)) - old)"
  shows "ring_inv (s, ps[i := if n = 0 then P_out else P_move objs beh (unat n) old g])"
proof (rule ring_inv_local [OF inv i(1)])
  note D = ring_invD [OF inv]
  have ok: "length objs < 2 ^ 32" "old = of_nat g" "g \<le> length (rr_log s)"
    "ht_single (r_prod (rr_ring s)) \<noteq> 0 \<longrightarrow> g = length (rr_log s)" using D(5) [OF i(1)] i(2) by auto
  have "unat n \<le> unat (of_nat (length objs) :: u32)" unfolding n unat_clip_count by (rule clip_nat_le)
  then have le: "unat n \<le> length objs" using ok(1) by (simp add: unat_of_nat_small)
  have "g + unat n \<le> length (rr_out s) + ring_cap s" if "g = length (rr_log s)"
  proof -
    have "unat n \<le> length (rr_out s) + ring_cap s - length (rr_log s)"
      unfolding n unat_clip_count ok(2) that unat_free_room [OF D(2,9)] by (rule clip_nat_le)
    then show ?thesis using that shared_order [OF D(2)] by linarith
  qed
  then show "pc_ok s (if n = 0 then P_out else P_move objs beh (unat n) old g)"
    using ok le by (auto simp: unat_gt_0)
qed (use i in auto)

lemma cons_room_inv:
  assumes inv: "ring_inv (s, ps)" and i: "i < length ps" "ps ! i = C_room n beh old g"
    and m: "m = clip_count n beh (ht_tail (r_prod (rr_ring s)) - old)"
  shows "ring_inv (s, ps[i := if m = 0 then C_out else C_move n beh (unat m) old g])"
proof (rule ring_inv_local [OF inv i(1)])
  note D = ring_invD [OF inv]
  have ok: "old = of_nat g" "g \<le> rr_taken s"
    "ht_single (r_cons (rr_ring s)) \<noteq> 0 \<longrightarrow> g = rr_taken s" using D(5) [OF i(1)] i(2) by auto
  have "g + unat m \<le> rr_pub s" if "g = rr_taken s"
  proof -
    have "unat m \<le> rr_pub s - rr_taken s"
      unfolding m unat_clip_count ok(1) that unat_entries [OF D(2,9)] by (rule clip_nat_le)
    then show ?thesis using that shared_order [OF D(2)] by linarith
  qed
  then show "pc_ok s (if m = 0 then C_out else C_move n beh (unat m) old g)"
    using ok by (auto simp: unat_gt_0)
qed (use i in auto)

lemma prod_act_inv:
  assumes inv: "ring_inv (s, ps)" and i: "i < length ps" and act: "prod_act s (ps ! i) s' pc"
  shows "ring_inv (s', ps[i := pc])"
  using act
proof (cases rule: prod_act.cases)
  case (p_swap old g objs beh n)
  note D = ring_invD [OF inv]
  have "old = of_nat g" "g \<le> length (rr_log s)" using D(5) [OF i] p_swap by auto
  then have "g = length (rr_log s)"
    using p_swap D(2) by (intro of_nat_eq_near) (auto simp: shared_ok_def)
  then show ?thesis using prod_moved_inv [OF inv i] p_swap by simp
next
  case (p_store objs beh n old g)
  then have "g = length (rr_log s)" using ring_invD(5) [OF inv i] by simp
  then show ?thesis using prod_moved_inv [OF inv i] p_store by simp
next
  case (p_room free old n objs beh g)
  then show ?thesis using prod_room_inv [OF inv i] by simp
next
  case (p_cell k objs old t g)
  then show ?thesis using prod_cell_inv [OF inv i] by simp
next
  case (p_publish old objs g)
  then show ?thesis using prod_publish_inv [OF inv i] by simp
qed (use ring_invD(5) [OF inv i] ring_invD(2) [OF inv] i in
    \<open>auto intro!: ring_inv_local [OF inv i] simp: shared_ok_def\<close>)

lemma cons_act_inv:
  assumes inv: "ring_inv (s, ps)" and i: "i < length ps" and act: "cons_act s (ps ! i) s' pc"
  shows "ring_inv (s', ps[i := pc])"
  using act
proof (cases rule: cons_act.cases)
  case (c_swap old g n beh m)
  note D = ring_invD [OF inv]
  have "old = of_nat g" "g \<le> rr_taken s" using D(5) [OF i] c_swap by auto
  then have "g = rr_taken s"
    using c_swap D(2) by (intro of_nat_eq_near) (auto simp: shared_ok_def)
  then show ?thesis using cons_moved_inv [OF inv i] c_swap by simp
next
  case (c_store n beh m old g)
  then have "g = rr_taken s" using ring_invD(5) [OF inv i] by simp
  then show ?thesis using cons_moved_inv [OF inv i] c_store by simp
next
  case (c_room entries old m n beh g)
  then show ?thesis using cons_room_inv [OF inv i] by simp
next
  case (c_cell got m old x g)
  then show ?thesis using cons_cell_inv [OF inv i] by simp
next
  case (c_publish got m old g)
  then show ?thesis using cons_publish_inv [OF inv i] by simp
qed (use ring_invD(5) [OF inv i] ring_invD(2) [OF inv] i in
    \<open>auto intro!: ring_inv_local [OF inv i] simp: shared_ok_def\<close>)

interpretation ring: kept ring_act ring_inv
  by unfold_locales (auto simp: ring_act_def intro: prod_act_inv cons_act_inv)

subsection \<open>A ring that was just created\<close>

definition ring_start :: "'a rte_ring \<Rightarrow> 'a ring_run" where
  "ring_start r = \<lparr>rr_ring = r, rr_log = [], rr_out = [], rr_pub = 0, rr_taken = 0\<rparr>"

definition outside :: "'a ring_pc \<Rightarrow> bool" where
  "outside pc \<longleftrightarrow> pc = P_out \<or> pc = C_out"

definition threads_fit :: "u32 \<Rightarrow> 'a ring_pc list \<Rightarrow> bool" where
  "threads_fit flags ps \<longleftrightarrow> (\<forall>pc\<in>set ps. outside pc) \<and>
     (flags AND RING_F_SP_ENQ \<noteq> 0 \<longrightarrow> count_if is_producer ps \<le> 1) \<and>
     (flags AND RING_F_SC_DEQ \<noteq> 0 \<longrightarrow> count_if (\<lambda>pc. \<not> is_producer pc) ps \<le> 1)"

lemma outside_covers [simp]:
  "outside pc \<Longrightarrow> \<not> covers_prod p pc" "outside pc \<Longrightarrow> \<not> covers_cons p pc" "outside pc \<Longrightarrow> pc_ok s pc"
  by (auto simp: outside_def)

lemma ring_wf_setup: "ring_wf r \<Longrightarrow> ring_setup r"
  by (auto simp: ring_wf_def ring_setup_def)

lemma ring_start_inv:
  assumes "rte_ring_create malloc count flags = Some r" "malloc_gives_room malloc" "count \<noteq> 0" "threads_fit flags ps"
  shows "ring_inv (ring_start r, ps)" "r_capacity r = count - 1"
proof -
  obtain b where b: "malloc (rte_ring_get_memsize count) = Some b" and r: "r = rte_ring_init b count flags"
    and "\<not> sint (rte_ring_get_memsize count) \<le> 0"
    using assms(1) by (auto simp: rte_ring_create_def Let_def split: if_splits option.splits)
  then obtain k where "k \<le> 30" "count = 2 ^ k" using assms(3) sint_zero_or_pos by blast
  then have wf: "ring_wf r" using create_wf(2) b assms(2) r by blast
  show "r_capacity r = count - 1" by (simp add: r rte_ring_init_def)
  have out: "\<forall>pc\<in>set ps. outside pc" using assms(4) by (simp add: threads_fit_def)
  then have "filter (covers_prod p) ps = []" "filter (covers_cons p) ps = []" for p
    by (auto simp: filter_empty_conv)
  then show "ring_inv (ring_start r, ps)"
    using out assms(4) ring_wf_setup [OF wf]
    by (auto simp: ring_inv_def ring_start_def shared_ok_def owners_ok_def modes_ok_def threads_fit_def
        r rte_ring_init_def IS_SP_def IS_MP_def IS_SC_def IS_MC_def split: if_splits)
qed

text \<open>What \<open>rte_ring_create\<close> set up never changes.\<close>

lemma ring_act_capacity: "ring_act s p s' p' \<Longrightarrow> r_capacity (rr_ring s') = r_capacity (rr_ring s)"
  by (auto simp: ring_act_def ring_setters prod_moved_def cons_moved_def elim!: prod_actE cons_actE)

lemma reach_capacity:
  assumes "(interleave ring_act)\<^sup>*\<^sup>* (s, ps) (s', ps')"
  shows "r_capacity (rr_ring s') = r_capacity (rr_ring s)"
  using assms by (induction rule: rtranclp_induct2) (auto elim!: interleaveE dest: ring_act_capacity)

subsection \<open>The ring when everybody is outside\<close>

lemma quiet_indexes:
  assumes inv: "ring_inv (s, ps)" and out: "\<forall>pc\<in>set ps. outside pc"
  shows "rr_pub s = length (rr_log s)" "rr_taken s = length (rr_out s)"
proof -
  have none: "filter (covers_prod p) ps = []" "filter (covers_cons p) ps = []" for p
    using out by (auto simp: filter_empty_conv)
  have "\<not> rr_pub s < length (rr_log s)" "\<not> length (rr_out s) < rr_taken s"
    using ring_invD(3) [OF inv] none by (auto simp: owners_ok_def split: if_splits)
  then show "rr_pub s = length (rr_log s)" "rr_taken s = length (rr_out s)"
    using shared_order [OF ring_invD(2) [OF inv]] by simp_all
qed

lemma quiet_content:
  assumes inv: "ring_inv (s, ps)" and out: "\<forall>pc\<in>set ps. outside pc"
  shows "ring_wf (rr_ring s) \<and> ring_content (rr_ring s) = drop (length (rr_out s)) (rr_log s)"
proof
  note D = ring_invD [OF inv] and Q = quiet_indexes [OF inv out]
  have "rr_pub s - rr_taken s = unat (ht_tail (r_prod (rr_ring s)) - of_nat (rr_taken s))"
    using unat_entries [OF D(2,9)] by simp
  then have len: "ring_len (rr_ring s) = length (rr_log s) - length (rr_out s)"
    using D(2) Q by (simp add: ring_len_def shared_ok_def)
  show wf: "ring_wf (rr_ring s)"
    using D(1,2) Q len by (auto simp: ring_wf_def ring_setup_def shared_ok_def)
  from D(1) obtain k where k: "k \<le> 30" "ring_n s = 2 ^ k" by (rule ring_setup_size)
  have pos: "(unat (ht_tail (r_cons (rr_ring s))) + j) mod ring_n s = (length (rr_out s) + j) mod ring_n s" for j
  proof -
    have "unat (of_nat (length (rr_out s)) :: u32) mod 2 ^ k = length (rr_out s) mod 2 ^ k"
      using unat_mod_pow2_of_nat [of k "0 :: u32" "length (rr_out s)"] k by simp
    then show ?thesis using k D(2) by (simp only: shared_ok_def) (metis mod_add_left_eq)
  qed
  show "ring_content (rr_ring s) = drop (length (rr_out s)) (rr_log s)"
  proof (rule nth_equalityI)
    fix j assume "j < length (ring_content (rr_ring s))"
    then have j: "j < length (rr_log s) - length (rr_out s)" by (simp add: len)
    then show "ring_content (rr_ring s) ! j = drop (length (rr_out s)) (rr_log s) ! j"
      using D(2) Q by (simp add: ring_content_def len pos) (auto simp: shared_ok_def)
  qed (simp add: len)
qed

subsection \<open>Running a schedule\<close>

text \<open>The next access of a thread inside a call is determined; a schedule names who goes next.\<close>

fun ring_next :: "'a ring_run \<Rightarrow> 'a ring_pc \<Rightarrow> ('a ring_run \<times> 'a ring_pc) option" where
  "ring_next s P_out = None"
| "ring_next s (P_load objs beh) =
     Some (s, P_room objs beh (ht_head (r_prod (rr_ring s))) (length (rr_log s)))"
| "ring_next s (P_room objs beh old g) =
     (let n = clip_count (of_nat (length objs)) beh (r_capacity (rr_ring s) + ht_tail (r_cons (rr_ring s)) - old)
      in Some (s, if n = 0 then P_out else P_move objs beh (unat n) old g))"
| "ring_next s (P_move objs beh n old g) =
     (if ht_single (r_prod (rr_ring s)) \<noteq> 0 \<or>
         ht_head (r_prod (rr_ring s)) = old \<and> length (rr_log s) < g + 2 ^ 32
      then Some (prod_moved (take n objs) old s, P_copy (take n objs) old g 0)
      else if ht_head (r_prod (rr_ring s)) = old then None
      else Some (s, P_load objs beh))"
| "ring_next s (P_copy objs old g i) =
     (if i < length objs
      then map_option (\<lambda>t. (s\<lparr>rr_ring := (rr_ring s)\<lparr>r_table := t\<rparr>\<rparr>, P_copy objs old g (Suc i)))
             (wr (r_table (rr_ring s)) (ring_cell (rr_ring s) old i) (objs ! i))
      else if length objs < i then None
      else if ht_single (r_prod (rr_ring s)) \<noteq> 0 \<or> ht_tail (r_prod (rr_ring s)) = old
      then Some (s\<lparr>rr_ring := set_prod_tail (old + of_nat (length objs)) (rr_ring s),
                   rr_pub := rr_pub s + length objs\<rparr>, P_out)
      else Some (s, P_copy objs old g i))"
| "ring_next s C_out = None"
| "ring_next s (C_load n beh) = Some (s, C_room n beh (ht_head (r_cons (rr_ring s))) (rr_taken s))"
| "ring_next s (C_room n beh old g) =
     (let m = clip_count n beh (ht_tail (r_prod (rr_ring s)) - old)
      in Some (s, if m = 0 then C_out else C_move n beh (unat m) old g))"
| "ring_next s (C_move n beh m old g) =
     (if ht_single (r_cons (rr_ring s)) \<noteq> 0 \<or> ht_head (r_cons (rr_ring s)) = old \<and> rr_taken s < g + 2 ^ 32
      then Some (cons_moved m old s, C_copy m old g [])
      else if ht_head (r_cons (rr_ring s)) = old then None
      else Some (s, C_load n beh))"
| "ring_next s (C_copy m old g got) =
     (if length got < m
      then map_option (\<lambda>x. (s, C_copy m old g (got @ [x])))
             (rd (r_table (rr_ring s)) (ring_cell (rr_ring s) old (length got)))
      else if m < length got then None
      else if ht_single (r_cons (rr_ring s)) \<noteq> 0 \<or> ht_tail (r_cons (rr_ring s)) = old
      then Some (s\<lparr>rr_ring := set_cons_tail (old + of_nat m) (rr_ring s), rr_out := rr_out s @ got\<rparr>, C_out)
      else Some (s, C_copy m old g got))"

inductive_simps prod_act_simps:
  "prod_act s (P_out) s' p'"
  "prod_act s (P_load objs beh) s' p'"
  "prod_act s (P_room objs beh old g) s' p'"
  "prod_act s (P_move objs beh n old g) s' p'"
  "prod_act s (P_copy objs old g i) s' p'"
  "prod_act s (C_out) s' p'"
  "prod_act s (C_load k beh) s' p'"
  "prod_act s (C_room k beh old g) s' p'"
  "prod_act s (C_move k beh n old g) s' p'"
  "prod_act s (C_copy n old g got) s' p'"

inductive_simps cons_act_simps:
  "cons_act s (P_out) s' p'"
  "cons_act s (P_load objs beh) s' p'"
  "cons_act s (P_room objs beh old g) s' p'"
  "cons_act s (P_move objs beh n old g) s' p'"
  "cons_act s (P_copy objs old g i) s' p'"
  "cons_act s (C_out) s' p'"
  "cons_act s (C_load k beh) s' p'"
  "cons_act s (C_room k beh old g) s' p'"
  "cons_act s (C_move k beh n old g) s' p'"
  "cons_act s (C_copy n old g got) s' p'"

lemma ring_next_act: "ring_next s p = Some (s', p') \<Longrightarrow> ring_act s p s' p'"
  by (cases p) (auto simp: ring_act_def prod_act_simps cons_act_simps Let_def not_less split: if_splits)

fun run_schedule :: "nat list \<Rightarrow> 'a ring_run \<times> 'a ring_pc list \<Rightarrow> ('a ring_run \<times> 'a ring_pc list) option" where
  "run_schedule [] sp = Some sp"
| "run_schedule (i # is) (s, ps) =
     (if i < length ps then Option.bind (ring_next s (ps ! i)) (\<lambda>(s', p). run_schedule is (s', ps[i := p]))
      else None)"

lemma run_schedule_reach:
  "run_schedule is (s, ps) = Some sp \<Longrightarrow> (interleave ring_act)\<^sup>*\<^sup>* (s, ps) sp"
proof (induction "is" arbitrary: s ps)
  case (Cons i "is")
  then obtain s' p where "i < length ps" "ring_next s (ps ! i) = Some (s', p)"
    "run_schedule is (s', ps[i := p]) = Some sp"
    by (auto split: if_splits bind_splits)
  then show ?case
    using Cons.IH ring_next_act interleave.step [of i ps ring_act s s' p]
    by (meson converse_rtranclp_into_rtranclp)
qed simp

subsection \<open>Properties\<close>


text \<open>Two producers race for the head of a ring of four, the loser copies first and waits, a consumer
  takes two of the three objects.\<close>

definition race_ring :: "nat rte_ring" where
  "race_ring = rte_ring_init (sample_ring\<lparr>r_table := replicate 8 0\<rparr>) 4 0"

lemma race_ring_created: "rte_ring_create sample_malloc 4 0 = Some race_ring"
proof -
  have "rte_ring_get_memsize 4 = 448" by code_simp
  then show ?thesis by (simp add: rte_ring_create_def race_ring_def sample_malloc_def)
qed


abbreviation race_calls :: "nat ring_pc list" where
  "race_calls \<equiv> [P_load [1, 2] RTE_RING_QUEUE_FIXED, P_load [3] RTE_RING_QUEUE_FIXED, C_load 2 RTE_RING_QUEUE_VARIABLE]"

lemma race_run:
  "\<exists>s. run_schedule [0, 1, 0, 1, 0, 1, 1, 1, 1, 1, 1, 0, 0, 0, 1, 2, 2, 2, 2, 2, 2] (ring_start race_ring, race_calls) =
   Some (s, [P_out, P_out, C_out]) \<and> rr_log s = [1, 2, 3] \<and> rr_out s = [1, 2]"
  by (simp add: ring_start_def race_ring_def rte_ring_init_def sample_ring_def clip_count_def prod_moved_def
    cons_moved_def ring_setters ring_cell_def Let_def wr_def rd_def IS_MP_def IS_MC_def RING_F_SP_ENQ_def RING_F_SC_DEQ_def)

lemma race_reach:
  "\<exists>s. (interleave ring_act)\<^sup>*\<^sup>* (ring_start race_ring, [P_out, P_out, C_out]) (s, [P_out, P_out, C_out]) \<and>
     rr_log s = [1, 2, 3] \<and> rr_out s = [1, 2]"
proof -
  let ?s = "ring_start race_ring" and ?R = "interleave ring_act"
  have "?R (?s, [P_out, P_out, C_out]) (?s, [P_out, P_out, C_out][0 := race_calls ! 0])"
    by (rule interleave.step) (simp_all add: ring_act_def prod_act_simps)
  moreover have "?R (?s, [race_calls ! 0, P_out, C_out]) (?s, [race_calls ! 0, P_out, C_out][1 := race_calls ! 1])"
    by (rule interleave.step) (simp_all add: ring_act_def prod_act_simps)
  moreover have "?R (?s, [race_calls ! 0, race_calls ! 1, C_out])
      (?s, [race_calls ! 0, race_calls ! 1, C_out][2 := race_calls ! 2])"
    by (rule interleave.step) (simp_all add: ring_act_def cons_act_simps)
  ultimately have "?R\<^sup>*\<^sup>* (?s, [P_out, P_out, C_out]) (?s, race_calls)"
    by (auto intro: converse_rtranclp_into_rtranclp)
  then show ?thesis using race_run run_schedule_reach by (blast intro: rtranclp_trans)
qed


end
