(* ===== verification/Rte_Ring_Progress.thy ===== *)
theory Rte_Ring_Progress
  imports Rte_Ring_Concurrent
begin

text \<open>
  Calls on the shared ring come to their end: from every reachable state some call inside can be
  finished by its own thread alone, and a call that nobody disturbs does what the model of the whole
  function does.
\<close>

subsection \<open>Running one call to its end\<close>

abbreviation ring_solo :: "'a ring_run \<times> 'a ring_pc \<Rightarrow> 'a ring_run \<times> 'a ring_pc \<Rightarrow> bool" where
  "ring_solo \<equiv> (alone ring_act)\<^sup>*\<^sup>*"

lemma solo_step: "ring_act s p s' p' \<Longrightarrow> ring_solo (s', p') sp \<Longrightarrow> ring_solo (s, p) sp"
  by (rule converse_rtranclp_into_rtranclp) (simp_all add: alone_def)

lemma solo_last: "ring_act s p s' p' \<Longrightarrow> ring_solo (s, p) (s', p')"
  by (rule r_into_rtranclp) (simp add: alone_def)

lemma solo_inv:
  assumes "ring_solo (s, p) (s', p')" "ring_inv (s, ps)" "i < length ps" "ps ! i = p"
  shows "ring_inv (s', ps[i := p'])"
  using ring.reachable_inv [OF alone_interleave [OF assms(1,3,4)] assms(2)] .

lemma prod_copies:
  assumes "ring_inv (s, ps)" "i < length ps" "ps ! i = P_copy objs old g k"
  shows "\<exists>s'. ring_solo (s, ps ! i) (s', P_copy objs old g (length objs)) \<and> rr_pub s' = rr_pub s"
  using assms
proof (induction "length objs - k" arbitrary: s ps k)
  case 0
  then have "k = length objs" using ring_invD(5) [OF 0(2,3)] by simp
  then show ?case using 0 by auto
next
  case (Suc d)
  note D = ring_invD [OF Suc.prems(1)]
  have k: "k < length objs" using Suc.hyps(2) by simp
  have ok: "old = of_nat g" using D(5) [OF Suc.prems(2)] Suc.prems(3) by simp
  have "covers_prod (g + k) (ps ! i)" "covers_prod g (ps ! i)" using k Suc.prems(3) by auto
  then have "rr_pub s \<le> g" "g + k < length (rr_log s)" using owned(1) [OF Suc.prems(1,2)] by blast+
  then have "k < ring_n s" using shared_order [OF D(2)] D(6) by linarith
  then have "unat (ring_cell (rr_ring s) old k) < length (r_table (rr_ring s))"
    using D(1,7) ok by (simp add: unat_ring_cell) (meson le_less_trans less_le_trans mod_less_divisor not_less zero_le)
  then obtain t where "wr (r_table (rr_ring s)) (ring_cell (rr_ring s) old k) (objs ! k) = Some t"
    by (simp add: wr_def)
  then have act: "ring_act s (ps ! i) (s\<lparr>rr_ring := (rr_ring s)\<lparr>r_table := t\<rparr>\<rparr>) (P_copy objs old g (Suc k))"
    using k Suc.prems(3) by (simp add: ring_act_def p_cell)
  have "ring_inv (s\<lparr>rr_ring := (rr_ring s)\<lparr>r_table := t\<rparr>\<rparr>, ps[i := P_copy objs old g (Suc k)])"
    using ring.preserved [OF Suc.prems(1,2) act] .
  moreover have "d = length objs - Suc k" using Suc.hyps(2) by linarith
  moreover have "ps[i := P_copy objs old g (Suc k)] ! i = P_copy objs old g (Suc k)" using Suc.prems(2) by simp
    ultimately obtain s' where
    "ring_solo (s\<lparr>rr_ring := (rr_ring s)\<lparr>r_table := t\<rparr>\<rparr>, P_copy objs old g (Suc k))
      (s', P_copy objs old g (length objs))" "rr_pub s' = rr_pub s"
    using Suc.hyps(1) [of "Suc k" "s\<lparr>rr_ring := (rr_ring s)\<lparr>r_table := t\<rparr>\<rparr>" "ps[i := P_copy objs old g (Suc k)]"]
      Suc.prems(2) by auto
  then show ?case using solo_step [OF act] by blast
qed

lemma prod_publishes:
  assumes inv: "ring_inv (s, ps)" and i: "i < length ps" "ps ! i = P_copy objs old (rr_pub s) k"
  shows "\<exists>s'. ring_solo (s, ps ! i) (s', P_out)"
proof -
  obtain s' where s': "ring_solo (s, ps ! i) (s', P_copy objs old (rr_pub s) (length objs))"
    "rr_pub s' = rr_pub s" using prod_copies [OF inv i] by blast
  let ?ps = "ps[i := P_copy objs old (rr_pub s) (length objs)]"
  have inv': "ring_inv (s', ?ps)" using solo_inv [OF s'(1) inv i(1)] by simp
  have "ht_tail (r_prod (rr_ring s')) = old"
    using ring_invD(2) [OF inv'] ring_invD(5) [OF inv', of i] i s'(2) by (simp add: shared_ok_def)
  then have "ring_act s' (?ps ! i) (s'\<lparr>rr_ring := set_prod_tail (old + of_nat (length objs)) (rr_ring s'),
      rr_pub := rr_pub s' + length objs\<rparr>) P_out"
    using i(1) by (simp add: ring_act_def p_publish)
  from solo_last [OF this] show ?thesis using i(1) s'(1) by (auto intro: rtranclp_trans)
qed

lemma cons_copies:
  assumes "ring_inv (s, ps)" "i < length ps" "ps ! i = C_copy m old g got"
  shows "\<exists>got'. ring_solo (s, ps ! i) (s, C_copy m old g got') \<and> length got' = m"
  using assms
proof (induction "m - length got" arbitrary: ps got)
  case 0
  then have "length got = m" using ring_invD(5) [OF 0(2,3)] by simp
  then show ?case using 0 by auto
next
  case (Suc d)
  note D = ring_invD [OF Suc.prems(1)]
  have k: "length got < m" using Suc.hyps(2) by simp
  have ok: "old = of_nat g" "g + m \<le> rr_taken s" using D(5) [OF Suc.prems(2)] Suc.prems(3) by auto
  have "covers_cons g (ps ! i)" using k Suc.prems(3) by simp
  then have "length (rr_out s) \<le> g" using owned(2) [OF Suc.prems(1,2)] by blast
  then have "length got < ring_n s" using k ok shared_order [OF D(2)] D(6) by linarith
  then have "unat (ring_cell (rr_ring s) old (length got)) < length (r_table (rr_ring s))"
    using D(1,7) ok by (simp add: unat_ring_cell) (meson le_less_trans less_le_trans mod_less_divisor not_less zero_le)
  then obtain x where "rd (r_table (rr_ring s)) (ring_cell (rr_ring s) old (length got)) = Some x"
    by (simp add: rd_def)
  then have act: "ring_act s (ps ! i) s (C_copy m old g (got @ [x]))"
    using k Suc.prems(3) by (simp add: ring_act_def c_cell)
  have "ring_inv (s, ps[i := C_copy m old g (got @ [x])])"
    using ring.preserved [OF Suc.prems(1,2) act] .
  moreover have "d = m - length (got @ [x])" using Suc.hyps(2) by simp
  moreover have "ps[i := C_copy m old g (got @ [x])] ! i = C_copy m old g (got @ [x])" using Suc.prems(2) by simp
    ultimately obtain got' where
    "ring_solo (s, C_copy m old g (got @ [x])) (s, C_copy m old g got')" "length got' = m"
    using Suc.hyps(1) [of "got @ [x]" "ps[i := C_copy m old g (got @ [x])]"] Suc.prems(2) by auto
  then show ?case using solo_step [OF act] by blast
qed

lemma cons_gives_back:
  assumes inv: "ring_inv (s, ps)" and i: "i < length ps" "ps ! i = C_copy m old (length (rr_out s)) got"
  shows "\<exists>s'. ring_solo (s, ps ! i) (s', C_out)"
proof -
  obtain got' where s': "ring_solo (s, ps ! i) (s, C_copy m old (length (rr_out s)) got')"
    "length got' = m" using cons_copies [OF inv i] by blast
  let ?ps = "ps[i := C_copy m old (length (rr_out s)) got']"
  have inv': "ring_inv (s, ?ps)" using solo_inv [OF s'(1) inv i(1)] by simp
  have "ht_tail (r_cons (rr_ring s)) = old"
    using ring_invD(2) [OF inv'] ring_invD(5) [OF inv', of i] i by (simp add: shared_ok_def)
  then have "ring_act s (?ps ! i) (s\<lparr>rr_ring := set_cons_tail (old + of_nat m) (rr_ring s),
      rr_out := rr_out s @ got'\<rparr>) C_out"
    using i(1) s'(2) by (simp add: ring_act_def c_publish)
  from solo_last [OF this] show ?thesis using i(1) s'(1) by (auto intro: rtranclp_trans)
qed

subsection \<open>A call that is not held up\<close>

lemma prod_move_completes:
  assumes inv: "ring_inv (s, ps)" and i: "i < length ps" "ps ! i = P_move objs beh n old (length (rr_log s))"
    and quiet: "rr_pub s = length (rr_log s)"
  shows "\<exists>s'. ring_solo (s, ps ! i) (s', P_out)"
proof -
  let ?s = "prod_moved (take n objs) old s" and ?p = "P_copy (take n objs) old (length (rr_log s)) 0"
  note D = ring_invD [OF inv]
  have "ht_head (r_prod (rr_ring s)) = old" using D(2) D(5) [OF i(1)] i(2) by (simp add: shared_ok_def)
  then have act: "ring_act s (ps ! i) ?s ?p" by (auto simp: i(2) ring_act_def prod_act_simps)
  have "ring_inv (?s, ps[i := ?p])" using ring.preserved [OF inv i(1) act] .
  from prod_publishes [OF this, of i] obtain s' where "ring_solo (?s, ?p) (s', P_out)"
    using i(1) quiet by (auto simp: prod_moved_def)
  then show ?thesis using solo_step [OF act] by blast
qed

lemma prod_room_completes:
  assumes inv: "ring_inv (s, ps)" and i: "i < length ps" "ps ! i = P_room objs beh old (length (rr_log s))"
    and quiet: "rr_pub s = length (rr_log s)"
  shows "\<exists>s'. ring_solo (s, ps ! i) (s', P_out)"
proof -
  define n where "n = clip_count (of_nat (length objs)) beh (r_capacity (rr_ring s) + ht_tail (r_cons (rr_ring s)) - old)"
  let ?p = "if n = 0 then P_out else P_move objs beh (unat n) old (length (rr_log s))"
  have act: "ring_act s (ps ! i) s ?p" by (simp add: i(2) ring_act_def prod_act_simps n_def)
  show ?thesis
  proof (cases "n = 0")
    case True
    then show ?thesis using solo_last [OF act] by auto
  next
    case False
    have "ring_inv (s, ps[i := ?p])" using ring.preserved [OF inv i(1) act] .
    from prod_move_completes [OF this, of i] obtain s' where "ring_solo (s, ?p) (s', P_out)"
      using i(1) quiet False by auto
    then show ?thesis using solo_step [OF act] by blast
  qed
qed

lemma prod_load_completes:
  assumes inv: "ring_inv (s, ps)" and i: "i < length ps" "ps ! i = P_load objs beh"
    and quiet: "rr_pub s = length (rr_log s)"
  shows "\<exists>s'. ring_solo (s, ps ! i) (s', P_out)"
proof -
  let ?p = "P_room objs beh (ht_head (r_prod (rr_ring s))) (length (rr_log s))"
  have act: "ring_act s (ps ! i) s ?p" by (simp add: i(2) ring_act_def prod_act_simps)
  have "ring_inv (s, ps[i := ?p])" using ring.preserved [OF inv i(1) act] .
  from prod_room_completes [OF this, of i] obtain s' where "ring_solo (s, ?p) (s', P_out)"
    using i(1) quiet by auto
  then show ?thesis using solo_step [OF act] by blast
qed

text \<open>A head loaded long ago: the swap fails and the thread starts over.\<close>

lemma prod_stale_completes:
  assumes inv: "ring_inv (s, ps)" and i: "i < length ps" "ps ! i = P_move objs beh n old g"
    and quiet: "rr_pub s = length (rr_log s)" and near: "length (rr_log s) < g + 2 ^ 32"
  shows "\<exists>s'. ring_solo (s, ps ! i) (s', P_out)"
proof (cases "g = length (rr_log s)")
  case True
  then show ?thesis using prod_move_completes [OF inv i(1) _ quiet] i(2) by simp
next
  case False
  note D = ring_invD [OF inv]
  have ok: "old = of_nat g" "g \<le> length (rr_log s)" "ht_single (r_prod (rr_ring s)) = 0"
    using D(5) [OF i(1)] i(2) False by auto
  have "ht_head (r_prod (rr_ring s)) \<noteq> old"
    using False of_nat_eq_near [of g "length (rr_log s)"] ok near D(2) by (auto simp: shared_ok_def)
  then have act: "ring_act s (ps ! i) s (P_load objs beh)" using ok(3) by (simp add: i(2) ring_act_def prod_act_simps)
  have "ring_inv (s, ps[i := P_load objs beh])" using ring.preserved [OF inv i(1) act] .
  from prod_load_completes [OF this, of i] obtain s' where "ring_solo (s, P_load objs beh) (s', P_out)"
    using i(1) quiet by auto
  then show ?thesis using solo_step [OF act] by blast
qed

text \<open>A thread that 2^32 objects passed since it loaded its head.\<close>

fun overtaken :: "'a ring_run \<Rightarrow> 'a ring_pc \<Rightarrow> bool" where
  "overtaken s (P_room objs beh old g) \<longleftrightarrow> g + 2 ^ 32 \<le> length (rr_log s)"
| "overtaken s (P_move objs beh n old g) \<longleftrightarrow> g + 2 ^ 32 \<le> length (rr_log s)"
| "overtaken s (C_room n beh old g) \<longleftrightarrow> g + 2 ^ 32 \<le> rr_taken s"
| "overtaken s (C_move n beh m old g) \<longleftrightarrow> g + 2 ^ 32 \<le> rr_taken s"
| "overtaken s _ \<longleftrightarrow> False"

lemma prod_completes:
  assumes inv: "ring_inv (s, ps)" and i: "i < length ps" "is_producer (ps ! i)" "\<not> overtaken s (ps ! i)"
    and quiet: "rr_pub s = length (rr_log s)"
  shows "\<exists>s'. ring_solo (s, ps ! i) (s', P_out)"
proof (cases "ps ! i")
  case (P_load objs beh)
  then show ?thesis using prod_load_completes [OF inv i(1) _ quiet] by blast
next
  case (P_room objs beh old g)
  define n where "n = clip_count (of_nat (length objs)) beh (r_capacity (rr_ring s) + ht_tail (r_cons (rr_ring s)) - old)"
  let ?p = "if n = 0 then P_out else P_move objs beh (unat n) old g"
  have act: "ring_act s (ps ! i) s ?p" by (simp add: P_room ring_act_def prod_act_simps n_def)
  show ?thesis
  proof (cases "n = 0")
    case True
    then show ?thesis using solo_last [OF act] by auto
  next
    case False
    have "ring_inv (s, ps[i := ?p])" using ring.preserved [OF inv i(1) act] .
    from prod_stale_completes [OF this, of i] obtain s' where "ring_solo (s, ?p) (s', P_out)"
      using i quiet False P_room by auto
    then show ?thesis using solo_step [OF act] by blast
  qed
next
  case (P_move objs beh n old g)
  then show ?thesis using prod_stale_completes [OF inv i(1) _ quiet] i(3) by simp
next
  case (P_copy objs old g k)
  then have "covers_prod g (ps ! i)" using ring_invD(5) [OF inv i(1)] by simp
  then show ?thesis using owned(1) [OF inv i(1)] quiet by fastforce
qed (use i in auto)

text \<open>The same for a consumer.\<close>

lemma cons_move_completes:
  assumes inv: "ring_inv (s, ps)" and i: "i < length ps" "ps ! i = C_move n beh m old (rr_taken s)"
    and quiet: "rr_taken s = length (rr_out s)"
  shows "\<exists>s'. ring_solo (s, ps ! i) (s', C_out)"
proof -
  let ?s = "cons_moved m old s" and ?p = "C_copy m old (rr_taken s) []"
  note D = ring_invD [OF inv]
  have "ht_head (r_cons (rr_ring s)) = old" using D(2) D(5) [OF i(1)] i(2) by (simp add: shared_ok_def)
  then have act: "ring_act s (ps ! i) ?s ?p" by (auto simp: i(2) ring_act_def cons_act_simps)
  have "ring_inv (?s, ps[i := ?p])" using ring.preserved [OF inv i(1) act] .
  from cons_gives_back [OF this, of i] obtain s' where "ring_solo (?s, ?p) (s', C_out)"
    using i(1) quiet by (auto simp: cons_moved_def)
  then show ?thesis using solo_step [OF act] by blast
qed

lemma cons_stale_completes:
  assumes inv: "ring_inv (s, ps)" and i: "i < length ps" "ps ! i = C_move n beh m old g"
    and quiet: "rr_taken s = length (rr_out s)" and near: "rr_taken s < g + 2 ^ 32"
    and load: "\<And>ps. ring_inv (s, ps) \<Longrightarrow> i < length ps \<Longrightarrow> ps ! i = C_load n beh \<Longrightarrow>
      \<exists>s'. ring_solo (s, ps ! i) (s', C_out)"
  shows "\<exists>s'. ring_solo (s, ps ! i) (s', C_out)"
proof (cases "g = rr_taken s")
  case True
  then show ?thesis using cons_move_completes [OF inv i(1) _ quiet] i(2) by simp
next
  case False
  note D = ring_invD [OF inv]
  have ok: "old = of_nat g" "g \<le> rr_taken s" "ht_single (r_cons (rr_ring s)) = 0"
    using D(5) [OF i(1)] i(2) False by auto
  have "ht_head (r_cons (rr_ring s)) \<noteq> old"
    using False of_nat_eq_near [of g "rr_taken s"] ok near D(2) by (auto simp: shared_ok_def)
  then have act: "ring_act s (ps ! i) s (C_load n beh)" using ok(3) by (simp add: i(2) ring_act_def cons_act_simps)
  have "ring_inv (s, ps[i := C_load n beh])" using ring.preserved [OF inv i(1) act] .
  from load [OF this] obtain s' where "ring_solo (s, C_load n beh) (s', C_out)" using i(1) by auto
  then show ?thesis using solo_step [OF act] by blast
qed

lemma cons_room_completes:
  assumes inv: "ring_inv (s, ps)" and i: "i < length ps" "ps ! i = C_room n beh old g"
    and move: "\<And>ps m. ring_inv (s, ps) \<Longrightarrow> i < length ps \<Longrightarrow> ps ! i = C_move n beh m old g \<Longrightarrow>
      \<exists>s'. ring_solo (s, ps ! i) (s', C_out)"
  shows "\<exists>s'. ring_solo (s, ps ! i) (s', C_out)"
proof -
  define m where "m = clip_count n beh (ht_tail (r_prod (rr_ring s)) - old)"
  let ?p = "if m = 0 then C_out else C_move n beh (unat m) old g"
  have act: "ring_act s (ps ! i) s ?p" by (simp add: i(2) ring_act_def cons_act_simps m_def)
  show ?thesis
  proof (cases "m = 0")
    case True
    then show ?thesis using solo_last [OF act] by auto
  next
    case False
    have "ring_inv (s, ps[i := ?p])" using ring.preserved [OF inv i(1) act] .
    from move [OF this, of "unat m"] obtain s' where "ring_solo (s, ?p) (s', C_out)"
      using i(1) False by auto
    then show ?thesis using solo_step [OF act] by blast
  qed
qed

lemma cons_load_completes:
  assumes inv: "ring_inv (s, ps)" and i: "i < length ps" "ps ! i = C_load n beh"
    and quiet: "rr_taken s = length (rr_out s)"
  shows "\<exists>s'. ring_solo (s, ps ! i) (s', C_out)"
proof -
  let ?p = "C_room n beh (ht_head (r_cons (rr_ring s))) (rr_taken s)"
  have act: "ring_act s (ps ! i) s ?p" by (simp add: i(2) ring_act_def cons_act_simps)
  have "ring_inv (s, ps[i := ?p])" using ring.preserved [OF inv i(1) act] .
  from cons_room_completes [OF this, of i] obtain s' where "ring_solo (s, ?p) (s', C_out)"
    using i(1) cons_move_completes quiet by fastforce
  then show ?thesis using solo_step [OF act] by blast
qed

lemma cons_completes:
  assumes inv: "ring_inv (s, ps)" and i: "i < length ps" "\<not> is_producer (ps ! i)" "\<not> overtaken s (ps ! i)"
    and quiet: "rr_taken s = length (rr_out s)"
  shows "\<exists>s'. ring_solo (s, ps ! i) (s', C_out)"
proof (cases "ps ! i")
  case (C_load n beh)
  then show ?thesis using cons_load_completes [OF inv i(1) _ quiet] by blast
next
  case (C_room n beh old g)
  show ?thesis
  proof (rule cons_room_completes [OF inv i(1) C_room])
    fix qs m assume q: "ring_inv (s, qs)" "i < length qs" "qs ! i = C_move n beh m old g"
    show "\<exists>s'. ring_solo (s, qs ! i) (s', C_out)"
    proof (rule cons_stale_completes [OF q quiet])
      show "rr_taken s < g + 2 ^ 32" using i(3) C_room by simp
    qed (rule cons_load_completes [OF _ _ _ quiet])
  qed
next
  case (C_move n beh m old g)
  show ?thesis
  proof (rule cons_stale_completes [OF inv i(1) C_move quiet])
    show "rr_taken s < g + 2 ^ 32" using i(3) C_move by simp
  qed (rule cons_load_completes [OF _ _ _ quiet])
next
  case (C_copy m old g got)
  then have "covers_cons g (ps ! i)" using ring_invD(5) [OF inv i(1)] by simp
  then show ?thesis using owned(2) [OF inv i(1)] quiet by fastforce
qed (use i in auto)

text \<open>Some thread holds the oldest reservation.\<close>

lemma first_reserved:
  assumes inv: "ring_inv (s, ps)"
  shows "rr_pub s < length (rr_log s) \<Longrightarrow>
      \<exists>i objs old k. i < length ps \<and> ps ! i = P_copy objs old (rr_pub s) k"
    "length (rr_out s) < rr_taken s \<Longrightarrow>
      \<exists>i m old got. i < length ps \<and> ps ! i = C_copy m old (length (rr_out s)) got"
proof -
  assume "rr_pub s < length (rr_log s)"
  then have "count_if (covers_prod (rr_pub s)) ps = 1" using ring_invD(3) [OF inv] by (simp add: owners_ok_def)
  then obtain i where i: "i < length ps" "covers_prod (rr_pub s) (ps ! i)"
    by (metis filter_empty_conv in_set_conv_nth list.size(3) zero_neq_one)
  then obtain objs old g k where p: "ps ! i = P_copy objs old g k" by (cases "ps ! i") auto
  moreover have "covers_prod g (ps ! i)" using i(2) p by auto
  ultimately have "g = rr_pub s" using owned(1) [OF inv i(1)] i(2) p by fastforce
  then show "\<exists>i objs old k. i < length ps \<and> ps ! i = P_copy objs old (rr_pub s) k" using i p by blast
next
  assume "length (rr_out s) < rr_taken s"
  then have "count_if (covers_cons (length (rr_out s))) ps = 1" using ring_invD(3) [OF inv] by (simp add: owners_ok_def)
  then obtain i where i: "i < length ps" "covers_cons (length (rr_out s)) (ps ! i)"
    by (metis filter_empty_conv in_set_conv_nth list.size(3) zero_neq_one)
  then obtain m old g got where p: "ps ! i = C_copy m old g got" by (cases "ps ! i") auto
  moreover have "covers_cons g (ps ! i)" using i(2) p by auto
  ultimately have "g = length (rr_out s)" using owned(2) [OF inv i(1)] i(2) p by fastforce
  then show "\<exists>i m old got. i < length ps \<and> ps ! i = C_copy m old (length (rr_out s)) got" using i p by blast
qed

lemma someone_completes:
  assumes inv: "ring_inv (s, ps)" and "\<exists>pc\<in>set ps. \<not> outside pc" "\<forall>pc\<in>set ps. \<not> overtaken s pc"
  shows "\<exists>i s' pc. i < length ps \<and> \<not> outside (ps ! i) \<and> outside pc \<and> ring_solo (s, ps ! i) (s', pc)"
proof -
  note order = shared_order [OF ring_invD(2) [OF inv]]
  consider "rr_pub s < length (rr_log s)" | "length (rr_out s) < rr_taken s"
    | "rr_pub s = length (rr_log s)" "rr_taken s = length (rr_out s)" using order by linarith
  then show ?thesis
  proof cases
    case 1
    then obtain i objs old k where i: "i < length ps" "ps ! i = P_copy objs old (rr_pub s) k"
      using first_reserved(1) [OF inv] by blast
    then show ?thesis using prod_publishes [OF inv i] by (force simp: outside_def)
  next
    case 2
    then obtain i m old got where i: "i < length ps" "ps ! i = C_copy m old (length (rr_out s)) got"
      using first_reserved(2) [OF inv] by blast
    then show ?thesis using cons_gives_back [OF inv i] by (force simp: outside_def)
  next
    case 3
    obtain i where i: "i < length ps" "\<not> outside (ps ! i)" "\<not> overtaken s (ps ! i)"
      using assms(2,3) by (metis in_set_conv_nth)
    then show ?thesis
      using prod_completes [OF inv i(1) _ i(3) 3(1)] cons_completes [OF inv i(1) _ i(3) 3(2)]
      by (cases "is_producer (ps ! i)") (force simp: outside_def)+
  qed
qed

subsection \<open>A call that nobody disturbs\<close>

text \<open>The copy loops, object by object, with the cells of \<^const>\<open>ring_cell\<close>.\<close>

fun cells_put :: "('s \<Rightarrow> u32 \<Rightarrow> u32 \<Rightarrow> 's option) \<Rightarrow> 'a rte_ring \<Rightarrow> u32 \<Rightarrow> nat \<Rightarrow> nat \<Rightarrow> 's \<Rightarrow> 's option" where
  "cells_put put r h 0 i s = Some s"
| "cells_put put r h (Suc k) i s =
     Option.bind (put s (ring_cell r h i) (of_nat i)) (cells_put put r h k (Suc i))"

lemma cells_put_add:
  "cells_put put r h (a + b) i s = Option.bind (cells_put put r h a i s) (cells_put put r h b (i + a))"
  by (induction a arbitrary: i s) (auto simp: fun_eq_iff split: bind_split)

lemma cells_put_before:
  "unat (h AND r_mask r) + i + k \<le> unat (r_size r) \<Longrightarrow>
   cells_put put r h k i s = iter_put put k s ((h AND r_mask r) + of_nat i) (of_nat i)"
proof (induction k arbitrary: i s)
  case (Suc k)
  have "ring_cell r h i = (h AND r_mask r) + of_nat i" using Suc.prems by (simp add: ring_cell_def)
  moreover have "cells_put put r h k (Suc i) = (\<lambda>s. iter_put put k s ((h AND r_mask r) + of_nat i + 1) (of_nat i + 1))"
    using Suc.IH [of "Suc i"] Suc.prems by (simp add: fun_eq_iff ac_simps)
  ultimately show ?case by simp
qed simp

lemma cells_put_after:
  "unat (r_size r) \<le> unat (h AND r_mask r) + i \<Longrightarrow>
   cells_put put r h k i s = iter_put put k s ((h AND r_mask r) + of_nat i - r_size r) (of_nat i)"
proof (induction k arbitrary: i s)
  case (Suc k)
  have "ring_cell r h i = (h AND r_mask r) + of_nat i - r_size r" using Suc.prems by (simp add: ring_cell_def)
  moreover have "cells_put put r h k (Suc i) =
      (\<lambda>s. iter_put put k s ((h AND r_mask r) + of_nat i - r_size r + 1) (of_nat i + 1))"
    using Suc.IH [of "Suc i"] Suc.prems by (simp add: fun_eq_iff algebra_simps)
  ultimately show ?case by simp
qed simp

lemma copy_ptrs_cells:
  assumes "ring_setup r" "unat n \<le> unat (r_size r)"
  shows "copy_ptrs put (r_size r) (h AND r_mask r) n s = cells_put put r h (unat n) 0 s"
proof -
  let ?idx = "h AND r_mask r"
  from assms(1) obtain k where k: "unat (r_size r) = 2 ^ k" "r_mask r = mask k" "unat (r_size r) \<le> 2 ^ 30"
    "0 < unat (r_size r)" by (rule ring_setup_size)
  have lt: "unat ?idx < unat (r_size r)" using k by (simp add: unat_and_mask)
  have "unat ?idx + unat n < 2 ^ 32" using lt assms(2) k(3) by simp
  note eq = copy_ptrs_eq [OF _ this assms(2)]
  show ?thesis
  proof (cases "unat ?idx + unat n < unat (r_size r)")
    case True
    then show ?thesis using lt by (simp add: eq cells_put_before word_less_nat_alt)
  next
    case False
    let ?a = "unat (r_size r) - unat ?idx"
    have a: "of_nat ?a = r_size r - ?idx" using lt by (simp add: of_nat_diff)
    have "cells_put put r h (unat n) 0 s = cells_put put r h (?a + (unat n - ?a)) 0 s" using False by simp
    also have "\<dots> = Option.bind (cells_put put r h ?a 0 s) (cells_put put r h (unat n - ?a) (0 + ?a))"
      by (rule cells_put_add)
    also have "cells_put put r h ?a 0 s = iter_put put ?a s ?idx 0"
      using cells_put_before [of h r 0 ?a put s] lt by simp
    also have "cells_put put r h (unat n - ?a) (0 + ?a) = (\<lambda>s. iter_put put (unat n - ?a) s 0 (r_size r - ?idx))"
      using cells_put_after [of r h "0 + ?a" put "unat n - ?a"] lt a by (simp add: fun_eq_iff)
    finally show ?thesis using False lt by (simp add: eq word_less_nat_alt)
  qed
qed

lemma solo_copies_in:
  "cells_put (\<lambda>ring idx i. Option.bind (rd objs i) (wr ring idx)) r old k i ring = Some t \<Longrightarrow>
   i + k \<le> length objs \<Longrightarrow> i + k < 2 ^ 32 \<Longrightarrow> r_size (rr_ring s) = r_size r \<Longrightarrow> r_mask (rr_ring s) = r_mask r \<Longrightarrow>
   r_table (rr_ring s) = ring \<Longrightarrow>
   ring_solo (s, P_copy (take (i + k) objs) old g i)
     (s\<lparr>rr_ring := (rr_ring s)\<lparr>r_table := t\<rparr>\<rparr>, P_copy (take (i + k) objs) old g (i + k))"
proof (induction k arbitrary: i ring s)
  case 0
  then have "s\<lparr>rr_ring := (rr_ring s)\<lparr>r_table := t\<rparr>\<rparr> = s"
    by (intro ring_run.equality rte_ring.equality) simp_all
  then show ?case by simp
next
  case (Suc k)
  have u: "unat (of_nat i :: u32) = i" using Suc.prems(3) by (intro unat_of_nat_small) simp
  obtain t' where t': "wr ring (ring_cell r old i) (objs ! i) = Some t'"
    "cells_put (\<lambda>ring idx i. Option.bind (rd objs i) (wr ring idx)) r old k (Suc i) t' = Some t"
    using Suc.prems(1,2) by (auto simp: rd_def u split: bind_splits)
  let ?s = "s\<lparr>rr_ring := (rr_ring s)\<lparr>r_table := t'\<rparr>\<rparr>"
  have "ring_cell (rr_ring s) old i = ring_cell r old i" using Suc.prems(4,5) by (simp add: ring_cell_def Let_def)
  then have act: "ring_act s (P_copy (take (i + Suc k) objs) old g i) ?s (P_copy (take (i + Suc k) objs) old g (Suc i))"
    using t'(1) Suc.prems by (simp add: ring_act_def prod_act_simps)
  show ?case
    using solo_step [OF act] Suc.IH [OF t'(2), of ?s] Suc.prems by simp
qed

lemma solo_copies_out:
  "cells_put (\<lambda>objs idx i. Option.bind (rd (r_table r) idx) (wr objs i)) r old k i objs = Some objs' \<Longrightarrow>
   i + k < 2 ^ 32 \<Longrightarrow> rr_ring s = r \<Longrightarrow> length got = i \<Longrightarrow> got = take i objs \<Longrightarrow>
   ring_solo (s, C_copy (i + k) old g got) (s, C_copy (i + k) old g (take (i + k) objs')) \<and>
   (k = 0 \<or> i + k \<le> length objs') \<and> length objs' = length objs"
proof (induction k arbitrary: i objs got)
  case 0
  then show ?case by simp
next
  case (Suc k)
  have u: "unat (of_nat i :: u32) = i" using Suc.prems(2) by (intro unat_of_nat_small) simp
  obtain x where x: "rd (r_table r) (ring_cell r old i) = Some x" "i < length objs"
    "cells_put (\<lambda>objs idx i. Option.bind (rd (r_table r) idx) (wr objs i)) r old k (Suc i) (objs[i := x]) = Some objs'"
    using Suc.prems(1) by (auto simp: wr_eq_Some_iff u split: bind_splits)
  have act: "ring_act s (C_copy (i + Suc k) old g got) s (C_copy (i + Suc k) old g (got @ [x]))"
    using x(1) Suc.prems by (simp add: ring_act_def cons_act_simps)
  have "got @ [x] = take (Suc i) (objs[i := x])"
    using x(2) Suc.prems(5) by (simp add: take_Suc_conv_app_nth)
  moreover have "length (got @ [x]) = Suc i" "Suc i + k < 2 ^ 32" using Suc.prems by simp_all
  ultimately have "ring_solo (s, C_copy (i + Suc k) old g (got @ [x])) (s, C_copy (i + Suc k) old g (take (i + Suc k) objs')) \<and>
    (k = 0 \<or> Suc i + k \<le> length objs') \<and> length objs' = length objs"
    using Suc.IH [OF x(3)] Suc.prems(3) by auto
  then show ?case using solo_step [OF act] x(2) by auto
qed

text \<open>The run of a whole call against the model of the function.\<close>

lemma do_enqueue_moved:
  assumes "rte_ring_move_prod_head r is_sp n behavior = Some (r1, Head_moved m old new free)"
    "rte_ring_do_enqueue r objs n behavior is_sp = Some (r', k, av)"
  shows "k = m \<and> (\<exists>t ht. copy_ptrs (\<lambda>ring idx i. Option.bind (rd objs i) (wr ring idx)) (r_size r1) (old AND r_mask r1) m (r_table r1) = Some t \<and>
    update_tail (r_prod r1) old new is_sp = Some ht \<and> r' = r1\<lparr>r_table := t, r_prod := ht\<rparr>)"
  using assms(2) by (cases "copy_ptrs (\<lambda>ring idx i. Option.bind (rd objs i) (wr ring idx)) (r_size r1) (old AND r_mask r1) m (r_table r1)")
    (auto simp: rte_ring_do_enqueue_def assms(1) ENQUEUE_PTRS_def split: bind_splits)

lemma do_dequeue_moved:
  assumes "rte_ring_move_cons_head r is_sc n behavior = Some (r1, Head_moved m old new free)"
    "rte_ring_do_dequeue r objs n behavior is_sc = Some (r', objs', k, av)"
  shows "k = m \<and> DEQUEUE_PTRS r1 old objs m = Some objs' \<and>
    (\<exists>ht. update_tail (r_cons r1) old new is_sc = Some ht \<and> r' = r1\<lparr>r_cons := ht\<rparr>)"
  using assms(2) by (auto simp: rte_ring_do_dequeue_def assms(1) split: bind_splits)

lemma solo_enqueue:
  assumes inv: "ring_inv (s, ps)" and i: "i < length ps" "ps ! i = P_load objs beh"
    and quiet: "rr_pub s = length (rr_log s)"
    and call: "rte_ring_do_enqueue (rr_ring s) objs (of_nat (length objs)) beh (ht_single (r_prod (rr_ring s))) =
      Some (r', m, free)"
  shows "ring_solo (s, P_load objs beh) (s\<lparr>rr_ring := r', rr_log := rr_log s @ take (unat m) objs,
    rr_pub := rr_pub s + unat m\<rparr>, P_out)"
proof -
  note D = ring_invD [OF inv]
  let ?r = "rr_ring s"
  define old where "old = ht_head (r_prod ?r)"
  define fr where "fr = r_capacity ?r + ht_tail (r_cons ?r) - old"
  define n where "n = clip_count (of_nat (length objs)) beh fr"
  have old: "old = of_nat (length (rr_log s))" "ht_tail (r_prod ?r) = old"
    using D(2) quiet by (simp_all add: old_def shared_ok_def)
  have load: "ring_act s (P_load objs beh) s (P_room objs beh old (length (rr_log s)))"
    by (simp add: ring_act_def prod_act_simps old_def)
  have room: "ring_act s (P_room objs beh old (length (rr_log s))) s
      (if n = 0 then P_out else P_move objs beh (unat n) old (length (rr_log s)))"
    by (simp add: ring_act_def prod_act_simps n_def fr_def)
  show ?thesis
  proof (cases "n = 0")
    case True
    then have "r' = ?r" "m = 0"
      using call by (auto simp: rte_ring_do_enqueue_def move_prod_head_eq Let_def simp flip: old_def fr_def n_def)
    moreover have "s\<lparr>rr_ring := ?r, rr_log := rr_log s, rr_pub := rr_pub s\<rparr> = s" by simp
    ultimately show ?thesis using solo_step [OF load] solo_last [OF room] True by simp
  next
    case False
    have "ring_inv (s, ps[i := P_room objs beh old (length (rr_log s))])"
      using ring.preserved [OF inv i(1)] load i(2) by simp
    then have "ring_inv (s, ps[i := P_move objs beh (unat n) old (length (rr_log s))])"
      using ring.preserved [of s _ i] room i(1) False by fastforce
    from ring_invD(5) [OF this, of i] have n: "unat n \<le> length objs"
      "unat n \<le> unat (r_size ?r)" "length objs < 2 ^ 32"
      using i(1) D(6) shared_order [OF D(2)] by auto
    let ?r1 = "set_prod_head (old + n) ?r"
    have mv: "rte_ring_move_prod_head ?r (ht_single (r_prod ?r)) (of_nat (length objs)) beh =
        Some (?r1, Head_moved n old (old + n) fr)"
      using False by (simp add: move_prod_head_eq Let_def n_def fr_def old_def ring_setters)
    from do_enqueue_moved [OF mv call] obtain t ht where
      t: "copy_ptrs (\<lambda>ring idx i. Option.bind (rd objs i) (wr ring idx)) (r_size ?r1) (old AND r_mask ?r1) n (r_table ?r1) = Some t"
      and ht: "update_tail (r_prod ?r1) old (old + n) (ht_single (r_prod ?r)) = Some ht"
        "r' = ?r1\<lparr>r_table := t, r_prod := ht\<rparr>" and m: "m = n" by blast
    have "ht_tail (r_prod ?r1) = old" using old(2) by (simp add: ring_setters)
    then have r': "r' = set_prod_tail (old + n) (?r1\<lparr>r_table := t\<rparr>)"
      using ht update_tail_ready [of "r_prod ?r1" old] by (simp add: ring_setters)
    let ?s1 = "prod_moved (take (unat n) objs) old s"
    have s1: "rr_ring ?s1 = ?r1" using n by (simp add: prod_moved_def)
    have move: "ring_act s (P_move objs beh (unat n) old (length (rr_log s))) ?s1
        (P_copy (take (unat n) objs) old (length (rr_log s)) 0)"
      by (auto simp: ring_act_def prod_act_simps old_def)
    have "cells_put (\<lambda>ring idx i. Option.bind (rd objs i) (wr ring idx)) ?r1 old (unat n) 0 (r_table ?r1) = Some t"
      unfolding t [symmetric] using D(1) n(2) by (intro copy_ptrs_cells [symmetric]) (simp_all add: ring_setters ring_setup_def)
    from solo_copies_in [OF this, of ?s1] n s1
    have copy: "ring_solo (?s1, P_copy (take (unat n) objs) old (length (rr_log s)) 0)
        (?s1\<lparr>rr_ring := ?r1\<lparr>r_table := t\<rparr>\<rparr>, P_copy (take (unat n) objs) old (length (rr_log s)) (unat n))"
      by simp
    have "ring_act (?s1\<lparr>rr_ring := ?r1\<lparr>r_table := t\<rparr>\<rparr>) (P_copy (take (unat n) objs) old (length (rr_log s)) (unat n))
        (s\<lparr>rr_ring := r', rr_log := rr_log s @ take (unat m) objs, rr_pub := rr_pub s + unat m\<rparr>) P_out"
      using n old(2) by (simp add: ring_act_def prod_act_simps r' m prod_moved_def ring_setters)
    from solo_last [OF this] show ?thesis
      using solo_step [OF load solo_step [OF _ solo_step [OF move]]] room False copy
      by (auto intro: rtranclp_trans)
  qed
qed

lemma solo_dequeue:
  assumes inv: "ring_inv (s, ps)" and i: "i < length ps" "ps ! i = C_load n beh"
    and quiet: "rr_taken s = length (rr_out s)"
    and call: "rte_ring_do_dequeue (rr_ring s) objs n beh (ht_single (r_cons (rr_ring s))) = Some (r', objs', m, avail)"
  shows "ring_solo (s, C_load n beh) (s\<lparr>rr_ring := r', rr_taken := rr_taken s + unat m,
    rr_out := rr_out s @ take (unat m) objs'\<rparr>, C_out)"
proof -
  note D = ring_invD [OF inv]
  let ?r = "rr_ring s" and ?g = "rr_taken s"
  define old where "old = ht_head (r_cons ?r)"
  define en where "en = ht_tail (r_prod ?r) - old"
  define k where "k = clip_count n beh en"
  have old: "old = of_nat ?g" "ht_tail (r_cons ?r) = old"
    using D(2) quiet by (simp_all add: old_def shared_ok_def)
  have load: "ring_act s (C_load n beh) s (C_room n beh old ?g)"
    by (simp add: ring_act_def cons_act_simps old_def)
  have room: "ring_act s (C_room n beh old ?g) s (if k = 0 then C_out else C_move n beh (unat k) old ?g)"
    by (simp add: ring_act_def cons_act_simps k_def en_def)
  show ?thesis
  proof (cases "k = 0")
    case True
    then have "r' = ?r" "m = 0"
      using call by (auto simp: rte_ring_do_dequeue_def move_cons_head_eq Let_def simp flip: old_def en_def k_def)
    then show ?thesis using solo_step [OF load] solo_last [OF room] True by simp
  next
    case False
    have "ring_inv (s, ps[i := C_room n beh old ?g])" using ring.preserved [OF inv i(1)] load i(2) by simp
    then have "ring_inv (s, ps[i := C_move n beh (unat k) old ?g])"
      using ring.preserved [of s _ i] room i(1) False by fastforce
    from ring_invD(5) [OF this, of i] have k: "unat k \<le> unat (r_size ?r)"
      using i(1) D(6) shared_order [OF D(2)] quiet by auto
    let ?r1 = "set_cons_head (old + k) ?r"
    have mv: "rte_ring_move_cons_head ?r (ht_single (r_cons ?r)) n beh = Some (?r1, Head_moved k old (old + k) en)"
      using False by (simp add: move_cons_head_eq Let_def k_def en_def old_def ring_setters)
    from do_dequeue_moved [OF mv call] obtain ht where t: "DEQUEUE_PTRS ?r1 old objs k = Some objs'"
      and ht: "update_tail (r_cons ?r1) old (old + k) (ht_single (r_cons ?r)) = Some ht" "r' = ?r1\<lparr>r_cons := ht\<rparr>"
      and m: "m = k" by blast
    have "ht_tail (r_cons ?r1) = old" using old(2) by (simp add: ring_setters)
    then have r': "r' = set_cons_tail (old + k) ?r1"
      using ht update_tail_ready [of "r_cons ?r1" old] by (simp add: ring_setters)
    let ?s1 = "cons_moved (unat k) old s"
    have s1: "rr_ring ?s1 = ?r1" by (simp add: cons_moved_def)
    have move: "ring_act s (C_move n beh (unat k) old ?g) ?s1 (C_copy (unat k) old ?g [])"
      by (auto simp: ring_act_def cons_act_simps old_def)
    have "cells_put (\<lambda>objs idx i. Option.bind (rd (r_table ?r1) idx) (wr objs i)) ?r1 old (unat k) 0 objs = Some objs'"
      unfolding t [symmetric] DEQUEUE_PTRS_def using D(1) k
      by (intro copy_ptrs_cells [symmetric]) (simp_all add: ring_setters ring_setup_def)
    from solo_copies_out [OF this, of ?s1 "[]" ?g] s1 False unat_less_pow [of k]
    have copy: "ring_solo (?s1, C_copy (unat k) old ?g []) (?s1, C_copy (unat k) old ?g (take (unat k) objs'))"
      and len: "unat k \<le> length objs'" by (auto simp: unat_eq_zero)
    have "ring_act ?s1 (C_copy (unat k) old ?g (take (unat k) objs')) (s\<lparr>rr_ring := r', rr_taken := ?g + unat m,
        rr_out := rr_out s @ take (unat m) objs'\<rparr>) C_out"
      using len old(2) by (simp add: ring_act_def cons_act_simps r' m cons_moved_def ring_setters)
    from solo_last [OF this] show ?thesis
      using solo_step [OF load solo_step [OF _ solo_step [OF move]]] room False copy
      by (auto intro: rtranclp_trans)
  qed
qed

subsection \<open>Properties\<close>

text \<open>C6: The shared ring never gets stuck: in every state a run can reach where some thread is inside a
  call, unless 2^32 objects passed a thread between its load and its swap, there is a thread inside a call
  that comes to the end of the call by its own accesses alone, whatever the others wait for.\<close>

theorem rte_ring_someone_completes:
  assumes "rte_ring_create malloc count flags = Some r" "malloc_gives_room malloc" "count \<noteq> 0"
    and "threads_fit flags ps" "(interleave ring_act)\<^sup>*\<^sup>* (ring_start r, ps) (s, ps')"
    and "\<exists>pc\<in>set ps'. \<not> outside pc" "\<forall>pc\<in>set ps'. \<not> overtaken s pc"
  shows "\<exists>i s' pc. i < length ps' \<and> \<not> outside (ps' ! i) \<and> outside pc \<and> (alone ring_act)\<^sup>*\<^sup>* (s, ps' ! i) (s', pc)"
  using someone_completes [OF ring.reachable_inv [OF assms(5)] assms(6,7)] ring_start_inv(1) [OF assms(1-4)] .

abbreviation first_call :: "nat ring_pc list" where
  "first_call \<equiv> [P_load [1, 2] RTE_RING_QUEUE_FIXED, P_out, C_out]"

theorem rte_ring_someone_completes_witness:
  "\<exists>i s' pc. i < length first_call \<and> \<not> outside (first_call ! i) \<and> outside pc \<and>
     (alone ring_act)\<^sup>*\<^sup>* (ring_start race_ring, first_call ! i) (s', pc)"
proof -
  have "interleave ring_act (ring_start race_ring, [P_out, P_out, C_out])
      (ring_start race_ring, [P_out, P_out, C_out][0 := first_call ! 0])"
    by (rule interleave.step) (simp_all add: ring_act_def prod_act_simps)
  then have run: "(interleave ring_act)\<^sup>*\<^sup>* (ring_start race_ring, [P_out, P_out, C_out]) (ring_start race_ring, first_call)"
    by simp
  show ?thesis
    by (rule rte_ring_someone_completes [OF race_ring_created sample_malloc_room _ _ run])
      (simp_all add: threads_fit_def outside_def)
qed

text \<open>C18: A call during whose run no other thread moves does what the model of the whole function says,
  at every point where no other producer (for \<open>enqueue\<close>) or consumer (for \<open>dequeue\<close>) holds a
  reservation: its accesses lead to the ring \<open>__rte_ring_do_enqueue\<close> or \<open>__rte_ring_do_dequeue\<close>
  returns, and it adds to the order, or takes from it, the objects the function moved.\<close>

theorem rte_ring_call_undisturbed:
  assumes "ring_inv (s, ps)" "i < length ps"
  shows "(ps ! i = P_load objs beh \<and> rr_pub s = length (rr_log s) \<and>
      rte_ring_do_enqueue (rr_ring s) objs (of_nat (length objs)) beh (ht_single (r_prod (rr_ring s))) =
        Some (r', m, free) \<longrightarrow>
      (alone ring_act)\<^sup>*\<^sup>* (s, P_load objs beh)
        (s\<lparr>rr_ring := r', rr_log := rr_log s @ take (unat m) objs, rr_pub := rr_pub s + unat m\<rparr>, P_out)) \<and>
    (ps ! i = C_load n beh \<and> rr_taken s = length (rr_out s) \<and>
      rte_ring_do_dequeue (rr_ring s) objs n beh (ht_single (r_cons (rr_ring s))) = Some (r', objs', m, free) \<longrightarrow>
      (alone ring_act)\<^sup>*\<^sup>* (s, C_load n beh)
        (s\<lparr>rr_ring := r', rr_taken := rr_taken s + unat m, rr_out := rr_out s @ take (unat m) objs'\<rparr>, C_out))"
  using solo_enqueue [OF assms] solo_dequeue [OF assms] by blast

theorem rte_ring_call_undisturbed_witness:
  "\<exists>r'. rte_ring_do_enqueue race_ring [1, 2] 2 RTE_RING_QUEUE_FIXED 0 = Some (r', 2, 1) \<and>
     (alone ring_act)\<^sup>*\<^sup>* (ring_start race_ring, P_load [1, 2] RTE_RING_QUEUE_FIXED)
       (\<lparr>rr_ring = r', rr_log = [1, 2], rr_out = [], rr_pub = 2, rr_taken = 0\<rparr>, P_out)"
proof -
  let ?p = "P_load [1, 2] RTE_RING_QUEUE_FIXED :: nat ring_pc"
  have "ring_inv (ring_start race_ring, [P_out])"
    using ring_start_inv(1) [OF race_ring_created sample_malloc_room] by (simp add: threads_fit_def outside_def)
  moreover have "ring_act (ring_start race_ring) ([P_out] ! 0) (ring_start race_ring) ?p"
    by (simp add: ring_act_def prod_act_simps)
  ultimately have inv: "ring_inv (ring_start race_ring, [?p])"
    using ring.preserved [of "ring_start race_ring" "[P_out]" 0 "ring_start race_ring" ?p] by simp
  have start: "ring_inv (ring_start race_ring, [P_out])"
    using ring_start_inv(1) [OF race_ring_created sample_malloc_room] by (simp add: threads_fit_def outside_def)
  have wf: "ring_wf race_ring" and "unat (r_capacity race_ring) = 3"
    using quiet_content [OF start]
    by (auto simp: outside_def ring_start_def race_ring_def rte_ring_init_def)
  moreover have "ring_content race_ring = []"
    using quiet_content [OF start] by (simp add: outside_def ring_start_def)
  moreover obtain r' m free where call: "rte_ring_do_enqueue race_ring [1, 2] 2 RTE_RING_QUEUE_FIXED 0 = Some (r', m, free)"
    and "fifo_enqueue (unat (r_capacity race_ring)) RTE_RING_QUEUE_FIXED (ring_content race_ring) [1, 2] (unat (2 :: u32)) =
      (ring_content r', unat m, unat free)"
    by (rule do_enqueue_fifo [OF wf, of 2 "[1, 2]" RTE_RING_QUEUE_FIXED 0]) simp
  ultimately have "unat m = 2" "unat free = 1" by (simp_all add: fifo_enqueue_def clip_nat_def)
  then have "m = 2" "free = 1" by (simp_all add: word_unat_eq_iff)
  moreover have "ht_single (r_prod race_ring) = 0" by (simp add: race_ring_def rte_ring_init_def IS_MP_def)
  ultimately show ?thesis
    using rte_ring_call_undisturbed [OF inv, of 0 "[1, 2]" RTE_RING_QUEUE_FIXED r' m free] call(1)
    by (auto simp: ring_start_def simp flip: numeral_2_eq_2)
qed

end
