(* ===== verification/Rte_Atomic.thy ===== *)
theory Rte_Atomic
  imports Prelude
begin

text \<open>
  The atomic operations of \<open>dpdk_fbarray/\<close>: the portable versions on gcc's builtins
  (\<open>rte_generic_atomic.h\<close>, built with \<open>RTE_FORCE_INTRINSICS\<close>), the x86 versions for 16 and 32 bits
  (\<open>rte_atomic.h\<close>), for 64 bits on x86_64 (\<open>rte_atomic_64.h\<close>) and the compare-and-swap loops for 64 bits
  on i686 (\<open>rte_atomic_32.h\<close>).  An operation maps the cell's value to its result and the new value; signed
  counters are words that wrap.  The i686 loops are not one instruction: they take what other
  processors do to the cell between the load and the \<open>cmpxchg8b\<close> as an argument.
\<close>

subsection \<open>gcc's builtins (one atomic step each)\<close>

definition sync_bool_compare_and_swap :: "'a::len word \<Rightarrow> 'a word \<Rightarrow> 'a word \<Rightarrow> int \<times> 'a word" where
  "sync_bool_compare_and_swap cell exp src = (if cell = exp then (1, src) else (0, cell))"

definition atomic_exchange_n :: "'a::len word \<Rightarrow> 'a word \<Rightarrow> 'a word \<times> 'a word" where
  "atomic_exchange_n cell val = (cell, val)"

definition sync_fetch_and_add :: "'a::len word \<Rightarrow> 'a word \<Rightarrow> 'a word \<times> 'a word" where
  "sync_fetch_and_add cell inc = (cell, cell + inc)"

definition sync_fetch_and_sub :: "'a::len word \<Rightarrow> 'a word \<Rightarrow> 'a word \<times> 'a word" where
  "sync_fetch_and_sub cell dec = (cell, cell - dec)"

definition sync_add_and_fetch :: "'a::len word \<Rightarrow> 'a word \<Rightarrow> 'a word \<times> 'a word" where
  "sync_add_and_fetch cell inc = (cell + inc, cell + inc)"

definition sync_sub_and_fetch :: "'a::len word \<Rightarrow> 'a word \<Rightarrow> 'a word \<times> 'a word" where
  "sync_sub_and_fetch cell dec = (cell - dec, cell - dec)"

text \<open>A C comparison is 1 or 0.\<close>

definition c_bool :: "bool \<Rightarrow> int" where
  "c_bool b = (if b then 1 else 0)"

lemmas builtin_defs = sync_bool_compare_and_swap_def atomic_exchange_n_def sync_fetch_and_add_def
  sync_fetch_and_sub_def sync_add_and_fetch_def sync_sub_and_fetch_def c_bool_def

subsection \<open>x86 instructions with a lock prefix (one atomic step each)\<close>

text \<open>
  The flag ZF an instruction leaves, the registers it writes and the cell.  \<open>cmpxchg\<close> compares the
  accumulator with the cell; on inequality the accumulator gets the cell's value.
\<close>

definition lock_cmpxchg :: "'a::len word \<Rightarrow> 'a word \<Rightarrow> 'a word \<Rightarrow> bool \<times> 'a word \<times> 'a word" where
  "lock_cmpxchg cell acc src = (if acc = cell then (True, acc, src) else (False, cell, cell))"

definition lock_xchg :: "'a::len word \<Rightarrow> 'a word \<Rightarrow> 'a word \<times> 'a word" where
  "lock_xchg cell reg = (cell, reg)"

definition lock_inc :: "'a::len word \<Rightarrow> bool \<times> 'a word" where
  "lock_inc cell = (cell + 1 = 0, cell + 1)"

definition lock_dec :: "'a::len word \<Rightarrow> bool \<times> 'a word" where
  "lock_dec cell = (cell - 1 = 0, cell - 1)"

definition lock_add :: "'a::len word \<Rightarrow> 'a word \<Rightarrow> bool \<times> 'a word" where
  "lock_add cell src = (cell + src = 0, cell + src)"

definition lock_sub :: "'a::len word \<Rightarrow> 'a word \<Rightarrow> bool \<times> 'a word" where
  "lock_sub cell src = (cell - src = 0, cell - src)"

definition lock_xadd :: "'a::len word \<Rightarrow> 'a word \<Rightarrow> 'a word \<times> 'a word" where
  "lock_xadd cell reg = (cell, reg + cell)"

text \<open>\<open>cmpxchg8b\<close>: the cell against edx:eax, replaced by ecx:ebx.\<close>

definition join32 :: "u32 \<Rightarrow> u32 \<Rightarrow> u64" where
  "join32 h l = push_bit 32 (ucast h) OR ucast l"

definition lock_cmpxchg8b :: "u64 \<Rightarrow> u32 \<Rightarrow> u32 \<Rightarrow> u32 \<Rightarrow> u32 \<Rightarrow> bool \<times> u64" where
  "lock_cmpxchg8b cell edx eax ecx ebx =
     (if cell = join32 edx eax then (True, join32 ecx ebx) else (False, cell))"

lemmas instr_defs = lock_cmpxchg_def lock_xchg_def lock_inc_def lock_dec_def lock_add_def lock_sub_def
  lock_xadd_def lock_cmpxchg8b_def

subsection \<open>16-bit operations, portable version (rte_generic_atomic.h)\<close>

definition rte_atomic16_cmpset :: "u16 \<Rightarrow> u16 \<Rightarrow> u16 \<Rightarrow> int \<times> u16" where
  "rte_atomic16_cmpset dst exp src = sync_bool_compare_and_swap dst exp src"

definition rte_atomic16_exchange :: "u16 \<Rightarrow> u16 \<Rightarrow> u16 \<times> u16" where
  "rte_atomic16_exchange dst val = atomic_exchange_n dst val"

definition rte_atomic16_init :: "u16 \<Rightarrow> u16" where
  "rte_atomic16_init v = 0"

definition rte_atomic16_read :: "u16 \<Rightarrow> u16" where
  "rte_atomic16_read v = v"

definition rte_atomic16_set :: "u16 \<Rightarrow> u16 \<Rightarrow> u16" where
  "rte_atomic16_set v new_value = new_value"

definition rte_atomic16_add :: "u16 \<Rightarrow> u16 \<Rightarrow> u16" where
  "rte_atomic16_add v inc = snd (sync_fetch_and_add v inc)"

definition rte_atomic16_sub :: "u16 \<Rightarrow> u16 \<Rightarrow> u16" where
  "rte_atomic16_sub v dec = snd (sync_fetch_and_sub v dec)"

definition rte_atomic16_inc :: "u16 \<Rightarrow> u16" where
  "rte_atomic16_inc v = rte_atomic16_add v 1"

definition rte_atomic16_dec :: "u16 \<Rightarrow> u16" where
  "rte_atomic16_dec v = rte_atomic16_sub v 1"

definition rte_atomic16_add_return :: "u16 \<Rightarrow> u16 \<Rightarrow> u16 \<times> u16" where
  "rte_atomic16_add_return v inc = sync_add_and_fetch v inc"

definition rte_atomic16_sub_return :: "u16 \<Rightarrow> u16 \<Rightarrow> u16 \<times> u16" where
  "rte_atomic16_sub_return v dec = sync_sub_and_fetch v dec"

definition rte_atomic16_inc_and_test :: "u16 \<Rightarrow> int \<times> u16" where
  "rte_atomic16_inc_and_test v = (let (r, v) = sync_add_and_fetch v 1 in (c_bool (r = 0), v))"

definition rte_atomic16_dec_and_test :: "u16 \<Rightarrow> int \<times> u16" where
  "rte_atomic16_dec_and_test v = (let (r, v) = sync_sub_and_fetch v 1 in (c_bool (r = 0), v))"

definition rte_atomic16_test_and_set :: "u16 \<Rightarrow> int \<times> u16" where
  "rte_atomic16_test_and_set v = rte_atomic16_cmpset v 0 1"

definition rte_atomic16_clear :: "u16 \<Rightarrow> u16" where
  "rte_atomic16_clear v = 0"

lemmas rte_atomic16_defs =
  rte_atomic16_cmpset_def rte_atomic16_exchange_def rte_atomic16_init_def
  rte_atomic16_read_def rte_atomic16_set_def rte_atomic16_add_def rte_atomic16_sub_def
  rte_atomic16_inc_def rte_atomic16_dec_def rte_atomic16_add_return_def
  rte_atomic16_sub_return_def rte_atomic16_inc_and_test_def rte_atomic16_dec_and_test_def
  rte_atomic16_test_and_set_def rte_atomic16_clear_def

subsection \<open>32-bit operations, portable version (rte_generic_atomic.h)\<close>

definition rte_atomic32_cmpset :: "u32 \<Rightarrow> u32 \<Rightarrow> u32 \<Rightarrow> int \<times> u32" where
  "rte_atomic32_cmpset dst exp src = sync_bool_compare_and_swap dst exp src"

definition rte_atomic32_exchange :: "u32 \<Rightarrow> u32 \<Rightarrow> u32 \<times> u32" where
  "rte_atomic32_exchange dst val = atomic_exchange_n dst val"

definition rte_atomic32_init :: "u32 \<Rightarrow> u32" where
  "rte_atomic32_init v = 0"

definition rte_atomic32_read :: "u32 \<Rightarrow> u32" where
  "rte_atomic32_read v = v"

definition rte_atomic32_set :: "u32 \<Rightarrow> u32 \<Rightarrow> u32" where
  "rte_atomic32_set v new_value = new_value"

definition rte_atomic32_add :: "u32 \<Rightarrow> u32 \<Rightarrow> u32" where
  "rte_atomic32_add v inc = snd (sync_fetch_and_add v inc)"

definition rte_atomic32_sub :: "u32 \<Rightarrow> u32 \<Rightarrow> u32" where
  "rte_atomic32_sub v dec = snd (sync_fetch_and_sub v dec)"

definition rte_atomic32_inc :: "u32 \<Rightarrow> u32" where
  "rte_atomic32_inc v = rte_atomic32_add v 1"

definition rte_atomic32_dec :: "u32 \<Rightarrow> u32" where
  "rte_atomic32_dec v = rte_atomic32_sub v 1"

definition rte_atomic32_add_return :: "u32 \<Rightarrow> u32 \<Rightarrow> u32 \<times> u32" where
  "rte_atomic32_add_return v inc = sync_add_and_fetch v inc"

definition rte_atomic32_sub_return :: "u32 \<Rightarrow> u32 \<Rightarrow> u32 \<times> u32" where
  "rte_atomic32_sub_return v dec = sync_sub_and_fetch v dec"

definition rte_atomic32_inc_and_test :: "u32 \<Rightarrow> int \<times> u32" where
  "rte_atomic32_inc_and_test v = (let (r, v) = sync_add_and_fetch v 1 in (c_bool (r = 0), v))"

definition rte_atomic32_dec_and_test :: "u32 \<Rightarrow> int \<times> u32" where
  "rte_atomic32_dec_and_test v = (let (r, v) = sync_sub_and_fetch v 1 in (c_bool (r = 0), v))"

definition rte_atomic32_test_and_set :: "u32 \<Rightarrow> int \<times> u32" where
  "rte_atomic32_test_and_set v = rte_atomic32_cmpset v 0 1"

definition rte_atomic32_clear :: "u32 \<Rightarrow> u32" where
  "rte_atomic32_clear v = 0"

lemmas rte_atomic32_defs =
  rte_atomic32_cmpset_def rte_atomic32_exchange_def rte_atomic32_init_def
  rte_atomic32_read_def rte_atomic32_set_def rte_atomic32_add_def rte_atomic32_sub_def
  rte_atomic32_inc_def rte_atomic32_dec_def rte_atomic32_add_return_def
  rte_atomic32_sub_return_def rte_atomic32_inc_and_test_def rte_atomic32_dec_and_test_def
  rte_atomic32_test_and_set_def rte_atomic32_clear_def

subsection \<open>64-bit operations, portable version (rte_generic_atomic.h)\<close>

definition rte_atomic64_cmpset :: "u64 \<Rightarrow> u64 \<Rightarrow> u64 \<Rightarrow> int \<times> u64" where
  "rte_atomic64_cmpset dst exp src = sync_bool_compare_and_swap dst exp src"

definition rte_atomic64_exchange :: "u64 \<Rightarrow> u64 \<Rightarrow> u64 \<times> u64" where
  "rte_atomic64_exchange dst val = atomic_exchange_n dst val"

definition rte_atomic64_init :: "u64 \<Rightarrow> u64" where
  "rte_atomic64_init v = 0"

definition rte_atomic64_read :: "u64 \<Rightarrow> u64" where
  "rte_atomic64_read v = v"

definition rte_atomic64_set :: "u64 \<Rightarrow> u64 \<Rightarrow> u64" where
  "rte_atomic64_set v new_value = new_value"

definition rte_atomic64_add :: "u64 \<Rightarrow> u64 \<Rightarrow> u64" where
  "rte_atomic64_add v inc = snd (sync_fetch_and_add v inc)"

definition rte_atomic64_sub :: "u64 \<Rightarrow> u64 \<Rightarrow> u64" where
  "rte_atomic64_sub v dec = snd (sync_fetch_and_sub v dec)"

definition rte_atomic64_inc :: "u64 \<Rightarrow> u64" where
  "rte_atomic64_inc v = rte_atomic64_add v 1"

definition rte_atomic64_dec :: "u64 \<Rightarrow> u64" where
  "rte_atomic64_dec v = rte_atomic64_sub v 1"

definition rte_atomic64_add_return :: "u64 \<Rightarrow> u64 \<Rightarrow> u64 \<times> u64" where
  "rte_atomic64_add_return v inc = sync_add_and_fetch v inc"

definition rte_atomic64_sub_return :: "u64 \<Rightarrow> u64 \<Rightarrow> u64 \<times> u64" where
  "rte_atomic64_sub_return v dec = sync_sub_and_fetch v dec"

definition rte_atomic64_inc_and_test :: "u64 \<Rightarrow> int \<times> u64" where
  "rte_atomic64_inc_and_test v = (let (r, v) = rte_atomic64_add_return v 1 in (c_bool (r = 0), v))"

definition rte_atomic64_dec_and_test :: "u64 \<Rightarrow> int \<times> u64" where
  "rte_atomic64_dec_and_test v = (let (r, v) = rte_atomic64_sub_return v 1 in (c_bool (r = 0), v))"

definition rte_atomic64_test_and_set :: "u64 \<Rightarrow> int \<times> u64" where
  "rte_atomic64_test_and_set v = rte_atomic64_cmpset v 0 1"

definition rte_atomic64_clear :: "u64 \<Rightarrow> u64" where
  "rte_atomic64_clear v = rte_atomic64_set v 0"

lemmas rte_atomic64_defs =
  rte_atomic64_cmpset_def rte_atomic64_exchange_def rte_atomic64_init_def
  rte_atomic64_read_def rte_atomic64_set_def rte_atomic64_add_def rte_atomic64_sub_def
  rte_atomic64_inc_def rte_atomic64_dec_def rte_atomic64_add_return_def
  rte_atomic64_sub_return_def rte_atomic64_inc_and_test_def rte_atomic64_dec_and_test_def
  rte_atomic64_test_and_set_def rte_atomic64_clear_def

subsection \<open>16- and 32-bit operations, x86 version (rte_atomic.h)\<close>

definition rte_atomic16_cmpset_x86 :: "u16 \<Rightarrow> u16 \<Rightarrow> u16 \<Rightarrow> int \<times> u16" where
  "rte_atomic16_cmpset_x86 dst exp src = 
     (let (zf, _, dst) = lock_cmpxchg dst exp src; res = c_bool zf in (res, dst))"

definition rte_atomic16_exchange_x86 :: "u16 \<Rightarrow> u16 \<Rightarrow> u16 \<times> u16" where
  "rte_atomic16_exchange_x86 dst val = (let (val, dst) = lock_xchg dst val in (val, dst))"

definition rte_atomic16_test_and_set_x86 :: "u16 \<Rightarrow> int \<times> u16" where
  "rte_atomic16_test_and_set_x86 v = rte_atomic16_cmpset_x86 v 0 1"

definition rte_atomic16_inc_x86 :: "u16 \<Rightarrow> u16" where
  "rte_atomic16_inc_x86 v = snd (lock_inc v)"

definition rte_atomic16_dec_x86 :: "u16 \<Rightarrow> u16" where
  "rte_atomic16_dec_x86 v = snd (lock_dec v)"

definition rte_atomic16_inc_and_test_x86 :: "u16 \<Rightarrow> int \<times> u16" where
  "rte_atomic16_inc_and_test_x86 v = 
     (let (zf, v) = lock_inc v; ret = c_bool zf in (c_bool (ret \<noteq> 0), v))"

definition rte_atomic16_dec_and_test_x86 :: "u16 \<Rightarrow> int \<times> u16" where
  "rte_atomic16_dec_and_test_x86 v = 
     (let (zf, v) = lock_dec v; ret = c_bool zf in (c_bool (ret \<noteq> 0), v))"

lemmas rte_atomic16_x86_defs =
  rte_atomic16_cmpset_x86_def rte_atomic16_exchange_x86_def
  rte_atomic16_test_and_set_x86_def rte_atomic16_inc_x86_def rte_atomic16_dec_x86_def
  rte_atomic16_inc_and_test_x86_def rte_atomic16_dec_and_test_x86_def

definition rte_atomic32_cmpset_x86 :: "u32 \<Rightarrow> u32 \<Rightarrow> u32 \<Rightarrow> int \<times> u32" where
  "rte_atomic32_cmpset_x86 dst exp src = 
     (let (zf, _, dst) = lock_cmpxchg dst exp src; res = c_bool zf in (res, dst))"

definition rte_atomic32_exchange_x86 :: "u32 \<Rightarrow> u32 \<Rightarrow> u32 \<times> u32" where
  "rte_atomic32_exchange_x86 dst val = (let (val, dst) = lock_xchg dst val in (val, dst))"

definition rte_atomic32_test_and_set_x86 :: "u32 \<Rightarrow> int \<times> u32" where
  "rte_atomic32_test_and_set_x86 v = rte_atomic32_cmpset_x86 v 0 1"

definition rte_atomic32_inc_x86 :: "u32 \<Rightarrow> u32" where
  "rte_atomic32_inc_x86 v = snd (lock_inc v)"

definition rte_atomic32_dec_x86 :: "u32 \<Rightarrow> u32" where
  "rte_atomic32_dec_x86 v = snd (lock_dec v)"

definition rte_atomic32_inc_and_test_x86 :: "u32 \<Rightarrow> int \<times> u32" where
  "rte_atomic32_inc_and_test_x86 v = 
     (let (zf, v) = lock_inc v; ret = c_bool zf in (c_bool (ret \<noteq> 0), v))"

definition rte_atomic32_dec_and_test_x86 :: "u32 \<Rightarrow> int \<times> u32" where
  "rte_atomic32_dec_and_test_x86 v = 
     (let (zf, v) = lock_dec v; ret = c_bool zf in (c_bool (ret \<noteq> 0), v))"

lemmas rte_atomic32_x86_defs =
  rte_atomic32_cmpset_x86_def rte_atomic32_exchange_x86_def
  rte_atomic32_test_and_set_x86_def rte_atomic32_inc_x86_def rte_atomic32_dec_x86_def
  rte_atomic32_inc_and_test_x86_def rte_atomic32_dec_and_test_x86_def

subsection \<open>64-bit operations, x86_64 version (rte_atomic_64.h)\<close>

definition rte_atomic64_cmpset_x86_64 :: "u64 \<Rightarrow> u64 \<Rightarrow> u64 \<Rightarrow> int \<times> u64" where
  "rte_atomic64_cmpset_x86_64 dst exp src = 
     (let (zf, _, dst) = lock_cmpxchg dst exp src; res = c_bool zf in (res, dst))"

definition rte_atomic64_exchange_x86_64 :: "u64 \<Rightarrow> u64 \<Rightarrow> u64 \<times> u64" where
  "rte_atomic64_exchange_x86_64 dst val = (let (val, dst) = lock_xchg dst val in (val, dst))"

definition rte_atomic64_init_x86_64 :: "u64 \<Rightarrow> u64" where
  "rte_atomic64_init_x86_64 v = 0"

definition rte_atomic64_read_x86_64 :: "u64 \<Rightarrow> u64" where
  "rte_atomic64_read_x86_64 v = v"

definition rte_atomic64_set_x86_64 :: "u64 \<Rightarrow> u64 \<Rightarrow> u64" where
  "rte_atomic64_set_x86_64 v new_value = new_value"

definition rte_atomic64_add_x86_64 :: "u64 \<Rightarrow> u64 \<Rightarrow> u64" where
  "rte_atomic64_add_x86_64 v inc = snd (lock_add v inc)"

definition rte_atomic64_sub_x86_64 :: "u64 \<Rightarrow> u64 \<Rightarrow> u64" where
  "rte_atomic64_sub_x86_64 v dec = snd (lock_sub v dec)"

definition rte_atomic64_inc_x86_64 :: "u64 \<Rightarrow> u64" where
  "rte_atomic64_inc_x86_64 v = snd (lock_inc v)"

definition rte_atomic64_dec_x86_64 :: "u64 \<Rightarrow> u64" where
  "rte_atomic64_dec_x86_64 v = snd (lock_dec v)"

definition rte_atomic64_add_return_x86_64 :: "u64 \<Rightarrow> u64 \<Rightarrow> u64 \<times> u64" where
  "rte_atomic64_add_return_x86_64 v inc = 
     (let prev = inc; (prev, v) = lock_xadd v prev in (prev + inc, v))"

definition rte_atomic64_sub_return_x86_64 :: "u64 \<Rightarrow> u64 \<Rightarrow> u64 \<times> u64" where
  "rte_atomic64_sub_return_x86_64 v dec = rte_atomic64_add_return_x86_64 v (- dec)"

definition rte_atomic64_inc_and_test_x86_64 :: "u64 \<Rightarrow> int \<times> u64" where
  "rte_atomic64_inc_and_test_x86_64 v = 
     (let (zf, v) = lock_inc v; ret = c_bool zf in (c_bool (ret \<noteq> 0), v))"

definition rte_atomic64_dec_and_test_x86_64 :: "u64 \<Rightarrow> int \<times> u64" where
  "rte_atomic64_dec_and_test_x86_64 v = 
     (let (zf, v) = lock_dec v; ret = c_bool zf in (c_bool (ret \<noteq> 0), v))"

definition rte_atomic64_test_and_set_x86_64 :: "u64 \<Rightarrow> int \<times> u64" where
  "rte_atomic64_test_and_set_x86_64 v = rte_atomic64_cmpset_x86_64 v 0 1"

definition rte_atomic64_clear_x86_64 :: "u64 \<Rightarrow> u64" where
  "rte_atomic64_clear_x86_64 v = 0"

lemmas rte_atomic64_x86_64_defs =
  rte_atomic64_cmpset_x86_64_def rte_atomic64_exchange_x86_64_def
  rte_atomic64_init_x86_64_def rte_atomic64_read_x86_64_def rte_atomic64_set_x86_64_def
  rte_atomic64_add_x86_64_def rte_atomic64_sub_x86_64_def rte_atomic64_inc_x86_64_def
  rte_atomic64_dec_x86_64_def rte_atomic64_add_return_x86_64_def
  rte_atomic64_sub_return_x86_64_def rte_atomic64_inc_and_test_x86_64_def
  rte_atomic64_dec_and_test_x86_64_def rte_atomic64_test_and_set_x86_64_def
  rte_atomic64_clear_x86_64_def

subsection \<open>64-bit operations, i686 version (rte_atomic_32.h)\<close>

definition rte_atomic64_cmpset_i686 :: "u64 \<Rightarrow> u64 \<Rightarrow> u64 \<Rightarrow> int \<times> u64" where
  "rte_atomic64_cmpset_i686 dst exp src =
     (let (zf, dst) = lock_cmpxchg8b dst (ucast (drop_bit 32 exp)) (ucast exp)
                        (ucast (drop_bit 32 src)) (ucast src)
      in (c_bool zf, dst))"

text \<open>
  The loops: load the cell, compute the new value, try the swap, start over when the cell changed in
  between.  \<open>env\<close> lists what the other processors do to the cell between each load and its swap; after
  its end nobody interferes.  The result is the loaded value, the cell and the rest of \<open>env\<close>.
\<close>

type_synonym interference = "(u64 \<Rightarrow> u64) list"

definition next_interference :: "interference \<Rightarrow> u64 \<Rightarrow> u64" where
  "next_interference env = (case env of [] \<Rightarrow> id | e # _ \<Rightarrow> e)"

partial_function (option) cas_retry ::
    "interference \<Rightarrow> (u64 \<Rightarrow> u64) \<Rightarrow> u64 \<Rightarrow> (u64 \<times> u64 \<times> interference) option" where
  "cas_retry env new_value v =
     (let tmp = v;
          v = next_interference env v;
          (success, v) = rte_atomic64_cmpset_i686 v tmp (new_value tmp)
      in if success = 0 then cas_retry (tl env) new_value v
         else Some (tmp, v, tl env))"

definition rte_atomic64_exchange_i686 :: "interference \<Rightarrow> u64 \<Rightarrow> u64 \<Rightarrow> (u64 \<times> u64 \<times> interference) option" where
  "rte_atomic64_exchange_i686 env dest val = cas_retry env (\<lambda>old. val) dest"

definition rte_atomic64_init_i686 :: "interference \<Rightarrow> u64 \<Rightarrow> (u64 \<times> interference) option" where
  "rte_atomic64_init_i686 env v = map_option snd (cas_retry env (\<lambda>tmp. 0) v)"

definition rte_atomic64_read_i686 :: "interference \<Rightarrow> u64 \<Rightarrow> (u64 \<times> u64 \<times> interference) option" where
  "rte_atomic64_read_i686 env v = cas_retry env (\<lambda>tmp. tmp) v"

definition rte_atomic64_set_i686 :: "interference \<Rightarrow> u64 \<Rightarrow> u64 \<Rightarrow> (u64 \<times> interference) option" where
  "rte_atomic64_set_i686 env v new_value = map_option snd (cas_retry env (\<lambda>tmp. new_value) v)"

definition rte_atomic64_add_i686 :: "interference \<Rightarrow> u64 \<Rightarrow> u64 \<Rightarrow> (u64 \<times> interference) option" where
  "rte_atomic64_add_i686 env v inc = map_option snd (cas_retry env (\<lambda>tmp. tmp + inc) v)"

definition rte_atomic64_sub_i686 :: "interference \<Rightarrow> u64 \<Rightarrow> u64 \<Rightarrow> (u64 \<times> interference) option" where
  "rte_atomic64_sub_i686 env v dec = map_option snd (cas_retry env (\<lambda>tmp. tmp - dec) v)"

definition rte_atomic64_inc_i686 :: "interference \<Rightarrow> u64 \<Rightarrow> (u64 \<times> interference) option" where
  "rte_atomic64_inc_i686 env v = rte_atomic64_add_i686 env v 1"

definition rte_atomic64_dec_i686 :: "interference \<Rightarrow> u64 \<Rightarrow> (u64 \<times> interference) option" where
  "rte_atomic64_dec_i686 env v = rte_atomic64_sub_i686 env v 1"

definition rte_atomic64_add_return_i686 :: "interference \<Rightarrow> u64 \<Rightarrow> u64 \<Rightarrow> (u64 \<times> u64 \<times> interference) option" where
  "rte_atomic64_add_return_i686 env v inc =
     map_option (\<lambda>(tmp, v, env). (tmp + inc, v, env)) (cas_retry env (\<lambda>tmp. tmp + inc) v)"

definition rte_atomic64_sub_return_i686 :: "interference \<Rightarrow> u64 \<Rightarrow> u64 \<Rightarrow> (u64 \<times> u64 \<times> interference) option" where
  "rte_atomic64_sub_return_i686 env v dec =
     map_option (\<lambda>(tmp, v, env). (tmp - dec, v, env)) (cas_retry env (\<lambda>tmp. tmp - dec) v)"

definition rte_atomic64_inc_and_test_i686 :: "interference \<Rightarrow> u64 \<Rightarrow> (int \<times> u64 \<times> interference) option" where
  "rte_atomic64_inc_and_test_i686 env v =
     map_option (\<lambda>(r, v, env). (c_bool (r = 0), v, env)) (rte_atomic64_add_return_i686 env v 1)"

definition rte_atomic64_dec_and_test_i686 :: "interference \<Rightarrow> u64 \<Rightarrow> (int \<times> u64 \<times> interference) option" where
  "rte_atomic64_dec_and_test_i686 env v =
     map_option (\<lambda>(r, v, env). (c_bool (r = 0), v, env)) (rte_atomic64_sub_return_i686 env v 1)"

definition rte_atomic64_test_and_set_i686 :: "u64 \<Rightarrow> int \<times> u64" where
  "rte_atomic64_test_and_set_i686 v = rte_atomic64_cmpset_i686 v 0 1"

definition rte_atomic64_clear_i686 :: "interference \<Rightarrow> u64 \<Rightarrow> (u64 \<times> interference) option" where
  "rte_atomic64_clear_i686 env v = rte_atomic64_set_i686 env v 0"

lemmas rte_atomic64_i686_defs = rte_atomic64_exchange_i686_def rte_atomic64_init_i686_def
  rte_atomic64_read_i686_def rte_atomic64_set_i686_def rte_atomic64_add_i686_def rte_atomic64_sub_i686_def
  rte_atomic64_inc_i686_def rte_atomic64_dec_i686_def rte_atomic64_add_return_i686_def
  rte_atomic64_sub_return_i686_def rte_atomic64_inc_and_test_i686_def rte_atomic64_dec_and_test_i686_def
  rte_atomic64_test_and_set_i686_def rte_atomic64_clear_i686_def

subsection \<open>The i686 loops take effect at one instant\<close>

lemma join32_split: "join32 (ucast (drop_bit 32 w)) (ucast w) = w"
  by (rule bit_word_eqI) (auto simp: join32_def bit_simps)

lemma cmpset_i686_eq: "rte_atomic64_cmpset_i686 dst exp src = rte_atomic64_cmpset dst exp src"
  by (simp add: rte_atomic64_cmpset_i686_def lock_cmpxchg8b_def join32_split builtin_defs
      rte_atomic64_cmpset_def Let_def)

text \<open>What \<open>k\<close> rounds of interference make of the cell.\<close>

definition interfered :: "interference \<Rightarrow> nat \<Rightarrow> u64 \<Rightarrow> u64" where
  "interfered env k v = fold (\<lambda>e. e) (take k env) v"

lemma cas_retry_atomic:
  "\<exists>k\<le>length env. \<forall>f. cas_retry env f v = Some (interfered env k v, f (interfered env k v), drop k env)"
proof (induction env arbitrary: v)
  case Nil
  have "cas_retry [] f v = Some (v, f v, [])" for f
    by (subst cas_retry.simps)
      (simp add: Let_def next_interference_def cmpset_i686_eq rte_atomic64_cmpset_def builtin_defs)
  then show ?case by (simp add: interfered_def)
next
  case (Cons e env)
  show ?case
  proof (cases "e v = v")
    case True
    then have "cas_retry (e # env) f v = Some (v, f v, env)" for f
      by (subst cas_retry.simps)
        (simp add: Let_def next_interference_def cmpset_i686_eq rte_atomic64_cmpset_def builtin_defs)
    with True show ?thesis
      by (intro exI [of _ 1]) (simp add: interfered_def)
  next
    case False
    then have step: "cas_retry (e # env) f v = cas_retry env f (e v)" for f
      by (subst cas_retry.simps)
        (simp add: Let_def next_interference_def cmpset_i686_eq rte_atomic64_cmpset_def builtin_defs)
    from Cons.IH [of "e v"] obtain k where "k \<le> length env"
      "\<And>f. cas_retry env f (e v) = Some (interfered env k (e v), f (interfered env k (e v)), drop k env)"
      by blast
    then show ?thesis
      by (intro exI [of _ "Suc k"]) (simp add: step interfered_def)
  qed
qed

subsection \<open>The interface of a counter\<close>

locale atomic_counter =
  fixes init :: "'a::len word \<Rightarrow> 'a word"
    and read_cnt :: "'a word \<Rightarrow> 'a word"
    and add sub :: "'a word \<Rightarrow> 'a word \<Rightarrow> 'a word"
    and inc dec :: "'a word \<Rightarrow> 'a word"
    and dec_and_test :: "'a word \<Rightarrow> int \<times> 'a word"
  assumes init: "read_cnt (init v) = 0"
    and add: "read_cnt (add v w) = read_cnt v + w"
    and sub: "read_cnt (sub v w) = read_cnt v - w"
    and inc: "read_cnt (inc v) = read_cnt v + 1"
    and dec: "read_cnt (dec v) = read_cnt v - 1"
    and dec_and_test: "fst (dec_and_test v) = c_bool (read_cnt v = 1)"
      "read_cnt (snd (dec_and_test v)) = read_cnt v - 1"

datatype 'w counter_op = Add 'w | Sub 'w | Inc | Dec

fun delta :: "'a::len word counter_op \<Rightarrow> 'a word" where
  "delta (Add w) = w"
| "delta (Sub w) = - w"
| "delta Inc = 1"
| "delta Dec = - 1"

fun run_counter ::
    "('a::len word \<Rightarrow> 'a word \<Rightarrow> 'a word) \<Rightarrow> ('a word \<Rightarrow> 'a word \<Rightarrow> 'a word) \<Rightarrow>
     ('a word \<Rightarrow> 'a word) \<Rightarrow> ('a word \<Rightarrow> 'a word) \<Rightarrow> 'a word counter_op list \<Rightarrow> 'a word \<Rightarrow> 'a word" where
  "run_counter add sub inc dec [] v = v"
| "run_counter add sub inc dec (Add w # ops) v = run_counter add sub inc dec ops (add v w)"
| "run_counter add sub inc dec (Sub w # ops) v = run_counter add sub inc dec ops (sub v w)"
| "run_counter add sub inc dec (Inc # ops) v = run_counter add sub inc dec ops (inc v)"
| "run_counter add sub inc dec (Dec # ops) v = run_counter add sub inc dec ops (dec v)"

text \<open>Dropping \<open>n\<close> references one after the other: what each call answered.\<close>

fun drop_references :: "('w \<Rightarrow> int \<times> 'w) \<Rightarrow> nat \<Rightarrow> 'w \<Rightarrow> int list" where
  "drop_references dec_and_test 0 v = []"
| "drop_references dec_and_test (Suc n) v =
     (let (r, v) = dec_and_test v in r # drop_references dec_and_test n v)"

context atomic_counter
begin

lemma run_total:
  "read_cnt (run_counter add sub inc dec ops v) = read_cnt v + sum_list (map delta ops)"
proof (induction ops arbitrary: v)
  case (Cons op ops)
  then show ?case by (cases op) (simp_all add: add sub inc dec)
qed simp

lemma run_from_init: "read_cnt (run_counter add sub inc dec ops (init v)) = sum_list (map delta ops)"
  by (simp add: run_total init)

text \<open>With \<open>n\<close> references exactly the last one to go is told so.\<close>

lemma last_reference:
  "read_cnt v = of_nat n \<Longrightarrow> 0 < n \<Longrightarrow> n < 2 ^ LENGTH('a) \<Longrightarrow>
   drop_references dec_and_test n v = replicate (n - 1) 0 @ [1]"
proof (induction n arbitrary: v)
  case (Suc n)
  obtain r v' where rv: "dec_and_test v = (r, v')" by fastforce
  then have r: "r = c_bool (read_cnt v = 1)" and v': "read_cnt v' = of_nat n"
    using dec_and_test [of v] Suc.prems(1) by simp_all
  show ?case
  proof (cases n)
    case 0
    then show ?thesis using Suc.prems rv r by (simp add: c_bool_def)
  next
    case (Suc m)
    have "unat (of_nat (Suc n) :: 'a word) = Suc n" using Suc.prems(3) by (rule unat_of_nat_small)
    then have "read_cnt v \<noteq> 1" using Suc Suc.prems(1) by (metis One_nat_def nat.inject old.nat.distinct(1) unsigned_1)
    then show ?thesis
      using rv r Suc.IH [OF v'] Suc.prems Suc by (simp add: c_bool_def)
  qed
qed simp

end

interpretation atomic16: atomic_counter rte_atomic16_init rte_atomic16_read rte_atomic16_add rte_atomic16_sub
  rte_atomic16_inc rte_atomic16_dec rte_atomic16_dec_and_test
  by unfold_locales (auto simp: rte_atomic16_defs builtin_defs)

interpretation atomic32: atomic_counter rte_atomic32_init rte_atomic32_read rte_atomic32_add rte_atomic32_sub
  rte_atomic32_inc rte_atomic32_dec rte_atomic32_dec_and_test
  by unfold_locales (auto simp: rte_atomic32_defs builtin_defs)

interpretation atomic64: atomic_counter rte_atomic64_init rte_atomic64_read rte_atomic64_add rte_atomic64_sub
  rte_atomic64_inc rte_atomic64_dec rte_atomic64_dec_and_test
  by unfold_locales (auto simp: rte_atomic64_defs builtin_defs)

interpretation x86_64: atomic_counter rte_atomic64_init_x86_64 rte_atomic64_read_x86_64 rte_atomic64_add_x86_64
  rte_atomic64_sub_x86_64 rte_atomic64_inc_x86_64 rte_atomic64_dec_x86_64 rte_atomic64_dec_and_test_x86_64
  by unfold_locales (auto simp: rte_atomic64_x86_64_defs instr_defs c_bool_def)

interpretation x86_32: atomic_counter rte_atomic32_init rte_atomic32_read rte_atomic32_add rte_atomic32_sub
  rte_atomic32_inc_x86 rte_atomic32_dec_x86 rte_atomic32_dec_and_test_x86
  by unfold_locales (auto simp: rte_atomic32_defs rte_atomic32_x86_defs instr_defs builtin_defs)

subsection \<open>The properties of the atomic operations\<close>

text \<open>
  The 16- and 32-bit x86 versions, each one locked instruction and the flag it sets, compute what the
  portable versions on gcc's builtins compute: the same result and the same new value of the cell.
\<close>

theorem rte_atomic_x86_equiv:
  "rte_atomic16_cmpset_x86 a b c = rte_atomic16_cmpset a b c \<and>
   rte_atomic16_exchange_x86 a b = rte_atomic16_exchange a b \<and>
   rte_atomic16_test_and_set_x86 a = rte_atomic16_test_and_set a \<and>
   rte_atomic16_inc_x86 a = rte_atomic16_inc a \<and>
   rte_atomic16_dec_x86 a = rte_atomic16_dec a \<and>
   rte_atomic16_inc_and_test_x86 a = rte_atomic16_inc_and_test a \<and>
   rte_atomic16_dec_and_test_x86 a = rte_atomic16_dec_and_test a \<and>
   rte_atomic32_cmpset_x86 x y z = rte_atomic32_cmpset x y z \<and>
   rte_atomic32_exchange_x86 x y = rte_atomic32_exchange x y \<and>
   rte_atomic32_test_and_set_x86 x = rte_atomic32_test_and_set x \<and>
   rte_atomic32_inc_x86 x = rte_atomic32_inc x \<and>
   rte_atomic32_dec_x86 x = rte_atomic32_dec x \<and>
   rte_atomic32_inc_and_test_x86 x = rte_atomic32_inc_and_test x \<and>
   rte_atomic32_dec_and_test_x86 x = rte_atomic32_dec_and_test x"
  by (simp add: rte_atomic16_x86_defs rte_atomic16_defs rte_atomic32_x86_defs rte_atomic32_defs instr_defs
      builtin_defs Let_def)

text \<open>
  The 64-bit x86_64 versions compute what the portable versions compute; \<open>lock xaddq\<close> leaves the old
  value in the register, so the sum of the register and the increment is the new value.
\<close>

theorem rte_atomic64_x86_64_equiv:
  "rte_atomic64_cmpset_x86_64 a b c = rte_atomic64_cmpset a b c \<and>
   rte_atomic64_exchange_x86_64 a b = rte_atomic64_exchange a b \<and>
   rte_atomic64_init_x86_64 a = rte_atomic64_init a \<and>
   rte_atomic64_read_x86_64 a = rte_atomic64_read a \<and>
   rte_atomic64_set_x86_64 a b = rte_atomic64_set a b \<and>
   rte_atomic64_add_x86_64 a b = rte_atomic64_add a b \<and>
   rte_atomic64_sub_x86_64 a b = rte_atomic64_sub a b \<and>
   rte_atomic64_inc_x86_64 a = rte_atomic64_inc a \<and>
   rte_atomic64_dec_x86_64 a = rte_atomic64_dec a \<and>
   rte_atomic64_add_return_x86_64 a b = rte_atomic64_add_return a b \<and>
   rte_atomic64_sub_return_x86_64 a b = rte_atomic64_sub_return a b \<and>
   rte_atomic64_inc_and_test_x86_64 a = rte_atomic64_inc_and_test a \<and>
   rte_atomic64_dec_and_test_x86_64 a = rte_atomic64_dec_and_test a \<and>
   rte_atomic64_test_and_set_x86_64 a = rte_atomic64_test_and_set a \<and>
   rte_atomic64_clear_x86_64 a = rte_atomic64_clear a"
  by (simp add: rte_atomic64_x86_64_defs rte_atomic64_defs instr_defs builtin_defs Let_def)

text \<open>
  Under any finite interference every i686 operation returns and takes effect at one instant: after
  some \<open>k\<close> rounds of interference it reads the cell and replaces it as its portable version does, with
  nothing in between, and the later interference is still to come.
\<close>

theorem rte_atomic64_i686_atomic:
  "\<exists>k\<le>length env. let w = interfered env k v; rest = drop k env in
     rte_atomic64_exchange_i686 env v x = Some (fst (rte_atomic64_exchange w x), snd (rte_atomic64_exchange w x), rest) \<and>
     rte_atomic64_init_i686 env v = Some (rte_atomic64_init w, rest) \<and>
     rte_atomic64_read_i686 env v = Some (rte_atomic64_read w, w, rest) \<and>
     rte_atomic64_set_i686 env v x = Some (rte_atomic64_set w x, rest) \<and>
     rte_atomic64_add_i686 env v x = Some (rte_atomic64_add w x, rest) \<and>
     rte_atomic64_sub_i686 env v x = Some (rte_atomic64_sub w x, rest) \<and>
     rte_atomic64_inc_i686 env v = Some (rte_atomic64_inc w, rest) \<and>
     rte_atomic64_dec_i686 env v = Some (rte_atomic64_dec w, rest) \<and>
     rte_atomic64_add_return_i686 env v x =
       Some (fst (rte_atomic64_add_return w x), snd (rte_atomic64_add_return w x), rest) \<and>
     rte_atomic64_sub_return_i686 env v x =
       Some (fst (rte_atomic64_sub_return w x), snd (rte_atomic64_sub_return w x), rest) \<and>
     rte_atomic64_inc_and_test_i686 env v =
       Some (fst (rte_atomic64_inc_and_test w), snd (rte_atomic64_inc_and_test w), rest) \<and>
     rte_atomic64_dec_and_test_i686 env v =
       Some (fst (rte_atomic64_dec_and_test w), snd (rte_atomic64_dec_and_test w), rest) \<and>
     rte_atomic64_clear_i686 env v = Some (rte_atomic64_clear w, rest)"
proof -
  from cas_retry_atomic obtain k where k: "k \<le> length env"
    "\<And>f. cas_retry env f v = Some (interfered env k v, f (interfered env k v), drop k env)" by blast
  show ?thesis
    by (intro exI [of _ k])
      (simp add: k Let_def rte_atomic64_i686_defs rte_atomic64_defs builtin_defs)
qed

text \<open>
  A counter that starts at \<open>init\<close> holds, after any sequence of adds, subtractions, increments and
  decrements, their sum modulo the width, for 16, 32 and 64 bits, portable and x86.
\<close>

theorem rte_atomic_counter_total:
  "rte_atomic16_read (run_counter rte_atomic16_add rte_atomic16_sub rte_atomic16_inc rte_atomic16_dec
     ops16 (rte_atomic16_init v16)) = sum_list (map delta ops16) \<and>
   rte_atomic32_read (run_counter rte_atomic32_add rte_atomic32_sub rte_atomic32_inc rte_atomic32_dec
     ops32 (rte_atomic32_init v32)) = sum_list (map delta ops32) \<and>
   rte_atomic32_read (run_counter rte_atomic32_add rte_atomic32_sub rte_atomic32_inc_x86 rte_atomic32_dec_x86
     ops32 (rte_atomic32_init v32)) = sum_list (map delta ops32) \<and>
   rte_atomic64_read (run_counter rte_atomic64_add rte_atomic64_sub rte_atomic64_inc rte_atomic64_dec
     ops64 (rte_atomic64_init v64)) = sum_list (map delta ops64) \<and>
   rte_atomic64_read_x86_64 (run_counter rte_atomic64_add_x86_64 rte_atomic64_sub_x86_64
     rte_atomic64_inc_x86_64 rte_atomic64_dec_x86_64 ops64 (rte_atomic64_init_x86_64 v64)) =
     sum_list (map delta ops64)"
  by (intro conjI atomic16.run_from_init atomic32.run_from_init x86_32.run_from_init
      atomic64.run_from_init x86_64.run_from_init)

text \<open>
  A counter used for references: when a cell holds \<open>n\<close>, of \<open>n\<close> calls of \<open>dec_and_test\<close> exactly the
  last answers 1, so exactly one caller frees the object.
\<close>

theorem rte_atomic_last_reference:
  assumes "0 < n" and "n < 2 ^ 16"
  shows "drop_references rte_atomic16_dec_and_test n (of_nat n) = replicate (n - 1) 0 @ [1] \<and>
    drop_references rte_atomic32_dec_and_test n (of_nat n) = replicate (n - 1) 0 @ [1] \<and>
    drop_references rte_atomic32_dec_and_test_x86 n (of_nat n) = replicate (n - 1) 0 @ [1] \<and>
    drop_references rte_atomic64_dec_and_test n (of_nat n) = replicate (n - 1) 0 @ [1] \<and>
    drop_references rte_atomic64_dec_and_test_x86_64 n (of_nat n) = replicate (n - 1) 0 @ [1]"
proof -
  have "n < 2 ^ LENGTH(16)" "n < 2 ^ LENGTH(32)" "n < 2 ^ LENGTH(64)" using assms(2) by simp_all
  note bounds = assms(1) this
  show ?thesis
    using atomic16.last_reference [OF _ bounds(1,2)] atomic32.last_reference [OF _ bounds(1,3)]
      x86_32.last_reference [OF _ bounds(1,3)] atomic64.last_reference [OF _ bounds(1,4)]
      x86_64.last_reference [OF _ bounds(1,4)]
    by (simp only: rte_atomic16_read_def rte_atomic32_read_def rte_atomic64_read_def
        rte_atomic64_read_x86_64_def simp_thms)
qed

theorem rte_atomic_last_reference_witness:
  "drop_references rte_atomic32_dec_and_test 3 3 = [0, 0, 1]"
proof -
  have "(3 :: nat) < 2 ^ 16" by simp
  from rte_atomic_last_reference [OF _ this] show ?thesis by (simp add: numeral_2_eq_2 del: power_Suc)
qed

end
