(* ===== verification/Rte_Locks.thy ===== *)
theory Rte_Locks
  imports Rte_Atomic
begin

text \<open>
  The locks of \<open>dpdk_fbarray/\<close> (\<open>rte_rwlock.h\<close>, \<open>rte_spinlock.h\<close>, the transaction flags of
  \<open>rte_rtm.h\<close>) and of \<open>vpn/com_lib/lock_lib/\<close>, one definition per function.  A call of a function here runs
  alone: a waiting loop that nobody will end has no result.  The theory \<open>Lock_Protocols\<close> runs the same
  steps of many threads interleaved.
\<close>

subsection \<open>Read-write lock (rte_rwlock.h)\<close>

type_synonym rte_rwlock_t = u32

definition RTE_RWLOCK_INITIALIZER :: rte_rwlock_t where
  "RTE_RWLOCK_INITIALIZER = 0"

definition rte_rwlock_init :: "rte_rwlock_t \<Rightarrow> rte_rwlock_t" where
  "rte_rwlock_init cnt = 0"

text \<open>\<open>x + 1\<close> on the largest \<open>int32_t\<close> is undefined.\<close>

definition INT32_MAX :: u32 where "INT32_MAX = 0x7fffffff"

partial_function (option) rte_rwlock_read_lock :: "rte_rwlock_t \<Rightarrow> rte_rwlock_t option" where
  "rte_rwlock_read_lock cnt =
     (let x = cnt
      in if sint x < 0 then rte_rwlock_read_lock cnt
         else if x = INT32_MAX then None
         else let (success, cnt) = rte_atomic32_cmpset cnt x (x + 1)
              in if success = 0 then rte_rwlock_read_lock cnt else Some cnt)"

definition rte_rwlock_read_unlock :: "rte_rwlock_t \<Rightarrow> rte_rwlock_t" where
  "rte_rwlock_read_unlock cnt = rte_atomic32_dec cnt"

partial_function (option) rte_rwlock_write_lock :: "rte_rwlock_t \<Rightarrow> rte_rwlock_t option" where
  "rte_rwlock_write_lock cnt =
     (let x = cnt
      in if x \<noteq> 0 then rte_rwlock_write_lock cnt
         else let (success, cnt) = rte_atomic32_cmpset cnt 0 (- 1)
              in if success = 0 then rte_rwlock_write_lock cnt else Some cnt)"

definition rte_rwlock_write_unlock :: "rte_rwlock_t \<Rightarrow> rte_rwlock_t" where
  "rte_rwlock_write_unlock cnt = rte_atomic32_inc cnt"

subsection \<open>Spinlock (rte_spinlock.h)\<close>

type_synonym rte_spinlock_t = u32

definition RTE_SPINLOCK_INITIALIZER :: rte_spinlock_t where
  "RTE_SPINLOCK_INITIALIZER = 0"

definition rte_spinlock_init :: "rte_spinlock_t \<Rightarrow> rte_spinlock_t" where
  "rte_spinlock_init locked = 0"

text \<open>The portable version: \<open>__sync_lock_test_and_set\<close> gives the old value and stores the new one.\<close>

partial_function (option) wait_unlocked :: "rte_spinlock_t \<Rightarrow> unit option" where
  "wait_unlocked locked = (if locked \<noteq> 0 then wait_unlocked locked else Some ())"

partial_function (option) rte_spinlock_lock :: "rte_spinlock_t \<Rightarrow> rte_spinlock_t option" where
  "rte_spinlock_lock locked =
     (let (old, locked) = atomic_exchange_n locked 1
      in if old \<noteq> 0 then Option.bind (wait_unlocked locked) (\<lambda>_. rte_spinlock_lock locked)
         else Some locked)"

definition rte_spinlock_unlock :: "rte_spinlock_t \<Rightarrow> rte_spinlock_t" where
  "rte_spinlock_unlock locked = 0"

definition rte_spinlock_trylock :: "rte_spinlock_t \<Rightarrow> int \<times> rte_spinlock_t" where
  "rte_spinlock_trylock locked =
     (let (old, locked) = atomic_exchange_n locked 1 in (c_bool (old = 0), locked))"

definition rte_spinlock_is_locked :: "rte_spinlock_t \<Rightarrow> u32" where
  "rte_spinlock_is_locked locked = locked"

text \<open>The x86 version, by the labels of its assembly: 1 swaps, 2 waits for a zero, 3 is the way out.\<close>

partial_function (option) spinlock_asm_2 :: "rte_spinlock_t \<Rightarrow> unit option" where
  "spinlock_asm_2 locked = (if locked - 0 \<noteq> 0 then spinlock_asm_2 locked else Some ())"

partial_function (option) rte_spinlock_lock_x86 :: "rte_spinlock_t \<Rightarrow> rte_spinlock_t option" where
  "rte_spinlock_lock_x86 locked =
     (let lv = 1;
          (lv, locked) = lock_xchg locked lv
      in if lv AND lv = 0 then Some locked
         else Option.bind (spinlock_asm_2 locked) (\<lambda>_. rte_spinlock_lock_x86 locked))"

definition rte_spinlock_unlock_x86 :: "rte_spinlock_t \<Rightarrow> rte_spinlock_t" where
  "rte_spinlock_unlock_x86 locked = (let ulv = 0; (ulv, locked) = lock_xchg locked ulv in locked)"

definition rte_spinlock_trylock_x86 :: "rte_spinlock_t \<Rightarrow> int \<times> rte_spinlock_t" where
  "rte_spinlock_trylock_x86 locked =
     (let lockval = 1; (lockval, locked) = lock_xchg locked lockval in (c_bool (lockval = 0), locked))"

subsection \<open>Recursive spinlock (rte_spinlock.h)\<close>

text \<open>The caller's thread identifier \<open>rte_gettid()\<close> is the argument \<open>tid\<close>.\<close>

record rte_spinlock_recursive_t =
  slr_sl :: rte_spinlock_t
  slr_user :: int
  slr_count :: int

definition RTE_SPINLOCK_RECURSIVE_INITIALIZER :: rte_spinlock_recursive_t where
  "RTE_SPINLOCK_RECURSIVE_INITIALIZER =
     \<lparr>slr_sl = RTE_SPINLOCK_INITIALIZER, slr_user = - 1, slr_count = 0\<rparr>"

definition rte_spinlock_recursive_init :: "rte_spinlock_recursive_t \<Rightarrow> rte_spinlock_recursive_t" where
  "rte_spinlock_recursive_init slr =
     slr\<lparr>slr_sl := rte_spinlock_init (slr_sl slr), slr_user := - 1, slr_count := 0\<rparr>"

definition rte_spinlock_recursive_lock ::
    "int \<Rightarrow> rte_spinlock_recursive_t \<Rightarrow> rte_spinlock_recursive_t option" where
  "rte_spinlock_recursive_lock tid slr = do {
     slr \<leftarrow> (if slr_user slr \<noteq> tid
            then map_option (\<lambda>l. slr\<lparr>slr_sl := l, slr_user := tid\<rparr>) (rte_spinlock_lock (slr_sl slr))
            else Some slr);
     Some (slr\<lparr>slr_count := slr_count slr + 1\<rparr>) }"

definition rte_spinlock_recursive_unlock :: "rte_spinlock_recursive_t \<Rightarrow> rte_spinlock_recursive_t" where
  "rte_spinlock_recursive_unlock slr =
     (let slr = slr\<lparr>slr_count := slr_count slr - 1\<rparr>
      in if slr_count slr = 0
         then slr\<lparr>slr_user := - 1, slr_sl := rte_spinlock_unlock (slr_sl slr)\<rparr>
         else slr)"

definition rte_spinlock_recursive_trylock ::
    "int \<Rightarrow> rte_spinlock_recursive_t \<Rightarrow> int \<times> rte_spinlock_recursive_t" where
  "rte_spinlock_recursive_trylock tid slr =
     (if slr_user slr \<noteq> tid
      then let (ok, l) = rte_spinlock_trylock (slr_sl slr); slr = slr\<lparr>slr_sl := l\<rparr>
           in if ok = 0 then (0, slr)
              else (1, slr\<lparr>slr_user := tid, slr_count := slr_count slr + 1\<rparr>)
      else (1, slr\<lparr>slr_count := slr_count slr + 1\<rparr>))"

subsection \<open>Hardware transactions (rte_rtm.h, rte_spinlock.h, rte_rwlock.h)\<close>

definition RTE_RTM_MAX_RETRIES :: nat where "RTE_RTM_MAX_RETRIES = 10"
definition RTE_XABORT_LOCK_BUSY :: u32 where "RTE_XABORT_LOCK_BUSY = 0xff"
definition RTE_XBEGIN_STARTED :: u32 where "RTE_XBEGIN_STARTED = NOT 0"
definition RTE_XABORT_EXPLICIT :: u32 where "RTE_XABORT_EXPLICIT = 1"
definition RTE_XABORT_RETRY :: u32 where "RTE_XABORT_RETRY = 2"

definition RTE_XABORT_CODE :: "u32 \<Rightarrow> u32" where
  "RTE_XABORT_CODE x = drop_bit 24 x AND 0xff"

text \<open>
  The processor is the argument \<open>hw\<close>: for the \<open>i\<close>-th attempt, the status \<open>rte_xbegin\<close> returns and the
  value of the lock the transaction reads.  \<open>rte_xabort(code)\<close> makes \<open>rte_xbegin\<close> return once more, with
  the explicit flag and the code.  The loop that waits for the lock to be free has no other effect and
  is left out.
\<close>

definition xabort_status :: "u32 \<Rightarrow> u32" where
  "xabort_status code = push_bit 24 code OR RTE_XABORT_EXPLICIT"

fun try_tm_loop :: "(nat \<Rightarrow> u32 \<times> u32) \<Rightarrow> nat \<Rightarrow> int" where
  "try_tm_loop hw 0 = 0"
| "try_tm_loop hw (Suc retries) =
     (let (status, lock) = hw retries
      in if status = RTE_XBEGIN_STARTED \<and> lock = 0 then 1
         else let status = (if status = RTE_XBEGIN_STARTED then xabort_status RTE_XABORT_LOCK_BUSY
                            else status)
              in if status AND RTE_XABORT_EXPLICIT \<noteq> 0 \<and> RTE_XABORT_CODE status = RTE_XABORT_LOCK_BUSY
                 then try_tm_loop hw retries
                 else if status AND RTE_XABORT_RETRY = 0 then 0
                 else try_tm_loop hw retries)"

definition rte_try_tm :: "bool \<Rightarrow> (nat \<Rightarrow> u32 \<times> u32) \<Rightarrow> int" where
  "rte_try_tm rtm_supported hw =
     (if \<not> rtm_supported then 0 else try_tm_loop hw RTE_RTM_MAX_RETRIES)"

text \<open>Taking a lock leaves it held, or leaves it alone inside a transaction.\<close>

datatype 'a tm_lock = In_transaction 'a | Lock_held 'a
datatype 'a tm_unlock = Xend 'a | Unlocked 'a

definition rte_spinlock_lock_tm ::
    "bool \<Rightarrow> (nat \<Rightarrow> u32 \<times> u32) \<Rightarrow> rte_spinlock_t \<Rightarrow> rte_spinlock_t tm_lock option" where
  "rte_spinlock_lock_tm rtm hw sl =
     (if rte_try_tm rtm hw \<noteq> 0 then Some (In_transaction sl)
      else map_option Lock_held (rte_spinlock_lock sl))"

definition rte_spinlock_trylock_tm ::
    "bool \<Rightarrow> (nat \<Rightarrow> u32 \<times> u32) \<Rightarrow> rte_spinlock_t \<Rightarrow> int \<times> rte_spinlock_t tm_lock" where
  "rte_spinlock_trylock_tm rtm hw sl =
     (if rte_try_tm rtm hw \<noteq> 0 then (1, In_transaction sl)
      else let (ok, sl) = rte_spinlock_trylock sl in (ok, Lock_held sl))"

definition rte_spinlock_unlock_tm :: "rte_spinlock_t \<Rightarrow> rte_spinlock_t tm_unlock" where
  "rte_spinlock_unlock_tm sl = (if sl \<noteq> 0 then Unlocked (rte_spinlock_unlock sl) else Xend sl)"

definition rte_spinlock_recursive_lock_tm ::
    "bool \<Rightarrow> (nat \<Rightarrow> u32 \<times> u32) \<Rightarrow> int \<Rightarrow> rte_spinlock_recursive_t \<Rightarrow>
     rte_spinlock_recursive_t tm_lock option" where
  "rte_spinlock_recursive_lock_tm rtm hw tid slr =
     (if rte_try_tm rtm hw \<noteq> 0 then Some (In_transaction slr)
      else map_option Lock_held (rte_spinlock_recursive_lock tid slr))"

definition rte_spinlock_recursive_trylock_tm ::
    "bool \<Rightarrow> (nat \<Rightarrow> u32 \<times> u32) \<Rightarrow> int \<Rightarrow> rte_spinlock_recursive_t \<Rightarrow>
     int \<times> rte_spinlock_recursive_t tm_lock" where
  "rte_spinlock_recursive_trylock_tm rtm hw tid slr =
     (if rte_try_tm rtm hw \<noteq> 0 then (1, In_transaction slr)
      else let (ok, slr) = rte_spinlock_recursive_trylock tid slr in (ok, Lock_held slr))"

definition rte_spinlock_recursive_unlock_tm ::
    "rte_spinlock_recursive_t \<Rightarrow> rte_spinlock_recursive_t tm_unlock" where
  "rte_spinlock_recursive_unlock_tm slr =
     (if slr_sl slr \<noteq> 0 then Unlocked (rte_spinlock_recursive_unlock slr) else Xend slr)"

definition rte_rwlock_read_lock_tm ::
    "bool \<Rightarrow> (nat \<Rightarrow> u32 \<times> u32) \<Rightarrow> rte_rwlock_t \<Rightarrow> rte_rwlock_t tm_lock option" where
  "rte_rwlock_read_lock_tm rtm hw rwl =
     (if rte_try_tm rtm hw \<noteq> 0 then Some (In_transaction rwl)
      else map_option Lock_held (rte_rwlock_read_lock rwl))"

definition rte_rwlock_read_unlock_tm :: "rte_rwlock_t \<Rightarrow> rte_rwlock_t tm_unlock" where
  "rte_rwlock_read_unlock_tm rwl = (if rwl \<noteq> 0 then Unlocked (rte_rwlock_read_unlock rwl) else Xend rwl)"

definition rte_rwlock_write_lock_tm ::
    "bool \<Rightarrow> (nat \<Rightarrow> u32 \<times> u32) \<Rightarrow> rte_rwlock_t \<Rightarrow> rte_rwlock_t tm_lock option" where
  "rte_rwlock_write_lock_tm rtm hw rwl =
     (if rte_try_tm rtm hw \<noteq> 0 then Some (In_transaction rwl)
      else map_option Lock_held (rte_rwlock_write_lock rwl))"

definition rte_rwlock_write_unlock_tm :: "rte_rwlock_t \<Rightarrow> rte_rwlock_t tm_unlock" where
  "rte_rwlock_write_unlock_tm rwl = (if rwl \<noteq> 0 then Unlocked (rte_rwlock_write_unlock rwl) else Xend rwl)"

subsection \<open>The locks of vpn/com_lib/lock_lib\<close>

text \<open>
  \<open>compare_exchange_weak\<close> may fail without cause; \<open>spurious\<close> lists whether each attempt does.  The
  result is the answer, the new \<open>expected\<close> and the cell.
\<close>

definition compare_exchange_weak :: "bool \<Rightarrow> u32 \<Rightarrow> u32 \<Rightarrow> u32 \<Rightarrow> bool \<times> u32 \<times> u32" where
  "compare_exchange_weak fails cell expected desired =
     (if cell = expected \<and> \<not> fails then (True, expected, desired) else (False, cell, cell))"

definition next_fails :: "bool list \<Rightarrow> bool" where
  "next_fails spurious = (case spurious of [] \<Rightarrow> False | b # _ \<Rightarrow> b)"

partial_function (option) load_not_negative :: "u32 \<Rightarrow> u32 option" where
  "load_not_negative cell = (let expected = cell in if sint expected < 0 then load_not_negative cell else Some expected)"

partial_function (option) sh_rwlock_lock_read :: "bool list \<Rightarrow> u32 \<Rightarrow> u32 option" where
  "sh_rwlock_lock_read spurious cell = do {
     expected \<leftarrow> load_not_negative cell;
     (let (ok, _, cell) = compare_exchange_weak (next_fails spurious) cell expected (expected + 1)
      in if ok then Some cell else sh_rwlock_lock_read (tl spurious) cell) }"

definition sh_rwlock_unlock_read :: "u32 \<Rightarrow> u32" where
  "sh_rwlock_unlock_read cell = snd (sync_fetch_and_sub cell 1)"

partial_function (option) sh_rwlock_lock_write :: "bool list \<Rightarrow> u32 \<Rightarrow> u32 option" where
  "sh_rwlock_lock_write spurious cell =
     (let expected = 0;
          (ok, _, cell) = compare_exchange_weak (next_fails spurious) cell expected (- 1)
      in if ok then Some cell else sh_rwlock_lock_write (tl spurious) cell)"

definition sh_rwlock_unlock_write :: "u32 \<Rightarrow> u32" where
  "sh_rwlock_unlock_write cell = 0"

text \<open>\<open>atomic_flag\<close>: \<open>test_and_set\<close> gives the old flag.\<close>

definition flag_test_and_set :: "bool \<Rightarrow> bool \<times> bool" where
  "flag_test_and_set flag = (flag, True)"

partial_function (option) sh_spinlock_lock :: "bool \<Rightarrow> bool option" where
  "sh_spinlock_lock flag =
     (let (old, flag) = flag_test_and_set flag in if old then sh_spinlock_lock flag else Some flag)"

definition sh_spinlock_unlock :: "bool \<Rightarrow> bool" where
  "sh_spinlock_unlock flag = False"

subsection \<open>What a single call does\<close>

lemma sint_zero_le: "0 \<le> sint (w :: u32) \<longleftrightarrow> unat w < 2 ^ 31"
proof
  assume s: "0 \<le> sint w"
  have "take_bit 32 (sint w) = sint w"
    using s sint_lt [of w] by (simp add: take_bit_int_eq_self)
  then have "uint w = sint w" by (simp add: uint_sint)
  then show "unat w < 2 ^ 31" using sint_lt [of w] by (simp add: unat_eq_nat_uint nat_less_iff)
next
  assume "unat w < 2 ^ 31"
  then show "0 \<le> sint w" by (subst sint_eq_unat) simp_all
qed

lemma read_lock_free:
  "0 \<le> sint cnt \<Longrightarrow> cnt \<noteq> INT32_MAX \<Longrightarrow> rte_rwlock_read_lock cnt = Some (cnt + 1)"
  by (subst rte_rwlock_read_lock.simps)
    (simp add: Let_def rte_atomic32_cmpset_def sync_bool_compare_and_swap_def)

lemma write_lock_free: "rte_rwlock_write_lock 0 = Some (- 1)"
  by (subst rte_rwlock_write_lock.simps)
    (simp add: Let_def rte_atomic32_cmpset_def sync_bool_compare_and_swap_def)

lemma read_lock_waits:
  assumes "sint cnt < 0"
  shows "rte_rwlock_read_lock cnt = None"
proof -
  have "\<not> sint cnt < 0" if "rte_rwlock_read_lock cnt = Some y" for y
    by (rule rte_rwlock_read_lock.raw_induct [where P = "\<lambda>cnt y. \<not> sint cnt < 0", OF _ that])
      (fastforce split: if_splits)
  then show ?thesis using assms by fastforce
qed

lemma write_lock_waits:
  assumes "cnt \<noteq> 0"
  shows "rte_rwlock_write_lock cnt = None"
proof -
  have "cnt = 0" if "rte_rwlock_write_lock cnt = Some y" for y
    by (rule rte_rwlock_write_lock.raw_induct [where P = "\<lambda>cnt y. cnt = 0", OF _ that])
      (fastforce split: if_splits)
  then show ?thesis using assms by fastforce
qed

lemma read_lock_eq:
  "rte_rwlock_read_lock cnt = (if 0 \<le> sint cnt \<and> cnt \<noteq> INT32_MAX then Some (cnt + 1) else None)"
proof (cases "cnt = INT32_MAX")
  case True
  then have "\<not> sint cnt < 0" by (simp add: INT32_MAX_def)
  then show ?thesis using True by (subst rte_rwlock_read_lock.simps) simp
next
  case False
  then show ?thesis using read_lock_free [of cnt] read_lock_waits [of cnt] by auto
qed

lemma write_lock_eq: "rte_rwlock_write_lock cnt = (if cnt = 0 then Some (- 1) else None)"
  using write_lock_free write_lock_waits by simp

lemma wait_unlocked_eq: "wait_unlocked locked = (if locked = 0 then Some () else None)"
proof (cases "locked = 0")
  case True
  then show ?thesis by (subst wait_unlocked.simps) simp
next
  case False
  have "locked = 0" if "wait_unlocked locked = Some y" for y
    by (rule wait_unlocked.raw_induct [where P = "\<lambda>locked y. locked = 0", OF _ that])
      (fastforce split: if_splits)
  then show ?thesis using False by (cases "wait_unlocked locked") auto
qed

lemma spinlock_asm_2_eq: "spinlock_asm_2 locked = (if locked = 0 then Some () else None)"
proof (cases "locked = 0")
  case True
  then show ?thesis by (subst spinlock_asm_2.simps) simp
next
  case False
  have "locked = 0" if "spinlock_asm_2 locked = Some y" for y
    by (rule spinlock_asm_2.raw_induct [where P = "\<lambda>locked y. locked = 0", OF _ that])
      (fastforce split: if_splits)
  then show ?thesis using False by (cases "spinlock_asm_2 locked") auto
qed

lemma spinlock_lock_eq: "rte_spinlock_lock locked = (if locked = 0 then Some 1 else None)"
  by (subst rte_spinlock_lock.simps) (simp add: atomic_exchange_n_def wait_unlocked_eq)

lemma spinlock_lock_x86_eq: "rte_spinlock_lock_x86 locked = (if locked = 0 then Some 1 else None)"
  by (subst rte_spinlock_lock_x86.simps) (simp add: lock_xchg_def spinlock_asm_2_eq)

lemma load_not_negative_eq: "load_not_negative cell = (if 0 \<le> sint cell then Some cell else None)"
proof (cases "0 \<le> sint cell")
  case True
  then show ?thesis by (subst load_not_negative.simps) simp
next
  case False
  have "0 \<le> sint cell" if "load_not_negative cell = Some y" for y
    by (rule load_not_negative.raw_induct [where P = "\<lambda>cell y. 0 \<le> sint cell", OF _ that])
      (fastforce simp: Let_def split: if_splits)
  then show ?thesis using False by fastforce
qed

lemma sh_lock_read_eq:
  "sh_rwlock_lock_read spurious cell = (if 0 \<le> sint cell then Some (cell + 1) else None)"
proof (induction spurious)
  case Nil
  show ?case
    by (subst sh_rwlock_lock_read.simps)
      (simp add: load_not_negative_eq compare_exchange_weak_def next_fails_def)
next
  case (Cons b spurious)
  then show ?case
    by (subst sh_rwlock_lock_read.simps)
      (simp add: load_not_negative_eq compare_exchange_weak_def next_fails_def)
qed

lemma sh_lock_write_free: "sh_rwlock_lock_write spurious 0 = Some (- 1)"
proof (induction spurious)
  case Nil
  show ?case
    by (subst sh_rwlock_lock_write.simps) (simp add: compare_exchange_weak_def next_fails_def)
next
  case (Cons b spurious)
  then show ?case
    by (subst sh_rwlock_lock_write.simps) (simp add: compare_exchange_weak_def next_fails_def)
qed

lemma sh_lock_write_eq: "sh_rwlock_lock_write spurious cell = (if cell = 0 then Some (- 1) else None)"
proof (cases "cell = 0")
  case True
  then show ?thesis by (simp add: sh_lock_write_free)
next
  case False
  have "cell = 0" if "sh_rwlock_lock_write spurious cell = Some y" for y
    by (rule sh_rwlock_lock_write.raw_induct [where P = "\<lambda>spurious cell y. cell = 0", OF _ that])
      (fastforce simp: compare_exchange_weak_def split: if_splits)
  then show ?thesis using False by fastforce
qed

lemma sh_spinlock_lock_eq: "sh_spinlock_lock flag = (if flag then None else Some True)"
proof (cases flag)
  case True
  have "\<not> flag" if "sh_spinlock_lock flag = Some y" for y
    by (rule sh_spinlock_lock.raw_induct [where P = "\<lambda>flag y. \<not> flag", OF _ that])
      (fastforce simp: flag_test_and_set_def split: if_splits)
  then show ?thesis using True by fastforce
next
  case False
  then show ?thesis by (subst sh_spinlock_lock.simps) (simp add: flag_test_and_set_def)
qed

subsection \<open>The interface of a lock\<close>

locale mutex =
  fixes lock :: "'l \<Rightarrow> 'l option"
    and unlock :: "'l \<Rightarrow> 'l"
    and free_lock :: "'l \<Rightarrow> bool"
  assumes lock_free: "free_lock l \<Longrightarrow> \<exists>l'. lock l = Some l' \<and> \<not> free_lock l' \<and> free_lock (unlock l')"
    and lock_held: "\<not> free_lock l \<Longrightarrow> lock l = None"

text \<open>A critical section: what the code between lock and unlock does to the data.\<close>

definition critical :: "('l \<Rightarrow> 'l option) \<Rightarrow> ('l \<Rightarrow> 'l) \<Rightarrow> ('d \<Rightarrow> 'd) \<Rightarrow> 'l \<times> 'd \<Rightarrow> ('l \<times> 'd) option" where
  "critical lock unlock body = (\<lambda>(l, d). map_option (\<lambda>l. (unlock l, body d)) (lock l))"

fun criticals :: "('l \<Rightarrow> 'l option) \<Rightarrow> ('l \<Rightarrow> 'l) \<Rightarrow> ('d \<Rightarrow> 'd) list \<Rightarrow> 'l \<times> 'd \<Rightarrow> ('l \<times> 'd) option" where
  "criticals lock unlock [] s = Some s"
| "criticals lock unlock (body # bodies) s =
     Option.bind (critical lock unlock body s) (criticals lock unlock bodies)"

context mutex
begin

lemma criticals_complete:
  "free_lock l \<Longrightarrow> \<exists>l'. criticals lock unlock bodies (l, d) = Some (l', fold (\<lambda>b. b) bodies d) \<and> free_lock l'"
proof (induction bodies arbitrary: l d)
  case (Cons body bodies)
  from lock_free [OF Cons.prems] obtain l1 where "lock l = Some l1" "free_lock (unlock l1)" by blast
  with Cons.IH [of "unlock l1" "body d"] show ?case by (simp add: critical_def)
qed simp

text \<open>Taking the lock again inside a critical section never returns.\<close>

lemma no_reentry: "lock l = Some l' \<Longrightarrow> lock l' = None"
  using lock_free [of l] lock_held by fastforce

end

interpretation spinlock: mutex rte_spinlock_lock rte_spinlock_unlock "\<lambda>l. l = 0"
  by unfold_locales (auto simp: spinlock_lock_eq rte_spinlock_unlock_def)

interpretation spinlock_x86: mutex rte_spinlock_lock_x86 rte_spinlock_unlock_x86 "\<lambda>l. l = 0"
  by unfold_locales (auto simp: spinlock_lock_x86_eq rte_spinlock_unlock_x86_def lock_xchg_def)

interpretation write_lock: mutex rte_rwlock_write_lock rte_rwlock_write_unlock "\<lambda>l. l = 0"
  by unfold_locales (auto simp: write_lock_eq rte_rwlock_write_unlock_def rte_atomic32_defs builtin_defs)

interpretation sh_spinlock: mutex sh_spinlock_lock sh_spinlock_unlock "\<lambda>l. \<not> l"
  by unfold_locales (auto simp: sh_spinlock_lock_eq sh_spinlock_unlock_def)

interpretation sh_write_lock: mutex "sh_rwlock_lock_write spurious" sh_rwlock_unlock_write "\<lambda>l. l = 0"
  for spurious
  by unfold_locales (auto simp: sh_lock_write_eq sh_rwlock_unlock_write_def)

subsection \<open>The properties of single calls\<close>

text \<open>
  \<open>rte_rwlock\<close>: a read lock is taken exactly when no writer holds the lock (and the reader count has
  room), a write lock exactly when nobody does; every other call never returns, and an unlock restores
  the count.
\<close>

theorem rte_rwlock_calls:
  "rte_rwlock_read_lock cnt = (if 0 \<le> sint cnt \<and> cnt \<noteq> INT32_MAX then Some (cnt + 1) else None) \<and>
   rte_rwlock_write_lock cnt = (if cnt = 0 then Some (- 1) else None) \<and>
   rte_rwlock_read_unlock (cnt + 1) = cnt \<and> rte_rwlock_write_unlock (- 1) = rte_rwlock_init cnt"
  by (simp add: read_lock_eq write_lock_eq rte_rwlock_read_unlock_def rte_rwlock_write_unlock_def
      rte_rwlock_init_def rte_atomic32_defs builtin_defs)

text \<open>
  The x86 assembly of the spinlock does what the portable version does, for lock, unlock and
  trylock and every value of the cell: the lock is taken at once when it is free, a trylock of a held
  lock fails and leaves it held, and locking a held lock spins for ever.
\<close>

theorem rte_spinlock_x86_equiv:
  "rte_spinlock_lock_x86 locked = rte_spinlock_lock locked \<and>
   rte_spinlock_unlock_x86 locked = rte_spinlock_unlock locked \<and>
   rte_spinlock_trylock_x86 locked = rte_spinlock_trylock locked \<and>
   rte_spinlock_lock locked = (if rte_spinlock_is_locked locked = 0 then Some 1 else None) \<and>
   rte_spinlock_trylock locked = (c_bool (rte_spinlock_is_locked locked = 0), 1)"
  by (simp add: spinlock_lock_eq spinlock_lock_x86_eq rte_spinlock_unlock_x86_def rte_spinlock_unlock_def
      rte_spinlock_trylock_x86_def rte_spinlock_trylock_def lock_xchg_def atomic_exchange_n_def
      rte_spinlock_is_locked_def)

text \<open>
  With each of the locks any sequence of critical sections returns, has run every body once and in
  order, and leaves the lock free: no lock call of the sequence is left waiting.
\<close>

theorem critical_sections_complete:
  "(\<exists>l. criticals rte_spinlock_lock rte_spinlock_unlock bodies (RTE_SPINLOCK_INITIALIZER, d) =
      Some (l, fold (\<lambda>b. b) bodies d) \<and> l = 0) \<and>
   (\<exists>l. criticals rte_spinlock_lock_x86 rte_spinlock_unlock_x86 bodies (RTE_SPINLOCK_INITIALIZER, d) =
      Some (l, fold (\<lambda>b. b) bodies d) \<and> l = 0) \<and>
   (\<exists>l. criticals rte_rwlock_write_lock rte_rwlock_write_unlock bodies (RTE_RWLOCK_INITIALIZER, d) =
      Some (l, fold (\<lambda>b. b) bodies d) \<and> l = 0) \<and>
   (\<exists>l. criticals sh_spinlock_lock sh_spinlock_unlock bodies (False, d) =
      Some (l, fold (\<lambda>b. b) bodies d) \<and> \<not> l) \<and>
   (\<exists>l. criticals (sh_rwlock_lock_write spurious) sh_rwlock_unlock_write bodies (0, d) =
      Some (l, fold (\<lambda>b. b) bodies d) \<and> l = 0)"
  unfolding RTE_SPINLOCK_INITIALIZER_def RTE_RWLOCK_INITIALIZER_def
  by (intro conjI spinlock.criticals_complete spinlock_x86.criticals_complete
      write_lock.criticals_complete sh_spinlock.criticals_complete sh_write_lock.criticals_complete refl) simp

lemma try_tm_loop_started: "try_tm_loop hw n \<noteq> 0 \<Longrightarrow> \<exists>i<n. hw i = (RTE_XBEGIN_STARTED, 0)"
proof (induction n)
  case (Suc n)
  obtain status lock where hw: "hw n = (status, lock)" by fastforce
  show ?case
  proof (cases "status = RTE_XBEGIN_STARTED \<and> lock = 0")
    case True
    then show ?thesis using hw by blast
  next
    case False
    then have "try_tm_loop hw n \<noteq> 0"
      using Suc.prems hw by (auto simp: Let_def split: if_splits)
    then show ?thesis using Suc.IH less_Suc_eq by blast
  qed
qed simp

text \<open>
  A lock taken by a hardware transaction or for real is released the way it was taken: when
  the processor shows transactions the lock's true value, elision happens only on a free lock and the
  unlock commits the transaction; otherwise the unlock restores the lock.
\<close>

theorem rte_tm_unlock_undoes_lock:
  assumes "\<forall>i. snd (hw i) = lk"
  shows "(case rte_spinlock_lock_tm rtm hw lk of None \<Rightarrow> lk \<noteq> 0
          | Some (In_transaction l) \<Rightarrow> rtm \<and> l = 0 \<and> rte_spinlock_unlock_tm l = Xend lk
          | Some (Lock_held l) \<Rightarrow> l \<noteq> 0 \<and> rte_spinlock_unlock_tm l = Unlocked lk) \<and>
    (case rte_rwlock_read_lock_tm rtm hw lk of None \<Rightarrow> sint lk < 0 \<or> lk = INT32_MAX
          | Some (In_transaction l) \<Rightarrow> rtm \<and> l = 0 \<and> rte_rwlock_read_unlock_tm l = Xend lk
          | Some (Lock_held l) \<Rightarrow> 0 < sint l \<and> rte_rwlock_read_unlock_tm l = Unlocked lk) \<and>
    (case rte_rwlock_write_lock_tm rtm hw lk of None \<Rightarrow> lk \<noteq> 0
          | Some (In_transaction l) \<Rightarrow> rtm \<and> l = 0 \<and> rte_rwlock_write_unlock_tm l = Xend lk
          | Some (Lock_held l) \<Rightarrow> l = - 1 \<and> rte_rwlock_write_unlock_tm l = Unlocked lk)"
proof -
  have tm: "rtm \<and> lk = 0" if "rte_try_tm rtm hw \<noteq> 0"
    using that assms try_tm_loop_started [of hw RTE_RTM_MAX_RETRIES] unfolding rte_try_tm_def
    by (metis snd_conv)
  have pos: "0 < sint (lk + 1) \<and> lk + 1 \<noteq> 0" if "\<not> sint lk < 0" "lk \<noteq> INT32_MAX"
  proof -
    have "unat lk < 2 ^ 31" using that(1) sint_zero_le [of lk] by simp
    moreover have "unat lk \<noteq> 2 ^ 31 - 1"
      using that(2) by (auto simp: INT32_MAX_def word_unat_eq_iff)
    ultimately have "unat lk + 1 < 2 ^ 31" by simp
    then have "unat (lk + 1) = unat lk + 1" using unat_add_no_wrap [of lk 1] by simp
    moreover from this have "sint (lk + 1) = int (unat lk + 1)"
      using \<open>unat lk + 1 < 2 ^ 31\<close> by (subst sint_eq_unat) simp_all
    ultimately show ?thesis by (auto simp del: of_nat_unat simp: word_unat_eq_iff)
  qed
  note unlock_defs = rte_rwlock_read_unlock_def rte_rwlock_write_unlock_def rte_spinlock_unlock_def
    rte_atomic32_defs builtin_defs
  show ?thesis
  proof (cases "rte_try_tm rtm hw \<noteq> 0")
    case True
    then show ?thesis
      using tm by (simp add: rte_spinlock_lock_tm_def rte_spinlock_unlock_tm_def rte_rwlock_read_lock_tm_def
          rte_rwlock_read_unlock_tm_def rte_rwlock_write_lock_tm_def rte_rwlock_write_unlock_tm_def)
  next
    case False
    then show ?thesis
      using pos by (auto simp: rte_spinlock_lock_tm_def rte_spinlock_unlock_tm_def
          rte_rwlock_read_lock_tm_def rte_rwlock_read_unlock_tm_def rte_rwlock_write_lock_tm_def
          rte_rwlock_write_unlock_tm_def spinlock_lock_eq read_lock_eq write_lock_eq unlock_defs)
  qed
qed

theorem rte_tm_unlock_undoes_lock_witness:
  "rte_rwlock_read_lock_tm True (\<lambda>i. (if i = 8 then RTE_XBEGIN_STARTED else 2, 0)) 0 = Some (In_transaction 0) \<and>
   rte_rwlock_read_unlock_tm 0 = Xend 0 \<and>
   rte_rwlock_read_lock_tm True (\<lambda>i. (RTE_XBEGIN_STARTED, 4)) 4 = Some (Lock_held 5) \<and>
   rte_rwlock_read_unlock_tm 5 = Unlocked 4"
proof -
  have free: "rte_rwlock_read_lock_tm True (\<lambda>i. (if i = 8 then RTE_XBEGIN_STARTED else 2, 0)) 0 =
      Some (In_transaction 0)"
    by (simp add: rte_rwlock_read_lock_tm_def rte_try_tm_def RTE_RTM_MAX_RETRIES_def numeral_eq_Suc
        RTE_XBEGIN_STARTED_def RTE_XABORT_EXPLICIT_def RTE_XABORT_RETRY_def Let_def)
  have held: "rte_rwlock_read_lock_tm True (\<lambda>i. (RTE_XBEGIN_STARTED, 4)) 4 = Some (Lock_held 5)"
  proof -
    have "try_tm_loop (\<lambda>i. (RTE_XBEGIN_STARTED, 4)) RTE_RTM_MAX_RETRIES = 0"
      using try_tm_loop_started by fastforce
    then show ?thesis
      by (simp add: rte_rwlock_read_lock_tm_def rte_try_tm_def read_lock_eq INT32_MAX_def)
  qed
  show ?thesis
    using rte_tm_unlock_undoes_lock [of "\<lambda>i. (if i = 8 then RTE_XBEGIN_STARTED else 2, 0)" 0 True]
      rte_tm_unlock_undoes_lock [of "\<lambda>i. (RTE_XBEGIN_STARTED, 4)" 4 True] free held
    by simp
qed

end
