(* ===== verification/Lock_Protocols.thy ===== *)
theory Lock_Protocols
  imports Rte_Locks Interleaving
begin

text \<open>
  The locks used by many threads at once.  Each thread is at a program counter inside one of the lock
  functions; a step lets one thread make one access to the shared cell, with the atomic operation the
  code uses, and threads step in any order.  The invariants say what the cell's value means, and mutual
  exclusion follows for every reachable state.  Threads follow the protocol: they release what they
  hold, in the mode they took it.
\<close>

subsection \<open>The read-write lock\<close>

text \<open>
  In \<open>rte_rwlock_read_lock\<close> a thread is about to load the count (\<open>R_load\<close>) or to swap it, knowing the
  value it loaded (\<open>R_cas\<close>); the same for \<open>rte_rwlock_write_lock\<close>.
\<close>

datatype rw_pc = Rw_out | R_load | R_cas u32 | Reading | W_load | W_cas | Writing

text \<open>The reader's \<open>x + 1\<close> stays defined while fewer than 2^31 - 1 threads exist.\<close>

inductive rw_act :: "rte_rwlock_t \<Rightarrow> rw_pc \<Rightarrow> rte_rwlock_t \<Rightarrow> rw_pc \<Rightarrow> bool" where
  call_read: "rw_act cnt Rw_out cnt R_load"
| read_pause: "sint cnt < 0 \<Longrightarrow> rw_act cnt R_load cnt R_load"
| read_load: "\<not> sint cnt < 0 \<Longrightarrow> rw_act cnt R_load cnt (R_cas cnt)"
| read_cas: "rte_atomic32_cmpset cnt x (x + 1) = (success, cnt') \<Longrightarrow>
    rw_act cnt (R_cas x) cnt' (if success = 0 then R_load else Reading)"
| read_done: "rw_act cnt Reading (rte_rwlock_read_unlock cnt) Rw_out"
| call_write: "rw_act cnt Rw_out cnt W_load"
| write_pause: "cnt \<noteq> 0 \<Longrightarrow> rw_act cnt W_load cnt W_load"
| write_load: "\<not> cnt \<noteq> 0 \<Longrightarrow> rw_act cnt W_load cnt W_cas"
| write_cas: "rte_atomic32_cmpset cnt 0 (- 1) = (success, cnt') \<Longrightarrow>
    rw_act cnt W_cas cnt' (if success = 0 then W_load else Writing)"
| write_done: "rw_act cnt Writing (rte_rwlock_write_unlock cnt) Rw_out"

inductive_cases rw_actE: "rw_act cnt p cnt' p'"

text \<open>The count is -1 with one writer and no reader, or the number of readers with no writer.\<close>

definition rw_inv :: "rte_rwlock_t \<times> rw_pc list \<Rightarrow> bool" where
  "rw_inv = (\<lambda>(cnt, ps). length ps < 2 ^ 31 \<and> (\<forall>x. R_cas x \<in> set ps \<longrightarrow> 0 \<le> sint x) \<and>
     (at Writing ps = 0 \<and> cnt = of_nat (at Reading ps) \<or>
      at Writing ps = 1 \<and> at Reading ps = 0 \<and> cnt = - 1))"

definition rw_exclusive :: "rw_pc list \<Rightarrow> bool" where
  "rw_exclusive ps \<longleftrightarrow> at Writing ps = 0 \<or> at Writing ps = 1 \<and> at Reading ps = 0"

lemma rw_inv_cnt:
  assumes "rw_inv (cnt, ps)"
  shows "0 \<le> sint cnt \<longleftrightarrow> at Writing ps = 0" "cnt = 0 \<longleftrightarrow> at Writing ps = 0 \<and> at Reading ps = 0"
proof -
  have "at Reading ps < 2 ^ 31" using assms at_le [of Reading Writing ps] by (simp add: rw_inv_def)
  then have u: "unat (of_nat (at Reading ps) :: u32) = at Reading ps" by (intro unat_of_nat_small) simp
  show "0 \<le> sint cnt \<longleftrightarrow> at Writing ps = 0"
  proof (cases "at Writing ps = 0")
    case True
    then show ?thesis using assms u \<open>at Reading ps < 2 ^ 31\<close> by (auto simp: rw_inv_def sint_zero_le)
  next
    case False
    then have "cnt = - 1" using assms by (simp add: rw_inv_def)
    then have "sint cnt = - 1" by simp
    then show ?thesis using False by simp
  qed
  show "cnt = 0 \<longleftrightarrow> at Writing ps = 0 \<and> at Reading ps = 0"
  proof (cases "at Writing ps = 0")
    case True
    then have "unat cnt = at Reading ps" using assms u by (simp add: rw_inv_def)
    then show ?thesis using True by (simp add: unat_eq_zero [symmetric])
  next
    case False
    then have "cnt = - 1" using assms by (simp add: rw_inv_def)
    then show ?thesis using False by simp
  qed
qed

lemma rw_preserved:
  assumes inv: "rw_inv (cnt, ps)" and i: "i < length ps" and act: "rw_act cnt (ps ! i) cnt' p"
  shows "rw_inv (cnt', ps[i := p])"
proof -
  note cnt = rw_inv_cnt [OF inv]
  have set: "set (ps[i := p]) \<subseteq> insert p (set ps)" by (rule set_update_subset_insert)
  have cas: "0 \<le> sint x" if "R_cas x \<in> set (ps[i := p])" for x
  proof (cases "R_cas x \<in> set ps")
    case True
    then show ?thesis using inv by (simp add: rw_inv_def)
  next
    case False
    then have "p = R_cas x" using set that by blast
    then show ?thesis using act by (auto elim: rw_act.cases split: if_splits)
  qed
  have R: "at Reading (ps[i := p]) + (if ps ! i = Reading then 1 else 0) =
      at Reading ps + (if p = Reading then 1 else 0)"
    and W: "at Writing (ps[i := p]) + (if ps ! i = Writing then 1 else 0) =
      at Writing ps + (if p = Writing then 1 else 0)"
    using i by (simp_all only: at_update)
  have pos: "0 < at (ps ! i) ps" using i by (rule at_pos)
  have old: "at Writing ps = 0 \<and> cnt = of_nat (at Reading ps) \<or>
      at Writing ps = 1 \<and> at Reading ps = 0 \<and> cnt = - 1" using inv by (simp add: rw_inv_def)
  from act have "at Writing (ps[i := p]) = 0 \<and> cnt' = of_nat (at Reading (ps[i := p])) \<or>
      at Writing (ps[i := p]) = 1 \<and> at Reading (ps[i := p]) = 0 \<and> cnt' = - 1"
  proof cases
    case (read_cas x success)
    have x: "0 \<le> sint x" using inv read_cas(1) i unfolding rw_inv_def by (metis (no_types, lifting) case_prodD nth_mem)
    show ?thesis
    proof (cases "cnt = x")
      case True
      then have "at Writing ps = 0" using cnt(1) x by simp
      then show ?thesis
        using read_cas R W old True by (auto simp: rte_atomic32_cmpset_def builtin_defs add.commute)
    next
      case False
      then show ?thesis using read_cas R W old by (auto simp: rte_atomic32_cmpset_def builtin_defs)
    qed
  next
    case read_done
    then obtain k where k: "at Reading ps = Suc k" using pos by (cases "at Reading ps") auto
    then have "at Writing ps = 0" "cnt = of_nat (Suc k)" using old by auto
    then show ?thesis
      using read_done R W k
      by (simp add: rte_rwlock_read_unlock_def rte_atomic32_defs builtin_defs)
  next
    case (write_cas success)
    then show ?thesis
      using R W old cnt(2) by (auto simp: rte_atomic32_cmpset_def builtin_defs split: if_splits)
  next
    case write_done
    then have "at Writing ps = 1" "at Reading ps = 0" "cnt = - 1" using pos old by auto
    then show ?thesis
      using write_done R W
      by (simp add: rte_rwlock_write_unlock_def rte_atomic32_defs builtin_defs)
  qed (use R W old in auto)
  with inv cas show ?thesis by (simp add: rw_inv_def)
qed

interpretation rwlock: protocol rw_act rw_inv rw_exclusive
  by unfold_locales (auto simp: rw_preserved, auto simp: rw_inv_def rw_exclusive_def)

subsection \<open>The read-write lock of vpn/com_lib/lock_lib\<close>

text \<open>
  \<open>sh_rwlock\<close> swaps with \<open>compare_exchange_weak\<close>, which may fail without cause and gives the current value
  back, and a writer leaves by storing 0.
\<close>

inductive sh_rw_act :: "u32 \<Rightarrow> rw_pc \<Rightarrow> u32 \<Rightarrow> rw_pc \<Rightarrow> bool" where
  sh_call_read: "sh_rw_act cell Rw_out cell R_load"
| sh_read_wait: "sint cell < 0 \<Longrightarrow> sh_rw_act cell R_load cell R_load"
| sh_read_load: "\<not> sint cell < 0 \<Longrightarrow> sh_rw_act cell R_load cell (R_cas cell)"
| sh_read_cas: "compare_exchange_weak fails cell x (x + 1) = (ok, x', cell') \<Longrightarrow>
    sh_rw_act cell (R_cas x) cell' (if ok then Reading else R_load)"
| sh_read_done: "sh_rw_act cell Reading (sh_rwlock_unlock_read cell) Rw_out"
| sh_call_write: "sh_rw_act cell Rw_out cell W_cas"
| sh_write_cas: "compare_exchange_weak fails cell 0 (- 1) = (ok, x', cell') \<Longrightarrow>
    sh_rw_act cell W_cas cell' (if ok then Writing else W_cas)"
| sh_write_done: "sh_rw_act cell Writing (sh_rwlock_unlock_write cell) Rw_out"

text \<open>Each of its steps is a step of \<open>rte_rwlock\<close>, or leaves the cell alone and does not acquire.\<close>

lemma rw_cas_succeeds: "rw_act x (R_cas x) (x + 1) Reading" "rw_act 0 W_cas (- 1) Writing"
  using rw_act.read_cas [of x x 1 "x + 1"] rw_act.write_cas [of 0 1 "- 1"]
  by (simp_all add: rte_atomic32_cmpset_def sync_bool_compare_and_swap_def)

lemma sh_rw_act_cases:
  assumes "sh_rw_act cell p cell' p'" "rw_inv (cell, ps)" "p \<in> set ps"
  shows "rw_act cell p cell' p' \<or>
    cell' = cell \<and> p \<notin> {Reading, Writing} \<and> p' \<in> {R_load, W_load, W_cas}"
  using assms(1)
proof cases
  case (sh_read_cas fails x ok x')
  then show ?thesis
    by (auto simp: compare_exchange_weak_def rw_cas_succeeds split: if_splits)
next
  case (sh_write_cas fails ok x')
  then show ?thesis
    by (auto simp: compare_exchange_weak_def rw_cas_succeeds split: if_splits)
next
  case sh_read_done
  then show ?thesis
    using rw_act.read_done [of cell]
    by (simp add: sh_rwlock_unlock_read_def rte_rwlock_read_unlock_def rte_atomic32_defs)
next
  case sh_write_done
  then have "0 < at Writing ps" using assms(3) at_zero_iff [of Writing ps] by auto
  then have "cell = - 1" using assms(2) by (auto simp: rw_inv_def)
  then show ?thesis
    using sh_write_done rw_act.write_done [of cell]
    by (simp add: sh_rwlock_unlock_write_def rte_rwlock_write_unlock_def rte_atomic32_defs builtin_defs)
qed (auto intro: rw_act.intros)

lemma rw_inv_still:
  assumes "rw_inv (cell, ps)" "i < length ps" "ps ! i \<notin> {Reading, Writing}" "p \<in> {R_load, W_load, W_cas}"
  shows "rw_inv (cell, ps[i := p])"
proof -
  have "at Reading (ps[i := p]) = at Reading ps" "at Writing (ps[i := p]) = at Writing ps"
    using assms(2-4) at_update [of i ps Reading p] at_update [of i ps Writing p] by auto
  moreover have "R_cas x \<in> set ps" if "R_cas x \<in> set (ps[i := p])" for x
    using set_update_subset_insert [of ps i p] that assms(4) by auto
  ultimately show ?thesis using assms(1) by (auto simp: rw_inv_def)
qed

interpretation sh_rwlock: protocol sh_rw_act rw_inv rw_exclusive
proof (unfold_locales, goal_cases)
  case (1 m ps i m' p)
  then have "rw_act m (ps ! i) m' p \<or> m' = m \<and> ps ! i \<notin> {Reading, Writing} \<and> p \<in> {R_load, W_load, W_cas}"
    by (intro sh_rw_act_cases) auto
  then show ?case
  proof
    assume "rw_act m (ps ! i) m' p"
    then show ?thesis by (rule rw_preserved [OF 1(1,2)])
  next
    assume "m' = m \<and> ps ! i \<notin> {Reading, Writing} \<and> p \<in> {R_load, W_load, W_cas}"
    then show ?thesis using rw_inv_still [OF 1(1,2)] by blast
  qed
next
  case (2 m ps)
  then show ?case by (auto simp: rw_inv_def rw_exclusive_def)
qed

subsection \<open>The spinlocks\<close>

text \<open>
  A thread of \<open>rte_spinlock\<close> swaps a 1 in (\<open>Sp_swap\<close>, also for a trylock), or waits for a 0
  (\<open>Sp_wait\<close>).
\<close>

datatype sp_pc = Sp_out | Sp_swap | Sp_try | Sp_wait | Sp_in

inductive sp_act :: "rte_spinlock_t \<Rightarrow> sp_pc \<Rightarrow> rte_spinlock_t \<Rightarrow> sp_pc \<Rightarrow> bool" where
  sp_call: "sp_act l Sp_out l Sp_swap"
| sp_swap: "atomic_exchange_n l 1 = (old, l') \<Longrightarrow> sp_act l Sp_swap l' (if old \<noteq> 0 then Sp_wait else Sp_in)"
| sp_wait: "l \<noteq> 0 \<Longrightarrow> sp_act l Sp_wait l Sp_wait"
| sp_again: "\<not> l \<noteq> 0 \<Longrightarrow> sp_act l Sp_wait l Sp_swap"
| sp_call_try: "sp_act l Sp_out l Sp_try"
| sp_try: "rte_spinlock_trylock l = (ok, l') \<Longrightarrow> sp_act l Sp_try l' (if ok \<noteq> 0 then Sp_in else Sp_out)"
| sp_done: "sp_act l Sp_in (rte_spinlock_unlock l) Sp_out"

definition sp_inv :: "rte_spinlock_t \<times> sp_pc list \<Rightarrow> bool" where
  "sp_inv = (\<lambda>(l, ps). l = 0 \<and> at Sp_in ps = 0 \<or> l = 1 \<and> at Sp_in ps = 1)"

definition sp_exclusive :: "sp_pc list \<Rightarrow> bool" where
  "sp_exclusive ps \<longleftrightarrow> at Sp_in ps \<le> 1"

lemma sp_preserved:
  assumes inv: "sp_inv (l, ps)" and i: "i < length ps" and act: "sp_act l (ps ! i) l' p"
  shows "sp_inv (l', ps[i := p])"
proof -
  note count = at_update [OF i, of Sp_in p] and pos = at_pos [OF i]
  from act show ?thesis
    by cases (use inv count pos in \<open>auto simp: sp_inv_def atomic_exchange_n_def rte_spinlock_trylock_def
        c_bool_def rte_spinlock_unlock_def split: if_splits\<close>)
qed

interpretation spin_protocol: protocol sp_act sp_inv sp_exclusive
  by unfold_locales (auto simp: sp_preserved, auto simp: sp_inv_def sp_exclusive_def)

text \<open>\<open>sh_spinlock\<close> swaps until the old flag is clear.\<close>

inductive sh_sp_act :: "bool \<Rightarrow> sp_pc \<Rightarrow> bool \<Rightarrow> sp_pc \<Rightarrow> bool" where
  sh_sp_call: "sh_sp_act f Sp_out f Sp_swap"
| sh_sp_swap: "flag_test_and_set f = (old, f') \<Longrightarrow> sh_sp_act f Sp_swap f' (if old then Sp_swap else Sp_in)"
| sh_sp_done: "sh_sp_act f Sp_in (sh_spinlock_unlock f) Sp_out"

definition sh_sp_inv :: "bool \<times> sp_pc list \<Rightarrow> bool" where
  "sh_sp_inv = (\<lambda>(f, ps). at Sp_in ps = (if f then 1 else 0))"

lemma sh_sp_preserved:
  assumes inv: "sh_sp_inv (f, ps)" and i: "i < length ps" and act: "sh_sp_act f (ps ! i) f' p"
  shows "sh_sp_inv (f', ps[i := p])"
proof -
  note count = at_update [OF i, of Sp_in p] and pos = at_pos [OF i]
  from act show ?thesis
    by cases (use inv count pos in \<open>auto simp: sh_sp_inv_def flag_test_and_set_def sh_spinlock_unlock_def
        split: if_splits\<close>)
qed

interpretation sh_spin_protocol: protocol sh_sp_act sh_sp_inv sp_exclusive
  by unfold_locales (auto simp: sh_sp_preserved, auto simp: sh_sp_inv_def sp_exclusive_def)

subsection \<open>The recursive spinlock\<close>

text \<open>
  A thread with identifier \<open>tid\<close> holds the lock \<open>d\<close> times between calls (\<open>Rc_held d\<close>).  A lock call reads
  \<open>user\<close>; a stranger spins on the inner lock (\<open>Rc_spin\<close>), then writes \<open>user\<close> (\<open>Rc_user\<close>) and \<open>count\<close>
  (\<open>Rc_count\<close>); the owner goes straight to \<open>count\<close>.  The last unlock clears \<open>user\<close> (\<open>Rc_clear\<close>) before
  it releases the inner lock (\<open>Rc_release\<close>).
\<close>

datatype rc_pc = Rc_held nat | Rc_spin | Rc_user | Rc_count nat | Rc_clear | Rc_release

type_synonym rc_thread = "int \<times> rc_pc"

inductive rc_act :: "rte_spinlock_recursive_t \<Rightarrow> rc_thread \<Rightarrow> rte_spinlock_recursive_t \<Rightarrow> rc_thread \<Rightarrow> bool" where
  rc_call: "rc_act s (tid, Rc_held d) s (tid, if slr_user s \<noteq> tid then Rc_spin else Rc_count d)"
| rc_spin: "atomic_exchange_n (slr_sl s) 1 = (old, l) \<Longrightarrow>
    rc_act s (tid, Rc_spin) (s\<lparr>slr_sl := l\<rparr>) (tid, if old \<noteq> 0 then Rc_spin else Rc_user)"
| rc_user: "rc_act s (tid, Rc_user) (s\<lparr>slr_user := tid\<rparr>) (tid, Rc_count 0)"
| rc_count: "rc_act s (tid, Rc_count d) (s\<lparr>slr_count := slr_count s + 1\<rparr>) (tid, Rc_held (Suc d))"
| rc_unlock: "rc_act s (tid, Rc_held (Suc d)) (s\<lparr>slr_count := slr_count s - 1\<rparr>)
    (tid, if slr_count s - 1 = 0 then Rc_clear else Rc_held d)"
| rc_clear: "rc_act s (tid, Rc_clear) (s\<lparr>slr_user := - 1\<rparr>) (tid, Rc_release)"
| rc_release: "rc_act s (tid, Rc_release) (s\<lparr>slr_sl := rte_spinlock_unlock (slr_sl s)\<rparr>) (tid, Rc_held 0)"

text \<open>Who is past the inner lock, and what \<open>user\<close> and \<open>count\<close> are there.\<close>

fun rc_outside :: "rc_thread \<Rightarrow> bool" where
  "rc_outside (tid, pc) = (pc = Rc_held 0 \<or> pc = Rc_spin)"

fun rc_owner_fields :: "rc_thread \<Rightarrow> int \<times> int" where
  "rc_owner_fields (tid, Rc_held d) = (tid, int d)"
| "rc_owner_fields (tid, Rc_spin) = (- 1, 0)"
| "rc_owner_fields (tid, Rc_user) = (- 1, 0)"
| "rc_owner_fields (tid, Rc_count d) = (tid, int d)"
| "rc_owner_fields (tid, Rc_clear) = (tid, 0)"
| "rc_owner_fields (tid, Rc_release) = (- 1, 0)"

definition rc_inv :: "rte_spinlock_recursive_t \<times> rc_thread list \<Rightarrow> bool" where
  "rc_inv = (\<lambda>(s, ts). distinct (map fst ts) \<and> (\<forall>t\<in>set ts. fst t \<noteq> - 1) \<and>
     (slr_sl s = 0 \<and> slr_user s = - 1 \<and> slr_count s = 0 \<and> (\<forall>t\<in>set ts. rc_outside t) \<or>
      slr_sl s = 1 \<and> (\<exists>i<length ts. \<not> rc_outside (ts ! i) \<and>
        (slr_user s, slr_count s) = rc_owner_fields (ts ! i) \<and>
        (\<forall>j<length ts. j \<noteq> i \<longrightarrow> rc_outside (ts ! j)))))"

text \<open>A thread is inside when it holds the lock between calls.\<close>

fun rc_inside :: "rc_thread \<Rightarrow> bool" where
  "rc_inside (tid, pc) = (\<exists>d. pc = Rc_held (Suc d) \<or> pc = Rc_count (Suc d))"

definition rc_exclusive :: "rc_thread list \<Rightarrow> bool" where
  "rc_exclusive ts \<longleftrightarrow> (\<forall>i<length ts. \<forall>j<length ts. rc_inside (ts ! i) \<and> rc_inside (ts ! j) \<longrightarrow> i = j)"

lemma rc_act_tid: "rc_act s t s' t' \<Longrightarrow> fst t' = fst t"
  by (erule rc_act.cases) auto

text \<open>A step of a thread outside, when the lock is free and when somebody else owns it.\<close>

lemma rc_step_free:
  assumes "rc_act s t s' t'" "rc_outside t" "slr_sl s = 0" "slr_user s = - 1" "slr_count s = 0" "fst t \<noteq> - 1"
  shows "s' = s \<and> rc_outside t' \<or>
    slr_sl s' = 1 \<and> \<not> rc_outside t' \<and> (slr_user s', slr_count s') = rc_owner_fields t'"
  using assms by cases (auto simp: atomic_exchange_n_def)

lemma rc_step_other:
  assumes "rc_act s t s' t'" "rc_outside t" "slr_sl s = 1" "slr_user s \<noteq> fst t"
  shows "s' = s \<and> rc_outside t'"
  using assms by cases (auto simp: atomic_exchange_n_def)

text \<open>A step of the owner keeps the fields in step with it, until it lets go.\<close>

lemma rc_step_owner:
  assumes "rc_act s t s' t'" "\<not> rc_outside t" "slr_sl s = 1" "(slr_user s, slr_count s) = rc_owner_fields t"
    "fst t \<noteq> - 1"
  shows "slr_sl s' = 1 \<and> \<not> rc_outside t' \<and> (slr_user s', slr_count s') = rc_owner_fields t' \<or>
    slr_sl s' = 0 \<and> slr_user s' = - 1 \<and> slr_count s' = 0 \<and> rc_outside t'"
  using assms by cases (auto simp: rte_spinlock_unlock_def split: if_splits)

lemma rc_owner_user: "fst (rc_owner_fields t) = fst t \<or> fst (rc_owner_fields t) = - 1"
  by (cases t rule: rc_owner_fields.cases) auto

lemma rc_preserved:
  assumes inv: "rc_inv (s, ts)" and i: "i < length ts" and act: "rc_act s (ts ! i) s' t"
  shows "rc_inv (s', ts[i := t])"
proof -
  have tid: "fst t = fst (ts ! i)" using act by (rule rc_act_tid)
  then have fsts: "map fst (ts[i := t]) = map fst ts"
    using i by (simp add: map_update) (metis list_update_id nth_map)
  have ids: "distinct (map fst ts)" "\<And>t. t \<in> set ts \<Longrightarrow> fst t \<noteq> - 1"
    using inv by (auto simp: rc_inv_def)
  have ids': "\<forall>t\<in>set (ts[i := t]). fst t \<noteq> - 1"
    using ids(2) tid i by (metis in_set_conv_nth length_list_update nth_list_update nth_mem)
  let ?free = "\<lambda>s ts. slr_sl s = 0 \<and> slr_user s = - 1 \<and> slr_count s = 0 \<and> (\<forall>t\<in>set ts. rc_outside t)"
  let ?own = "\<lambda>s ts k. k < length ts \<and> slr_sl s = 1 \<and> \<not> rc_outside (ts ! k) \<and>
      (slr_user s, slr_count s) = rc_owner_fields (ts ! k) \<and> (\<forall>j<length ts. j \<noteq> k \<longrightarrow> rc_outside (ts ! j))"
  have not_minus: "fst (ts ! i) \<noteq> - 1" using ids(2) i by simp
  have "?free s ts \<or> (\<exists>k. ?own s ts k)" using inv by (auto simp: rc_inv_def)
  then have "?free s' (ts[i := t]) \<or> (\<exists>k. ?own s' (ts[i := t]) k)"
  proof (elim disjE exE)
    assume free: "?free s ts"
    then have "rc_outside (ts ! i)" using i by simp
    from rc_step_free [OF act this] free not_minus consider "s' = s" "rc_outside t" |
      "slr_sl s' = 1" "\<not> rc_outside t" "(slr_user s', slr_count s') = rc_owner_fields t" by blast
    then show ?thesis
    proof cases
      case 1
      then have "\<forall>t\<in>set (ts[i := t]). rc_outside t"
        using free set_update_subset_insert [of ts i t] by blast
      then show ?thesis using 1 free by simp
    next
      case 2
      then have "?own s' (ts[i := t]) i" using free i by (auto simp: nth_list_update)
      then show ?thesis by blast
    qed
  next
    fix k assume own: "?own s ts k"
    show ?thesis
    proof (cases "k = i")
      case True
      from rc_step_owner [OF act] own True not_minus consider
        "slr_sl s' = 1" "\<not> rc_outside t" "(slr_user s', slr_count s') = rc_owner_fields t" |
        "slr_sl s' = 0" "slr_user s' = - 1" "slr_count s' = 0" "rc_outside t" by blast
      then show ?thesis
      proof cases
        case 1
        then have "?own s' (ts[i := t]) i" using own True by (auto simp: nth_list_update)
        then show ?thesis by blast
      next
        case 2
        have "rc_outside (ts[i := t] ! j)" if "j < length ts" for j
          using that own True 2(4) by (cases "j = i") auto
        then have "\<forall>t\<in>set (ts[i := t]). rc_outside t" by (metis in_set_conv_nth length_list_update)
        then show ?thesis using 2 by blast
      qed
    next
      case False
      then have out: "rc_outside (ts ! i)" using own i by blast
      have "fst (ts ! k) \<noteq> fst (ts ! i)"
        using ids(1) own i False by (metis length_map nth_eq_iff_index_eq nth_map)
      moreover have "slr_user s = fst (rc_owner_fields (ts ! k))" using own by (metis fst_conv)
      ultimately have "slr_user s \<noteq> fst (ts ! i)"
        using rc_owner_user [of "ts ! k"] not_minus by metis
      from rc_step_other [OF act out _ this] own have "s' = s" "rc_outside t" by blast+
      then have "rc_outside (ts[i := t] ! j)" if "j < length ts" "j \<noteq> k" for j
        using that own by (cases "j = i") auto
      then have "?own s' (ts[i := t]) k" using own False \<open>s' = s\<close> by simp
      then show ?thesis by blast
    qed
  qed
  then show ?thesis using fsts ids(1) ids' by (auto simp: rc_inv_def)
qed

lemma rc_inside_not_outside: "rc_inside t \<Longrightarrow> \<not> rc_outside t"
  by (cases t) auto

interpretation recursive_protocol: protocol rc_act rc_inv rc_exclusive
proof (unfold_locales, goal_cases)
  case (2 s ts)
  then consider "\<forall>t\<in>set ts. rc_outside t" | k where "\<forall>j<length ts. j \<noteq> k \<longrightarrow> rc_outside (ts ! j)"
    by (auto simp: rc_inv_def)
  then show ?case
  proof cases
    case 1
    then have "\<not> rc_inside (ts ! i)" if "i < length ts" for i
      using that rc_inside_not_outside nth_mem by blast
    then show ?thesis by (auto simp: rc_exclusive_def)
  next
    case (2 k)
    then have "i = k" if "i < length ts" "rc_inside (ts ! i)" for i
      using that rc_inside_not_outside by blast
    then show ?thesis by (auto simp: rc_exclusive_def)
  qed
qed (rule rc_preserved)

subsection \<open>The properties of the protocols\<close>

text \<open>
  C3: \<open>rte_rwlock\<close> used by any number of threads below 2^31: in every reachable state, however the
  threads interleave, a writer is alone (no second writer and no reader) and the count is -1 with a
  writer and the number of readers without one.
\<close>

theorem rte_rwlock_exclusion:
  assumes "n < 2 ^ 31"
    and "(interleave rw_act)\<^sup>*\<^sup>* (RTE_RWLOCK_INITIALIZER, replicate n Rw_out) (cnt, ps)"
  shows "rw_exclusive ps \<and> (if at Writing ps = 0 then cnt = of_nat (at Reading ps) else cnt = - 1)"
proof -
  have "rw_inv (RTE_RWLOCK_INITIALIZER, replicate n Rw_out)"
    using assms(1) by (auto simp: rw_inv_def RTE_RWLOCK_INITIALIZER_def at_def)
  then have "rw_inv (cnt, ps)" "rw_exclusive ps"
    using rwlock.reachable_inv [OF assms(2)] rwlock.reachable_safe [OF assms(2)] by simp_all
  then show ?thesis by (auto simp: rw_inv_def)
qed

lemma interleave_first: "act m p m' p' \<Longrightarrow> interleave act (m, p # ps) (m', p' # ps)"
  using interleave.step [of 0 "p # ps" act m m' p'] by simp

lemma interleave_second: "act m p m' p' \<Longrightarrow> interleave act (m, q # p # ps) (m', q # p' # ps)"
  using interleave.step [of 1 "q # p # ps" act m m' p'] by simp

text \<open>Two threads: one becomes a reader while the other has loaded the count to write.\<close>

theorem rte_rwlock_exclusion_witness:
  "(interleave rw_act)\<^sup>*\<^sup>* (RTE_RWLOCK_INITIALIZER, replicate 2 Rw_out) (1, [Reading, W_cas]) \<and>
   rw_exclusive [Reading, W_cas]"
proof -
  let ?r = "(interleave rw_act)\<^sup>*\<^sup>*"
  have "?r (0, [Rw_out, Rw_out]) (0, [R_load, Rw_out])"
    by (rule r_into_rtranclp) (intro interleave_first rw_act.call_read)
  also have "?r (0, [R_load, Rw_out]) (0, [R_cas 0, Rw_out])"
    by (rule r_into_rtranclp) (intro interleave_first rw_act.read_load, simp)
  also have "?r (0, [R_cas 0, Rw_out]) (0, [R_cas 0, W_load])"
    by (rule r_into_rtranclp) (intro interleave_second rw_act.call_write)
  also have "?r (0, [R_cas 0, W_load]) (0, [R_cas 0, W_cas])"
    by (rule r_into_rtranclp) (intro interleave_second rw_act.write_load, simp)
  also have "?r (0, [R_cas 0, W_cas]) (1, [Reading, W_cas])"
    using rw_cas_succeeds(1) [of 0] by (intro r_into_rtranclp interleave_first) simp
  finally have run: "?r (RTE_RWLOCK_INITIALIZER, replicate 2 Rw_out) (1, [Reading, W_cas])"
    by (simp add: RTE_RWLOCK_INITIALIZER_def numeral_2_eq_2)
  then show ?thesis using rte_rwlock_exclusion [OF _ run] by simp
qed

text \<open>
  The spinlocks used by any number of threads: in every reachable state at most one thread is inside,
  for \<open>rte_spinlock\<close> with locks and trylocks mixed and for \<open>sh_spinlock\<close>, and the cell is set exactly
  when a thread is inside.
\<close>

theorem spinlocks_exclusion:
  assumes "(interleave sp_act)\<^sup>*\<^sup>* (RTE_SPINLOCK_INITIALIZER, replicate n Sp_out) (l, ps)"
    and "(interleave sh_sp_act)\<^sup>*\<^sup>* (False, replicate m Sp_out) (f, qs)"
  shows "at Sp_in ps \<le> 1 \<and> (rte_spinlock_is_locked l \<noteq> 0) = (at Sp_in ps = 1) \<and>
    at Sp_in qs \<le> 1 \<and> f = (at Sp_in qs = 1)"
proof -
  have "sp_inv (RTE_SPINLOCK_INITIALIZER, replicate n Sp_out)" "sh_sp_inv (False, replicate m Sp_out)"
    by (auto simp: sp_inv_def sh_sp_inv_def RTE_SPINLOCK_INITIALIZER_def at_def)
  then have "sp_inv (l, ps)" "sh_sp_inv (f, qs)"
    using spin_protocol.reachable_inv [OF assms(1)] sh_spin_protocol.reachable_inv [OF assms(2)] by simp_all
  then show ?thesis by (auto simp: sp_inv_def sh_sp_inv_def rte_spinlock_is_locked_def)
qed

theorem spinlocks_exclusion_witness:
  "(interleave sp_act)\<^sup>*\<^sup>* (RTE_SPINLOCK_INITIALIZER, replicate 2 Sp_out) (1, [Sp_in, Sp_wait]) \<and>
   at Sp_in [Sp_in, Sp_wait] \<le> 1"
proof -
  let ?r = "(interleave sp_act)\<^sup>*\<^sup>*"
  have swap: "sp_act 0 Sp_swap 1 Sp_in" "sp_act 1 Sp_swap 1 Sp_wait"
    using sp_act.sp_swap [of 0 0 1] sp_act.sp_swap [of 1 1 1] by (simp_all add: atomic_exchange_n_def)
  have "?r (0, [Sp_out, Sp_out]) (0, [Sp_swap, Sp_out])"
    by (rule r_into_rtranclp) (intro interleave_first sp_act.sp_call)
  also have "?r (0, [Sp_swap, Sp_out]) (0, [Sp_swap, Sp_swap])"
    by (rule r_into_rtranclp) (intro interleave_second sp_act.sp_call)
  also have "?r (0, [Sp_swap, Sp_swap]) (1, [Sp_in, Sp_swap])"
    by (rule r_into_rtranclp) (intro interleave_first swap)
  also have "?r (1, [Sp_in, Sp_swap]) (1, [Sp_in, Sp_wait])"
    by (rule r_into_rtranclp) (intro interleave_second swap)
  finally have run: "?r (RTE_SPINLOCK_INITIALIZER, replicate 2 Sp_out) (1, [Sp_in, Sp_wait])"
    by (simp add: RTE_SPINLOCK_INITIALIZER_def numeral_2_eq_2)
  then show ?thesis using spinlocks_exclusion [OF run rtranclp.rtrancl_refl] by simp
qed

text \<open>
  C29: \<open>sh_rwlock\<close>, with spurious failures of its weak swaps: in every reachable state a writer is alone,
  although a leaving writer stores 0 instead of subtracting its mark.
\<close>

theorem sh_rwlock_exclusion:
  assumes "n < 2 ^ 31"
    and "(interleave sh_rw_act)\<^sup>*\<^sup>* (0, replicate n Rw_out) (cell, ps)"
  shows "rw_exclusive ps \<and> (if at Writing ps = 0 then cell = of_nat (at Reading ps) else cell = - 1)"
proof -
  have "rw_inv (0, replicate n Rw_out)"
    using assms(1) by (auto simp: rw_inv_def at_def)
  then have "rw_inv (cell, ps)" "rw_exclusive ps"
    using sh_rwlock.reachable_inv [OF assms(2)] sh_rwlock.reachable_safe [OF assms(2)] by simp_all
  then show ?thesis by (auto simp: rw_inv_def)
qed

theorem sh_rwlock_exclusion_witness:
  "(interleave sh_rw_act)\<^sup>*\<^sup>* (0, replicate 2 Rw_out) (- 1, [Writing, R_load]) \<and>
   rw_exclusive [Writing, R_load]"
proof -
  let ?r = "(interleave sh_rw_act)\<^sup>*\<^sup>*"
  have swap: "sh_rw_act 0 W_cas (- 1) Writing"
    using sh_rw_act.sh_write_cas [of False 0 True 0 "- 1"] by (simp add: compare_exchange_weak_def)
  have "?r (0, [Rw_out, Rw_out]) (0, [W_cas, Rw_out])"
    by (rule r_into_rtranclp) (intro interleave_first sh_rw_act.sh_call_write)
  also have "?r (0, [W_cas, Rw_out]) (0, [W_cas, R_load])"
    by (rule r_into_rtranclp) (intro interleave_second sh_rw_act.sh_call_read)
  also have "?r (0, [W_cas, R_load]) (- 1, [Writing, R_load])"
    by (rule r_into_rtranclp) (intro interleave_first swap)
  finally have run: "?r (0, replicate 2 Rw_out) (- 1, [Writing, R_load])"
    by (simp add: numeral_2_eq_2)
  then show ?thesis using sh_rwlock_exclusion [OF _ run] by simp
qed



end
