(* ===== verification/Fbarray.thy ===== *)
theory Fbarray
  imports Rte_Common Rte_Locks
begin

text \<open>
  The file-backed array of \<open>dpdk_fbarray/\<close> (\<open>eal_common_fbarray.h\<close>): a fixed number of elements in shared
  memory, followed by a mask with one bit per element that says whether it is in use.  The array
  structure is a record; the mask that lives behind the elements in the mapping is its field \<open>fb_mask\<close>.
  A null pointer is \<open>None\<close> where the code tests for it.  \<open>rte_errno\<close> is passed along.  An operation has no
  result when it reads outside the mask, shifts by the width, or waits for a lock nobody releases.
\<close>

subsection \<open>Data (rte_fbarray.h, eal_common_fbarray.h)\<close>

record used_mask =
  n_masks :: u32
  msk_data :: "u64 list"

record rte_fbarray =
  fb_name :: string
  fb_count :: u32
  fb_len :: u32
  fb_elt_sz :: u32
  fb_data :: u64
  fb_rwlock :: rte_rwlock_t
  fb_mask :: used_mask

definition RTE_FBARRAY_NAME_LEN :: nat where "RTE_FBARRAY_NAME_LEN = 64"

text \<open>The error numbers of errno.h the code uses.\<close>

definition eNOENT :: int where "eNOENT = 2"
definition eBUSY :: int where "eBUSY = 16"
definition eINVAL :: int where "eINVAL = 22"
definition eNOSPC :: int where "eNOSPC = 28"
definition eNAMETOOLONG :: int where "eNAMETOOLONG = 36"

definition MASK_SHIFT :: nat where "MASK_SHIFT = 6"
definition MASK_ALIGN :: u64 where "MASK_ALIGN = push_bit MASK_SHIFT 1"

definition MASK_LEN_TO_IDX :: "u32 \<Rightarrow> u32" where
  "MASK_LEN_TO_IDX x = drop_bit MASK_SHIFT x"

definition MASK_LEN_TO_MOD :: "u32 \<Rightarrow> u32" where
  "MASK_LEN_TO_MOD x = x - RTE_ALIGN_FLOOR x MASK_ALIGN"

definition MASK_GET_IDX :: "u32 \<Rightarrow> u32 \<Rightarrow> u32" where
  "MASK_GET_IDX idx md = push_bit MASK_SHIFT idx + md"

definition calc_mask_size :: "u32 \<Rightarrow> u64" where
  "calc_mask_size len =
     (let len = RTE_ALIGN_CEIL len MASK_ALIGN in 8 + 8 * ucast (MASK_LEN_TO_IDX len))"

text \<open>\<open>elt_sz * len\<close> is a 32-bit product.\<close>

definition calc_data_size :: "u64 \<Rightarrow> u32 \<Rightarrow> u32 \<Rightarrow> u64" where
  "calc_data_size page_sz elt_sz len =
     (let data_sz = ucast (elt_sz * len); msk_sz = calc_mask_size len
      in RTE_ALIGN_CEIL (data_sz + msk_sz) page_sz)"

definition get_used_mask :: "u64 \<Rightarrow> u32 \<Rightarrow> u32 \<Rightarrow> u64" where
  "get_used_mask data elt_sz len = RTE_PTR_ADD data (elt_sz * len)"

text \<open>The two masks every search builds: what to keep from \<open>start\<close> on, and before the end.\<close>

definition start_msk :: "u32 \<Rightarrow> u64" where
  "start_msk md = NOT (push_bit (unat md) 1 - 1)"

definition end_msk :: "u32 \<Rightarrow> u64" where
  "end_msk md = NOT (push_bit (unat md) (- 1))"

subsection \<open>Searching the mask\<close>

partial_function (option) find_next_loop ::
    "used_mask \<Rightarrow> bool \<Rightarrow> u32 \<Rightarrow> u64 \<Rightarrow> u32 \<Rightarrow> u64 \<Rightarrow> u32 \<Rightarrow> u32 option option" where
  "find_next_loop msk used first ignore_msk last_idx last_msk idx =
     (if idx < n_masks msk then do {
        cur \<leftarrow> rd (msk_data msk) idx;
        let cur = (if \<not> used then NOT cur else cur);
        let cur = (if idx = last_idx then cur AND last_msk else cur);
        let cur = (if idx = first then cur AND ignore_msk else cur);
        if cur = 0 then find_next_loop msk used first ignore_msk last_idx last_msk (idx + 1)
        else Some (Some (MASK_GET_IDX idx (of_nat (ctz cur)))) }
      else Some None)"

text \<open>The result and the new \<open>rte_errno\<close>.\<close>

definition find_next :: "int \<Rightarrow> rte_fbarray \<Rightarrow> u32 \<Rightarrow> bool \<Rightarrow> (int \<times> int) option" where
  "find_next errno arr start used =
     (let first = MASK_LEN_TO_IDX start; first_mod = MASK_LEN_TO_MOD start;
          ignore_msk = start_msk first_mod;
          last_idx = MASK_LEN_TO_IDX (fb_len arr); last_mod = MASK_LEN_TO_MOD (fb_len arr);
          last_msk = end_msk last_mod
      in map_option (\<lambda>r. case r of Some idx \<Rightarrow> (sint idx, errno)
                            | None \<Rightarrow> (- 1, if used then - eNOENT else - eNOSPC))
           (find_next_loop (fb_mask arr) used first ignore_msk last_idx last_msk first))"

partial_function (option) find_contig_loop ::
    "used_mask \<Rightarrow> bool \<Rightarrow> u32 \<Rightarrow> u32 \<Rightarrow> u32 \<Rightarrow> u64 \<Rightarrow> u32 \<Rightarrow> u32 \<Rightarrow> u32 option" where
  "find_contig_loop msk used first first_mod last_idx last_msk idx result =
     (if idx < n_masks msk then do {
        cur \<leftarrow> rd (msk_data msk) idx;
        let need_len = ucast MASK_ALIGN;
        let cur = (if \<not> used then NOT cur else cur);
        let cur = (if idx = last_idx then cur AND last_msk else cur);
        let (cur, need_len) = (if idx = first then (drop_bit (unat first_mod) cur, need_len - first_mod)
                               else (cur, need_len));
        let cur = NOT cur;
        if cur = 0
        then find_contig_loop msk used first first_mod last_idx last_msk (idx + 1) (result + need_len)
        else let run_len = of_nat (ctz cur)
             in if run_len < need_len then Some (result + run_len)
                else find_contig_loop msk used first first_mod last_idx last_msk (idx + 1) (result + need_len) }
      else Some result)"

definition find_contig :: "rte_fbarray \<Rightarrow> u32 \<Rightarrow> bool \<Rightarrow> int option" where
  "find_contig arr start used =
     (let last_idx = MASK_LEN_TO_IDX (fb_len arr); last_mod = MASK_LEN_TO_MOD (fb_len arr);
          last_msk = end_msk last_mod;
          first = MASK_LEN_TO_IDX start; first_mod = MASK_LEN_TO_MOD start
      in map_option sint (find_contig_loop (fb_mask arr) used first first_mod last_idx last_msk first 0))"

text \<open>\<open>k\<close> rounds of \<open>m &= m >> 1\<close>.\<close>

fun shift_ands :: "nat \<Rightarrow> u64 \<Rightarrow> u64" where
  "shift_ands 0 m = m"
| "shift_ands (Suc k) m = shift_ands k (m AND drop_bit 1 m)"

text \<open>Looking ahead for the rest of a run: \<open>1ULL << need\<close> is undefined when \<open>need\<close> is 64.\<close>

datatype lookahead = Run_found | Run_lost u32 u64 | Out_of_masks

partial_function (option) lookahead_loop :: "used_mask \<Rightarrow> bool \<Rightarrow> u32 \<Rightarrow> u32 \<Rightarrow> lookahead option" where
  "lookahead_loop msk used lookahead_idx left =
     (if lookahead_idx < n_masks msk then do {
        m \<leftarrow> rd (msk_data msk) lookahead_idx;
        let m = (if \<not> used then NOT m else m);
        let need = (if left < 64 then left else 64);
        let m = shift_ands (unat (need - 1)) m;
        if m AND 1 = 0
        then (if need < 64 then Some (Run_lost lookahead_idx (NOT (push_bit (unat need) 1 - 1))) else None)
        else let left = left - need
             in if left = 0 then Some Run_found
                else lookahead_loop msk used (lookahead_idx + 1) left }
      else Some Out_of_masks)"

partial_function (option) find_next_n_loop ::
    "used_mask \<Rightarrow> u32 \<Rightarrow> bool \<Rightarrow> u32 \<Rightarrow> u64 \<Rightarrow> u64 \<Rightarrow> u32 \<Rightarrow> u32 option option" where
  "find_next_n_loop msk n used last_idx last_msk ignore_msk msk_idx =
     (if msk_idx < n_masks msk then do {
        cur \<leftarrow> rd (msk_data msk) msk_idx;
        let cur = (if \<not> used then NOT cur else cur);
        let ignore_msk = (if msk_idx = last_idx then ignore_msk OR last_msk else ignore_msk);
        let (cur, ignore_msk) = (if ignore_msk \<noteq> 0 then (cur AND ignore_msk, 0) else (cur, ignore_msk));
        let tmp = shift_ands (unat (n - 1)) cur;
        if n \<le> 64 \<and> tmp \<noteq> 0 then Some (Some (MASK_GET_IDX msk_idx (of_nat (ctz tmp))))
        else
          let c = (if NOT cur = 0 then 64 else of_nat (clz (NOT cur)))
          in if c = 0 then find_next_n_loop msk n used last_idx last_msk ignore_msk (msk_idx + 1)
             else
               let run_start = 64 - c; left = n - c
               in do {
                 ahead \<leftarrow> lookahead_loop msk used (msk_idx + 1) left;
                 case ahead of
                   Run_found \<Rightarrow> Some (Some (MASK_GET_IDX msk_idx run_start))
                 | Run_lost idx ignore \<Rightarrow> find_next_n_loop msk n used last_idx last_msk ignore (idx + 1)
                 | Out_of_masks \<Rightarrow> find_next_n_loop msk n used last_idx last_msk ignore_msk (msk_idx + 1) } }
      else Some None)"

definition find_next_n :: "int \<Rightarrow> rte_fbarray \<Rightarrow> u32 \<Rightarrow> u32 \<Rightarrow> bool \<Rightarrow> (int \<times> int) option" where
  "find_next_n errno arr start n used =
     (let first = MASK_LEN_TO_IDX start; first_mod = MASK_LEN_TO_MOD start;
          ignore_msk = start_msk first_mod;
          last_idx = MASK_LEN_TO_IDX (fb_len arr); last_mod = MASK_LEN_TO_MOD (fb_len arr);
          last_msk = end_msk last_mod
      in map_option (\<lambda>r. case r of Some idx \<Rightarrow> (sint idx, errno)
                            | None \<Rightarrow> (- 1, if used then - eNOENT else - eNOSPC))
           (find_next_n_loop (fb_mask arr) n used last_idx last_msk ignore_msk first))"

subsection \<open>Marking elements\<close>

text \<open>Results are the returned value, \<open>rte_errno\<close> and the array after the call.\<close>

definition set_used :: "int \<Rightarrow> rte_fbarray option \<Rightarrow> u32 \<Rightarrow> bool \<Rightarrow> (int \<times> int \<times> rte_fbarray option) option" where
  "set_used errno arr_opt idx used =
     (let msk_bit = push_bit (unat (MASK_LEN_TO_MOD idx)) 1; msk_idx = MASK_LEN_TO_IDX idx
      in case arr_opt of
           None \<Rightarrow> Some (- 1, eINVAL, None)
         | Some arr \<Rightarrow>
             if idx \<ge> fb_len arr then Some (- 1, eINVAL, Some arr)
             else do {
               locked \<leftarrow> rte_rwlock_write_lock (fb_rwlock arr);
               word \<leftarrow> rd (msk_data (fb_mask arr)) msk_idx;
               let already_used = (word AND msk_bit \<noteq> 0);
               let arr = arr\<lparr>fb_rwlock := rte_rwlock_write_unlock locked\<rparr>;
               if used = already_used then Some (0, errno, Some arr)
               else if used then do {
                 data \<leftarrow> wr (msk_data (fb_mask arr)) msk_idx (word OR msk_bit);
                 Some (0, errno, Some (arr\<lparr>fb_mask := (fb_mask arr)\<lparr>msk_data := data\<rparr>,
                                            fb_count := fb_count arr + 1\<rparr>)) }
               else do {
                 data \<leftarrow> wr (msk_data (fb_mask arr)) msk_idx (word AND NOT msk_bit);
                 Some (0, errno, Some (arr\<lparr>fb_mask := (fb_mask arr)\<lparr>msk_data := data\<rparr>,
                                            fb_count := fb_count arr - 1\<rparr>)) } })"

definition rte_fbarray_set_used where
  "rte_fbarray_set_used errno arr idx = set_used errno arr idx True"

definition rte_fbarray_set_free where
  "rte_fbarray_set_free errno arr idx = set_used errno arr idx False"

definition rte_fbarray_is_used :: "int \<Rightarrow> rte_fbarray option \<Rightarrow> u32 \<Rightarrow> (int \<times> int \<times> rte_fbarray option) option" where
  "rte_fbarray_is_used errno arr_opt idx =
     (case arr_opt of
        None \<Rightarrow> Some (- 1, eINVAL, None)
      | Some arr \<Rightarrow>
          if idx \<ge> fb_len arr then Some (- 1, eINVAL, Some arr)
          else do {
            locked \<leftarrow> rte_rwlock_read_lock (fb_rwlock arr);
            let msk_idx = MASK_LEN_TO_IDX idx;
            let msk_bit = push_bit (unat (MASK_LEN_TO_MOD idx)) 1;
            word \<leftarrow> rd (msk_data (fb_mask arr)) msk_idx;
            let ret = c_bool (word AND msk_bit \<noteq> 0);
            Some (ret, errno, Some (arr\<lparr>fb_rwlock := rte_rwlock_read_unlock locked\<rparr>)) })"

subsection \<open>The public searches\<close>

text \<open>The body of a search runs under the read lock, on an array the code has checked.\<close>

definition read_locked :: "rte_fbarray \<Rightarrow> (int \<times> int) option \<Rightarrow> (int \<times> int \<times> rte_fbarray option) option" where
  "read_locked arr body = do {
     locked \<leftarrow> rte_rwlock_read_lock (fb_rwlock arr);
     (ret, errno) \<leftarrow> body;
     Some (ret, errno, Some (arr\<lparr>fb_rwlock := rte_rwlock_read_unlock locked\<rparr>)) }"

definition rte_fbarray_find_next_free ::
    "int \<Rightarrow> rte_fbarray option \<Rightarrow> u32 \<Rightarrow> (int \<times> int \<times> rte_fbarray option) option" where
  "rte_fbarray_find_next_free errno arr_opt start =
     (case arr_opt of
        None \<Rightarrow> Some (- 1, eINVAL, None)
      | Some arr \<Rightarrow>
          if start \<ge> fb_len arr then Some (- 1, eINVAL, Some arr)
          else read_locked arr
            (if fb_len arr = fb_count arr then Some (- 1, eNOSPC) else find_next errno arr start False))"

definition rte_fbarray_find_next_used ::
    "int \<Rightarrow> rte_fbarray option \<Rightarrow> u32 \<Rightarrow> (int \<times> int \<times> rte_fbarray option) option" where
  "rte_fbarray_find_next_used errno arr_opt start =
     (case arr_opt of
        None \<Rightarrow> Some (- 1, eINVAL, None)
      | Some arr \<Rightarrow>
          if start \<ge> fb_len arr then Some (- 1, eINVAL, Some arr)
          else read_locked arr
            (if fb_count arr = 0 then Some (- 1, eNOENT) else find_next errno arr start True))"

definition rte_fbarray_find_next_n_free ::
    "int \<Rightarrow> rte_fbarray option \<Rightarrow> u32 \<Rightarrow> u32 \<Rightarrow> (int \<times> int \<times> rte_fbarray option) option" where
  "rte_fbarray_find_next_n_free errno arr_opt start n =
     (case arr_opt of
        None \<Rightarrow> Some (- 1, eINVAL, None)
      | Some arr \<Rightarrow>
          if start \<ge> fb_len arr \<or> n > fb_len arr then Some (- 1, eINVAL, Some arr)
          else read_locked arr
            (if fb_len arr = fb_count arr \<or> fb_len arr - fb_count arr < n then Some (- 1, eNOSPC)
             else find_next_n errno arr start n False))"

definition rte_fbarray_find_next_n_used ::
    "int \<Rightarrow> rte_fbarray option \<Rightarrow> u32 \<Rightarrow> u32 \<Rightarrow> (int \<times> int \<times> rte_fbarray option) option" where
  "rte_fbarray_find_next_n_used errno arr_opt start n =
     (case arr_opt of
        None \<Rightarrow> Some (- 1, eINVAL, None)
      | Some arr \<Rightarrow>
          if start \<ge> fb_len arr \<or> n > fb_len arr then Some (- 1, eINVAL, Some arr)
          else read_locked arr
            (if fb_count arr < n then Some (- 1, eNOENT) else find_next_n errno arr start n True))"

definition rte_fbarray_find_contig_free ::
    "int \<Rightarrow> rte_fbarray option \<Rightarrow> u32 \<Rightarrow> (int \<times> int \<times> rte_fbarray option) option" where
  "rte_fbarray_find_contig_free errno arr_opt start =
     (case arr_opt of
        None \<Rightarrow> Some (- 1, eINVAL, None)
      | Some arr \<Rightarrow>
          if start \<ge> fb_len arr then Some (- 1, eINVAL, Some arr)
          else read_locked arr
            (if fb_len arr = fb_count arr then Some (- 1, eNOSPC)
             else if fb_count arr = 0 then Some (sint (fb_len arr - start), errno)
             else map_option (\<lambda>ret. (ret, errno)) (find_contig arr start False)))"

definition rte_fbarray_find_contig_used ::
    "int \<Rightarrow> rte_fbarray option \<Rightarrow> u32 \<Rightarrow> (int \<times> int \<times> rte_fbarray option) option" where
  "rte_fbarray_find_contig_used errno arr_opt start =
     (case arr_opt of
        None \<Rightarrow> Some (- 1, eINVAL, None)
      | Some arr \<Rightarrow>
          if start \<ge> fb_len arr then Some (- 1, eINVAL, Some arr)
          else read_locked arr (map_option (\<lambda>ret. (ret, errno)) (find_contig arr start True)))"

subsection \<open>Elements and their addresses\<close>

text \<open>A pointer is an address; \<open>None\<close> is the null pointer the code returns.\<close>

definition rte_fbarray_get :: "int \<Rightarrow> rte_fbarray option \<Rightarrow> u32 \<Rightarrow> u64 option \<times> int" where
  "rte_fbarray_get errno arr_opt idx =
     (case arr_opt of
        None \<Rightarrow> (None, eINVAL)
      | Some arr \<Rightarrow>
          if idx \<ge> fb_len arr then (None, eINVAL)
          else (Some (RTE_PTR_ADD (fb_data arr) (idx * fb_elt_sz arr)), errno))"

text \<open>A division by an element size of 0 is undefined.\<close>

definition rte_fbarray_find_idx :: "int \<Rightarrow> rte_fbarray option \<Rightarrow> u64 \<Rightarrow> (int \<times> int) option" where
  "rte_fbarray_find_idx errno arr_opt elt =
     (case arr_opt of
        None \<Rightarrow> Some (- 1, eINVAL)
      | Some arr \<Rightarrow>
          if elt = 0 then Some (- 1, eINVAL)
          else let end_ptr = RTE_PTR_ADD (fb_data arr) (fb_elt_sz arr * fb_len arr)
               in if elt < fb_data arr \<or> elt \<ge> end_ptr then Some (- 1, eINVAL)
                  else if fb_elt_sz arr = 0 then None
                  else Some (sint (ucast (RTE_PTR_DIFF elt (fb_data arr) div ucast (fb_elt_sz arr)) :: u32),
                             errno))"

subsection \<open>Life cycle\<close>

text \<open>
  The operating system is the argument \<open>sys\<close>: the page size (all ones when \<open>sysconf\<close> fails),
  \<open>eal_get_virtual_area\<close> (an address, 0 for \<open>NULL\<close>, and the size it really reserved), the descriptor
  \<open>open\<close> gives, whether \<open>flock\<close> fails for an exclusive or a shared lock, whether \<open>ftruncate\<close> fails, the
  address \<open>mmap\<close> gives, and \<open>errno\<close> after a failure.  The calls that reserve, change or release
  something are recorded in order.
\<close>

record fb_sys =
  s_page_sz :: u64
  s_virtual_area :: "u64 \<Rightarrow> u64 \<Rightarrow> u64 \<times> u64"
  s_runtime_dir :: string
  s_open :: "string \<Rightarrow> int"
  s_flock_ex_fails :: bool
  s_flock_sh_fails :: bool
  s_ftruncate_fails :: bool
  s_mmap :: "u64 \<Rightarrow> u64"
  s_errno :: int

datatype sys_call =
    Reserve u64 u64
  | Open_fd int
  | Map_fixed u64 u64
  | Clear u64 u64
  | Munmap u64 u64
  | Close_fd int
  | Unlink string

definition eal_get_fbarray_path :: "fb_sys \<Rightarrow> string \<Rightarrow> string" where
  "eal_get_fbarray_path sys name = s_runtime_dir sys @ ''/fbarray_'' @ name"

definition INT_MAX :: u32 where "INT_MAX = 0x7fffffff"

definition fully_validate :: "int \<Rightarrow> string option \<Rightarrow> u32 \<Rightarrow> u32 \<Rightarrow> int \<times> int" where
  "fully_validate errno name elt_sz len =
     (case name of
        None \<Rightarrow> (- 1, eINVAL)
      | Some nm \<Rightarrow>
          if elt_sz = 0 \<or> len = 0 \<or> len > INT_MAX then (- 1, eINVAL)
          else if min (length nm) RTE_FBARRAY_NAME_LEN = RTE_FBARRAY_NAME_LEN then (- 1, eNAMETOOLONG)
          else (0, errno))"

definition resize_and_map :: "fb_sys \<Rightarrow> int \<Rightarrow> u64 \<Rightarrow> u64 \<Rightarrow> int \<times> int \<times> sys_call list" where
  "resize_and_map sys errno addr sz =
     (if s_ftruncate_fails sys then (- 1, s_errno sys, [])
      else if s_mmap sys addr \<noteq> addr then (- 1, s_errno sys, [])
      else (0, errno, [Map_fixed addr sz]))"

text \<open>What the label \<open>fail\<close> does with the reservation and the descriptor, if there are any.\<close>

definition fail_cleanup :: "u64 \<Rightarrow> u64 \<Rightarrow> int \<Rightarrow> sys_call list" where
  "fail_cleanup data mmap_len fd =
     (if data \<noteq> 0 then [Munmap data mmap_len] else []) @ (if fd \<ge> 0 then [Close_fd fd] else [])"

text \<open>The mask right after the mapping was cleared.\<close>

definition fresh_mask :: "u32 \<Rightarrow> used_mask" where
  "fresh_mask len =
     (let n = MASK_LEN_TO_IDX (RTE_ALIGN_CEIL len MASK_ALIGN)
      in \<lparr>n_masks = n, msk_data = replicate (unat n) 0\<rparr>)"

definition rte_fbarray_init ::
    "fb_sys \<Rightarrow> int \<Rightarrow> rte_fbarray option \<Rightarrow> string option \<Rightarrow> u32 \<Rightarrow> u32 \<Rightarrow>
     int \<times> int \<times> rte_fbarray option \<times> sys_call list" where
  "rte_fbarray_init sys errno arr_opt name len elt_sz =
     (case arr_opt of
        None \<Rightarrow> (- 1, eINVAL, None, [])
      | Some arr \<Rightarrow>
        let (ret, errno) = fully_validate errno name elt_sz len
        in if ret \<noteq> 0 then (- 1, errno, Some arr, [])
        else let page_sz = s_page_sz sys
        in if page_sz = - 1 then (- 1, errno, Some arr, fail_cleanup 0 0 (- 1))
        else let mmap_len = calc_data_size page_sz elt_sz len;
                 (data, mmap_len) = s_virtual_area sys 0 mmap_len
        in if data = 0 then (- 1, errno, Some arr, fail_cleanup 0 mmap_len (- 1))
        else let reserved = [Reserve data mmap_len];
                 fd = s_open sys (eal_get_fbarray_path sys (the name))
        in if fd < 0 then (- 1, s_errno sys, Some arr, reserved @ fail_cleanup data mmap_len fd)
        else if s_flock_ex_fails sys
          then (- 1, eBUSY, Some arr, reserved @ [Open_fd fd] @ fail_cleanup data mmap_len fd)
        else if s_flock_sh_fails sys
          then (- 1, s_errno sys, Some arr, reserved @ [Open_fd fd] @ fail_cleanup data mmap_len fd)
        else let (ret, errno, calls) = resize_and_map sys errno data mmap_len
        in if ret \<noteq> 0
          then (- 1, errno, Some arr, reserved @ [Open_fd fd] @ calls @ fail_cleanup data mmap_len fd)
        else (0, errno,
              Some (arr\<lparr>fb_name := take (RTE_FBARRAY_NAME_LEN - 1) (the name), fb_data := data,
                        fb_len := len, fb_elt_sz := elt_sz, fb_count := 0,
                        fb_mask := fresh_mask len,
                        fb_rwlock := rte_rwlock_init (fb_rwlock arr)\<rparr>),
              reserved @ [Open_fd fd] @ calls @ [Close_fd fd, Clear data mmap_len]))"

definition rte_fbarray_attach ::
    "fb_sys \<Rightarrow> int \<Rightarrow> rte_fbarray option \<Rightarrow> int \<times> int \<times> sys_call list" where
  "rte_fbarray_attach sys errno arr_opt =
     (case arr_opt of
        None \<Rightarrow> (- 1, eINVAL, [])
      | Some arr \<Rightarrow>
        let (ret, errno) = fully_validate errno (Some (fb_name arr)) (fb_elt_sz arr) (fb_len arr)
        in if ret \<noteq> 0 then (- 1, errno, [])
        else let page_sz = s_page_sz sys
        in if page_sz = - 1 then (- 1, errno, fail_cleanup 0 0 (- 1))
        else let mmap_len = calc_data_size page_sz (fb_elt_sz arr) (fb_len arr);
                 (data, mmap_len) = s_virtual_area sys (fb_data arr) mmap_len
        in if data = 0 then (- 1, errno, fail_cleanup 0 mmap_len (- 1))
        else let reserved = [Reserve data mmap_len];
                 fd = s_open sys (eal_get_fbarray_path sys (fb_name arr))
        in if fd < 0 then (- 1, s_errno sys, reserved @ fail_cleanup data mmap_len fd)
        else if s_flock_sh_fails sys
          then (- 1, s_errno sys, reserved @ [Open_fd fd] @ fail_cleanup data mmap_len fd)
        else let (ret, errno, calls) = resize_and_map sys errno data mmap_len
        in if ret \<noteq> 0 then (- 1, errno, reserved @ [Open_fd fd] @ calls @ fail_cleanup data mmap_len fd)
        else (0, errno, reserved @ [Open_fd fd] @ calls @ [Close_fd fd]))"

definition rte_fbarray_detach :: "fb_sys \<Rightarrow> int \<Rightarrow> rte_fbarray option \<Rightarrow> int \<times> int \<times> sys_call list" where
  "rte_fbarray_detach sys errno arr_opt =
     (case arr_opt of
        None \<Rightarrow> (- 1, eINVAL, [])
      | Some arr \<Rightarrow>
        let page_sz = s_page_sz sys
        in if page_sz = - 1 then (- 1, errno, [])
           else (0, errno, [Munmap (fb_data arr) (calc_data_size page_sz (fb_elt_sz arr) (fb_len arr))]))"

definition cleared_fbarray :: rte_fbarray where
  "cleared_fbarray = \<lparr>fb_name = [], fb_count = 0, fb_len = 0, fb_elt_sz = 0, fb_data = 0, fb_rwlock = 0,
                      fb_mask = \<lparr>n_masks = 0, msk_data = []\<rparr>\<rparr>"

definition rte_fbarray_destroy ::
    "fb_sys \<Rightarrow> int \<Rightarrow> rte_fbarray option \<Rightarrow> int \<times> int \<times> rte_fbarray option \<times> sys_call list" where
  "rte_fbarray_destroy sys errno arr_opt =
     (let (ret, errno, calls) = rte_fbarray_detach sys errno arr_opt
      in case arr_opt of
           None \<Rightarrow> (ret, errno, None, calls)
         | Some arr \<Rightarrow>
           if ret \<noteq> 0 then (ret, errno, Some arr, calls)
           else let path = eal_get_fbarray_path sys (fb_name arr); fd = s_open sys path
           in if fd < 0 then (- 1, errno, Some arr, calls)
              else if s_flock_ex_fails sys then (- 1, eBUSY, Some arr, calls @ [Open_fd fd, Close_fd fd])
              else (0, errno, Some cleared_fbarray, calls @ [Open_fd fd, Unlink path, Close_fd fd]))"

subsection \<open>Dump\<close>

datatype dump_line = Dump_invalid | Dump_name string | Dump_sizes u32 u32 u32 | Dump_mask nat u64

text \<open>The lines written, \<open>rte_errno\<close> and the array; \<open>has_file\<close> is false for a null \<open>FILE\<close> pointer.\<close>

definition rte_fbarray_dump_metadata ::
    "int \<Rightarrow> rte_fbarray option \<Rightarrow> bool \<Rightarrow> (dump_line list \<times> int \<times> rte_fbarray option) option" where
  "rte_fbarray_dump_metadata errno arr_opt has_file =
     (case arr_opt of
        None \<Rightarrow> Some ([], eINVAL, None)
      | Some arr \<Rightarrow>
        if \<not> has_file then Some ([], eINVAL, Some arr)
        else let (ret, errno) = fully_validate errno (Some (fb_name arr)) (fb_elt_sz arr) (fb_len arr)
        in if ret \<noteq> 0
           then Some ([Dump_invalid], errno, Some (arr\<lparr>fb_rwlock := rte_rwlock_read_unlock (fb_rwlock arr)\<rparr>))
           else do {
             locked \<leftarrow> rte_rwlock_read_lock (fb_rwlock arr);
             if unat (n_masks (fb_mask arr)) \<le> length (msk_data (fb_mask arr)) then
               Some ([Dump_name (fb_name arr), Dump_sizes (fb_len arr) (fb_count arr) (fb_elt_sz arr)] @
                     map (\<lambda>i. Dump_mask i (msk_data (fb_mask arr) ! i)) [0..<unat (n_masks (fb_mask arr))],
                     errno, Some (arr\<lparr>fb_rwlock := rte_rwlock_read_unlock locked\<rparr>))
             else None })"

text \<open>The loops compute by their own equations.\<close>

declare find_next_loop.simps [code] find_contig_loop.simps [code] lookahead_loop.simps [code]
  find_next_n_loop.simps [code] rte_rwlock_read_lock.simps [code] rte_rwlock_write_lock.simps [code]

end
