(* ===== verification/Fbarray_Search.thy ===== *)
theory Fbarray_Search
  imports Fbarray
begin

text \<open>
  What the searches and updates of the file-backed array promise.  The abstract array is the predicate
  \<open>used_at\<close> on the indexes below \<open>len\<close>; a search is \<open>find\<close> or \<open>takeWhile\<close> over a range of indexes.
\<close>

subsection \<open>Indexes and masks\<close>

lemma div_mod_64:
  fixes s :: nat
  obtains q r where "s = 64 * q + r" "r < 64" "s div 64 = q" "s mod 64 = r"
  using that [of "s div 64" "s mod 64"] by simp

lemma before_block: "k + 1 \<le> l div 64 \<Longrightarrow> j < 64 \<Longrightarrow> 64 * k + j < l" for k l j :: nat
  by (rule div_mod_64 [of l]) simp

lemma after_block: "s div 64 + 1 \<le> k \<Longrightarrow> s \<le> 64 * k + j" for k s j :: nat
  by (rule div_mod_64 [of s]) simp

lemma in_block: "s div 64 \<le> k \<Longrightarrow> s < 64 * (k + 1)" for k s :: nat
  by (rule div_mod_64 [of s]) simp

lemma same_block:
  fixes k l j :: nat
  assumes "k = l div 64"
  shows "64 * k + j < l \<longleftrightarrow> j < l mod 64" "l \<le> 64 * k + j \<longleftrightarrow> l mod 64 \<le> j"
  using assms by (rule_tac [!] div_mod_64 [of l]) simp_all

lemma mask_align: "MASK_ALIGN = 2 ^ 6"
  by (simp add: MASK_ALIGN_def MASK_SHIFT_def push_bit_eq_mult)

lemma unat_MASK_LEN_TO_IDX [simp]: "unat (MASK_LEN_TO_IDX x) = unat x div 64"
proof -
  have "unat (drop_bit 6 x) = unat x div 2 ^ 6"
    unfolding unsigned_drop_bit_eq by (simp only: drop_bit_eq_div take_bit_eq_mod mod_less unat_less_pow)
  then show ?thesis by (simp add: MASK_LEN_TO_IDX_def MASK_SHIFT_def)
qed

lemma align_floor_64: "unat (RTE_ALIGN_FLOOR (x :: u32) MASK_ALIGN) = unat x div 64 * 64"
proof -
  have "(ucast (MASK_ALIGN - 1) :: u32) = mask 6" by (simp add: mask_align mask_eq_exp_minus_1)
  then show ?thesis using unat_and_not_mask [of x 6] by (simp add: RTE_ALIGN_FLOOR_def)
qed

lemma unat_MASK_LEN_TO_MOD [simp]: "unat (MASK_LEN_TO_MOD x) = unat x mod 64"
proof -
  have "unat x div 64 * 64 \<le> unat x" by simp
  then have "unat (x - RTE_ALIGN_FLOOR x MASK_ALIGN) = unat x - unat x div 64 * 64"
    by (subst unat_sub_le) (simp_all add: word_le_nat_alt align_floor_64)
  then show ?thesis by (simp add: MASK_LEN_TO_MOD_def minus_div_mult_eq_mod)
qed

lemma unat_MASK_GET_IDX:
  "64 * unat i + unat m < 2 ^ 32 \<Longrightarrow> unat (MASK_GET_IDX i m) = 64 * unat i + unat m"
proof -
  assume lt: "64 * unat i + unat m < 2 ^ 32"
  have "unat (push_bit 6 i) = 64 * unat i"
    using lt by (simp add: push_bit_eq_mult unat_word_ariths mult.commute)
  then show ?thesis using lt by (simp add: MASK_GET_IDX_def MASK_SHIFT_def unat_add_no_wrap)
qed

lemma MASK_GET_IDX_of_nat:
  assumes "64 * unat i + m < 2 ^ 32" "m < 64"
  shows "MASK_GET_IDX i (of_nat m) = of_nat (64 * unat i + m)"
proof (rule word_unat_eq_iff [THEN iffD2])
  have "unat (of_nat m :: u32) = m" using assms(2) by (intro unat_of_nat_small) simp
  then have "unat (MASK_GET_IDX i (of_nat m)) = 64 * unat i + m"
    using unat_MASK_GET_IDX [of i "of_nat m"] assms(1) by metis
  moreover have "64 * unat i + m < 2 ^ LENGTH(32)" using assms(1) by simp
  ultimately show "unat (MASK_GET_IDX i (of_nat m)) = unat (of_nat (64 * unat i + m) :: u32)"
    using unat_of_nat_small by metis
qed

lemma bit_start_msk: "unat md < 64 \<Longrightarrow> j < 64 \<Longrightarrow> bit (start_msk md) j \<longleftrightarrow> unat md \<le> j"
proof -
  assume "unat md < 64" "j < 64"
  moreover have "push_bit (unat md) 1 - 1 = (mask (unat md) :: u64)"
    by (simp add: mask_eq_exp_minus_1 push_bit_eq_mult)
  ultimately show ?thesis by (simp add: start_msk_def bit_simps not_less)
qed

lemma bit_end_msk: "j < 64 \<Longrightarrow> bit (end_msk md) j \<longleftrightarrow> j < unat md"
  by (auto simp: end_msk_def bit_simps)

subsection \<open>The abstract array\<close>

definition used_at :: "rte_fbarray \<Rightarrow> nat \<Rightarrow> bool" where
  "used_at arr i = bit (msk_data (fb_mask arr) ! (i div 64)) (i mod 64)"

definition used_set :: "rte_fbarray \<Rightarrow> nat set" where
  "used_set arr = {i. i < unat (fb_len arr) \<and> used_at arr i}"

definition fb_wf :: "rte_fbarray \<Rightarrow> bool" where
  "fb_wf arr \<longleftrightarrow>
     0 < unat (fb_len arr) \<and> unat (fb_len arr) < 2 ^ 31 \<and>
     unat (n_masks (fb_mask arr)) = (unat (fb_len arr) + 63) div 64 \<and>
     length (msk_data (fb_mask arr)) = unat (n_masks (fb_mask arr)) \<and>
     unat (fb_count arr) = card (used_set arr)"

lemma used_at_nth: "j < 64 \<Longrightarrow> used_at arr (64 * k + j) = bit (msk_data (fb_mask arr) ! k) j"
  by (simp add: used_at_def)

lemma card_used_set: "card (used_set arr) \<le> unat (fb_len arr)"
proof -
  have "used_set arr \<subseteq> {..<unat (fb_len arr)}" by (auto simp: used_set_def)
  then show ?thesis using card_mono [of "{..<unat (fb_len arr)}"] by force
qed

lemma n_masks_bound:
  assumes "fb_wf arr"
  shows "unat (n_masks (fb_mask arr)) \<le> 2 ^ 25"
proof -
  have "unat (fb_len arr) + 63 \<le> 2 ^ 31 + 62" using assms by (simp add: fb_wf_def)
  then have "(unat (fb_len arr) + 63) div 64 \<le> (2 ^ 31 + 62) div 64" by (rule div_le_mono)
  then show ?thesis using assms by (simp add: fb_wf_def)
qed

text \<open>The word a search looks at, with everything outside \<open>start\<close> and \<open>len\<close> cut off.\<close>

definition cut_msk :: "rte_fbarray \<Rightarrow> u32 \<Rightarrow> bool \<Rightarrow> u32 \<Rightarrow> u64" where
  "cut_msk arr start used idx =
     (let cur = msk_data (fb_mask arr) ! unat idx;
          cur = (if \<not> used then NOT cur else cur);
          cur = (if idx = MASK_LEN_TO_IDX (fb_len arr) then cur AND end_msk (MASK_LEN_TO_MOD (fb_len arr)) else cur)
      in if idx = MASK_LEN_TO_IDX start then cur AND start_msk (MASK_LEN_TO_MOD start) else cur)"

lemma bit_cut_msk:
  assumes "fb_wf arr" "unat idx < unat (n_masks (fb_mask arr))" "unat start div 64 \<le> unat idx" "j < 64"
  shows "bit (cut_msk arr start used idx) j \<longleftrightarrow>
    used_at arr (64 * unat idx + j) = used \<and> unat start \<le> 64 * unat idx + j \<and> 64 * unat idx + j < unat (fb_len arr)"
proof -
  let ?L = "unat (fb_len arr)"
  have n: "unat idx < (?L + 63) div 64" using assms(1,2) by (simp add: fb_wf_def)
  have last: "idx = MASK_LEN_TO_IDX (fb_len arr) \<longleftrightarrow> unat idx = ?L div 64"
    and first: "idx = MASK_LEN_TO_IDX start \<longleftrightarrow> unat idx = unat start div 64"
    by (simp_all add: word_unat_eq_iff)
  have end_bit: "64 * unat idx + j < ?L \<longleftrightarrow> (unat idx = ?L div 64 \<longrightarrow> j < ?L mod 64)"
  proof (cases "unat idx = ?L div 64")
    case True
    then show ?thesis using same_block(1) [OF True] by simp
  next
    case False
    then have "unat idx + 1 \<le> ?L div 64" using n by linarith
    then have "64 * unat idx + j < ?L" using assms(4) by (rule before_block)
    with False show ?thesis by simp
  qed
  have start_bit: "unat start \<le> 64 * unat idx + j \<longleftrightarrow> (unat idx = unat start div 64 \<longrightarrow> unat start mod 64 \<le> j)"
  proof (cases "unat idx = unat start div 64")
    case True
    then show ?thesis using same_block(2) [OF True] by simp
  next
    case False
    then have "unat start div 64 + 1 \<le> unat idx" using assms(3) by linarith
    then have "unat start \<le> 64 * unat idx + j" by (rule after_block)
    with False show ?thesis by simp
  qed
  show ?thesis
    unfolding cut_msk_def Let_def last first end_bit start_bit used_at_nth [OF assms(4)]
    using assms(4) by (auto simp: bit_simps bit_start_msk bit_end_msk)
qed

subsection \<open>Searching a range block by block\<close>

lemma find_upt_Some:
  "a \<le> i \<Longrightarrow> i < b \<Longrightarrow> P i \<Longrightarrow> (\<And>j. a \<le> j \<Longrightarrow> j < i \<Longrightarrow> \<not> P j) \<Longrightarrow> find P [a..<b] = Some i"
  by (auto simp: find_Some_iff intro!: exI [of _ "i - a"])

lemma find_upt_None: "(\<And>j. a \<le> j \<Longrightarrow> j < b \<Longrightarrow> \<not> P j) \<Longrightarrow> find P [a..<b] = None"
  by (auto simp: find_None_iff)

lemma find_append: "find P (xs @ ys) = (case find P xs of None \<Rightarrow> find P ys | Some x \<Rightarrow> Some x)"
  by (induction xs) auto

lemma find_block:
  fixes w :: u64
  assumes "\<And>j. j < 64 \<Longrightarrow> bit w j \<longleftrightarrow> P (64 * k + j) \<and> a \<le> 64 * k + j \<and> 64 * k + j < b"
    and "64 * k \<le> a" "b \<le> 64 * k + 64"
  shows "find P [a..<b] = (if w = 0 then None else Some (64 * k + ctz w))"
proof (cases "w = 0")
  case True
  have "\<not> P i" if "a \<le> i" "i < b" for i
    using that assms(1) [of "i - 64 * k"] assms(2,3) True by auto
  then show ?thesis using True by (simp add: find_upt_None)
next
  case False
  note c = ctz_cases [OF False]
  then have "ctz w < 64" by simp
  have "\<not> P i" if "a \<le> i" "i < 64 * k + ctz w" for i
  proof -
    have "\<not> bit w (i - 64 * k)" using that assms(2) by (intro c(3)) auto
    then show ?thesis
      using that assms(1) [of "i - 64 * k"] assms(1) [OF \<open>ctz w < 64\<close>] c(2) assms(2,3) \<open>ctz w < 64\<close> by auto
  qed
  then show ?thesis
    using False assms(1) [OF \<open>ctz w < 64\<close>] c(2) by (auto intro!: find_upt_Some)
qed

text \<open>The range from where a search stands, cut at the end of its word.\<close>

lemma upt_block:
  assumes "s < 64 * (k + 1)"
  shows "[max s (64 * k)..<l] = [max s (64 * k)..<min l (64 * (k + 1))] @ [max s (64 * (k + 1))..<l]"
proof (cases "64 * (k + 1) \<le> l")
  case True
  then show ?thesis
    using assms upt_add_eq_append [of "max s (64 * k)" "64 * (k + 1)" "l - 64 * (k + 1)"]
    by (simp add: max_def min_def)
next
  case False
  then show ?thesis using assms by (simp add: max_def min_def)
qed

lemma find_next_loop_eq:
  assumes wf: "fb_wf arr"
  shows "unat start div 64 \<le> unat idx \<Longrightarrow> unat idx \<le> unat (n_masks (fb_mask arr)) \<Longrightarrow>
    find_next_loop (fb_mask arr) used (MASK_LEN_TO_IDX start) (start_msk (MASK_LEN_TO_MOD start))
        (MASK_LEN_TO_IDX (fb_len arr)) (end_msk (MASK_LEN_TO_MOD (fb_len arr))) idx =
      Some (map_option of_nat
        (find (\<lambda>i. used_at arr i = used) [max (unat start) (64 * unat idx)..<unat (fb_len arr)]))"
proof (induction "unat (n_masks (fb_mask arr)) - unat idx" arbitrary: idx)
  case 0
  then have "unat idx = unat (n_masks (fb_mask arr))" by simp
  then have "unat (fb_len arr) \<le> 64 * unat idx" using wf by (simp add: fb_wf_def)
  then have "[max (unat start) (64 * unat idx)..<unat (fb_len arr)] = []" by simp
  then show ?case
    using \<open>unat idx = unat (n_masks (fb_mask arr))\<close> unfolding \<open>[max _ _..<_] = []\<close>
    by (subst find_next_loop.simps) (simp add: word_less_nat_alt)
next
  case (Suc k)
  let ?P = "\<lambda>i. used_at arr i = used" and ?L = "unat (fb_len arr)" and ?s = "unat start" and ?i = "unat idx"
  let ?w = "cut_msk arr start used idx"
  have lt: "?i < unat (n_masks (fb_mask arr))" using Suc.hyps(2) by simp
  have n: "unat (n_masks (fb_mask arr)) \<le> 2 ^ 25" using wf by (rule n_masks_bound)
  have next_idx: "unat (idx + 1) = ?i + 1"
    using lt n unat_add_no_wrap [of idx 1] by simp
  have rd: "rd (msk_data (fb_mask arr)) idx = Some (msk_data (fb_mask arr) ! ?i)"
    using lt wf by (simp add: rd_Some fb_wf_def)
  have s: "?s < 64 * (?i + 1)" using Suc.prems(1) by (rule in_block)
  have block: "find ?P [max ?s (64 * ?i)..<min ?L (64 * (?i + 1))] = (if ?w = 0 then None else Some (64 * ?i + ctz ?w))"
    using bit_cut_msk [OF wf lt Suc.prems(1)] by (intro find_block) auto
  have split: "find ?P [max ?s (64 * ?i)..<?L] =
      (if ?w = 0 then find ?P [max ?s (64 * (?i + 1))..<?L] else Some (64 * ?i + ctz ?w))"
    unfolding upt_block [OF s, of ?L] find_append block by simp
  have "find_next_loop (fb_mask arr) used (MASK_LEN_TO_IDX start) (start_msk (MASK_LEN_TO_MOD start))
        (MASK_LEN_TO_IDX (fb_len arr)) (end_msk (MASK_LEN_TO_MOD (fb_len arr))) idx =
      (if ?w = 0 then find_next_loop (fb_mask arr) used (MASK_LEN_TO_IDX start) (start_msk (MASK_LEN_TO_MOD start))
        (MASK_LEN_TO_IDX (fb_len arr)) (end_msk (MASK_LEN_TO_MOD (fb_len arr))) (idx + 1)
       else Some (Some (MASK_GET_IDX idx (of_nat (ctz ?w)))))"
    using lt by (subst find_next_loop.simps) (simp add: word_less_nat_alt rd cut_msk_def Let_def)
  moreover have "MASK_GET_IDX idx (of_nat (ctz ?w)) = of_nat (64 * ?i + ctz ?w)" if "?w \<noteq> 0"
  proof -
    have "ctz ?w < 64" using ctz_cases(1) [OF that] by simp
    moreover have "64 * ?i + ctz ?w < 2 ^ 32" using lt n \<open>ctz ?w < 64\<close> by simp
    ultimately show ?thesis by (simp only: MASK_GET_IDX_of_nat)
  qed
  moreover have "find_next_loop (fb_mask arr) used (MASK_LEN_TO_IDX start) (start_msk (MASK_LEN_TO_MOD start))
        (MASK_LEN_TO_IDX (fb_len arr)) (end_msk (MASK_LEN_TO_MOD (fb_len arr))) (idx + 1) =
      Some (map_option of_nat (find ?P [max ?s (64 * (?i + 1))..<?L]))"
    using Suc.hyps(1) [of "idx + 1"] Suc.hyps(2) Suc.prems lt by (simp only: next_idx)
  ultimately show ?case by (simp only: split) (simp split: if_splits)
qed

lemma sint_of_nat_small: "i < 2 ^ 31 \<Longrightarrow> sint (of_nat i :: u32) = int i"
proof -
  assume i: "i < 2 ^ 31"
  then have "unat (of_nat i :: u32) = i" by (intro unat_of_nat_small) simp
  then show ?thesis using i sint_eq_unat [of "of_nat i :: u32"] by simp
qed

lemma find_next_eq:
  assumes wf: "fb_wf arr" and start: "start < fb_len arr"
  shows "find_next errno arr start used =
    Some (case find (\<lambda>i. used_at arr i = used) [unat start..<unat (fb_len arr)] of
            Some i \<Rightarrow> (int i, errno) | None \<Rightarrow> (- 1, if used then - eNOENT else - eNOSPC))"
proof -
  let ?f = "find (\<lambda>i. used_at arr i = used) [unat start..<unat (fb_len arr)]"
  have "unat start div 64 \<le> unat (n_masks (fb_mask arr))"
    using wf start by (simp add: fb_wf_def word_less_nat_alt div_le_mono)
  moreover have "max (unat start) (64 * (unat start div 64)) = unat start" by simp
  ultimately have "find_next errno arr start used =
      Some (case map_option of_nat ?f of Some idx \<Rightarrow> (sint (idx :: u32), errno)
        | None \<Rightarrow> (- 1, if used then - eNOENT else - eNOSPC))"
    using find_next_loop_eq [OF wf, of start "MASK_LEN_TO_IDX start" used]
    by (simp add: find_next_def Let_def)
  moreover have "i < 2 ^ 31" if "?f = Some i" for i
    using that wf by (auto simp: find_Some_iff fb_wf_def)
  ultimately show ?thesis by (auto simp: sint_of_nat_small split: option.split)
qed

subsection \<open>Measuring a run block by block\<close>

lemma takeWhile_stops:
  assumes "\<And>j. j < c \<Longrightarrow> P (a + j)" "a + c \<le> l" "a + c < l \<Longrightarrow> \<not> P (a + c)"
  shows "length (takeWhile P [a..<l]) = c"
proof (cases "a + c < l")
  case True
  then show ?thesis using assms by (intro takeWhile_length_eqI) auto
next
  case False
  then have l: "l = a + c" using assms(2) by simp
  have "takeWhile P [a..<l] = [a..<l]"
    using assms(1) l by (auto simp: takeWhile_eq_all_conv dest!: le_Suc_ex)
  then have "length (takeWhile P [a..<l]) = l - a" by (simp only: length_upt)
  then show ?thesis using l by simp
qed

lemma takeWhile_goes_on:
  assumes "\<And>j. j < c \<Longrightarrow> P (a + j)" "a + c \<le> l"
  shows "length (takeWhile P [a..<l]) = c + length (takeWhile P [a + c..<l])"
proof -
  have "[a..<l] = [a..<a + c] @ [a + c..<l]"
    using assms(2) upt_add_eq_append [of a "a + c" "l - (a + c)"] by simp
  moreover have "\<forall>x\<in>set [a..<a + c]. P x" using assms(1) by (auto dest!: le_Suc_ex)
  ultimately show ?thesis by (simp add: takeWhile_append)
qed

lemma run_block:
  fixes x :: u64
  assumes bits: "\<And>j. j < 64 \<Longrightarrow> bit x j \<longleftrightarrow> j < need \<and> P (a + j) \<and> a + j < l"
    and "need \<le> 64" "a \<le> l"
  shows "NOT x = 0 \<or> need \<le> ctz (NOT x) \<Longrightarrow>
      length (takeWhile P [a..<l]) = need + length (takeWhile P [a + need..<l])" (is "?full \<Longrightarrow> _")
    and "NOT x = 0 \<Longrightarrow> need = 64"
    and "\<not> (NOT x = 0 \<or> need \<le> ctz (NOT x)) \<Longrightarrow> length (takeWhile P [a..<l]) = ctz (NOT x)"
proof -
  have zero: "bit x j" if "NOT x = 0" "j < 64" for j
  proof -
    have "\<not> bit (NOT x) j" by (simp only: that(1) bit_0_eq bot_apply bot_bool_def not_False_eq_True)
    then show ?thesis using that(2) by (simp add: bit_not_iff)
  qed
  show "need = 64" if "NOT x = 0" using zero [OF that, of 63] bits [of 63] assms(2) by simp
  show "length (takeWhile P [a..<l]) = need + length (takeWhile P [a + need..<l])" if full: ?full
  proof -
    have bit: "bit x j" if "j < need" for j
    proof (cases "NOT x = 0")
      case True
      then show ?thesis using zero that assms(2) by simp
    next
      case False
      then have "\<not> bit (NOT x) j" using full that by (intro ctz_cases(3)) auto
      then show ?thesis using that assms(2) by (simp add: bit_not_iff)
    qed
    have "P (a + j) \<and> a + j < l" if "j < need" for j using bit [OF that] bits [of j] that assms(2) by simp
    moreover have "a + need \<le> l"
    proof (cases need)
      case (Suc k)
      then show ?thesis using calculation [of k] by simp
    qed (use assms(3) in simp)
    ultimately show ?thesis by (intro takeWhile_goes_on) auto
  qed
  show "length (takeWhile P [a..<l]) = ctz (NOT x)" if "\<not> ?full"
  proof -
    let ?c = "ctz (NOT x)"
    have c: "?c < need" "NOT x \<noteq> 0" using that by auto
    then have "?c < 64" using assms(2) by simp
    have "bit x j" if "j < ?c" for j
      using ctz_cases(3) [OF c(2) that] that \<open>?c < 64\<close> by (simp add: bit_not_iff)
    then have run: "P (a + j) \<and> a + j < l" if "j < ?c" for j
      using bits [of j] that \<open>?c < 64\<close> by simp
    have "\<not> bit x ?c" using ctz_cases(2) [OF c(2)] by (simp add: bit_not_iff)
    then have stop: "\<not> (P (a + ?c) \<and> a + ?c < l)" using bits [OF \<open>?c < 64\<close>] c(1) by simp
    have "a + ?c \<le> l"
    proof (cases ?c)
      case (Suc k)
      then show ?thesis using run [of k] by simp
    qed (use assms(3) in simp)
    then show ?thesis using run stop by (intro takeWhile_stops) auto
  qed
qed

lemma find_contig_loop_step:
  assumes "idx < n_masks msk" "rd (msk_data msk) idx = Some w"
    and cur: "cur = (if idx = last_idx then (if \<not> used then NOT w else w) AND last_msk
                     else (if \<not> used then NOT w else w))"
    and x: "(if idx = first then (drop_bit (unat first_mod) cur, ucast MASK_ALIGN - first_mod)
             else (cur, ucast MASK_ALIGN)) = (x, need)"
  shows "find_contig_loop msk used first first_mod last_idx last_msk idx result =
    (if NOT x = 0 \<or> need \<le> of_nat (ctz (NOT x))
     then find_contig_loop msk used first first_mod last_idx last_msk (idx + 1) (result + need)
     else Some (result + of_nat (ctz (NOT x))))"
  by (subst find_contig_loop.simps)
    (simp only: assms(1,2) if_True bind.bind_lunit Let_def cur [symmetric] x prod.case not_less [symmetric]
      if_not_P de_Morgan_disj split: if_split, auto)

lemma find_contig_loop_eq:
  assumes wf: "fb_wf arr" and start: "start < fb_len arr"
  shows "unat start div 64 \<le> unat idx \<Longrightarrow> unat idx \<le> unat (n_masks (fb_mask arr)) \<Longrightarrow>
    find_contig_loop (fb_mask arr) used (MASK_LEN_TO_IDX start) (MASK_LEN_TO_MOD start)
        (MASK_LEN_TO_IDX (fb_len arr)) (end_msk (MASK_LEN_TO_MOD (fb_len arr))) idx result =
      Some (result + of_nat
        (length (takeWhile (\<lambda>i. used_at arr i = used) [max (unat start) (64 * unat idx)..<unat (fb_len arr)])))"
proof (induction "unat (n_masks (fb_mask arr)) - unat idx" arbitrary: idx result)
  case 0
  then have i: "unat idx = unat (n_masks (fb_mask arr))" by simp
  then have "unat (fb_len arr) \<le> 64 * unat idx" using wf by (simp add: fb_wf_def)
  then have "[max (unat start) (64 * unat idx)..<unat (fb_len arr)] = []" by simp
  then show ?case
    using i unfolding \<open>[max _ _..<_] = []\<close>
    by (subst find_contig_loop.simps) (simp add: word_less_nat_alt)
next
  case (Suc k)
  let ?P = "\<lambda>i. used_at arr i = used" and ?L = "unat (fb_len arr)" and ?s = "unat start" and ?i = "unat idx"
  let ?first = "MASK_LEN_TO_IDX start" and ?fm = "MASK_LEN_TO_MOD start"
  have lt: "?i < unat (n_masks (fb_mask arr))" using Suc.hyps(2) by simp
  have n: "unat (n_masks (fb_mask arr)) \<le> 2 ^ 25" using wf by (rule n_masks_bound)
  have next_idx: "unat (idx + 1) = ?i + 1" using lt n unat_add_no_wrap [of idx 1] by simp
  have rd: "rd (msk_data (fb_mask arr)) idx = Some (msk_data (fb_mask arr) ! ?i)"
    using lt wf by (simp add: rd_Some fb_wf_def)
  define cur where "cur = (let cur = msk_data (fb_mask arr) ! ?i; cur = (if \<not> used then NOT cur else cur)
    in if idx = MASK_LEN_TO_IDX (fb_len arr) then cur AND end_msk (MASK_LEN_TO_MOD (fb_len arr)) else cur)"
  define off where "off = (if idx = ?first then ?s mod 64 else 0)"
  define x where "x = drop_bit off cur"
  define need :: u32 where "need = 64 - of_nat off"
  define a where "a = max ?s (64 * ?i)"
  have "off < 64" by (simp add: off_def)
  have un: "unat need = 64 - off"
  proof -
    have "unat (of_nat off :: u32) = off" using \<open>off < 64\<close> by (intro unat_of_nat_small) simp
    then show ?thesis unfolding need_def using \<open>off < 64\<close> by (subst unat_sub_le) (simp_all add: word_le_nat_alt)
  qed
  have first: "idx = ?first \<longleftrightarrow> ?i = ?s div 64" by (simp add: word_unat_eq_iff)
  have a: "a = 64 * ?i + off"
  proof (cases "?i = ?s div 64")
    case True
    moreover have "max ?s (64 * (?s div 64)) = ?s" "64 * (?s div 64) + ?s mod 64 = ?s" by simp_all
    ultimately show ?thesis by (simp only: a_def off_def first True if_True simp_thms)
  next
    case False
    then have "?s div 64 + 1 \<le> ?i" using Suc.prems(1) by simp
    then have "?s \<le> 64 * ?i" using after_block [of ?s ?i 0] by simp
    then show ?thesis using False by (simp add: a_def off_def first max_def)
  qed
  have bits: "bit x j \<longleftrightarrow> j < unat need \<and> ?P (a + j) \<and> a + j < ?L" if "j < 64" for j
  proof (cases "off + j < 64")
    case True
    have "?s \<le> a" by (simp add: a_def)
    then have "?s \<le> 64 * ?i + (off + j)" unfolding a by simp
    have "cut_msk arr start used idx = (if idx = ?first then cur AND start_msk ?fm else cur)"
      unfolding cut_msk_def cur_def Let_def by (rule refl)
    moreover have "bit (start_msk ?fm) (off + j)" if "idx = ?first"
      using that True bit_start_msk [of ?fm "off + j"] by (simp add: off_def)
    ultimately have "bit cur (off + j) \<longleftrightarrow> bit (cut_msk arr start used idx) (off + j)"
      by (simp add: bit_and_iff)
    then show ?thesis
      using True bit_cut_msk [OF wf lt Suc.prems(1) True, of used] \<open>?s \<le> 64 * ?i + (off + j)\<close>
      by (auto simp: x_def bit_drop_bit_eq un a add.assoc)
  next
    case False
    then have "\<not> bit cur (off + j)" using bit_imp_le_length [of cur "off + j"] by auto
    moreover have "\<not> j < 64 - off" using False by simp
    ultimately show ?thesis by (simp add: x_def bit_drop_bit_eq un)
  qed
  have "?i + 1 \<le> (?L + 63) div 64" using lt wf by (simp add: fb_wf_def)
  then have "64 * ?i \<le> ?L" using before_block [of ?i "?L + 63" 63] by simp
  then have aL: "a \<le> ?L" using start by (simp add: a_def word_less_nat_alt)
  have next_a: "max ?s (64 * (?i + 1)) = a + unat need"
    using in_block [OF Suc.prems(1)] a un \<open>off < 64\<close> by simp
  note run = run_block [of x "unat need" ?P a ?L, OF bits _ aL]
  have "need \<le> 64" using un by (simp add: word_le_nat_alt)
  have c: "unat (of_nat (ctz (NOT x)) :: u32) = ctz (NOT x)" if "NOT x \<noteq> 0"
    using ctz_cases(1) [OF that] by (intro unat_of_nat_small) simp
  have "find_contig_loop (fb_mask arr) used ?first ?fm
        (MASK_LEN_TO_IDX (fb_len arr)) (end_msk (MASK_LEN_TO_MOD (fb_len arr))) idx result =
      (if NOT x = 0 \<or> need \<le> of_nat (ctz (NOT x))
       then find_contig_loop (fb_mask arr) used ?first ?fm
         (MASK_LEN_TO_IDX (fb_len arr)) (end_msk (MASK_LEN_TO_MOD (fb_len arr))) (idx + 1) (result + need)
       else Some (result + of_nat (ctz (NOT x))))"
  proof -
    have "(if idx = ?first then (drop_bit (unat ?fm) cur, ucast MASK_ALIGN - ?fm) else (cur, ucast MASK_ALIGN)) =
        (x, need)"
    proof (cases "idx = ?first")
      case True
      have "?fm = of_nat off" using True by (simp add: off_def word_unat_eq_iff unat_of_nat take_bit_eq_mod)
      then have "ucast MASK_ALIGN - ?fm = need" unfolding need_def by (simp only: mask_align) simp
      moreover have "drop_bit (unat ?fm) cur = x" by (simp add: x_def off_def True)
      ultimately show ?thesis using True by (simp only: if_True simp_thms)
    next
      case False
      then show ?thesis by (simp add: x_def need_def off_def mask_align)
    qed
    then show ?thesis
      using lt by (intro find_contig_loop_step [OF _ rd]) (simp_all only: word_less_nat_alt cur_def Let_def)
  qed
  moreover have "find_contig_loop (fb_mask arr) used ?first ?fm
         (MASK_LEN_TO_IDX (fb_len arr)) (end_msk (MASK_LEN_TO_MOD (fb_len arr))) (idx + 1) (result + need) =
      Some (result + need + of_nat (length (takeWhile ?P [a + unat need..<?L])))"
    using Suc.hyps(1) [of "idx + 1" "result + need"] Suc.hyps(2) Suc.prems lt
    by (simp only: next_idx next_a)
  moreover have cond: "NOT x = 0 \<or> need \<le> of_nat (ctz (NOT x)) \<longleftrightarrow> NOT x = 0 \<or> unat need \<le> ctz (NOT x)"
    by (cases "NOT x = 0") (simp_all only: word_le_nat_alt c simp_thms)
  moreover have "unat need \<le> 64" using un by simp
  ultimately show ?case
    using run(1,3) unfolding a_def [symmetric] cond
    by (cases "NOT x = 0 \<or> unat need \<le> ctz (NOT x)") (simp_all only: if_True if_False of_nat_add of_nat_unat_same add.assoc simp_thms)
qed

lemma find_contig_eq:
  assumes wf: "fb_wf arr" and start: "start < fb_len arr"
  shows "find_contig arr start used =
    Some (int (length (takeWhile (\<lambda>i. used_at arr i = used) [unat start..<unat (fb_len arr)])))"
proof -
  let ?n = "length (takeWhile (\<lambda>i. used_at arr i = used) [unat start..<unat (fb_len arr)])"
  have "unat start div 64 \<le> unat (n_masks (fb_mask arr))"
    using wf start by (simp add: fb_wf_def word_less_nat_alt div_le_mono)
  moreover have "max (unat start) (64 * (unat start div 64)) = unat start" by simp
  ultimately have "find_contig arr start used = Some (sint (of_nat ?n :: u32))"
    using find_contig_loop_eq [OF wf start, of "MASK_LEN_TO_IDX start" used 0]
    by (simp add: find_contig_def Let_def)
  moreover have "?n < 2 ^ 31"
  proof -
    have "?n \<le> length [unat start..<unat (fb_len arr)]" by (rule length_takeWhile_le)
    also have "\<dots> \<le> unat (fb_len arr)" by simp
    also have "\<dots> < 2 ^ 31" using wf by (simp add: fb_wf_def)
    finally show ?thesis .
  qed
  ultimately show ?thesis by (simp only: sint_of_nat_small)
qed

subsection \<open>Marking elements\<close>

lemma idx_word:
  assumes wf: "fb_wf arr" and idx: "idx < fb_len arr"
  shows "unat (MASK_LEN_TO_IDX idx) < length (msk_data (fb_mask arr))"
proof -
  have "unat idx + 1 + 63 \<le> unat (fb_len arr) + 63" using idx by (simp add: word_less_nat_alt)
  then have "(unat idx + 64) div 64 \<le> (unat (fb_len arr) + 63) div 64" by (intro div_le_mono) simp
  then show ?thesis using wf by (simp add: fb_wf_def)
qed

lemma bit_and_pow: "(w AND push_bit k 1 \<noteq> 0) \<longleftrightarrow> bit (w :: u64) k" if "k < 64"
proof -
  have "(w AND push_bit k 1 \<noteq> 0) \<longleftrightarrow> (\<exists>j. bit (w AND push_bit k 1) j)"
    by (metis bit_0_eq bit_eqI bot_apply bot_boolE)
  also have "\<dots> \<longleftrightarrow> bit w k" using that by (auto simp: bit_simps)
  finally show ?thesis .
qed

text \<open>What an update of one mask word does to the abstract array.\<close>

lemma used_at_update:
  assumes k: "i div 64 < length (msk_data (fb_mask arr))"
    and w: "\<And>j. j < 64 \<Longrightarrow> bit w j = (if j = i mod 64 then b else bit (msk_data (fb_mask arr) ! (i div 64)) j)"
    and arr': "msk_data (fb_mask arr') = (msk_data (fb_mask arr))[i div 64 := w]"
  shows "used_at arr' j = (if j = i then b else used_at arr j)"
proof (cases "j div 64 = i div 64")
  case True
  then have "j = i \<longleftrightarrow> j mod 64 = i mod 64" by (metis div_mult_mod_eq)
  then show ?thesis using True k by (simp add: used_at_def arr' w)
next
  case False
  then have "j \<noteq> i" by auto
  then show ?thesis using False by (simp add: used_at_def arr')
qed

lemma is_used_eq:
  assumes wf: "fb_wf arr" and idx: "idx < fb_len arr"
  shows "rd (msk_data (fb_mask arr)) (MASK_LEN_TO_IDX idx) =
      Some (msk_data (fb_mask arr) ! (unat idx div 64))"
    "(msk_data (fb_mask arr) ! (unat idx div 64) AND push_bit (unat (MASK_LEN_TO_MOD idx)) 1 \<noteq> 0) =
      used_at arr (unat idx)"
  using idx_word [OF assms] bit_and_pow [of "unat idx mod 64" "msk_data (fb_mask arr) ! (unat idx div 64)"]
  by (simp_all add: rd_Some used_at_def)

text \<open>Setting or clearing element \<open>i\<close>, with the count that goes with it.\<close>

definition marked :: "rte_fbarray \<Rightarrow> nat \<Rightarrow> bool \<Rightarrow> rte_fbarray \<Rightarrow> bool" where
  "marked arr i b arr' \<longleftrightarrow>
     fb_len arr' = fb_len arr \<and> fb_elt_sz arr' = fb_elt_sz arr \<and> fb_data arr' = fb_data arr \<and>
     fb_name arr' = fb_name arr \<and> fb_rwlock arr' = fb_rwlock arr \<and>
     (\<forall>j. used_at arr' j = (if j = i then b else used_at arr j))"

lemma marked_used_set: "marked arr i b arr' \<Longrightarrow> i < unat (fb_len arr) \<Longrightarrow>
    used_set arr' = (if b then insert i (used_set arr) else used_set arr - {i})"
  by (auto simp: marked_def used_set_def split: if_splits)

lemma finite_used_set: "finite (used_set arr)"
  by (simp add: used_set_def)

lemma set_used_marks:
  assumes wf: "fb_wf arr" and lock: "fb_rwlock arr = 0" and idx: "idx < fb_len arr"
  shows "\<exists>arr'. set_used errno (Some arr) idx b = Some (0, errno, Some arr') \<and> fb_wf arr' \<and>
    marked arr (unat idx) b arr'"
proof -
  let ?i = "unat idx" and ?d = "msk_data (fb_mask arr)"
  let ?bit = "push_bit (unat (MASK_LEN_TO_MOD idx)) 1 :: u64"
  have k: "?i div 64 < length ?d" using idx_word [OF wf idx] by simp
  have i: "?i < unat (fb_len arr)" using idx by (simp add: word_less_nat_alt)
  define w where "w = (if b then ?d ! (?i div 64) OR ?bit else ?d ! (?i div 64) AND NOT ?bit)"
  define arr' where "arr' = (if used_at arr ?i = b then arr
    else arr\<lparr>fb_mask := (fb_mask arr)\<lparr>msk_data := ?d[?i div 64 := w]\<rparr>,
             fb_count := (if b then fb_count arr + 1 else fb_count arr - 1)\<rparr>)"
  have run: "set_used errno (Some arr) idx b = Some (0, errno, Some arr')"
    using idx k is_used_eq [OF wf idx] lock
    by (auto simp: set_used_def Let_def not_le write_lock_eq rte_rwlock_write_unlock_def rte_atomic32_defs
        builtin_defs wr_Some arr'_def w_def)
  have bits: "bit w j = (if j = ?i mod 64 then b else bit (?d ! (?i div 64)) j)" if "j < 64" for j
    using that by (auto simp: w_def bit_simps)
  have mark: "marked arr ?i b arr'"
  proof (cases "used_at arr ?i = b")
    case True
    then show ?thesis by (simp add: marked_def arr'_def)
  next
    case False
    then have "msk_data (fb_mask arr') = ?d[?i div 64 := w]" by (simp add: arr'_def)
    from used_at_update [OF k bits this] show ?thesis using False by (simp add: marked_def arr'_def)
  qed
  have "unat (fb_count arr') = card (used_set arr')"
  proof (cases "used_at arr ?i = b")
    case True
    then show ?thesis using wf by (simp add: arr'_def fb_wf_def)
  next
    case False
    have count: "unat (fb_count arr) = card (used_set arr)" using wf by (simp add: fb_wf_def)
    have mem: "?i \<in> used_set arr \<longleftrightarrow> \<not> b" using False i by (auto simp: used_set_def)
    show ?thesis
    proof (cases b)
      case True
      have "card (used_set arr) < 2 ^ 31" using card_used_set [of arr] wf by (simp add: fb_wf_def)
      then have "unat (fb_count arr + 1) = card (used_set arr) + 1"
        using count unat_add_no_wrap [of "fb_count arr" 1] by simp
      then show ?thesis
        using False True marked_used_set [OF mark i] mem finite_used_set [of arr] by (simp add: arr'_def)
    next
      case b: False
      then have "0 < card (used_set arr)" using mem finite_used_set [of arr] by (auto simp: card_gt_0_iff)
      then have "unat (fb_count arr - 1) = card (used_set arr) - 1"
        using count by (subst unat_minus_one) auto
      then show ?thesis
        using False b marked_used_set [OF mark i] mem finite_used_set [of arr] by (simp add: arr'_def)
    qed
  qed
  then have "fb_wf arr'" using wf by (auto simp: fb_wf_def arr'_def)
  with run mark show ?thesis by blast
qed

subsection \<open>Calls on an array whose lock is free\<close>

lemma read_locked_free:
  "fb_rwlock arr = 0 \<Longrightarrow> read_locked arr (Some (ret, errno)) = Some (ret, errno, Some arr)"
  by (simp add: read_locked_def read_lock_eq INT32_MAX_def rte_rwlock_read_unlock_def rte_atomic32_defs
      builtin_defs)

lemma full_iff:
  assumes wf: "fb_wf arr"
  shows "fb_len arr = fb_count arr \<longleftrightarrow> (\<forall>i<unat (fb_len arr). used_at arr i)"
proof -
  have "fb_len arr = fb_count arr \<longleftrightarrow> card (used_set arr) = card {..<unat (fb_len arr)}"
    using wf by (auto simp: fb_wf_def word_unat_eq_iff)
  also have "\<dots> \<longleftrightarrow> used_set arr = {..<unat (fb_len arr)}"
    by (metis card_subset_eq finite_lessThan lessThan_iff mem_Collect_eq subsetI used_set_def)
  also have "\<dots> \<longleftrightarrow> (\<forall>i<unat (fb_len arr). used_at arr i)" by (auto simp: used_set_def)
  finally show ?thesis .
qed

lemma unused_iff:
  assumes wf: "fb_wf arr"
  shows "fb_count arr = 0 \<longleftrightarrow> (\<forall>i<unat (fb_len arr). \<not> used_at arr i)"
proof -
  have "fb_count arr = 0 \<longleftrightarrow> card (used_set arr) = 0"
    using wf by (auto simp: fb_wf_def word_unat_eq_iff)
  also have "\<dots> \<longleftrightarrow> used_set arr = {}" by (simp add: finite_used_set)
  also have "\<dots> \<longleftrightarrow> (\<forall>i<unat (fb_len arr). \<not> used_at arr i)" by (auto simp: used_set_def)
  finally show ?thesis .
qed

text \<open>An array of 70 elements, with the first 66 in use but for 3 and 65.\<close>

definition sample_fbarray :: rte_fbarray where
  "sample_fbarray = \<lparr>fb_name = ''a'', fb_count = 64, fb_len = 70, fb_elt_sz = 8, fb_data = 0x1000, fb_rwlock = 0,
     fb_mask = \<lparr>n_masks = 2, msk_data = [0xfffffffffffffff7, 0x1]\<rparr>\<rparr>"

lemma sample_fbarray_wf: "fb_wf sample_fbarray"
proof -
  have "used_set sample_fbarray = set (filter (used_at sample_fbarray) [0..<70])"
    by (auto simp: used_set_def) (simp_all add: sample_fbarray_def)
  also have "filter (used_at sample_fbarray) [0..<70] = [0, 1, 2] @ [4..<65]"
    by code_simp
  finally have "card (used_set sample_fbarray) = 64" by simp
  then show ?thesis by (simp add: fb_wf_def) (simp add: sample_fbarray_def)
qed

subsection \<open>The properties of the array\<close>

text \<open>
  C22: On a well-formed array whose lock is free, \<open>rte_fbarray_find_next_free\<close> and
  \<open>rte_fbarray_find_next_used\<close> return, for every start below the length, the least index from there on
  that is free, or used; they return -1 exactly when there is none, and release the lock.
\<close>

theorem rte_fbarray_find_next_correct:
  assumes "fb_wf arr" and "fb_rwlock arr = 0" and "start < fb_len arr"
  shows "rte_fbarray_find_next_free errno (Some arr) start =
      Some (case find (\<lambda>i. \<not> used_at arr i) [unat start..<unat (fb_len arr)] of
              Some i \<Rightarrow> (int i, errno, Some arr)
            | None \<Rightarrow> (- 1, if fb_len arr = fb_count arr then eNOSPC else - eNOSPC, Some arr)) \<and>
    rte_fbarray_find_next_used errno (Some arr) start =
      Some (case find (used_at arr) [unat start..<unat (fb_len arr)] of
              Some i \<Rightarrow> (int i, errno, Some arr)
            | None \<Rightarrow> (- 1, if fb_count arr = 0 then eNOENT else - eNOENT, Some arr))"
proof -
  have full: "find (\<lambda>i. \<not> used_at arr i) [unat start..<unat (fb_len arr)] = None"
    if "fb_len arr = fb_count arr"
    using that full_iff [OF assms(1)] by (intro find_upt_None) auto
  have unused: "find (used_at arr) [unat start..<unat (fb_len arr)] = None" if "fb_count arr = 0"
    using that unused_iff [OF assms(1)] by (intro find_upt_None) auto
  show ?thesis
    using assms full unused
    by (auto simp: rte_fbarray_find_next_free_def rte_fbarray_find_next_used_def not_le find_next_eq
        read_locked_free split: option.split)
qed

theorem rte_fbarray_find_next_correct_witness:
  "rte_fbarray_find_next_free 0 (Some sample_fbarray) 4 = Some (65, 0, Some sample_fbarray) \<and>
   rte_fbarray_find_next_used 0 (Some sample_fbarray) 65 = Some (- 1, - eNOENT, Some sample_fbarray)"
proof -
  have lens: "unat (fb_len sample_fbarray) = 70" "fb_rwlock sample_fbarray = 0" "4 < fb_len sample_fbarray"
    "65 < fb_len sample_fbarray" "fb_count sample_fbarray \<noteq> 0"
    by (simp_all add: sample_fbarray_def)
  have "find (\<lambda>i. \<not> used_at sample_fbarray i) [4..<70] = Some 65"
    "find (used_at sample_fbarray) [65..<70] = None"
    by code_simp+
  then show ?thesis
    using rte_fbarray_find_next_correct [OF sample_fbarray_wf lens(2,3), of 0]
      rte_fbarray_find_next_correct [OF sample_fbarray_wf lens(2,4), of 0] by (simp add: lens)
qed

text \<open>
  \<open>rte_fbarray_find_contig_free\<close> and \<open>rte_fbarray_find_contig_used\<close> return the length of the run of
  free, or used, elements that begins at the start, across the words of the mask and never past the
  array; a full array is refused with ENOSPC by the first.
\<close>

theorem rte_fbarray_find_contig_correct:
  assumes "fb_wf arr" and "fb_rwlock arr = 0" and "start < fb_len arr"
  shows "rte_fbarray_find_contig_free errno (Some arr) start =
      Some (if fb_len arr = fb_count arr then (- 1, eNOSPC, Some arr)
            else (int (length (takeWhile (\<lambda>i. \<not> used_at arr i) [unat start..<unat (fb_len arr)])),
                  errno, Some arr)) \<and>
    rte_fbarray_find_contig_used errno (Some arr) start =
      Some (int (length (takeWhile (used_at arr) [unat start..<unat (fb_len arr)])), errno, Some arr)"
proof -
  have "length (takeWhile (\<lambda>i. \<not> used_at arr i) [unat start..<unat (fb_len arr)]) =
      unat (fb_len arr - start)" if "fb_count arr = 0"
  proof -
    have "takeWhile (\<lambda>i. \<not> used_at arr i) [unat start..<unat (fb_len arr)] = [unat start..<unat (fb_len arr)]"
      using that unused_iff [OF assms(1)] by (intro takeWhile_eq_all_conv [THEN iffD2]) auto
    then show ?thesis using assms(3) by (simp only: length_upt) (simp add: unat_sub_le less_imp_le)
  qed
  moreover have "sint (fb_len arr - start) = int (unat (fb_len arr - start))"
  proof (intro sint_eq_unat)
    have "unat (fb_len arr - start) = unat (fb_len arr) - unat start"
      using assms(3) by (intro unat_sub_le less_imp_le)
    also have "\<dots> \<le> unat (fb_len arr)" by simp
    also have "\<dots> < 2 ^ (LENGTH(32) - 1)" using assms(1) by (simp add: fb_wf_def)
    finally show "unat (fb_len arr - start) < 2 ^ (LENGTH(32) - 1)" .
  qed
  ultimately show ?thesis
    using assms
    by (auto simp: rte_fbarray_find_contig_free_def rte_fbarray_find_contig_used_def not_le find_contig_eq
        read_locked_free)
qed

theorem rte_fbarray_find_contig_correct_witness:
  "rte_fbarray_find_contig_used 0 (Some sample_fbarray) 4 = Some (61, 0, Some sample_fbarray) \<and>
   rte_fbarray_find_contig_free 0 (Some sample_fbarray) 65 = Some (5, 0, Some sample_fbarray)"
proof -
  have lens: "unat (fb_len sample_fbarray) = 70" "fb_rwlock sample_fbarray = 0" "4 < fb_len sample_fbarray"
    "65 < fb_len sample_fbarray" "fb_len sample_fbarray \<noteq> fb_count sample_fbarray"
    by (simp_all add: sample_fbarray_def)
  have "length (takeWhile (used_at sample_fbarray) [4..<70]) = 61"
    "length (takeWhile (\<lambda>i. \<not> used_at sample_fbarray i) [65..<70]) = 5"
    by code_simp+
  then show ?thesis
    using rte_fbarray_find_contig_correct [OF sample_fbarray_wf lens(2,3), of 0]
      rte_fbarray_find_contig_correct [OF sample_fbarray_wf lens(2,4), of 0] by (simp add: lens)
qed

text \<open>
  Setting and freeing an element on a well-formed array whose lock is free: the call succeeds,
  changes that element and no other, keeps the count equal to the number of used elements, and releases
  the lock; \<open>rte_fbarray_is_used\<close> tells the truth; an index past the end or a null array is refused with
  EINVAL and nothing is changed.
\<close>

theorem rte_fbarray_mark_correct:
  assumes "fb_wf arr" and "fb_rwlock arr = 0"
  shows "(if idx < fb_len arr
          then (\<exists>arr'. rte_fbarray_set_used errno (Some arr) idx = Some (0, errno, Some arr') \<and>
                  fb_wf arr' \<and> marked arr (unat idx) True arr') \<and>
               (\<exists>arr'. rte_fbarray_set_free errno (Some arr) idx = Some (0, errno, Some arr') \<and>
                  fb_wf arr' \<and> marked arr (unat idx) False arr') \<and>
               rte_fbarray_is_used errno (Some arr) idx =
                 Some (c_bool (used_at arr (unat idx)), errno, Some arr)
          else rte_fbarray_set_used errno (Some arr) idx = Some (- 1, eINVAL, Some arr) \<and>
               rte_fbarray_set_free errno (Some arr) idx = Some (- 1, eINVAL, Some arr) \<and>
               rte_fbarray_is_used errno (Some arr) idx = Some (- 1, eINVAL, Some arr)) \<and>
    rte_fbarray_set_used errno None idx = Some (- 1, eINVAL, None) \<and>
    rte_fbarray_is_used errno None idx = Some (- 1, eINVAL, None)"
proof -
  have "rte_fbarray_is_used errno (Some arr) idx = Some (c_bool (used_at arr (unat idx)), errno, Some arr)"
    if "idx < fb_len arr"
    using that is_used_eq [OF assms(1) that] assms(2)
    by (simp add: rte_fbarray_is_used_def not_le read_lock_eq INT32_MAX_def Let_def
        rte_rwlock_read_unlock_def rte_atomic32_defs builtin_defs)
  then show ?thesis
    using set_used_marks [OF assms]
    by (simp add: rte_fbarray_set_used_def rte_fbarray_set_free_def set_used_def rte_fbarray_is_used_def
        not_less Let_def)
qed

theorem rte_fbarray_mark_correct_witness:
  "(\<exists>arr'. rte_fbarray_set_used 0 (Some sample_fbarray) 65 = Some (0, 0, Some arr') \<and> fb_wf arr' \<and>
      used_at arr' 65 \<and> used_at arr' 4) \<and>
   rte_fbarray_is_used 0 (Some sample_fbarray) 3 = Some (0, 0, Some sample_fbarray)"
proof -
  have s: "fb_rwlock sample_fbarray = 0" "65 < fb_len sample_fbarray" "3 < fb_len sample_fbarray"
    by (simp_all add: sample_fbarray_def)
  have "used_at sample_fbarray 4" "\<not> used_at sample_fbarray 3" by code_simp+
  then show ?thesis
    using rte_fbarray_mark_correct [OF sample_fbarray_wf s(1), of 65 0]
      rte_fbarray_mark_correct [OF sample_fbarray_wf s(1), of 3 0] s
    by (auto simp: marked_def c_bool_def)
qed

subsection \<open>The interface of a set of indexes\<close>

text \<open>
  A client of the array sees a set of indexes below a bound: it adds and removes indexes and asks for the
  least one missing.
\<close>

locale index_set =
  fixes inv :: "'s \<Rightarrow> bool"
    and bound :: "'s \<Rightarrow> nat"
    and member :: "'s \<Rightarrow> nat \<Rightarrow> bool"
    and insert_idx remove_idx :: "'s \<Rightarrow> u32 \<Rightarrow> 's option"
    and least_missing :: "'s \<Rightarrow> int option"
  assumes insert_idx: "\<lbrakk>inv s; unat i < bound s\<rbrakk> \<Longrightarrow>
      \<exists>s'. insert_idx s i = Some s' \<and> inv s' \<and> bound s' = bound s \<and>
        (\<forall>j. member s' j = (j = unat i \<or> member s j))"
    and remove_idx: "\<lbrakk>inv s; unat i < bound s\<rbrakk> \<Longrightarrow>
      \<exists>s'. remove_idx s i = Some s' \<and> inv s' \<and> bound s' = bound s \<and>
        (\<forall>j. member s' j = (j \<noteq> unat i \<and> member s j))"
    and least_missing: "\<lbrakk>inv s; 0 < bound s\<rbrakk> \<Longrightarrow>
      least_missing s = Some (case find (\<lambda>j. \<not> member s j) [0..<bound s] of Some j \<Rightarrow> int j | None \<Rightarrow> - 1)"
    and bound_word: "inv s \<Longrightarrow> bound s < 2 ^ 32"

text \<open>An allocator on top: take the least free index, give indexes back.\<close>

definition alloc_index ::
    "('s \<Rightarrow> u32 \<Rightarrow> 's option) \<Rightarrow> ('s \<Rightarrow> int option) \<Rightarrow> 's \<Rightarrow> (nat option \<times> 's) option" where
  "alloc_index insert_idx least_missing s = do {
     r \<leftarrow> least_missing s;
     if r < 0 then Some (None, s)
     else map_option (\<lambda>s'. (Some (nat r), s')) (insert_idx s (of_nat (nat r))) }"

context index_set
begin

lemma alloc_fresh:
  assumes "inv s" "0 < bound s"
  shows "\<exists>r s'. alloc_index insert_idx least_missing s = Some (r, s') \<and> inv s' \<and> bound s' = bound s \<and>
    (case r of None \<Rightarrow> s' = s \<and> (\<forall>j<bound s. member s j)
     | Some i \<Rightarrow> i < bound s \<and> \<not> member s i \<and> (\<forall>j<i. member s j) \<and> (\<forall>j. member s' j = (j = i \<or> member s j)))"
proof (cases "find (\<lambda>j. \<not> member s j) [0..<bound s]")
  case None
  then have "\<forall>j<bound s. member s j" by (auto simp: find_None_iff)
  then show ?thesis using least_missing [OF assms] None assms(1) by (simp add: alloc_index_def)
next
  case (Some i)
  then have i: "i < bound s" "\<not> member s i" "\<forall>j<i. member s j" by (auto simp: find_Some_iff)
  then have u: "unat (of_nat i :: u32) = i"
    using bound_word [OF assms(1)] by (intro unat_of_nat_small) simp
  then obtain s' where "insert_idx s (of_nat i) = Some s'" "inv s'" "bound s' = bound s"
    "\<forall>j. member s' j = (j = i \<or> member s j)"
    using insert_idx [OF assms(1), of "of_nat i"] i(1) by auto
  then show ?thesis using least_missing [OF assms] Some i by (simp add: alloc_index_def)
qed

end

text \<open>The array as such a set: the calls that mark, free and search, on the state they return.\<close>

definition fb_insert :: "rte_fbarray \<Rightarrow> u32 \<Rightarrow> rte_fbarray option" where
  "fb_insert arr i = Option.bind (rte_fbarray_set_used 0 (Some arr) i) (\<lambda>(_, _, a). a)"

definition fb_remove :: "rte_fbarray \<Rightarrow> u32 \<Rightarrow> rte_fbarray option" where
  "fb_remove arr i = Option.bind (rte_fbarray_set_free 0 (Some arr) i) (\<lambda>(_, _, a). a)"

definition fb_least_free :: "rte_fbarray \<Rightarrow> int option" where
  "fb_least_free arr = map_option fst (rte_fbarray_find_next_free 0 (Some arr) 0)"

lemma find_next_free_ret:
  assumes "fb_wf arr" "fb_rwlock arr = 0" "start < fb_len arr"
  shows "map_option fst (rte_fbarray_find_next_free errno (Some arr) start) =
    Some (case find (\<lambda>i. \<not> used_at arr i) [unat start..<unat (fb_len arr)] of Some i \<Rightarrow> int i | None \<Rightarrow> - 1)"
proof -
  have "find (\<lambda>i. \<not> used_at arr i) [unat start..<unat (fb_len arr)] = None" if "fb_len arr = fb_count arr"
    using that full_iff [OF assms(1)] by (intro find_upt_None) auto
  then show ?thesis
    using assms by (auto simp: rte_fbarray_find_next_free_def not_le find_next_eq read_locked_free
        split: option.split)
qed

interpretation fbarray: index_set "\<lambda>arr. fb_wf arr \<and> fb_rwlock arr = 0" "\<lambda>arr. unat (fb_len arr)" used_at
  fb_insert fb_remove fb_least_free
proof (unfold_locales, goal_cases)
  case (1 arr i)
  then have "i < fb_len arr" by (simp add: word_less_nat_alt)
  then show ?case
    using set_used_marks [of arr i 0 True] 1 by (fastforce simp: fb_insert_def rte_fbarray_set_used_def marked_def)
next
  case (2 arr i)
  then have "i < fb_len arr" by (simp add: word_less_nat_alt)
  then show ?case
    using set_used_marks [of arr i 0 False] 2 by (fastforce simp: fb_remove_def rte_fbarray_set_free_def marked_def)
next
  case (3 arr)
  then have "0 < fb_len arr" by (simp add: word_less_nat_alt)
  then show ?case using 3 find_next_free_ret [of arr 0 0] by (simp add: fb_least_free_def)
next
  case (4 arr)
  then show ?case using unat_less_pow [of "fb_len arr"] by simp
qed

text \<open>
  C4: Allocating an index with \<open>find_next_free\<close> and \<open>set_used\<close>: it returns the least index that was not
  in use, which is in use afterwards and no other changed, or reports a full array and changes nothing.
\<close>

theorem rte_fbarray_alloc_fresh:
  assumes "fb_wf arr" and "fb_rwlock arr = 0"
  shows "\<exists>r arr'. alloc_index fb_insert fb_least_free arr = Some (r, arr') \<and> fb_wf arr' \<and> fb_rwlock arr' = 0 \<and>
    (case r of None \<Rightarrow> arr' = arr \<and> (\<forall>j<unat (fb_len arr). used_at arr j)
     | Some i \<Rightarrow> i < unat (fb_len arr) \<and> \<not> used_at arr i \<and> (\<forall>j<i. used_at arr j) \<and>
         (\<forall>j. used_at arr' j = (j = i \<or> used_at arr j)))"
proof -
  have "0 < unat (fb_len arr)" using assms(1) by (simp add: fb_wf_def)
  then show ?thesis using fbarray.alloc_fresh [of arr] assms by blast
qed

theorem rte_fbarray_alloc_fresh_witness:
  "\<exists>r arr'. alloc_index fb_insert fb_least_free sample_fbarray = Some (r, arr') \<and> fb_wf arr'"
  using rte_fbarray_alloc_fresh [OF sample_fbarray_wf] by (auto simp: sample_fbarray_def)

end
