(* ===== verification/Fbarray_Life.thy ===== *)
theory Fbarray_Life
  imports Fbarray_Search
begin

text \<open>
  The rest of the file-backed array: where the search for \<open>n\<close> elements in a row goes wrong, the
  life cycle with every error path, addresses of elements, and the dump.
\<close>

subsection \<open>Searching for a run of n elements\<close>

text \<open>Arrays of 10, 10 and 192 elements for the three ways the search goes wrong.\<close>

definition short_fbarray :: "u32 \<Rightarrow> u64 \<Rightarrow> rte_fbarray" where
  "short_fbarray count word =
     \<lparr>fb_name = ''a'', fb_count = count, fb_len = 10, fb_elt_sz = 8, fb_data = 0x1000, fb_rwlock = 0,
      fb_mask = \<lparr>n_masks = 1, msk_data = [word]\<rparr>\<rparr>"

definition long_fbarray :: rte_fbarray where
  "long_fbarray =
     \<lparr>fb_name = ''a'', fb_count = 188, fb_len = 192, fb_elt_sz = 8, fb_data = 0x1000, fb_rwlock = 0,
      fb_mask = \<lparr>n_masks = 3, msk_data = [0x7fffffffffffffff, 0xffffffffffffe3ff, 0xffffffffffffffff]\<rparr>\<rparr>"

lemma fb_wf_by_list:
  assumes "0 < unat (fb_len arr)" "unat (fb_len arr) < 2 ^ 31"
    "unat (n_masks (fb_mask arr)) = (unat (fb_len arr) + 63) div 64"
    "length (msk_data (fb_mask arr)) = unat (n_masks (fb_mask arr))"
    "unat (fb_count arr) = length (filter (used_at arr) [0..<unat (fb_len arr)])"
  shows "fb_wf arr"
proof -
  have "used_set arr = set (filter (used_at arr) [0..<unat (fb_len arr)])" by (auto simp: used_set_def)
  then have "card (used_set arr) = length (filter (used_at arr) [0..<unat (fb_len arr)])"
    by (simp only: distinct_card distinct_filter distinct_upt)
  then show ?thesis using assms by (simp add: fb_wf_def)
qed

text \<open>
  The search for \<open>n\<close> free elements in a row is wrong on well-formed arrays.  With a length that is
  not a multiple of 64 the mask for the end is or-ed with the mask for the start, which cancels both:
  it returns an index past the array, or one before the start although only the start's side was asked
  for.  After a lost run it skips the whole next word: three free elements in a row are not found.
\<close>

theorem rte_fbarray_find_next_n_wrong:
  "fb_wf (short_fbarray 8 0x35f) \<and>
   rte_fbarray_find_next_n_free 0 (Some (short_fbarray 8 0x35f)) 0 2 =
     Some (10, 0, Some (short_fbarray 8 0x35f)) \<and>
   fb_wf (short_fbarray 9 0x3df) \<and>
   rte_fbarray_find_next_n_free 0 (Some (short_fbarray 9 0x3df)) 6 1 =
     Some (5, 0, Some (short_fbarray 9 0x3df)) \<and>
   fb_wf long_fbarray \<and> filter (\<lambda>i. \<not> used_at long_fbarray i) [64..<192] = [74, 75, 76] \<and>
   rte_fbarray_find_next_n_free 0 (Some long_fbarray) 0 3 = Some (- 1, - eNOSPC, Some long_fbarray)"
proof (intro conjI)
  show "fb_wf (short_fbarray 8 0x35f)" "fb_wf (short_fbarray 9 0x3df)" "fb_wf long_fbarray"
    by (rule fb_wf_by_list; (simp add: short_fbarray_def long_fbarray_def; fail)?; code_simp)+
  show "rte_fbarray_find_next_n_free 0 (Some (short_fbarray 8 0x35f)) 0 2 =
      Some (10, 0, Some (short_fbarray 8 0x35f))" by code_simp
  show "rte_fbarray_find_next_n_free 0 (Some (short_fbarray 9 0x3df)) 6 1 =
      Some (5, 0, Some (short_fbarray 9 0x3df))" by code_simp
  show "filter (\<lambda>i. \<not> used_at long_fbarray i) [64..<192] = [74, 75, 76]" by code_simp
  show "rte_fbarray_find_next_n_free 0 (Some long_fbarray) 0 3 = Some (- 1, - eNOSPC, Some long_fbarray)"
    by code_simp
qed

subsection \<open>Resources of the life cycle\<close>

text \<open>Descriptors that are still open and reservations that still stand after some calls.\<close>

fun fds_left :: "sys_call list \<Rightarrow> int set \<Rightarrow> int set" where
  "fds_left [] s = s"
| "fds_left (Open_fd f # cs) s = fds_left cs (insert f s)"
| "fds_left (Close_fd f # cs) s = fds_left cs (s - {f})"
| "fds_left (_ # cs) s = fds_left cs s"

fun maps_left :: "sys_call list \<Rightarrow> (u64 \<times> u64) set \<Rightarrow> (u64 \<times> u64) set" where
  "maps_left [] s = s"
| "maps_left (Reserve a n # cs) s = maps_left cs (insert (a, n) s)"
| "maps_left (Munmap a n # cs) s = maps_left cs (s - {(a, n)})"
| "maps_left (_ # cs) s = maps_left cs s"

lemma align_ceil_64:
  assumes "unat (len :: u32) < 2 ^ 31"
  shows "unat (RTE_ALIGN_CEIL len MASK_ALIGN) = (unat len + 63) div 64 * 64"
proof -
  have "unat (len + 63) = unat len + 63" using assms unat_add_no_wrap [of len 63] by simp
  moreover have "RTE_ALIGN_CEIL len MASK_ALIGN = RTE_ALIGN_FLOOR (len + 63) MASK_ALIGN"
    by (simp add: RTE_ALIGN_CEIL_def mask_align)
  ultimately show ?thesis using align_floor_64 [of "len + 63"] by simp
qed

lemma fresh_mask_wf:
  assumes "0 < unat len" "unat len < 2 ^ 31"
  shows "fb_wf (arr\<lparr>fb_len := len, fb_count := 0, fb_mask := fresh_mask len\<rparr>)"
    "\<not> used_at (arr\<lparr>fb_len := len, fb_count := 0, fb_mask := fresh_mask len\<rparr>) i \<or> unat len \<le> i"
proof -
  let ?n = "(unat len + 63) div 64"
  have n: "unat (n_masks (fresh_mask len)) = ?n" "msk_data (fresh_mask len) = replicate ?n 0"
    using assms(2) by (simp_all add: fresh_mask_def Let_def align_ceil_64)
  have free: "\<not> used_at (arr\<lparr>fb_len := len, fb_count := 0, fb_mask := fresh_mask len\<rparr>) i" if "i < unat len" for i
  proof -
    have "i div 64 < ?n" using that by (intro div_less_iff_less_mult [THEN iffD2] order_less_le_trans [OF that]) simp_all
    then show ?thesis by (simp add: used_at_def n)
  qed
  then show "\<not> used_at (arr\<lparr>fb_len := len, fb_count := 0, fb_mask := fresh_mask len\<rparr>) i \<or> unat len \<le> i"
    by (meson not_le)
  have "used_set (arr\<lparr>fb_len := len, fb_count := 0, fb_mask := fresh_mask len\<rparr>) = {}"
    using free by (auto simp: used_set_def)
  then show "fb_wf (arr\<lparr>fb_len := len, fb_count := 0, fb_mask := fresh_mask len\<rparr>)"
    using assms n by (simp add: fb_wf_def)
qed

lemma fully_validate_ok:
  "fst (fully_validate errno name elt_sz len) = 0 \<Longrightarrow>
   (\<exists>nm. name = Some nm \<and> length nm < RTE_FBARRAY_NAME_LEN) \<and> elt_sz \<noteq> 0 \<and> 0 < unat len \<and> unat len < 2 ^ 31"
  by (auto simp: fully_validate_def INT_MAX_def word_less_nat_alt word_unat_eq_iff not_less min_def
      split: option.splits if_splits)

text \<open>
  When \<open>rte_fbarray_init\<close> returns 0 the array is well-formed, empty, unlocked, has the name, the
  length and the element size asked for, and its data is the reserved area; the name was shorter than 64.
\<close>

theorem rte_fbarray_init_ready:
  assumes "rte_fbarray_init sys errno (Some arr) (Some name) len elt_sz = (0, errno', res, calls)"
  shows "\<exists>arr'. res = Some arr' \<and> fb_wf arr' \<and> fb_rwlock arr' = 0 \<and> used_set arr' = {} \<and>
    fb_name arr' = name \<and> length name < 64 \<and> fb_len arr' = len \<and> fb_elt_sz arr' = elt_sz \<and> elt_sz \<noteq> 0 \<and>
    fb_data arr' = fst (s_virtual_area sys 0 (calc_data_size (s_page_sz sys) elt_sz len)) \<and> fb_data arr' \<noteq> 0"
proof -
  have ok: "fst (fully_validate errno (Some name) elt_sz len) = 0"
    using assms by (auto simp: rte_fbarray_init_def Let_def fully_validate_def split: if_splits prod.splits)
  note v = fully_validate_ok [OF ok]
  obtain data n where area: "s_virtual_area sys 0 (calc_data_size (s_page_sz sys) elt_sz len) = (data, n)"
    by fastforce
  define base where "base = arr\<lparr>fb_name := take (RTE_FBARRAY_NAME_LEN - 1) name, fb_data := data,
      fb_elt_sz := elt_sz, fb_rwlock := 0\<rparr>"
  have res: "res = Some (base\<lparr>fb_len := len, fb_count := 0, fb_mask := fresh_mask len\<rparr>)" and data: "data \<noteq> 0"
    using assms area ok
    by (auto simp: rte_fbarray_init_def Let_def base_def rte_rwlock_init_def resize_and_map_def
        split: if_splits prod.splits)
  have len: "0 < unat len" "unat len < 2 ^ 31" using v by auto
  have empty: "used_set (base\<lparr>fb_len := len, fb_count := 0, fb_mask := fresh_mask len\<rparr>) = {}"
    using fresh_mask_wf(2) [OF len, of base] by (fastforce simp: used_set_def not_le [symmetric] simp del: not_le)
  have "take (RTE_FBARRAY_NAME_LEN - 1) name = name" "length name < 64"
    using v by (auto simp: RTE_FBARRAY_NAME_LEN_def)
  then show ?thesis
    using fresh_mask_wf(1) [OF len, of base] empty v data area
    by (intro exI [of _ "base\<lparr>fb_len := len, fb_count := 0, fb_mask := fresh_mask len\<rparr>"])
      (simp add: res, simp add: base_def)
qed

text \<open>A system on which every call succeeds, and one whose \<open>mmap\<close> fails.\<close>

definition good_sys :: fb_sys where
  "good_sys = \<lparr>s_page_sz = 4096, s_virtual_area = \<lambda>a n. (if a = 0 then 0x10000 else a, n), s_runtime_dir = ''/run'',
     s_open = \<lambda>path. 5, s_flock_ex_fails = False, s_flock_sh_fails = False, s_ftruncate_fails = False,
     s_mmap = \<lambda>a. a, s_errno = 0\<rparr>"

theorem rte_fbarray_init_ready_witness:
  "\<exists>arr' calls. rte_fbarray_init good_sys 0 (Some sample_fbarray) (Some ''b'') 100 4 = (0, 0, Some arr', calls) \<and>
     fb_wf arr' \<and> used_set arr' = {} \<and> fb_len arr' = 100"
proof -
  obtain res calls where "rte_fbarray_init good_sys 0 (Some sample_fbarray) (Some ''b'') 100 4 = (0, 0, res, calls)"
    by (simp add: rte_fbarray_init_def fully_validate_def good_sys_def INT_MAX_def RTE_FBARRAY_NAME_LEN_def
        resize_and_map_def Let_def)
  then show ?thesis using rte_fbarray_init_ready by fastforce
qed


text \<open>
  \<open>rte_fbarray_dump_metadata\<close> of an array that is not valid, such as one that \<open>rte_fbarray_destroy\<close>
  cleared, unlocks a lock it never took: a free lock reads as held by a writer afterwards, and the
  next search waits for ever.
\<close>

theorem rte_fbarray_dump_breaks_lock:
  assumes "fb_rwlock arr = 0" and "fb_elt_sz arr = 0 \<or> fb_len arr = 0"
  shows "\<exists>arr'. rte_fbarray_dump_metadata errno (Some arr) True = Some ([Dump_invalid], eINVAL, Some arr') \<and>
    fb_rwlock arr' = - 1 \<and> rte_rwlock_read_lock (fb_rwlock arr') = None \<and>
    rte_rwlock_write_lock (fb_rwlock arr') = None"
  using assms
  by (auto simp: rte_fbarray_dump_metadata_def fully_validate_def rte_rwlock_read_unlock_def rte_atomic32_defs
      builtin_defs read_lock_eq write_lock_eq)

theorem rte_fbarray_dump_breaks_lock_witness:
  "(case rte_fbarray_destroy good_sys 0 (Some sample_fbarray) of (ret, _, arr, _) \<Rightarrow>
      ret = 0 \<and> (\<exists>arr'. rte_fbarray_dump_metadata 0 arr True = Some ([Dump_invalid], eINVAL, Some arr') \<and>
        rte_rwlock_read_lock (fb_rwlock arr') = None))"
proof -
  have "rte_fbarray_destroy good_sys 0 (Some sample_fbarray) = (0, 0, Some cleared_fbarray,
      [Munmap 0x1000 (calc_data_size 4096 8 70), Open_fd 5, Unlink ''/run/fbarray_a'', Close_fd 5])"
    by (simp add: rte_fbarray_destroy_def rte_fbarray_detach_def good_sys_def sample_fbarray_def Let_def
        eal_get_fbarray_path_def)
  then show ?thesis
    using rte_fbarray_dump_breaks_lock [of cleared_fbarray 0] by (auto simp: cleared_fbarray_def)
qed

subsection \<open>Addresses of elements\<close>

lemma element_address:
  assumes "unat (fb_elt_sz arr) * unat (fb_len arr) < 2 ^ 32"
    and "unat (fb_data arr) + unat (fb_elt_sz arr) * unat (fb_len arr) < 2 ^ 64"
    and "unat i \<le> unat (fb_len arr)"
  shows "unat (RTE_PTR_ADD (fb_data arr) (i * fb_elt_sz arr)) =
    unat (fb_data arr) + unat i * unat (fb_elt_sz arr)"
proof -
  have le: "unat i * unat (fb_elt_sz arr) \<le> unat (fb_elt_sz arr) * unat (fb_len arr)"
    using assms(3) by (simp add: mult.commute mult_le_mono2)
  then have lt: "unat i * unat (fb_elt_sz arr) < 2 ^ 32" using assms(1) by (rule order_le_less_trans)
  then have "unat (i * fb_elt_sz arr) = unat i * unat (fb_elt_sz arr)"
    by (simp add: unat_word_ariths)
  then have "unat (ucast (i * fb_elt_sz arr) :: u64) = unat i * unat (fb_elt_sz arr)"
    using lt by (simp add: unat_ucast_mod)
  moreover have "unat (fb_data arr) + unat i * unat (fb_elt_sz arr) < 2 ^ LENGTH(64)"
    using order_le_less_trans [OF add_left_mono [OF le] assms(2)] by simp
  ultimately show ?thesis unfolding RTE_PTR_ADD_def by (metis unat_add_no_wrap)
qed

text \<open>
  \<open>rte_fbarray_get\<close> and \<open>rte_fbarray_find_idx\<close> are inverse: when the elements fit below 2^32 bytes and
  the address space does not wrap, the address of element \<open>idx\<close> is \<open>idx\<close> element sizes into the data and
  looking it up gives \<open>idx\<close> back; an index past the end is refused.
\<close>

theorem rte_fbarray_address_roundtrip:
  assumes "unat (fb_elt_sz arr) * unat (fb_len arr) < 2 ^ 32"
    and "unat (fb_data arr) + unat (fb_elt_sz arr) * unat (fb_len arr) < 2 ^ 64"
    and "fb_data arr \<noteq> 0" and "fb_elt_sz arr \<noteq> 0" and "unat (fb_len arr) < 2 ^ 31"
  shows "if idx < fb_len arr
    then (\<exists>p. rte_fbarray_get errno (Some arr) idx = (Some p, errno) \<and>
           unat p = unat (fb_data arr) + unat idx * unat (fb_elt_sz arr) \<and>
           rte_fbarray_find_idx errno (Some arr) p = Some (int (unat idx), errno))
    else rte_fbarray_get errno (Some arr) idx = (None, eINVAL)"
proof (cases "idx < fb_len arr")
  case True
  let ?e = "unat (fb_elt_sz arr)" and ?i = "unat idx" and ?L = "unat (fb_len arr)"
  let ?p = "RTE_PTR_ADD (fb_data arr) (idx * fb_elt_sz arr)"
  have lt: "?i < ?L" using True by (simp add: word_less_nat_alt)
  have e: "0 < ?e" using assms(4) by (simp add: unat_gt_0)
  have p: "unat ?p = unat (fb_data arr) + ?i * ?e" using lt by (intro element_address assms) simp
  have pe: "unat (RTE_PTR_ADD (fb_data arr) (fb_elt_sz arr * fb_len arr)) = unat (fb_data arr) + ?L * ?e"
    using element_address [OF assms(1,2), of "fb_len arr"] by (simp add: mult.commute)
  have inside: "\<not> ?p < fb_data arr" "\<not> ?p \<ge> RTE_PTR_ADD (fb_data arr) (fb_elt_sz arr * fb_len arr)" "?p \<noteq> 0"
    using p pe lt e assms(3) by (auto simp: word_less_nat_alt word_le_nat_alt word_unat_eq_iff)
  have "unat (?p - fb_data arr) = ?i * ?e"
    using p by (subst unat_sub_le) (simp_all add: word_le_nat_alt)
  moreover have "unat (ucast (fb_elt_sz arr) :: u64) = ?e"
    using unat_less_pow [of "fb_elt_sz arr"] by (simp add: unat_ucast_mod)
  ultimately have "unat ((?p - fb_data arr) div ucast (fb_elt_sz arr)) = ?i"
    using e by (simp add: unat_div)
  then have q: "unat (ucast ((?p - fb_data arr) div ucast (fb_elt_sz arr)) :: u32) = ?i"
    using unat_less_pow [of idx] by (simp add: unat_ucast_mod)
  have "sint (ucast ((?p - fb_data arr) div ucast (fb_elt_sz arr)) :: u32) = int ?i"
    using q lt assms(5) by (subst sint_eq_unat) simp_all
  then have "rte_fbarray_find_idx errno (Some arr) ?p = Some (int ?i, errno)"
    using inside assms(4) by (simp add: rte_fbarray_find_idx_def Let_def RTE_PTR_DIFF_def)
  then show ?thesis using True p by (simp add: rte_fbarray_get_def not_le)
next
  case False
  then show ?thesis by (simp add: rte_fbarray_get_def not_less)
qed

theorem rte_fbarray_address_roundtrip_witness:
  "\<exists>p. rte_fbarray_get 0 (Some sample_fbarray) 9 = (Some p, 0) \<and>
     rte_fbarray_find_idx 0 (Some sample_fbarray) p = Some (9, 0)"
  using rte_fbarray_address_roundtrip [of sample_fbarray 9 0] by (auto simp: sample_fbarray_def)

text \<open>
  The size of the elements is a 32-bit product: for an array of 65537 elements of 65536 bytes, which
  \<open>fully_validate\<close> accepts, the address of the last element is the address of the first, and the
  memory that is mapped, rounded up to pages of 4096, is 77824 bytes instead of more than 2^32.
\<close>

theorem rte_fbarray_size_wraps:
  "fst (fully_validate errno (Some ''a'') 65536 65537) = 0 \<and>
   rte_fbarray_get errno (Some (sample_fbarray\<lparr>fb_elt_sz := 65536, fb_len := 65537\<rparr>)) 65536 =
     rte_fbarray_get errno (Some (sample_fbarray\<lparr>fb_elt_sz := 65536, fb_len := 65537\<rparr>)) 0 \<and>
   calc_data_size 4096 65536 65537 = 77824"
  by (simp add: fully_validate_def INT_MAX_def RTE_FBARRAY_NAME_LEN_def rte_fbarray_get_def
      sample_fbarray_def RTE_PTR_ADD_def calc_data_size_def calc_mask_size_def mask_align Let_def
      RTE_ALIGN_CEIL_def RTE_ALIGN_FLOOR_def MASK_LEN_TO_IDX_def MASK_SHIFT_def)

end
