(* ===== verification/Sys_Queue.thy ===== *)
theory Sys_Queue
  imports Prelude
begin

text \<open>
  The linked lists and queues of \<open>sys_queue/sys_queue.h\<close>, one definition per macro.  Elements are
  addresses, 0 is \<open>NULL\<close>, heads are numbered; the fields of elements and heads are stores.  The
  address of a next pointer, which the headers keep in \<open>le_prev\<close>, \<open>tqe_prev\<close> and \<open>..._last\<close>, is a
  \<open>slot\<close>: the first field of a head or the next field of an element.  A macro has no result when it goes
  through a null pointer.
\<close>

subsection \<open>Memory\<close>

datatype slot = First nat | Next nat

record queue_mem =
  q_first :: "nat \<Rightarrow> nat"
  q_last :: "nat \<Rightarrow> slot"
  q_next :: "nat \<Rightarrow> nat"
  q_prev :: "nat \<Rightarrow> slot"

fun read_slot :: "queue_mem \<Rightarrow> slot \<Rightarrow> nat option" where
  "read_slot m (First h) = Some (q_first m h)"
| "read_slot m (Next e) = (if e = 0 then None else Some (q_next m e))"

fun write_slot :: "slot \<Rightarrow> nat \<Rightarrow> queue_mem \<Rightarrow> queue_mem option" where
  "write_slot (First h) v m = Some (m\<lparr>q_first := (q_first m)(h := v)\<rparr>)"
| "write_slot (Next e) v m = (if e = 0 then None else Some (m\<lparr>q_next := (q_next m)(e := v)\<rparr>))"

text \<open>Field assignments; a null pointer has no fields.\<close>

definition set_first :: "nat \<Rightarrow> nat \<Rightarrow> queue_mem \<Rightarrow> queue_mem" where
  "set_first h v m = m\<lparr>q_first := (q_first m)(h := v)\<rparr>"

definition set_last :: "nat \<Rightarrow> slot \<Rightarrow> queue_mem \<Rightarrow> queue_mem" where
  "set_last h s m = m\<lparr>q_last := (q_last m)(h := s)\<rparr>"

definition set_next :: "nat \<Rightarrow> nat \<Rightarrow> queue_mem \<Rightarrow> queue_mem option" where
  "set_next e v m = (if e = 0 then None else Some (m\<lparr>q_next := (q_next m)(e := v)\<rparr>))"

definition set_prev :: "nat \<Rightarrow> slot \<Rightarrow> queue_mem \<Rightarrow> queue_mem option" where
  "set_prev e s m = (if e = 0 then None else Some (m\<lparr>q_prev := (q_prev m)(e := s)\<rparr>))"

definition get_next :: "nat \<Rightarrow> queue_mem \<Rightarrow> nat option" where
  "get_next e m = (if e = 0 then None else Some (q_next m e))"

definition get_prev :: "nat \<Rightarrow> queue_mem \<Rightarrow> slot option" where
  "get_prev e m = (if e = 0 then None else Some (q_prev m e))"

lemmas mem_defs = set_first_def set_last_def set_next_def set_prev_def get_next_def get_prev_def

subsection \<open>LIST\<close>

definition LIST_INIT :: "nat \<Rightarrow> queue_mem \<Rightarrow> queue_mem" where
  "LIST_INIT h m = set_first h 0 m"

definition LIST_INSERT_AFTER :: "nat \<Rightarrow> nat \<Rightarrow> queue_mem \<Rightarrow> queue_mem option" where
  "LIST_INSERT_AFTER listelm elm m = do {
     n \<leftarrow> get_next listelm m;
     m \<leftarrow> set_next elm n m;
     m \<leftarrow> (if n \<noteq> 0 then do { n \<leftarrow> get_next listelm m; set_prev n (Next elm) m } else Some m);
     m \<leftarrow> set_next listelm elm m;
     set_prev elm (Next listelm) m }"

definition LIST_INSERT_BEFORE :: "nat \<Rightarrow> nat \<Rightarrow> queue_mem \<Rightarrow> queue_mem option" where
  "LIST_INSERT_BEFORE listelm elm m = do {
     s \<leftarrow> get_prev listelm m;
     m \<leftarrow> set_prev elm s m;
     m \<leftarrow> set_next elm listelm m;
     s \<leftarrow> get_prev listelm m;
     m \<leftarrow> write_slot s elm m;
     set_prev listelm (Next elm) m }"

definition LIST_INSERT_HEAD :: "nat \<Rightarrow> nat \<Rightarrow> queue_mem \<Rightarrow> queue_mem option" where
  "LIST_INSERT_HEAD h elm m = do {
     m \<leftarrow> set_next elm (q_first m h) m;
     m \<leftarrow> (if q_next m elm \<noteq> 0 then set_prev (q_first m h) (Next elm) m else Some m);
     set_prev elm (First h) (set_first h elm m) }"

definition LIST_REMOVE :: "nat \<Rightarrow> queue_mem \<Rightarrow> queue_mem option" where
  "LIST_REMOVE elm m = do {
     n \<leftarrow> get_next elm m;
     s \<leftarrow> get_prev elm m;
     m \<leftarrow> (if n \<noteq> 0 then set_prev n s m else Some m);
     s \<leftarrow> get_prev elm m;
     n \<leftarrow> get_next elm m;
     write_slot s n m }"

text \<open>The elements a \<open>FOREACH\<close> loop visits; a cyclic list never ends.\<close>

partial_function (option) visit_next :: "queue_mem \<Rightarrow> nat \<Rightarrow> nat list option" where
  "visit_next m var =
     (if var = 0 then Some []
      else do { vs \<leftarrow> visit_next m (q_next m var); Some (var # vs) })"

definition LIST_FOREACH :: "nat \<Rightarrow> queue_mem \<Rightarrow> nat list option" where
  "LIST_FOREACH h m = visit_next m (q_first m h)"

definition LIST_EMPTY :: "nat \<Rightarrow> queue_mem \<Rightarrow> bool" where
  "LIST_EMPTY h m = (q_first m h = 0)"

definition LIST_FIRST :: "nat \<Rightarrow> queue_mem \<Rightarrow> nat" where
  "LIST_FIRST h m = q_first m h"

definition LIST_NEXT :: "nat \<Rightarrow> queue_mem \<Rightarrow> nat option" where
  "LIST_NEXT elm m = get_next elm m"

subsection \<open>SLIST\<close>

definition SLIST_INIT :: "nat \<Rightarrow> queue_mem \<Rightarrow> queue_mem" where
  "SLIST_INIT h m = set_first h 0 m"

definition SLIST_INSERT_AFTER :: "nat \<Rightarrow> nat \<Rightarrow> queue_mem \<Rightarrow> queue_mem option" where
  "SLIST_INSERT_AFTER slistelm elm m = do {
     n \<leftarrow> get_next slistelm m;
     m \<leftarrow> set_next elm n m;
     set_next slistelm elm m }"

definition SLIST_INSERT_HEAD :: "nat \<Rightarrow> nat \<Rightarrow> queue_mem \<Rightarrow> queue_mem option" where
  "SLIST_INSERT_HEAD h elm m = do {
     m \<leftarrow> set_next elm (q_first m h) m;
     Some (set_first h elm m) }"

definition SLIST_REMOVE_HEAD :: "nat \<Rightarrow> queue_mem \<Rightarrow> queue_mem option" where
  "SLIST_REMOVE_HEAD h m = do {
     n \<leftarrow> get_next (q_first m h) m;
     Some (set_first h n m) }"

text \<open>The search for the element before \<open>elm\<close>; it runs off a list that does not hold \<open>elm\<close>.\<close>

partial_function (option) find_before :: "queue_mem \<Rightarrow> nat \<Rightarrow> nat \<Rightarrow> nat option" where
  "find_before m elm curelm =
     (if curelm = 0 then None
      else if q_next m curelm \<noteq> elm then find_before m elm (q_next m curelm)
      else Some curelm)"

definition SLIST_REMOVE :: "nat \<Rightarrow> nat \<Rightarrow> queue_mem \<Rightarrow> queue_mem option" where
  "SLIST_REMOVE h elm m =
     (if q_first m h = elm then SLIST_REMOVE_HEAD h m
      else do {
        curelm \<leftarrow> find_before m elm (q_first m h);
        n \<leftarrow> get_next curelm m;
        nn \<leftarrow> get_next n m;
        set_next curelm nn m })"

definition SLIST_FOREACH :: "nat \<Rightarrow> queue_mem \<Rightarrow> nat list option" where
  "SLIST_FOREACH h m = visit_next m (q_first m h)"

definition SLIST_EMPTY :: "nat \<Rightarrow> queue_mem \<Rightarrow> bool" where
  "SLIST_EMPTY h m = (q_first m h = 0)"

definition SLIST_FIRST :: "nat \<Rightarrow> queue_mem \<Rightarrow> nat" where
  "SLIST_FIRST h m = q_first m h"

definition SLIST_NEXT :: "nat \<Rightarrow> queue_mem \<Rightarrow> nat option" where
  "SLIST_NEXT elm m = get_next elm m"

subsection \<open>STAILQ\<close>

definition STAILQ_INIT :: "nat \<Rightarrow> queue_mem \<Rightarrow> queue_mem" where
  "STAILQ_INIT h m = set_last h (First h) (set_first h 0 m)"

definition STAILQ_INSERT_HEAD :: "nat \<Rightarrow> nat \<Rightarrow> queue_mem \<Rightarrow> queue_mem option" where
  "STAILQ_INSERT_HEAD h elm m = do {
     m \<leftarrow> set_next elm (q_first m h) m;
     let m = (if q_next m elm = 0 then set_last h (Next elm) m else m);
     Some (set_first h elm m) }"

definition STAILQ_INSERT_TAIL :: "nat \<Rightarrow> nat \<Rightarrow> queue_mem \<Rightarrow> queue_mem option" where
  "STAILQ_INSERT_TAIL h elm m = do {
     m \<leftarrow> set_next elm 0 m;
     m \<leftarrow> write_slot (q_last m h) elm m;
     Some (set_last h (Next elm) m) }"

definition STAILQ_INSERT_AFTER :: "nat \<Rightarrow> nat \<Rightarrow> nat \<Rightarrow> queue_mem \<Rightarrow> queue_mem option" where
  "STAILQ_INSERT_AFTER h listelm elm m = do {
     n \<leftarrow> get_next listelm m;
     m \<leftarrow> set_next elm n m;
     let m = (if n = 0 then set_last h (Next elm) m else m);
     set_next listelm elm m }"

definition STAILQ_REMOVE_HEAD :: "nat \<Rightarrow> queue_mem \<Rightarrow> queue_mem option" where
  "STAILQ_REMOVE_HEAD h m = do {
     n \<leftarrow> get_next (q_first m h) m;
     let m = set_first h n m;
     Some (if n = 0 then set_last h (First h) m else m) }"

definition STAILQ_REMOVE :: "nat \<Rightarrow> nat \<Rightarrow> queue_mem \<Rightarrow> queue_mem option" where
  "STAILQ_REMOVE h elm m =
     (if q_first m h = elm then STAILQ_REMOVE_HEAD h m
      else do {
        curelm \<leftarrow> find_before m elm (q_first m h);
        n \<leftarrow> get_next curelm m;
        nn \<leftarrow> get_next n m;
        m \<leftarrow> set_next curelm nn m;
        Some (if nn = 0 then set_last h (Next curelm) m else m) })"

definition STAILQ_FOREACH :: "nat \<Rightarrow> queue_mem \<Rightarrow> nat list option" where
  "STAILQ_FOREACH h m = visit_next m (q_first m h)"

definition STAILQ_EMPTY :: "nat \<Rightarrow> queue_mem \<Rightarrow> bool" where
  "STAILQ_EMPTY h m = (q_first m h = 0)"

definition STAILQ_FIRST :: "nat \<Rightarrow> queue_mem \<Rightarrow> nat" where
  "STAILQ_FIRST h m = q_first m h"

definition STAILQ_NEXT :: "nat \<Rightarrow> queue_mem \<Rightarrow> nat option" where
  "STAILQ_NEXT elm m = get_next elm m"

definition STAILQ_CONCAT :: "nat \<Rightarrow> nat \<Rightarrow> queue_mem \<Rightarrow> queue_mem option" where
  "STAILQ_CONCAT h1 h2 m =
     (if \<not> STAILQ_EMPTY h2 m then do {
        m \<leftarrow> write_slot (q_last m h1) (q_first m h2) m;
        let m = set_last h1 (q_last m h2) m;
        Some (STAILQ_INIT h2 m) }
      else Some m)"

subsection \<open>SIMPLEQ\<close>

definition SIMPLEQ_INIT :: "nat \<Rightarrow> queue_mem \<Rightarrow> queue_mem" where
  "SIMPLEQ_INIT h m = set_last h (First h) (set_first h 0 m)"

definition SIMPLEQ_INSERT_HEAD :: "nat \<Rightarrow> nat \<Rightarrow> queue_mem \<Rightarrow> queue_mem option" where
  "SIMPLEQ_INSERT_HEAD h elm m = do {
     m \<leftarrow> set_next elm (q_first m h) m;
     let m = (if q_next m elm = 0 then set_last h (Next elm) m else m);
     Some (set_first h elm m) }"

definition SIMPLEQ_INSERT_TAIL :: "nat \<Rightarrow> nat \<Rightarrow> queue_mem \<Rightarrow> queue_mem option" where
  "SIMPLEQ_INSERT_TAIL h elm m = do {
     m \<leftarrow> set_next elm 0 m;
     m \<leftarrow> write_slot (q_last m h) elm m;
     Some (set_last h (Next elm) m) }"

definition SIMPLEQ_INSERT_AFTER :: "nat \<Rightarrow> nat \<Rightarrow> nat \<Rightarrow> queue_mem \<Rightarrow> queue_mem option" where
  "SIMPLEQ_INSERT_AFTER h listelm elm m = do {
     n \<leftarrow> get_next listelm m;
     m \<leftarrow> set_next elm n m;
     let m = (if n = 0 then set_last h (Next elm) m else m);
     set_next listelm elm m }"

definition SIMPLEQ_REMOVE_HEAD :: "nat \<Rightarrow> queue_mem \<Rightarrow> queue_mem option" where
  "SIMPLEQ_REMOVE_HEAD h m = do {
     n \<leftarrow> get_next (q_first m h) m;
     let m = set_first h n m;
     Some (if n = 0 then set_last h (First h) m else m) }"

definition SIMPLEQ_REMOVE :: "nat \<Rightarrow> nat \<Rightarrow> queue_mem \<Rightarrow> queue_mem option" where
  "SIMPLEQ_REMOVE h elm m =
     (if q_first m h = elm then SIMPLEQ_REMOVE_HEAD h m
      else do {
        curelm \<leftarrow> find_before m elm (q_first m h);
        n \<leftarrow> get_next curelm m;
        nn \<leftarrow> get_next n m;
        m \<leftarrow> set_next curelm nn m;
        Some (if nn = 0 then set_last h (Next curelm) m else m) })"

definition SIMPLEQ_FOREACH :: "nat \<Rightarrow> queue_mem \<Rightarrow> nat list option" where
  "SIMPLEQ_FOREACH h m = visit_next m (q_first m h)"

definition SIMPLEQ_EMPTY :: "nat \<Rightarrow> queue_mem \<Rightarrow> bool" where
  "SIMPLEQ_EMPTY h m = (q_first m h = 0)"

definition SIMPLEQ_FIRST :: "nat \<Rightarrow> queue_mem \<Rightarrow> nat" where
  "SIMPLEQ_FIRST h m = q_first m h"

definition SIMPLEQ_NEXT :: "nat \<Rightarrow> queue_mem \<Rightarrow> nat option" where
  "SIMPLEQ_NEXT elm m = get_next elm m"

subsection \<open>TAILQ\<close>

definition TAILQ_INIT :: "nat \<Rightarrow> queue_mem \<Rightarrow> queue_mem" where
  "TAILQ_INIT h m = set_last h (First h) (set_first h 0 m)"

definition TAILQ_INSERT_HEAD :: "nat \<Rightarrow> nat \<Rightarrow> queue_mem \<Rightarrow> queue_mem option" where
  "TAILQ_INSERT_HEAD h elm m = do {
     m \<leftarrow> set_next elm (q_first m h) m;
     m \<leftarrow> (if q_next m elm \<noteq> 0 then set_prev (q_first m h) (Next elm) m
          else Some (set_last h (Next elm) m));
     set_prev elm (First h) (set_first h elm m) }"

definition TAILQ_INSERT_TAIL :: "nat \<Rightarrow> nat \<Rightarrow> queue_mem \<Rightarrow> queue_mem option" where
  "TAILQ_INSERT_TAIL h elm m = do {
     m \<leftarrow> set_next elm 0 m;
     m \<leftarrow> set_prev elm (q_last m h) m;
     m \<leftarrow> write_slot (q_last m h) elm m;
     Some (set_last h (Next elm) m) }"

definition TAILQ_INSERT_AFTER :: "nat \<Rightarrow> nat \<Rightarrow> nat \<Rightarrow> queue_mem \<Rightarrow> queue_mem option" where
  "TAILQ_INSERT_AFTER h listelm elm m = do {
     n \<leftarrow> get_next listelm m;
     m \<leftarrow> set_next elm n m;
     m \<leftarrow> (if n \<noteq> 0 then do { n \<leftarrow> get_next elm m; set_prev n (Next elm) m }
          else Some (set_last h (Next elm) m));
     m \<leftarrow> set_next listelm elm m;
     set_prev elm (Next listelm) m }"

definition TAILQ_INSERT_BEFORE :: "nat \<Rightarrow> nat \<Rightarrow> queue_mem \<Rightarrow> queue_mem option" where
  "TAILQ_INSERT_BEFORE listelm elm m = do {
     s \<leftarrow> get_prev listelm m;
     m \<leftarrow> set_prev elm s m;
     m \<leftarrow> set_next elm listelm m;
     s \<leftarrow> get_prev listelm m;
     m \<leftarrow> write_slot s elm m;
     set_prev listelm (Next elm) m }"

definition TAILQ_REMOVE :: "nat \<Rightarrow> nat \<Rightarrow> queue_mem \<Rightarrow> queue_mem option" where
  "TAILQ_REMOVE h elm m = do {
     n \<leftarrow> get_next elm m;
     s \<leftarrow> get_prev elm m;
     m \<leftarrow> (if n \<noteq> 0 then set_prev n s m else Some (set_last h s m));
     s \<leftarrow> get_prev elm m;
     n \<leftarrow> get_next elm m;
     write_slot s n m }"

definition TAILQ_FOREACH :: "nat \<Rightarrow> queue_mem \<Rightarrow> nat list option" where
  "TAILQ_FOREACH h m = visit_next m (q_first m h)"

text \<open>
  The backward macros cast a slot to a head: behind the first field of a head lies its last field,
  behind the next field of an element its previous field.
\<close>

fun second_field :: "queue_mem \<Rightarrow> slot \<Rightarrow> slot option" where
  "second_field m (First h) = Some (q_last m h)"
| "second_field m (Next e) = get_prev e m"

definition TAILQ_LAST :: "nat \<Rightarrow> queue_mem \<Rightarrow> nat option" where
  "TAILQ_LAST h m = Option.bind (second_field m (q_last m h)) (read_slot m)"

definition TAILQ_PREV :: "nat \<Rightarrow> queue_mem \<Rightarrow> nat option" where
  "TAILQ_PREV elm m = do { s \<leftarrow> get_prev elm m; s \<leftarrow> second_field m s; read_slot m s }"

partial_function (option) visit_prev :: "queue_mem \<Rightarrow> nat \<Rightarrow> nat list option" where
  "visit_prev m var =
     (if var = 0 then Some []
      else do { p \<leftarrow> TAILQ_PREV var m; vs \<leftarrow> visit_prev m p; Some (var # vs) })"

definition TAILQ_FOREACH_REVERSE :: "nat \<Rightarrow> queue_mem \<Rightarrow> nat list option" where
  "TAILQ_FOREACH_REVERSE h m = Option.bind (TAILQ_LAST h m) (visit_prev m)"

definition TAILQ_EMPTY :: "nat \<Rightarrow> queue_mem \<Rightarrow> bool" where
  "TAILQ_EMPTY h m = (q_first m h = 0)"

definition TAILQ_FIRST :: "nat \<Rightarrow> queue_mem \<Rightarrow> nat" where
  "TAILQ_FIRST h m = q_first m h"

definition TAILQ_NEXT :: "nat \<Rightarrow> queue_mem \<Rightarrow> nat option" where
  "TAILQ_NEXT elm m = get_next elm m"

definition TAILQ_CONCAT :: "nat \<Rightarrow> nat \<Rightarrow> queue_mem \<Rightarrow> queue_mem option" where
  "TAILQ_CONCAT h1 h2 m =
     (if \<not> TAILQ_EMPTY h2 m then do {
        m \<leftarrow> write_slot (q_last m h1) (q_first m h2) m;
        m \<leftarrow> set_prev (q_first m h2) (q_last m h1) m;
        let m = set_last h1 (q_last m h2) m;
        Some (TAILQ_INIT h2 m) }
      else Some m)"

subsection \<open>CIRCLEQ\<close>

text \<open>The links of a circular queue point to elements or, cast, to the head.\<close>

datatype cptr = Elem nat | Head nat

record circ_mem =
  c_first :: "nat \<Rightarrow> cptr"
  c_last :: "nat \<Rightarrow> cptr"
  c_next :: "nat \<Rightarrow> cptr"
  c_prev :: "nat \<Rightarrow> cptr"

text \<open>A field of the element a link points to; a link to a head has no element fields.\<close>

fun set_c_next :: "cptr \<Rightarrow> cptr \<Rightarrow> circ_mem \<Rightarrow> circ_mem option" where
  "set_c_next (Elem e) v m = (if e = 0 then None else Some (m\<lparr>c_next := (c_next m)(e := v)\<rparr>))"
| "set_c_next (Head h) v m = None"

fun set_c_prev :: "cptr \<Rightarrow> cptr \<Rightarrow> circ_mem \<Rightarrow> circ_mem option" where
  "set_c_prev (Elem e) v m = (if e = 0 then None else Some (m\<lparr>c_prev := (c_prev m)(e := v)\<rparr>))"
| "set_c_prev (Head h) v m = None"

definition set_c_first :: "nat \<Rightarrow> cptr \<Rightarrow> circ_mem \<Rightarrow> circ_mem" where
  "set_c_first h v m = m\<lparr>c_first := (c_first m)(h := v)\<rparr>"

definition set_c_last :: "nat \<Rightarrow> cptr \<Rightarrow> circ_mem \<Rightarrow> circ_mem" where
  "set_c_last h v m = m\<lparr>c_last := (c_last m)(h := v)\<rparr>"

definition CIRCLEQ_INIT :: "nat \<Rightarrow> circ_mem \<Rightarrow> circ_mem" where
  "CIRCLEQ_INIT h m = set_c_last h (Head h) (set_c_first h (Head h) m)"

definition CIRCLEQ_INSERT_AFTER :: "nat \<Rightarrow> nat \<Rightarrow> nat \<Rightarrow> circ_mem \<Rightarrow> circ_mem option" where
  "CIRCLEQ_INSERT_AFTER h listelm elm m =
     (if listelm = 0 then None else do {
        m \<leftarrow> set_c_next (Elem elm) (c_next m listelm) m;
        m \<leftarrow> set_c_prev (Elem elm) (Elem listelm) m;
        m \<leftarrow> (if c_next m listelm = Head h then Some (set_c_last h (Elem elm) m)
             else set_c_prev (c_next m listelm) (Elem elm) m);
        set_c_next (Elem listelm) (Elem elm) m })"

definition CIRCLEQ_INSERT_BEFORE :: "nat \<Rightarrow> nat \<Rightarrow> nat \<Rightarrow> circ_mem \<Rightarrow> circ_mem option" where
  "CIRCLEQ_INSERT_BEFORE h listelm elm m =
     (if listelm = 0 then None else do {
        m \<leftarrow> set_c_next (Elem elm) (Elem listelm) m;
        m \<leftarrow> set_c_prev (Elem elm) (c_prev m listelm) m;
        m \<leftarrow> (if c_prev m listelm = Head h then Some (set_c_first h (Elem elm) m)
             else set_c_next (c_prev m listelm) (Elem elm) m);
        set_c_prev (Elem listelm) (Elem elm) m })"

definition CIRCLEQ_INSERT_HEAD :: "nat \<Rightarrow> nat \<Rightarrow> circ_mem \<Rightarrow> circ_mem option" where
  "CIRCLEQ_INSERT_HEAD h elm m = do {
     m \<leftarrow> set_c_next (Elem elm) (c_first m h) m;
     m \<leftarrow> set_c_prev (Elem elm) (Head h) m;
     m \<leftarrow> (if c_last m h = Head h then Some (set_c_last h (Elem elm) m)
          else set_c_prev (c_first m h) (Elem elm) m);
     Some (set_c_first h (Elem elm) m) }"

definition CIRCLEQ_INSERT_TAIL :: "nat \<Rightarrow> nat \<Rightarrow> circ_mem \<Rightarrow> circ_mem option" where
  "CIRCLEQ_INSERT_TAIL h elm m = do {
     m \<leftarrow> set_c_next (Elem elm) (Head h) m;
     m \<leftarrow> set_c_prev (Elem elm) (c_last m h) m;
     m \<leftarrow> (if c_first m h = Head h then Some (set_c_first h (Elem elm) m)
          else set_c_next (c_last m h) (Elem elm) m);
     Some (set_c_last h (Elem elm) m) }"

definition CIRCLEQ_REMOVE :: "nat \<Rightarrow> nat \<Rightarrow> circ_mem \<Rightarrow> circ_mem option" where
  "CIRCLEQ_REMOVE h elm m =
     (if elm = 0 then None else do {
        m \<leftarrow> (if c_next m elm = Head h then Some (set_c_last h (c_prev m elm) m)
             else set_c_prev (c_next m elm) (c_prev m elm) m);
        (if c_prev m elm = Head h then Some (set_c_first h (c_next m elm) m)
         else set_c_next (c_prev m elm) (c_next m elm) m) })"

partial_function (option) circ_visit_next :: "circ_mem \<Rightarrow> nat \<Rightarrow> cptr \<Rightarrow> nat list option" where
  "circ_visit_next m h var =
     (if var = Head h then Some []
      else case var of
        Elem e \<Rightarrow> if e = 0 then None else do { vs \<leftarrow> circ_visit_next m h (c_next m e); Some (e # vs) }
      | Head _ \<Rightarrow> None)"

definition CIRCLEQ_FOREACH :: "nat \<Rightarrow> circ_mem \<Rightarrow> nat list option" where
  "CIRCLEQ_FOREACH h m = circ_visit_next m h (c_first m h)"

partial_function (option) circ_visit_prev :: "circ_mem \<Rightarrow> nat \<Rightarrow> cptr \<Rightarrow> nat list option" where
  "circ_visit_prev m h var =
     (if var = Head h then Some []
      else case var of
        Elem e \<Rightarrow> if e = 0 then None else do { vs \<leftarrow> circ_visit_prev m h (c_prev m e); Some (e # vs) }
      | Head _ \<Rightarrow> None)"

definition CIRCLEQ_FOREACH_REVERSE :: "nat \<Rightarrow> circ_mem \<Rightarrow> nat list option" where
  "CIRCLEQ_FOREACH_REVERSE h m = circ_visit_prev m h (c_last m h)"

definition CIRCLEQ_EMPTY :: "nat \<Rightarrow> circ_mem \<Rightarrow> bool" where
  "CIRCLEQ_EMPTY h m = (c_first m h = Head h)"

definition CIRCLEQ_FIRST :: "nat \<Rightarrow> circ_mem \<Rightarrow> cptr" where
  "CIRCLEQ_FIRST h m = c_first m h"

definition CIRCLEQ_LAST :: "nat \<Rightarrow> circ_mem \<Rightarrow> cptr" where
  "CIRCLEQ_LAST h m = c_last m h"

definition CIRCLEQ_NEXT :: "nat \<Rightarrow> circ_mem \<Rightarrow> cptr option" where
  "CIRCLEQ_NEXT elm m = (if elm = 0 then None else Some (c_next m elm))"

definition CIRCLEQ_PREV :: "nat \<Rightarrow> circ_mem \<Rightarrow> cptr option" where
  "CIRCLEQ_PREV elm m = (if elm = 0 then None else Some (c_prev m elm))"

definition CIRCLEQ_LOOP_NEXT :: "nat \<Rightarrow> nat \<Rightarrow> circ_mem \<Rightarrow> cptr option" where
  "CIRCLEQ_LOOP_NEXT h elm m =
     (if elm = 0 then None else Some (if c_next m elm = Head h then c_first m h else c_next m elm))"

definition CIRCLEQ_LOOP_PREV :: "nat \<Rightarrow> nat \<Rightarrow> circ_mem \<Rightarrow> cptr option" where
  "CIRCLEQ_LOOP_PREV h elm m =
     (if elm = 0 then None else Some (if c_prev m elm = Head h then c_last m h else c_prev m elm))"

end
