(* ===== verification/Sys_Queue_Lists.thy ===== *)
theory Sys_Queue_Lists
  imports Sys_Queue
begin

text \<open>
  What the macros of \<open>sys_queue.h\<close> do, in terms of lists of elements: a representation predicate per
  kind of queue, the effect of every macro on the represented list, and the interface the four kinds of
  tail queue share, with its instances.
\<close>

subsection \<open>Chains of pointers\<close>

text \<open>\<open>path nx p xs q\<close>: following \<open>nx\<close> from \<open>p\<close> passes \<open>xs\<close> and arrives at \<open>q\<close>.\<close>

fun path :: "(nat \<Rightarrow> nat) \<Rightarrow> nat \<Rightarrow> nat list \<Rightarrow> nat \<Rightarrow> bool" where
  "path nx p [] q \<longleftrightarrow> p = q"
| "path nx p (x # xs) q \<longleftrightarrow> p = x \<and> x \<noteq> 0 \<and> path nx (nx x) xs q"

text \<open>The back pointers: every element knows the slot that points to it.\<close>

fun backs :: "(nat \<Rightarrow> slot) \<Rightarrow> slot \<Rightarrow> nat list \<Rightarrow> bool" where
  "backs pv s [] \<longleftrightarrow> True"
| "backs pv s (x # xs) \<longleftrightarrow> pv x = s \<and> backs pv (Next x) xs"

text \<open>The slot after the last element.\<close>

fun end_slot :: "slot \<Rightarrow> nat list \<Rightarrow> slot" where
  "end_slot s [] = s"
| "end_slot s (x # xs) = end_slot (Next x) xs"

lemma path_append [simp]: "path nx p (xs @ ys) q \<longleftrightarrow> (\<exists>r. path nx p xs r \<and> path nx r ys q)"
  by (induction xs arbitrary: p) auto

lemma path_update [simp]: "x \<notin> set xs \<Longrightarrow> path (nx(x := v)) p xs q = path nx p xs q"
  by (induction xs arbitrary: p) auto

lemma path_cong: "(\<And>x. x \<in> set xs \<Longrightarrow> nx' x = nx x) \<Longrightarrow> path nx' p xs q = path nx p xs q"
  by (induction xs arbitrary: p) auto

lemma path_nonzero: "path nx p xs q \<Longrightarrow> 0 \<notin> set xs"
  by (induction xs arbitrary: p) auto

lemma path_null: "path nx 0 xs q \<longleftrightarrow> xs = [] \<and> q = 0"
  by (cases xs) auto

lemma path_first: "path nx p (x # xs) q \<Longrightarrow> p = x" by simp

lemma backs_append [simp]: "backs pv s (xs @ ys) \<longleftrightarrow> backs pv s xs \<and> backs pv (end_slot s xs) ys"
  by (induction xs arbitrary: s) auto

lemma backs_update [simp]: "x \<notin> set xs \<Longrightarrow> backs (pv(x := v)) s xs = backs pv s xs"
  by (induction xs arbitrary: s) auto

lemma backs_cong: "(\<And>x. x \<in> set xs \<Longrightarrow> pv' x = pv x) \<Longrightarrow> backs pv' s xs = backs pv s xs"
  by (induction xs arbitrary: s) auto

lemma end_slot_append [simp]: "end_slot s (xs @ ys) = end_slot (end_slot s xs) ys"
  by (induction xs arbitrary: s) auto

subsection \<open>The operations on lists\<close>

text \<open>The commands every tail queue has, and what each does to a list of distinct elements.\<close>

datatype queue_op = Insert_head nat | Insert_tail nat | Insert_after nat nat | Remove nat

fun list_after :: "nat \<Rightarrow> nat \<Rightarrow> nat list \<Rightarrow> nat list" where
  "list_after l e [] = []"
| "list_after l e (x # xs) = (if x = l then x # e # xs else x # list_after l e xs)"

fun list_op :: "queue_op \<Rightarrow> nat list \<Rightarrow> nat list option" where
  "list_op (Insert_head e) xs = (if e = 0 \<or> e \<in> set xs then None else Some (e # xs))"
| "list_op (Insert_tail e) xs = (if e = 0 \<or> e \<in> set xs then None else Some (xs @ [e]))"
| "list_op (Insert_after l e) xs =
     (if e = 0 \<or> e \<in> set xs \<or> l \<notin> set xs then None else Some (list_after l e xs))"
| "list_op (Remove e) xs = (if e \<in> set xs then Some (remove1 e xs) else None)"

fun run_ops :: "('op \<Rightarrow> 'm \<Rightarrow> 'm option) \<Rightarrow> 'op list \<Rightarrow> 'm \<Rightarrow> 'm option" where
  "run_ops f [] m = Some m"
| "run_ops f (c # cs) m = Option.bind (f c m) (run_ops f cs)"

lemma list_after_split: "l \<notin> set as \<Longrightarrow> list_after l e (as @ l # bs) = as @ l # e # bs"
  by (induction as) auto

lemma remove1_split: "l \<notin> set as \<Longrightarrow> remove1 l (as @ l # bs) = as @ bs"
  by (induction as) auto

subsection \<open>The interface of a queue\<close>

text \<open>
  A queue represents a list; each macro does on the memory what its command does on the list, and the
  loop over the queue visits the list.
\<close>

locale linked_queue =
  fixes rep :: "'m \<Rightarrow> nat list \<Rightarrow> bool"
    and init :: "'m \<Rightarrow> 'm"
    and step :: "queue_op \<Rightarrow> 'm \<Rightarrow> 'm option"
    and visit :: "'m \<Rightarrow> nat list option"
    and empty :: "'m \<Rightarrow> bool"
  assumes rep_init: "rep (init m) []"
    and rep_step: "rep m xs \<Longrightarrow> list_op c xs = Some ys \<Longrightarrow> \<exists>m'. step c m = Some m' \<and> rep m' ys"
    and visit_rep: "rep m xs \<Longrightarrow> visit m = Some xs"
    and empty_rep: "rep m xs \<Longrightarrow> empty m \<longleftrightarrow> xs = []"
begin

lemma rep_run: "rep m xs \<Longrightarrow> run_ops list_op cs xs = Some ys \<Longrightarrow> \<exists>m'. run_ops step cs m = Some m' \<and> rep m' ys"
proof (induction cs arbitrary: m xs)
  case Nil
  then show ?case by simp
next
  case (Cons c cs)
  obtain zs where "list_op c xs = Some zs" "run_ops list_op cs zs = Some ys"
    using Cons.prems(2) by (auto split: bind_splits)
  moreover obtain m' where "step c m = Some m'" "rep m' zs"
    using rep_step [OF Cons.prems(1)] calculation(1) by blast
  ultimately show ?case using Cons.IH by simp
qed

lemma history:
  assumes "run_ops list_op cs [] = Some ys"
  shows "\<exists>m'. run_ops step cs (init m) = Some m' \<and> visit m' = Some ys \<and> (empty m' \<longleftrightarrow> ys = [])"
  using rep_run [OF rep_init assms] visit_rep empty_rep by blast

text \<open>The list a memory represents is unique.\<close>

lemma rep_unique: "rep m xs \<Longrightarrow> rep m ys \<Longrightarrow> xs = ys"
  using visit_rep [of m xs] visit_rep [of m ys] by simp

end

subsection \<open>Walking a queue\<close>

lemma visit_path: "path (q_next m) p xs 0 \<Longrightarrow> visit_next m p = Some xs"
proof (induction xs arbitrary: p)
  case Nil
  then show ?case by (simp add: visit_next.simps)
next
  case (Cons x xs)
  then show ?case by (subst visit_next.simps) auto
qed

lemma find_before_path:
  "path (q_next m) p (as @ l # e # bs) q \<Longrightarrow> e \<notin> set (as @ [l]) \<Longrightarrow> find_before m e p = Some l"
proof (induction as arbitrary: p)
  case Nil
  then show ?case by (subst find_before.simps) auto
next
  case (Cons x xs)
  have "find_before m e (q_next m x) = Some l" using Cons by auto
  moreover have "q_next m x \<noteq> e" using Cons.prems by (cases xs) auto
  ultimately show ?case using Cons.prems by (subst find_before.simps) auto
qed

subsection \<open>Singly linked tail queues\<close>

definition stailq :: "nat \<Rightarrow> queue_mem \<Rightarrow> nat list \<Rightarrow> bool" where
  "stailq h m xs \<longleftrightarrow> distinct xs \<and> path (q_next m) (q_first m h) xs 0 \<and>
     q_last m h = end_slot (First h) xs"

lemma end_slot_snoc: "xs \<noteq> [] \<Longrightarrow> end_slot s xs = Next (last xs)"
  by (induction xs arbitrary: s) auto

text \<open>Writing through the slot at the end of a chain appends to the chain.\<close>

lemma write_end:
  assumes "path (q_next m) (q_first m h) xs p" "distinct xs"
  shows "\<exists>m'. write_slot (end_slot (First h) xs) v m = Some m' \<and> path (q_next m') (q_first m' h) xs v \<and>
    (\<forall>e. e \<notin> set xs \<longrightarrow> q_next m' e = q_next m e) \<and> q_last m' = q_last m \<and> q_prev m' = q_prev m \<and>
    (\<forall>g. g \<noteq> h \<longrightarrow> q_first m' g = q_first m g) \<and> (xs \<noteq> [] \<longrightarrow> q_first m' h = q_first m h)"
proof (cases xs rule: rev_cases)
  case Nil
  then show ?thesis by simp
next
  case (snoc ys y)
  have "y \<noteq> 0" "y \<notin> set ys" using assms unfolding snoc by auto
  then show ?thesis using assms unfolding snoc by auto
qed

lemma STAILQ_INIT_rep: "stailq h (STAILQ_INIT h m) []"
  by (simp add: stailq_def STAILQ_INIT_def mem_defs)

lemma STAILQ_INSERT_HEAD_rep:
  "stailq h m xs \<Longrightarrow> e \<noteq> 0 \<Longrightarrow> e \<notin> set xs \<Longrightarrow> \<exists>m'. STAILQ_INSERT_HEAD h e m = Some m' \<and> stailq h m' (e # xs)"
  by (cases xs) (auto simp: stailq_def STAILQ_INSERT_HEAD_def mem_defs)

lemma STAILQ_INSERT_TAIL_rep:
  assumes "stailq h m xs" "e \<noteq> 0" "e \<notin> set xs"
  shows "\<exists>m'. STAILQ_INSERT_TAIL h e m = Some m' \<and> stailq h m' (xs @ [e])"
proof -
  let ?m = "m\<lparr>q_next := (q_next m)(e := 0)\<rparr>"
  have "path (q_next ?m) (q_first ?m h) xs 0" "distinct xs" using assms by (auto simp: stailq_def)
  from write_end [OF this, of e] obtain m' where "write_slot (end_slot (First h) xs) e ?m = Some m'"
    "path (q_next m') (q_first m' h) xs e" "q_next m' e = 0"
    using assms by auto
  then show ?thesis using assms by (auto simp: stailq_def STAILQ_INSERT_TAIL_def mem_defs)
qed

lemma STAILQ_INSERT_AFTER_rep:
  "stailq h m (as @ l # bs) \<Longrightarrow> e \<noteq> 0 \<Longrightarrow> e \<notin> set (as @ l # bs) \<Longrightarrow>
    \<exists>m'. STAILQ_INSERT_AFTER h l e m = Some m' \<and> stailq h m' (as @ l # e # bs)"
  by (cases bs) (auto simp: stailq_def STAILQ_INSERT_AFTER_def mem_defs)

lemma STAILQ_REMOVE_HEAD_rep:
  "stailq h m (e # xs) \<Longrightarrow> \<exists>m'. STAILQ_REMOVE_HEAD h m = Some m' \<and> stailq h m' xs"
  by (cases xs) (auto simp: stailq_def STAILQ_REMOVE_HEAD_def mem_defs)

lemma STAILQ_REMOVE_rep:
  assumes "stailq h m (as @ e # bs)"
  shows "\<exists>m'. STAILQ_REMOVE h e m = Some m' \<and> stailq h m' (as @ bs)"
proof (cases as rule: rev_cases)
  case Nil
  then show ?thesis using assms STAILQ_REMOVE_HEAD_rep [of h m e bs]
    by (simp add: STAILQ_REMOVE_def stailq_def)
next
  case (snoc cs l)
  have f: "find_before m e (q_first m h) = Some l"
    using assms find_before_path [of m "q_first m h" cs l e bs 0] unfolding snoc stailq_def by auto
  have "q_first m h \<noteq> e" using assms unfolding snoc stailq_def by (cases cs) auto
  then show ?thesis using assms f unfolding snoc
    by (cases bs) (auto simp: STAILQ_REMOVE_def stailq_def mem_defs)
qed

lemma STAILQ_FOREACH_rep: "stailq h m xs \<Longrightarrow> STAILQ_FOREACH h m = Some xs"
  by (simp add: stailq_def STAILQ_FOREACH_def visit_path)

lemma STAILQ_EMPTY_rep: "stailq h m xs \<Longrightarrow> STAILQ_EMPTY h m \<longleftrightarrow> xs = []"
  by (cases xs) (auto simp: stailq_def STAILQ_EMPTY_def)

lemma STAILQ_CONCAT_rep:
  assumes "stailq h m xs" "stailq g m ys" "h \<noteq> g" "set xs \<inter> set ys = {}"
  shows "\<exists>m'. STAILQ_CONCAT h g m = Some m' \<and> stailq h m' (xs @ ys) \<and> stailq g m' []"
proof (cases ys)
  case Nil
  then show ?thesis using assms by (auto simp: STAILQ_CONCAT_def STAILQ_EMPTY_rep [OF assms(2)])
next
  case (Cons y zs)
  obtain m' where m': "write_slot (q_last m h) y m = Some m'" "path (q_next m') (q_first m' h) xs y"
    "\<forall>e. e \<notin> set xs \<longrightarrow> q_next m' e = q_next m e" "q_last m' = q_last m"
    using write_end [of m h xs 0 y] assms by (auto simp: stailq_def)
  have "path (q_next m') y ys 0 = path (q_next m) y ys 0"
    using m'(3) assms(4) by (intro path_cong) auto
  then have "path (q_next m') y ys 0" using assms Cons by (auto simp: stailq_def)
  then show ?thesis using assms m' Cons
    by (auto simp: STAILQ_CONCAT_def STAILQ_EMPTY_def STAILQ_INIT_def stailq_def mem_defs intro!: exI [of _ y])
qed

definition stailq_step :: "nat \<Rightarrow> queue_op \<Rightarrow> queue_mem \<Rightarrow> queue_mem option" where
  "stailq_step h c = (case c of
     Insert_head e \<Rightarrow> STAILQ_INSERT_HEAD h e
   | Insert_tail e \<Rightarrow> STAILQ_INSERT_TAIL h e
   | Insert_after l e \<Rightarrow> STAILQ_INSERT_AFTER h l e
   | Remove e \<Rightarrow> STAILQ_REMOVE h e)"

text \<open>The commands that touch the middle of a list split it at the element they name.\<close>

lemma list_op_cases:
  assumes "list_op c xs = Some ys" "distinct xs"
  obtains e where "c = Insert_head e" "e \<noteq> 0" "e \<notin> set xs" "ys = e # xs"
  | e where "c = Insert_tail e" "e \<noteq> 0" "e \<notin> set xs" "ys = xs @ [e]"
  | l e as bs where "c = Insert_after l e" "e \<noteq> 0" "e \<notin> set xs" "xs = as @ l # bs" "ys = as @ l # e # bs"
  | e as bs where "c = Remove e" "xs = as @ e # bs" "ys = as @ bs"
proof (cases c)
  case (Insert_after l e)
  then obtain as bs where "xs = as @ l # bs" "l \<notin> set as"
    using assms split_list_first [of l xs] by (auto split: if_splits)
  then show thesis using assms Insert_after that(3) [of l e as bs]
    by (auto simp: list_after_split split: if_splits)
next
  case (Remove e)
  then obtain as bs where "xs = as @ e # bs" "e \<notin> set as"
    using assms split_list_first [of e xs] by (auto split: if_splits)
  then show thesis using assms Remove that(4) [of e as bs]
    by (auto simp: remove1_split split: if_splits)
qed (use assms that in \<open>auto split: if_splits\<close>)

lemma stailq_step_rep:
  assumes "stailq h m xs" "list_op c xs = Some ys"
  shows "\<exists>m'. stailq_step h c m = Some m' \<and> stailq h m' ys"
proof -
  have "distinct xs" using assms(1) by (simp add: stailq_def)
  then show ?thesis using assms(2)
    by (cases rule: list_op_cases [rotated])
      (use assms(1) in \<open>auto simp: stailq_step_def STAILQ_INSERT_HEAD_rep STAILQ_INSERT_TAIL_rep
        STAILQ_INSERT_AFTER_rep STAILQ_REMOVE_rep\<close>)
qed

interpretation stail: linked_queue "stailq h" "STAILQ_INIT h" "stailq_step h" "STAILQ_FOREACH h" "STAILQ_EMPTY h"
  for h
  by unfold_locales (auto simp: STAILQ_INIT_rep STAILQ_FOREACH_rep STAILQ_EMPTY_rep intro: stailq_step_rep)

subsection \<open>Simple queues\<close>

text \<open>The simple queue has the code of the singly linked tail queue under other names.\<close>

lemma SIMPLEQ_STAILQ:
  "SIMPLEQ_INIT h = STAILQ_INIT h" "SIMPLEQ_INSERT_HEAD h = STAILQ_INSERT_HEAD h"
  "SIMPLEQ_INSERT_TAIL h = STAILQ_INSERT_TAIL h" "SIMPLEQ_INSERT_AFTER h = STAILQ_INSERT_AFTER h"
  "SIMPLEQ_REMOVE_HEAD h = STAILQ_REMOVE_HEAD h" "SIMPLEQ_REMOVE h = STAILQ_REMOVE h"
  "SIMPLEQ_FOREACH h = STAILQ_FOREACH h" "SIMPLEQ_EMPTY h = STAILQ_EMPTY h"
  by (intro ext; simp add: SIMPLEQ_INIT_def STAILQ_INIT_def SIMPLEQ_INSERT_HEAD_def STAILQ_INSERT_HEAD_def
      SIMPLEQ_INSERT_TAIL_def STAILQ_INSERT_TAIL_def SIMPLEQ_INSERT_AFTER_def STAILQ_INSERT_AFTER_def
      SIMPLEQ_REMOVE_HEAD_def STAILQ_REMOVE_HEAD_def SIMPLEQ_REMOVE_def STAILQ_REMOVE_def
      SIMPLEQ_FOREACH_def STAILQ_FOREACH_def SIMPLEQ_EMPTY_def STAILQ_EMPTY_def)+

definition simpleq_step :: "nat \<Rightarrow> queue_op \<Rightarrow> queue_mem \<Rightarrow> queue_mem option" where
  "simpleq_step h c = (case c of
     Insert_head e \<Rightarrow> SIMPLEQ_INSERT_HEAD h e
   | Insert_tail e \<Rightarrow> SIMPLEQ_INSERT_TAIL h e
   | Insert_after l e \<Rightarrow> SIMPLEQ_INSERT_AFTER h l e
   | Remove e \<Rightarrow> SIMPLEQ_REMOVE h e)"

lemma simpleq_step_stailq: "simpleq_step h = stailq_step h"
  by (simp add: fun_eq_iff simpleq_step_def stailq_step_def SIMPLEQ_STAILQ split: queue_op.split)

interpretation simple: linked_queue "stailq h" "SIMPLEQ_INIT h" "simpleq_step h" "SIMPLEQ_FOREACH h" "SIMPLEQ_EMPTY h"
  for h
  using stail.linked_queue_axioms by (simp add: SIMPLEQ_STAILQ simpleq_step_stailq)

subsection \<open>Singly linked lists\<close>

definition slist :: "nat \<Rightarrow> queue_mem \<Rightarrow> nat list \<Rightarrow> bool" where
  "slist h m xs \<longleftrightarrow> distinct xs \<and> path (q_next m) (q_first m h) xs 0"

lemma SLIST_INIT_rep: "slist h (SLIST_INIT h m) []"
  by (simp add: slist_def SLIST_INIT_def mem_defs)

lemma SLIST_INSERT_HEAD_rep:
  "slist h m xs \<Longrightarrow> e \<noteq> 0 \<Longrightarrow> e \<notin> set xs \<Longrightarrow> \<exists>m'. SLIST_INSERT_HEAD h e m = Some m' \<and> slist h m' (e # xs)"
  by (auto simp: slist_def SLIST_INSERT_HEAD_def mem_defs)

lemma SLIST_INSERT_AFTER_rep:
  "slist h m (as @ l # bs) \<Longrightarrow> e \<noteq> 0 \<Longrightarrow> e \<notin> set (as @ l # bs) \<Longrightarrow>
    \<exists>m'. SLIST_INSERT_AFTER l e m = Some m' \<and> slist h m' (as @ l # e # bs)"
  by (auto simp: slist_def SLIST_INSERT_AFTER_def mem_defs)

lemma SLIST_REMOVE_HEAD_rep:
  "slist h m (e # xs) \<Longrightarrow> \<exists>m'. SLIST_REMOVE_HEAD h m = Some m' \<and> slist h m' xs"
  by (auto simp: slist_def SLIST_REMOVE_HEAD_def mem_defs)

lemma SLIST_REMOVE_rep:
  assumes "slist h m (as @ e # bs)"
  shows "\<exists>m'. SLIST_REMOVE h e m = Some m' \<and> slist h m' (as @ bs)"
proof (cases as rule: rev_cases)
  case Nil
  then show ?thesis using assms SLIST_REMOVE_HEAD_rep [of h m e bs]
    by (simp add: SLIST_REMOVE_def slist_def)
next
  case (snoc cs l)
  have f: "find_before m e (q_first m h) = Some l"
    using assms find_before_path [of m "q_first m h" cs l e bs 0] unfolding snoc slist_def by auto
  have "q_first m h \<noteq> e" using assms unfolding snoc slist_def by (cases cs) auto
  then show ?thesis using assms f unfolding snoc
    by (auto simp: SLIST_REMOVE_def slist_def mem_defs)
qed

lemma SLIST_FOREACH_rep: "slist h m xs \<Longrightarrow> SLIST_FOREACH h m = Some xs"
  by (simp add: slist_def SLIST_FOREACH_def visit_path)

subsection \<open>Tail queues\<close>

definition tailq :: "nat \<Rightarrow> queue_mem \<Rightarrow> nat list \<Rightarrow> bool" where
  "tailq h m xs \<longleftrightarrow> stailq h m xs \<and> backs (q_prev m) (First h) xs"

lemmas tailq_defs = tailq_def stailq_def

lemma read_end:
  "path (q_next m) (q_first m h) xs p \<Longrightarrow> read_slot m (end_slot (First h) xs) = Some p"
  by (cases xs rule: rev_cases) auto

lemma TAILQ_INIT_rep: "tailq h (TAILQ_INIT h m) []"
  by (simp add: tailq_defs TAILQ_INIT_def mem_defs)

lemma TAILQ_INSERT_HEAD_rep:
  "tailq h m xs \<Longrightarrow> e \<noteq> 0 \<Longrightarrow> e \<notin> set xs \<Longrightarrow> \<exists>m'. TAILQ_INSERT_HEAD h e m = Some m' \<and> tailq h m' (e # xs)"
  by (cases xs) (auto simp: tailq_defs TAILQ_INSERT_HEAD_def mem_defs)

lemma TAILQ_INSERT_TAIL_rep:
  assumes "tailq h m xs" "e \<noteq> 0" "e \<notin> set xs"
  shows "\<exists>m'. TAILQ_INSERT_TAIL h e m = Some m' \<and> tailq h m' (xs @ [e])"
proof -
  let ?m = "m\<lparr>q_next := (q_next m)(e := 0), q_prev := (q_prev m)(e := q_last m h)\<rparr>"
  have "path (q_next ?m) (q_first ?m h) xs 0" "distinct xs" using assms by (auto simp: tailq_defs)
  from write_end [OF this, of e] obtain m' where "write_slot (end_slot (First h) xs) e ?m = Some m'"
    "path (q_next m') (q_first m' h) xs e" "q_next m' e = 0" "q_prev m' = q_prev ?m"
    using assms by auto
  then show ?thesis using assms by (auto simp: tailq_defs TAILQ_INSERT_TAIL_def mem_defs)
qed

lemma TAILQ_INSERT_AFTER_rep:
  "tailq h m (as @ l # bs) \<Longrightarrow> e \<noteq> 0 \<Longrightarrow> e \<notin> set (as @ l # bs) \<Longrightarrow>
    \<exists>m'. TAILQ_INSERT_AFTER h l e m = Some m' \<and> tailq h m' (as @ l # e # bs)"
  by (cases bs) (auto simp: tailq_defs TAILQ_INSERT_AFTER_def mem_defs)

text \<open>The write through \<open>tqe_prev\<close> redirects the part of the queue before the element.\<close>

lemma write_prev:
  assumes "tailq h m (as @ e # bs)"
  shows "\<exists>m'. write_slot (q_prev m e) v m = Some m' \<and> path (q_next m') (q_first m' h) as v \<and>
    (\<forall>x. x \<notin> set as \<longrightarrow> q_next m' x = q_next m x) \<and> q_last m' = q_last m \<and> q_prev m' = q_prev m"
  using write_end [of m h as e v] assms by (auto simp: tailq_defs)

lemma TAILQ_INSERT_BEFORE_rep:
  assumes "tailq h m (as @ l # bs)" "e \<noteq> 0" "e \<notin> set (as @ l # bs)"
  shows "\<exists>m'. TAILQ_INSERT_BEFORE l e m = Some m' \<and> tailq h m' (as @ e # l # bs)"
proof -
  let ?m = "m\<lparr>q_prev := (q_prev m)(e := q_prev m l), q_next := (q_next m)(e := l)\<rparr>"
  have "tailq h ?m (as @ l # bs)" using assms by (auto simp: tailq_defs)
  from write_prev [OF this, of e] obtain m' where m': "write_slot (q_prev ?m l) e ?m = Some m'"
    "path (q_next m') (q_first m' h) as e" "\<forall>x. x \<notin> set as \<longrightarrow> q_next m' x = q_next ?m x"
    "q_last m' = q_last m" "q_prev m' = q_prev ?m"
    by auto
  have "path (q_next m') (q_next m l) bs 0 = path (q_next m) (q_next m l) bs 0"
    using m'(3) assms by (intro path_cong) (auto simp: tailq_defs)
  then show ?thesis using assms m'
    by (auto simp: tailq_defs TAILQ_INSERT_BEFORE_def mem_defs)
qed

lemma TAILQ_REMOVE_rep:
  assumes "tailq h m (as @ e # bs)"
  shows "\<exists>m'. TAILQ_REMOVE h e m = Some m' \<and> tailq h m' (as @ bs)"
proof -
  define n where "n = (if bs = [] then m\<lparr>q_last := (q_last m)(h := q_prev m e)\<rparr>
    else m\<lparr>q_prev := (q_prev m)(hd bs := q_prev m e)\<rparr>)"
  have n: "q_next n = q_next m" "q_first n = q_first m" by (simp_all add: n_def)
  have "path (q_next n) (q_first n h) as e" "distinct as" using assms by (auto simp: n tailq_defs)
  from write_end [OF this, of "q_next m e"] obtain m' where m': "write_slot (q_prev m e) (q_next m e) n = Some m'"
    "path (q_next m') (q_first m' h) as (q_next m e)"
    "\<forall>x. x \<notin> set as \<longrightarrow> q_next m' x = q_next m x" "q_last m' = q_last n" "q_prev m' = q_prev n"
    using assms by (auto simp: n tailq_defs)
  have "path (q_next m') (q_next m e) bs 0 = path (q_next m) (q_next m e) bs 0"
    using m'(3) assms by (intro path_cong) (auto simp: tailq_defs)
  then show ?thesis using assms m'
    by (cases bs) (auto simp: tailq_defs TAILQ_REMOVE_def mem_defs n_def)
qed

lemma TAILQ_FOREACH_rep: "tailq h m xs \<Longrightarrow> TAILQ_FOREACH h m = Some xs"
  by (simp add: tailq_defs TAILQ_FOREACH_def visit_path)

lemma TAILQ_EMPTY_rep: "tailq h m xs \<Longrightarrow> TAILQ_EMPTY h m \<longleftrightarrow> xs = []"
  by (cases xs) (auto simp: tailq_defs TAILQ_EMPTY_def)

text \<open>The casts: the second field of the slot after a prefix leads to the last element of the prefix.\<close>

lemma second_end:
  assumes "tailq h m (as @ bs)"
  shows "Option.bind (second_field m (end_slot (First h) as)) (read_slot m) =
    Some (if as = [] then 0 else last as)"
proof (cases as rule: rev_cases)
  case Nil
  then show ?thesis using assms read_end [of m h bs 0] by (simp add: tailq_defs)
next
  case (snoc cs l)
  then show ?thesis using assms read_end [of m h cs l]
    by (auto simp: tailq_defs mem_defs simp del: path_append dest: iffD1 [OF path_append])
qed

lemma TAILQ_LAST_rep: "tailq h m xs \<Longrightarrow> TAILQ_LAST h m = Some (if xs = [] then 0 else last xs)"
  using second_end [of h m xs "[]"] by (simp add: TAILQ_LAST_def tailq_defs)

lemma TAILQ_PREV_rep: "tailq h m (as @ e # bs) \<Longrightarrow> TAILQ_PREV e m = Some (if as = [] then 0 else last as)"
  using second_end [of h m as "e # bs"] by (auto simp: TAILQ_PREV_def tailq_defs mem_defs)

lemma visit_prev_rep:
  "tailq h m (as @ bs) \<Longrightarrow> visit_prev m (if as = [] then 0 else last as) = Some (rev as)"
proof (induction as arbitrary: bs rule: rev_induct)
  case Nil
  then show ?case by (simp add: visit_prev.simps)
next
  case (snoc x xs)
  have "x \<noteq> 0" using snoc.prems by (auto simp: tailq_defs)
  moreover have "TAILQ_PREV x m = Some (if xs = [] then 0 else last xs)"
    using snoc.prems TAILQ_PREV_rep [of h m xs x bs] by simp
  moreover have "visit_prev m (if xs = [] then 0 else last xs) = Some (rev xs)"
    using snoc by simp
  ultimately show ?case by (subst visit_prev.simps) simp
qed

lemma TAILQ_FOREACH_REVERSE_rep: "tailq h m xs \<Longrightarrow> TAILQ_FOREACH_REVERSE h m = Some (rev xs)"
  using visit_prev_rep [of h m xs "[]"] by (simp add: TAILQ_FOREACH_REVERSE_def TAILQ_LAST_rep)

lemma TAILQ_CONCAT_rep:
  assumes "tailq h m xs" "tailq g m ys" "h \<noteq> g" "set xs \<inter> set ys = {}"
  shows "\<exists>m'. TAILQ_CONCAT h g m = Some m' \<and> tailq h m' (xs @ ys) \<and> tailq g m' []"
proof (cases ys)
  case Nil
  then show ?thesis using assms by (auto simp: TAILQ_CONCAT_def TAILQ_EMPTY_rep [OF assms(2)])
next
  case (Cons y zs)
  obtain m' where m': "write_slot (q_last m h) y m = Some m'" "path (q_next m') (q_first m' h) xs y"
    "\<forall>e. e \<notin> set xs \<longrightarrow> q_next m' e = q_next m e" "q_last m' = q_last m" "q_prev m' = q_prev m"
    "q_first m' g = q_first m g"
    using write_end [of m h xs 0 y] assms by (auto simp: tailq_defs)
  have "path (q_next m') y ys 0 = path (q_next m) y ys 0"
    using m'(3) assms(4) by (intro path_cong) auto
  then have "path (q_next m') y ys 0" using assms Cons by (auto simp: tailq_defs)
  then show ?thesis using assms m' Cons
    by (auto simp: TAILQ_CONCAT_def TAILQ_EMPTY_def TAILQ_INIT_def tailq_defs mem_defs intro!: exI [of _ y])
qed

definition tailq_step :: "nat \<Rightarrow> queue_op \<Rightarrow> queue_mem \<Rightarrow> queue_mem option" where
  "tailq_step h c = (case c of
     Insert_head e \<Rightarrow> TAILQ_INSERT_HEAD h e
   | Insert_tail e \<Rightarrow> TAILQ_INSERT_TAIL h e
   | Insert_after l e \<Rightarrow> TAILQ_INSERT_AFTER h l e
   | Remove e \<Rightarrow> TAILQ_REMOVE h e)"

lemma tailq_step_rep:
  assumes "tailq h m xs" "list_op c xs = Some ys"
  shows "\<exists>m'. tailq_step h c m = Some m' \<and> tailq h m' ys"
proof -
  have "distinct xs" using assms(1) by (simp add: tailq_defs)
  then show ?thesis using assms(2)
    by (cases rule: list_op_cases [rotated])
      (use assms(1) in \<open>auto simp: tailq_step_def TAILQ_INSERT_HEAD_rep TAILQ_INSERT_TAIL_rep
        TAILQ_INSERT_AFTER_rep TAILQ_REMOVE_rep\<close>)
qed

interpretation tail: linked_queue "tailq h" "TAILQ_INIT h" "tailq_step h" "TAILQ_FOREACH h" "TAILQ_EMPTY h"
  for h
  by unfold_locales (auto simp: TAILQ_INIT_rep TAILQ_FOREACH_rep TAILQ_EMPTY_rep intro: tailq_step_rep)

subsection \<open>Doubly linked lists\<close>

definition dlist :: "nat \<Rightarrow> queue_mem \<Rightarrow> nat list \<Rightarrow> bool" where
  "dlist h m xs \<longleftrightarrow> distinct xs \<and> path (q_next m) (q_first m h) xs 0 \<and> backs (q_prev m) (First h) xs"

lemma LIST_INIT_rep: "dlist h (LIST_INIT h m) []"
  by (simp add: dlist_def LIST_INIT_def mem_defs)

lemma LIST_INSERT_HEAD_rep:
  "dlist h m xs \<Longrightarrow> e \<noteq> 0 \<Longrightarrow> e \<notin> set xs \<Longrightarrow> \<exists>m'. LIST_INSERT_HEAD h e m = Some m' \<and> dlist h m' (e # xs)"
  by (cases xs) (auto simp: dlist_def LIST_INSERT_HEAD_def mem_defs)

lemma LIST_INSERT_AFTER_rep:
  "dlist h m (as @ l # bs) \<Longrightarrow> e \<noteq> 0 \<Longrightarrow> e \<notin> set (as @ l # bs) \<Longrightarrow>
    \<exists>m'. LIST_INSERT_AFTER l e m = Some m' \<and> dlist h m' (as @ l # e # bs)"
  by (cases bs) (auto simp: dlist_def LIST_INSERT_AFTER_def mem_defs)

lemma LIST_INSERT_BEFORE_rep:
  assumes "dlist h m (as @ l # bs)" "e \<noteq> 0" "e \<notin> set (as @ l # bs)"
  shows "\<exists>m'. LIST_INSERT_BEFORE l e m = Some m' \<and> dlist h m' (as @ e # l # bs)"
proof -
  let ?m = "m\<lparr>q_prev := (q_prev m)(e := q_prev m l), q_next := (q_next m)(e := l)\<rparr>"
  have "path (q_next ?m) (q_first ?m h) as l" "distinct as" using assms by (auto simp: dlist_def)
  from write_end [OF this, of e] obtain m' where m': "write_slot (q_prev m l) e ?m = Some m'"
    "path (q_next m') (q_first m' h) as e" "\<forall>x. x \<notin> set as \<longrightarrow> q_next m' x = q_next ?m x"
    "q_prev m' = q_prev ?m"
    using assms by (auto simp: dlist_def)
  have "path (q_next m') (q_next m l) bs 0 = path (q_next m) (q_next m l) bs 0"
    using m'(3) assms by (intro path_cong) (auto simp: dlist_def)
  then show ?thesis using assms m'
    by (auto simp: dlist_def LIST_INSERT_BEFORE_def mem_defs)
qed

lemma LIST_REMOVE_rep:
  assumes "dlist h m (as @ e # bs)"
  shows "\<exists>m'. LIST_REMOVE e m = Some m' \<and> dlist h m' (as @ bs)"
proof -
  define n where "n = (if bs = [] then m else m\<lparr>q_prev := (q_prev m)(hd bs := q_prev m e)\<rparr>)"
  have n: "q_next n = q_next m" "q_first n = q_first m" by (simp_all add: n_def)
  have "path (q_next n) (q_first n h) as e" "distinct as" using assms by (auto simp: n dlist_def)
  from write_end [OF this, of "q_next m e"] obtain m' where m': "write_slot (q_prev m e) (q_next m e) n = Some m'"
    "path (q_next m') (q_first m' h) as (q_next m e)"
    "\<forall>x. x \<notin> set as \<longrightarrow> q_next m' x = q_next m x" "q_prev m' = q_prev n"
    using assms by (auto simp: n dlist_def)
  have "path (q_next m') (q_next m e) bs 0 = path (q_next m) (q_next m e) bs 0"
    using m'(3) assms by (intro path_cong) (auto simp: dlist_def)
  then show ?thesis using assms m'
    by (cases bs) (auto simp: dlist_def LIST_REMOVE_def mem_defs n_def)
qed

lemma LIST_FOREACH_rep: "dlist h m xs \<Longrightarrow> LIST_FOREACH h m = Some xs"
  by (simp add: dlist_def LIST_FOREACH_def visit_path)

subsection \<open>Circular queues\<close>

fun cpath :: "(nat \<Rightarrow> cptr) \<Rightarrow> cptr \<Rightarrow> nat list \<Rightarrow> cptr \<Rightarrow> bool" where
  "cpath nx p [] q \<longleftrightarrow> p = q"
| "cpath nx p (x # xs) q \<longleftrightarrow> p = Elem x \<and> x \<noteq> 0 \<and> cpath nx (nx x) xs q"

lemma cpath_append [simp]: "cpath nx p (xs @ ys) q \<longleftrightarrow> (\<exists>r. cpath nx p xs r \<and> cpath nx r ys q)"
  by (induction xs arbitrary: p) auto

lemma cpath_update [simp]: "x \<notin> set xs \<Longrightarrow> cpath (nx(x := v)) p xs q = cpath nx p xs q"
  by (induction xs arbitrary: p) auto

definition circleq :: "nat \<Rightarrow> circ_mem \<Rightarrow> nat list \<Rightarrow> bool" where
  "circleq h m xs \<longleftrightarrow> distinct xs \<and> cpath (c_next m) (c_first m h) xs (Head h) \<and>
     cpath (c_prev m) (c_last m h) (rev xs) (Head h)"

lemmas circ_defs = circleq_def set_c_first_def set_c_last_def

lemma CIRCLEQ_INIT_rep: "circleq h (CIRCLEQ_INIT h m) []"
  by (simp add: circ_defs CIRCLEQ_INIT_def)

lemma circleq_ends: "circleq h m xs \<Longrightarrow> c_first m h = Head h \<longleftrightarrow> xs = []" "circleq h m xs \<Longrightarrow> c_last m h = Head h \<longleftrightarrow> xs = []"
  by (cases xs; auto simp: circleq_def) (cases xs rule: rev_cases; auto simp: circleq_def)

lemma CIRCLEQ_INSERT_HEAD_rep:
  assumes "circleq h m xs" "e \<noteq> 0" "e \<notin> set xs"
  shows "\<exists>m'. CIRCLEQ_INSERT_HEAD h e m = Some m' \<and> circleq h m' (e # xs)"
  using assms circleq_ends(2) [OF assms(1)] by (cases xs) (auto simp: circ_defs CIRCLEQ_INSERT_HEAD_def)

lemma CIRCLEQ_INSERT_TAIL_rep:
  assumes "circleq h m xs" "e \<noteq> 0" "e \<notin> set xs"
  shows "\<exists>m'. CIRCLEQ_INSERT_TAIL h e m = Some m' \<and> circleq h m' (xs @ [e])"
  using assms circleq_ends(1) [OF assms(1)]
  by (cases xs rule: rev_cases) (auto simp: circ_defs CIRCLEQ_INSERT_TAIL_def)

lemma CIRCLEQ_INSERT_AFTER_rep:
  "circleq h m (as @ l # bs) \<Longrightarrow> e \<noteq> 0 \<Longrightarrow> e \<notin> set (as @ l # bs) \<Longrightarrow>
    \<exists>m'. CIRCLEQ_INSERT_AFTER h l e m = Some m' \<and> circleq h m' (as @ l # e # bs)"
  by (cases bs) (auto simp: circ_defs CIRCLEQ_INSERT_AFTER_def)

lemma CIRCLEQ_INSERT_BEFORE_rep:
  "circleq h m (as @ l # bs) \<Longrightarrow> e \<noteq> 0 \<Longrightarrow> e \<notin> set (as @ l # bs) \<Longrightarrow>
    \<exists>m'. CIRCLEQ_INSERT_BEFORE h l e m = Some m' \<and> circleq h m' (as @ e # l # bs)"
  by (cases as rule: rev_cases) (auto simp: circ_defs CIRCLEQ_INSERT_BEFORE_def)

lemma CIRCLEQ_REMOVE_rep:
  "circleq h m (as @ e # bs) \<Longrightarrow> \<exists>m'. CIRCLEQ_REMOVE h e m = Some m' \<and> circleq h m' (as @ bs)"
  by (cases as rule: rev_cases; cases bs) (auto simp: circ_defs CIRCLEQ_REMOVE_def)

lemma circ_visit_next_path: "cpath (c_next m) p xs (Head h) \<Longrightarrow> circ_visit_next m h p = Some xs"
proof (induction xs arbitrary: p)
  case Nil
  then show ?case by (simp add: circ_visit_next.simps)
next
  case (Cons x xs)
  then show ?case by (subst circ_visit_next.simps) auto
qed

lemma circ_visit_prev_path: "cpath (c_prev m) p xs (Head h) \<Longrightarrow> circ_visit_prev m h p = Some xs"
proof (induction xs arbitrary: p)
  case Nil
  then show ?case by (simp add: circ_visit_prev.simps)
next
  case (Cons x xs)
  then show ?case by (subst circ_visit_prev.simps) auto
qed

lemma CIRCLEQ_FOREACH_rep: "circleq h m xs \<Longrightarrow> CIRCLEQ_FOREACH h m = Some xs"
  by (simp add: circleq_def CIRCLEQ_FOREACH_def circ_visit_next_path)

lemma CIRCLEQ_FOREACH_REVERSE_rep: "circleq h m xs \<Longrightarrow> CIRCLEQ_FOREACH_REVERSE h m = Some (rev xs)"
  by (simp add: circleq_def CIRCLEQ_FOREACH_REVERSE_def circ_visit_prev_path)

lemma CIRCLEQ_EMPTY_rep: "circleq h m xs \<Longrightarrow> CIRCLEQ_EMPTY h m \<longleftrightarrow> xs = []"
  by (cases xs) (auto simp: circleq_def CIRCLEQ_EMPTY_def)

definition circleq_step :: "nat \<Rightarrow> queue_op \<Rightarrow> circ_mem \<Rightarrow> circ_mem option" where
  "circleq_step h c = (case c of
     Insert_head e \<Rightarrow> CIRCLEQ_INSERT_HEAD h e
   | Insert_tail e \<Rightarrow> CIRCLEQ_INSERT_TAIL h e
   | Insert_after l e \<Rightarrow> CIRCLEQ_INSERT_AFTER h l e
   | Remove e \<Rightarrow> CIRCLEQ_REMOVE h e)"

lemma circleq_step_rep:
  assumes "circleq h m xs" "list_op c xs = Some ys"
  shows "\<exists>m'. circleq_step h c m = Some m' \<and> circleq h m' ys"
proof -
  have "distinct xs" using assms(1) by (simp add: circleq_def)
  then show ?thesis using assms(2)
    by (cases rule: list_op_cases [rotated])
      (use assms(1) in \<open>auto simp: circleq_step_def CIRCLEQ_INSERT_HEAD_rep CIRCLEQ_INSERT_TAIL_rep
        CIRCLEQ_INSERT_AFTER_rep CIRCLEQ_REMOVE_rep\<close>)
qed

interpretation circle: linked_queue "circleq h" "CIRCLEQ_INIT h" "circleq_step h" "CIRCLEQ_FOREACH h" "CIRCLEQ_EMPTY h"
  for h
  by unfold_locales (auto simp: CIRCLEQ_INIT_rep CIRCLEQ_FOREACH_rep CIRCLEQ_EMPTY_rep intro: circleq_step_rep)

subsection \<open>Properties\<close>

text \<open>C19: A history of insertions at both ends and after an element and of removals, each of which makes
  sense for the list of elements so far, runs without touching a null pointer on each of the four kinds
  of tail queue, from the initialised head; afterwards the forward loop visits exactly the elements the
  list operations give, in their order, and the backward loops of \<open>TAILQ\<close> and \<open>CIRCLEQ\<close> visit them in
  reverse.\<close>

theorem tail_queues_history:
  assumes "run_ops list_op cs [] = Some ys"
  shows "(\<exists>m'. run_ops (stailq_step h) cs (STAILQ_INIT h m) = Some m' \<and> STAILQ_FOREACH h m' = Some ys) \<and>
    (\<exists>m'. run_ops (simpleq_step h) cs (SIMPLEQ_INIT h m) = Some m' \<and> SIMPLEQ_FOREACH h m' = Some ys) \<and>
    (\<exists>m'. run_ops (tailq_step h) cs (TAILQ_INIT h m) = Some m' \<and> TAILQ_FOREACH h m' = Some ys \<and>
      TAILQ_FOREACH_REVERSE h m' = Some (rev ys)) \<and>
    (\<exists>m'. run_ops (circleq_step h) cs (CIRCLEQ_INIT h c) = Some m' \<and> CIRCLEQ_FOREACH h m' = Some ys \<and>
      CIRCLEQ_FOREACH_REVERSE h m' = Some (rev ys))"
proof (intro conjI)
  show "\<exists>m'. run_ops (stailq_step h) cs (STAILQ_INIT h m) = Some m' \<and> STAILQ_FOREACH h m' = Some ys"
    using stail.history [OF assms] by blast
  show "\<exists>m'. run_ops (simpleq_step h) cs (SIMPLEQ_INIT h m) = Some m' \<and> SIMPLEQ_FOREACH h m' = Some ys"
    using simple.history [OF assms] by blast
qed (use tail.rep_run [OF tail.rep_init assms] circle.rep_run [OF circle.rep_init assms]
    TAILQ_FOREACH_rep TAILQ_FOREACH_REVERSE_rep CIRCLEQ_FOREACH_rep CIRCLEQ_FOREACH_REVERSE_rep in meson)+

definition zero_queue_mem :: queue_mem where
  "zero_queue_mem = \<lparr>q_first = \<lambda>_. 0, q_last = \<lambda>_. First 0, q_next = \<lambda>_. 0, q_prev = \<lambda>_. First 0\<rparr>"

definition zero_circ_mem :: circ_mem where
  "zero_circ_mem = \<lparr>c_first = \<lambda>_. Elem 0, c_last = \<lambda>_. Elem 0, c_next = \<lambda>_. Elem 0, c_prev = \<lambda>_. Elem 0\<rparr>"

lemma tail_queues_history_witness:
  "(\<exists>m'. run_ops (tailq_step 1) [Insert_head 7, Insert_tail 5, Insert_after 7 4, Remove 7]
     (TAILQ_INIT 1 zero_queue_mem) = Some m' \<and> TAILQ_FOREACH_REVERSE 1 m' = Some [5, 4]) \<and>
   (\<exists>m'. run_ops (circleq_step 1) [Insert_head 7, Insert_tail 5, Insert_after 7 4, Remove 7]
     (CIRCLEQ_INIT 1 zero_circ_mem) = Some m' \<and> CIRCLEQ_FOREACH 1 m' = Some [4, 5])"
  using tail_queues_history [of "[Insert_head 7, Insert_tail 5, Insert_after 7 4, Remove 7]" "[4, 5]" 1
      zero_queue_mem zero_circ_mem]
  by fastforce

text \<open>The edits in the middle of a doubly linked \<open>LIST\<close>, which are not given the head, act on the
  list of elements alone, wherever the element is, and the same edits of an \<open>SLIST\<close> do, its removal
  finding the predecessor from the head.\<close>

theorem lists_edits:
  assumes "e \<noteq> 0" "e \<notin> set (as @ l # bs)"
  shows "(dlist h m (as @ l # bs) \<longrightarrow>
      (\<exists>m'. LIST_INSERT_AFTER l e m = Some m' \<and> dlist h m' (as @ l # e # bs)) \<and>
      (\<exists>m'. LIST_INSERT_BEFORE l e m = Some m' \<and> dlist h m' (as @ e # l # bs)) \<and>
      (\<exists>m'. LIST_REMOVE l m = Some m' \<and> dlist h m' (as @ bs)) \<and>
      (\<exists>m'. LIST_INSERT_HEAD h e m = Some m' \<and> dlist h m' (e # as @ l # bs)) \<and>
      LIST_FOREACH h m = Some (as @ l # bs)) \<and>
    (slist h m (as @ l # bs) \<longrightarrow>
      (\<exists>m'. SLIST_INSERT_AFTER l e m = Some m' \<and> slist h m' (as @ l # e # bs)) \<and>
      (\<exists>m'. SLIST_REMOVE h l m = Some m' \<and> slist h m' (as @ bs)) \<and>
      (\<exists>m'. SLIST_INSERT_HEAD h e m = Some m' \<and> slist h m' (e # as @ l # bs)) \<and>
      SLIST_FOREACH h m = Some (as @ l # bs))"
  using assms by (auto simp del: set_append
      intro: LIST_INSERT_AFTER_rep LIST_INSERT_BEFORE_rep LIST_REMOVE_rep LIST_INSERT_HEAD_rep LIST_FOREACH_rep
      SLIST_INSERT_AFTER_rep SLIST_REMOVE_rep SLIST_INSERT_HEAD_rep SLIST_FOREACH_rep)

text \<open>The list 3, 4 at head 1.\<close>

definition two_list :: queue_mem where
  "two_list = \<lparr>q_first = (\<lambda>_. 0)(1 := 3), q_last = (\<lambda>_. First 0)(1 := Next 4), q_next = (\<lambda>_. 0)(3 := 4),
     q_prev = (\<lambda>_. First 0)(3 := First 1, 4 := Next 3)\<rparr>"

lemma two_list_rep: "dlist 1 two_list [3, 4]" "slist 1 two_list [3, 4]" "tailq 1 two_list [3, 4]"
  by (auto simp: dlist_def slist_def tailq_defs two_list_def)

lemma lists_edits_witness: "\<exists>m'. LIST_REMOVE 4 two_list = Some m' \<and> dlist 1 m' [3]"
  using lists_edits [of 5 "[3]" 4 "[]" 1 two_list] two_list_rep by simp

text \<open>\<open>TAILQ_CONCAT\<close> of two disjoint tail queues leaves the first holding the elements of both in
  order, readable forwards and backwards, and the second empty; \<open>TAILQ_LAST\<close> is the last element, and
  \<open>TAILQ_PREV\<close> of every element the one before it, by the cast of a next field to a head.\<close>

theorem TAILQ_CONCAT_appends:
  assumes "tailq h m xs" "tailq g m ys" "h \<noteq> g" "set xs \<inter> set ys = {}"
  shows "\<exists>m'. TAILQ_CONCAT h g m = Some m' \<and> TAILQ_FOREACH h m' = Some (xs @ ys) \<and>
    TAILQ_FOREACH_REVERSE h m' = Some (rev (xs @ ys)) \<and> TAILQ_EMPTY g m' \<and>
    (xs @ ys \<noteq> [] \<longrightarrow> TAILQ_LAST h m' = Some (last (xs @ ys))) \<and>
    (\<forall>i < length (xs @ ys). TAILQ_PREV ((xs @ ys) ! i) m' = Some (if i = 0 then 0 else (xs @ ys) ! (i - 1)))"
proof -
  obtain m' where m': "TAILQ_CONCAT h g m = Some m'" "tailq h m' (xs @ ys)" "tailq g m' []"
    using TAILQ_CONCAT_rep [OF assms] by blast
  have "TAILQ_PREV (zs ! i) m' = Some (if i = 0 then 0 else zs ! (i - 1))"
    if "tailq h m' zs" "i < length zs" for zs i
  proof -
    have "zs = take i zs @ zs ! i # drop (Suc i) zs" using that(2) by (rule id_take_nth_drop)
    then have "TAILQ_PREV (zs ! i) m' = Some (if take i zs = [] then 0 else last (take i zs))"
      using TAILQ_PREV_rep [of h m' "take i zs" "zs ! i" "drop (Suc i) zs"] that(1) by simp
    then show ?thesis using that(2) by (cases i) (auto simp: take_Suc_conv_app_nth)
  qed
  then show ?thesis
    using m' TAILQ_FOREACH_rep [OF m'(2)] TAILQ_FOREACH_REVERSE_rep [OF m'(2)] TAILQ_EMPTY_rep [OF m'(3)]
      TAILQ_LAST_rep [OF m'(2)] by auto
qed

lemma TAILQ_CONCAT_appends_witness: "\<exists>m'. TAILQ_CONCAT 1 2 (TAILQ_INIT 2 two_list) = Some m' \<and>
    TAILQ_FOREACH 1 m' = Some [3, 4]"
  using TAILQ_CONCAT_appends [of 1 "TAILQ_INIT 2 two_list" "[3, 4]" 2 "[]"] two_list_rep(3)
  by (auto simp: tailq_defs TAILQ_INIT_def mem_defs)

end
