(* ===== verification/Ordered_Map.thy ===== *)
theory Ordered_Map
  imports Prelude
begin

text \<open>
  What a search tree promises its client: an ordered map from keys to values.  The locale holds the
  laws of the three operations; its client lemma is that any sequence of them, with nodes the
  structure does not hold, returns and answers as the sorted list of pairs does.
\<close>

fun kv_put :: "int \<Rightarrow> 'v \<Rightarrow> (int \<times> 'v) list \<Rightarrow> (int \<times> 'v) list" where
  "kv_put k v [] = [(k, v)]"
| "kv_put k v ((i, u) # xs) =
     (if k < i then (k, v) # (i, u) # xs else if k = i then (i, u) # xs else (i, u) # kv_put k v xs)"

definition kv_drop :: "int \<Rightarrow> (int \<times> 'v) list \<Rightarrow> (int \<times> 'v) list" where
  "kv_drop k = filter (\<lambda>(i, u). i \<noteq> k)"

abbreviation kv_sorted :: "(int \<times> 'v) list \<Rightarrow> bool" where
  "kv_sorted \<equiv> sorted_wrt (\<lambda>p q. fst p < fst q)"

lemma set_kv_put: "set (kv_put k v xs) = (if k \<in> fst ` set xs then set xs else insert (k, v) (set xs))" if "kv_sorted xs"
  using that by (induction k v xs rule: kv_put.induct) (auto split: if_splits)

lemma kv_put_sorted: "kv_sorted xs \<Longrightarrow> kv_sorted (kv_put k v xs)"
  by (induction k v xs rule: kv_put.induct) (auto simp: set_kv_put)

lemma kv_drop_sorted: "kv_sorted xs \<Longrightarrow> kv_sorted (kv_drop k xs)"
  by (simp add: kv_drop_def sorted_wrt_filter)

lemma kv_sorted_unique: "kv_sorted xs \<Longrightarrow> kv_sorted ys \<Longrightarrow> set xs = set ys \<Longrightarrow> xs = ys"
proof (induction xs arbitrary: ys)
  case (Cons x xs)
  obtain y ys' where ys: "ys = y # ys'" using Cons.prems(3) by (cases ys) auto
  have "x = y"
  proof (rule ccontr)
    assume "x \<noteq> y"
    then have "x \<in> set ys'" "y \<in> set xs" using Cons.prems(3) ys by auto
    then have "fst y < fst x" "fst x < fst y" using Cons.prems(1,2) ys by auto
    then show False by simp
  qed
  moreover have "x \<notin> set xs" "y \<notin> set ys'" using Cons.prems(1,2) ys by auto
  ultimately have "set xs = set ys'" using Cons.prems(3) ys by (metis insert_ident list.simps(15))
  then show ?case using Cons.IH [of ys'] Cons.prems(1,2) ys \<open>x = y\<close> by simp
qed simp

lemma kv_get: "kv_sorted xs \<Longrightarrow> map_of xs k = Some v \<longleftrightarrow> (k, v) \<in> set xs"
  by (induction xs) (auto simp: fst_eq_Domain Domain.simps)

text \<open>What the client does, and what it is told.\<close>

datatype ('n, 'v) map_op = Put 'n int 'v | Drop int | Get int

fun kv_run :: "('n, 'v) map_op list \<Rightarrow> (int \<times> 'v) list \<Rightarrow> 'v option list \<times> (int \<times> 'v) list" where
  "kv_run [] xs = ([], xs)"
| "kv_run (Put n k v # ops) xs = kv_run ops (kv_put k v xs)"
| "kv_run (Drop k # ops) xs = kv_run ops (kv_drop k xs)"
| "kv_run (Get k # ops) xs = (let (as, ys) = kv_run ops xs in (map_of xs k # as, ys))"

fun map_run :: "('n \<Rightarrow> int \<Rightarrow> 'v \<Rightarrow> 's \<Rightarrow> 's option) \<Rightarrow> (int \<Rightarrow> 's \<Rightarrow> 's option) \<Rightarrow> (int \<Rightarrow> 's \<Rightarrow> 'v option option) \<Rightarrow>
    ('n, 'v) map_op list \<Rightarrow> 's \<Rightarrow> ('v option list \<times> 's) option" where
  "map_run put drp get [] s = Some ([], s)"
| "map_run put drp get (Put n k v # ops) s = do { s \<leftarrow> put n k v s; map_run put drp get ops s }"
| "map_run put drp get (Drop k # ops) s = do { s \<leftarrow> drp k s; map_run put drp get ops s }"
| "map_run put drp get (Get k # ops) s = do {
     a \<leftarrow> get k s;
     (as, s) \<leftarrow> map_run put drp get ops s;
     Some (a # as, s) }"

text \<open>The client only gives nodes that are not in use.\<close>

fun map_allowed :: "('n \<Rightarrow> 's \<Rightarrow> bool) \<Rightarrow> ('n \<Rightarrow> int \<Rightarrow> 'v \<Rightarrow> 's \<Rightarrow> 's option) \<Rightarrow> (int \<Rightarrow> 's \<Rightarrow> 's option) \<Rightarrow>
    ('n, 'v) map_op list \<Rightarrow> 's \<Rightarrow> bool" where
  "map_allowed unused put drp [] s \<longleftrightarrow> True"
| "map_allowed unused put drp (Put n k v # ops) s \<longleftrightarrow>
     unused n s \<and> (case put n k v s of None \<Rightarrow> True | Some s' \<Rightarrow> map_allowed unused put drp ops s')"
| "map_allowed unused put drp (Drop k # ops) s \<longleftrightarrow>
     (case drp k s of None \<Rightarrow> True | Some s' \<Rightarrow> map_allowed unused put drp ops s')"
| "map_allowed unused put drp (Get k # ops) s \<longleftrightarrow> map_allowed unused put drp ops s"

locale ordered_map =
  fixes rel :: "'s \<Rightarrow> (int \<times> 'v) list \<Rightarrow> bool" and unused :: "'n \<Rightarrow> 's \<Rightarrow> bool"
    and put :: "'n \<Rightarrow> int \<Rightarrow> 'v \<Rightarrow> 's \<Rightarrow> 's option"
    and get :: "int \<Rightarrow> 's \<Rightarrow> 'v option option"
  assumes rel_sorted: "rel s xs \<Longrightarrow> kv_sorted xs"
    and put_law: "rel s xs \<Longrightarrow> unused n s \<Longrightarrow> \<exists>s'. put n k v s = Some s' \<and> rel s' (kv_put k v xs)"
    and get_law: "rel s xs \<Longrightarrow> get k s = Some (map_of xs k)"
begin

lemma get_after_put:
  assumes "rel s xs" "unused n s" "map_of xs k = None"
  shows "\<exists>s'. put n k v s = Some s' \<and> get k s' = Some (Some v)"
proof -
  obtain s' where s': "put n k v s = Some s'" "rel s' (kv_put k v xs)" using put_law [OF assms(1,2)] by blast
  have "(k, v) \<in> set (kv_put k v xs)"
    using rel_sorted [OF assms(1)] assms(3) by (simp add: set_kv_put map_of_eq_None_iff)
  then have "map_of (kv_put k v xs) k = Some v" using kv_get [OF rel_sorted [OF s'(2)]] by simp
  then show ?thesis using s'(1) get_law [OF s'(2)] by simp
qed

end

locale deletable_map = ordered_map rel unused put get
  for rel :: "'s \<Rightarrow> (int \<times> 'v) list \<Rightarrow> bool" and unused :: "'n \<Rightarrow> 's \<Rightarrow> bool"
    and put :: "'n \<Rightarrow> int \<Rightarrow> 'v \<Rightarrow> 's \<Rightarrow> 's option" and get :: "int \<Rightarrow> 's \<Rightarrow> 'v option option" +
  fixes drp :: "int \<Rightarrow> 's \<Rightarrow> 's option"
  assumes drop_law: "rel s xs \<Longrightarrow> \<exists>s'. drp k s = Some s' \<and> rel s' (kv_drop k xs)"
begin

lemma run_simulates:
  "rel s xs \<Longrightarrow> map_allowed unused put drp ops s \<Longrightarrow>
   \<exists>s'. map_run put drp get ops s = Some (fst (kv_run ops xs), s') \<and> rel s' (snd (kv_run ops xs))"
proof (induction ops xs arbitrary: s rule: kv_run.induct)
  case (2 n k v ops xs)
  then obtain s1 where "put n k v s = Some s1" "rel s1 (kv_put k v xs)" using put_law by fastforce
  then show ?case using 2 by simp
next
  case (3 k ops xs)
  then obtain s1 where "drp k s = Some s1" "rel s1 (kv_drop k xs)" using drop_law by fastforce
  then show ?case using 3 by simp
next
  case (4 k ops xs)
  then obtain s' where "map_run put drp get ops s = Some (fst (kv_run ops xs), s')" "rel s' (snd (kv_run ops xs))"
    by fastforce
  then show ?case using get_law [OF "4.prems"(1)] by (auto simp: Let_def split_beta)
qed auto

end

end
