(* ===== verification/Rbtree.thy ===== *)
theory Rbtree
  imports Prelude
begin

text \<open>
  The red-black tree of \<open>rbtree/main.cpp\<close>, one definition per function.  Nodes are addresses; the fields
  of \<open>rbtree_node\<close> are stores, and so is the tree with its root and its sentinel \<open>nil\<close>, which is a node like
  any other: the code reads its colour and writes its parent.  Every address has fields, since the
  code keeps \<open>nil\<close> where others keep a null pointer.  A loop without end has the value \<open>None\<close>.
\<close>

definition RED :: u8 where "RED = 1"
definition BLACK :: u8 where "BLACK = 2"

record rbtree =
  t_root :: nat
  t_nil :: nat
  n_color :: "nat \<Rightarrow> u8"
  n_right :: "nat \<Rightarrow> nat"
  n_left :: "nat \<Rightarrow> nat"
  n_parent :: "nat \<Rightarrow> nat"
  n_key :: "nat \<Rightarrow> int"
  n_value :: "nat \<Rightarrow> nat"

definition set_root :: "nat \<Rightarrow> rbtree \<Rightarrow> rbtree" where
  "set_root v T = T\<lparr>t_root := v\<rparr>"

definition set_color :: "nat \<Rightarrow> u8 \<Rightarrow> rbtree \<Rightarrow> rbtree" where
  "set_color x v T = T\<lparr>n_color := (n_color T)(x := v)\<rparr>"

definition set_right :: "nat \<Rightarrow> nat \<Rightarrow> rbtree \<Rightarrow> rbtree" where
  "set_right x v T = T\<lparr>n_right := (n_right T)(x := v)\<rparr>"

definition set_left :: "nat \<Rightarrow> nat \<Rightarrow> rbtree \<Rightarrow> rbtree" where
  "set_left x v T = T\<lparr>n_left := (n_left T)(x := v)\<rparr>"

definition set_parent :: "nat \<Rightarrow> nat \<Rightarrow> rbtree \<Rightarrow> rbtree" where
  "set_parent x v T = T\<lparr>n_parent := (n_parent T)(x := v)\<rparr>"

definition set_key :: "nat \<Rightarrow> int \<Rightarrow> rbtree \<Rightarrow> rbtree" where
  "set_key x v T = T\<lparr>n_key := (n_key T)(x := v)\<rparr>"

definition set_value :: "nat \<Rightarrow> nat \<Rightarrow> rbtree \<Rightarrow> rbtree" where
  "set_value x v T = T\<lparr>n_value := (n_value T)(x := v)\<rparr>"

lemmas setters = set_root_def set_color_def set_right_def set_left_def set_parent_def set_key_def set_value_def

subsection \<open>Walking the tree\<close>

partial_function (option) rbtree_mini :: "rbtree \<Rightarrow> nat \<Rightarrow> nat option" where
  "rbtree_mini T x = (if n_left T x \<noteq> t_nil T then rbtree_mini T (n_left T x) else Some x)"

partial_function (option) rbtree_maxi :: "rbtree \<Rightarrow> nat \<Rightarrow> nat option" where
  "rbtree_maxi T x = (if n_right T x \<noteq> t_nil T then rbtree_maxi T (n_right T x) else Some x)"

partial_function (option) climb :: "rbtree \<Rightarrow> nat \<Rightarrow> nat \<Rightarrow> nat option" where
  "climb T x y = (if y \<noteq> t_nil T \<and> x = n_right T y then climb T y (n_parent T y) else Some y)"

definition rbtree_successor :: "rbtree \<Rightarrow> nat \<Rightarrow> nat option" where
  "rbtree_successor T x =
     (let y = n_parent T x
      in if n_right T x \<noteq> t_nil T then rbtree_mini T (n_right T x) else climb T x y)"

partial_function (option) search_loop :: "rbtree \<Rightarrow> int \<Rightarrow> nat \<Rightarrow> nat option" where
  "search_loop T key node =
     (if node \<noteq> t_nil T then
        (if key < n_key T node then search_loop T key (n_left T node)
         else if key > n_key T node then search_loop T key (n_right T node)
         else Some node)
      else Some (t_nil T))"

definition rbtree_search :: "rbtree \<Rightarrow> int \<Rightarrow> nat option" where
  "rbtree_search T key = search_loop T key (t_root T)"

text \<open>The lines printed: the keys and colours in order.\<close>

partial_function (option) rbtree_traversal :: "rbtree \<Rightarrow> nat \<Rightarrow> (int \<times> u8) list option" where
  "rbtree_traversal T node =
     (if node \<noteq> t_nil T then do {
        ls \<leftarrow> rbtree_traversal T (n_left T node);
        rs \<leftarrow> rbtree_traversal T (n_right T node);
        Some (ls @ [(n_key T node, n_color T node)] @ rs) }
      else Some [])"

subsection \<open>Rotations\<close>

definition rbtree_left_rotate :: "nat \<Rightarrow> rbtree \<Rightarrow> rbtree" where
  "rbtree_left_rotate x T =
     (let y = n_right T x;
          T = set_right x (n_left T y) T;
          T = (if n_left T y \<noteq> t_nil T then set_parent (n_left T y) x T else T);
          T = set_parent y (n_parent T x) T;
          T = (if n_parent T x = t_nil T then set_root y T
               else if x = n_left T (n_parent T x) then set_left (n_parent T x) y T
               else set_right (n_parent T x) y T);
          T = set_left y x T
      in set_parent x y T)"

definition rbtree_right_rotate :: "nat \<Rightarrow> rbtree \<Rightarrow> rbtree" where
  "rbtree_right_rotate y T =
     (let x = n_left T y;
          T = set_left y (n_right T x) T;
          T = (if n_right T x \<noteq> t_nil T then set_parent (n_right T x) y T else T);
          T = set_parent x (n_parent T y) T;
          T = (if n_parent T y = t_nil T then set_root x T
               else if y = n_right T (n_parent T y) then set_right (n_parent T y) x T
               else set_left (n_parent T y) x T);
          T = set_right x y T
      in set_parent y x T)"

subsection \<open>Insertion\<close>

partial_function (option) insert_fixup_loop :: "nat \<Rightarrow> rbtree \<Rightarrow> rbtree option" where
  "insert_fixup_loop z T =
     (if n_color T (n_parent T z) = RED then
        (if n_parent T z = n_left T (n_parent T (n_parent T z)) then
           let y = n_right T (n_parent T (n_parent T z))
           in if n_color T y = RED then
                let T = set_color (n_parent T z) BLACK T;
                    T = set_color y BLACK T;
                    T = set_color (n_parent T (n_parent T z)) RED T;
                    z = n_parent T (n_parent T z)
                in insert_fixup_loop z T
              else
                let (z, T) = (if z = n_right T (n_parent T z)
                              then let z = n_parent T z in (z, rbtree_left_rotate z T) else (z, T));
                    T = set_color (n_parent T z) BLACK T;
                    T = set_color (n_parent T (n_parent T z)) RED T;
                    T = rbtree_right_rotate (n_parent T (n_parent T z)) T
                in insert_fixup_loop z T
         else
           let y = n_left T (n_parent T (n_parent T z))
           in if n_color T y = RED then
                let T = set_color (n_parent T z) BLACK T;
                    T = set_color y BLACK T;
                    T = set_color (n_parent T (n_parent T z)) RED T;
                    z = n_parent T (n_parent T z)
                in insert_fixup_loop z T
              else
                let (z, T) = (if z = n_left T (n_parent T z)
                              then let z = n_parent T z in (z, rbtree_right_rotate z T) else (z, T));
                    T = set_color (n_parent T z) BLACK T;
                    T = set_color (n_parent T (n_parent T z)) RED T;
                    T = rbtree_left_rotate (n_parent T (n_parent T z)) T
                in insert_fixup_loop z T)
      else Some T)"

definition rbtree_insert_fixup :: "nat \<Rightarrow> rbtree \<Rightarrow> rbtree option" where
  "rbtree_insert_fixup z T = do {
     T \<leftarrow> insert_fixup_loop z T;
     Some (set_color (t_root T) BLACK T) }"

text \<open>The descent: the last node passed, or \<open>None\<close> inside when the key is there.\<close>

partial_function (option) insert_descent :: "rbtree \<Rightarrow> nat \<Rightarrow> nat \<Rightarrow> nat \<Rightarrow> nat option option" where
  "insert_descent T z y x =
     (if x \<noteq> t_nil T then
        let y = x
        in if n_key T z < n_key T x then insert_descent T z y (n_left T x)
           else if n_key T z > n_key T x then insert_descent T z y (n_right T x)
           else Some None
      else Some (Some y))"

definition rbtree_insert :: "nat \<Rightarrow> rbtree \<Rightarrow> rbtree option" where
  "rbtree_insert z T = do {
     found \<leftarrow> insert_descent T z (t_nil T) (t_root T);
     case found of
       None \<Rightarrow> Some T
     | Some y \<Rightarrow>
         let T = set_parent z y T;
             T = (if y = t_nil T then set_root z T
                  else if n_key T z < n_key T y then set_left y z T
                  else set_right y z T);
             T = set_left z (t_nil T) T;
             T = set_right z (t_nil T) T;
             T = set_color z RED T
         in rbtree_insert_fixup z T }"

subsection \<open>Deletion\<close>

text \<open>One round when \<open>x\<close> is a left child: a red sibling, a red child of it on the near side, on the far side.\<close>

definition delete_red_left :: "nat \<Rightarrow> nat \<Rightarrow> rbtree \<Rightarrow> nat \<times> rbtree" where
  "delete_red_left w x T =
     (if n_color T w = RED then
        let T = set_color w BLACK T;
            T = set_color (n_parent T x) RED T;
            T = rbtree_left_rotate (n_parent T x) T
        in (n_right T (n_parent T x), T)
      else (w, T))"

definition delete_near_left :: "nat \<Rightarrow> nat \<Rightarrow> rbtree \<Rightarrow> nat \<times> rbtree" where
  "delete_near_left w x T =
     (if n_color T (n_right T w) = BLACK then
        let T = set_color (n_left T w) BLACK T;
            T = set_color w RED T;
            T = rbtree_right_rotate w T
        in (n_right T (n_parent T x), T)
      else (w, T))"

definition delete_far_left :: "nat \<Rightarrow> nat \<Rightarrow> rbtree \<Rightarrow> nat \<times> rbtree" where
  "delete_far_left w x T =
     (let T = set_color w (n_color T (n_parent T x)) T;
          T = set_color (n_parent T x) BLACK T;
          T = set_color (n_right T w) BLACK T;
          T = rbtree_left_rotate (n_parent T x) T
      in (t_root T, T))"

definition delete_left :: "nat \<Rightarrow> rbtree \<Rightarrow> nat \<times> rbtree" where
  "delete_left x T =
     (let w = n_right T (n_parent T x);
          (w, T) = delete_red_left w x T
      in if n_color T (n_left T w) = BLACK \<and> n_color T (n_right T w) = BLACK then
           let T = set_color w RED T in (n_parent T x, T)
         else
           let (w, T) = delete_near_left w x T in delete_far_left w x T)"

text \<open>When \<open>x\<close> is a right child.\<close>

definition delete_red_right :: "nat \<Rightarrow> nat \<Rightarrow> rbtree \<Rightarrow> nat \<times> rbtree" where
  "delete_red_right w x T =
     (if n_color T w = RED then
        let T = set_color w BLACK T;
            T = set_color (n_parent T x) RED T;
            T = rbtree_right_rotate (n_parent T x) T
        in (n_left T (n_parent T x), T)
      else (w, T))"

definition delete_near_right :: "nat \<Rightarrow> nat \<Rightarrow> rbtree \<Rightarrow> nat \<times> rbtree" where
  "delete_near_right w x T =
     (if n_color T (n_left T w) = BLACK then
        let T = set_color (n_right T w) BLACK T;
            T = set_color w RED T;
            T = rbtree_left_rotate w T
        in (n_left T (n_parent T x), T)
      else (w, T))"

definition delete_far_right :: "nat \<Rightarrow> nat \<Rightarrow> rbtree \<Rightarrow> nat \<times> rbtree" where
  "delete_far_right w x T =
     (let T = set_color w (n_color T (n_parent T x)) T;
          T = set_color (n_parent T x) BLACK T;
          T = set_color (n_left T w) BLACK T;
          T = rbtree_right_rotate (n_parent T x) T
      in (t_root T, T))"

definition delete_right :: "nat \<Rightarrow> rbtree \<Rightarrow> nat \<times> rbtree" where
  "delete_right x T =
     (let w = n_left T (n_parent T x);
          (w, T) = delete_red_right w x T
      in if n_color T (n_left T w) = BLACK \<and> n_color T (n_right T w) = BLACK then
           let T = set_color w RED T in (n_parent T x, T)
         else
           let (w, T) = delete_near_right w x T in delete_far_right w x T)"

partial_function (option) delete_fixup_loop :: "nat \<Rightarrow> rbtree \<Rightarrow> (nat \<times> rbtree) option" where
  "delete_fixup_loop x T =
     (if x \<noteq> t_root T \<and> n_color T x = BLACK then
        let (x, T) = (if x = n_left T (n_parent T x) then delete_left x T else delete_right x T)
        in delete_fixup_loop x T
      else Some (x, T))"

definition rbtree_delete_fixup :: "nat \<Rightarrow> rbtree \<Rightarrow> rbtree option" where
  "rbtree_delete_fixup x T = do {
     (x, T) \<leftarrow> delete_fixup_loop x T;
     Some (set_color x BLACK T) }"

text \<open>The result is the node taken out of the tree, for the caller to free.\<close>

definition rbtree_delete :: "nat \<Rightarrow> rbtree \<Rightarrow> (nat \<times> rbtree) option" where
  "rbtree_delete z T = do {
     y \<leftarrow> (if n_left T z = t_nil T \<or> n_right T z = t_nil T then Some z else rbtree_successor T z);
     let x = (if n_left T y \<noteq> t_nil T then n_left T y
              else if n_right T y \<noteq> t_nil T then n_right T y else t_nil T);
     let T = set_parent x (n_parent T y) T;
     let T = (if n_parent T y = t_nil T then set_root x T
              else if y = n_left T (n_parent T y) then set_left (n_parent T y) x T
              else set_right (n_parent T y) x T);
     let T = (if y \<noteq> z then set_value z (n_value T y) (set_key z (n_key T y) T) else T);
     T \<leftarrow> (if n_color T y = BLACK then rbtree_delete_fixup x T else Some T);
     Some (y, T) }"

text \<open>The tree \<open>main\<close> makes: a black sentinel, whose other fields are what \<open>malloc\<close> left there.\<close>

definition rbtree_new :: "nat \<Rightarrow> rbtree \<Rightarrow> rbtree" where
  "rbtree_new nd T =
     (let T = T\<lparr>t_nil := nd\<rparr>; T = set_color nd BLACK T in set_root (t_nil T) T)"

declare rbtree_mini.simps [code] rbtree_maxi.simps [code] climb.simps [code] search_loop.simps [code]
  rbtree_traversal.simps [code] insert_fixup_loop.simps [code] insert_descent.simps [code]
  delete_fixup_loop.simps [code]

end
