(* ===== verification/Rbtree_Shape.thy ===== *)
theory Rbtree_Shape
  imports Rbtree "HOL-Library.Tree"
begin

text \<open>
  The shape of the pointer tree: which tree of addresses the fields make up, a position in it as the
  path of nodes above (a zipper), and the rotations as what they do to the two.
\<close>

subsection \<open>Trees of addresses\<close>

fun tree_at :: "rbtree \<Rightarrow> nat \<Rightarrow> nat \<Rightarrow> nat tree \<Rightarrow> bool" where
  "tree_at T q p Leaf \<longleftrightarrow> p = t_nil T"
| "tree_at T q p (Node l a r) \<longleftrightarrow> p = a \<and> a \<noteq> t_nil T \<and> n_parent T a = q \<and>
     tree_at T a (n_left T a) l \<and> tree_at T a (n_right T a) r"

definition rep :: "rbtree \<Rightarrow> nat tree \<Rightarrow> bool" where
  "rep T t \<longleftrightarrow> tree_at T (t_nil T) (t_root T) t \<and> distinct (inorder t)"

text \<open>What is above a position: the nodes to the root, each with the subtree on its other side.\<close>

datatype frame = Above_left nat "nat tree" | Above_right "nat tree" nat

fun plug :: "frame list \<Rightarrow> nat tree \<Rightarrow> nat tree" where
  "plug [] t = t"
| "plug (Above_left a r # C) t = plug C (Node t a r)"
| "plug (Above_right l a # C) t = plug C (Node l a t)"

fun top :: "rbtree \<Rightarrow> frame list \<Rightarrow> nat" where
  "top T [] = t_nil T"
| "top T (Above_left a r # C) = a"
| "top T (Above_right l a # C) = a"

fun ctx_at :: "rbtree \<Rightarrow> frame list \<Rightarrow> nat \<Rightarrow> bool" where
  "ctx_at T [] p \<longleftrightarrow> t_root T = p"
| "ctx_at T (Above_left a r # C) p \<longleftrightarrow> a \<noteq> t_nil T \<and> n_left T a = p \<and> n_parent T a = top T C \<and>
     tree_at T a (n_right T a) r \<and> ctx_at T C a"
| "ctx_at T (Above_right l a # C) p \<longleftrightarrow> a \<noteq> t_nil T \<and> n_right T a = p \<and> n_parent T a = top T C \<and>
     tree_at T a (n_left T a) l \<and> ctx_at T C a"

fun ctx_pre :: "frame list \<Rightarrow> nat list" where
  "ctx_pre [] = []"
| "ctx_pre (Above_left a r # C) = ctx_pre C"
| "ctx_pre (Above_right l a # C) = ctx_pre C @ inorder l @ [a]"

fun ctx_post :: "frame list \<Rightarrow> nat list" where
  "ctx_post [] = []"
| "ctx_post (Above_left a r # C) = a # inorder r @ ctx_post C"
| "ctx_post (Above_right l a # C) = ctx_post C"

definition ctx_nodes :: "frame list \<Rightarrow> nat set" where
  "ctx_nodes C = set (ctx_pre C) \<union> set (ctx_post C)"

lemma ctx_nodes_simps [simp]:
  "ctx_nodes [] = {}"
  "ctx_nodes (Above_left a r # C) = insert a (set_tree r \<union> ctx_nodes C)"
  "ctx_nodes (Above_right l a # C) = insert a (set_tree l \<union> ctx_nodes C)"
  by (auto simp: ctx_nodes_def)

lemma inorder_plug [simp]: "inorder (plug C t) = ctx_pre C @ inorder t @ ctx_post C"
  by (induction C t rule: plug.induct) auto

lemma tree_at_plug: "tree_at T (t_nil T) (t_root T) (plug C t) \<longleftrightarrow> (\<exists>p. ctx_at T C p \<and> tree_at T (top T C) p t)"
  by (induction C t rule: plug.induct) auto

lemma rep_plug:
  "rep T (plug C t) \<longleftrightarrow> (\<exists>p. ctx_at T C p \<and> tree_at T (top T C) p t) \<and>
     distinct (ctx_pre C @ inorder t @ ctx_post C)"
  by (simp add: rep_def tree_at_plug)

text \<open>No address occurs both in the tree and above it.\<close>

lemma rep_plug_disjoint: "rep T (plug C t) \<Longrightarrow> set_tree t \<inter> ctx_nodes C = {}"
  by (auto simp: rep_def ctx_nodes_def)

lemma rep_plug_distinct: "rep T (plug C t) \<Longrightarrow> distinct (inorder t)" "rep T (plug C t) \<Longrightarrow> distinct (ctx_pre C @ ctx_post C)"
  by (auto simp: rep_def)

lemma tree_at_nil: "tree_at T q p t \<Longrightarrow> t_nil T \<notin> set_tree t"
  by (induction t arbitrary: q p) auto

lemma ctx_at_nil: "ctx_at T C p \<Longrightarrow> t_nil T \<notin> ctx_nodes C"
  by (induction T C p rule: ctx_at.induct) (auto dest: tree_at_nil)

lemma tree_at_root: "tree_at T q p t \<Longrightarrow> t \<noteq> Leaf \<longleftrightarrow> p \<noteq> t_nil T" "tree_at T q p t \<Longrightarrow> t \<noteq> Leaf \<Longrightarrow> p \<in> set_tree t"
  by (cases t; auto)+

text \<open>Colours, keys and values do not matter for the shape; links matter at the nodes of the tree.\<close>

lemma setters_nil [simp]:
  "t_nil (set_root v T) = t_nil T" "t_nil (set_color x k T) = t_nil T" "t_nil (set_right x v T) = t_nil T"
  "t_nil (set_left x v T) = t_nil T" "t_nil (set_parent x v T) = t_nil T" "t_nil (set_key x i T) = t_nil T"
  "t_nil (set_value x v T) = t_nil T"
  by (simp_all add: setters)

lemma setters_root [simp]:
  "t_root (set_root v T) = v" "t_root (set_color x k T) = t_root T" "t_root (set_right x v T) = t_root T"
  "t_root (set_left x v T) = t_root T" "t_root (set_parent x v T) = t_root T" "t_root (set_key x i T) = t_root T"
  "t_root (set_value x v T) = t_root T"
  by (simp_all add: setters)

lemma setters_left [simp]:
  "n_left (set_root v T) = n_left T" "n_left (set_color x k T) = n_left T" "n_left (set_right x v T) = n_left T"
  "n_left (set_left x v T) = (n_left T)(x := v)" "n_left (set_parent x v T) = n_left T"
  "n_left (set_key x i T) = n_left T" "n_left (set_value x v T) = n_left T"
  by (simp_all add: setters)

lemma setters_right [simp]:
  "n_right (set_root v T) = n_right T" "n_right (set_color x k T) = n_right T"
  "n_right (set_right x v T) = (n_right T)(x := v)" "n_right (set_left x v T) = n_right T"
  "n_right (set_parent x v T) = n_right T" "n_right (set_key x i T) = n_right T" "n_right (set_value x v T) = n_right T"
  by (simp_all add: setters)

lemma setters_parent [simp]:
  "n_parent (set_root v T) = n_parent T" "n_parent (set_color x k T) = n_parent T"
  "n_parent (set_right x v T) = n_parent T" "n_parent (set_left x v T) = n_parent T"
  "n_parent (set_parent x v T) = (n_parent T)(x := v)" "n_parent (set_key x i T) = n_parent T"
  "n_parent (set_value x v T) = n_parent T"
  by (simp_all add: setters)

lemma setters_data [simp]:
  "n_color (set_root v T) = n_color T" "n_color (set_color x k T) = (n_color T)(x := k)"
  "n_color (set_right x v T) = n_color T" "n_color (set_left x v T) = n_color T"
  "n_color (set_parent x v T) = n_color T" "n_color (set_key x i T) = n_color T" "n_color (set_value x v T) = n_color T"
  "n_key (set_root v T) = n_key T" "n_key (set_color x k T) = n_key T" "n_key (set_right x v T) = n_key T"
  "n_key (set_left x v T) = n_key T" "n_key (set_parent x v T) = n_key T" "n_key (set_key x i T) = (n_key T)(x := i)"
  "n_key (set_value x v T) = n_key T"
  "n_value (set_root v T) = n_value T" "n_value (set_color x k T) = n_value T" "n_value (set_right x v T) = n_value T"
  "n_value (set_left x v T) = n_value T" "n_value (set_parent x v T) = n_value T" "n_value (set_key x i T) = n_value T"
  "n_value (set_value x v T) = (n_value T)(x := v)"
  by (simp_all add: setters)

lemma tree_at_cong:
  "t_nil T' = t_nil T \<Longrightarrow>
   (\<And>a. a \<in> set_tree t \<Longrightarrow> n_left T' a = n_left T a \<and> n_right T' a = n_right T a \<and> n_parent T' a = n_parent T a) \<Longrightarrow>
   tree_at T' q p t = tree_at T q p t"
  by (induction t arbitrary: q p) auto

lemma tree_at_set [simp]:
  "tree_at (set_root v T) q p t = tree_at T q p t" "tree_at (set_color x k T) q p t = tree_at T q p t"
  "tree_at (set_key x i T) q p t = tree_at T q p t" "tree_at (set_value x v T) q p t = tree_at T q p t"
  "x \<notin> set_tree t \<Longrightarrow> tree_at (set_right x v T) q p t = tree_at T q p t"
  "x \<notin> set_tree t \<Longrightarrow> tree_at (set_left x v T) q p t = tree_at T q p t"
  "x \<notin> set_tree t \<Longrightarrow> tree_at (set_parent x v T) q p t = tree_at T q p t"
  by (rule tree_at_cong; auto)+

lemma top_cong: "t_nil T' = t_nil T \<Longrightarrow> top T' C = top T C"
  by (cases "(T, C)" rule: top.cases) auto

lemma top_set [simp]:
  "top (set_root v T) C = top T C" "top (set_color x k T) C = top T C" "top (set_right x v T) C = top T C"
  "top (set_left x v T) C = top T C" "top (set_parent x v T) C = top T C" "top (set_key x i T) C = top T C"
  "top (set_value x v T) C = top T C"
  by (rule top_cong; simp)+

lemma ctx_at_set [simp]:
  "ctx_at (set_color x k T) C p = ctx_at T C p" "ctx_at (set_key x i T) C p = ctx_at T C p"
  "ctx_at (set_value x v T) C p = ctx_at T C p"
  "x \<notin> ctx_nodes C \<Longrightarrow> ctx_at (set_right x v T) C p = ctx_at T C p"
  "x \<notin> ctx_nodes C \<Longrightarrow> ctx_at (set_left x v T) C p = ctx_at T C p"
  "x \<notin> ctx_nodes C \<Longrightarrow> ctx_at (set_parent x v T) C p = ctx_at T C p"
  by (induction T C p rule: ctx_at.induct) auto

lemma rep_set [simp]:
  "rep (set_color x k T) t = rep T t" "rep (set_key x i T) t = rep T t" "rep (set_value x v T) t = rep T t"
  by (simp_all add: rep_def)

subsection \<open>Hanging a subtree in place of another\<close>

definition relink :: "nat \<Rightarrow> nat \<Rightarrow> rbtree \<Rightarrow> rbtree" where
  "relink x y T =
     (if n_parent T x = t_nil T then set_root y T
      else if x = n_left T (n_parent T x) then set_left (n_parent T x) y T
      else set_right (n_parent T x) y T)"

lemma relink_data [simp]:
  "t_nil (relink x y T) = t_nil T" "n_parent (relink x y T) = n_parent T" "n_color (relink x y T) = n_color T"
  "n_key (relink x y T) = n_key T" "n_value (relink x y T) = n_value T" "top (relink x y T) C = top T C"
  by (auto simp: relink_def)

lemma relink_tree: "n_parent T x \<notin> set_tree t \<Longrightarrow> tree_at (relink x y T) q p t = tree_at T q p t"
  by (auto simp: relink_def)

lemma relink_links:
  "a \<noteq> n_parent T x \<Longrightarrow> n_left (relink x y T) a = n_left T a"
  "a \<noteq> n_parent T x \<Longrightarrow> n_right (relink x y T) a = n_right T a"
  by (auto simp: relink_def)

lemma relink_ctx:
  assumes "ctx_at T C x" "n_parent T x = top T C" "x \<noteq> t_nil T" "x \<notin> ctx_nodes C" "distinct (ctx_pre C @ ctx_post C)"
  shows "ctx_at (relink x y T) C y"
proof (cases C)
  case Nil
  then show ?thesis using assms by (simp add: relink_def)
next
  case (Cons f C')
  have other: "a \<notin> ctx_nodes C'" "a \<notin> set_tree s"
    if "f = Above_left a s \<or> f = Above_right s a" for a s
    using that assms(5) Cons by (auto simp: ctx_nodes_def)
  show ?thesis
  proof (cases f)
    case (Above_left a s)
    then show ?thesis using assms Cons other [of a s] by (simp add: relink_def)
  next
    case (Above_right s a)
    have "x \<noteq> n_left T a"
      using assms(1,3,4) tree_at_root [of T a "n_left T a" s] Cons Above_right by (cases s) auto
    then show ?thesis using assms Cons Above_right other [of a s] by (simp add: relink_def)
  qed
qed

subsection \<open>Rotations\<close>

lemma left_rotate_relink:
  "rbtree_left_rotate x T =
     (let y = n_right T x;
          T = set_right x (n_left T y) T;
          T = (if n_left T y \<noteq> t_nil T then set_parent (n_left T y) x T else T);
          T = set_parent y (n_parent T x) T
      in set_parent x y (set_left y x (relink x y T)))"
  by (simp add: rbtree_left_rotate_def relink_def Let_def)

lemma left_rotate_data:
  "t_nil (rbtree_left_rotate x T) = t_nil T" "n_color (rbtree_left_rotate x T) = n_color T"
  "n_key (rbtree_left_rotate x T) = n_key T" "n_value (rbtree_left_rotate x T) = n_value T"
  by (auto simp: left_rotate_relink Let_def)

lemma left_rotate_rep:
  assumes "rep T (plug C (Node A x (Node B y D)))"
  shows "rep (rbtree_left_rotate x T) (plug C (Node (Node A x B) y D)) \<and>
    n_parent (rbtree_left_rotate x T) (t_nil T) = n_parent T (t_nil T)"
proof -
  have disj: "x \<notin> ctx_nodes C" "y \<notin> ctx_nodes C" "set_tree A \<inter> ctx_nodes C = {}" "set_tree B \<inter> ctx_nodes C = {}"
    "set_tree D \<inter> ctx_nodes C = {}"
    using rep_plug_disjoint [OF assms] by auto
  have dist: "distinct (ctx_pre C @ (inorder A @ x # inorder B @ y # inorder D) @ ctx_post C)"
    using assms by (simp add: rep_plug)
  then have dd: "distinct (ctx_pre C @ ctx_post C)" "x \<noteq> y" "x \<notin> set_tree A" "x \<notin> set_tree B" "x \<notin> set_tree D"
    "y \<notin> set_tree A" "y \<notin> set_tree B" "y \<notin> set_tree D" "set_tree A \<inter> set_tree B = {}" "set_tree A \<inter> set_tree D = {}"
    "set_tree B \<inter> set_tree D = {}" "distinct (inorder B)"
    by (auto simp del: distinct_append simp: distinct_append)
  have T: "ctx_at T C x" "n_parent T x = top T C" "n_right T x = y" "x \<noteq> t_nil T" "y \<noteq> t_nil T"
    "tree_at T x (n_left T x) A" "tree_at T y (n_left T y) B" "tree_at T y (n_right T y) D"
    using assms by (auto simp: rep_plug)
  have topnot: "top T C \<notin> insert x (insert y (set_tree A \<union> set_tree B \<union> set_tree D))"
  proof -
    have "top T C \<in> ctx_nodes C \<or> top T C = t_nil T" by (cases "(T, C)" rule: top.cases) auto
    then show ?thesis using disj T(4,5) T(6-8) [THEN tree_at_nil] by auto
  qed
  define b where "b = n_left T y"
  define T1 where "T1 = set_right x b T"
  define T2 where "T2 = (if b \<noteq> t_nil T then set_parent b x T1 else T1)"
  define T3 where "T3 = set_parent y (top T C) T2"
  have b: "b \<noteq> t_nil T \<longrightarrow> b \<in> set_tree B" using T(7) tree_at_root [of T y b B] by (auto simp: b_def)
  then have bC: "b \<noteq> t_nil T \<longrightarrow> b \<notin> ctx_nodes C \<and> b \<noteq> x \<and> b \<noteq> y \<and> b \<notin> set_tree A \<and> b \<notin> set_tree D"
    using dd disj by auto
  have nx: "n_parent T2 x = top T C" using bC dd T by (auto simp: T2_def T1_def)
  have "n_left T1 y = b" by (simp add: T1_def b_def)
  then have "T2 = (if n_left T1 y \<noteq> t_nil T1 then set_parent (n_left T1 y) x T1 else T1)"
    by (simp add: T2_def) (simp add: T1_def)
  then have run: "rbtree_left_rotate x T = set_parent x y (set_left y x (relink x y T3))"
    by (simp only: left_rotate_relink Let_def T(3) nx T3_def T1_def b_def flip: nx)
  have ctx3: "ctx_at T3 C x" "n_parent T3 x = top T3 C"
    using T disj bC dd nx by (auto simp: T3_def T2_def T1_def)
  have B2: "tree_at T2 x b B"
    using T(7) dd by (cases B) (auto simp: T2_def T1_def b_def)
  then have trees3: "tree_at T3 x (n_left T x) A" "tree_at T3 x b B" "tree_at T3 y (n_right T y) D"
    using T dd bC by (auto simp: T3_def T2_def T1_def)
  have "ctx_at (relink x y T3) C y"
    using ctx3 T dd disj by (intro relink_ctx) (auto simp: T3_def T2_def T1_def)
  moreover have "n_right (relink x y T3) x = b" "n_left (relink x y T3) x = n_left T x"
    "n_right (relink x y T3) y = n_right T y"
    using topnot ctx3(2) dd by (auto simp: relink_links T3_def T2_def T1_def)
  moreover have "n_parent T3 y = top T C" "n_parent T3 (t_nil T) = n_parent T (t_nil T)" "t_nil T3 = t_nil T"
    using T(4,5) by (auto simp: T3_def T2_def T1_def)
  moreover have "tree_at (relink x y T3) x (n_left T x) A" "tree_at (relink x y T3) x b B"
    "tree_at (relink x y T3) y (n_right T y) D"
    using trees3 topnot ctx3(2) by (simp_all add: relink_tree T3_def T2_def T1_def)
  moreover have "top T3 C = top T C" by (simp add: T3_def T2_def T1_def)
  ultimately show ?thesis
    using T(4,5) dd dist disj by (auto simp: run rep_plug)
qed

subsection \<open>The mirror image\<close>

definition swap_sides :: "rbtree \<Rightarrow> rbtree" where
  "swap_sides T = T\<lparr>n_left := n_right T, n_right := n_left T\<rparr>"

fun mirror_frame :: "frame \<Rightarrow> frame" where
  "mirror_frame (Above_left a r) = Above_right (mirror r) a"
| "mirror_frame (Above_right l a) = Above_left a (mirror l)"

abbreviation mirror_ctx :: "frame list \<Rightarrow> frame list" where
  "mirror_ctx \<equiv> map mirror_frame"

lemma swap_sides_sel [simp]:
  "t_root (swap_sides T) = t_root T" "t_nil (swap_sides T) = t_nil T" "n_color (swap_sides T) = n_color T"
  "n_left (swap_sides T) = n_right T" "n_right (swap_sides T) = n_left T" "n_parent (swap_sides T) = n_parent T"
  "n_key (swap_sides T) = n_key T" "n_value (swap_sides T) = n_value T"
  by (simp_all add: swap_sides_def)

lemma swap_sides_twice [simp]: "swap_sides (swap_sides T) = T"
  by (simp add: swap_sides_def)

lemma swap_sides_set [simp]:
  "swap_sides (set_root v T) = set_root v (swap_sides T)" "swap_sides (set_color x k T) = set_color x k (swap_sides T)"
  "swap_sides (set_left x v T) = set_right x v (swap_sides T)" "swap_sides (set_right x v T) = set_left x v (swap_sides T)"
  "swap_sides (set_parent x v T) = set_parent x v (swap_sides T)"
  by (simp_all add: swap_sides_def setters)

lemma mirror_plug: "mirror (plug C t) = plug (mirror_ctx C) (mirror t)"
  by (induction C t rule: plug.induct) auto

lemma mirror_frame_twice [simp]: "mirror_frame (mirror_frame f) = f"
  by (cases f) auto

lemma mirror_ctx_twice [simp]: "mirror_ctx (mirror_ctx C) = C"
  by (simp add: comp_def)

lemma tree_at_swap: "tree_at (swap_sides T) q p (mirror t) \<longleftrightarrow> tree_at T q p t"
  by (induction t arbitrary: q p) auto

lemma rep_swap: "rep (swap_sides T) (mirror t) \<longleftrightarrow> rep T t"
  by (simp add: rep_def tree_at_swap inorder_mirror)

lemma rep_swap_plug: "rep (swap_sides T) (plug (mirror_ctx C) (mirror t)) \<longleftrightarrow> rep T (plug C t)"
  by (simp add: rep_swap flip: mirror_plug)

lemma right_rotate_swap: "rbtree_right_rotate y T = swap_sides (rbtree_left_rotate y (swap_sides T))"
  by (simp add: rbtree_right_rotate_def rbtree_left_rotate_def Let_def)

lemma right_rotate_data:
  "t_nil (rbtree_right_rotate x T) = t_nil T" "n_color (rbtree_right_rotate x T) = n_color T"
  "n_key (rbtree_right_rotate x T) = n_key T" "n_value (rbtree_right_rotate x T) = n_value T"
  by (simp_all add: right_rotate_swap left_rotate_data)

lemmas rotate_data [simp] = left_rotate_data right_rotate_data

lemma right_rotate_rep:
  assumes "rep T (plug C (Node (Node A x B) y D))"
  shows "rep (rbtree_right_rotate y T) (plug C (Node A x (Node B y D))) \<and>
    n_parent (rbtree_right_rotate y T) (t_nil T) = n_parent T (t_nil T)"
proof -
  have "rep (swap_sides T) (plug (mirror_ctx C) (Node (mirror D) y (Node (mirror B) x (mirror A))))"
    using assms rep_swap_plug [of T C "Node (Node A x B) y D"] by simp
  from left_rotate_rep [OF this]
  have "rep (swap_sides (rbtree_right_rotate y T)) (plug (mirror_ctx C) (mirror (Node A x (Node B y D))))"
    "n_parent (rbtree_right_rotate y T) (t_nil T) = n_parent T (t_nil T)"
    by (simp_all add: right_rotate_swap)
  then show ?thesis by (simp only: rep_swap_plug)
qed

end
