(* ===== verification/Rbtree_Balance.thy ===== *)
theory Rbtree_Balance
  imports Rbtree_Shape
begin

text \<open>
  The red-black invariant over a tree of addresses and their colours: every path passes the same
  number of black nodes, and no red node has a red child; the same for the part above a position.
\<close>

subsection \<open>Black heights and red nodes\<close>

fun bal :: "(nat \<Rightarrow> u8) \<Rightarrow> nat tree \<Rightarrow> nat \<Rightarrow> bool" where
  "bal c Leaf n \<longleftrightarrow> n = 0"
| "bal c (Node l a r) n \<longleftrightarrow>
     c a = BLACK \<and> (\<exists>m. n = Suc m \<and> bal c l m \<and> bal c r m) \<or> c a = RED \<and> bal c l n \<and> bal c r n"

fun red_root :: "(nat \<Rightarrow> u8) \<Rightarrow> nat tree \<Rightarrow> bool" where
  "red_root c Leaf \<longleftrightarrow> False"
| "red_root c (Node l a r) \<longleftrightarrow> c a = RED"

fun norr :: "(nat \<Rightarrow> u8) \<Rightarrow> nat tree \<Rightarrow> bool" where
  "norr c Leaf \<longleftrightarrow> True"
| "norr c (Node l a r) \<longleftrightarrow> norr c l \<and> norr c r \<and> (c a = RED \<longrightarrow> \<not> red_root c l \<and> \<not> red_root c r)"

fun cbal :: "(nat \<Rightarrow> u8) \<Rightarrow> frame list \<Rightarrow> nat \<Rightarrow> nat \<Rightarrow> bool" where
  "cbal c [] n m \<longleftrightarrow> n = m"
| "cbal c (Above_left a r # C) n m \<longleftrightarrow>
     bal c r n \<and> (c a = BLACK \<and> cbal c C (Suc n) m \<or> c a = RED \<and> cbal c C n m)"
| "cbal c (Above_right l a # C) n m \<longleftrightarrow>
     bal c l n \<and> (c a = BLACK \<and> cbal c C (Suc n) m \<or> c a = RED \<and> cbal c C n m)"

fun red_top :: "(nat \<Rightarrow> u8) \<Rightarrow> frame list \<Rightarrow> bool" where
  "red_top c [] \<longleftrightarrow> False"
| "red_top c (Above_left a r # C) \<longleftrightarrow> c a = RED"
| "red_top c (Above_right l a # C) \<longleftrightarrow> c a = RED"

fun cnorr :: "(nat \<Rightarrow> u8) \<Rightarrow> frame list \<Rightarrow> bool" where
  "cnorr c [] \<longleftrightarrow> True"
| "cnorr c (Above_left a r # C) \<longleftrightarrow> norr c r \<and> cnorr c C \<and> (c a = RED \<longrightarrow> \<not> red_root c r \<and> \<not> red_top c C)"
| "cnorr c (Above_right l a # C) \<longleftrightarrow> norr c l \<and> cnorr c C \<and> (c a = RED \<longrightarrow> \<not> red_root c l \<and> \<not> red_top c C)"

text \<open>Whether the node at the end of the path, the root, is red.\<close>

fun red_end :: "(nat \<Rightarrow> u8) \<Rightarrow> frame list \<Rightarrow> bool" where
  "red_end c [] \<longleftrightarrow> False"
| "red_end c [f] \<longleftrightarrow> red_top c [f]"
| "red_end c (f # g # C) \<longleftrightarrow> red_end c (g # C)"

lemma colors_differ [simp]: "RED \<noteq> BLACK" "BLACK \<noteq> RED"
  by (simp_all add: RED_def BLACK_def)

lemma bal_plug: "bal c (plug C t) m \<longleftrightarrow> (\<exists>n. bal c t n \<and> cbal c C n m)"
  by (induction C t rule: plug.induct) auto

lemma norr_plug: "norr c (plug C t) \<longleftrightarrow> norr c t \<and> cnorr c C \<and> \<not> (red_top c C \<and> red_root c t)"
  by (induction C t rule: plug.induct) auto

lemma red_root_plug: "red_root c (plug C t) \<longleftrightarrow> (if C = [] then red_root c t else red_end c C)"
proof (induction C t rule: plug.induct)
  case (2 a r C t)
  then show ?case by (cases C) auto
next
  case (3 l a C t)
  then show ?case by (cases C) auto
qed simp

lemma bal_update [simp]: "x \<notin> set_tree t \<Longrightarrow> bal (c(x := k)) t n = bal c t n"
  by (induction t arbitrary: n) auto

lemma red_root_update [simp]: "x \<notin> set_tree t \<Longrightarrow> red_root (c(x := k)) t = red_root c t"
  by (cases t) auto

lemma norr_update [simp]: "x \<notin> set_tree t \<Longrightarrow> norr (c(x := k)) t = norr c t"
  by (induction t) auto

lemma cbal_update [simp]: "x \<notin> ctx_nodes C \<Longrightarrow> cbal (c(x := k)) C n m = cbal c C n m"
  by (induction c C n m rule: cbal.induct) auto

lemma red_top_update [simp]: "x \<notin> ctx_nodes C \<Longrightarrow> red_top (c(x := k)) C = red_top c C"
  by (cases "(c, C)" rule: red_top.cases) auto

lemma cnorr_update [simp]: "x \<notin> ctx_nodes C \<Longrightarrow> cnorr (c(x := k)) C = cnorr c C"
  by (induction c C rule: cnorr.induct) auto

lemma red_end_update [simp]: "x \<notin> ctx_nodes C \<Longrightarrow> red_end (c(x := k)) C = red_end c C"
proof (induction c C rule: red_end.induct)
  case (2 c f)
  then show ?case by (cases f) auto
next
  case (3 c f g C)
  then show ?case by (cases f) auto
qed simp

lemma bal_color: "bal c (Node l a r) n \<Longrightarrow> c a = RED \<or> c a = BLACK" by auto

text \<open>Mirror images.\<close>

lemma bal_mirror [simp]: "bal c (mirror t) n = bal c t n"
  by (induction t arbitrary: n) auto

lemma red_root_mirror [simp]: "red_root c (mirror t) = red_root c t"
  by (cases t) auto

lemma norr_mirror [simp]: "norr c (mirror t) = norr c t"
  by (induction t) auto

lemma cbal_mirror [simp]: "cbal c (mirror_ctx C) n m = cbal c C n m"
  by (induction c C n m rule: cbal.induct) auto

lemma red_top_mirror [simp]: "red_top c (mirror_ctx C) = red_top c C"
  by (cases "(c, C)" rule: red_top.cases) auto

lemma cnorr_mirror [simp]: "cnorr c (mirror_ctx C) = cnorr c C"
  by (induction c C rule: cnorr.induct) auto

lemma red_end_mirror [simp]: "red_end c (mirror_ctx C) = red_end c C"
proof (induction c C rule: red_end.induct)
  case (2 c f)
  then show ?case by (cases f) auto
qed simp_all

text \<open>The colour the code reads at the root of a subtree.\<close>

lemma color_at_root:
  assumes "tree_at T q p t" "n_color T (t_nil T) = BLACK"
  shows "n_color T p = RED \<longleftrightarrow> red_root (n_color T) t"
  using assms by (cases t) auto

lemma black_at_root:
  assumes "tree_at T q p t" "n_color T (t_nil T) = BLACK" "bal (n_color T) t n"
  shows "n_color T p = BLACK \<longleftrightarrow> \<not> red_root (n_color T) t"
  using assms by (cases t) auto

subsection \<open>The invariant of the structure\<close>

definition rb_inv :: "rbtree \<Rightarrow> nat tree \<Rightarrow> bool" where
  "rb_inv T t \<longleftrightarrow> rep T t \<and> n_color T (t_nil T) = BLACK \<and> \<not> red_root (n_color T) t \<and> norr (n_color T) t \<and>
     (\<exists>m. bal (n_color T) t m)"

text \<open>The keys in order.\<close>

definition keys_sorted :: "rbtree \<Rightarrow> nat tree \<Rightarrow> bool" where
  "keys_sorted T t \<longleftrightarrow> sorted_wrt (<) (map (n_key T) (inorder t))"

text \<open>A red-black tree is at most twice as deep as its black height, so depth is logarithmic.\<close>

lemma bal_height: "bal c t n \<Longrightarrow> norr c t \<Longrightarrow> height t \<le> 2 * n + (if red_root c t then 1 else 0)"
proof (induction t arbitrary: n)
  case (Node l a r)
  show ?case
  proof (cases "c a = RED")
    case True
    then have "bal c l n" "bal c r n" "\<not> red_root c l" "\<not> red_root c r" using Node.prems by auto
    then show ?thesis using Node.IH [of n] Node.prems True by auto
  next
    case False
    then obtain m where m: "n = Suc m" "bal c l m" "bal c r m" using Node.prems by auto
    have "height l \<le> 2 * m + 1" "height r \<le> 2 * m + 1"
      using Node.IH [of m] m Node.prems by (auto split: if_splits)
    then show ?thesis using m(1) by auto
  qed
qed simp

lemma bal_size: "bal c t n \<Longrightarrow> 2 ^ n \<le> size1 t"
proof (induction t arbitrary: n)
  case (Node l a r)
  then consider m where "n = Suc m" "2 ^ m \<le> size1 l" "2 ^ m \<le> size1 r" | "2 ^ n \<le> size1 l" by auto
  then show ?case by cases auto
qed simp

end
