(* ===== verification/Rbtree_Walk.thy ===== *)
theory Rbtree_Walk
  imports Rbtree_Balance
begin

text \<open>
  Walking the red-black tree: the minimum, the successor, the search and the traversal in terms of
  the nodes in order, and the descent of the insertion as the position it ends at.
\<close>

lemma plug_append [simp]: "plug (C @ D) t = plug D (plug C t)"
  by (induction C t rule: plug.induct) auto

lemma ctx_append [simp]: "ctx_pre (C @ D) = ctx_pre D @ ctx_pre C" "ctx_post (C @ D) = ctx_post C @ ctx_post D"
  by (induction C rule: ctx_pre.induct) auto

lemma leftmost:
  "tree_at T q x t \<Longrightarrow> t \<noteq> Leaf \<Longrightarrow>
   \<exists>C y r. rbtree_mini T x = Some y \<and> t = plug C (Node Leaf y r) \<and> ctx_pre C = []"
proof (induction t arbitrary: q x)
  case (Node l a r)
  show ?case
  proof (cases "l = Leaf")
    case True
    then show ?thesis using Node.prems by (intro exI [of _ "[]"]) (auto simp: rbtree_mini.simps)
  next
    case False
    have at: "tree_at T x (n_left T x) l" "x = a" using Node.prems by auto
    with Node.IH(1) [OF this(1) False] obtain C y s where l: "rbtree_mini T (n_left T x) = Some y"
      "l = plug C (Node Leaf y s)" "ctx_pre C = []" by blast
    have "n_left T x \<noteq> t_nil T" using tree_at_root(1) [OF at(1)] False by simp
    then have "rbtree_mini T x = Some y" using l(1) by (simp add: rbtree_mini.simps [of T x])
    moreover have "Node l a r = plug (C @ [Above_left a r]) (Node Leaf y s)"
      by (simp add: l(2))
    moreover have "ctx_pre (C @ [Above_left a r]) = []" using l(3) by simp
    ultimately show ?thesis by blast
  qed
qed simp

lemma rightmost:
  "tree_at T q x t \<Longrightarrow> t \<noteq> Leaf \<Longrightarrow> rbtree_maxi T x = Some (last (inorder t))"
proof (induction t arbitrary: q x)
  case (Node l a r)
  show ?case
  proof (cases "r = Leaf")
    case True
    then show ?thesis using Node.prems by (auto simp: rbtree_maxi.simps)
  next
    case False
    have at: "tree_at T x (n_right T x) r" "x = a" using Node.prems by auto
    have "n_right T x \<noteq> t_nil T" using tree_at_root(1) [OF at(1)] False by simp
    then show ?thesis using Node.IH(2) [OF at(1) False] False by (auto simp: rbtree_maxi.simps [of T x])
  qed
qed simp

text \<open>The node after a position, or the sentinel.\<close>

lemma climb_next:
  "ctx_at T C x \<Longrightarrow> x \<noteq> t_nil T \<Longrightarrow> x \<notin> ctx_nodes C \<Longrightarrow> distinct (ctx_pre C @ ctx_post C) \<Longrightarrow>
   climb T x (top T C) = Some (hd (ctx_post C @ [t_nil T]))"
proof (induction C arbitrary: x)
  case Nil
  then show ?case by (simp add: climb.simps)
next
  case (Cons f C)
  show ?case
  proof (cases f)
    case (Above_left a r)
    then have "x \<noteq> n_right T a" using Cons.prems by (cases r) auto
    then show ?thesis using Above_left by (simp add: climb.simps)
  next
    case (Above_right l a)
    then have "climb T a (top T C) = Some (hd (ctx_post C @ [t_nil T]))"
      using Cons.prems by (intro Cons.IH) (auto simp: ctx_nodes_def)
    then show ?thesis using Cons.prems Above_right by (simp add: climb.simps [of T x a])
  qed
qed

lemma successor_next:
  assumes "rep T (plug C (Node l x r))"
  shows "rbtree_successor T x = Some (hd (inorder r @ ctx_post C @ [t_nil T]))"
proof -
  have at: "ctx_at T C x" "n_parent T x = top T C" "x \<noteq> t_nil T" "tree_at T x (n_right T x) r"
    using assms by (auto simp: rep_plug)
  show ?thesis
  proof (cases "r = Leaf")
    case True
    then show ?thesis
      using at climb_next [OF at(1,3)] rep_plug_disjoint [OF assms] rep_plug_distinct(2) [OF assms]
      by (simp add: rbtree_successor_def)
  next
    case False
    from leftmost [OF at(4) this] obtain D y s where "rbtree_mini T (n_right T x) = Some y"
      "r = plug D (Node Leaf y s)" "ctx_pre D = []" by blast
    then show ?thesis using tree_at_root(1) [OF at(4)] False by (simp add: rbtree_successor_def)
  qed
qed

lemma traversal_inorder:
  "tree_at T q x t \<Longrightarrow> rbtree_traversal T x = Some (map (\<lambda>a. (n_key T a, n_color T a)) (inorder t))"
proof (induction t arbitrary: q x)
  case (Node l a r)
  then have "rbtree_traversal T (n_left T a) = Some (map (\<lambda>a. (n_key T a, n_color T a)) (inorder l))"
    "rbtree_traversal T (n_right T a) = Some (map (\<lambda>a. (n_key T a, n_color T a)) (inorder r))" "x = a" "a \<noteq> t_nil T"
    by auto
  then show ?case by (simp add: rbtree_traversal.simps [of T a])
qed (simp add: rbtree_traversal.simps)

subsection \<open>Searching\<close>

definition finds :: "rbtree \<Rightarrow> nat tree \<Rightarrow> int \<Rightarrow> nat \<Rightarrow> bool" where
  "finds T t k a \<longleftrightarrow> (a \<in> set_tree t \<and> n_key T a = k) \<or> (a = t_nil T \<and> k \<notin> n_key T ` set_tree t)"

lemma keys_sorted_Node:
  "keys_sorted T (Node l a r) \<longleftrightarrow> keys_sorted T l \<and> keys_sorted T r \<and>
     (\<forall>b\<in>set_tree l. n_key T b < n_key T a) \<and> (\<forall>b\<in>set_tree r. n_key T a < n_key T b)"
  by (auto simp: keys_sorted_def sorted_wrt_append) (meson order_less_trans)

lemma search_finds:
  "tree_at T q x t \<Longrightarrow> keys_sorted T t \<Longrightarrow> \<exists>a. search_loop T k x = Some a \<and> finds T t k a"
proof (induction t arbitrary: q x)
  case (Node l a r)
  have at: "x = a" "a \<noteq> t_nil T" "tree_at T a (n_left T a) l" "tree_at T a (n_right T a) r" using Node.prems by auto
  have s: "keys_sorted T l" "keys_sorted T r" "\<forall>b\<in>set_tree l. n_key T b < n_key T a" "\<forall>b\<in>set_tree r. n_key T a < n_key T b"
    using Node.prems by (auto simp: keys_sorted_Node)
  consider "k < n_key T a" | "k > n_key T a" | "k = n_key T a" by linarith
  then show ?case
  proof cases
    case 1
    obtain b where "search_loop T k (n_left T a) = Some b" "finds T l k b" using Node.IH(1) [OF at(3) s(1)] by blast
    then show ?thesis using 1 at s by (auto simp: search_loop.simps [of T k a] finds_def)
  next
    case 2
    obtain b where "search_loop T k (n_right T a) = Some b" "finds T r k b" using Node.IH(2) [OF at(4) s(2)] by blast
    then show ?thesis using 2 at s by (auto simp: search_loop.simps [of T k a] finds_def)
  next
    case 3
    then have "search_loop T k a = Some a" using at by (subst search_loop.simps) simp
    then show ?thesis using 3 at by (auto simp: finds_def)
  qed
qed (simp add: search_loop.simps finds_def)

text \<open>Keys are distinct, so the answer is determined.\<close>

lemma finds_unique:
  assumes "keys_sorted T t" "a \<in> set_tree t" "finds T t (n_key T a) b"
  shows "b = a"
proof -
  have "distinct (map (n_key T) (inorder t))" using assms(1) by (simp add: keys_sorted_def strict_sorted_iff)
  then have "inj_on (n_key T) (set_tree t)" by (simp add: distinct_map)
  then show ?thesis using assms by (auto simp: finds_def dest: inj_onD)
qed

text \<open>The descent of the insertion.\<close>

definition between :: "rbtree \<Rightarrow> frame list \<Rightarrow> int \<Rightarrow> bool" where
  "between T C k \<longleftrightarrow> (\<forall>a\<in>set (ctx_pre C). n_key T a < k) \<and> (\<forall>a\<in>set (ctx_post C). k < n_key T a)"

lemma descent_ends:
  "tree_at T (top T C) x t \<Longrightarrow> keys_sorted T t \<Longrightarrow> between T C (n_key T z) \<Longrightarrow>
   (if n_key T z \<in> n_key T ` set_tree t then insert_descent T z (top T C) x = Some None
    else \<exists>C'. insert_descent T z (top T C) x = Some (Some (top T C')) \<and> plug C' Leaf = plug C t \<and> between T C' (n_key T z))"
proof (induction t arbitrary: C x)
  case Leaf
  then show ?case by (auto simp: insert_descent.simps)
next
  case (Node l a r)
  let ?k = "n_key T z"
  have at: "x = a" "a \<noteq> t_nil T" "tree_at T a (n_left T a) l" "tree_at T a (n_right T a) r" using Node.prems by auto
  have s: "keys_sorted T l" "keys_sorted T r" "\<forall>b\<in>set_tree l. n_key T b < n_key T a" "\<forall>b\<in>set_tree r. n_key T a < n_key T b"
    using Node.prems by (auto simp: keys_sorted_Node)
  consider "?k < n_key T a" | "?k > n_key T a" | "?k = n_key T a" by linarith
  then show ?case
  proof cases
    case 1
    have "between T (Above_left a r # C) ?k" using 1 s Node.prems(3) by (auto simp: between_def)
    moreover have "insert_descent T z (top T C) x = insert_descent T z a (n_left T a)"
      using 1 at by (simp add: insert_descent.simps [of T z _ a])
    moreover have "?k \<in> n_key T ` set_tree (Node l a r) \<longleftrightarrow> ?k \<in> n_key T ` set_tree l" using 1 s by auto
    ultimately show ?thesis using Node.IH(1) [of "Above_left a r # C" "n_left T a"] s(1) at(3) by (simp split: if_splits)
  next
    case 2
    have "between T (Above_right l a # C) ?k" using 2 s Node.prems(3) by (auto simp: between_def)
    moreover have "insert_descent T z (top T C) x = insert_descent T z a (n_right T a)"
      using 2 at by (simp add: insert_descent.simps [of T z _ a])
    moreover have "?k \<in> n_key T ` set_tree (Node l a r) \<longleftrightarrow> ?k \<in> n_key T ` set_tree r" using 2 s by auto
    ultimately show ?thesis using Node.IH(2) [of "Above_right l a # C" "n_right T a"] s(2) at(4) by (simp split: if_splits)
  next
    case 3
    then show ?thesis using at by (auto simp: insert_descent.simps [of T z _ a])
  qed
qed

end
