(* ===== verification/Rbtree_Insert.thy ===== *)
theory Rbtree_Insert
  imports Rbtree_Walk
begin

text \<open>
  Searching the tree and inserting into it: the repair loop climbs towards the root and ends with a
  red-black tree of the same nodes in the same order.
\<close>

subsection \<open>One round of the repair\<close>

definition insert_step :: "nat \<Rightarrow> rbtree \<Rightarrow> nat \<times> rbtree" where
  "insert_step z T =
     (let p = n_parent T z; g = n_parent T p; y = n_right T g
      in if n_color T y = RED
         then (g, set_color g RED (set_color y BLACK (set_color p BLACK T)))
         else let (z, T) = (if z = n_right T p then (p, rbtree_left_rotate p T) else (z, T));
                  T = set_color (n_parent T z) BLACK T;
                  T = set_color (n_parent T (n_parent T z)) RED T
              in (z, rbtree_right_rotate (n_parent T (n_parent T z)) T))"

definition insert_step_mirror :: "nat \<Rightarrow> rbtree \<Rightarrow> nat \<times> rbtree" where
  "insert_step_mirror z T = (let (z, T) = insert_step z (swap_sides T) in (z, swap_sides T))"

lemma insert_fixup_loop_step:
  "insert_fixup_loop z T =
     (if n_color T (n_parent T z) = RED then
        let (z, T) = (if n_parent T z = n_left T (n_parent T (n_parent T z))
                      then insert_step z T else insert_step_mirror z T)
        in insert_fixup_loop z T
      else Some T)"
  by (subst insert_fixup_loop.simps)
    (simp add: insert_step_def insert_step_mirror_def Let_def right_rotate_swap)

text \<open>The state of the loop: \<open>z\<close> is red, and if its parent is red that is the only flaw.\<close>

definition ins_ok :: "rbtree \<Rightarrow> frame list \<Rightarrow> nat tree \<Rightarrow> nat \<Rightarrow> nat tree \<Rightarrow> nat \<Rightarrow> bool" where
  "ins_ok T C a z b m \<longleftrightarrow> rep T (plug C (Node a z b)) \<and> n_color T (t_nil T) = BLACK \<and> n_color T z = RED \<and>
     bal (n_color T) (plug C (Node a z b)) m \<and> norr (n_color T) (Node a z b) \<and> cnorr (n_color T) C \<and>
     \<not> red_end (n_color T) C"

text \<open>The state after the last round, but for the colour of the root.\<close>

definition ins_done :: "rbtree \<Rightarrow> nat tree \<Rightarrow> nat \<Rightarrow> bool" where
  "ins_done T t m \<longleftrightarrow> rep T t \<and> n_color T (t_nil T) = BLACK \<and> bal (n_color T) t m \<and> norr (n_color T) t"

definition same_data :: "rbtree \<Rightarrow> rbtree \<Rightarrow> bool" where
  "same_data T T' \<longleftrightarrow> t_nil T' = t_nil T \<and> n_key T' = n_key T \<and> n_value T' = n_value T"

lemma same_data_simps [simp]:
  "same_data T T" "same_data T (set_color x k T') = same_data T T'"
  "same_data T (rbtree_left_rotate x T') = same_data T T'" "same_data T (rbtree_right_rotate x T') = same_data T T'"
  "same_data T (swap_sides T') = same_data T T'" "same_data (swap_sides T) T' = same_data T T'"
  by (auto simp: same_data_def)

lemma same_data_trans: "same_data T T' \<Longrightarrow> same_data T' T'' \<Longrightarrow> same_data T T''"
  by (auto simp: same_data_def)

text \<open>The last rotation.\<close>

lemma insert_last:
  assumes rep: "rep T (plug C (Node (Node (Node A x B) q Y) g u))"
    and c: "n_color T x = RED" "n_color T q = RED" "n_color T g = BLACK" "n_color T (t_nil T) = BLACK"
    and n: "norr (n_color T) (Node A x B)" "norr (n_color T) Y" "\<not> red_root (n_color T) Y"
      "norr (n_color T) u" "\<not> red_root (n_color T) u" "cnorr (n_color T) C"
    and b: "bal (n_color T) (plug C (Node (Node (Node A x B) q Y) g u)) m"
  defines "T' \<equiv> rbtree_right_rotate g (set_color g RED (set_color q BLACK T))"
  shows "ins_done T' (plug C (Node (Node A x B) q (Node Y g u))) m \<and> n_color T' (n_parent T' x) \<noteq> RED"
proof -
  have "distinct (inorder (Node (Node (Node A x B) q Y) g u))" by (rule rep_plug_distinct(1) [OF rep])
  then have d: "x \<noteq> q" "x \<noteq> g" "q \<noteq> g" "q \<notin> set_tree A" "q \<notin> set_tree B" "q \<notin> set_tree Y" "q \<notin> set_tree u"
    "g \<notin> set_tree A" "g \<notin> set_tree B" "g \<notin> set_tree Y" "g \<notin> set_tree u" by auto
  have disj: "g \<notin> ctx_nodes C" "q \<notin> ctx_nodes C" using rep_plug_disjoint [OF rep] by auto
  have "rep (set_color g RED (set_color q BLACK T)) (plug C (Node (Node (Node A x B) q Y) g u))" using rep by simp
  from right_rotate_rep [OF this] have r: "rep T' (plug C (Node (Node A x B) q (Node Y g u)))"
    by (simp add: T'_def)
  have nil: "t_nil T \<noteq> g" "t_nil T \<noteq> q" using rep by (auto simp: rep_plug)
  have col: "n_color T' = (n_color T)(q := BLACK, g := RED)" "t_nil T' = t_nil T" by (simp_all add: T'_def)
  have par: "n_parent T' x = q" using r by (simp add: rep_plug)
  obtain k where k: "bal (n_color T) A k" "bal (n_color T) B k" "bal (n_color T) Y k" "bal (n_color T) u k"
    "cbal (n_color T) C (Suc k) m"
    using b c by (simp add: bal_plug) blast
  have "bal (n_color T') (plug C (Node (Node A x B) q (Node Y g u))) m"
    unfolding bal_plug by (rule exI [of _ "Suc k"]) (use k c d disj in \<open>simp add: col\<close>)
  moreover have "norr (n_color T') (plug C (Node (Node A x B) q (Node Y g u)))"
    using n c d disj by (simp add: norr_plug col)
  ultimately show ?thesis
    using r c nil par by (simp add: ins_done_def col d)
qed

text \<open>What a round leads to: the same flaw further up, or none.\<close>

definition ins_next :: "rbtree \<Rightarrow> frame list \<Rightarrow> nat tree \<Rightarrow> nat \<Rightarrow> nat \<times> rbtree \<Rightarrow> bool" where
  "ins_next T C t m = (\<lambda>(z', T'). same_data T T' \<and>
     ((\<exists>a' b'. ins_ok T' C a' z' b' m \<and> plug C (Node a' z' b') = t) \<or>
      (\<exists>t'. ins_done T' t' m \<and> inorder t' = inorder t \<and> n_color T' (n_parent T' z') \<noteq> RED)))"

lemma ins_nextI:
  "same_data T T' \<Longrightarrow> ins_ok T' C a' z' b' m \<Longrightarrow> plug C (Node a' z' b') = t \<Longrightarrow> ins_next T C t m (z', T')"
  "same_data T T' \<Longrightarrow> ins_done T' t' m \<Longrightarrow> inorder t' = inorder t \<Longrightarrow> n_color T' (n_parent T' z') \<noteq> RED \<Longrightarrow>
    ins_next T C t m (z', T')"
  by (auto simp: ins_next_def)

lemma insert_recolor:
  assumes rep: "rep T (plug C (Node P g (Node ul y ur)))" and P: "P = Node Z p s \<or> P = Node s p Z"
    and c: "n_color T (t_nil T) = BLACK" "n_color T g = BLACK" "n_color T p = RED" "n_color T y = RED"
    and n: "norr (n_color T) Z" "norr (n_color T) s" "norr (n_color T) (Node ul y ur)" "cnorr (n_color T) C"
      "\<not> red_end (n_color T) C"
    and b: "bal (n_color T) (plug C (Node P g (Node ul y ur))) m"
  shows "ins_ok (set_color g RED (set_color y BLACK (set_color p BLACK T))) C P g (Node ul y ur) m"
proof -
  have d: "g \<noteq> p" "g \<noteq> y" "p \<noteq> y" "g \<notin> set_tree Z" "g \<notin> set_tree s" "g \<notin> set_tree ul" "g \<notin> set_tree ur"
    "p \<notin> set_tree Z" "p \<notin> set_tree s" "p \<notin> set_tree ul" "p \<notin> set_tree ur"
    "y \<notin> set_tree Z" "y \<notin> set_tree s" "y \<notin> set_tree ul" "y \<notin> set_tree ur"
    using rep_plug_distinct(1) [OF rep] P by auto
  have disj: "g \<notin> ctx_nodes C" "p \<notin> ctx_nodes C" "y \<notin> ctx_nodes C" using rep_plug_disjoint [OF rep] P by auto
  have nil: "t_nil T \<noteq> g" "t_nil T \<noteq> p" "t_nil T \<noteq> y" using rep P by (auto simp: rep_plug)
  obtain k where k: "bal (n_color T) Z k" "bal (n_color T) s k" "bal (n_color T) ul k" "bal (n_color T) ur k"
    "cbal (n_color T) C (Suc k) m"
    using b c P by (auto simp: bal_plug)
  let ?c = "(n_color T)(p := BLACK, y := BLACK, g := RED)"
  have "bal ?c (plug C (Node P g (Node ul y ur))) m"
    unfolding bal_plug by (rule exI [of _ "Suc k"]) (use k P d disj in auto)
  moreover have "norr ?c (Node P g (Node ul y ur))" using n P d by auto
  ultimately show ?thesis using rep n c d disj nil by (simp add: ins_ok_def)
qed

lemma insert_step_ok:
  assumes ok: "ins_ok T (f # Above_left g u # C) a z b m" and red: "n_color T (n_parent T z) = RED"
  shows "ins_next T C (plug (f # Above_left g u # C) (Node a z b)) m (insert_step z T)"
proof -
  let ?c = "n_color T"
  have rep: "rep T (plug (f # Above_left g u # C) (Node a z b))" and nilc: "?c (t_nil T) = BLACK" and z: "?c z = RED"
    and b: "bal ?c (plug (f # Above_left g u # C) (Node a z b)) m" and n: "norr ?c (Node a z b)"
    and cn: "cnorr ?c (f # Above_left g u # C)" and re: "\<not> red_end ?c (f # Above_left g u # C)"
    using ok by (simp_all add: ins_ok_def)
  obtain p s where f: "f = Above_left p s \<or> f = Above_right s p" by (cases f) auto
  have par: "n_parent T z = p" "n_parent T p = g" and u: "tree_at T g (n_right T g) u"
    using rep f by (auto simp: rep_plug)
  have cp: "?c p = RED" using red par by simp
  have cg: "?c g = BLACK" using b cn f cp by (auto simp: bal_plug)
  have ns: "norr ?c s" "\<not> red_root ?c s" "norr ?c u" "cnorr ?c C" using cn cp f by auto
  have re': "\<not> red_end ?c C" using re by (cases C) auto
  define P where "P = (if f = Above_left p s then Node (Node a z b) p s else Node s p (Node a z b))"
  have P: "plug (f # Above_left g u # C) (Node a z b) = plug C (Node P g u)"
    "P = Node (Node a z b) p s \<or> P = Node s p (Node a z b)" using f by (auto simp: P_def)
  show ?thesis
  proof (cases "red_root ?c u")
    case True
    then obtain ul y ur where uu: "u = Node ul y ur" "?c y = RED" by (cases u) auto
    then have y: "n_right T g = y" using u by simp
    then have step: "insert_step z T = (g, set_color g RED (set_color y BLACK (set_color p BLACK T)))"
      using uu par by (simp add: insert_step_def Let_def)
    have "ins_ok (set_color g RED (set_color y BLACK (set_color p BLACK T))) C P g u m"
      unfolding uu(1)
    proof (rule insert_recolor [where Z = "Node a z b" and p = p and s = s])
      show "rep T (plug C (Node P g (Node ul y ur)))" "bal ?c (plug C (Node P g (Node ul y ur))) m"
        using rep b P(1) uu(1) by simp_all
    qed (use ns n uu P(2) re' nilc cg cp in simp_all)
    then show ?thesis unfolding step using P(1) by (intro ins_nextI(1)) auto
  next
    case False
    then have y: "?c (n_right T g) \<noteq> RED" using color_at_root [OF u nilc] by simp
    show ?thesis
    proof (cases "f = Above_left p s")
      case True
      have left: "n_left T p = z" "tree_at T p (n_right T p) s" "z \<noteq> t_nil T" using rep True by (auto simp: rep_plug)
      have "z \<notin> set_tree s" using rep_plug_distinct(1) [OF rep [unfolded P(1)]] True by (auto simp: P_def)
      then have "z \<noteq> n_right T p" using left tree_at_root [OF left(2)] by (cases s) auto
      then have step: "insert_step z T = (z, rbtree_right_rotate g (set_color g RED (set_color p BLACK T)))"
        using y par by (simp add: insert_step_def Let_def)
      have "ins_done (rbtree_right_rotate g (set_color g RED (set_color p BLACK T)))
          (plug C (Node (Node a z b) p (Node s g u))) m \<and>
        n_color (rbtree_right_rotate g (set_color g RED (set_color p BLACK T)))
          (n_parent (rbtree_right_rotate g (set_color g RED (set_color p BLACK T))) z) \<noteq> RED"
        using rep b z cp cg nilc n ns False True by (intro insert_last) simp_all
      moreover have "inorder (plug C (Node (Node a z b) p (Node s g u))) = inorder (plug (f # Above_left g u # C) (Node a z b))"
        using True by simp
      ultimately show ?thesis unfolding step by (intro ins_nextI(2)) auto
    next
      case False
      then have f: "f = Above_right s p" using f by simp
      then have right: "n_right T p = z" using rep by (auto simp: rep_plug)
      let ?T = "rbtree_left_rotate p T"
      have rot: "rep ?T (plug (Above_left g u # C) (Node (Node s p a) z b))"
        using left_rotate_rep [of T "Above_left g u # C" s p a z b] rep f by simp
      then have par1: "n_parent ?T p = z" "n_parent ?T z = g" by (auto simp: rep_plug)
      then have step: "insert_step z T = (p, rbtree_right_rotate g (set_color g RED (set_color z BLACK ?T)))"
        using y par right by (simp add: insert_step_def Let_def)
      have "bal ?c (plug C (Node (Node (Node s p a) z b) g u)) m"
        using b f z cp cg by (auto simp: bal_plug)
      then have "ins_done (rbtree_right_rotate g (set_color g RED (set_color z BLACK ?T)))
          (plug C (Node (Node s p a) z (Node b g u))) m \<and>
        n_color (rbtree_right_rotate g (set_color g RED (set_color z BLACK ?T)))
          (n_parent (rbtree_right_rotate g (set_color g RED (set_color z BLACK ?T))) p) \<noteq> RED"
        using rot z cp cg nilc n ns \<open>\<not> red_root ?c u\<close> by (intro insert_last) simp_all
      moreover have "inorder (plug C (Node (Node s p a) z (Node b g u))) = inorder (plug (f # Above_left g u # C) (Node a z b))"
        using f by simp
      ultimately show ?thesis unfolding step by (intro ins_nextI(2)) auto
    qed
  qed
qed

subsection \<open>The whole repair\<close>

lemma ins_ok_mirror: "ins_ok (swap_sides T) (mirror_ctx C) (mirror b) z (mirror a) m \<longleftrightarrow> ins_ok T C a z b m"
proof -
  have "plug (mirror_ctx C) (Node (mirror b) z (mirror a)) = mirror (plug C (Node a z b))" by (simp add: mirror_plug)
  then show ?thesis unfolding ins_ok_def by (auto simp: rep_swap)
qed

lemma ins_done_mirror: "ins_done (swap_sides T) (mirror t) m \<longleftrightarrow> ins_done T t m"
  by (simp add: ins_done_def rep_swap)

lemma ins_next_mirror:
  assumes "ins_next (swap_sides T) (mirror_ctx C) (mirror t) m zT"
  shows "ins_next T C t m (let (z, T) = zT in (z, swap_sides T))"
proof -
  obtain z' T' where zT: "zT = (z', T')" by (cases zT)
  have same: "same_data T (swap_sides T')" using assms zT by (simp add: ins_next_def)
  from assms consider
    (on) a' b' where "ins_ok T' (mirror_ctx C) a' z' b' m" "plug (mirror_ctx C) (Node a' z' b') = mirror t" |
    (fin) t' where "ins_done T' t' m" "inorder t' = inorder (mirror t)" "n_color T' (n_parent T' z') \<noteq> RED"
    unfolding ins_next_def zT by auto
  then show ?thesis
  proof cases
    case on
    then have "ins_ok (swap_sides T') C (mirror b') z' (mirror a') m"
      using ins_ok_mirror [of "swap_sides T'" C "mirror a'" z' "mirror b'" m] by simp
    moreover have "mirror (plug C (Node (mirror b') z' (mirror a'))) = mirror t" using on by (simp add: mirror_plug)
    then have "plug C (Node (mirror b') z' (mirror a')) = t" by (metis mirror_mirror)
    ultimately show ?thesis using same by (simp add: zT ins_nextI(1))
  next
    case fin
    then have "ins_done (swap_sides T') (mirror t') m" using ins_done_mirror [of "swap_sides T'" "mirror t'" m] by simp
    moreover have "inorder (mirror t') = inorder t" using fin by (simp add: inorder_mirror)
    ultimately show ?thesis using same fin by (simp add: zT ins_nextI(2))
  qed
qed

text \<open>A round, on either side.\<close>

lemma insert_round:
  assumes ok: "ins_ok T (f # h # C) a z b m" and red: "n_color T (n_parent T z) = RED"
  shows "ins_next T C (plug (f # h # C) (Node a z b)) m
    (if n_parent T z = n_left T (n_parent T (n_parent T z)) then insert_step z T else insert_step_mirror z T)"
proof -
  have rep: "rep T (plug (f # h # C) (Node a z b))" using ok by (simp add: ins_ok_def)
  obtain p s where f: "f = Above_left p s \<or> f = Above_right s p" by (cases f) auto
  show ?thesis
  proof (cases h)
    case (Above_left g u)
    then have "n_parent T z = p" "n_parent T p = g" "n_left T g = p" using rep f by (auto simp: rep_plug)
    then show ?thesis using insert_step_ok [OF ok [unfolded Above_left] red] Above_left by simp
  next
    case (Above_right u g)
    then have par: "n_parent T z = p" "n_parent T p = g" and u: "tree_at T g (n_left T g) u" "p \<noteq> t_nil T"
      using rep f by (auto simp: rep_plug)
    have "plug (f # h # C) (Node a z b) = plug C (plug [f, h] (Node a z b))" using f Above_right by auto
    then have "distinct (inorder (plug [f, h] (Node a z b)))" using rep rep_plug_distinct(1) by metis
    then have "p \<notin> set_tree u" using f Above_right by auto
    then have left: "p \<noteq> n_left T g" using u tree_at_root [OF u(1)] by (cases u) auto
    have ok': "ins_ok (swap_sides T) (mirror_frame f # Above_left g (mirror u) # mirror_ctx C) (mirror b) z (mirror a) m"
      using ok ins_ok_mirror [of T "f # h # C" b z a m] Above_right by simp
    have "ins_next (swap_sides T) (mirror_ctx C) (mirror (plug (f # h # C) (Node a z b))) m (insert_step z (swap_sides T))"
      using insert_step_ok [OF ok'] red by (simp add: mirror_plug Above_right)
    from ins_next_mirror [OF this] show ?thesis using par left by (simp add: insert_step_mirror_def)
  qed
qed

lemma insert_fixup_loop_ok:
  assumes "ins_ok T C a z b m"
  shows "\<exists>T' t'. insert_fixup_loop z T = Some T' \<and> same_data T T' \<and> ins_done T' t' m \<and>
    inorder t' = inorder (plug C (Node a z b))"
  using assms
proof (induction "length C" arbitrary: C T a z b rule: less_induct)
  case less
  note ok = less.prems
  show ?case
  proof (cases "n_color T (n_parent T z) = RED")
    case False
    then have loop: "insert_fixup_loop z T = Some T" by (simp add: insert_fixup_loop.simps)
    have par: "n_parent T z = top T C" using ok by (auto simp: ins_ok_def rep_plug)
    have "\<not> red_top (n_color T) C" using False par by (cases "(T, C)" rule: top.cases) auto
    then have "ins_done T (plug C (Node a z b)) m" using ok by (auto simp: ins_ok_def ins_done_def norr_plug)
    then show ?thesis using loop by auto
  next
    case True
    obtain f h C' where C: "C = f # h # C'"
    proof -
      have par: "n_parent T z = top T C" using ok by (auto simp: ins_ok_def rep_plug)
      have "C \<noteq> []" using par True ok by (auto simp: ins_ok_def)
      moreover have "C \<noteq> [f]" for f using par True ok by (cases f) (auto simp: ins_ok_def)
      ultimately show ?thesis by (metis list.exhaust that)
    qed
    obtain z' T' where step: "(if n_parent T z = n_left T (n_parent T (n_parent T z)) then insert_step z T
        else insert_step_mirror z T) = (z', T')" by fastforce
    then have loop: "insert_fixup_loop z T = insert_fixup_loop z' T'"
      using True by (subst insert_fixup_loop_step) auto
    have "ins_next T C' (plug C (Node a z b)) m (z', T')"
      using insert_round [OF ok [unfolded C] True] step C by simp
    then consider (on) a' b' where "same_data T T'" "ins_ok T' C' a' z' b' m" "plug C' (Node a' z' b') = plug C (Node a z b)" |
      (fin) t' where "same_data T T'" "ins_done T' t' m" "inorder t' = inorder (plug C (Node a z b))"
        "n_color T' (n_parent T' z') \<noteq> RED"
      unfolding ins_next_def by auto
    then show ?thesis
    proof cases
      case on
      have "length C' < length C" using C by simp
      from less.hyps [OF this on(2)] show ?thesis using on loop by (auto intro: same_data_trans)
    next
      case fin
      then have "insert_fixup_loop z' T' = Some T'" by (simp add: insert_fixup_loop.simps)
      then show ?thesis using loop fin by auto
    qed
  qed
qed

lemma blacken_root:
  assumes "ins_done T t m" "t \<noteq> Leaf"
  shows "rb_inv (set_color (t_root T) BLACK T) t"
proof -
  obtain l r where t: "t = Node l (t_root T) r" using assms by (cases t) (auto simp: ins_done_def rep_def)
  have "t_root T \<notin> set_tree l" "t_root T \<notin> set_tree r" "t_root T \<noteq> t_nil T"
    using assms t by (auto simp: ins_done_def rep_def)
  moreover obtain k where "bal (n_color T) l k" "bal (n_color T) r k" using assms t by (auto simp: ins_done_def)
  ultimately show ?thesis using assms t by (auto simp: ins_done_def rb_inv_def)
qed

lemma insert_fixup_ok:
  assumes "ins_ok T C a z b m"
  shows "\<exists>T' t'. rbtree_insert_fixup z T = Some T' \<and> same_data T T' \<and> rb_inv T' t' \<and>
    inorder t' = inorder (plug C (Node a z b))"
proof -
  obtain T' t' where T': "insert_fixup_loop z T = Some T'" "same_data T T'" "ins_done T' t' m"
    "inorder t' = inorder (plug C (Node a z b))"
    using insert_fixup_loop_ok [OF assms] by blast
  have "t' \<noteq> Leaf" using T'(4) by auto
  from blacken_root [OF T'(3) this] show ?thesis
    using T' by (intro exI [of _ "set_color (t_root T') BLACK T'"] exI [of _ t']) (simp add: rbtree_insert_fixup_def)
qed

subsection \<open>Inserting a node\<close>

definition attach :: "nat \<Rightarrow> nat \<Rightarrow> rbtree \<Rightarrow> rbtree" where
  "attach z y T =
     (let T = set_parent z y T;
          T = (if y = t_nil T then set_root z T
               else if n_key T z < n_key T y then set_left y z T
               else set_right y z T)
      in set_color z RED (set_right z (t_nil T) (set_left z (t_nil T) T)))"

lemma insert_attach:
  "rbtree_insert z T = do {
     found \<leftarrow> insert_descent T z (t_nil T) (t_root T);
     case found of None \<Rightarrow> Some T | Some y \<Rightarrow> rbtree_insert_fixup z (attach z y T) }"
  by (cases "insert_descent T z (t_nil T) (t_root T)")
    (auto simp: rbtree_insert_def attach_def Let_def split: option.split)

lemma attach_data [simp]:
  "same_data T (attach z y T)" "n_color (attach z y T) = (n_color T)(z := RED)" "t_nil (attach z y T) = t_nil T"
  by (auto simp: attach_def same_data_def Let_def)

lemma attach_rep:
  assumes rep: "rep T (plug C Leaf)" and z: "z \<noteq> t_nil T" "z \<notin> ctx_nodes C" and b: "between T C (n_key T z)"
  shows "rep (attach z (top T C) T) (plug C (Node Leaf z Leaf))"
proof -
  have at: "ctx_at T C (t_nil T)" "distinct (ctx_pre C @ ctx_post C)" using rep by (auto simp: rep_plug)
  have "z \<notin> set (ctx_pre C)" "z \<notin> set (ctx_post C)" using z by (auto simp: ctx_nodes_def)
  moreover have "ctx_at (attach z (top T C) T) C z \<and> n_left (attach z (top T C) T) z = t_nil T \<and>
    n_right (attach z (top T C) T) z = t_nil T \<and> n_parent (attach z (top T C) T) z = top T C"
  proof (cases C)
    case (Cons f D)
    show ?thesis
    proof (cases f)
      case (Above_left a s)
      have "a \<notin> ctx_nodes D" "a \<notin> set_tree s" using at(2) Cons Above_left by (auto simp: ctx_nodes_def)
      moreover have "n_key T z < n_key T a" using b Cons Above_left by (simp add: between_def)
      ultimately show ?thesis using Cons Above_left at(1) z by (simp add: attach_def Let_def)
    next
      case (Above_right s a)
      have "a \<notin> ctx_nodes D" "a \<notin> set_tree s" using at(2) Cons Above_right by (auto simp: ctx_nodes_def)
      moreover have "n_key T z > n_key T a" using b Cons Above_right by (simp add: between_def)
      ultimately show ?thesis using Cons Above_right at(1) z by (simp add: attach_def Let_def)
    qed
  qed (use at z in \<open>simp add: attach_def Let_def\<close>)
  moreover have "top (attach z (top T C) T) C = top T C" by (rule top_cong) simp
  ultimately show ?thesis using at z by (auto simp: rep_plug)
qed

lemma rbtree_insert_inserts:
  assumes inv: "rb_inv T t" and s: "keys_sorted T t" and z: "z \<noteq> t_nil T" "z \<notin> set_tree t"
  shows "\<exists>T' t'. rbtree_insert z T = Some T' \<and> rb_inv T' t' \<and> keys_sorted T' t' \<and> same_data T T' \<and>
    (if n_key T z \<in> n_key T ` set_tree t then T' = T \<and> t' = t else set_tree t' = insert z (set_tree t))"
proof -
  have rep: "rep T t" "tree_at T (t_nil T) (t_root T) t" using inv by (auto simp: rb_inv_def rep_def)
  have d: "if n_key T z \<in> n_key T ` set_tree t then insert_descent T z (t_nil T) (t_root T) = Some None
    else \<exists>C. insert_descent T z (t_nil T) (t_root T) = Some (Some (top T C)) \<and> plug C Leaf = t \<and> between T C (n_key T z)"
    using descent_ends [of T "[]" "t_root T" t z] rep(2) s by (simp add: between_def split: if_splits)
  show ?thesis
  proof (cases "n_key T z \<in> n_key T ` set_tree t")
    case True
    then show ?thesis using d inv s by (simp add: insert_attach)
  next
    case False
    with d obtain C where C: "insert_descent T z (t_nil T) (t_root T) = Some (Some (top T C))" "plug C Leaf = t"
      "between T C (n_key T z)" by auto
    have nodes: "set_tree t = ctx_nodes C" unfolding C(2) [symmetric] by (simp add: ctx_nodes_def flip: set_inorder)
    then have zC: "z \<notin> ctx_nodes C" using z(2) by simp
    have "rep T (plug C Leaf)" using rep(1) C(2) by simp
    note new = attach_rep [OF this z(1) zC C(3)]
    obtain m where m: "cbal (n_color T) C 0 m" using inv unfolding rb_inv_def C(2) [symmetric] by (auto simp: bal_plug)
    have bal: "bal ((n_color T)(z := RED)) (plug C (Node Leaf z Leaf)) m"
      unfolding bal_plug by (rule exI [of _ 0]) (use m zC in auto)
    have "norr (n_color T) (plug C Leaf)" "\<not> red_root (n_color T) (plug C Leaf)" using inv C(2) by (simp_all add: rb_inv_def)
    then have "cnorr (n_color T) C" "\<not> red_end (n_color T) C" by (auto simp: norr_plug red_root_plug split: if_splits)
    then have "ins_ok (attach z (top T C) T) C Leaf z Leaf m"
      using new bal zC z inv by (simp add: ins_ok_def rb_inv_def)
    from insert_fixup_ok [OF this] obtain T' t' where T': "rbtree_insert_fixup z (attach z (top T C) T) = Some T'"
      "same_data (attach z (top T C) T) T'" "rb_inv T' t'" "inorder t' = ctx_pre C @ [z] @ ctx_post C"
      by auto
    have data: "same_data T T'" using T'(2) by (auto intro: same_data_trans [OF attach_data(1)])
    have "set_tree t' = insert z (set_tree t)" using T'(4) nodes by (auto simp: ctx_nodes_def simp flip: set_inorder)
    moreover have "keys_sorted T' t'"
      using s C(3) data T'(4) unfolding keys_sorted_def C(2) [symmetric]
      by (auto simp: same_data_def between_def sorted_wrt_append)
    ultimately show ?thesis using C(1) T' data False by (simp add: insert_attach) blast
  qed
qed

end
