(* ===== verification/Rbtree_Delete.thy ===== *)
theory Rbtree_Delete
  imports Rbtree_Insert
begin

text \<open>
  Deleting a node: the repair moves a missing black node towards the root until a rotation or a red
  node makes it good, and the deletion takes exactly the key of the given node out of the tree.
\<close>

subsection \<open>One round of the repair\<close>

text \<open>The round on the right is the round on the left in the mirror.\<close>

lemma left_rotate_swap: "rbtree_left_rotate y T = swap_sides (rbtree_right_rotate y (swap_sides T))"
  by (simp add: right_rotate_swap)

lemma delete_red_mirror: "delete_red_right w x T = map_prod id swap_sides (delete_red_left w x (swap_sides T))"
  by (simp add: delete_red_right_def delete_red_left_def right_rotate_swap Let_def)

lemma delete_near_mirror: "delete_near_right w x T = map_prod id swap_sides (delete_near_left w x (swap_sides T))"
  by (simp add: delete_near_right_def delete_near_left_def right_rotate_swap Let_def)

lemma delete_far_mirror: "delete_far_right w x T = map_prod id swap_sides (delete_far_left w x (swap_sides T))"
  by (simp add: delete_far_right_def delete_far_left_def right_rotate_swap Let_def)

lemma delete_mirror: "delete_right x T = map_prod id swap_sides (delete_left x (swap_sides T))"
  by (simp add: delete_right_def delete_left_def delete_red_mirror delete_near_mirror delete_far_mirror Let_def
      split_beta conj_commute)

fun norr_below :: "(nat \<Rightarrow> u8) \<Rightarrow> nat tree \<Rightarrow> bool" where
  "norr_below c Leaf \<longleftrightarrow> True"
| "norr_below c (Node l a r) \<longleftrightarrow> norr c l \<and> norr c r"

lemma norr_below_update [simp]: "x \<notin> set_tree t \<Longrightarrow> norr_below (c(x := k)) t = norr_below c t"
  by (cases t) auto

lemma norr_below_mirror [simp]: "norr_below c (mirror t) = norr_below c t"
  by (cases t) auto

lemma norr_black: "norr_below c t \<Longrightarrow> \<not> red_root c t \<Longrightarrow> norr c t"
  by (cases t) auto

text \<open>The state of the loop: the subtree at \<open>x\<close> is one black node short, and but for its root in order.\<close>

definition del_ok :: "rbtree \<Rightarrow> frame list \<Rightarrow> nat tree \<Rightarrow> nat \<Rightarrow> nat \<Rightarrow> bool" where
  "del_ok T C X x m \<longleftrightarrow> rep T (plug C X) \<and> tree_at T (top T C) x X \<and> n_parent T x = top T C \<and>
     n_color T (t_nil T) = BLACK \<and> (\<exists>n. bal (n_color T) X n \<and> cbal (n_color T) C (Suc n) m) \<and>
     norr_below (n_color T) X \<and> cnorr (n_color T) C \<and> \<not> red_end (n_color T) C"

text \<open>What a round leads to: a state with \<open>P\<close> of its path and of the colour at \<open>x\<close>, or a tree in order.\<close>

definition del_next :: "rbtree \<Rightarrow> (frame list \<Rightarrow> u8 \<Rightarrow> bool) \<Rightarrow> nat tree \<Rightarrow> nat \<Rightarrow> nat \<times> rbtree \<Rightarrow> bool" where
  "del_next T P t m = (\<lambda>(x', T'). same_data T T' \<and>
     ((\<exists>C' X'. del_ok T' C' X' x' m \<and> inorder (plug C' X') = inorder t \<and> P C' (n_color T' x')) \<or>
      (\<exists>t'. ins_done T' t' m \<and> t' \<noteq> Leaf \<and> inorder t' = inorder t \<and> x' = t_root T')))"

lemma del_nextI:
  "same_data T T' \<Longrightarrow> del_ok T' C' X' x' m \<Longrightarrow> inorder (plug C' X') = inorder t \<Longrightarrow> P C' (n_color T' x') \<Longrightarrow>
    del_next T P t m (x', T')"
  "same_data T T' \<Longrightarrow> ins_done T' t' m \<Longrightarrow> t' \<noteq> Leaf \<Longrightarrow> inorder t' = inorder t \<Longrightarrow> x' = t_root T' \<Longrightarrow>
    del_next T P t m (x', T')"
  by (auto simp: del_next_def)

lemma del_next_weaken:
  "del_next T1 Q t1 m xT \<Longrightarrow> same_data T T1 \<Longrightarrow> inorder t1 = inorder t \<Longrightarrow> (\<And>C k. Q C k \<Longrightarrow> P C k) \<Longrightarrow>
   del_next T P t m xT"
  unfolding del_next_def by (fastforce intro: same_data_trans)

lemma plug_Leaf [simp]: "plug C t = Leaf \<longleftrightarrow> C = [] \<and> t = Leaf"
  by (induction C t rule: plug.induct) auto

lemma delete_last:
  assumes ok: "del_ok T (Above_left p (Node wl w (Node a r b)) # C) X x m"
    and c: "n_color T x = BLACK" "n_color T w = BLACK" "n_color T r = RED"
  defines "T' \<equiv> rbtree_left_rotate p (set_color r BLACK (set_color p BLACK (set_color w (n_color T p) T)))"
  shows "ins_done T' (plug C (Node (Node X p wl) w (Node a r b))) m"
proof -
  let ?c = "n_color T"
  have rep: "rep T (plug C (Node X p (Node wl w (Node a r b))))" using ok by (simp add: del_ok_def)
  have "distinct (inorder (Node X p (Node wl w (Node a r b))))" by (rule rep_plug_distinct(1) [OF rep])
  then have d: "p \<noteq> w" "p \<noteq> r" "w \<noteq> r" "p \<notin> set_tree X" "p \<notin> set_tree wl" "p \<notin> set_tree a" "p \<notin> set_tree b"
    "w \<notin> set_tree X" "w \<notin> set_tree wl" "w \<notin> set_tree a" "w \<notin> set_tree b"
    "r \<notin> set_tree X" "r \<notin> set_tree wl" "r \<notin> set_tree a" "r \<notin> set_tree b" by auto
  have disj: "p \<notin> ctx_nodes C" "w \<notin> ctx_nodes C" "r \<notin> ctx_nodes C" using rep_plug_disjoint [OF rep] by auto
  have "rep (set_color r BLACK (set_color p BLACK (set_color w (?c p) T))) (plug C (Node X p (Node wl w (Node a r b))))"
    using rep by simp
  from left_rotate_rep [OF this] have r: "rep T' (plug C (Node (Node X p wl) w (Node a r b)))" by (simp add: T'_def)
  have nil: "t_nil T \<noteq> p" "t_nil T \<noteq> w" "t_nil T \<noteq> r" using rep by (auto simp: rep_plug)
  have col: "n_color T' = ?c(w := ?c p, p := BLACK, r := BLACK)" "t_nil T' = t_nil T" by (simp_all add: T'_def)
  have n: "norr ?c X" using ok c(1) by (cases X) (auto simp: del_ok_def)
  obtain k where k: "bal ?c X k" "bal ?c wl k" "bal ?c a k" "bal ?c b k"
    "?c p = BLACK \<and> cbal ?c C (Suc (Suc k)) m \<or> ?c p = RED \<and> cbal ?c C (Suc k) m"
    using ok c by (auto simp: del_ok_def)
  have "bal (n_color T') (plug C (Node (Node X p wl) w (Node a r b))) m"
    unfolding bal_plug
    by (rule exI [of _ "if ?c p = BLACK then Suc (Suc k) else Suc k"]) (use k d disj in \<open>auto simp: col\<close>)
  moreover have "norr (n_color T') (plug C (Node (Node X p wl) w (Node a r b)))"
    using ok n d disj by (auto simp: del_ok_def norr_plug col)
  ultimately show ?thesis using r ok nil by (simp add: ins_done_def col del_ok_def)
qed

lemma delete_near:
  assumes ok: "del_ok T (Above_left p (Node (Node a l b) w s) # C) X x m"
    and c: "n_color T w = BLACK" "n_color T l = RED" "\<not> red_root (n_color T) s"
  defines "T' \<equiv> rbtree_right_rotate w (set_color w RED (set_color l BLACK T))"
  shows "del_ok T' (Above_left p (Node a l (Node b w s)) # C) X x m"
proof -
  let ?c = "n_color T"
  have rep: "rep T (plug (Above_left p (Node (Node a l b) w s) # C) X)" using ok by (simp add: del_ok_def)
  then have rep': "rep T (plug C (Node X p (Node (Node a l b) w s)))" by simp
  have "distinct (inorder (Node X p (Node (Node a l b) w s)))" by (rule rep_plug_distinct(1) [OF rep'])
  then have d: "l \<noteq> w" "p \<noteq> w" "p \<noteq> l" "l \<notin> set_tree a" "l \<notin> set_tree b" "l \<notin> set_tree X" "l \<notin> set_tree s"
    "w \<notin> set_tree a" "w \<notin> set_tree b" "w \<notin> set_tree X" "w \<notin> set_tree s" by auto
  have disj: "l \<notin> ctx_nodes C" "w \<notin> ctx_nodes C" using rep_plug_disjoint [OF rep'] by auto
  have "rep (set_color w RED (set_color l BLACK T)) (plug (Above_right X p # C) (Node (Node a l b) w s))"
    using rep by simp
  from right_rotate_rep [OF this] have r: "rep T' (plug (Above_left p (Node a l (Node b w s)) # C) X)"
    "n_parent T' (t_nil T) = n_parent T (t_nil T)" by (simp_all add: T'_def)
  have col: "n_color T' = ?c(l := BLACK, w := RED)" "t_nil T' = t_nil T" by (simp_all add: T'_def)
  have nil: "t_nil T \<noteq> l" "t_nil T \<noteq> w" using rep by (auto simp: rep_plug)
  have x: "tree_at T' p x X \<and> n_parent T' x = p"
  proof (cases X)
    case Leaf
    then show ?thesis using ok r(2) col(2) by (auto simp: del_ok_def)
  next
    case (Node X1 x' X2)
    then have "x' = x" using ok by (simp add: del_ok_def)
    then show ?thesis using r(1) Node by (auto simp: rep_plug)
  qed
  obtain n where n: "bal ?c X n" "cbal ?c (Above_left p (Node (Node a l b) w s) # C) (Suc n) m"
    using ok by (auto simp: del_ok_def)
  moreover have "cbal (n_color T') (Above_left p (Node a l (Node b w s)) # C) (Suc n) m"
    using n(2) c d disj by (auto simp: col)
  moreover have "cnorr (n_color T') (Above_left p (Node a l (Node b w s)) # C)"
    using ok c d disj by (auto simp: del_ok_def col)
  moreover have "\<not> red_end (n_color T') (Above_left p (Node a l (Node b w s)) # C)"
    using ok d disj by (cases C) (auto simp: del_ok_def col)
  ultimately show ?thesis
    using ok r(1) x n(1) d nil c by (auto simp: del_ok_def col)
qed

lemma delete_recolor:
  assumes ok: "del_ok T (Above_left p (Node l w r) # C) X x m"
    and c: "n_color T x = BLACK" "n_color T w = BLACK" "\<not> red_root (n_color T) l" "\<not> red_root (n_color T) r"
  shows "del_ok (set_color w RED T) C (Node X p (Node l w r)) p m"
proof -
  let ?c = "n_color T"
  have rep: "rep T (plug C (Node X p (Node l w r)))" using ok by (simp add: del_ok_def)
  have "distinct (inorder (Node X p (Node l w r)))" by (rule rep_plug_distinct(1) [OF rep])
  then have d: "p \<noteq> w" "w \<notin> set_tree X" "w \<notin> set_tree l" "w \<notin> set_tree r" by auto
  have disj: "w \<notin> ctx_nodes C" using rep_plug_disjoint [OF rep] by auto
  have at: "tree_at T (top T C) p (Node X p (Node l w r))" "n_parent T p = top T C" "w \<noteq> t_nil T"
    using rep by (auto simp: rep_plug)
  have n: "norr ?c X" using ok c(1) by (cases X) (auto simp: del_ok_def)
  obtain k where k: "bal ?c X k" "cbal ?c (Above_left p (Node l w r) # C) (Suc k) m"
    using ok by (auto simp: del_ok_def)
  then have "\<exists>n. bal (?c(w := RED)) (Node X p (Node l w r)) n \<and> cbal (?c(w := RED)) C (Suc n) m"
    using c d disj by auto
  moreover have "\<not> red_end ?c C" using ok by (cases C) (auto simp: del_ok_def)
  ultimately show ?thesis using ok rep at n c d disj by (simp add: del_ok_def)
qed

text \<open>The round once the sibling is black.\<close>

lemma delete_black:
  assumes ok: "del_ok T (Above_left p (Node l w r) # C) X x m" and c: "n_color T x = BLACK" "n_color T w = BLACK"
  shows "del_next T (\<lambda>C' k. C' = C \<and> k = n_color T p) (plug C (Node X p (Node l w r))) m
    (if n_color T (n_left T w) = BLACK \<and> n_color T (n_right T w) = BLACK then (n_parent T x, set_color w RED T)
     else let (w, T) = delete_near_left w x T in delete_far_left w x T)"
proof -
  let ?c = "n_color T"
  have at: "tree_at T w (n_left T w) l" "tree_at T w (n_right T w) r" "n_parent T x = p" "?c (t_nil T) = BLACK"
    "p \<noteq> w" and rep: "rep T (plug C (Node X p (Node l w r)))"
    using ok by (auto simp: del_ok_def rep_plug)
  obtain n where "bal ?c l n" "bal ?c r n" using ok c by (auto simp: del_ok_def)
  then have red: "?c (n_left T w) = BLACK \<longleftrightarrow> \<not> red_root ?c l" "?c (n_right T w) = BLACK \<longleftrightarrow> \<not> red_root ?c r"
    using black_at_root [OF at(1,4)] black_at_root [OF at(2,4)] by auto
  show ?thesis
  proof (cases "red_root ?c r")
    case True
    then obtain a y b where r: "r = Node a y b" "?c y = RED" "n_right T w = y" using at(2) by (cases r) auto
    have "delete_far_left w x T =
      (let T = rbtree_left_rotate p (set_color y BLACK (set_color p BLACK (set_color w (?c p) T))) in (t_root T, T))"
      using at r by (simp add: delete_far_left_def Let_def)
    then show ?thesis
      using delete_last [OF ok [unfolded r(1)] c r(2)] red True r
      by (auto simp: Let_def delete_near_left_def intro!: del_nextI(2))
  next
    case far: False
    show ?thesis
    proof (cases "red_root ?c l")
      case False
      show ?thesis using delete_recolor [OF ok c False far] red False far at
        by (auto intro!: del_nextI(1))
    next
      case True
      then obtain a y b where l: "l = Node a y b" "?c y = RED" "n_left T w = y" using at(1) by (cases l) auto
      define T1 where "T1 = rbtree_right_rotate w (set_color w RED (set_color y BLACK T))"
      have ok1: "del_ok T1 (Above_left p (Node a y (Node b w r)) # C) X x m"
        using delete_near [OF ok [unfolded l(1)] c(2) l(2) far] by (simp add: T1_def)
      then have at1: "n_parent T1 x = p" "n_right T1 p = y" "n_right T1 y = w"
        by (auto simp: del_ok_def rep_plug)
      have d: "x \<noteq> y" "x \<noteq> w" "y \<noteq> w"
        using ok l(2) c rep_plug_distinct(1) [OF rep] l(1) tree_at_root(2) [of T p x X]
        by (cases X; auto simp: del_ok_def rep_plug)+
      have c1: "n_color T1 x = BLACK" "n_color T1 y = BLACK" "n_color T1 w = RED" "same_data T T1"
        using c d by (simp_all add: T1_def)
      have "delete_near_left w x T = (y, T1)"
        using red far l at at1 by (simp add: delete_near_left_def Let_def T1_def)
      moreover have "delete_far_left y x T1 = (let T = rbtree_left_rotate p (set_color w BLACK (set_color p BLACK
          (set_color y (n_color T1 p) T1))) in (t_root T, T))"
        using at1 by (simp add: delete_far_left_def Let_def)
      moreover have "same_data T (rbtree_left_rotate p (set_color w BLACK (set_color p BLACK
          (set_color y (n_color T1 p) T1))))" using c1(4) by simp
      ultimately show ?thesis
        using delete_last [OF ok1 c1(1-3)] red True l(1)
        by (auto simp: Let_def intro!: del_nextI(2))
    qed
  qed
qed

text \<open>A red sibling is first rotated above, which leaves a red parent and a black sibling.\<close>

lemma delete_red:
  assumes ok: "del_ok T (Above_left p (Node l w r) # C) X x m" and c: "n_color T x = BLACK" "n_color T w = RED"
  defines "T' \<equiv> rbtree_left_rotate p (set_color p RED (set_color w BLACK T))"
  shows "del_ok T' (Above_left p l # Above_left w r # C) X x m \<and> n_color T' x = BLACK \<and> n_color T' p = RED"
proof -
  let ?c = "n_color T"
  have rep: "rep T (plug C (Node X p (Node l w r)))" using ok by (simp add: del_ok_def)
  have "distinct (inorder (Node X p (Node l w r)))" by (rule rep_plug_distinct(1) [OF rep])
  then have d: "p \<noteq> w" "p \<notin> set_tree X" "p \<notin> set_tree l" "p \<notin> set_tree r" "w \<notin> set_tree X" "w \<notin> set_tree l"
    "w \<notin> set_tree r" by auto
  have disj: "p \<notin> ctx_nodes C" "w \<notin> ctx_nodes C" using rep_plug_disjoint [OF rep] by auto
  have "rep (set_color p RED (set_color w BLACK T)) (plug C (Node X p (Node l w r)))" using rep by simp
  from left_rotate_rep [OF this] have r: "rep T' (plug (Above_left p l # Above_left w r # C) X)"
    "n_parent T' (t_nil T) = n_parent T (t_nil T)" by (simp_all add: T'_def)
  have col: "n_color T' = ?c(w := BLACK, p := RED)" "t_nil T' = t_nil T" by (simp_all add: T'_def)
  have nil: "t_nil T \<noteq> p" "t_nil T \<noteq> w" using rep by (auto simp: rep_plug)
  have x: "tree_at T' p x X \<and> n_parent T' x = p \<and> x \<noteq> p"
  proof (cases X)
    case Leaf
    then show ?thesis using ok r(2) col(2) nil by (auto simp: del_ok_def)
  next
    case (Node X1 x' X2)
    then have "x' = x" using ok by (simp add: del_ok_def)
    then show ?thesis using r(1) Node d by (auto simp: rep_plug)
  qed
  have cp: "?c p = BLACK" using ok c by (auto simp: del_ok_def)
  have "\<exists>n. bal (n_color T') X n \<and> cbal (n_color T') (Above_left p l # Above_left w r # C) (Suc n) m"
    using ok c cp d disj by (auto simp: del_ok_def col)
  moreover have "cnorr (n_color T') (Above_left p l # Above_left w r # C)"
    using ok c d disj by (auto simp: del_ok_def col)
  moreover have "\<not> red_end (n_color T') (Above_left p l # Above_left w r # C)"
    using ok d disj by (cases C) (auto simp: del_ok_def col)
  ultimately show ?thesis using ok r(1) x c d nil by (auto simp: del_ok_def col)
qed

lemma delete_left_ok:
  assumes ok: "del_ok T (Above_left p W # C) X x m" and c: "n_color T x = BLACK"
  shows "del_next T (\<lambda>C' k. length C' \<le> length C \<or> k = RED) (plug (Above_left p W # C) X) m (delete_left x T)"
proof -
  obtain l w r where W: "W = Node l w r" using ok by (cases W) (auto simp: del_ok_def)
  have at: "n_right T p = w" "n_parent T x = p" using ok W by (auto simp: del_ok_def rep_plug)
  show ?thesis
  proof (cases "n_color T w = RED")
    case False
    then have w: "n_color T w = BLACK" using ok W by (auto simp: del_ok_def)
    have step: "delete_left x T = (if n_color T (n_left T w) = BLACK \<and> n_color T (n_right T w) = BLACK
        then (n_parent T x, set_color w RED T)
        else let (w, T) = delete_near_left w x T in delete_far_left w x T)"
      using at False by (simp add: delete_left_def delete_red_left_def Let_def)
    show ?thesis unfolding step by (rule del_next_weaken [OF delete_black [OF ok [unfolded W] c w]]) (use W in auto)
  next
    case True
    define T1 where "T1 = rbtree_left_rotate p (set_color p RED (set_color w BLACK T))"
    have ok1: "del_ok T1 (Above_left p l # Above_left w r # C) X x m" "n_color T1 x = BLACK" "n_color T1 p = RED"
      using delete_red [OF ok [unfolded W] c True] by (simp_all add: T1_def)
    obtain l1 w1 r1 where l: "l = Node l1 w1 r1" using ok1(1) by (cases l) (auto simp: del_ok_def)
    have at1: "n_parent T1 x = p" "n_right T1 p = w1" using ok1(1) l by (auto simp: del_ok_def rep_plug)
    have "n_color T1 w1 = BLACK" using ok1 l by (auto simp: del_ok_def)
    note next1 = delete_black [OF ok1(1) [unfolded l] ok1(2) this]
    have "delete_red_left w x T = (w1, T1)" using True at at1 by (simp add: delete_red_left_def Let_def T1_def)
    then have step: "delete_left x T = (if n_color T1 (n_left T1 w1) = BLACK \<and> n_color T1 (n_right T1 w1) = BLACK
        then (n_parent T1 x, set_color w1 RED T1)
        else let (w, T) = delete_near_left w1 x T1 in delete_far_left w x T)"
      using at by (simp add: delete_left_def Let_def)
    have "same_data T T1" by (simp add: T1_def)
    then show ?thesis unfolding step by (rule del_next_weaken [OF next1]) (use ok1(3) W l in auto)
  qed
qed

subsection \<open>The whole repair\<close>

lemma del_ok_mirror: "del_ok (swap_sides T) (mirror_ctx C) (mirror X) x m \<longleftrightarrow> del_ok T C X x m"
proof -
  have "top (swap_sides T) (mirror_ctx C) = top T C" by (cases "(T, C)" rule: top.cases) auto
  then show ?thesis by (simp add: del_ok_def rep_swap_plug tree_at_swap)
qed

lemma del_next_mirror:
  assumes "del_next (swap_sides T) (\<lambda>C' k. length C' \<le> n \<or> k = RED) (mirror t) m xT"
  shows "del_next T (\<lambda>C' k. length C' \<le> n \<or> k = RED) t m (map_prod id swap_sides xT)"
proof -
  obtain x' T' where xT: "xT = (x', T')" by (cases xT)
  have same: "same_data T (swap_sides T')" using assms xT by (simp add: del_next_def)
  from assms consider
    (on) C' X' where "del_ok T' C' X' x' m" "inorder (plug C' X') = inorder (mirror t)"
      "length C' \<le> n \<or> n_color T' x' = RED" |
    (fin) t' where "ins_done T' t' m" "t' \<noteq> Leaf" "inorder t' = inorder (mirror t)" "x' = t_root T'"
    unfolding del_next_def xT by auto
  then show ?thesis
  proof cases
    case on
    have "inorder (plug (mirror_ctx C') (mirror X')) = inorder t"
      using on(2) by (simp add: inorder_mirror del: inorder_plug flip: mirror_plug)
    moreover have "del_ok (swap_sides T') (mirror_ctx C') (mirror X') x' m"
      using on(1) del_ok_mirror by blast
    ultimately show ?thesis using same on(3) unfolding xT by (auto intro!: del_nextI(1))
  next
    case fin
    have "ins_done (swap_sides T') (mirror t') m" using fin(1) ins_done_mirror by blast
    moreover have "inorder (mirror t') = inorder t" using fin by (simp add: inorder_mirror)
    moreover have "mirror t' \<noteq> Leaf" using fin(2) by (cases t') auto
    ultimately show ?thesis using same fin unfolding xT by (auto intro!: del_nextI(2))
  qed
qed

lemma delete_round:
  assumes ok: "del_ok T (f # C) X x m" and c: "n_color T x = BLACK"
  shows "del_next T (\<lambda>C' k. length C' \<le> length C \<or> k = RED) (plug (f # C) X) m
    (if x = n_left T (n_parent T x) then delete_left x T else delete_right x T)"
proof (cases f)
  case (Above_left p W)
  then have "n_parent T x = p" "n_left T p = x" using ok by (cases X; auto simp: del_ok_def rep_plug)+
  then show ?thesis using delete_left_ok [OF ok [unfolded Above_left] c] Above_left by simp
next
  case (Above_right W p)
  have par: "n_parent T x = p" "tree_at T p (n_left T p) W" and rep: "rep T (plug C (Node W p X))"
    using ok Above_right by (auto simp: del_ok_def rep_plug)
  have W: "W \<noteq> Leaf" using ok Above_right by (auto simp: del_ok_def)
  have "distinct (inorder (Node W p X))" by (rule rep_plug_distinct(1) [OF rep])
  then have "x \<noteq> n_left T p"
    using tree_at_root [OF par(2)] W ok by (cases X) (auto simp: del_ok_def)
  then have "(if x = n_left T (n_parent T x) then delete_left x T else delete_right x T)
      = map_prod id swap_sides (delete_left x (swap_sides T))"
    using par by (simp add: delete_mirror)
  moreover have "del_ok (swap_sides T) (Above_left p (mirror W) # mirror_ctx C) (mirror X) x m"
    using ok del_ok_mirror [of T "f # C" X x m] Above_right by simp
  from delete_left_ok [OF this] c
  have "del_next (swap_sides T) (\<lambda>C' k. length C' \<le> length C \<or> k = RED) (mirror (plug (f # C) X)) m
      (delete_left x (swap_sides T))"
    by (simp add: mirror_plug Above_right)
  ultimately show ?thesis by (simp only: del_next_mirror)
qed

text \<open>The end of the loop: the node is black once more, or coloured black by the last assignment.\<close>

lemma delete_end:
  assumes ok: "del_ok T C X x m" and e: "C = [] \<or> n_color T x = RED"
  shows "rb_inv (set_color x BLACK T) (plug C X)"
proof (cases X)
  case Leaf
  then have x: "x = t_nil T" using ok by (simp add: del_ok_def)
  then have "C = []" using e ok by (auto simp: del_ok_def)
  then show ?thesis using ok Leaf x by (simp add: del_ok_def rb_inv_def)
next
  case (Node l a r)
  have a: "a = x" "x \<noteq> t_nil T" using ok Node by (auto simp: del_ok_def)
  have rep: "rep T (plug C (Node l x r))" using ok Node a by (simp add: del_ok_def)
  have d: "x \<notin> set_tree l" "x \<notin> set_tree r" "x \<notin> ctx_nodes C"
    using rep_plug_distinct(1) [OF rep] rep_plug_disjoint [OF rep] by auto
  have "norr ((n_color T)(x := BLACK)) (plug C (Node l x r))" "\<not> red_root ((n_color T)(x := BLACK)) (plug C (Node l x r))"
    using ok Node a d by (auto simp: del_ok_def norr_plug red_root_plug)
  moreover have "\<exists>m. bal ((n_color T)(x := BLACK)) (plug C (Node l x r)) m"
  proof (cases "C = []")
    case True
    then show ?thesis using ok Node a d by (auto simp: del_ok_def)
  next
    case False
    then show ?thesis using e ok Node a d by (auto simp: del_ok_def bal_plug)
  qed
  ultimately show ?thesis using ok rep Node a by (simp add: rb_inv_def del_ok_def)
qed

lemma ctx_root: "ctx_at T C p \<Longrightarrow> C \<noteq> [] \<Longrightarrow> t_root T \<in> ctx_nodes C \<and> t_root T \<noteq> t_nil T"
  by (induction T C p rule: ctx_at.induct) (case_tac C; auto)+

lemma delete_fixup_ok:
  assumes "del_ok T C X x m"
  shows "\<exists>T' t'. rbtree_delete_fixup x T = Some T' \<and> same_data T T' \<and> rb_inv T' t' \<and> inorder t' = inorder (plug C X)"
  using assms
proof (induction "length C" arbitrary: C T X x rule: less_induct)
  case less
  note ok = less.prems
  have at: "ctx_at T C x" "tree_at T (top T C) x X" using ok by (cases X; auto simp: del_ok_def rep_plug)+
  have stop: ?case if "C = [] \<or> n_color T x = RED"
  proof -
    have "delete_fixup_loop x T = Some (x, T)" using that at(1) by (subst delete_fixup_loop.simps) auto
    then have "rbtree_delete_fixup x T = Some (set_color x BLACK T)" by (simp add: rbtree_delete_fixup_def)
    then show ?thesis using delete_end [OF ok that] by fastforce
  qed
  show ?case
  proof (cases "C = [] \<or> n_color T x = RED")
    case False
    then obtain f D where C: "C = f # D" by (cases C) auto
    have c: "n_color T x = BLACK" using False ok by (cases X) (auto simp: del_ok_def)
    have "x \<noteq> t_root T"
      using ctx_root [OF at(1)] C tree_at_root(2) [OF at(2)] at(2) rep_plug_disjoint [of T C X] ok
      by (cases X) (auto simp: del_ok_def)
    moreover obtain x' T' where step: "(if x = n_left T (n_parent T x) then delete_left x T else delete_right x T) = (x', T')"
      by fastforce
    ultimately have loop: "rbtree_delete_fixup x T = rbtree_delete_fixup x' T'"
      using c by (simp add: rbtree_delete_fixup_def) (subst delete_fixup_loop.simps, simp)
    have "del_next T (\<lambda>C' k. length C' \<le> length D \<or> k = RED) (plug C X) m (x', T')"
      using delete_round [OF ok [unfolded C] c] step C by simp
    then consider
      (on) C' X' where "same_data T T'" "del_ok T' C' X' x' m" "inorder (plug C' X') = inorder (plug C X)"
        "length C' < length C \<or> n_color T' x' = RED" |
      (fin) t' where "same_data T T'" "ins_done T' t' m" "t' \<noteq> Leaf" "inorder t' = inorder (plug C X)" "x' = t_root T'"
      unfolding del_next_def C by fastforce
    then show ?thesis
    proof cases
      case on
      show ?thesis
      proof (cases "n_color T' x' = RED")
        case True
        then have "rbtree_delete_fixup x' T' = Some (set_color x' BLACK T')"
          by (subst rbtree_delete_fixup_def, subst delete_fixup_loop.simps) simp
        then show ?thesis using delete_end [OF on(2)] True on loop by fastforce
      next
        case False
        then show ?thesis using less.hyps [OF _ on(2)] on loop by (fastforce intro: same_data_trans)
      qed
    next
      case fin
      then have "rbtree_delete_fixup x' T' = Some (set_color (t_root T') BLACK T')"
        by (subst rbtree_delete_fixup_def, subst delete_fixup_loop.simps) simp
      then show ?thesis using blacken_root [OF fin(2,3)] fin loop by fastforce
    qed
  qed (rule stop)
qed

subsection \<open>Deleting a node\<close>

text \<open>The keys in order, each with its value.\<close>

definition content :: "rbtree \<Rightarrow> nat tree \<Rightarrow> (int \<times> nat) list" where
  "content T t = map (\<lambda>a. (n_key T a, n_value T a)) (inorder t)"

definition unlink :: "nat \<Rightarrow> nat \<Rightarrow> rbtree \<Rightarrow> rbtree" where
  "unlink y x T = relink y x (set_parent x (n_parent T y) T)"

lemma unlink_data [simp]:
  "t_nil (unlink y x T) = t_nil T" "n_color (unlink y x T) = n_color T" "n_key (unlink y x T) = n_key T"
  "n_value (unlink y x T) = n_value T"
  by (simp_all add: unlink_def)

lemma unlink_rep:
  assumes rep: "rep T (plug C (Node a y b))" and e: "a = Leaf \<and> X = b \<or> b = Leaf \<and> X = a"
    and x: "x = (if n_left T y \<noteq> t_nil T then n_left T y else if n_right T y \<noteq> t_nil T then n_right T y else t_nil T)"
  shows "rep (unlink y x T) (plug C X) \<and> tree_at (unlink y x T) (top T C) x X \<and> n_parent (unlink y x T) x = top T C"
proof -
  have at: "ctx_at T C y" "n_parent T y = top T C" "y \<noteq> t_nil T" "tree_at T y (n_left T y) a" "tree_at T y (n_right T y) b"
    using rep by (auto simp: rep_plug)
  have X: "tree_at T y x X"
    using e x at(4,5) tree_at_root(1) [OF at(4)] tree_at_root(1) [OF at(5)] by auto
  have d: "y \<notin> ctx_nodes C" "set_tree X \<inter> ctx_nodes C = {}" "y \<notin> set_tree X" "distinct (ctx_pre C @ inorder X @ ctx_post C)"
    using rep_plug_disjoint [OF rep] rep_plug_distinct(1) [OF rep] e rep by (auto simp: rep_plug)
  let ?T = "set_parent x (top T C) T"
  have "x \<noteq> y" "x \<notin> ctx_nodes C"
    using X d ctx_at_nil [OF at(1)] at(3) tree_at_root(2) [OF X] by (cases X; auto)+
  then have "ctx_at (relink y x ?T) C x"
    using at d by (intro relink_ctx) (auto simp: rep_plug)
  moreover have "n_parent ?T y = top T C" using \<open>x \<noteq> y\<close> at by simp
  moreover have "top T C \<notin> set_tree X"
  proof -
    have "top T C \<in> ctx_nodes C \<or> top T C = t_nil T" by (cases "(T, C)" rule: top.cases) auto
    then show ?thesis using d(2) tree_at_nil [OF X] by auto
  qed
  moreover have "tree_at ?T (top T C) x X"
  proof (cases X)
    case (Node l c r)
    then show ?thesis using X d(4) by auto
  qed (use X in simp)
  ultimately show ?thesis using at d(4) by (auto simp: unlink_def relink_tree rep_plug intro!: exI [of _ x])
qed

lemma moved_content:
  fixes k :: "'a \<Rightarrow> int" and v :: "'a \<Rightarrow> 'b"
  assumes s: "sorted_wrt (<) (map k (pre @ y # post))" and d: "distinct (pre @ y # post)"
    and z: "z = y \<or> (\<exists>pre'. pre = pre' @ [z])"
  shows "map (\<lambda>a. ((k(z := k y)) a, (v(z := v y)) a)) (pre @ post) =
      filter (\<lambda>(i, u). i \<noteq> k z) (map (\<lambda>a. (k a, v a)) (pre @ y # post))"
proof -
  have keep: "filter (\<lambda>(i, u). i \<noteq> k z) (map (\<lambda>a. (k a, v a)) l) = map (\<lambda>a. (k a, v a)) l"
    if "\<forall>a\<in>set l. k a \<noteq> k z" for l
    using that by (induction l) auto
  have same: "map (\<lambda>a. ((k(z := k y)) a, (v(z := v y)) a)) l = map (\<lambda>a. (k a, v a)) l" if "z \<notin> set l" for l
    using that by (induction l) auto
  from z show ?thesis
  proof
    assume "z = y"
    then have "\<forall>a\<in>set pre. k a \<noteq> k z" "\<forall>a\<in>set post. k a \<noteq> k z" using s by (auto simp: sorted_wrt_append)
    then show ?thesis using \<open>z = y\<close> by (simp add: keep fun_upd_idem)
  next
    assume "\<exists>pre'. pre = pre' @ [z]"
    then obtain pre' where pre: "pre = pre' @ [z]" by blast
    then have "\<forall>a\<in>set pre'. k a \<noteq> k z" "\<forall>a\<in>set post. k a \<noteq> k z" "k y \<noteq> k z" using s by (auto simp: sorted_wrt_append)
    moreover have "z \<notin> set pre'" "z \<notin> set post" using d pre by auto
    ultimately show ?thesis using pre by (simp add: keep same del: fun_upd_apply) simp
  qed
qed

text \<open>The nodes whose removal takes the key of \<open>z\<close> out: \<open>z\<close> itself or the one after it.\<close>

lemma deleted_position:
  assumes rep: "rep T (plug C (Node l z r))"
  shows "\<exists>y D a b. (if n_left T z = t_nil T \<or> n_right T z = t_nil T then Some z else rbtree_successor T z) = Some y \<and>
    plug C (Node l z r) = plug D (Node a y b) \<and> (a = Leaf \<or> b = Leaf) \<and>
    (z = y \<or> (\<exists>pre. ctx_pre D @ inorder a = pre @ [z]))"
proof (cases "n_left T z = t_nil T \<or> n_right T z = t_nil T")
  case True
  moreover have "tree_at T z (n_left T z) l" "tree_at T z (n_right T z) r" using rep by (auto simp: rep_plug)
  ultimately have "l = Leaf \<or> r = Leaf" using tree_at_root(1) by metis
  then show ?thesis using True by (intro exI [of _ z] exI [of _ C] exI [of _ l] exI [of _ r]) simp
next
  case False
  have r: "tree_at T z (n_right T z) r" using rep by (auto simp: rep_plug)
  then have "r \<noteq> Leaf" using False by auto
  from leftmost [OF r this] obtain D y s where D: "rbtree_mini T (n_right T z) = Some y" "r = plug D (Node Leaf y s)"
    "ctx_pre D = []" by blast
  have "plug C (Node l z r) = plug (D @ Above_right l z # C) (Node Leaf y s)" using D(2) by simp
  moreover have "rbtree_successor T z = Some y" using False D(1) by (simp add: rbtree_successor_def)
  moreover have "ctx_pre (D @ Above_right l z # C) @ inorder Leaf = (ctx_pre C @ inorder l) @ [z]" using D(3) by simp
  ultimately show ?thesis using False by (metis (no_types))
qed

lemma set_same: "n_key T z = i \<Longrightarrow> set_key z i T = T" "n_value T z = v \<Longrightarrow> set_value z v T = T"
  by (auto simp: setters)

lemma rbtree_delete_unlink:
  assumes y: "(if n_left T z = t_nil T \<or> n_right T z = t_nil T then Some z else rbtree_successor T z) = Some y"
  defines "x \<equiv> (if n_left T y \<noteq> t_nil T then n_left T y else if n_right T y \<noteq> t_nil T then n_right T y else t_nil T)"
    and "T' \<equiv> set_value z (n_value T y) (set_key z (n_key T y) (unlink y (if n_left T y \<noteq> t_nil T then n_left T y
      else if n_right T y \<noteq> t_nil T then n_right T y else t_nil T) T))"
  shows "rbtree_delete z T = (if n_color T y = BLACK then map_option (Pair y) (rbtree_delete_fixup x T') else Some (y, T'))"
proof -
  let ?T = "unlink y x T"
  have "(if y \<noteq> z then set_value z (n_value ?T y) (set_key z (n_key ?T y) ?T) else ?T) = T'"
    by (simp add: T'_def x_def set_same)
  moreover have "n_color T' = n_color T" by (simp add: T'_def)
  ultimately have "rbtree_delete z T = do {
      T \<leftarrow> (if n_color T y = BLACK then rbtree_delete_fixup x T' else Some T');
      Some (y, T) }"
    unfolding rbtree_delete_def y Option.bind.bind_lunit Let_def x_def [symmetric] relink_def [symmetric] unlink_def [symmetric]
    by simp
  then show ?thesis by (cases "rbtree_delete_fixup x T'") auto
qed

lemma keys_sorted_content: "keys_sorted T t \<longleftrightarrow> sorted_wrt (\<lambda>p q. fst p < fst q) (content T t)"
  by (simp add: keys_sorted_def content_def sorted_wrt_map)

lemma position: "z \<in> set_tree t \<Longrightarrow> \<exists>C l r. t = plug C (Node l z r)"
proof (induction t)
  case (Node l a r)
  then consider "z = a" | C l' r' where "l = plug C (Node l' z r')" | C l' r' where "r = plug C (Node l' z r')" by auto
  then show ?case
  proof cases
    case 1
    then show ?thesis by (intro exI [of _ "[]"]) simp
  next
    case 2
    then show ?thesis by (intro exI [of _ "C @ [Above_left a r]"] exI [of _ l'] exI [of _ r']) simp
  next
    case 3
    then show ?thesis by (intro exI [of _ "C @ [Above_right l a]"] exI [of _ l'] exI [of _ r']) simp
  qed
qed simp

text \<open>What taking a node out leaves to the repair, or, if the node was red, the tree in order.\<close>

lemma unlink_state:
  assumes inv: "rb_inv T (plug C (Node a y b))" and e: "a = Leaf \<and> X = b \<or> b = Leaf \<and> X = a"
    and T': "rep T' (plug C X)" "tree_at T' (top T C) x X" "n_parent T' x = top T C"
      "n_color T' = n_color T" "t_nil T' = t_nil T"
  shows "if n_color T y = BLACK then \<exists>m. del_ok T' C X x m else rb_inv T' (plug C X)"
proof -
  have n: "norr (n_color T) (Node a y b)" "cnorr (n_color T) C" "\<not> (red_top (n_color T) C \<and> n_color T y = RED)"
    and re: "if C = [] then n_color T y \<noteq> RED else \<not> red_end (n_color T) C"
    and nil: "n_color T (t_nil T) = BLACK"
    using inv by (auto simp: rb_inv_def norr_plug red_root_plug split: if_splits)
  obtain k m where b: "bal (n_color T) (Node a y b) k" "cbal (n_color T) C k m"
    using inv by (auto simp: rb_inv_def bal_plug)
  have "top T' C = top T C" using T'(5) by (rule top_cong)
  note T'' = T'(1,3,4,5) T'(2) [folded this] this
  have re': "\<not> red_end (n_color T) C" using re by (cases C) auto
  have X: "norr (n_color T) X" "norr_below (n_color T) X" using n(1) e by (cases X; auto)+
  show ?thesis
  proof (cases "n_color T y = BLACK")
    case True
    then have "\<exists>n. bal (n_color T) X n \<and> cbal (n_color T) C (Suc n) m" using b e by auto
    then have "del_ok T' C X x m" using T'' X n re' nil by (simp add: del_ok_def)
    then show ?thesis using True by auto
  next
    case False
    then have y: "n_color T y = RED" using b(1) by auto
    then have "bal (n_color T) X k" "\<not> red_root (n_color T) X" "C \<noteq> []" "\<not> red_top (n_color T) C"
      using b(1) e n re by auto
    then show ?thesis using y T'' X n re' nil b(2) by (auto simp: rb_inv_def norr_plug red_root_plug bal_plug)
  qed
qed

lemma rbtree_delete_deletes:
  assumes inv: "rb_inv T t" and s: "keys_sorted T t" and z: "z \<in> set_tree t"
  shows "\<exists>y T' t'. rbtree_delete z T = Some (y, T') \<and> rb_inv T' t' \<and> keys_sorted T' t' \<and> t_nil T' = t_nil T \<and>
    content T' t' = filter (\<lambda>(k, v). k \<noteq> n_key T z) (content T t) \<and> y \<in> set_tree t \<and> set_tree t' = set_tree t - {y}"
proof -
  obtain C0 l r where C0: "t = plug C0 (Node l z r)" using position [OF z] by blast
  obtain y C a b where y: "(if n_left T z = t_nil T \<or> n_right T z = t_nil T then Some z else rbtree_successor T z) = Some y"
    and t: "t = plug C (Node a y b)" and ab: "a = Leaf \<or> b = Leaf"
    and zy: "z = y \<or> (\<exists>pre. ctx_pre C @ inorder a = pre @ [z])"
    using deleted_position [of T C0 l z r] inv C0 by (auto simp: rb_inv_def)
  obtain X where e: "a = Leaf \<and> X = b \<or> b = Leaf \<and> X = a" using ab by auto
  have rep: "rep T (plug C (Node a y b))" using inv t by (simp add: rb_inv_def)
  define x where "x = (if n_left T y \<noteq> t_nil T then n_left T y else if n_right T y \<noteq> t_nil T then n_right T y else t_nil T)"
  define T2 where "T2 = set_value z (n_value T y) (set_key z (n_key T y) (unlink y x T))"
  have T2: "rep T2 (plug C X)" "tree_at T2 (top T C) x X" "n_parent T2 x = top T C" "n_color T2 = n_color T"
    "t_nil T2 = t_nil T"
    using unlink_rep [OF rep e x_def] by (simp_all add: T2_def)
  have d2: "n_key T2 = (n_key T)(z := n_key T y)" "n_value T2 = (n_value T)(z := n_value T y)" by (simp_all add: T2_def)
  have state: "if n_color T y = BLACK then \<exists>m. del_ok T2 C X x m else rb_inv T2 (plug C X)"
    by (rule unlink_state [OF inv [unfolded t] e T2])
  have "\<exists>T' t'. rbtree_delete z T = Some (y, T') \<and> same_data T2 T' \<and> rb_inv T' t' \<and> inorder t' = inorder (plug C X)"
  proof (cases "n_color T y = BLACK")
    case True
    then obtain m where "del_ok T2 C X x m" using state by auto
    from delete_fixup_ok [OF this] show ?thesis
      using True by (auto simp: rbtree_delete_unlink [OF y] T2_def x_def)
  next
    case False
    then show ?thesis using state by (auto simp: rbtree_delete_unlink [OF y] T2_def x_def)
  qed
  then obtain T' t' where run: "rbtree_delete z T = Some (y, T')" and same: "same_data T2 T'" and inv': "rb_inv T' t'"
    and t': "inorder t' = inorder (plug C X)" by blast
  have lists: "inorder t = (ctx_pre C @ inorder a) @ y # (inorder b @ ctx_post C)"
    "inorder t' = (ctx_pre C @ inorder a) @ (inorder b @ ctx_post C)"
    using t t' e by auto
  have dist: "distinct (inorder t)" using inv by (simp add: rb_inv_def rep_def)
  have "content T' t' = filter (\<lambda>(k, v). k \<noteq> n_key T z) (content T t)"
    unfolding content_def lists
    using moved_content [of "n_key T" "ctx_pre C @ inorder a" y "inorder b @ ctx_post C" z "n_value T"] s dist zy same d2
    by (simp only: keys_sorted_def same_data_def lists simp_thms)
  moreover from this have "keys_sorted T' t'" using s by (simp add: keys_sorted_content sorted_wrt_filter)
  moreover have "set_tree t' = set_tree t - {y}" "y \<in> set_tree t"
    using lists dist by (auto simp flip: set_inorder)
  moreover have "t_nil T' = t_nil T" using same T2(5) by (simp add: same_data_def)
  ultimately show ?thesis using run inv' by blast
qed

end
