(* ===== verification/Rbtree_Map.thy ===== *)
theory Rbtree_Map
  imports Rbtree_Delete Ordered_Map
begin

text \<open>
  The red-black tree as an ordered map, as \<open>main\<close> uses it: nodes are filled in and inserted, keys are
  searched, and the node found is deleted and the node returned is freed.
\<close>

subsection \<open>The client\<close>

text \<open>The state is the tree with the addresses in use.\<close>

type_synonym rb_client = "rbtree \<times> nat set"

definition rb_put :: "nat \<Rightarrow> int \<Rightarrow> nat \<Rightarrow> rb_client \<Rightarrow> rb_client option" where
  "rb_put z k v = (\<lambda>(T, L). do {
     T \<leftarrow> rbtree_insert z (set_value z v (set_key z k T));
     Some (T, insert z L) })"

definition rb_drop :: "int \<Rightarrow> rb_client \<Rightarrow> rb_client option" where
  "rb_drop k = (\<lambda>(T, L). do {
     node \<leftarrow> rbtree_search T k;
     if node = t_nil T then Some (T, L)
     else do { (cur, T) \<leftarrow> rbtree_delete node T; Some (T, L - {cur}) } })"

definition rb_get :: "int \<Rightarrow> rb_client \<Rightarrow> nat option option" where
  "rb_get k = (\<lambda>(T, L). do {
     node \<leftarrow> rbtree_search T k;
     Some (if node = t_nil T then None else Some (n_value T node)) })"

definition rb_unused :: "nat \<Rightarrow> rb_client \<Rightarrow> bool" where
  "rb_unused z = (\<lambda>(T, L). z \<notin> L)"

definition rb_rel :: "rb_client \<Rightarrow> (int \<times> nat) list \<Rightarrow> bool" where
  "rb_rel = (\<lambda>(T, L) xs. \<exists>t. rb_inv T t \<and> keys_sorted T t \<and> content T t = xs \<and> set_tree t \<subseteq> L \<and> t_nil T \<in> L)"

lemma rb_inv_set [simp]: "rb_inv (set_key z k T) t = rb_inv T t" "rb_inv (set_value z v T) t = rb_inv T t"
  by (simp_all add: rb_inv_def)

lemma keys_sorted_set [simp]: "z \<notin> set_tree t \<Longrightarrow> keys_sorted (set_key z k T) t = keys_sorted T t"
  by (auto simp: keys_sorted_def cong: map_cong) (smt (verit) fun_upd_apply map_cong set_inorder)+

lemma set_content: "set (content T t) = (\<lambda>a. (n_key T a, n_value T a)) ` set_tree t"
  by (simp add: content_def)

lemma rb_put_law:
  assumes "rb_rel s xs" "rb_unused z s"
  shows "\<exists>s'. rb_put z k v s = Some s' \<and> rb_rel s' (kv_put k v xs)"
proof -
  obtain T L where s: "s = (T, L)" by (cases s)
  then obtain t where t: "rb_inv T t" "keys_sorted T t" "content T t = xs" "set_tree t \<subseteq> L" "t_nil T \<in> L" and z: "z \<notin> L"
    using assms by (auto simp: rb_rel_def rb_unused_def)
  let ?T = "set_value z v (set_key z k T)"
  have zt: "z \<notin> set_tree t" using t(4) z by auto
  then have same: "content ?T t = xs" using t(3) by (auto simp: content_def)
  have "rb_inv ?T t" "keys_sorted ?T t" "z \<noteq> t_nil ?T"
    using t zt z same by (auto simp: rb_inv_def keys_sorted_content)
  from rbtree_insert_inserts [OF this zt] obtain T' t' where r: "rbtree_insert z ?T = Some T'" "rb_inv T' t'"
    "keys_sorted T' t'" "same_data ?T T'"
    "if k \<in> n_key ?T ` set_tree t then T' = ?T \<and> t' = t else set_tree t' = insert z (set_tree t)"
    by auto
  have keys: "n_key ?T ` set_tree t = fst ` set xs" using same by (simp add: set_content image_image flip: same)
  have sorted: "kv_sorted xs" using t(2,3) by (simp add: keys_sorted_content)
  have "set (content T' t') = set (kv_put k v xs)"
  proof (cases "k \<in> fst ` set xs")
    case True
    then have "k \<in> n_key ?T ` set_tree t" unfolding keys .
    then have "T' = ?T \<and> t' = t" using r(5) by (simp only: if_True)
    then show ?thesis using True same sorted by (simp add: set_kv_put)
  next
    case False
    then have "k \<notin> n_key ?T ` set_tree t" unfolding keys .
    then have t': "set_tree t' = insert z (set_tree t)" using r(5) by (simp only: if_False)
    have "set (content T' t') = (\<lambda>a. (n_key ?T a, n_value ?T a)) ` insert z (set_tree t)"
      using r(4) by (simp add: set_content t' same_data_def)
    also have "\<dots> = insert (k, v) (set (content ?T t))" by (simp add: set_content)
    finally show ?thesis using False sorted by (simp add: same set_kv_put)
  qed
  then have "content T' t' = kv_put k v xs"
    using r(3) sorted by (intro kv_sorted_unique) (simp_all add: keys_sorted_content kv_put_sorted)
  moreover have "set_tree t' \<subseteq> insert z L" using r(5) t(4) by (auto split: if_splits)
  ultimately show ?thesis using r(1-4) t(5) by (auto simp: s rb_put_def rb_rel_def same_data_def)
qed

lemma rb_search_law:
  assumes "rb_inv T t" "keys_sorted T t"
  shows "\<exists>a. rbtree_search T k = Some a \<and> finds T t k a \<and> (a = t_nil T \<longleftrightarrow> a \<notin> set_tree t)"
proof -
  have at: "tree_at T (t_nil T) (t_root T) t" using assms(1) by (simp add: rb_inv_def rep_def)
  from search_finds [OF this assms(2)] obtain a where "search_loop T k (t_root T) = Some a" "finds T t k a" by blast
  then show ?thesis using tree_at_nil [OF at] by (auto simp: rbtree_search_def finds_def)
qed

lemma rb_get_law:
  assumes "rb_rel s xs"
  shows "rb_get k s = Some (map_of xs k)"
proof -
  obtain T L where s: "s = (T, L)" by (cases s)
  then obtain t where t: "rb_inv T t" "keys_sorted T t" "content T t = xs" using assms by (auto simp: rb_rel_def)
  obtain a where a: "rbtree_search T k = Some a" "finds T t k a" "a = t_nil T \<longleftrightarrow> a \<notin> set_tree t"
    using rb_search_law [OF t(1,2)] by blast
  show ?thesis
  proof (cases "a \<in> set_tree t")
    case True
    then have "(k, n_value T a) \<in> set xs" using a(2,3) t(3) by (auto simp: finds_def set_content simp flip: t(3))
    then have "map_of xs k = Some (n_value T a)" using t(2,3) by (simp add: keys_sorted_content kv_get)
    then show ?thesis using a True by (simp add: s rb_get_def)
  next
    case False
    then have "k \<notin> fst ` set xs" using a(2) t(3) by (auto simp: finds_def set_content simp flip: t(3))
    then have "map_of xs k = None" by (simp add: map_of_eq_None_iff)
    then show ?thesis using a False by (simp add: s rb_get_def)
  qed
qed

lemma rb_drop_law:
  assumes "rb_rel s xs"
  shows "\<exists>s'. rb_drop k s = Some s' \<and> rb_rel s' (kv_drop k xs)"
proof -
  obtain T L where s: "s = (T, L)" by (cases s)
  then obtain t where t: "rb_inv T t" "keys_sorted T t" "content T t = xs" "set_tree t \<subseteq> L" "t_nil T \<in> L"
    using assms by (auto simp: rb_rel_def)
  obtain a where a: "rbtree_search T k = Some a" "finds T t k a" "a = t_nil T \<longleftrightarrow> a \<notin> set_tree t"
    using rb_search_law [OF t(1,2)] by blast
  show ?thesis
  proof (cases "a \<in> set_tree t")
    case True
    then have k: "n_key T a = k" using a by (auto simp: finds_def)
    obtain y T' t' where d: "rbtree_delete a T = Some (y, T')" "rb_inv T' t'" "keys_sorted T' t'" "t_nil T' = t_nil T"
      "content T' t' = kv_drop k xs" "y \<in> set_tree t" "set_tree t' = set_tree t - {y}"
      using rbtree_delete_deletes [OF t(1,2) True] k t(3) by (auto simp: kv_drop_def)
    have "y \<noteq> t_nil T" using d(6) t(1) tree_at_nil by (auto simp: rb_inv_def rep_def)
    then show ?thesis using d a True t(4,5) by (auto simp: s rb_drop_def rb_rel_def)
  next
    case False
    then have "k \<notin> fst ` set xs" using a(2) t(3) by (auto simp: finds_def set_content simp flip: t(3))
    then have "kv_drop k xs = xs" by (force simp: kv_drop_def filter_id_conv)
    then show ?thesis using a False assms by (simp add: s rb_drop_def)
  qed
qed

lemma rb_rel_sorted: "rb_rel s xs \<Longrightarrow> kv_sorted xs"
  by (auto simp: rb_rel_def keys_sorted_content)

interpretation rb: deletable_map rb_rel rb_unused rb_put rb_get rb_drop
  by unfold_locales (fact rb_rel_sorted rb_put_law rb_get_law rb_drop_law)+

lemma rb_rel_new: "rb_rel (rbtree_new nd T, {nd}) []"
  by (auto simp: rb_rel_def rbtree_new_def Let_def rb_inv_def rep_def keys_sorted_def content_def setters
      intro!: exI [of _ Leaf])

subsection \<open>Properties\<close>

text \<open>C5: any sequence of insertions, searches and deletions on a new red-black tree returns, and the
  searches answer as an ordered map does; the tree stays a red-black tree, sorted, with the content of the map.\<close>

theorem rbtree_history:
  assumes "map_allowed rb_unused rb_put rb_drop ops (rbtree_new nd T, {nd})"
  shows "\<exists>T' L t. map_run rb_put rb_drop rb_get ops (rbtree_new nd T, {nd}) = Some (fst (kv_run ops []), (T', L)) \<and>
    rb_inv T' t \<and> keys_sorted T' t \<and> content T' t = snd (kv_run ops [])"
  using rb.run_simulates [OF rb_rel_new assms] by (auto simp: rb_rel_def)

text \<open>Put 5, 3 and 8 into the tree, ask, take 5 out, ask again.\<close>

definition some_rbtree :: rbtree where
  "some_rbtree = \<lparr>t_root = 0, t_nil = 0, n_color = \<lambda>_. 0, n_right = \<lambda>_. 7, n_left = \<lambda>_. 7, n_parent = \<lambda>_. 7,
     n_key = \<lambda>_. 0, n_value = \<lambda>_. 0\<rparr>"

lemma rbtree_history_witness:
  "map_run rb_put rb_drop rb_get [Put 1 5 50, Put 2 3 30, Put 3 8 80, Get 5, Drop 5, Get 5, Get 8]
     (rbtree_new 9 some_rbtree, {9}) \<noteq> None"
proof -
  have "map_allowed rb_unused rb_put rb_drop [Put 1 5 50, Put 2 3 30, Put 3 8 80, Get 5, Drop 5, Get 5, Get 8]
     (rbtree_new 9 some_rbtree, {9})"
    by code_simp
  from rbtree_history [OF this] show ?thesis by auto
qed

text \<open>C23: inserting a node that is not in a red-black tree keeps it one, sorted, with every key and value in
  place; the node is added unless its key is there, and then the tree is the one before.\<close>

theorem rbtree_insert_correct:
  assumes "rb_inv T t" "keys_sorted T t" "z \<noteq> t_nil T" "z \<notin> set_tree t"
  shows "\<exists>T' t'. rbtree_insert z T = Some T' \<and> rb_inv T' t' \<and> keys_sorted T' t' \<and> n_key T' = n_key T \<and>
    n_value T' = n_value T \<and>
    (if n_key T z \<in> n_key T ` set_tree t then T' = T \<and> t' = t else set_tree t' = insert z (set_tree t))"
  using rbtree_insert_inserts [OF assms] by (fastforce simp: same_data_def)

definition tree_of_two :: rbtree where
  "tree_of_two = the (do { T \<leftarrow> rbtree_insert 1 (set_key 1 5 (rbtree_new 9 some_rbtree)); rbtree_insert 2 (set_key 2 3 T) })"

lemma tree_of_two:
  "rb_inv tree_of_two (Node (Node Leaf 2 Leaf) 1 Leaf)" "keys_sorted tree_of_two (Node (Node Leaf 2 Leaf) 1 Leaf)"
proof -
  have T: "t_root tree_of_two = 1 \<and> t_nil tree_of_two = 9 \<and> n_left tree_of_two 1 = 2 \<and> n_right tree_of_two 1 = 9 \<and>
    n_left tree_of_two 2 = 9 \<and> n_right tree_of_two 2 = 9 \<and> n_parent tree_of_two 1 = 9 \<and> n_parent tree_of_two 2 = 1"
    "n_color tree_of_two 9 = BLACK \<and> n_color tree_of_two 1 = BLACK \<and> n_color tree_of_two 2 = RED \<and>
    n_key tree_of_two 1 = 5 \<and> n_key tree_of_two 2 = 3"
    by code_simp+
  show "rb_inv tree_of_two (Node (Node Leaf 2 Leaf) 1 Leaf)" using T by (simp add: rb_inv_def rep_def)
  show "keys_sorted tree_of_two (Node (Node Leaf 2 Leaf) 1 Leaf)" using T by (simp add: keys_sorted_def)
qed

lemma rbtree_insert_correct_witness:
  "\<exists>T' t'. rbtree_insert 3 (set_key 3 7 tree_of_two) = Some T' \<and> rb_inv T' t' \<and> 3 \<in> set_tree t'"
proof -
  have "rb_inv (set_key 3 7 tree_of_two) (Node (Node Leaf 2 Leaf) 1 Leaf)"
    "keys_sorted (set_key 3 7 tree_of_two) (Node (Node Leaf 2 Leaf) 1 Leaf)"
    using tree_of_two by simp_all
  moreover have "3 \<noteq> t_nil (set_key 3 7 tree_of_two) \<and> n_key tree_of_two 1 = 5 \<and> n_key tree_of_two 2 = 3" by code_simp
  ultimately show ?thesis
    using rbtree_insert_correct [of "set_key 3 7 tree_of_two" "Node (Node Leaf 2 Leaf) 1 Leaf" 3] by auto
qed

text \<open>deleting a node takes exactly its key and value out, keeps the red-black tree, and returns a node that
  is no longer in the tree, which holds all the others.\<close>

theorem rbtree_delete_correct:
  assumes "rb_inv T t" "keys_sorted T t" "z \<in> set_tree t"
  shows "\<exists>y T' t'. rbtree_delete z T = Some (y, T') \<and> rb_inv T' t' \<and> keys_sorted T' t' \<and>
    content T' t' = filter (\<lambda>(k, v). k \<noteq> n_key T z) (content T t) \<and> y \<in> set_tree t \<and> set_tree t' = set_tree t - {y}"
  using rbtree_delete_deletes [OF assms] by blast

lemma rbtree_delete_correct_witness:
  "\<exists>y T' t'. rbtree_delete 1 tree_of_two = Some (y, T') \<and> rb_inv T' t' \<and> set_tree t' = {1, 2} - {y}"
proof -
  have "set_tree (Node (Node Leaf 2 Leaf) 1 Leaf) = {1, 2 :: nat}" by auto
  then show ?thesis
    using rbtree_delete_correct [OF tree_of_two, of 1] by fastforce
qed



lemma next_in_list:
  assumes "distinct xs" "xs = ps @ x # qs" "i < length xs" "xs ! i = x"
  shows "hd (qs @ [d]) = (if Suc i < length xs then xs ! Suc i else d)"
proof -
  have "xs ! length ps = x" "length ps < length xs" using assms(2) by simp_all
  then have "i = length ps" using assms(1,3,4) nth_eq_iff_index_eq by metis
  then show ?thesis using assms(2) by (cases qs) (auto simp: nth_append)
qed

lemma successor_in_order:
  assumes "rep T t" "i < length (inorder t)"
  shows "rbtree_successor T (inorder t ! i) = Some (if Suc i < length (inorder t) then inorder t ! Suc i else t_nil T)"
proof -
  have "inorder t ! i \<in> set_tree t" using assms(2) by (metis nth_mem set_inorder)
  then obtain C l r where t: "t = plug C (Node l (inorder t ! i) r)" using position by blast
  have "rbtree_successor T (inorder t ! i) = Some (hd (inorder r @ ctx_post C @ [t_nil T]))"
    using successor_next [of T C l "inorder t ! i" r] assms(1) t by simp
  moreover have "inorder t = (ctx_pre C @ inorder l) @ inorder t ! i # (inorder r @ ctx_post C)"
    using arg_cong [OF t, of inorder] by simp
  from next_in_list [OF _ this assms(2) refl, of "t_nil T"] assms(1)
  have "hd ((inorder r @ ctx_post C) @ [t_nil T]) = (if Suc i < length (inorder t) then inorder t ! Suc i else t_nil T)"
    by (simp add: rep_def)
  ultimately show ?thesis by simp
qed

text \<open>the search finds the node of a key or the sentinel, the minimum, the maximum and the successor are those
  in order, and the traversal prints the keys ascending.\<close>

theorem rbtree_walks:
  assumes "rb_inv T t" "keys_sorted T t"
  shows "(\<exists>a. rbtree_search T k = Some a \<and> ((a \<in> set_tree t \<and> n_key T a = k) \<or> (a = t_nil T \<and> k \<notin> n_key T ` set_tree t))) \<and>
    rbtree_traversal T (t_root T) = Some (map (\<lambda>a. (n_key T a, n_color T a)) (inorder t)) \<and>
    (t \<noteq> Leaf \<longrightarrow> rbtree_mini T (t_root T) = Some (hd (inorder t)) \<and> rbtree_maxi T (t_root T) = Some (last (inorder t))) \<and>
    (\<forall>i < length (inorder t). rbtree_successor T (inorder t ! i) =
       Some (if Suc i < length (inorder t) then inorder t ! Suc i else t_nil T))"
proof (intro conjI)
  have rep: "rep T t" and at: "tree_at T (t_nil T) (t_root T) t" using assms(1) by (simp_all add: rb_inv_def rep_def)
  show "\<exists>a. rbtree_search T k = Some a \<and> ((a \<in> set_tree t \<and> n_key T a = k) \<or> (a = t_nil T \<and> k \<notin> n_key T ` set_tree t))"
    using rb_search_law [OF assms] by (auto simp: finds_def)
  show "rbtree_traversal T (t_root T) = Some (map (\<lambda>a. (n_key T a, n_color T a)) (inorder t))"
    by (rule traversal_inorder [OF at])
  show "t \<noteq> Leaf \<longrightarrow> rbtree_mini T (t_root T) = Some (hd (inorder t)) \<and> rbtree_maxi T (t_root T) = Some (last (inorder t))"
    using leftmost [OF at] rightmost [OF at] by fastforce
  show "\<forall>i < length (inorder t). rbtree_successor T (inorder t ! i) =
       Some (if Suc i < length (inorder t) then inorder t ! Suc i else t_nil T)"
    using successor_in_order [OF rep] by simp
qed

lemma rbtree_walks_witness:
  "rbtree_traversal tree_of_two (t_root tree_of_two) =
     Some (map (\<lambda>a. (n_key tree_of_two a, n_color tree_of_two a)) [2, 1])"
  using rbtree_walks [OF tree_of_two] by simp

end
