(* ===== verification/Byte_Heap.thy ===== *)
theory Byte_Heap
  imports Prelude
begin

text \<open>
  Memory as C's allocator sees it: bytes, the regions that are allocated, pointers of eight bytes in
  little-endian order.  An access outside the allocated regions, and a \<open>free\<close> of what \<open>malloc\<close> did not
  return, is undefined: \<open>None\<close>.  Where \<open>malloc\<close> puts a region is a parameter.
\<close>

record heap =
  h_bytes :: "nat \<Rightarrow> u8"
  h_live :: "(nat \<times> nat) set"

definition accessible :: "heap \<Rightarrow> nat \<Rightarrow> nat \<Rightarrow> bool" where
  "accessible h p n \<longleftrightarrow> (\<exists>(b, s)\<in>h_live h. b \<le> p \<and> p + n \<le> b + s)"

subsection \<open>Pointers in memory\<close>

fun digits_at :: "(nat \<Rightarrow> u8) \<Rightarrow> nat \<Rightarrow> nat \<Rightarrow> nat" where
  "digits_at m p 0 = 0"
| "digits_at m p (Suc n) = unat (m p) + 256 * digits_at m (Suc p) n"

definition ptr_at :: "(nat \<Rightarrow> u8) \<Rightarrow> nat \<Rightarrow> nat" where
  "ptr_at m p = digits_at m p 8"

definition put_ptr :: "nat \<Rightarrow> nat \<Rightarrow> (nat \<Rightarrow> u8) \<Rightarrow> (nat \<Rightarrow> u8)" where
  "put_ptr p v m = (\<lambda>x. if p \<le> x \<and> x < p + 8 then of_nat (v div 256 ^ (x - p)) else m x)"

lemma digits_at_cong: "(\<And>x. p \<le> x \<Longrightarrow> x < p + n \<Longrightarrow> m x = m' x) \<Longrightarrow> digits_at m p n = digits_at m' p n"
proof (induction n arbitrary: p)
  case (Suc n)
  have "digits_at m (Suc p) n = digits_at m' (Suc p) n" by (rule Suc.IH) (use Suc.prems in auto)
  then show ?case using Suc.prems [of p] by simp
qed simp

lemma digits_at_value:
  "(\<And>i. i < n \<Longrightarrow> m (p + i) = of_nat (v div 256 ^ i)) \<Longrightarrow> digits_at m p n = v mod 256 ^ n"
proof (induction n arbitrary: p v)
  case (Suc n)
  have "digits_at m (Suc p) n = (v div 256) mod 256 ^ n"
  proof (rule Suc.IH)
    fix i assume "i < n"
    then show "m (Suc p + i) = of_nat (v div 256 div 256 ^ i)" using Suc.prems [of "Suc i"] by (simp add: div_mult2_eq)
  qed
  moreover have "unat (m p) = v mod 256" using Suc.prems [of 0] by (simp add: unat_of_nat take_bit_eq_mod)
  moreover have "v mod 256 ^ Suc n = v mod 256 + 256 * (v div 256 mod 256 ^ n)"
    using mod_mult2_eq [of v 256 "256 ^ n"] by (simp add: mult.commute)
  ultimately show ?case by simp
qed simp

lemma ptr_at_put [simp]: "v < 2 ^ 64 \<Longrightarrow> ptr_at (put_ptr p v m) p = v"
  unfolding ptr_at_def by (subst digits_at_value [where v = v]) (auto simp: put_ptr_def)

lemma ptr_at_cong: "(\<And>x. p \<le> x \<Longrightarrow> x < p + 8 \<Longrightarrow> m x = m' x) \<Longrightarrow> ptr_at m p = ptr_at m' p"
  unfolding ptr_at_def by (rule digits_at_cong)

lemma ptr_at_other [simp]: "q + 8 \<le> p \<or> p + 8 \<le> q \<Longrightarrow> ptr_at (put_ptr q v m) p = ptr_at m p"
  by (rule ptr_at_cong) (auto simp: put_ptr_def)

definition read_ptr :: "nat \<Rightarrow> heap \<Rightarrow> nat option" where
  "read_ptr p h = (if accessible h p 8 then Some (ptr_at (h_bytes h) p) else None)"

definition write_ptr :: "nat \<Rightarrow> nat \<Rightarrow> heap \<Rightarrow> heap option" where
  "write_ptr p v h = (if accessible h p 8 then Some (h\<lparr>h_bytes := put_ptr p v (h_bytes h)\<rparr>) else None)"

definition write_byte :: "nat \<Rightarrow> u8 \<Rightarrow> heap \<Rightarrow> heap option" where
  "write_byte p v h = (if accessible h p 1 then Some (h\<lparr>h_bytes := (h_bytes h)(p := v)\<rparr>) else None)"

lemma accessible_bytes [simp]: "accessible (h\<lparr>h_bytes := m\<rparr>) p n = accessible h p n"
  by (simp add: accessible_def)

subsection \<open>Allocation\<close>

type_synonym allocator = "heap \<Rightarrow> nat \<Rightarrow> nat"

text \<open>The regions are apart and below \<open>2 ^ 64\<close>.\<close>

definition apart :: "nat \<times> nat \<Rightarrow> nat \<times> nat \<Rightarrow> bool" where
  "apart r r' \<longleftrightarrow> fst r + snd r \<le> fst r' \<or> fst r' + snd r' \<le> fst r"

definition regions_ok :: "(nat \<times> nat) set \<Rightarrow> bool" where
  "regions_ok S \<longleftrightarrow> (\<forall>r\<in>S. 0 < fst r \<and> 0 < snd r \<and> fst r + snd r < 2 ^ 64) \<and>
     (\<forall>r\<in>S. \<forall>r'\<in>S. r \<noteq> r' \<longrightarrow> apart r r')"

definition heap_ok :: "heap \<Rightarrow> bool" where
  "heap_ok h \<longleftrightarrow> regions_ok (h_live h)"

lemma apart_sym: "apart r r' \<longleftrightarrow> apart r' r"
  by (auto simp: apart_def)

lemma regions_ok_insert:
  "regions_ok S \<Longrightarrow> 0 < fst r \<Longrightarrow> 0 < snd r \<Longrightarrow> fst r + snd r < 2 ^ 64 \<Longrightarrow> (\<And>r'. r' \<in> S \<Longrightarrow> apart r r') \<Longrightarrow>
   regions_ok (insert r S)"
  unfolding regions_ok_def by (metis apart_sym insert_iff)

lemma regions_ok_subset: "regions_ok S \<Longrightarrow> S' \<subseteq> S \<Longrightarrow> regions_ok S'"
  unfolding regions_ok_def by (meson subsetD)

text \<open>What C promises of \<open>malloc\<close>: a null pointer, or a region apart from those in use.\<close>

definition malloc_fresh :: "allocator \<Rightarrow> bool" where
  "malloc_fresh sys \<longleftrightarrow> (\<forall>h n. 0 < n \<longrightarrow> sys h n \<noteq> 0 \<longrightarrow>
     sys h n + n < 2 ^ 64 \<and> (\<forall>r\<in>h_live h. apart (sys h n, n) r))"

definition c_malloc :: "allocator \<Rightarrow> nat \<Rightarrow> heap \<Rightarrow> nat \<times> heap" where
  "c_malloc sys n h =
     (let p = sys h n in (p, if p = 0 then h else h\<lparr>h_live := insert (p, n) (h_live h)\<rparr>))"

definition c_free :: "nat \<Rightarrow> heap \<Rightarrow> heap option" where
  "c_free p h =
     (if p = 0 then Some h
      else if p \<in> fst ` h_live h then Some (h\<lparr>h_live := {r \<in> h_live h. fst r \<noteq> p}\<rparr>) else None)"

lemma heap_ok_malloc:
  assumes "heap_ok h" "malloc_fresh sys" "c_malloc sys n h = (p, h')" "0 < n"
  shows "heap_ok h'"
proof (cases "p = 0")
  case False
  then have "h_live h' = insert (p, n) (h_live h)" "p + n < 2 ^ 64" "\<forall>r\<in>h_live h. apart (p, n) r"
    using assms(2-4) by (auto simp: c_malloc_def malloc_fresh_def Let_def)
  then show ?thesis using assms(1,4) False unfolding heap_ok_def by (auto intro!: regions_ok_insert)
qed (use assms in \<open>auto simp: c_malloc_def Let_def\<close>)

lemma heap_ok_free: "heap_ok h \<Longrightarrow> c_free p h = Some h' \<Longrightarrow> heap_ok h'"
  by (auto simp: heap_ok_def c_free_def split: if_splits elim: regions_ok_subset)

lemma heap_ok_bytes [simp]: "heap_ok (h\<lparr>h_bytes := m\<rparr>) = heap_ok h"
  by (simp add: heap_ok_def)

lemma live_apart: "heap_ok h \<Longrightarrow> r \<in> h_live h \<Longrightarrow> r' \<in> h_live h \<Longrightarrow> r \<noteq> r' \<Longrightarrow> apart r r'"
  unfolding heap_ok_def regions_ok_def by blast

lemma live_positive: "heap_ok h \<Longrightarrow> (b, s) \<in> h_live h \<Longrightarrow> 0 < b \<and> 0 < s \<and> b + s < 2 ^ 64"
  unfolding heap_ok_def regions_ok_def by fastforce

lemma live_base: "heap_ok h \<Longrightarrow> (b, s) \<in> h_live h \<Longrightarrow> (b, s') \<in> h_live h \<Longrightarrow> s = s'"
  using live_apart [of h "(b, s)" "(b, s')"] live_positive [of h b s] live_positive [of h b s'] by (auto simp: apart_def)

subsection \<open>The int of the C code\<close>

text \<open>Signed arithmetic of 32 bits is undefined when it overflows; a conversion wraps.\<close>

definition s32 :: "int \<Rightarrow> int option" where
  "s32 i = (if - (2 ^ 31) \<le> i \<and> i < 2 ^ 31 then Some i else None)"

definition to_int32 :: "int \<Rightarrow> int" where
  "to_int32 i = sint (word_of_int i :: u32)"

definition to_size :: "int \<Rightarrow> nat" where
  "to_size i = unat (word_of_int i :: u64)"

lemma to_int32_id: "- (2 ^ 31) \<le> i \<Longrightarrow> i < 2 ^ 31 \<Longrightarrow> to_int32 i = i"
  by (simp add: to_int32_def sint_word_ariths signed_take_bit_int_eq_self signed_of_int)

lemma to_size_id: "0 \<le> i \<Longrightarrow> i < 2 ^ 64 \<Longrightarrow> to_size i = nat i"
  by (simp add: to_size_def unsigned_of_int take_bit_int_eq_self)

subsection \<open>An allocator\<close>

text \<open>A system allocator that puts a region behind all others.\<close>

definition next_free :: allocator where
  "next_free h n = (let p = Max (insert 4096 ((\<lambda>r. fst r + snd r) ` h_live h)) in if p + n < 2 ^ 64 then p else 0)"

definition finite_next_free :: allocator where
  "finite_next_free h n = (if finite (h_live h) then next_free h n else 0)"

lemma finite_next_free: "malloc_fresh finite_next_free"
  unfolding malloc_fresh_def
proof (intro allI impI)
  fix h n
  assume n: "0 < (n :: nat)" and nz: "finite_next_free h n \<noteq> 0"
  let ?p = "finite_next_free h n"
  have fin: "finite (h_live h)" and p: "?p = Max (insert 4096 ((\<lambda>r. fst r + snd r) ` h_live h))" "?p + n < 2 ^ 64"
    using nz by (auto simp: finite_next_free_def next_free_def Let_def split: if_splits)
  have "fst r + snd r \<le> ?p" if "r \<in> h_live h" for r
    unfolding p(1) using fin that by (intro Max_ge) auto
  then show "?p + n < 2 ^ 64 \<and> (\<forall>r\<in>h_live h. apart (?p, n) r)" using p(2) by (auto simp: apart_def)
qed

definition empty_heap :: heap where
  "empty_heap = \<lparr>h_bytes = \<lambda>_. 0, h_live = {}\<rparr>"

end
