(* ===== verification/Mem_Pool.thy ===== *)
theory Mem_Pool
  imports Byte_Heap "HOL-Library.Signed_Division"
begin

text \<open>
  The growing memory pool of \<open>vpn/com_lib/mem_lib/mem_pool.h\<close>: pages of equal blocks, a free list threaded
  through the blocks themselves, and a header behind the blocks of each page.  The pool's own fields are
  a record; \<open>None\<close> in place of the pool is the null pointer.  A block or a page is its address.
\<close>

text \<open>\<open>mem_page_s\<close>: three pointers in memory.\<close>

definition mem_page_end :: "nat \<Rightarrow> nat" where "mem_page_end page = page + 8"
definition mem_page_next :: "nat \<Rightarrow> nat" where "mem_page_next page = page + 16"
definition sizeof_mem_page :: int where "sizeof_mem_page = 24"

record mem_pool =
  block_size :: int
  block_total :: int
  auto_increment :: int
  free_count :: int
  free_ptr :: nat
  mm :: nat

subsection \<open>Pages\<close>

text \<open>The loop that threads the free list through a new page.\<close>

fun link_blocks :: "nat \<Rightarrow> nat \<Rightarrow> nat \<Rightarrow> heap \<Rightarrow> (nat \<times> heap) option" where
  "link_blocks 0 ptr1 bs h = Some (ptr1, h)"
| "link_blocks (Suc n) ptr1 bs h = do {
     h \<leftarrow> write_ptr ptr1 (ptr1 + bs) h;
     link_blocks n (ptr1 + bs) bs h }"

definition malloc_mem_page :: "allocator \<Rightarrow> int \<Rightarrow> int \<Rightarrow> heap \<Rightarrow> (nat \<times> heap) option" where
  "malloc_mem_page sys bsz block_count h = do {
     product \<leftarrow> s32 (bsz * block_count);
     let mem_page_size = to_int32 (product + sizeof_mem_page);
     let (ptr, h) = c_malloc sys (to_size mem_page_size) h;
     if ptr = 0 then Some (0, h)
     else do {
       let page = ptr + nat product;
       h \<leftarrow> write_ptr page ptr h;
       h \<leftarrow> write_ptr (mem_page_end page) page h;
       h \<leftarrow> write_ptr (mem_page_next page) 0 h;
       ptr1 \<leftarrow> read_ptr page h;
       (ptr1, h) \<leftarrow> link_blocks (nat (block_count - 1)) ptr1 (nat bsz) h;
       h \<leftarrow> write_ptr ptr1 0 h;
       Some (page, h) } }"

subsection \<open>The pool\<close>

text \<open>
  The result of \<open>create_mem_pool\<close> is the code returned, the pool and the heap.  On the error paths the pool
  keeps what was assigned before.
\<close>

definition create_mem_pool ::
  "allocator \<Rightarrow> mem_pool option \<Rightarrow> int \<Rightarrow> int \<Rightarrow> int \<Rightarrow> heap \<Rightarrow> (int \<times> mem_pool option \<times> heap) option" where
  "create_mem_pool sys pool bsz block_count increment h =
     (case pool of
        None \<Rightarrow> Some (- 1, None, h)
      | Some P \<Rightarrow>
          if bsz \<le> 0 \<or> block_count \<le> 0 then Some (- 1, Some P, h)
          else do {
            let P = P\<lparr>block_size := bsz, auto_increment := increment, free_count := block_count,
              block_total := block_count\<rparr>;
            (page, h) \<leftarrow> malloc_mem_page sys bsz block_count h;
            if page = 0 then Some (- 1, Some P, h)
            else do {
              let P = P\<lparr>mm := page\<rparr>;
              beg \<leftarrow> read_ptr page h;
              Some (0, Some (P\<lparr>free_ptr := beg\<rparr>), h) } })"

partial_function (option) destroy_pages :: "nat \<Rightarrow> heap \<Rightarrow> heap option" where
  "destroy_pages page h =
     (if page \<noteq> 0 then do {
        nxt \<leftarrow> read_ptr (mem_page_next page) h;
        beg \<leftarrow> read_ptr page h;
        h \<leftarrow> c_free beg h;
        destroy_pages nxt h }
      else Some h)"

definition destroy_mem_pool :: "mem_pool option \<Rightarrow> heap \<Rightarrow> (mem_pool option \<times> heap) option" where
  "destroy_mem_pool pool h =
     (case pool of
        None \<Rightarrow> Some (None, h)
      | Some P \<Rightarrow> do {
          h \<leftarrow> destroy_pages (mm P) h;
          Some (Some (P\<lparr>mm := 0, free_ptr := 0, free_count := 0, block_size := 0, auto_increment := 0\<rparr>), h) })"

definition malloc_mem_pool :: "allocator \<Rightarrow> mem_pool option \<Rightarrow> heap \<Rightarrow> (nat \<times> mem_pool option \<times> heap) option" where
  "malloc_mem_pool sys pool h =
     (case pool of
        None \<Rightarrow> Some (0, None, h)
      | Some P \<Rightarrow> do {
          grown \<leftarrow>
            (if free_ptr P = 0 then
               if auto_increment P \<le> 0 then Some None
               else do {
                 (page, h) \<leftarrow> malloc_mem_page sys (block_size P) (auto_increment P) h;
                 if page = 0 then Some None
                 else do {
                   h \<leftarrow> write_ptr (mem_page_next page) (mm P) h;
                   beg \<leftarrow> read_ptr page h;
                   count \<leftarrow> s32 (free_count P + auto_increment P);
                   total \<leftarrow> s32 (block_total P + auto_increment P);
                   Some (Some (P\<lparr>mm := page, free_ptr := beg, free_count := count, block_total := total\<rparr>, h)) } }
             else Some (Some (P, h)));
          case grown of
            None \<Rightarrow> Some (0, Some P, h)
          | Some (P, h) \<Rightarrow> do {
              let ptr = free_ptr P;
              nxt \<leftarrow> read_ptr ptr h;
              count \<leftarrow> s32 (free_count P - 1);
              Some (ptr, Some (P\<lparr>free_ptr := nxt, free_count := count\<rparr>), h) } })"

partial_function (option) free_walk :: "mem_pool \<Rightarrow> nat \<Rightarrow> nat \<Rightarrow> heap \<Rightarrow> (mem_pool \<times> heap) option" where
  "free_walk P ptr page h =
     (if page \<noteq> 0 then do {
        beg \<leftarrow> read_ptr page h;
        end \<leftarrow> read_ptr (mem_page_end page) h;
        if beg \<le> ptr \<and> ptr < end then do {
          let offset = to_int32 (int ptr - int beg);
          if offset smod block_size P = 0 then do {
            h \<leftarrow> write_ptr ptr (free_ptr P) h;
            count \<leftarrow> s32 (free_count P + 1);
            Some (P\<lparr>free_ptr := ptr, free_count := count\<rparr>, h) }
          else Some (P, h) }
        else do {
          nxt \<leftarrow> read_ptr (mem_page_next page) h;
          free_walk P ptr nxt h } }
      else Some (P, h))"

definition free_mem_pool :: "mem_pool option \<Rightarrow> nat \<Rightarrow> heap \<Rightarrow> (mem_pool option \<times> heap) option" where
  "free_mem_pool pool ptr h =
     (case pool of
        None \<Rightarrow> Some (None, h)
      | Some P \<Rightarrow>
          if ptr = 0 then Some (Some P, h)
          else do {
            (P, h) \<leftarrow> free_walk P ptr (mm P) h;
            Some (Some P, h) })"

declare destroy_pages.simps [code] free_walk.simps [code]

subsection \<open>The state of a pool\<close>

fun chain :: "(nat \<Rightarrow> u8) \<Rightarrow> nat \<Rightarrow> nat list \<Rightarrow> bool" where
  "chain m p [] \<longleftrightarrow> p = 0"
| "chain m p (b # bs) \<longleftrightarrow> p = b \<and> b \<noteq> 0 \<and> chain m (ptr_at m b) bs"

text \<open>A page is its first block and the number of its blocks.\<close>

definition header :: "nat \<Rightarrow> nat \<times> nat \<Rightarrow> nat" where
  "header bs pg = fst pg + bs * snd pg"

fun page_chain :: "nat \<Rightarrow> (nat \<Rightarrow> u8) \<Rightarrow> nat \<Rightarrow> (nat \<times> nat) list \<Rightarrow> bool" where
  "page_chain bs m p [] \<longleftrightarrow> p = 0"
| "page_chain bs m p (pg # pgs) \<longleftrightarrow> p = header bs pg \<and> p \<noteq> 0 \<and> ptr_at m p = fst pg \<and> ptr_at m (p + 8) = p \<and>
     page_chain bs m (ptr_at m (p + 16)) pgs"

definition page_region :: "nat \<Rightarrow> nat \<times> nat \<Rightarrow> nat \<times> nat" where
  "page_region bs pg = (fst pg, bs * snd pg + 24)"

definition page_blocks :: "nat \<Rightarrow> nat \<times> nat \<Rightarrow> nat list" where
  "page_blocks bs pg = map (\<lambda>i. fst pg + i * bs) [0..<snd pg]"

definition blocks :: "nat \<Rightarrow> (nat \<times> nat) list \<Rightarrow> nat list" where
  "blocks bs pgs = concat (map (page_blocks bs) pgs)"

definition pages_ok :: "nat \<Rightarrow> heap \<Rightarrow> (nat \<times> nat) list \<Rightarrow> bool" where
  "pages_ok bs h pgs \<longleftrightarrow> heap_ok h \<and> 8 \<le> bs \<and> distinct (map fst pgs) \<and>
     (\<forall>pg\<in>set pgs. page_region bs pg \<in> h_live h \<and> 0 < snd pg \<and> bs * snd pg + 24 < 2 ^ 31)"

text \<open>The pool owns the pages \<open>pgs\<close>; its free list is \<open>fl\<close>, and the client holds the blocks in \<open>U\<close>.\<close>

definition pool_ok :: "mem_pool \<Rightarrow> heap \<Rightarrow> (nat \<times> nat) list \<Rightarrow> nat list \<Rightarrow> nat set \<Rightarrow> bool" where
  "pool_ok P h pgs fl U \<longleftrightarrow> 0 < block_size P \<and> pages_ok (nat (block_size P)) h pgs \<and>
     page_chain (nat (block_size P)) (h_bytes h) (mm P) pgs \<and> chain (h_bytes h) (free_ptr P) fl \<and> distinct fl \<and>
     set fl \<inter> U = {} \<and> set fl \<union> U = set (blocks (nat (block_size P)) pgs) \<and>
     free_count P = int (length fl) \<and> block_total P = int (length (blocks (nat (block_size P)) pgs)) \<and>
     block_total P < 2 ^ 31"

end
