(* ===== verification/Mem_Pool_Laws.thy ===== *)
theory Mem_Pool_Laws
  imports Mem_Pool
begin

text \<open>
  The pool keeps its state and hands out each block to one holder: the geometry of pages and blocks, what
  writes leave alone, and the laws of the operations.
\<close>

subsection \<open>Geometry\<close>

lemma in_page_blocks: "b \<in> set (page_blocks bs pg) \<longleftrightarrow> (\<exists>i < snd pg. b = fst pg + i * bs)"
  by (auto simp: page_blocks_def)

lemma in_blocks: "b \<in> set (blocks bs pgs) \<longleftrightarrow> (\<exists>pg\<in>set pgs. b \<in> set (page_blocks bs pg))"
  by (auto simp: blocks_def)

lemma blocks_simps [simp]: "blocks bs [] = []" "blocks bs (pg # pgs) = page_blocks bs pg @ blocks bs pgs"
  by (simp_all add: blocks_def)

lemma length_page_blocks [simp]: "length (page_blocks bs pg) = snd pg"
  by (simp add: page_blocks_def)

lemma page_block_within: "b \<in> set (page_blocks bs pg) \<Longrightarrow> fst pg \<le> b \<and> b + bs \<le> header bs pg"
  by (auto simp: in_page_blocks header_def) (metis Suc_leI add.commute add_mult_distrib mult.commute mult_le_mono2 mult_Suc)

lemma page_blocks_apart:
  "b \<in> set (page_blocks bs pg) \<Longrightarrow> b' \<in> set (page_blocks bs pg) \<Longrightarrow> b < b' \<Longrightarrow> b + bs \<le> b'"
proof -
  assume "b \<in> set (page_blocks bs pg)" "b' \<in> set (page_blocks bs pg)" "b < b'"
  then obtain i j where ij: "b = fst pg + i * bs" "b' = fst pg + j * bs" "i * bs < j * bs" by (auto simp: in_page_blocks)
  then have "Suc i \<le> j" by (simp add: Suc_le_eq)
  then have "Suc i * bs \<le> j * bs" by (rule mult_le_mono1)
  then show ?thesis using ij by simp
qed

lemma page_region_simps: "fst (page_region bs pg) = fst pg" "fst pg + snd (page_region bs pg) = header bs pg + 24"
  by (simp_all add: page_region_def header_def)

lemma pages_apart:
  assumes "pages_ok bs h pgs" "pg \<in> set pgs" "pg' \<in> set pgs" "pg \<noteq> pg'"
  shows "header bs pg + 24 \<le> fst pg' \<or> header bs pg' + 24 \<le> fst pg"
proof -
  have "fst pg \<noteq> fst pg'" using assms by (auto simp: pages_ok_def distinct_map inj_on_def)
  then have "page_region bs pg \<noteq> page_region bs pg'" by (auto simp: page_region_def)
  moreover have "heap_ok h" "page_region bs pg \<in> h_live h" "page_region bs pg' \<in> h_live h"
    using assms(1-3) by (simp_all add: pages_ok_def)
  ultimately have "apart (page_region bs pg) (page_region bs pg')" by (intro live_apart)
  then show ?thesis by (auto simp: apart_def page_region_simps)
qed

lemma blocks_apart:
  assumes "pages_ok bs h pgs" "b \<in> set (blocks bs pgs)" "b' \<in> set (blocks bs pgs)" "b \<noteq> b'"
  shows "b + bs \<le> b' \<or> b' + bs \<le> b"
proof -
  obtain pg pg' where pg: "pg \<in> set pgs" "b \<in> set (page_blocks bs pg)" "pg' \<in> set pgs" "b' \<in> set (page_blocks bs pg')"
    using assms(2,3) by (auto simp: in_blocks)
  show ?thesis
  proof (cases "pg = pg'")
    case True
    then show ?thesis using pg assms(4) page_blocks_apart by (metis nat_neq_iff)
  next
    case False
    then show ?thesis
      using pages_apart [OF assms(1) pg(1,3)] page_block_within [OF pg(2)] page_block_within [OF pg(4)] by linarith
  qed
qed

lemma block_header_apart:
  assumes "pages_ok bs h pgs" "b \<in> set (blocks bs pgs)" "pg \<in> set pgs"
  shows "b + bs \<le> header bs pg \<or> header bs pg + 24 \<le> b"
proof -
  obtain pg' where pg: "pg' \<in> set pgs" "b \<in> set (page_blocks bs pg')" using assms(2) by (auto simp: in_blocks)
  have "fst pg \<le> header bs pg" by (simp add: header_def)
  then show ?thesis
    using pages_apart [OF assms(1) pg(1) assms(3)] page_block_within [OF pg(2)] by (cases "pg' = pg") auto
qed

lemma page_accessible:
  assumes "pages_ok bs h pgs" "pg \<in> set pgs" "fst pg \<le> p" "p + n \<le> header bs pg + 24"
  shows "accessible h p n"
  using assms by (auto simp: accessible_def pages_ok_def page_region_def header_def intro!: bexI [of _ "page_region bs pg"])

lemma block_accessible:
  assumes "pages_ok bs h pgs" "b \<in> set (blocks bs pgs)" "n \<le> bs"
  shows "accessible h b n"
proof -
  obtain pg where pg: "pg \<in> set pgs" "b \<in> set (page_blocks bs pg)" using assms(2) by (auto simp: in_blocks)
  show ?thesis using page_block_within [OF pg(2)] assms(3) by (intro page_accessible [OF assms(1) pg(1)]) auto
qed

lemma block_bounds:
  assumes "pages_ok bs h pgs" "b \<in> set (blocks bs pgs)"
  shows "0 < b" "b + bs < 2 ^ 64"
proof -
  obtain pg where pg: "pg \<in> set pgs" "b \<in> set (page_blocks bs pg)" using assms(2) by (auto simp: in_blocks)
  have "0 < fst pg \<and> header bs pg + 24 < 2 ^ 64"
    using assms(1) pg(1) live_positive [of h "fst pg" "bs * snd pg + 24"]
    by (auto simp: pages_ok_def page_region_def header_def)
  then show "0 < b" "b + bs < 2 ^ 64" using page_block_within [OF pg(2)] by auto
qed

lemma header_bounds:
  assumes "pages_ok bs h pgs" "pg \<in> set pgs"
  shows "0 < fst pg" "0 < header bs pg" "header bs pg + 24 < 2 ^ 64"
  using assms live_positive [of h "fst pg" "bs * snd pg + 24"]
  by (auto simp: pages_ok_def page_region_def header_def)

subsection \<open>What writes leave alone\<close>

lemma chain_frame:
  "(\<And>b x. b \<in> set l \<Longrightarrow> b \<le> x \<Longrightarrow> x < b + 8 \<Longrightarrow> m' x = m x) \<Longrightarrow> chain m' p l = chain m p l"
proof (induction l arbitrary: p)
  case (Cons b l)
  have "ptr_at m' b = ptr_at m b" by (rule ptr_at_cong) (use Cons.prems in auto)
  then show ?case using Cons.IH [of "ptr_at m b"] Cons.prems by auto
qed simp

lemma page_chain_frame:
  "(\<And>pg x. pg \<in> set pgs \<Longrightarrow> header bs pg \<le> x \<Longrightarrow> x < header bs pg + 24 \<Longrightarrow> m' x = m x) \<Longrightarrow>
   page_chain bs m' p pgs = page_chain bs m p pgs"
proof (induction pgs arbitrary: p)
  case (Cons pg pgs)
  let ?p = "header bs pg"
  have "ptr_at m' ?p = ptr_at m ?p" "ptr_at m' (?p + 8) = ptr_at m (?p + 8)" "ptr_at m' (?p + 16) = ptr_at m (?p + 16)"
    by (rule ptr_at_cong; rule Cons.prems [of pg]; simp)+
  moreover have "page_chain bs m' (ptr_at m (?p + 16)) pgs = page_chain bs m (ptr_at m (?p + 16)) pgs"
    by (rule Cons.IH) (use Cons.prems in auto)
  ultimately show ?case by auto
qed simp

text \<open>A write inside a block that the client holds does not touch the pool.\<close>

lemma pool_write:
  assumes ok: "pool_ok P h pgs fl U" and b: "b \<in> U"
    and m: "\<And>x. x < b \<or> b + nat (block_size P) \<le> x \<Longrightarrow> m x = h_bytes h x"
  shows "pool_ok P (h\<lparr>h_bytes := m\<rparr>) pgs fl U"
proof -
  let ?bs = "nat (block_size P)"
  have pg: "pages_ok ?bs h pgs" and bb: "b \<in> set (blocks ?bs pgs)" and 8: "8 \<le> ?bs"
    using ok b by (auto simp: pool_ok_def pages_ok_def)
  have "chain m (free_ptr P) fl = chain (h_bytes h) (free_ptr P) fl"
  proof (rule chain_frame)
    fix a x assume a: "a \<in> set fl" "a \<le> x" "x < a + 8"
    then have "a \<in> set (blocks ?bs pgs)" "a \<noteq> b" using ok b by (auto simp: pool_ok_def)
    then show "m x = h_bytes h x" using blocks_apart [OF pg _ bb] a 8 by (intro m) fastforce
  qed
  moreover have "page_chain ?bs m (mm P) pgs = page_chain ?bs (h_bytes h) (mm P) pgs"
  proof (rule page_chain_frame)
    fix q x assume "q \<in> set pgs" "header ?bs q \<le> x" "x < header ?bs q + 24"
    then show "m x = h_bytes h x" using block_header_apart [OF pg bb] by (intro m) fastforce
  qed
  ultimately show ?thesis using ok by (simp add: pool_ok_def pages_ok_def)
qed

subsection \<open>A new page\<close>

lemma chain_map:
  "(\<And>i. i < n \<Longrightarrow> ptr_at m (p + i * bs) = p + Suc i * bs) \<Longrightarrow> ptr_at m (p + n * bs) = 0 \<Longrightarrow> 0 < p \<Longrightarrow>
   chain m p (map (\<lambda>i. p + i * bs) [0..<Suc n])"
proof (induction n arbitrary: p)
  case (Suc n)
  have "chain m (p + bs) (map (\<lambda>i. (p + bs) + i * bs) [0..<Suc n])"
  proof (rule Suc.IH)
    fix i assume "i < n"
    then show "ptr_at m (p + bs + i * bs) = p + bs + Suc i * bs" using Suc.prems(1) [of "Suc i"] by (simp add: ac_simps)
  qed (use Suc.prems(2,3) in \<open>simp_all add: ac_simps\<close>)
  moreover have "map (\<lambda>i. p + i * bs) [0..<Suc (Suc n)] = p # map (\<lambda>i. (p + bs) + i * bs) [0..<Suc n]"
    by (rule nth_equalityI) (auto simp: nth_Cons' simp del: upt_Suc, metis Suc_pred mult_Suc)
  ultimately show ?case using Suc.prems(1) [of 0] Suc.prems(3) by (simp del: upt_Suc)
qed simp

lemma link_blocks_ok:
  "(\<And>i. i < n \<Longrightarrow> accessible h (p + i * bs) 8) \<Longrightarrow> 8 \<le> bs \<Longrightarrow> p + n * bs < 2 ^ 64 \<Longrightarrow>
   \<exists>m. link_blocks n p bs h = Some (p + n * bs, h\<lparr>h_bytes := m\<rparr>) \<and>
     (\<forall>x. x < p \<or> p + n * bs \<le> x \<longrightarrow> m x = h_bytes h x) \<and>
     (\<forall>i<n. ptr_at m (p + i * bs) = p + Suc i * bs)"
proof (induction n arbitrary: p h)
  case 0
  show ?case by (rule exI [of _ "h_bytes h"]) simp
next
  case (Suc n)
  let ?h = "h\<lparr>h_bytes := put_ptr p (p + bs) (h_bytes h)\<rparr>"
  have "accessible ?h (p + bs + i * bs) 8" if "i < n" for i
    using Suc.prems(1) [of "Suc i"] that by (simp add: ac_simps)
  then obtain m where m: "link_blocks n (p + bs) bs ?h = Some (p + bs + n * bs, ?h\<lparr>h_bytes := m\<rparr>)"
    "\<forall>x. x < p + bs \<or> p + bs + n * bs \<le> x \<longrightarrow> m x = h_bytes ?h x"
    "\<forall>i<n. ptr_at m (p + bs + i * bs) = p + bs + Suc i * bs"
    using Suc.IH [of ?h "p + bs"] Suc.prems(2,3) by (auto simp: ac_simps)
  have "ptr_at m p = ptr_at (put_ptr p (p + bs) (h_bytes h)) p"
    by (rule ptr_at_cong) (use m(2) Suc.prems(2) in auto)
  also have "\<dots> = p + bs" using Suc.prems(3) by simp
  finally have first: "ptr_at m p = p + bs" .
  have "ptr_at m (p + i * bs) = p + Suc i * bs" if "i < Suc n" for i
    using first m(3) that by (cases i) (auto simp: ac_simps)
  moreover have "m x = h_bytes h x" if "x < p \<or> p + Suc n * bs \<le> x" for x
    using that m(2) Suc.prems(2) by (auto simp: put_ptr_def)
  ultimately show ?case
    using m(1) Suc.prems(1) [of 0] by (intro exI [of _ m]) (simp add: write_ptr_def ac_simps)
qed

text \<open>A page for \<open>count\<close> blocks of \<open>bs\<close> bytes has a size that fits an int.\<close>

definition page_fits :: "int \<Rightarrow> int \<Rightarrow> bool" where
  "page_fits bsz count \<longleftrightarrow> 8 \<le> bsz \<and> 0 < count \<and> bsz * count + 24 < 2 ^ 31"

lemma c_malloc_cases:
  assumes "malloc_fresh sys" "0 < n"
  obtains "c_malloc sys n h = (0, h)"
  | p where "c_malloc sys n h = (p, h\<lparr>h_live := insert (p, n) (h_live h)\<rparr>)" "0 < p" "p + n < 2 ^ 64"
    "\<And>r. r \<in> h_live h \<Longrightarrow> apart (p, n) r"
proof (cases "sys h n = 0")
  case True
  then show ?thesis using that(1) by (simp add: c_malloc_def)
next
  case False
  then show ?thesis using assms that(2) [of "sys h n"] by (simp add: c_malloc_def malloc_fresh_def Let_def)
qed

lemma malloc_mem_page_ok:
  assumes h: "heap_ok h" and sys: "malloc_fresh sys" and fits: "page_fits bsz count"
  shows "malloc_mem_page sys bsz count h = Some (0, h) \<or>
    (\<exists>pg m. malloc_mem_page sys bsz count h =
        Some (header (nat bsz) pg, \<lparr>h_bytes = m, h_live = insert (page_region (nat bsz) pg) (h_live h)\<rparr>) \<and>
      snd pg = nat count \<and> 0 < fst pg \<and> header (nat bsz) pg + 24 < 2 ^ 64 \<and>
      (\<forall>r\<in>h_live h. apart (page_region (nat bsz) pg) r) \<and>
      page_chain (nat bsz) m (header (nat bsz) pg) [pg] \<and> chain m (fst pg) (page_blocks (nat bsz) pg) \<and>
      (\<forall>x. x < fst pg \<or> header (nat bsz) pg + 24 \<le> x \<longrightarrow> m x = h_bytes h x))"
proof -
  let ?bs = "nat bsz" and ?n = "nat count"
  obtain k where k: "?n = Suc k" "nat (count - 1) = k"
    using fits by (cases "nat count") (auto simp: page_fits_def)
  have nn: "0 \<le> bsz * count" using fits by (simp add: page_fits_def)
  then have "- (2 ^ 31) \<le> bsz * count" by (rule order_trans [rotated]) simp
  moreover have "bsz * count < 2 ^ 31" using fits by (simp add: page_fits_def)
  ultimately have "s32 (bsz * count) = Some (bsz * count)" unfolding s32_def by (rule if_P [OF conjI])
  then have prod: "s32 (bsz * count) = Some (bsz * count)" "nat (bsz * count) = ?bs * ?n" "0 \<le> bsz * count" "8 \<le> ?bs"
    using fits nn by (auto simp: page_fits_def nat_mult_distrib)
  have size: "to_size (to_int32 (bsz * count + sizeof_mem_page)) = ?bs * ?n + 24"
    using fits prod(2,3) by (simp add: page_fits_def sizeof_mem_page_def to_int32_id to_size_id nat_add_distrib)
  have run: "malloc_mem_page sys bsz count h = (let (ptr, h) = c_malloc sys (?bs * ?n + 24) h in
     if ptr = 0 then Some (0, h)
     else do {
       let page = ptr + ?bs * ?n;
       h \<leftarrow> write_ptr page ptr h;
       h \<leftarrow> write_ptr (mem_page_end page) page h;
       h \<leftarrow> write_ptr (mem_page_next page) 0 h;
       ptr1 \<leftarrow> read_ptr page h;
       (ptr1, h) \<leftarrow> link_blocks k ptr1 ?bs h;
       h \<leftarrow> write_ptr ptr1 0 h;
       Some (page, h) })"
    unfolding malloc_mem_page_def prod(1) Option.bind.bind_lunit Let_def size prod(2) k(2) by (rule refl)
  have "0 < ?bs * ?n + 24" by simp
  from sys this show ?thesis
  proof (cases rule: c_malloc_cases [where h = h])
    case 1
    then show ?thesis by (simp add: run)
  next
    case (2 p)
    let ?page = "p + ?bs * ?n"
    let ?h1 = "h\<lparr>h_live := insert (p, ?bs * ?n + 24) (h_live h)\<rparr>"
    let ?m1 = "put_ptr (?page + 16) 0 (put_ptr (?page + 8) ?page (put_ptr ?page p (h_bytes h)))"
    let ?h2 = "?h1\<lparr>h_bytes := ?m1\<rparr>"
    have acc: "accessible ?h1 q l" if "p \<le> q" "q + l \<le> ?page + 24" for q l
      using that by (auto simp: accessible_def)
    have "accessible ?h2 (p + i * ?bs) 8" if "i < k" for i
    proof -
      have "Suc i * ?bs \<le> ?n * ?bs" using that k by (intro mult_le_mono1) simp
      then show ?thesis using prod(4) unfolding accessible_bytes by (intro acc) (simp_all add: ac_simps)
    qed
    moreover have "p + k * ?bs + 8 \<le> ?page" using k prod(4) by (simp add: ac_simps)
    ultimately obtain m where m: "link_blocks k p ?bs ?h2 = Some (p + k * ?bs, ?h2\<lparr>h_bytes := m\<rparr>)"
      "\<forall>x. x < p \<or> p + k * ?bs \<le> x \<longrightarrow> m x = ?m1 x" "\<forall>i<k. ptr_at m (p + i * ?bs) = p + Suc i * ?bs"
      using link_blocks_ok [of k ?h2 p ?bs] prod(4) 2(3) by auto
    let ?m = "put_ptr (p + k * ?bs) 0 m"
    let ?pg = "(p, ?n)"
    have reads: "ptr_at ?m1 ?page = p" "ptr_at ?m1 (?page + 8) = ?page" "ptr_at ?m1 (?page + 16) = 0"
      using 2(3) by simp_all
    have high: "?m x = ?m1 x" if "?page \<le> x" for x
      using that m(2) \<open>p + k * ?bs + 8 \<le> ?page\<close> by (auto simp: put_ptr_def [of "p + k * ?bs"])
    have "ptr_at ?m ?page = ptr_at ?m1 ?page" "ptr_at ?m (?page + 8) = ptr_at ?m1 (?page + 8)"
      "ptr_at ?m (?page + 16) = ptr_at ?m1 (?page + 16)"
      by (rule ptr_at_cong, rule high, simp)+
    then have pc: "page_chain ?bs ?m ?page [?pg]" using reads 2(2) by (simp add: header_def)
    have "chain ?m p (map (\<lambda>i. p + i * ?bs) [0..<Suc k])"
    proof (rule chain_map)
      fix i assume "i < k"
      then have "Suc i * ?bs \<le> k * ?bs" by (intro mult_le_mono1) simp
      then show "ptr_at ?m (p + i * ?bs) = p + Suc i * ?bs" using m(3) \<open>i < k\<close> prod(4) by simp
    qed (use 2(2) in simp_all)
    then have ch: "chain ?m p (page_blocks ?bs ?pg)" by (simp add: page_blocks_def k del: upt_Suc)
    have low: "?m x = h_bytes h x" if "x < p \<or> ?page + 24 \<le> x" for x
      using that m(2) \<open>p + k * ?bs + 8 \<le> ?page\<close> by (auto simp: put_ptr_def)
    have "malloc_mem_page sys bsz count h = Some (?page, ?h1\<lparr>h_bytes := ?m\<rparr>)"
      using 2(2) \<open>p + k * ?bs + 8 \<le> ?page\<close>
      by (simp add: run 2(1) Let_def write_ptr_def read_ptr_def acc mem_page_end_def mem_page_next_def reads m(1) del: ptr_at_other)
    moreover have "header ?bs ?pg = ?page" "page_region ?bs ?pg = (p, ?bs * ?n + 24)"
      by (simp_all add: header_def page_region_def)
    ultimately show ?thesis using 2 pc ch low
      by (intro disjI2 exI [of _ ?pg] exI [of _ ?m]) simp
  qed
qed

end
