(* ===== verification/Mem_Pool_History.thy ===== *)
theory Mem_Pool_History
  imports Mem_Pool_Laws
begin

text \<open>
  The laws of the pool's operations, as the interface of a block allocator, and what a client may rely on.
\<close>

subsection \<open>Taking a block\<close>

abbreviation bsize :: "mem_pool \<Rightarrow> nat" where
  "bsize P \<equiv> nat (block_size P)"

lemma chain_head: "chain m p (b # l) \<Longrightarrow> p = b" "chain m p [] \<Longrightarrow> p = 0"
  by auto

lemma take_block:
  assumes "pool_ok P h pgs (b # fl) U"
  shows "free_ptr P = b \<and> b \<noteq> 0 \<and> (\<exists>nxt. read_ptr b h = Some nxt \<and> s32 (free_count P - 1) = Some (free_count P - 1) \<and>
    pool_ok (P\<lparr>free_ptr := nxt, free_count := free_count P - 1\<rparr>) h pgs fl (insert b U))"
proof -
  have b: "b \<in> set (blocks (bsize P) pgs)" and pg: "pages_ok (bsize P) h pgs" using assms by (auto simp: pool_ok_def)
  have "read_ptr b h = Some (ptr_at (h_bytes h) b)"
    using block_accessible [OF pg b, of 8] pg by (simp add: read_ptr_def pages_ok_def)
  moreover have "length (b # fl) \<le> length (blocks (bsize P) pgs)"
  proof -
    have "length (b # fl) = card (set (b # fl))" using assms by (intro distinct_card [symmetric]) (simp add: pool_ok_def)
    also have "\<dots> \<le> card (set (blocks (bsize P) pgs))"
      using assms by (intro card_mono) (auto simp: pool_ok_def)
    finally show ?thesis using card_length [of "blocks (bsize P) pgs"] by simp
  qed
  then have "s32 (free_count P - 1) = Some (free_count P - 1)" using assms by (auto simp: s32_def pool_ok_def)
  ultimately show ?thesis using assms by (auto simp: pool_ok_def)
qed

subsection \<open>Growing\<close>

text \<open>What the client wrote to the blocks it holds stays.\<close>

definition same_in :: "nat \<Rightarrow> nat set \<Rightarrow> heap \<Rightarrow> heap \<Rightarrow> bool" where
  "same_in bs U h h' \<longleftrightarrow> (\<forall>b\<in>U. \<forall>x. b \<le> x \<longrightarrow> x < b + bs \<longrightarrow> h_bytes h' x = h_bytes h x)"

lemma grow_pool:
  assumes ok: "pool_ok P h pgs [] U" and incr: "auto_increment P = c" "page_fits (block_size P) c" "block_total P + c < 2 ^ 31"
    and snd: "snd pg = nat c" and fst: "0 < fst pg" "header (bsize P) pg + 24 < 2 ^ 64"
    and apart: "\<forall>r\<in>h_live h. apart (page_region (bsize P) pg) r"
    and pc: "page_chain (bsize P) m (header (bsize P) pg) [pg]" and ch: "chain m (fst pg) (page_blocks (bsize P) pg)"
    and frame: "\<forall>x. x < fst pg \<or> header (bsize P) pg + 24 \<le> x \<longrightarrow> m x = h_bytes h x"
  defines "h' \<equiv> \<lparr>h_bytes = put_ptr (header (bsize P) pg + 16) (mm P) m,
      h_live = insert (page_region (bsize P) pg) (h_live h)\<rparr>"
  shows "pool_ok (P\<lparr>mm := header (bsize P) pg, free_ptr := fst pg, free_count := free_count P + c,
      block_total := block_total P + c\<rparr>) h' (pg # pgs) (page_blocks (bsize P) pg) U \<and>
    ptr_at (h_bytes h') (header (bsize P) pg) = fst pg \<and> same_in (bsize P) U h h'"
proof -
  let ?bs = "bsize P" and ?p = "header (bsize P) pg"
  have pg: "pages_ok ?bs h pgs" and 8: "8 \<le> ?bs" using ok by (auto simp: pool_ok_def pages_ok_def)
  have apart': "?p + 24 \<le> fst q \<or> header ?bs q + 24 \<le> fst pg" if "q \<in> set pgs" for q
  proof -
    have "apart (page_region ?bs pg) (page_region ?bs q)" using pg apart that by (simp add: pages_ok_def)
    then show ?thesis by (simp add: apart_def page_region_simps)
  qed
  have less: "fst q < header ?bs q + 24" for q by (simp add: header_def)
  have "fst q \<noteq> fst pg" if "q \<in> set pgs" for q using apart' [OF that] less [of q] less [of pg] by auto
  then have "fst pg \<notin> fst ` set pgs" by force
  moreover have "regions_ok (insert (page_region ?bs pg) (h_live h))"
    using pg fst apart by (intro regions_ok_insert) (auto simp: pages_ok_def heap_ok_def page_region_def header_def)
  moreover have "?bs * snd pg + 24 < 2 ^ 31"
  proof -
    have "int (?bs * snd pg + 24) < 2 ^ 31" using incr(2) snd by (simp add: page_fits_def)
    then show ?thesis by (metis of_nat_less_iff of_nat_numeral of_nat_power)
  qed
  ultimately have pg': "pages_ok ?bs h' (pg # pgs)"
    using pg snd incr(2) by (auto simp: pages_ok_def heap_ok_def h'_def page_fits_def)
  have mmb: "mm P < 2 ^ 64"
  proof (cases pgs)
    case (Cons q qs)
    then show ?thesis using ok header_bounds [OF pg, of q] by (simp add: pool_ok_def)
  qed (use ok in \<open>simp add: pool_ok_def\<close>)
  have out: "h_bytes h' x = h_bytes h x" if "q \<in> set pgs" "fst q \<le> x" "x < header ?bs q + 24" for q x
  proof -
    have "x < fst pg \<or> ?p + 24 \<le> x" using apart' [OF that(1)] that(2,3) by linarith
    moreover have "fst pg \<le> ?p" by (simp add: header_def)
    ultimately show ?thesis using frame by (auto simp: h'_def put_ptr_def)
  qed
  have "page_chain ?bs (h_bytes h') (mm P) pgs = page_chain ?bs (h_bytes h) (mm P) pgs"
    by (rule page_chain_frame) (rule out, auto simp: header_def)
  moreover have at: "ptr_at (h_bytes h') ?p = fst pg" "ptr_at (h_bytes h') (?p + 8) = ?p" "ptr_at (h_bytes h') (?p + 16) = mm P"
    using pc mmb by (simp_all add: h'_def)
  ultimately have pc': "page_chain ?bs (h_bytes h') ?p (pg # pgs)"
    using ok pc by (simp add: pool_ok_def)
  have ch': "chain (h_bytes h') (fst pg) (page_blocks ?bs pg)"
  proof -
    have "h_bytes h' x = m x" if "b \<in> set (page_blocks ?bs pg)" "b \<le> x" "x < b + 8" for b x
      using page_block_within [OF that(1)] that(2,3) 8 by (simp add: h'_def put_ptr_def)
    then have "chain (h_bytes h') (fst pg) (page_blocks ?bs pg) = chain m (fst pg) (page_blocks ?bs pg)"
      by (rule chain_frame)
    then show ?thesis using ch by simp
  qed
  have "distinct (page_blocks ?bs pg)"
    using 8 by (auto simp: page_blocks_def distinct_map intro!: inj_onI)
  moreover have "set (page_blocks ?bs pg) \<inter> U = {}"
  proof -
    have False if b: "b \<in> set (page_blocks ?bs pg)" "b \<in> U" for b
    proof -
      have "b \<in> set (blocks ?bs pgs)" using ok b(2) by (auto simp: pool_ok_def)
      then obtain q where q: "q \<in> set pgs" "b \<in> set (page_blocks ?bs q)" by (auto simp: in_blocks)
      show False
        using apart' [OF q(1)] page_block_within [OF q(2)] page_block_within [OF b(1)] 8 by linarith
    qed
    then show ?thesis by auto
  qed
  moreover have "same_in ?bs U h h'"
    unfolding same_in_def
  proof (intro ballI allI impI)
    fix b x assume b: "b \<in> U" "b \<le> x" "x < b + ?bs"
    then have "b \<in> set (blocks ?bs pgs)" using ok by (auto simp: pool_ok_def)
    then obtain q where q: "q \<in> set pgs" "b \<in> set (page_blocks ?bs q)" by (auto simp: in_blocks)
    show "h_bytes h' x = h_bytes h x" using out [OF q(1)] page_block_within [OF q(2)] b by simp
  qed
  ultimately show ?thesis
    using ok pg' pc' ch' incr snd at(1) by (auto simp: pool_ok_def page_fits_def)
qed

definition may_grow :: "mem_pool \<Rightarrow> bool" where
  "may_grow P \<longleftrightarrow> auto_increment P \<le> 0 \<or> page_fits (block_size P) (auto_increment P)"

lemma malloc_mem_pool_ok:
  assumes ok: "pool_ok P h pgs fl U" and sys: "malloc_fresh sys" and grow: "may_grow P"
    and total: "block_total P + auto_increment P < 2 ^ 31"
  shows "\<exists>p P' h' pgs' fl'. malloc_mem_pool sys (Some P) h = Some (p, Some P', h') \<and>
    block_size P' = block_size P \<and> auto_increment P' = auto_increment P \<and> same_in (bsize P) U h h' \<and>
    block_total P' \<le> block_total P + max 0 (auto_increment P) \<and>
    (p \<noteq> 0 \<longrightarrow> h_live h' - page_region (bsize P) ` set pgs' = h_live h - page_region (bsize P) ` set pgs) \<and>
    (if p = 0 then P' = P \<and> h' = h \<and> fl = [] else p \<notin> U \<and> pool_ok P' h' pgs' fl' (insert p U))"
proof (cases fl)
  case (Cons b l)
  have b: "b \<notin> U" using ok Cons by (auto simp: pool_ok_def)
  obtain nxt where nxt: "free_ptr P = b" "b \<noteq> 0" "read_ptr b h = Some nxt" "s32 (free_count P - 1) = Some (free_count P - 1)"
    "pool_ok (P\<lparr>free_ptr := nxt, free_count := free_count P - 1\<rparr>) h pgs l (insert b U)"
    using take_block [OF ok [unfolded Cons]] by blast
  then have "malloc_mem_pool sys (Some P) h = Some (b, Some (P\<lparr>free_ptr := nxt, free_count := free_count P - 1\<rparr>), h)"
    by (simp add: malloc_mem_pool_def)
  then show ?thesis using nxt b by (fastforce simp: same_in_def)
next
  case Nil
  then have null: "free_ptr P = 0" using ok by (auto simp: pool_ok_def)
  show ?thesis
  proof (cases "auto_increment P \<le> 0")
    case True
    then have "malloc_mem_pool sys (Some P) h = Some (0, Some P, h)" using null by (simp add: malloc_mem_pool_def)
    then show ?thesis using Nil by (fastforce simp: same_in_def)
  next
    case False
    let ?c = "auto_increment P" and ?bs = "bsize P"
    have fits: "page_fits (block_size P) ?c" using grow False by (simp add: may_grow_def)
    have hok: "heap_ok h" using ok by (simp add: pool_ok_def pages_ok_def)
    from malloc_mem_page_ok [OF hok sys fits] consider
      (none) "malloc_mem_page sys (block_size P) ?c h = Some (0, h)" |
      (page) pg m where "malloc_mem_page sys (block_size P) ?c h =
          Some (header ?bs pg, \<lparr>h_bytes = m, h_live = insert (page_region ?bs pg) (h_live h)\<rparr>)"
        "snd pg = nat ?c" "0 < fst pg" "header ?bs pg + 24 < 2 ^ 64" "\<forall>r\<in>h_live h. apart (page_region ?bs pg) r"
        "page_chain ?bs m (header ?bs pg) [pg]" "chain m (fst pg) (page_blocks ?bs pg)"
        "\<forall>x. x < fst pg \<or> header ?bs pg + 24 \<le> x \<longrightarrow> m x = h_bytes h x"
      by blast
    then show ?thesis
    proof cases
      case none
      then have "malloc_mem_pool sys (Some P) h = Some (0, Some P, h)" using null False by (simp add: malloc_mem_pool_def)
      then show ?thesis using Nil by (fastforce simp: same_in_def)
    next
      case page
      define h' where "h' = \<lparr>h_bytes = put_ptr (header ?bs pg + 16) (mm P) m, h_live = insert (page_region ?bs pg) (h_live h)\<rparr>"
      define P' where "P' = P\<lparr>mm := header ?bs pg, free_ptr := fst pg, free_count := free_count P + ?c, block_total := block_total P + ?c\<rparr>"
      have g: "pool_ok P' h' (pg # pgs) (page_blocks ?bs pg) U" "ptr_at (h_bytes h') (header ?bs pg) = fst pg"
        "same_in ?bs U h h'"
        using grow_pool [OF ok [unfolded Nil] refl fits total page(2-)] by (simp_all add: h'_def P'_def)
      have "0 < snd pg" using page(2) False by simp
      then obtain k where k: "snd pg = Suc k" using gr0_implies_Suc by blast
      then have pb: "page_blocks ?bs pg = fst pg # map (\<lambda>i. fst pg + i * ?bs) [1..<Suc k]"
        by (simp add: page_blocks_def upt_conv_Cons del: upt_Suc)
      have bs': "bsize P' = ?bs" by (simp add: P'_def)
      note take = take_block [OF g(1) [unfolded pb]]
      obtain nxt where nxt: "free_ptr P' = fst pg" "fst pg \<noteq> 0" "read_ptr (fst pg) h' = Some nxt"
        "s32 (free_count P' - 1) = Some (free_count P' - 1)"
        "pool_ok (P'\<lparr>free_ptr := nxt, free_count := free_count P' - 1\<rparr>) h' (pg # pgs)
          (map (\<lambda>i. fst pg + i * ?bs) [1..<Suc k]) (insert (fst pg) U)"
        using take by blast
      have pg': "pages_ok ?bs h' (pg # pgs)" using g(1) bs' by (simp add: pool_ok_def)
      have acc: "accessible h' (header ?bs pg) 8" "accessible h' (header ?bs pg + 16) 8"
        by (rule page_accessible [OF pg', of pg]; simp add: header_def)+
      have pos: "0 < header ?bs pg" using page(3) by (simp add: header_def)
      have sums: "s32 (free_count P + ?c) = Some (free_count P + ?c)" "s32 (block_total P + ?c) = Some (block_total P + ?c)"
        using ok Nil False total fits by (auto simp: s32_def pool_ok_def page_fits_def)
      have "malloc_mem_pool sys (Some P) h = Some (fst pg, Some (P'\<lparr>free_ptr := nxt, free_count := free_count P' - 1\<rparr>), h')"
        using null False page(1,3) pos acc nxt g(2) sums
        by (simp add: malloc_mem_pool_def write_ptr_def read_ptr_def mem_page_next_def h'_def P'_def accessible_def)
      moreover have "fst pg \<notin> U" using g(1) pb by (auto simp: pool_ok_def)
      moreover have "page_region ?bs pg \<notin> h_live h" using page(3,5) by (auto simp: apart_def page_region_def)
      then have "h_live h' - page_region ?bs ` set (pg # pgs) = h_live h - page_region ?bs ` set pgs"
        by (auto simp: h'_def)
      ultimately show ?thesis using nxt g(3)
        by (intro exI [of _ "fst pg"] exI [of _ "P'\<lparr>free_ptr := nxt, free_count := free_count P' - 1\<rparr>"] exI [of _ h']
          exI [of _ "pg # pgs"] exI [of _ "map (\<lambda>i. fst pg + i * ?bs) [1..<Suc k]"]) (simp add: P'_def del: upt_Suc)
    qed
  qed
qed

subsection \<open>Giving a block back\<close>

lemma smod_nonneg: "0 \<le> a \<Longrightarrow> 0 < b \<Longrightarrow> (a :: int) smod b = a mod b"
  by (simp add: smod_int_alt_def sgn_if)

text \<open>The walk finds the page that the pointer is in, if any, and checks that it starts a block.\<close>

lemma free_walk_run:
  "pages_ok (bsize P) h pgs \<Longrightarrow> set qs \<subseteq> set pgs \<Longrightarrow> page_chain (bsize P) (h_bytes h) page qs \<Longrightarrow>
   free_walk P ptr page h =
     (case List.find (\<lambda>pg. fst pg \<le> ptr \<and> ptr < header (bsize P) pg) qs of
        None \<Rightarrow> Some (P, h)
      | Some pg \<Rightarrow>
          if (ptr - fst pg) mod bsize P = 0 then do {
            h \<leftarrow> write_ptr ptr (free_ptr P) h;
            count \<leftarrow> s32 (free_count P + 1);
            Some (P\<lparr>free_ptr := ptr, free_count := count\<rparr>, h) }
          else Some (P, h))"
proof (induction qs arbitrary: page)
  case Nil
  then show ?case by (subst free_walk.simps) simp
next
  case (Cons pg qs)
  let ?bs = "bsize P"
  have pg: "pg \<in> set pgs" using Cons.prems(2) by simp
  have page: "page = header ?bs pg" "page \<noteq> 0" "ptr_at (h_bytes h) page = fst pg" "ptr_at (h_bytes h) (page + 8) = page"
    "page_chain ?bs (h_bytes h) (ptr_at (h_bytes h) (page + 16)) qs"
    using Cons.prems(3) by auto
  have acc: "accessible h page 8" "accessible h (page + 8) 8" "accessible h (page + 16) 8"
    using page(1) by (auto intro!: page_accessible [OF Cons.prems(1) pg] simp: header_def)
  have step: "free_walk P ptr page h =
     (if fst pg \<le> ptr \<and> ptr < page then
        if to_int32 (int ptr - int (fst pg)) smod block_size P = 0 then do {
          h \<leftarrow> write_ptr ptr (free_ptr P) h;
          count \<leftarrow> s32 (free_count P + 1);
          Some (P\<lparr>free_ptr := ptr, free_count := count\<rparr>, h) }
        else Some (P, h)
      else free_walk P ptr (ptr_at (h_bytes h) (page + 16)) h)"
    using page acc by (subst free_walk.simps) (simp add: read_ptr_def mem_page_end_def mem_page_next_def)
  show ?case
  proof (cases "fst pg \<le> ptr \<and> ptr < page")
    case True
    have "?bs * snd pg < 2 ^ 31" using Cons.prems(1) pg by (auto simp: pages_ok_def)
    then have "int ptr - int (fst pg) < 2 ^ 31" using True page(1) by (simp add: header_def)
    then have "to_int32 (int ptr - int (fst pg)) = int (ptr - fst pg)" using True by (simp add: to_int32_id of_nat_diff)
    moreover have "0 < block_size P" using Cons.prems(1) by (auto simp: pages_ok_def)
    then have "int (ptr - fst pg) smod block_size P = int ((ptr - fst pg) mod ?bs)"
      by (simp add: smod_nonneg of_nat_mod)
    ultimately have "to_int32 (int ptr - int (fst pg)) smod block_size P = 0 \<longleftrightarrow> (ptr - fst pg) mod ?bs = 0" by simp
    then show ?thesis unfolding step using True page(1) by simp
  next
    case False
    have "free_walk P ptr page h = free_walk P ptr (ptr_at (h_bytes h) (page + 16)) h"
      unfolding step by (rule if_not_P [OF False])
    also have "\<dots> = (case List.find (\<lambda>pg. fst pg \<le> ptr \<and> ptr < header ?bs pg) qs of
        None \<Rightarrow> Some (P, h)
      | Some pg \<Rightarrow>
          if (ptr - fst pg) mod ?bs = 0 then do {
            h \<leftarrow> write_ptr ptr (free_ptr P) h;
            count \<leftarrow> s32 (free_count P + 1);
            Some (P\<lparr>free_ptr := ptr, free_count := count\<rparr>, h) }
          else Some (P, h))"
      using Cons.prems page(5) by (intro Cons.IH) auto
    finally show ?thesis unfolding List.find.simps if_not_P [OF False [unfolded page(1)]] .
  qed
qed

lemma find_SomeD: "List.find Q xs = Some q \<Longrightarrow> q \<in> set xs \<and> Q q"
  by (auto simp: find_Some_iff)

text \<open>A pointer starts a block exactly when the walk says so.\<close>

lemma page_of_block:
  assumes pg: "pages_ok bs h pgs"
  shows "p \<in> set (blocks bs pgs) \<longleftrightarrow>
    (\<exists>q. List.find (\<lambda>pg. fst pg \<le> p \<and> p < header bs pg) pgs = Some q \<and> (p - fst q) mod bs = 0)"
proof
  have 8: "8 \<le> bs" using pg by (simp add: pages_ok_def)
  {
    assume "p \<in> set (blocks bs pgs)"
    then obtain q where q: "q \<in> set pgs" "p \<in> set (page_blocks bs q)" by (auto simp: in_blocks)
    have in_q: "fst q \<le> p" "p < header bs q" using page_block_within [OF q(2)] 8 by auto
    have only: "q' = q" if "q' \<in> set pgs" "fst q' \<le> p" "p < header bs q'" for q'
      using pages_apart [OF pg that(1) q(1)] that(2,3) in_q by fastforce
    have "List.find (\<lambda>pg. fst pg \<le> p \<and> p < header bs pg) pgs \<noteq> None"
      unfolding find_None_iff using q(1) in_q by blast
    then obtain q' where "List.find (\<lambda>pg. fst pg \<le> p \<and> p < header bs pg) pgs = Some q'" by blast
    moreover from find_SomeD [OF this] have "q' = q" using only by blast
    moreover have "(p - fst q) mod bs = 0" using q(2) by (auto simp: in_page_blocks)
    ultimately show "\<exists>q. List.find (\<lambda>pg. fst pg \<le> p \<and> p < header bs pg) pgs = Some q \<and> (p - fst q) mod bs = 0"
      by (intro exI [of _ q]) simp
  }
  assume "\<exists>q. List.find (\<lambda>pg. fst pg \<le> p \<and> p < header bs pg) pgs = Some q \<and> (p - fst q) mod bs = 0"
  then obtain q where q: "List.find (\<lambda>pg. fst pg \<le> p \<and> p < header bs pg) pgs = Some q" "(p - fst q) mod bs = 0"
    by (elim exE conjE)
  note q = find_SomeD [OF q(1)] q(2)
  define i where "i = (p - fst q) div bs"
  have i: "p = fst q + i * bs" using q 8 by (auto simp: i_def)
  then have "i * bs < snd q * bs" using q by (simp add: header_def mult.commute)
  then have "i < snd q" by simp
  then show "p \<in> set (blocks bs pgs)" using q i by (auto simp: in_blocks in_page_blocks)
qed

lemma free_mem_pool_other:
  assumes "pool_ok P h pgs fl U" "p \<notin> set (blocks (bsize P) pgs)"
  shows "free_mem_pool (Some P) p h = Some (Some P, h)"
proof -
  have pg: "pages_ok (bsize P) h pgs" and pc: "page_chain (bsize P) (h_bytes h) (mm P) pgs"
    using assms(1) by (simp_all add: pool_ok_def)
  show ?thesis
    using free_walk_run [OF pg subset_refl pc, of p] page_of_block [OF pg, of p] assms(2)
    by (auto simp: free_mem_pool_def split: option.splits)
qed

lemma free_mem_pool_held:
  assumes ok: "pool_ok P h pgs fl U" and p: "p \<in> U"
  shows "\<exists>P' h'. free_mem_pool (Some P) p h = Some (Some P', h') \<and> pool_ok P' h' pgs (p # fl) (U - {p}) \<and>
    block_size P' = block_size P \<and> auto_increment P' = auto_increment P \<and> block_total P' = block_total P \<and>
    same_in (bsize P) (U - {p}) h h' \<and> h_live h' = h_live h"
proof -
  let ?bs = "bsize P"
  have pg: "pages_ok ?bs h pgs" and pc: "page_chain ?bs (h_bytes h) (mm P) pgs" and pb: "p \<in> set (blocks ?bs pgs)"
    and 8: "8 \<le> ?bs"
    using ok p by (auto simp: pool_ok_def pages_ok_def)
  obtain q where q: "List.find (\<lambda>pg. fst pg \<le> p \<and> p < header ?bs pg) pgs = Some q" "(p - fst q) mod ?bs = 0"
    using page_of_block [OF pg, of p] pb by auto
  have p0: "p \<noteq> 0" "p < 2 ^ 64" using block_bounds [OF pg pb] by auto
  have pfl: "p \<notin> set fl" using ok p by (auto simp: pool_ok_def)
  have count: "s32 (free_count P + 1) = Some (free_count P + 1)"
  proof -
    have "length (p # fl) = card (set (p # fl))" using ok pfl by (intro distinct_card [symmetric]) (simp add: pool_ok_def)
    also have "\<dots> \<le> card (set (blocks ?bs pgs))" using ok pb by (intro card_mono) (auto simp: pool_ok_def)
    also have "\<dots> \<le> length (blocks ?bs pgs)" by (rule card_length)
    finally show ?thesis using ok by (simp add: s32_def pool_ok_def)
  qed
  let ?m = "put_ptr p (free_ptr P) (h_bytes h)"
  let ?P = "P\<lparr>free_ptr := p, free_count := free_count P + 1\<rparr>"
  have "free_mem_pool (Some P) p h = Some (Some ?P, h\<lparr>h_bytes := ?m\<rparr>)"
    using free_walk_run [OF pg subset_refl pc, of p] q p0 count block_accessible [OF pg pb 8]
    by (simp add: free_mem_pool_def write_ptr_def)
  moreover have frame: "?m x = h_bytes h x" if "x < p \<or> p + ?bs \<le> x" for x using that 8 by (auto simp: put_ptr_def)
  have "pool_ok P (h\<lparr>h_bytes := ?m\<rparr>) pgs fl U" by (rule pool_write [OF ok p frame])
  moreover have "free_ptr P < 2 ^ 64"
  proof (cases fl)
    case (Cons b l)
    then have "b \<in> set (blocks ?bs pgs)" "free_ptr P = b" using ok by (auto simp: pool_ok_def)
    then show ?thesis using block_bounds [OF pg] by fastforce
  qed (use ok in \<open>simp add: pool_ok_def\<close>)
  moreover have "same_in ?bs (U - {p}) h (h\<lparr>h_bytes := ?m\<rparr>)"
    unfolding same_in_def
  proof (intro ballI allI impI)
    fix b x assume b: "b \<in> U - {p}" "b \<le> x" "x < b + ?bs"
    then have "b \<in> set (blocks ?bs pgs)" using ok by (auto simp: pool_ok_def)
    then show "h_bytes (h\<lparr>h_bytes := ?m\<rparr>) x = h_bytes h x"
      using blocks_apart [OF pg _ pb] b frame by fastforce
  qed
  ultimately show ?thesis using p0 pfl p by (intro exI [of _ ?P]) (auto simp: pool_ok_def)
qed

end
