(* ===== verification/Block_Allocator.thy ===== *)
theory Block_Allocator
  imports Byte_Heap
begin

text \<open>
  What an allocator of equal blocks promises its client, and what the client may conclude: the blocks it
  holds do not overlap, and every byte it wrote stays until it gives the block back.
\<close>

datatype block_op = Take | Give nat | Store nat nat u8

text \<open>The client's view: the blocks it holds and what it wrote to them.\<close>

record 's client =
  cl_state :: 's
  cl_held :: "nat set"
  cl_wrote :: "nat \<Rightarrow> u8 option"

definition forget :: "nat \<Rightarrow> nat \<Rightarrow> (nat \<Rightarrow> u8 option) \<Rightarrow> (nat \<Rightarrow> u8 option)" where
  "forget bs b w = (\<lambda>x. if b \<le> x \<and> x < b + bs then None else w x)"

text \<open>A client gives back and writes only what it holds; another request it does not make.\<close>

fun client_step :: "nat \<Rightarrow> ('s \<Rightarrow> (nat \<times> 's) option) \<Rightarrow> (nat \<Rightarrow> 's \<Rightarrow> 's option) \<Rightarrow> (nat \<Rightarrow> u8 \<Rightarrow> 's \<Rightarrow> 's option) \<Rightarrow>
    block_op \<Rightarrow> 's client \<Rightarrow> 's client option" where
  "client_step bs alloc release poke Take c = do {
     (p, s) \<leftarrow> alloc (cl_state c);
     Some (if p = 0 then c\<lparr>cl_state := s\<rparr>
           else c\<lparr>cl_state := s, cl_held := insert p (cl_held c), cl_wrote := forget bs p (cl_wrote c)\<rparr>) }"
| "client_step bs alloc release poke (Give p) c =
     (if p \<in> cl_held c then do {
        s \<leftarrow> release p (cl_state c);
        Some (c\<lparr>cl_state := s, cl_held := cl_held c - {p}, cl_wrote := forget bs p (cl_wrote c)\<rparr>) }
      else Some c)"
| "client_step bs alloc release poke (Store p i v) c =
     (if p \<in> cl_held c \<and> i < bs then do {
        s \<leftarrow> poke (p + i) v (cl_state c);
        Some (c\<lparr>cl_state := s, cl_wrote := (cl_wrote c)(p + i \<mapsto> v)\<rparr>) }
      else Some c)"

fun client_run :: "nat \<Rightarrow> ('s \<Rightarrow> (nat \<times> 's) option) \<Rightarrow> (nat \<Rightarrow> 's \<Rightarrow> 's option) \<Rightarrow> (nat \<Rightarrow> u8 \<Rightarrow> 's \<Rightarrow> 's option) \<Rightarrow>
    block_op list \<Rightarrow> 's client \<Rightarrow> 's client option" where
  "client_run bs alloc release poke [] c = Some c"
| "client_run bs alloc release poke (x # xs) c = do {
     c \<leftarrow> client_step bs alloc release poke x c;
     client_run bs alloc release poke xs c }"

text \<open>What was written is in held blocks and reads back.\<close>

definition memory_kept :: "nat \<Rightarrow> (nat \<Rightarrow> 's \<Rightarrow> u8) \<Rightarrow> 's client \<Rightarrow> bool" where
  "memory_kept bs peek c \<longleftrightarrow> (\<forall>x v. cl_wrote c x = Some v \<longrightarrow>
     (\<exists>b\<in>cl_held c. b \<le> x \<and> x < b + bs) \<and> peek x (cl_state c) = v)"

definition same_blocks :: "nat \<Rightarrow> (nat \<Rightarrow> 's \<Rightarrow> u8) \<Rightarrow> nat set \<Rightarrow> 's \<Rightarrow> 's \<Rightarrow> bool" where
  "same_blocks bs peek U s s' \<longleftrightarrow> (\<forall>b\<in>U. \<forall>x. b \<le> x \<longrightarrow> x < b + bs \<longrightarrow> peek x s' = peek x s)"

text \<open>The first argument of \<open>ok\<close> bounds how many times the allocator may still be asked.\<close>

locale block_allocator =
  fixes ok :: "nat \<Rightarrow> 's \<Rightarrow> nat set \<Rightarrow> bool" and bs :: nat
    and alloc :: "'s \<Rightarrow> (nat \<times> 's) option" and release :: "nat \<Rightarrow> 's \<Rightarrow> 's option"
    and poke :: "nat \<Rightarrow> u8 \<Rightarrow> 's \<Rightarrow> 's option" and peek :: "nat \<Rightarrow> 's \<Rightarrow> u8"
  assumes less_left: "ok (Suc n) s U \<Longrightarrow> ok n s U"
    and held_apart: "ok n s U \<Longrightarrow> b \<in> U \<Longrightarrow> b' \<in> U \<Longrightarrow> b \<noteq> b' \<Longrightarrow> b + bs \<le> b' \<or> b' + bs \<le> b"
    and alloc_law: "ok (Suc n) s U \<Longrightarrow> \<exists>p s'. alloc s = Some (p, s') \<and> same_blocks bs peek U s s' \<and>
      (if p = 0 then s' = s else p \<notin> U \<and> ok n s' (insert p U))"
    and release_law: "ok n s U \<Longrightarrow> p \<in> U \<Longrightarrow>
      \<exists>s'. release p s = Some s' \<and> same_blocks bs peek (U - {p}) s s' \<and> ok n s' (U - {p})"
    and poke_law: "ok n s U \<Longrightarrow> b \<in> U \<Longrightarrow> b \<le> x \<Longrightarrow> x < b + bs \<Longrightarrow>
      \<exists>s'. poke x v s = Some s' \<and> ok n s' U \<and> peek x s' = v \<and> (\<forall>y. y \<noteq> x \<longrightarrow> peek y s' = peek y s)"
begin

lemma step_keeps:
  assumes "ok (Suc n) (cl_state c) (cl_held c)" "memory_kept bs peek c"
  shows "\<exists>c'. client_step bs alloc release poke x c = Some c' \<and> ok n (cl_state c') (cl_held c') \<and> memory_kept bs peek c'"
proof (cases x)
  case Take
  obtain p s' where s': "alloc (cl_state c) = Some (p, s')" "same_blocks bs peek (cl_held c) (cl_state c) s'"
    "if p = 0 then s' = cl_state c else p \<notin> cl_held c \<and> ok n s' (insert p (cl_held c))"
    using alloc_law [OF assms(1)] by blast
  show ?thesis
  proof (cases "p = 0")
    case True
    then show ?thesis using s' assms less_left by (simp add: Take memory_kept_def)
  next
    case False
    then show ?thesis using s' assms by (fastforce simp: Take memory_kept_def forget_def same_blocks_def)
  qed
next
  case (Give p)
  show ?thesis
  proof (cases "p \<in> cl_held c")
    case True
    obtain s' where s': "release p (cl_state c) = Some s'" "same_blocks bs peek (cl_held c - {p}) (cl_state c) s'"
      "ok n s' (cl_held c - {p})"
      using release_law [OF less_left [OF assms(1)] True] by blast
    have "(\<exists>b\<in>cl_held c - {p}. b \<le> x \<and> x < b + bs) \<and> peek x s' = v" if "forget bs p (cl_wrote c) x = Some v" for x v
    proof -
      have w: "cl_wrote c x = Some v" "\<not> (p \<le> x \<and> x < p + bs)" using that by (auto simp: forget_def split: if_splits)
      then obtain b where b: "b \<in> cl_held c" "b \<le> x" "x < b + bs" "peek x (cl_state c) = v"
        using assms(2) by (auto simp: memory_kept_def)
      then have "b \<in> cl_held c - {p}" using w(2) by auto
      then show ?thesis using s'(2) b by (auto simp: same_blocks_def)
    qed
    then show ?thesis using s' True by (simp add: Give memory_kept_def)
  next
    case False
    then show ?thesis using assms less_left by (simp add: Give)
  qed
next
  case (Store p i v)
  show ?thesis
  proof (cases "p \<in> cl_held c \<and> i < bs")
    case True
    then obtain s' where s': "poke (p + i) v (cl_state c) = Some s'" "ok n s' (cl_held c)" "peek (p + i) s' = v"
      "\<forall>y. y \<noteq> p + i \<longrightarrow> peek y s' = peek y (cl_state c)"
      using poke_law [OF less_left [OF assms(1)], of p "p + i" v] by auto
    have "(\<exists>b\<in>cl_held c. b \<le> x \<and> x < b + bs) \<and> peek x s' = u" if "((cl_wrote c)(p + i \<mapsto> v)) x = Some u" for x u
    proof (cases "x = p + i")
      case True
      then show ?thesis using that s'(3) \<open>p \<in> cl_held c \<and> i < bs\<close> by (auto intro!: bexI [of _ p])
    next
      case False
      then show ?thesis using that s'(4) assms(2) by (auto simp: memory_kept_def)
    qed
    then show ?thesis using s' True by (simp add: Store memory_kept_def)
  next
    case False
    then show ?thesis using assms less_left by (auto simp: Store)
  qed
qed

lemma run_keeps:
  "ok (length xs) (cl_state c) (cl_held c) \<Longrightarrow> memory_kept bs peek c \<Longrightarrow>
   \<exists>c'. client_run bs alloc release poke xs c = Some c' \<and> ok 0 (cl_state c') (cl_held c') \<and> memory_kept bs peek c'"
proof (induction xs arbitrary: c)
  case (Cons x xs)
  then obtain c1 where "client_step bs alloc release poke x c = Some c1" "ok (length xs) (cl_state c1) (cl_held c1)"
    "memory_kept bs peek c1"
    using step_keeps [of "length xs" c x] by auto
  then show ?case using Cons.IH by simp
qed simp

end

end
