(* ===== verification/Mem_Pool_Client.thy ===== *)
theory Mem_Pool_Client
  imports Mem_Pool_History Block_Allocator
begin

text \<open>
  The memory pool as a block allocator: a pool is created, used by a client and destroyed, and its memory
  goes back to the system.
\<close>

subsection \<open>Creating and destroying\<close>

lemma create_mem_pool_ok:
  assumes h: "heap_ok h" and sys: "malloc_fresh sys" and fits: "page_fits bsz count"
  shows "create_mem_pool sys (Some P) bsz count incr h = Some (- 1, Some (P\<lparr>block_size := bsz, auto_increment := incr,
      free_count := count, block_total := count\<rparr>), h) \<or>
    (\<exists>P' h' pg. create_mem_pool sys (Some P) bsz count incr h = Some (0, Some P', h') \<and>
      pool_ok P' h' [pg] (page_blocks (nat bsz) pg) {} \<and> block_size P' = bsz \<and> auto_increment P' = incr \<and>
      block_total P' = count \<and> h_live h' = insert (page_region (nat bsz) pg) (h_live h) \<and>
      page_region (nat bsz) pg \<notin> h_live h)"
proof -
  have pos: "\<not> (bsz \<le> 0 \<or> count \<le> 0)" "8 \<le> nat bsz" using fits by (auto simp: page_fits_def)
  from malloc_mem_page_ok [OF h sys fits] show ?thesis
  proof
    assume "malloc_mem_page sys bsz count h = Some (0, h)"
    then show ?thesis using pos by (simp add: create_mem_pool_def Let_def)
  next
    assume "\<exists>pg m. malloc_mem_page sys bsz count h =
        Some (header (nat bsz) pg, \<lparr>h_bytes = m, h_live = insert (page_region (nat bsz) pg) (h_live h)\<rparr>) \<and>
      snd pg = nat count \<and> 0 < fst pg \<and> header (nat bsz) pg + 24 < 2 ^ 64 \<and>
      (\<forall>r\<in>h_live h. apart (page_region (nat bsz) pg) r) \<and>
      page_chain (nat bsz) m (header (nat bsz) pg) [pg] \<and> chain m (fst pg) (page_blocks (nat bsz) pg) \<and>
      (\<forall>x. x < fst pg \<or> header (nat bsz) pg + 24 \<le> x \<longrightarrow> m x = h_bytes h x)"
    then obtain pg m where pg: "malloc_mem_page sys bsz count h =
        Some (header (nat bsz) pg, \<lparr>h_bytes = m, h_live = insert (page_region (nat bsz) pg) (h_live h)\<rparr>)"
      "snd pg = nat count" "0 < fst pg" "header (nat bsz) pg + 24 < 2 ^ 64" "\<forall>r\<in>h_live h. apart (page_region (nat bsz) pg) r"
      "page_chain (nat bsz) m (header (nat bsz) pg) [pg]" "chain m (fst pg) (page_blocks (nat bsz) pg)"
      by auto
    define P' where "P' = P\<lparr>block_size := bsz, auto_increment := incr, free_count := count, block_total := count,
      mm := header (nat bsz) pg, free_ptr := fst pg\<rparr>"
    define h' where "h' = \<lparr>h_bytes = m, h_live = insert (page_region (nat bsz) pg) (h_live h)\<rparr>"
    have size: "nat bsz * snd pg + 24 < 2 ^ 31"
    proof -
      have "int (nat bsz * snd pg + 24) < 2 ^ 31" using fits pg(2) by (simp add: page_fits_def)
      then show ?thesis by (metis of_nat_less_iff of_nat_numeral of_nat_power)
    qed
    have "regions_ok (insert (page_region (nat bsz) pg) (h_live h))"
      using h pg by (intro regions_ok_insert) (auto simp: heap_ok_def page_region_def header_def)
    then have pgs: "pages_ok (nat bsz) h' [pg]"
      using pos size pg(2) fits by (simp add: pages_ok_def heap_ok_def h'_def page_fits_def)
    have "distinct (page_blocks (nat bsz) pg)"
      using pos(2) by (auto simp: page_blocks_def distinct_map intro!: inj_onI)
    moreover have "count < 2 ^ 31"
    proof -
      have "1 * count \<le> bsz * count" using fits by (intro mult_right_mono) (auto simp: page_fits_def)
      then show ?thesis using fits unfolding page_fits_def by linarith
    qed
    ultimately have "pool_ok P' h' [pg] (page_blocks (nat bsz) pg) {}"
      using pgs pg fits by (auto simp: pool_ok_def P'_def h'_def page_fits_def)
    moreover have "create_mem_pool sys (Some P) bsz count incr h = Some (0, Some P', h')"
    proof -
      have "accessible h' (header (nat bsz) pg) 8" by (rule page_accessible [OF pgs, of pg]) (simp_all add: header_def)
      then have "read_ptr (header (nat bsz) pg) h' = Some (fst pg)" using pg(6) by (simp add: read_ptr_def h'_def)
      moreover have "0 < header (nat bsz) pg" using pg(3) by (simp add: header_def)
      ultimately show ?thesis using pos pg(1) by (simp add: create_mem_pool_def Let_def P'_def flip: h'_def)
    qed
    moreover have "page_region (nat bsz) pg \<notin> h_live h"
      using pg(5) by (auto simp: apart_def page_region_def)
    ultimately show ?thesis by (intro disjI2 exI [of _ P'] exI [of _ h'] exI [of _ pg]) (simp add: P'_def h'_def)
  qed
qed

lemma destroy_pages_ok:
  "pages_ok bs h pgs \<Longrightarrow> page_chain bs (h_bytes h) page pgs \<Longrightarrow>
   destroy_pages page h = Some (h\<lparr>h_live := h_live h - page_region bs ` set pgs\<rparr>)"
proof (induction pgs arbitrary: h page)
  case Nil
  then show ?case by (subst destroy_pages.simps) simp
next
  case (Cons pg pgs)
  let ?h = "h\<lparr>h_live := h_live h - {page_region bs pg}\<rparr>"
  have page: "page = header bs pg" "page \<noteq> 0" "ptr_at (h_bytes h) page = fst pg"
    "page_chain bs (h_bytes h) (ptr_at (h_bytes h) (page + 16)) pgs"
    using Cons.prems(2) by auto
  have acc: "accessible h page 8" "accessible h (page + 16) 8"
    using page(1) by (auto intro!: page_accessible [OF Cons.prems(1), of pg] simp: header_def)
  have live: "page_region bs pg \<in> h_live h" and hok: "heap_ok h" and fst0: "fst pg \<noteq> 0"
    using Cons.prems(1) header_bounds(1) [OF Cons.prems(1), of pg] by (auto simp: pages_ok_def)
  have "{r \<in> h_live h. fst r \<noteq> fst pg} = h_live h - {page_region bs pg}"
  proof -
    have "r = page_region bs pg" if "r \<in> h_live h" "fst r = fst pg" for r
      using live_base [OF hok, of "fst pg" "snd r" "bs * snd pg + 24"] that live
      by (metis page_region_def prod.collapse)
    then show ?thesis using page_region_simps(1) [of bs pg] by blast
  qed
  moreover have "fst pg \<in> fst ` h_live h" 
    using imageI [OF live, of fst] by (simp add: page_region_simps)
  ultimately have freed: "c_free (fst pg) h = Some ?h" using fst0 by (simp add: c_free_def)
  have "page_region bs q \<noteq> page_region bs pg" if "q \<in> set pgs" for q
  proof
    assume "page_region bs q = page_region bs pg"
    then have "fst q = fst pg" by (simp add: page_region_def)
    moreover have "fst q \<in> fst ` set pgs" using that by (rule imageI)
    ultimately show False using Cons.prems(1) by (simp add: pages_ok_def)
  qed
  moreover have "heap_ok ?h" using hok unfolding heap_ok_def by (rule regions_ok_subset) auto
  ultimately have "pages_ok bs ?h pgs" using Cons.prems(1) by (simp add: pages_ok_def)
  then have "destroy_pages (ptr_at (h_bytes h) (page + 16)) ?h =
      Some (?h\<lparr>h_live := h_live ?h - page_region bs ` set pgs\<rparr>)"
    using page(4) by (intro Cons.IH) simp_all
  moreover have "h_live h - {page_region bs pg} - page_region bs ` set pgs = h_live h - page_region bs ` set (pg # pgs)"
    by auto
  ultimately show ?case
    using page acc freed by (subst destroy_pages.simps) (simp add: read_ptr_def mem_page_next_def)
qed

lemma destroy_mem_pool_ok:
  assumes "pool_ok P h pgs fl U"
  shows "destroy_mem_pool (Some P) h =
    Some (Some (P\<lparr>mm := 0, free_ptr := 0, free_count := 0, block_size := 0, auto_increment := 0\<rparr>),
      h\<lparr>h_live := h_live h - page_region (bsize P) ` set pgs\<rparr>)"
proof -
  have "destroy_pages (mm P) h = Some (h\<lparr>h_live := h_live h - page_region (bsize P) ` set pgs\<rparr>)"
    using assms by (intro destroy_pages_ok) (simp_all add: pool_ok_def)
  then show ?thesis by (simp add: destroy_mem_pool_def)
qed

subsection \<open>The interface\<close>

lemma accessible_within: "accessible h b n \<Longrightarrow> b \<le> x \<Longrightarrow> x + k \<le> b + n \<Longrightarrow> accessible h x k"
  unfolding accessible_def by (elim bexE) (auto intro: bexI [rotated])

type_synonym pool_state = "mem_pool \<times> heap"

definition pool_alloc :: "allocator \<Rightarrow> pool_state \<Rightarrow> (nat \<times> pool_state) option" where
  "pool_alloc sys = (\<lambda>(P, h). do {
     (p, P', h') \<leftarrow> malloc_mem_pool sys (Some P) h;
     P'' \<leftarrow> P';
     Some (p, (P'', h')) })"

definition pool_release :: "nat \<Rightarrow> pool_state \<Rightarrow> pool_state option" where
  "pool_release p = (\<lambda>(P, h). do {
     (P', h') \<leftarrow> free_mem_pool (Some P) p h;
     P'' \<leftarrow> P';
     Some (P'', h') })"

definition pool_poke :: "nat \<Rightarrow> u8 \<Rightarrow> pool_state \<Rightarrow> pool_state option" where
  "pool_poke x v = (\<lambda>(P, h). do { h \<leftarrow> write_byte x v h; Some (P, h) })"

definition pool_peek :: "nat \<Rightarrow> pool_state \<Rightarrow> u8" where
  "pool_peek x = (\<lambda>(P, h). h_bytes h x)"

text \<open>\<open>L\<close> are the regions that others have; \<open>n\<close> more requests keep the counters in range.\<close>

definition pool_inv :: "allocator \<Rightarrow> (nat \<times> nat) set \<Rightarrow> nat \<Rightarrow> nat \<Rightarrow> pool_state \<Rightarrow> nat set \<Rightarrow> bool" where
  "pool_inv sys L bs n = (\<lambda>(P, h) U. malloc_fresh sys \<and> bsize P = bs \<and> may_grow P \<and>
     block_total P + int n * max 0 (auto_increment P) < 2 ^ 31 \<and>
     (\<exists>pgs fl. pool_ok P h pgs fl U \<and> h_live h - page_region bs ` set pgs = L))"

lemma pool_inv_less: "pool_inv sys L bs (Suc n) s U \<Longrightarrow> pool_inv sys L bs n s U"
  by (auto simp: pool_inv_def algebra_simps split: prod.splits)

lemma pool_inv_apart:
  assumes "pool_inv sys L bs n s U" "b \<in> U" "b' \<in> U" "b \<noteq> b'"
  shows "b + bs \<le> b' \<or> b' + bs \<le> b"
proof -
  obtain P h where s: "s = (P, h)" by (cases s)
  then obtain pgs fl where ok: "pool_ok P h pgs fl U" "bsize P = bs" using assms(1) by (auto simp: pool_inv_def)
  then have "pages_ok bs h pgs" "b \<in> set (blocks bs pgs)" "b' \<in> set (blocks bs pgs)"
    using assms(2,3) by (auto simp: pool_ok_def)
  then show ?thesis using assms(4) by (rule blocks_apart)
qed

lemma same_blocks_in: "same_blocks bs pool_peek U (P, h) (P', h') \<longleftrightarrow> same_in bs U h h'"
  by (simp add: same_blocks_def same_in_def pool_peek_def)

lemma pool_alloc_law:
  assumes "pool_inv sys L bs (Suc n) s U"
  shows "\<exists>p s'. pool_alloc sys s = Some (p, s') \<and> same_blocks bs pool_peek U s s' \<and>
    (if p = 0 then s' = s else p \<notin> U \<and> pool_inv sys L bs n s' (insert p U))"
proof -
  obtain P h where s: "s = (P, h)" by (cases s)
  then obtain pgs fl where ok: "pool_ok P h pgs fl U" "h_live h - page_region bs ` set pgs = L" and sys: "malloc_fresh sys"
    and bs: "bsize P = bs" and grow: "may_grow P" and total: "block_total P + int (Suc n) * max 0 (auto_increment P) < 2 ^ 31"
    using assms by (auto simp: pool_inv_def)
  have "max 0 (auto_increment P) \<le> int (Suc n) * max 0 (auto_increment P)" by (simp add: algebra_simps)
  then have "block_total P + auto_increment P < 2 ^ 31" using total by linarith
  from malloc_mem_pool_ok [OF ok(1) sys grow this] obtain p P' h' pgs' fl' where
    m: "malloc_mem_pool sys (Some P) h = Some (p, Some P', h')" "block_size P' = block_size P"
      "auto_increment P' = auto_increment P" "same_in bs U h h'" "block_total P' \<le> block_total P + max 0 (auto_increment P)"
      "p \<noteq> 0 \<longrightarrow> h_live h' - page_region bs ` set pgs' = h_live h - page_region bs ` set pgs"
      "if p = 0 then P' = P \<and> h' = h \<and> fl = [] else p \<notin> U \<and> pool_ok P' h' pgs' fl' (insert p U)"
    using bs by blast
  have "pool_alloc sys s = Some (p, (P', h'))" using m(1) by (simp add: s pool_alloc_def)
  moreover have "pool_inv sys L bs n (P', h') (insert p U)" if "p \<noteq> 0"
  proof -
    have "block_total P' + int n * max 0 (auto_increment P) < 2 ^ 31" using m(5) total by (simp add: algebra_simps)
    moreover have "pool_ok P' h' pgs' fl' (insert p U)" "h_live h' - page_region bs ` set pgs' = L"
      using m(6,7) that ok(2) by auto
    ultimately show ?thesis using sys bs grow m(2,3) unfolding pool_inv_def may_grow_def by auto
  qed
  ultimately show ?thesis using m(4,7) by (auto simp: s same_blocks_in split: if_splits)
qed

lemma pool_release_law:
  assumes "pool_inv sys L bs n s U" "p \<in> U"
  shows "\<exists>s'. pool_release p s = Some s' \<and> same_blocks bs pool_peek (U - {p}) s s' \<and> pool_inv sys L bs n s' (U - {p})"
proof -
  obtain P h where s: "s = (P, h)" by (cases s)
  then obtain pgs fl where ok: "pool_ok P h pgs fl U" "h_live h - page_region bs ` set pgs = L" and
    inv: "malloc_fresh sys" "bsize P = bs" "may_grow P" "block_total P + int n * max 0 (auto_increment P) < 2 ^ 31"
    using assms by (auto simp: pool_inv_def)
  obtain P' h' where f: "free_mem_pool (Some P) p h = Some (Some P', h')" "pool_ok P' h' pgs (p # fl) (U - {p})"
    "block_size P' = block_size P" "auto_increment P' = auto_increment P" "block_total P' = block_total P"
    "same_in bs (U - {p}) h h'" "h_live h' = h_live h"
    using free_mem_pool_held [OF ok(1) assms(2)] inv(2) by blast
  have "pool_inv sys L bs n (P', h') (U - {p})"
    using f inv ok(2) unfolding pool_inv_def may_grow_def by auto
  then show ?thesis using f by (simp add: s pool_release_def same_blocks_in)
qed

lemma pool_poke_law:
  assumes "pool_inv sys L bs n s U" "b \<in> U" "b \<le> x" "x < b + bs"
  shows "\<exists>s'. pool_poke x v s = Some s' \<and> pool_inv sys L bs n s' U \<and> pool_peek x s' = v \<and>
    (\<forall>y. y \<noteq> x \<longrightarrow> pool_peek y s' = pool_peek y s)"
proof -
  obtain P h where s: "s = (P, h)" by (cases s)
  then obtain pgs fl where ok: "pool_ok P h pgs fl U" "h_live h - page_region bs ` set pgs = L" and
    inv: "malloc_fresh sys" "bsize P = bs" "may_grow P" "block_total P + int n * max 0 (auto_increment P) < 2 ^ 31"
    using assms by (auto simp: pool_inv_def)
  have "pages_ok bs h pgs" "b \<in> set (blocks bs pgs)" using ok(1) assms(2) inv(2) by (auto simp: pool_ok_def)
  from block_accessible [OF this order_refl] have "accessible h x 1" by (rule accessible_within) (use assms(3,4) in auto)
  then have "pool_poke x v s = Some (P, h\<lparr>h_bytes := (h_bytes h)(x := v)\<rparr>)"
    by (simp add: s pool_poke_def write_byte_def)
  moreover have "pool_ok P (h\<lparr>h_bytes := (h_bytes h)(x := v)\<rparr>) pgs fl U"
    using assms(3,4) inv(2) by (intro pool_write [OF ok(1) assms(2)]) auto
  then have "pool_inv sys L bs n (P, h\<lparr>h_bytes := (h_bytes h)(x := v)\<rparr>) U"
    using inv ok(2) unfolding pool_inv_def by auto
  ultimately show ?thesis by (simp add: s pool_peek_def)
qed

interpretation mp: block_allocator "pool_inv sys L bs" bs "pool_alloc sys" pool_release pool_poke pool_peek
  for sys L bs
  by unfold_locales (fact pool_inv_less pool_inv_apart pool_alloc_law pool_release_law pool_poke_law)+

subsection \<open>Properties\<close>


definition raw_pool :: mem_pool where
  "raw_pool = \<lparr>block_size = 0, block_total = 0, auto_increment = 0, free_count = 0, free_ptr = 0, mm = 0\<rparr>"

lemma sample_pool:
  obtains P' h' pg where "create_mem_pool finite_next_free (Some raw_pool) 16 2 2 empty_heap = Some (0, Some P', h')"
    "pool_ok P' h' [pg] (page_blocks 16 pg) {}" "block_size P' = 16" "auto_increment P' = 2" "block_total P' = 2"
proof -
  have h: "heap_ok empty_heap" by (simp add: heap_ok_def regions_ok_def empty_heap_def)
  have fits: "page_fits 16 2" by (simp add: page_fits_def)
  from create_mem_pool_ok [OF h finite_next_free fits, of raw_pool 2] show ?thesis
  proof
    assume "create_mem_pool finite_next_free (Some raw_pool) 16 2 2 empty_heap = Some (- 1, Some (raw_pool\<lparr>block_size := 16,
      auto_increment := 2, free_count := 2, block_total := 2\<rparr>), empty_heap)"
    moreover have "to_size (to_int32 56) = 56" by (simp add: to_int32_id to_size_id)
    then have "fst (c_malloc finite_next_free (to_size (to_int32 56)) empty_heap) = 4096"
      by (simp add: c_malloc_def finite_next_free_def next_free_def empty_heap_def Let_def)
    ultimately have False
      by (auto simp: create_mem_pool_def malloc_mem_page_def s32_def sizeof_mem_page_def Let_def split_beta
          split: Option.bind_splits if_splits)
    then show ?thesis ..
  qed (use that in auto)
qed


text \<open>freeing a pointer that does not start a block of the pool, or freeing null, changes nothing, and a null pool
  is answered with null and -1.\<close>

theorem mem_pool_refuses:
  assumes "pool_ok P h pgs fl U" "p \<notin> set (blocks (bsize P) pgs)"
  shows "free_mem_pool (Some P) p h = Some (Some P, h) \<and> free_mem_pool None p h = Some (None, h) \<and>
    malloc_mem_pool sys None h = Some (0, None, h) \<and> create_mem_pool sys None a b c h = Some (- 1, None, h)"
  using free_mem_pool_other [OF assms] by (simp add: free_mem_pool_def malloc_mem_pool_def create_mem_pool_def)

lemma mem_pool_refuses_witness:
  "\<exists>P h. pool_ok P h [] [] {} \<and> free_mem_pool (Some P) 5 h = Some (Some P, h)"
proof -
  have ok: "pool_ok (raw_pool\<lparr>block_size := 8\<rparr>) empty_heap [] [] {}"
    by (simp add: pool_ok_def pages_ok_def heap_ok_def regions_ok_def empty_heap_def raw_pool_def)
  then show ?thesis using mem_pool_refuses [OF ok, of 5]
    by (intro exI [of _ "raw_pool\<lparr>block_size := 8\<rparr>"] exI [of _ empty_heap]) simp
qed

text \<open>a block freed twice is in the free list twice: the pool then hands it out to two callers.\<close>

theorem mem_pool_double_free:
  assumes "pool_ok P h pgs fl U" "p \<in> U" "free_count P + 2 < 2 ^ 31"
  shows "\<exists>P1 h1 P2 h2 P3 h3 P4 h4. free_mem_pool (Some P) p h = Some (Some P1, h1) \<and>
    free_mem_pool (Some P1) p h1 = Some (Some P2, h2) \<and> malloc_mem_pool sys (Some P2) h2 = Some (p, Some P3, h3) \<and>
    malloc_mem_pool sys (Some P3) h3 = Some (p, Some P4, h4)"
proof -
  obtain P1 h1 where f: "free_mem_pool (Some P) p h = Some (Some P1, h1)" "pool_ok P1 h1 pgs (p # fl) (U - {p})"
    "block_size P1 = block_size P"
    using free_mem_pool_held [OF assms(1,2)] by blast
  let ?bs = "bsize P1"
  have pg: "pages_ok ?bs h1 pgs" and pc: "page_chain ?bs (h_bytes h1) (mm P1) pgs" and pb: "p \<in> set (blocks ?bs pgs)"
    and fp: "free_ptr P1 = p" and fc: "free_count P1 = int (length (p # fl))"
    using f(2) by (auto simp: pool_ok_def)
  have len: "int (length fl) + 2 < 2 ^ 31" using assms(1,3) by (simp add: pool_ok_def)
  have 8: "8 \<le> ?bs" using pg by (simp add: pages_ok_def)
  obtain q where q: "List.find (\<lambda>pg. fst pg \<le> p \<and> p < header ?bs pg) pgs = Some q" "(p - fst q) mod ?bs = 0"
    using page_of_block [OF pg, of p] pb by auto
  have p0: "p \<noteq> 0" "p < 2 ^ 64" using block_bounds [OF pg pb] by auto
  define h2 where "h2 = h1\<lparr>h_bytes := put_ptr p p (h_bytes h1)\<rparr>"
  define P2 where "P2 = P1\<lparr>free_ptr := p, free_count := free_count P1 + 1\<rparr>"
  have acc: "accessible h1 p 8" by (rule block_accessible [OF pg pb 8])
  have "free_mem_pool (Some P1) p h1 = Some (Some P2, h2)"
    using free_walk_run [OF pg subset_refl pc, of p] q p0 fp fc len acc
    by (simp add: free_mem_pool_def write_ptr_def h2_def P2_def s32_def)
  moreover have "read_ptr p h2 = Some p" using acc p0(2) by (simp add: read_ptr_def h2_def)
  then have "malloc_mem_pool sys (Some P2) h2 = Some (p, Some (P2\<lparr>free_ptr := p, free_count := free_count P2 - 1\<rparr>), h2)"
    "malloc_mem_pool sys (Some (P2\<lparr>free_ptr := p, free_count := free_count P2 - 1\<rparr>)) h2 =
      Some (p, Some (P2\<lparr>free_ptr := p, free_count := free_count P2 - 1 - 1\<rparr>), h2)"
    using p0(1) fc len by (simp_all add: malloc_mem_pool_def P2_def s32_def)
  ultimately show ?thesis using f(1) by blast
qed

lemma mem_pool_double_free_witness:
  "\<exists>P h p P1 h1 P2 h2 P3 h3 P4 h4. free_mem_pool (Some P) p h = Some (Some P1, h1) \<and>
    free_mem_pool (Some P1) p h1 = Some (Some P2, h2) \<and>
    malloc_mem_pool finite_next_free (Some P2) h2 = Some (p, Some P3, h3) \<and>
    malloc_mem_pool finite_next_free (Some P3) h3 = Some (p, Some P4, h4)"
proof -
  obtain P h pg where s: "pool_ok P h [pg] (page_blocks 16 pg) {}" "block_size P = 16" "auto_increment P = 2" "block_total P = 2"
    using sample_pool by blast
  then have two: "length (page_blocks 16 pg) = 2" "free_count P = 2" by (auto simp: pool_ok_def)
  then obtain b l where bl: "page_blocks 16 pg = b # l" by (cases "page_blocks 16 pg") auto
  obtain nxt where "pool_ok (P\<lparr>free_ptr := nxt, free_count := free_count P - 1\<rparr>) h [pg] l {b}"
    using take_block [OF s(1) [unfolded bl]] by auto
  from mem_pool_double_free [OF this, of b finite_next_free] two(2) show ?thesis
    by - (rule exI [of _ "P\<lparr>free_ptr := nxt, free_count := free_count P - 1\<rparr>"], rule exI [of _ h], rule exI [of _ b], simp)
qed

end
