(* ===== verification/Mm_Pool.thy ===== *)
theory Mm_Pool
  imports Byte_Heap
begin

text \<open>
  The fixed memory pool of \<open>pools/mem_pool/mm_pool.h\<close>: one region of blocks with the free list in them.  The
  code does not check \<open>malloc\<close>, writes behind its region and compares a freed pointer with the free blocks.
\<close>

record mem_pools =
  m_block_size :: int
  m_free_count :: int
  m_block_count :: int
  m_free_ptr :: nat
  m_mem :: nat

fun create_links :: "nat \<Rightarrow> nat \<Rightarrow> nat \<Rightarrow> heap \<Rightarrow> (nat \<times> heap) option" where
  "create_links 0 ptr bs h = Some (ptr, h)"
| "create_links (Suc n) ptr bs h = do {
     h \<leftarrow> write_ptr ptr (ptr + bs) h;
     create_links n (ptr + bs) bs h }"

text \<open>Negative sizes are not modelled: \<open>None\<close>.\<close>

definition mem_create :: "allocator \<Rightarrow> mem_pools option \<Rightarrow> int \<Rightarrow> int \<Rightarrow> heap \<Rightarrow> (int \<times> mem_pools option \<times> heap) option" where
  "mem_create sys mem block_count bsz h =
     (case mem of
        None \<Rightarrow> Some (- 1, None, h)
      | Some P \<Rightarrow>
          if bsz < 0 \<or> block_count < 0 then None
          else do {
            bytes \<leftarrow> s32 (block_count * bsz);
            let (ptr, h) = c_malloc sys (nat bytes) h;
            (ptr1, h) \<leftarrow> create_links (nat block_count) ptr (nat bsz) h;
            h \<leftarrow> write_ptr ptr1 0 h;
            Some (0, Some (P\<lparr>m_free_count := block_count, m_block_count := block_count, m_block_size := bsz,
              m_mem := ptr, m_free_ptr := ptr\<rparr>), h) })"

definition mem_destory :: "mem_pools \<Rightarrow> heap \<Rightarrow> heap option" where
  "mem_destory P h = (if m_mem P \<noteq> 0 then c_free (m_mem P) h else Some h)"

definition mem_alloc :: "mem_pools \<Rightarrow> heap \<Rightarrow> (nat \<times> mem_pools) option" where
  "mem_alloc P h =
     (if m_free_count P = 0 then Some (0, P)
      else do {
        let ptr = m_free_ptr P;
        nxt \<leftarrow> read_ptr ptr h;
        count \<leftarrow> s32 (m_free_count P - 1);
        Some (ptr, P\<lparr>m_free_ptr := nxt, m_free_count := count\<rparr>) })"

definition mem_free :: "mem_pools \<Rightarrow> nat \<Rightarrow> heap \<Rightarrow> (mem_pools \<times> heap) option" where
  "mem_free P ptr h = do {
     bytes \<leftarrow> s32 (m_free_count P * m_block_size P);
     if ptr < m_mem P \<or> int ptr \<ge> int (m_mem P) + bytes then Some (P, h)
     else do {
       h \<leftarrow> write_ptr ptr (m_free_ptr P) h;
       count \<leftarrow> s32 (m_free_count P + 1);
       Some (P\<lparr>m_free_ptr := ptr, m_free_count := count\<rparr>, h) } }"

lemma create_links_end: "create_links n p bs h = Some (p', h') \<Longrightarrow> p' = p + n * bs \<and> h_live h' = h_live h"
proof (induction n arbitrary: p h)
  case (Suc n)
  then obtain h1 where h1: "write_ptr p (p + bs) h = Some h1" "create_links n (p + bs) bs h1 = Some (p', h')"
    by (cases "write_ptr p (p + bs) h") simp_all
  moreover have "h_live h1 = h_live h" using h1(1) by (simp add: write_ptr_def split: if_splits) auto
  ultimately show ?case using Suc.IH [OF h1(2)] by simp
qed simp

text \<open>creating the pool writes eight bytes behind its region, which is undefined unless some other region
  happens to be there.\<close>

theorem mem_create_overruns:
  assumes "malloc_fresh sys" "0 < bsz" "0 < block_count"
    and "\<not> accessible (snd (c_malloc sys (nat (block_count * bsz)) h))
      (sys h (nat (block_count * bsz)) + nat (block_count * bsz)) 8"
  shows "mem_create sys (Some P) block_count bsz h = None"
proof (cases "s32 (block_count * bsz)")
  case (Some bytes)
  let ?n = "nat (block_count * bsz)"
  have b: "bytes = block_count * bsz" using Some by (simp add: s32_def split: if_splits)
  obtain p h1 where m: "c_malloc sys ?n h = (p, h1)" by (cases "c_malloc sys ?n h")
  then have p: "p = sys h ?n" by (simp add: c_malloc_def Let_def)
  have "\<not> accessible h2 p2 8" if "create_links (nat block_count) p (nat bsz) h1 = Some (p2, h2)" for p2 h2
  proof -
    have "p2 = p + ?n" "h_live h2 = h_live h1"
      using create_links_end [OF that] assms(2,3) by (simp_all add: nat_mult_distrib)
    then show ?thesis using assms(4) m p by (simp add: accessible_def)
  qed
  then show ?thesis using assms(2,3) Some b m
    by (auto simp: mem_create_def write_ptr_def split: Option.bind_splits)
qed (use assms in \<open>simp add: mem_create_def\<close>)

lemma mem_create_overruns_witness:
  "mem_create finite_next_free (Some \<lparr>m_block_size = 0, m_free_count = 0, m_block_count = 0, m_free_ptr = 0, m_mem = 0\<rparr>)
    4 16 empty_heap = None"
  by (rule mem_create_overruns [OF finite_next_free])
    (simp_all add: c_malloc_def finite_next_free_def next_free_def empty_heap_def accessible_def Let_def)

text \<open>when every block is out, no block can be given back: the check multiplies the number of free blocks,
  not of all blocks, so the pool refuses the pointer and stays empty.\<close>

theorem mem_free_empty_pool:
  assumes "m_free_count P = 0"
  shows "mem_free P p h = Some (P, h) \<and> mem_alloc P h = Some (0, P)"
  using assms by (auto simp: mem_free_def mem_alloc_def s32_def)

lemma mem_free_empty_pool_witness:
  "mem_free \<lparr>m_block_size = 16, m_free_count = 0, m_block_count = 4, m_free_ptr = 0, m_mem = 4096\<rparr> 4096 empty_heap =
     Some (\<lparr>m_block_size = 16, m_free_count = 0, m_block_count = 4, m_free_ptr = 0, m_mem = 4096\<rparr>, empty_heap)"
  using mem_free_empty_pool
    [of "\<lparr>m_block_size = 16, m_free_count = 0, m_block_count = 4, m_free_ptr = 0, m_mem = 4096\<rparr>" 4096 empty_heap]
  by simp

end
