(* ===== verification/Fifo_Queue.thy ===== *)
theory Fifo_Queue
  imports Sys_Queue_Lists
begin

text \<open>
  The interface of a first-in first-out queue, and the two linked queues of the repository that provide it besides
  those of \<open>sys_queue.h\<close>: the tasks of a thread pool (\<open>pools/thread_pool/thread_pool.cpp\<close>) and the list
  of \<open>tree/fifo_list/main.cpp\<close>.
\<close>

subsection \<open>The interface\<close>

datatype 'e fifo_op = Push 'e | Pop

text \<open>What a sequence of calls returns, for a list and for an implementation.\<close>

fun list_fifo :: "('e \<Rightarrow> 'e list \<Rightarrow> bool) \<Rightarrow> 'e fifo_op list \<Rightarrow> 'e list \<Rightarrow> ('e option list \<times> 'e list) option" where
  "list_fifo fits [] xs = Some ([], xs)"
| "list_fifo fits (Push e # ops) xs = (if fits e xs then list_fifo fits ops (xs @ [e]) else None)"
| "list_fifo fits (Pop # ops) xs = do {
     (rs, ys) \<leftarrow> list_fifo fits ops (tl xs);
     Some ((if xs = [] then None else Some (hd xs)) # rs, ys) }"

fun run_fifo :: "('e \<Rightarrow> 'm \<Rightarrow> 'm option) \<Rightarrow> ('m \<Rightarrow> ('m \<times> 'e option) option) \<Rightarrow> 'e fifo_op list \<Rightarrow> 'm \<Rightarrow>
    ('e option list \<times> 'm) option" where
  "run_fifo push pop [] m = Some ([], m)"
| "run_fifo push pop (Push e # ops) m = do { m \<leftarrow> push e m; run_fifo push pop ops m }"
| "run_fifo push pop (Pop # ops) m = do {
     (m, r) \<leftarrow> pop m;
     (rs, m) \<leftarrow> run_fifo push pop ops m;
     Some (r # rs, m) }"

locale fifo_queue =
  fixes rep :: "'m \<Rightarrow> 'e list \<Rightarrow> bool"
    and fits :: "'e \<Rightarrow> 'e list \<Rightarrow> bool"
    and push :: "'e \<Rightarrow> 'm \<Rightarrow> 'm option"
    and pop :: "'m \<Rightarrow> ('m \<times> 'e option) option"
  assumes push_rep: "rep m xs \<Longrightarrow> fits e xs \<Longrightarrow> \<exists>m'. push e m = Some m' \<and> rep m' (xs @ [e])"
    and pop_rep: "rep m (e # xs) \<Longrightarrow> \<exists>m'. pop m = Some (m', Some e) \<and> rep m' xs"
    and pop_empty: "rep m [] \<Longrightarrow> pop m = Some (m, None)"
begin

lemma history:
  "rep m xs \<Longrightarrow> list_fifo fits ops xs = Some (rs, ys) \<Longrightarrow> \<exists>m'. run_fifo push pop ops m = Some (rs, m') \<and> rep m' ys"
proof (induction ops arbitrary: m xs rs ys)
  case (Cons c ops)
  show ?case
  proof (cases c)
    case (Push e)
    with Cons.prems(2) have "fits e xs" and rest: "list_fifo fits ops (xs @ [e]) = Some (rs, ys)"
      by (auto split: if_splits)
    with Cons.prems(1) obtain m1 where "push e m = Some m1" "rep m1 (xs @ [e])" using push_rep by blast
    then show ?thesis using Cons.IH [OF _ rest] by (simp add: Push)
  next
    case Pop
    with Cons.prems(2) obtain rs' where rest: "list_fifo fits ops (tl xs) = Some (rs', ys)"
      and rs: "rs = (if xs = [] then None else Some (hd xs)) # rs'"
      by (auto split: bind_splits)
    obtain m1 where "pop m = Some (m1, if xs = [] then None else Some (hd xs))" "rep m1 (tl xs)"
      using Cons.prems(1) pop_empty pop_rep [of m "hd xs" "tl xs"] by (cases xs) auto
    moreover from Cons.IH [OF this(2) rest] obtain m' where "run_fifo push pop ops m1 = Some (rs', m')" "rep m' ys"
      by blast
    ultimately show ?thesis using rs by (simp add: Pop)
  qed
qed simp

end

subsection \<open>The tasks of a thread pool\<close>

text \<open>
  A task is a node of the queue with a function and its argument; its first field links it to the next.  The queue's
  \<open>head\<close> and \<open>tail\<close> are those of head number \<open>h\<close>.  The two critical sections of the spinlock are one step each.
\<close>

record sh_task_queue =
  tq_mem :: queue_mem
  tq_fun :: "nat \<Rightarrow> nat"
  tq_args :: "nat \<Rightarrow> nat"

type_synonym sh_task = "nat \<times> nat \<times> nat"

text \<open>\<open>task\<close> is what \<open>malloc\<close> returned, 0 when there is no memory.\<close>

definition push_task :: "nat \<Rightarrow> sh_task \<Rightarrow> sh_task_queue \<Rightarrow> sh_task_queue option" where
  "push_task h = (\<lambda>(task, fn, args) q.
     if task = 0 then Some q
     else do {
       q \<leftarrow> Some (q\<lparr>tq_args := (tq_args q)(task := args)\<rparr>);
       q \<leftarrow> Some (q\<lparr>tq_fun := (tq_fun q)(task := fn)\<rparr>);
       m \<leftarrow> set_next task 0 (tq_mem q);
       m \<leftarrow> write_slot (q_last m h) task m;
       Some (q\<lparr>tq_mem := set_last h (Next task) m\<rparr>) })"

definition pop_task :: "nat \<Rightarrow> sh_task_queue \<Rightarrow> (sh_task_queue \<times> nat) option" where
  "pop_task h q =
     (if q_first (tq_mem q) h \<noteq> 0
      then do {
        task \<leftarrow> Some (q_first (tq_mem q) h);
        n \<leftarrow> get_next task (tq_mem q);
        m \<leftarrow> Some (set_first h n (tq_mem q));
        m \<leftarrow> Some (if q_first m h = 0 then set_last h (First h) m else m);
        Some (q\<lparr>tq_mem := m\<rparr>, task) }
      else Some (q, 0))"

definition sh_create_task_queue :: "nat \<Rightarrow> sh_task_queue \<Rightarrow> sh_task_queue" where
  "sh_create_task_queue h q = q\<lparr>tq_mem := set_last h (First h) (set_first h 0 (tq_mem q))\<rparr>"

text \<open>The tasks freed when a queue is destroyed.\<close>

partial_function (option) sh_destory_task_queue :: "nat \<Rightarrow> sh_task_queue \<Rightarrow> nat list option" where
  "sh_destory_task_queue h q = do {
     (q, task) \<leftarrow> pop_task h q;
     if task \<noteq> 0 then do { ts \<leftarrow> sh_destory_task_queue h q; Some (task # ts) } else Some [] }"

text \<open>What a worker does with the task it has popped: it reads the function and the argument.\<close>

definition take_task :: "nat \<Rightarrow> sh_task_queue \<Rightarrow> (sh_task_queue \<times> sh_task option) option" where
  "take_task h q = do {
     (q, task) \<leftarrow> pop_task h q;
     Some (q, if task \<noteq> 0 then Some (task, tq_fun q task, tq_args q task) else None) }"

definition tasks :: "nat \<Rightarrow> sh_task_queue \<Rightarrow> sh_task list \<Rightarrow> bool" where
  "tasks h q xs \<longleftrightarrow> stailq h (tq_mem q) (map fst xs) \<and> (\<forall>(t, f, a)\<in>set xs. tq_fun q t = f \<and> tq_args q t = a)"

definition fresh_task :: "sh_task \<Rightarrow> sh_task list \<Rightarrow> bool" where
  "fresh_task = (\<lambda>(t, f, a) xs. t \<noteq> 0 \<and> t \<notin> set (map fst xs))"

lemma create_tasks: "tasks h (sh_create_task_queue h q) []"
  by (simp add: tasks_def sh_create_task_queue_def stailq_def mem_defs)

lemma push_task_eq:
  "task \<noteq> 0 \<Longrightarrow> push_task h (task, fn, args) q = do {
     m \<leftarrow> STAILQ_INSERT_TAIL h task (tq_mem q);
     Some (q\<lparr>tq_args := (tq_args q)(task := args), tq_fun := (tq_fun q)(task := fn), tq_mem := m\<rparr>) }"
  by (auto simp: push_task_def STAILQ_INSERT_TAIL_def mem_defs split: bind_splits)

lemma pop_task_eq:
  "stailq h (tq_mem q) (t # ts) \<Longrightarrow> pop_task h q = do {
     m \<leftarrow> STAILQ_REMOVE_HEAD h (tq_mem q);
     Some (q\<lparr>tq_mem := m\<rparr>, t) }"
  by (auto simp: pop_task_def STAILQ_REMOVE_HEAD_def stailq_def mem_defs split: bind_splits)

lemma tasks_push:
  assumes rep: "tasks h q xs" and fits: "fresh_task e xs"
  shows "\<exists>q'. push_task h e q = Some q' \<and> tasks h q' (xs @ [e])"
proof -
  obtain t f a where e: "e = (t, f, a)" by (cases e)
  have new: "t \<noteq> 0" "t \<notin> set (map fst xs)" using fits by (auto simp: e fresh_task_def)
  have "stailq h (tq_mem q) (map fst xs)" using rep by (simp add: tasks_def)
  from STAILQ_INSERT_TAIL_rep [OF this new] obtain m where
    "STAILQ_INSERT_TAIL h t (tq_mem q) = Some m" "stailq h m (map fst xs @ [t])" by blast
  moreover have "t' \<noteq> t" if "(t', f', a') \<in> set xs" for t' f' a'
    using new(2) that by (metis fst_conv image_eqI set_map)
  ultimately show ?thesis using rep new(1) by (auto simp: e push_task_eq tasks_def)
qed

lemma tasks_pop:
  assumes rep: "tasks h q (e # xs)"
  shows "\<exists>q'. take_task h q = Some (q', Some e) \<and> tasks h q' xs \<and> pop_task h q = Some (q', fst e)"
proof -
  obtain t f a where e: "e = (t, f, a)" by (cases e)
  have s: "stailq h (tq_mem q) (t # map fst xs)" using rep by (simp add: e tasks_def)
  then obtain m where "STAILQ_REMOVE_HEAD h (tq_mem q) = Some m" "stailq h m (map fst xs)"
    using STAILQ_REMOVE_HEAD_rep by blast
  moreover have "t \<noteq> 0" using s by (auto simp: stailq_def)
  ultimately show ?thesis using rep by (simp add: e take_task_def pop_task_eq [OF s] tasks_def)
qed

lemma tasks_empty: "tasks h q [] \<Longrightarrow> take_task h q = Some (q, None) \<and> pop_task h q = Some (q, 0)"
  by (simp add: take_task_def pop_task_def tasks_def stailq_def)

interpretation tq: fifo_queue "tasks h" fresh_task "push_task h" "take_task h" for h
  by unfold_locales (use tasks_push tasks_pop tasks_empty in blast)+

lemma destory_tasks: "tasks h q xs \<Longrightarrow> sh_destory_task_queue h q = Some (map fst xs)"
proof (induction xs arbitrary: q)
  case Nil
  then show ?case using tasks_empty [of h q] by (subst sh_destory_task_queue.simps) simp
next
  case (Cons e xs)
  then obtain q' where "tasks h q' xs" "pop_task h q = Some (q', fst e)" using tasks_pop by blast
  moreover have "fst e \<noteq> 0" using Cons.prems by (auto simp: tasks_def stailq_def)
  ultimately show ?case using Cons.IH by (subst sh_destory_task_queue.simps) simp
qed

subsection \<open>The list of \<open>fifo_list\<close>\<close>

text \<open>
  Nodes are addresses; popping leaves the pointer to the last node as it is.  \<open>node\<close> is what \<open>malloc\<close> returned, which
  the code does not test.
\<close>

record fifo_list =
  fl_head :: nat
  fl_tatil :: nat
  fl_data :: "nat \<Rightarrow> int"
  fl_next :: "nat \<Rightarrow> nat"

definition init_list :: "fifo_list \<Rightarrow> fifo_list" where
  "init_list q = q\<lparr>fl_head := 0, fl_tatil := 0\<rparr>"

definition push_back :: "nat \<times> int \<Rightarrow> fifo_list \<Rightarrow> fifo_list option" where
  "push_back = (\<lambda>(node, data) q.
     if node = 0 then None
     else let q = q\<lparr>fl_data := (fl_data q)(node := data), fl_next := (fl_next q)(node := 0)\<rparr> in
       if fl_head q = 0 then Some (q\<lparr>fl_head := node, fl_tatil := node\<rparr>)
       else if fl_tatil q = 0 then None
       else let q = q\<lparr>fl_next := (fl_next q)(fl_tatil q := node)\<rparr> in
         Some (q\<lparr>fl_tatil := fl_next q (fl_tatil q)\<rparr>))"

definition pop_front :: "fifo_list \<Rightarrow> fifo_list \<times> nat" where
  "pop_front q =
     (if fl_head q = 0 then (q, 0)
      else let node = fl_head q in (q\<lparr>fl_head := fl_next q (fl_head q)\<rparr>, node))"

definition fl_is_empty :: "fifo_list \<Rightarrow> bool" where
  "fl_is_empty q = (fl_head q = 0)"

text \<open>The nodes that \<open>clear_list\<close> frees, and the list it leaves.\<close>

partial_function (option) clear_nodes :: "fifo_list \<Rightarrow> nat \<Rightarrow> nat list option" where
  "clear_nodes q node =
     (if node = 0 then Some []
      else do { ns \<leftarrow> clear_nodes q (fl_next q node); Some (node # ns) })"

definition clear_list :: "fifo_list \<Rightarrow> (fifo_list \<times> nat list) option" where
  "clear_list q = do {
     ns \<leftarrow> clear_nodes q (fl_head q);
     Some (q\<lparr>fl_head := 0, fl_tatil := 0\<rparr>, ns) }"

text \<open>What \<open>main\<close> does with a popped node: it reads its data.\<close>

definition pop_data :: "fifo_list \<Rightarrow> (fifo_list \<times> (nat \<times> int) option) option" where
  "pop_data q = (let (q, node) = pop_front q in Some (q, if node = 0 then None else Some (node, fl_data q node)))"

definition listed :: "fifo_list \<Rightarrow> (nat \<times> int) list \<Rightarrow> bool" where
  "listed q xs \<longleftrightarrow> distinct (map fst xs) \<and> path (fl_next q) (fl_head q) (map fst xs) 0 \<and>
     (\<forall>(n, d)\<in>set xs. fl_data q n = d) \<and> (xs \<noteq> [] \<longrightarrow> fl_tatil q = fst (last xs))"

definition fresh_node :: "nat \<times> int \<Rightarrow> (nat \<times> int) list \<Rightarrow> bool" where
  "fresh_node = (\<lambda>(n, d) xs. n \<noteq> 0 \<and> n \<notin> set (map fst xs))"

lemma listed_push:
  assumes rep: "listed q xs" and fits: "fresh_node e xs"
  shows "\<exists>q'. push_back e q = Some q' \<and> listed q' (xs @ [e])"
proof (cases xs rule: rev_cases)
  case Nil
  then show ?thesis using assms by (cases e) (auto simp: listed_def fresh_node_def push_back_def)
next
  case (snoc ys y)
  obtain n d n' d' where e: "e = (n, d)" and y: "y = (n', d')" by (cases e, cases y)
  have new: "n \<noteq> 0" "n \<noteq> n'" "n \<notin> set (map fst ys)" "n' \<noteq> 0" "n' \<notin> set (map fst ys)"
    using assms by (auto simp: e y snoc fresh_node_def listed_def)
  have head: "fl_head q \<noteq> 0" using rep by (cases ys) (auto simp: listed_def snoc)
  have "n'' \<noteq> n" if "(n'', d'') \<in> set ys" for n'' d''
    using new(3) that by (metis fst_conv image_eqI set_map)
  then show ?thesis using rep new head by (auto simp: e y snoc listed_def push_back_def Let_def)
qed

lemma listed_pop: "listed q (e # xs) \<Longrightarrow> \<exists>q'. pop_data q = Some (q', Some e) \<and> listed q' xs"
  by (cases e) (auto simp: listed_def pop_data_def pop_front_def Let_def)

lemma listed_empty: "listed q [] \<Longrightarrow> pop_data q = Some (q, None)"
  by (simp add: listed_def pop_data_def pop_front_def)

interpretation fl: fifo_queue listed fresh_node push_back pop_data
  by unfold_locales (use listed_push listed_pop listed_empty in blast)+

lemma clear_listed: "path (fl_next q) n ns 0 \<Longrightarrow> clear_nodes q n = Some ns"
proof (induction ns arbitrary: n)
  case Nil
  then show ?case by (subst clear_nodes.simps) simp
next
  case (Cons x ns)
  then show ?case by (subst clear_nodes.simps) auto
qed

subsection \<open>The properties\<close>

text \<open>
  C28: the task queue of the thread pool is first-in first-out: whatever tasks are pushed and popped, at addresses that
  are free, from an empty queue, each pop gives the oldest task with its function and argument, and destroying the
  queue then frees exactly the tasks still in it.
\<close>

theorem task_queue_history:
  assumes "list_fifo fresh_task ops [] = Some (rs, ys)"
  shows "\<exists>q'. run_fifo (push_task h) (take_task h) ops (sh_create_task_queue h q) = Some (rs, q') \<and>
    sh_destory_task_queue h q' = Some (map fst ys)"
  using tq.history [OF create_tasks assms] destory_tasks by blast

definition some_queue :: sh_task_queue where
  "some_queue = \<lparr>tq_mem = \<lparr>q_first = (\<lambda>_. 9), q_last = (\<lambda>_. First 3), q_next = (\<lambda>_. 4), q_prev = (\<lambda>_. First 1)\<rparr>,
     tq_fun = (\<lambda>_. 0), tq_args = (\<lambda>_. 0)\<rparr>"

theorem task_queue_history_witness:
  "\<exists>q'. run_fifo (push_task 0) (take_task 0) [Pop, Push (8, 1, 11), Push (16, 2, 22), Pop, Push (24, 3, 33)]
      (sh_create_task_queue 0 some_queue) = Some ([None, Some (8, 1, 11)], q') \<and>
    sh_destory_task_queue 0 q' = Some [16, 24]"
  using task_queue_history [of "[Pop, Push (8, 1, 11), Push (16, 2, 22), Pop, Push (24, 3, 33)]"
      "[None, Some (8, 1, 11)]" "[(16, 2, 22), (24, 3, 33)]" 0 some_queue]
  by (simp add: fresh_task_def)

text \<open>
  the list of \<open>fifo_list\<close> is first-in first-out from an initialised list on, also when it becomes empty and is used
  again, and \<open>clear_list\<close> frees the nodes still in it and leaves it empty.
\<close>

theorem fifo_list_history:
  assumes "list_fifo fresh_node ops [] = Some (rs, ys)"
  shows "\<exists>q' q''. run_fifo push_back pop_data ops (init_list q) = Some (rs, q') \<and> (fl_is_empty q' \<longleftrightarrow> ys = []) \<and>
    clear_list q' = Some (q'', map fst ys) \<and> fl_is_empty q''"
proof -
  have "listed (init_list q) []" by (simp add: listed_def init_list_def)
  from fl.history [OF this assms] obtain q' where q': "run_fifo push_back pop_data ops (init_list q) = Some (rs, q')"
    and ys: "listed q' ys" by blast
  then have "clear_nodes q' (fl_head q') = Some (map fst ys)" by (auto simp: listed_def intro: clear_listed)
  moreover have "fl_is_empty q' \<longleftrightarrow> ys = []" using ys by (cases ys) (auto simp: listed_def fl_is_empty_def)
  ultimately show ?thesis using q' by (simp add: clear_list_def fl_is_empty_def)
qed

theorem fifo_list_history_witness:
  "\<exists>q' q''. run_fifo push_back pop_data [Push (8, 10), Pop, Pop, Push (8, 20), Push (16, 30)]
      (init_list \<lparr>fl_head = 5, fl_tatil = 5, fl_data = (\<lambda>_. 0), fl_next = (\<lambda>_. 7)\<rparr>) =
      Some ([Some (8, 10), None], q') \<and> (fl_is_empty q' \<longleftrightarrow> [(8, 20), (16, 30)] = ([] :: (nat \<times> int) list)) \<and>
    clear_list q' = Some (q'', [8, 16]) \<and> fl_is_empty q''"
  using fifo_list_history [of "[Push (8, 10), Pop, Pop, Push (8, 20), Push (16, 30)]"
      "[Some (8, 10), None]" "[(8, 20), (16, 30)]" "\<lparr>fl_head = 5, fl_tatil = 5, fl_data = (\<lambda>_. 0), fl_next = (\<lambda>_. 7)\<rparr>"]
  by (simp add: fresh_node_def)

end
