(* ===== verification/Thread_Pool.thy ===== *)
theory Thread_Pool
  imports Interleaving "HOL-Library.Sublist"
begin

text \<open>
  The thread pool of \<open>pools/thread_pool/ThreadPool.h\<close>: worker threads that wait on a condition variable, and
  client threads that enqueue jobs and shut the pool down, access by access.  The condition variable is
  the number of its waiters and of the wake-ups not yet taken; a thread that waits may also wake up for no reason.
  A task is a number, runs outside the lock and returns (what it throws is caught).
\<close>

record tpool =
  tp_lock :: bool
  tp_jobs :: "nat list"
  tp_shutdown :: bool
  tp_max :: nat
  tp_threads :: nat
  tp_waiters :: nat
  tp_wakes :: nat
  tp_exited :: nat
  tp_accepted :: "nat list"
  tp_started :: "nat list"
  tp_before :: "nat list"

text \<open>
  The last three fields are history: the jobs accepted, those taken by a worker, and those accepted when the pool
  was first told to shut down.
\<close>

datatype tp_call = Enqueue nat | Shutdown

datatype tp_pc =
    W_lock | W_test | W_take | W_break | W_unlock nat | W_run nat | W_wait | W_done
  | C_next "tp_call list" | E_test nat "tp_call list" | E_unlock "tp_call list" | E_notify "tp_call list"
  | S_set "tp_call list" | S_unlock "tp_call list" | S_notify "tp_call list" | S_join "tp_call list"

text \<open>\<open>cond_.notify_one()\<close> and \<open>cond_.notify_all()\<close>.\<close>

definition notify_one :: "tpool \<Rightarrow> tpool" where
  "notify_one m = m\<lparr>tp_wakes := min (tp_waiters m) (tp_wakes m + 1)\<rparr>"

definition notify_all :: "tpool \<Rightarrow> tpool" where
  "notify_all m = m\<lparr>tp_wakes := tp_waiters m\<rparr>"

text \<open>The constructor, for the pool's fields.\<close>

definition ThreadPool :: "nat \<Rightarrow> nat \<Rightarrow> tpool" where
  "ThreadPool n mqr = \<lparr>tp_lock = False, tp_jobs = [], tp_shutdown = False, tp_max = mqr, tp_threads = n, tp_waiters = 0,
     tp_wakes = 0, tp_exited = 0, tp_accepted = [], tp_started = [], tp_before = []\<rparr>"

inductive worker_act :: "tpool \<Rightarrow> tp_pc \<Rightarrow> tpool \<Rightarrow> tp_pc \<Rightarrow> bool" where
  w_lock: "\<not> tp_lock m \<Longrightarrow> worker_act m W_lock (m\<lparr>tp_lock := True\<rparr>) W_test"
| w_wait: "\<not> (tp_jobs m \<noteq> [] \<or> tp_shutdown m) \<Longrightarrow>
    worker_act m W_test (m\<lparr>tp_lock := False, tp_waiters := tp_waiters m + 1\<rparr>) W_wait"
| w_ready: "tp_jobs m \<noteq> [] \<or> tp_shutdown m \<Longrightarrow> worker_act m W_test m W_take"
| w_break: "tp_shutdown m \<and> tp_jobs m = [] \<Longrightarrow> worker_act m W_take m W_break"
| w_return: "worker_act m W_break (m\<lparr>tp_lock := False, tp_exited := tp_exited m + 1\<rparr>) W_done"
| w_pop: "\<not> (tp_shutdown m \<and> tp_jobs m = []) \<Longrightarrow> tp_jobs m = j # js \<Longrightarrow>
    worker_act m W_take (m\<lparr>tp_jobs := js, tp_started := tp_started m @ [j]\<rparr>) (W_unlock j)"
| w_unlock: "worker_act m (W_unlock j) (m\<lparr>tp_lock := False\<rparr>) (W_run j)"
| w_run: "worker_act m (W_run j) m W_lock"
| w_wake: "0 < tp_wakes m \<Longrightarrow>
    worker_act m W_wait (m\<lparr>tp_wakes := tp_wakes m - 1, tp_waiters := tp_waiters m - 1\<rparr>) W_lock"

inductive client_act :: "tpool \<Rightarrow> tp_pc \<Rightarrow> tpool \<Rightarrow> tp_pc \<Rightarrow> bool" where
  e_lock: "\<not> tp_lock m \<Longrightarrow> client_act m (C_next (Enqueue j # cs)) (m\<lparr>tp_lock := True\<rparr>) (E_test j cs)"
| e_full: "0 < tp_max m \<and> length (tp_jobs m) \<ge> tp_max m \<Longrightarrow>
    client_act m (E_test j cs) (m\<lparr>tp_lock := False\<rparr>) (C_next cs)"
| e_push: "\<not> (0 < tp_max m \<and> length (tp_jobs m) \<ge> tp_max m) \<Longrightarrow>
    client_act m (E_test j cs) (m\<lparr>tp_jobs := tp_jobs m @ [j], tp_accepted := tp_accepted m @ [j]\<rparr>) (E_unlock cs)"
| e_unlock: "client_act m (E_unlock cs) (m\<lparr>tp_lock := False\<rparr>) (E_notify cs)"
| e_notify: "client_act m (E_notify cs) (notify_one m) (C_next cs)"
| s_lock: "\<not> tp_lock m \<Longrightarrow> client_act m (C_next (Shutdown # cs)) (m\<lparr>tp_lock := True\<rparr>) (S_set cs)"
| s_set: "client_act m (S_set cs)
    (m\<lparr>tp_shutdown := True, tp_before := (if tp_shutdown m then tp_before m else tp_accepted m)\<rparr>) (S_unlock cs)"
| s_unlock: "client_act m (S_unlock cs) (m\<lparr>tp_lock := False\<rparr>) (S_notify cs)"
| s_notify: "client_act m (S_notify cs) (notify_all m) (S_join cs)"
| s_join: "tp_exited m = tp_threads m \<Longrightarrow> client_act m (S_join cs) m (C_next cs)"

text \<open>What a thread does of its own accord, and a wake-up for no reason.\<close>

definition tp_step :: "tpool \<Rightarrow> tp_pc \<Rightarrow> tpool \<Rightarrow> tp_pc \<Rightarrow> bool" where
  "tp_step m p m' p' \<longleftrightarrow> worker_act m p m' p' \<or> client_act m p m' p'"

inductive tp_act :: "tpool \<Rightarrow> tp_pc \<Rightarrow> tpool \<Rightarrow> tp_pc \<Rightarrow> bool" where
  tp_step: "tp_step m p m' p' \<Longrightarrow> tp_act m p m' p'"
| spurious: "0 < tp_waiters m \<Longrightarrow>
    tp_act m W_wait (m\<lparr>tp_wakes := min (tp_wakes m) (tp_waiters m - 1), tp_waiters := tp_waiters m - 1\<rparr>) W_lock"

subsection \<open>The invariant\<close>

fun holds_lock :: "tp_pc \<Rightarrow> bool" where
  "holds_lock W_test = True" | "holds_lock W_take = True" | "holds_lock W_break = True" | "holds_lock (W_unlock j) = True"
| "holds_lock (E_test j cs) = True" | "holds_lock (E_unlock cs) = True" | "holds_lock (S_set cs) = True"
| "holds_lock (S_unlock cs) = True" | "holds_lock p = False"

fun active :: "tp_pc \<Rightarrow> bool" where
  "active W_lock = True" | "active W_test = True" | "active W_take = True" | "active W_break = True"
| "active (W_unlock j) = True" | "active (W_run j) = True" | "active p = False"

fun will_notify :: "tp_pc \<Rightarrow> bool" where
  "will_notify (E_unlock cs) = True" | "will_notify (E_notify cs) = True" | "will_notify p = False"

fun will_notify_all :: "tp_pc \<Rightarrow> bool" where
  "will_notify_all (S_unlock cs) = True" | "will_notify_all (S_notify cs) = True" | "will_notify_all p = False"

fun joining :: "tp_pc \<Rightarrow> bool" where
  "joining (S_join cs) = True" | "joining p = False"

definition tp_counts :: "tpool \<times> tp_pc list \<Rightarrow> bool" where
  "tp_counts = (\<lambda>(m, ps). tally holds_lock ps = (if tp_lock m then 1 else 0) \<and> tally (\<lambda>p. p = W_wait) ps = tp_waiters m \<and>
     tally (\<lambda>p. p = W_done) ps = tp_exited m \<and> tally active ps + tp_waiters m + tp_exited m = tp_threads m \<and>
     tp_wakes m \<le> tp_waiters m)"

definition tp_lists :: "tpool \<times> tp_pc list \<Rightarrow> bool" where
  "tp_lists = (\<lambda>(m, ps). tp_accepted m = tp_started m @ tp_jobs m \<and>
     (0 < tp_max m \<longrightarrow> length (tp_jobs m) \<le> tp_max m) \<and>
     (tp_shutdown m \<longrightarrow> prefix (tp_before m) (tp_accepted m)))"

definition tp_wakeups :: "tpool \<times> tp_pc list \<Rightarrow> bool" where
  "tp_wakeups = (\<lambda>(m, ps).
     (tp_jobs m \<noteq> [] \<and> 0 < tp_waiters m \<longrightarrow> 0 < tally active ps \<or> 0 < tp_wakes m \<or> 0 < tally will_notify ps \<or>
       0 < tally will_notify_all ps) \<and>
     (0 < tally (\<lambda>p. p = W_take) ps \<longrightarrow> tp_jobs m \<noteq> [] \<or> tp_shutdown m) \<and>
     (tp_shutdown m \<and> tally will_notify_all ps = 0 \<longrightarrow> tp_wakes m = tp_waiters m))"

definition tp_exits :: "tpool \<times> tp_pc list \<Rightarrow> bool" where
  "tp_exits = (\<lambda>(m, ps). (0 < tally will_notify_all ps \<or> 0 < tally joining ps \<longrightarrow> tp_shutdown m) \<and>
     (0 < tp_exited m \<or> 0 < tally (\<lambda>p. p = W_break) ps \<longrightarrow>
       tp_shutdown m \<and> length (tp_before m) \<le> length (tp_started m)))"

definition tp_inv :: "tpool \<times> tp_pc list \<Rightarrow> bool" where
  "tp_inv s \<longleftrightarrow> tp_counts s \<and> tp_lists s \<and> tp_wakeups s \<and> tp_exits s"

lemma tp_act_elim:
  assumes "tp_act m p m' p'"
  obtains (worker) "worker_act m p m' p'" | (client) "client_act m p m' p'"
  | (spurious) "p = W_wait" "p' = W_lock" "0 < tp_waiters m"
      "m' = m\<lparr>tp_wakes := min (tp_wakes m) (tp_waiters m - 1), tp_waiters := tp_waiters m - 1\<rparr>"
  using assms unfolding tp_step_def by cases (auto simp: tp_step_def)

lemma tp_counts_kept:
  assumes inv: "tp_counts (m, ps)" and i: "i < length ps" and act: "tp_act m (ps ! i) m' p"
  shows "tp_counts (m', ps[i := p])"
proof -
  note u = tally_update [OF i, of holds_lock p] tally_update [OF i, of "\<lambda>p. p = W_wait" p]
    tally_update [OF i, of "\<lambda>p. p = W_done" p] tally_update [OF i, of active p]
  note pos = tally_pos [OF i, of holds_lock] tally_pos [OF i, of "\<lambda>p. p = W_wait"] tally_pos [OF i, of active]
  from act show ?thesis
  proof (cases rule: tp_act_elim)
    case worker
    then show ?thesis
      by cases (use inv u pos in \<open>auto simp: tp_counts_def split: if_splits\<close>)
  next
    case client
    then show ?thesis
      by cases (use inv u pos in \<open>auto simp: tp_counts_def notify_one_def notify_all_def split: if_splits\<close>)
  next
    case spurious
    then show ?thesis using inv u pos by (auto simp: tp_counts_def split: if_splits)
  qed
qed

lemma tp_lists_kept:
  assumes inv: "tp_lists (m, ps)" and act: "tp_act m (ps ! i) m' p"
  shows "tp_lists (m', ps[i := p])"
  using act
proof (cases rule: tp_act_elim)
  case worker
  then show ?thesis by cases (use inv in \<open>auto simp: tp_lists_def\<close>)
next
  case client
  then show ?thesis
    by cases (use inv prefix_prefix [of "tp_before m" "tp_accepted m"] in
        \<open>auto simp: tp_lists_def notify_one_def notify_all_def\<close>)
next
  case spurious
  then show ?thesis using inv by (auto simp: tp_lists_def)
qed

lemma tp_wakeups_kept:
  assumes counts: "tp_counts (m, ps)" and exits: "tp_exits (m, ps)" and inv: "tp_wakeups (m, ps)"
    and i: "i < length ps" and act: "tp_act m (ps ! i) m' p"
  shows "tp_wakeups (m', ps[i := p])"
proof -
  have take: "tally (\<lambda>p. p = W_take) ps \<le> tally holds_lock ps" by (rule tally_mono) simp
  note u = tally_update [OF i, of will_notify p] tally_update [OF i, of will_notify_all p] tally_update [OF i, of active p]
    tally_update [OF i, of "\<lambda>p. p = W_take" p]
  note pos = tally_pos [OF i, of will_notify] tally_pos [OF i, of will_notify_all] tally_pos [OF i, of active]
    tally_pos [OF i, of "\<lambda>p. p = W_take"] tally_pos [OF i, of "\<lambda>p. p = W_break"]
  from act show ?thesis
  proof (cases rule: tp_act_elim)
    case worker
    then show ?thesis
      by cases (use counts exits inv u pos take in
          \<open>simp_all add: tp_counts_def tp_exits_def tp_wakeups_def split: if_splits,
            (cases "tally will_notify_all ps = 0"; simp)+\<close>)
  next
    case client
    then show ?thesis
      by cases (use counts inv u pos take in
          \<open>auto simp: tp_counts_def tp_wakeups_def notify_one_def notify_all_def split: if_splits\<close>)
  next
    case spurious
    then show ?thesis using counts inv u pos
      by (auto simp: tp_counts_def tp_wakeups_def min_def split: if_splits)
  qed
qed

lemma tp_exits_kept:
  assumes lists: "tp_lists (m, ps)" and inv: "tp_exits (m, ps)" and i: "i < length ps"
    and act: "tp_act m (ps ! i) m' p"
  shows "tp_exits (m', ps[i := p])"
proof -
  note u = tally_update [OF i, of joining p] tally_update [OF i, of will_notify_all p]
    tally_update [OF i, of "\<lambda>p. p = W_break" p]
  have le: "length (tp_before m) \<le> length (tp_started m)" if "tp_shutdown m" "tp_jobs m = []"
    using lists that prefix_length_le [of "tp_before m" "tp_accepted m"] by (auto simp: tp_lists_def)
  note pos = tally_pos [OF i, of joining] tally_pos [OF i, of will_notify_all] tally_pos [OF i, of "\<lambda>p. p = W_break"]
  from act show ?thesis
  proof (cases rule: tp_act_elim)
    case worker
    then show ?thesis
      by cases (use le inv u pos in \<open>auto simp: tp_exits_def split: if_splits\<close>)
  next
    case client
    then show ?thesis
      by cases (use inv u pos in \<open>auto simp: tp_exits_def notify_one_def notify_all_def split: if_splits\<close>)
  next
    case spurious
    then show ?thesis using inv u pos by (auto simp: tp_exits_def split: if_splits)
  qed
qed

interpretation tp: kept tp_act tp_inv
  by unfold_locales (auto simp: tp_inv_def intro: tp_counts_kept tp_lists_kept tp_wakeups_kept tp_exits_kept)

subsection \<open>The pool when it starts\<close>

text \<open>\<open>n\<close> workers about to lock the mutex, and the clients with the calls they are going to make.\<close>

definition tp_start :: "nat \<Rightarrow> nat \<Rightarrow> tp_call list list \<Rightarrow> tpool \<times> tp_pc list" where
  "tp_start n mqr calls = (ThreadPool n mqr, replicate n W_lock @ map C_next calls)"

lemma tp_start_inv: "tp_inv (tp_start n mqr calls)"
  by (simp add: tp_start_def tp_inv_def tp_counts_def tp_lists_def tp_wakeups_def tp_exits_def ThreadPool_def cnt_map_zero)

lemma tp_act_fixed: "tp_act m p m' p' \<Longrightarrow> tp_max m' = tp_max m \<and> tp_threads m' = tp_threads m"
  by (erule tp_act_elim) (auto elim!: worker_act.cases client_act.cases simp: notify_one_def notify_all_def)

interpretation tp_size: kept tp_act "\<lambda>(m, ps). tp_max m = mqr \<and> tp_threads m = n" for mqr n
  by unfold_locales (use tp_act_fixed in force)

lemma tp_reachable:
  assumes "(interleave tp_act)\<^sup>*\<^sup>* (tp_start n mqr calls) (m, ps)"
  shows "tp_inv (m, ps)" "tp_max m = mqr" "tp_threads m = n"
  using tp.reachable_inv [OF assms tp_start_inv] tp_size.reachable_inv [OF assms, of mqr n]
  by (simp_all add: tp_start_def ThreadPool_def)

subsection \<open>The next access as a function\<close>

text \<open>A thread that is not blocked has one access to make.\<close>

fun tp_next :: "tpool \<Rightarrow> tp_pc \<Rightarrow> (tpool \<times> tp_pc) option" where
  "tp_next m W_lock = (if tp_lock m then None else Some (m\<lparr>tp_lock := True\<rparr>, W_test))"
| "tp_next m W_test = Some (if tp_jobs m \<noteq> [] \<or> tp_shutdown m then (m, W_take)
     else (m\<lparr>tp_lock := False, tp_waiters := tp_waiters m + 1\<rparr>, W_wait))"
| "tp_next m W_take = (case tp_jobs m of
     [] \<Rightarrow> if tp_shutdown m then Some (m, W_break) else None
   | j # js \<Rightarrow> Some (m\<lparr>tp_jobs := js, tp_started := tp_started m @ [j]\<rparr>, W_unlock j))"
| "tp_next m W_break = Some (m\<lparr>tp_lock := False, tp_exited := tp_exited m + 1\<rparr>, W_done)"
| "tp_next m (W_unlock j) = Some (m\<lparr>tp_lock := False\<rparr>, W_run j)"
| "tp_next m (W_run j) = Some (m, W_lock)"
| "tp_next m W_wait = (if tp_wakes m = 0 then None
     else Some (m\<lparr>tp_wakes := tp_wakes m - 1, tp_waiters := tp_waiters m - 1\<rparr>, W_lock))"
| "tp_next m W_done = None"
| "tp_next m (C_next []) = None"
| "tp_next m (C_next (Enqueue j # cs)) = (if tp_lock m then None else Some (m\<lparr>tp_lock := True\<rparr>, E_test j cs))"
| "tp_next m (C_next (Shutdown # cs)) = (if tp_lock m then None else Some (m\<lparr>tp_lock := True\<rparr>, S_set cs))"
| "tp_next m (E_test j cs) = Some (if 0 < tp_max m \<and> length (tp_jobs m) \<ge> tp_max m
     then (m\<lparr>tp_lock := False\<rparr>, C_next cs)
     else (m\<lparr>tp_jobs := tp_jobs m @ [j], tp_accepted := tp_accepted m @ [j]\<rparr>, E_unlock cs))"
| "tp_next m (E_unlock cs) = Some (m\<lparr>tp_lock := False\<rparr>, E_notify cs)"
| "tp_next m (E_notify cs) = Some (notify_one m, C_next cs)"
| "tp_next m (S_set cs) = Some (m\<lparr>tp_shutdown := True,
     tp_before := (if tp_shutdown m then tp_before m else tp_accepted m)\<rparr>, S_unlock cs)"
| "tp_next m (S_unlock cs) = Some (m\<lparr>tp_lock := False\<rparr>, S_notify cs)"
| "tp_next m (S_notify cs) = Some (notify_all m, S_join cs)"
| "tp_next m (S_join cs) = (if tp_exited m = tp_threads m then Some (m, C_next cs) else None)"

lemma tp_next_step: "tp_next m p = Some (m', p') \<Longrightarrow> tp_step m p m' p'"
  by (induction m p rule: tp_next.induct)
    (auto simp: tp_step_def worker_act.simps client_act.simps split: if_splits list.splits)

lemma tp_step_next: "tp_step m p m' p' \<Longrightarrow> tp_next m p = Some (m', p')"
  unfolding tp_step_def by (elim disjE worker_act.cases client_act.cases) auto

lemma tp_step_iff: "tp_step m p m' p' \<longleftrightarrow> tp_next m p = Some (m', p')"
  using tp_next_step tp_step_next by blast

lemma tp_schedule: "schedule tp_next is s = Some s' \<Longrightarrow> (interleave tp_act)\<^sup>*\<^sup>* s s'"
  by (rule schedule_reaches [of tp_next]) (auto intro: tp_act.tp_step tp_next_step)

end
