(* ===== verification/Thread_Pool_Progress.thy ===== *)
theory Thread_Pool_Progress
  imports Thread_Pool
begin

text \<open>
  What the thread pool of \<open>ThreadPool.h\<close> promises: jobs start once each in the order they were accepted, no
  wake-up is lost, nobody is stuck for ever, and the threads together take boundedly many accesses.
\<close>

subsection \<open>When no thread can go on\<close>

abbreviation tp_stuck :: "tpool \<times> tp_pc list \<Rightarrow> bool" where
  "tp_stuck \<equiv> stuck tp_next"

lemmas tp_stuck_def = stuck_def [of tp_next]

lemma tp_stuck_iff: "tp_stuck s \<longleftrightarrow> (\<nexists>s'. interleave tp_step s s')"
  by (rule stuck_iff) (rule tp_step_iff)

lemma holder_moves: "holds_lock p \<Longrightarrow> (p = W_take \<Longrightarrow> tp_jobs m \<noteq> [] \<or> tp_shutdown m) \<Longrightarrow> tp_next m p \<noteq> None"
  by (cases p) (auto split: list.splits)

lemma stuck_lock:
  assumes inv: "tp_inv (m, ps)" and stuck: "tp_stuck (m, ps)"
  shows "\<not> tp_lock m"
proof
  assume "tp_lock m"
  then obtain p where p: "p \<in> set ps" "holds_lock p"
    using inv tally_zero [of holds_lock ps] by (auto simp: tp_inv_def tp_counts_def)
  have "tp_next m p \<noteq> None"
    using holder_moves [OF p(2)] inv tally_in [OF p(1), of "\<lambda>p. p = W_take"]
    by (auto simp: tp_inv_def tp_wakeups_def)
  then show False using stuck p(1) by (auto simp: tp_stuck_def list_all_iff)
qed

lemma next_None_cases:
  assumes "tp_next m p = None" "\<not> tp_lock m" "p = W_take \<Longrightarrow> tp_jobs m \<noteq> [] \<or> tp_shutdown m"
  shows "p = W_wait \<and> tp_wakes m = 0 \<or> p = W_done \<or> p = C_next [] \<or>
    (\<exists>cs. p = S_join cs) \<and> tp_exited m \<noteq> tp_threads m"
  using assms by (induction m p rule: tp_next.induct) (auto split: if_splits list.splits)

lemma stuck_threads:
  assumes inv: "tp_inv (m, ps)" and stuck: "tp_stuck (m, ps)" and p: "p \<in> set ps"
  shows "p = W_wait \<and> tp_wakes m = 0 \<or> p = W_done \<or> p = C_next [] \<or>
    (\<exists>cs. p = S_join cs) \<and> tp_exited m \<noteq> tp_threads m"
proof (rule next_None_cases)
  show "tp_next m p = None" using stuck p by (auto simp: tp_stuck_def list_all_iff)
  show "\<not> tp_lock m" using inv stuck by (rule stuck_lock)
  show "p = W_take \<Longrightarrow> tp_jobs m \<noteq> [] \<or> tp_shutdown m"
    using inv tally_in [OF p, of "\<lambda>p. p = W_take"] by (auto simp: tp_inv_def tp_wakeups_def)
qed

lemma stuck_state:
  assumes inv: "tp_inv (m, ps)" and stuck: "tp_stuck (m, ps)" and n: "0 < tp_threads m"
  shows "(\<forall>p\<in>set ps. p = W_wait \<or> p = W_done \<or> p = C_next []) \<and>
    (if tp_shutdown m then tp_exited m = tp_threads m \<and> prefix (tp_before m) (tp_started m)
     else tp_waiters m = tp_threads m \<and> tp_jobs m = [])"
proof -
  note threads = stuck_threads [OF inv stuck]
  have idle: "tally active ps = 0" "tally will_notify ps = 0" "tally will_notify_all ps = 0"
    unfolding tally_zero by (auto dest!: threads)
  have counts: "tp_waiters m + tp_exited m = tp_threads m" "tally (\<lambda>p. p = W_wait) ps = tp_waiters m"
    using inv idle by (auto simp: tp_inv_def tp_counts_def)
  have wakes: "tp_wakes m = 0" if "0 < tp_waiters m"
  proof -
    have "W_wait \<in> set ps" using that counts(2) tally_zero [of "\<lambda>p. p = W_wait" ps] by auto
    then show ?thesis using threads by blast
  qed
  have shut: "tp_exited m = tp_threads m" if "tp_shutdown m"
    using that inv idle wakes counts by (cases "tp_waiters m = 0") (auto simp: tp_inv_def tp_wakeups_def)
  have open': "tp_exited m = 0 \<and> tally joining ps = 0" if "\<not> tp_shutdown m"
    using that inv by (auto simp: tp_inv_def tp_exits_def)
  have joins: "\<not> (\<exists>cs. p = S_join cs)" if p: "p \<in> set ps" for p
  proof
    assume "\<exists>cs. p = S_join cs"
    then have "0 < tally joining ps" "tp_exited m \<noteq> tp_threads m"
      using tally_in [OF p, of joining] threads [OF p] by auto
    then show False using shut open' by (cases "tp_shutdown m") auto
  qed
  have "prefix (tp_before m) (tp_started m)" if s: "tp_shutdown m"
  proof (rule prefix_length_prefix)
    show "prefix (tp_before m) (tp_accepted m)" "prefix (tp_started m) (tp_accepted m)"
      using inv s by (auto simp: tp_inv_def tp_lists_def)
    show "length (tp_before m) \<le> length (tp_started m)"
      using inv shut [OF s] n by (auto simp: tp_inv_def tp_exits_def)
  qed
  moreover have "tp_jobs m = []" if "\<not> tp_shutdown m"
    using inv idle wakes counts open' [OF that] n by (auto simp: tp_inv_def tp_wakeups_def)
  ultimately show ?thesis using threads joins shut open' counts(1) by auto
qed

subsection \<open>How much there is to do\<close>

text \<open>
  Every access uses up work: a thread's program counter, a job in the queue and a wake-up not yet taken each stand
  for the accesses still to come because of them.
\<close>

fun tp_call_work :: "nat \<Rightarrow> tp_call \<Rightarrow> nat" where
  "tp_call_work n (Enqueue j) = 14"
| "tp_call_work n Shutdown = 5 * n + 5"

abbreviation calls_work :: "nat \<Rightarrow> tp_call list \<Rightarrow> nat" where
  "calls_work n cs \<equiv> sum_list (map (tp_call_work n) cs)"

fun pc_work :: "nat \<Rightarrow> tp_pc \<Rightarrow> nat" where
  "pc_work n W_lock = 4" | "pc_work n W_test = 3" | "pc_work n W_take = 2" | "pc_work n W_break = 1"
| "pc_work n (W_unlock j) = 6" | "pc_work n (W_run j) = 5" | "pc_work n W_wait = 0" | "pc_work n W_done = 0"
| "pc_work n (C_next cs) = calls_work n cs" | "pc_work n (E_test j cs) = calls_work n cs + 13"
| "pc_work n (E_unlock cs) = calls_work n cs + 7" | "pc_work n (E_notify cs) = calls_work n cs + 6"
| "pc_work n (S_set cs) = calls_work n cs + 5 * n + 4" | "pc_work n (S_unlock cs) = calls_work n cs + 5 * n + 3"
| "pc_work n (S_notify cs) = calls_work n cs + 5 * n + 2" | "pc_work n (S_join cs) = calls_work n cs + 1"

lemma tp_next_work:
  assumes "tp_next m p = Some (m', p')" "tp_wakes m \<le> tp_waiters m" "tp_waiters m \<le> tp_threads m"
  shows "pc_work (tp_threads m) p' + (5 * length (tp_jobs m') + 5 * tp_wakes m') <
    pc_work (tp_threads m) p + (5 * length (tp_jobs m) + 5 * tp_wakes m)"
  using assms
  by (induction m p rule: tp_next.induct)
    (auto simp: notify_one_def notify_all_def min_def split: if_splits list.splits)

interpretation tpw: resting tp_act tp_inv tp_step "\<lambda>m. pc_work (tp_threads m)"
  "\<lambda>m. 5 * length (tp_jobs m) + 5 * tp_wakes m"
proof unfold_locales
  fix m p m' p'
  assume step: "tp_step m p m' p'"
  then show "tp_act m p m' p'" by (rule tp_act.tp_step)
  then show "pc_work (tp_threads m') = pc_work (tp_threads m)" using tp_act_fixed by simp
next
  fix m ps p m' p'
  assume inv: "tp_inv (m, ps)" and step: "tp_step m p m' p'"
  have "tp_wakes m \<le> tp_waiters m" "tp_waiters m \<le> tp_threads m"
    using inv by (auto simp: tp_inv_def tp_counts_def)
  then show "pc_work (tp_threads m) p' + (5 * length (tp_jobs m') + 5 * tp_wakes m') <
      pc_work (tp_threads m) p + (5 * length (tp_jobs m) + 5 * tp_wakes m)"
    using step by (intro tp_next_work tp_step_next)
qed

definition tp_work :: "tpool \<times> tp_pc list \<Rightarrow> nat" where
  "tp_work = work (\<lambda>m. pc_work (tp_threads m)) (\<lambda>m. 5 * length (tp_jobs m) + 5 * tp_wakes m)"

subsection \<open>The properties\<close>

definition tp_run_calls :: "tpool \<times> tp_pc list" where
  "tp_run_calls = the (schedule tp_next ([0, 0, 1, 1, 1, 1] @ replicate 8 0 @ [1, 1, 1, 1, 0, 0, 0, 0, 0, 1])
     (tp_start 1 0 [[Enqueue 7, Shutdown]]))"

lemma tp_run_calls_reached: "(interleave tp_act)\<^sup>*\<^sup>* (tp_start 1 0 [[Enqueue 7, Shutdown]]) tp_run_calls"
  by (rule tp_schedule [of "[0, 0, 1, 1, 1, 1] @ replicate 8 0 @ [1, 1, 1, 1, 0, 0, 0, 0, 0, 1]"]) code_simp

text \<open>
  C24: whatever the clients and the workers do and however they interleave, at every moment the jobs that were accepted
  are those a worker has taken, in the order of acceptance and each taken once, followed by those in the queue; the
  queue never exceeds its limit, and at most one thread holds the mutex.
\<close>

theorem thread_pool_jobs:
  assumes "(interleave tp_act)\<^sup>*\<^sup>* (tp_start n mqr calls) (m, ps)"
  shows "tp_accepted m = tp_started m @ tp_jobs m \<and> (0 < mqr \<longrightarrow> length (tp_jobs m) \<le> mqr) \<and> tally holds_lock ps \<le> 1"
  using tp_reachable [OF assms] by (auto simp: tp_inv_def tp_lists_def tp_counts_def)

theorem thread_pool_jobs_witness:
  "tp_accepted (fst tp_run_calls) = [7] \<and> tp_started (fst tp_run_calls) @ tp_jobs (fst tp_run_calls) = [7]"
proof -
  have "tp_accepted (fst tp_run_calls) = [7]" by code_simp
  then show ?thesis
    using thread_pool_jobs [of 1 0 "[[Enqueue 7, Shutdown]]" "fst tp_run_calls" "snd tp_run_calls"]
      tp_run_calls_reached by simp
qed



text \<open>
  C25: the threads of a pool come to rest: from any state they can reach, wake-ups for no reason included, they make at
  most \<open>tp_work\<close> accesses of their own until nobody can go on.
\<close>

theorem thread_pool_finishes:
  assumes "(interleave tp_act)\<^sup>*\<^sup>* (tp_start n mqr calls) s" "(interleave tp_step ^^ k) s s'"
  shows "k \<le> tp_work s"
  using tpw.steps_work [OF tp.reachable_inv [OF assms(1) tp_start_inv] assms(2)] by (simp add: tp_work_def)

theorem thread_pool_finishes_witness: "1 \<le> tp_work (tp_start 2 1 [[Enqueue 3], [Shutdown]])"
proof -
  let ?s = "tp_start 2 1 [[Enqueue 3], [Shutdown]]"
  have "\<not> tp_stuck ?s" by code_simp
  then obtain s' where "interleave tp_step ?s s'" using tp_stuck_iff [of ?s] by blast
  then have "(interleave tp_step ^^ 1) ?s s'" by (simp only: relpowp_1)
  then show ?thesis using thread_pool_finishes [of 2 1 "[[Enqueue 3], [Shutdown]]" ?s 1 s'] by simp
qed

text \<open>
  a job may be accepted and never run: a client that enqueues after the shutdown is told that the job was accepted,
  no worker is left to take it, and nobody can go on.
\<close>

theorem thread_pool_late_job:
  "\<exists>m ps. (interleave tp_act)\<^sup>*\<^sup>* (tp_start 1 0 [[Shutdown, Enqueue 9]]) (m, ps) \<and> tp_stuck (m, ps) \<and>
     tp_accepted m = [9] \<and> tp_started m = [] \<and> tp_jobs m = [9]"
proof -
  let ?is = "[1, 1, 1, 1] @ replicate 4 0 @ replicate 5 1" and ?s = "tp_start 1 0 [[Shutdown, Enqueue 9]]"
  have run: "(case schedule tp_next ?is ?s of None \<Rightarrow> False
    | Some s \<Rightarrow> tp_stuck s \<and> tp_accepted (fst s) = [9] \<and> tp_started (fst s) = [] \<and> tp_jobs (fst s) = [9])"
    by code_simp
  then obtain s where s: "schedule tp_next ?is ?s = Some s"
    and "tp_stuck s \<and> tp_accepted (fst s) = [9] \<and> tp_started (fst s) = [] \<and> tp_jobs (fst s) = [9]"
    by (auto split: option.splits)
  then show ?thesis using tp_schedule [OF s] by (cases s) auto
qed

end
