(* ===== verification/Sh_Thread_Pool.thy ===== *)
theory Sh_Thread_Pool
  imports Interleaving
begin

text \<open>
  The thread pool of \<open>pools/thread_pool/thread_pool.cpp\<close>, access by access: the workers of \<open>thread_work\<close>, the clients
  of \<open>sh_push_thread_pool\<close> and \<open>sh_destory_thread_pool\<close>.  The task queue is a list, as its critical sections
  are atomic and first-in first-out; a task is a number.  The condition variable is the number of its waiters and of the wake-ups
  not yet taken; a waiting thread may also wake up for no reason.
\<close>

record spool =
  sp_queue :: "nat list"
  sp_quit :: bool
  sp_mutex :: bool
  sp_waiters :: nat
  sp_wakes :: nat
  sp_count :: nat
  sp_exited :: nat
  sp_pushed :: "nat list"
  sp_started :: "nat list"
  sp_dropped :: "nat list"

text \<open>
  The last three fields are history: the tasks pushed, those a worker has popped, and those freed with the queue.
  \<open>Push_fails\<close> is a push for whose task there is no memory.
\<close>

datatype sp_call = Push nat | Push_fails | Destroy

datatype sp_pc =
    T_loop | T_pop | T_run nat | T_lock | T_check | T_break | T_cond | T_waiting | T_relock | T_unlock | T_done
  | P_next "sp_call list" | P_signal "sp_call list" | D_set "sp_call list" | D_unlock "sp_call list"
  | D_broadcast "sp_call list" | D_join "sp_call list" | D_release "sp_call list"

definition cond_signal :: "spool \<Rightarrow> spool" where
  "cond_signal m = m\<lparr>sp_wakes := min (sp_waiters m) (sp_wakes m + 1)\<rparr>"

definition cond_broadcast :: "spool \<Rightarrow> spool" where
  "cond_broadcast m = m\<lparr>sp_wakes := sp_waiters m\<rparr>"

definition take_mutex :: "spool \<Rightarrow> sp_pc \<Rightarrow> (spool \<times> sp_pc) option" where
  "take_mutex m p = (if sp_mutex m then None else Some (m\<lparr>sp_mutex := True\<rparr>, p))"

text \<open>\<open>thread_work\<close>; the loop reads \<open>quit\<close> without the mutex.\<close>

fun thread_work :: "spool \<Rightarrow> sp_pc \<Rightarrow> (spool \<times> sp_pc) option" where
  "thread_work m T_loop = Some (if sp_quit m then (m\<lparr>sp_exited := sp_exited m + 1\<rparr>, T_done) else (m, T_pop))"
| "thread_work m T_pop = Some (case sp_queue m of
     [] \<Rightarrow> (m, T_lock)
   | j # js \<Rightarrow> (m\<lparr>sp_queue := js, sp_started := sp_started m @ [j]\<rparr>, T_run j))"
| "thread_work m (T_run j) = Some (m, T_loop)"
| "thread_work m T_lock = take_mutex m T_check"
| "thread_work m T_check = Some (m, if sp_quit m then T_break else T_cond)"
| "thread_work m T_break = Some (m\<lparr>sp_mutex := False, sp_exited := sp_exited m + 1\<rparr>, T_done)"
| "thread_work m T_cond = Some (m\<lparr>sp_mutex := False, sp_waiters := sp_waiters m + 1\<rparr>, T_waiting)"
| "thread_work m T_waiting = (if sp_wakes m = 0 then None
     else Some (m\<lparr>sp_wakes := sp_wakes m - 1, sp_waiters := sp_waiters m - 1\<rparr>, T_relock))"
| "thread_work m T_relock = take_mutex m T_unlock"
| "thread_work m T_unlock = Some (m\<lparr>sp_mutex := False\<rparr>, T_loop)"
| "thread_work m p = None"

fun sh_push_thread_pool :: "spool \<Rightarrow> sp_pc \<Rightarrow> (spool \<times> sp_pc) option" where
  "sh_push_thread_pool m (P_next (Push j # cs)) =
     Some (m\<lparr>sp_queue := sp_queue m @ [j], sp_pushed := sp_pushed m @ [j]\<rparr>, P_signal cs)"
| "sh_push_thread_pool m (P_next (Push_fails # cs)) = Some (m, P_signal cs)"
| "sh_push_thread_pool m (P_signal cs) = Some (cond_signal m, P_next cs)"
| "sh_push_thread_pool m p = None"

fun sh_destory_thread_pool :: "spool \<Rightarrow> sp_pc \<Rightarrow> (spool \<times> sp_pc) option" where
  "sh_destory_thread_pool m (P_next (Destroy # cs)) = take_mutex m (D_set cs)"
| "sh_destory_thread_pool m (D_set cs) = Some (m\<lparr>sp_quit := True\<rparr>, D_unlock cs)"
| "sh_destory_thread_pool m (D_unlock cs) = Some (m\<lparr>sp_mutex := False\<rparr>, D_broadcast cs)"
| "sh_destory_thread_pool m (D_broadcast cs) = Some (cond_broadcast m, D_join cs)"
| "sh_destory_thread_pool m (D_join cs) = (if sp_exited m = sp_count m then Some (m, D_release cs) else None)"
| "sh_destory_thread_pool m (D_release cs) =
     Some (m\<lparr>sp_dropped := sp_dropped m @ sp_queue m, sp_queue := []\<rparr>, P_next cs)"
| "sh_destory_thread_pool m p = None"

fun is_worker :: "sp_pc \<Rightarrow> bool" where
  "is_worker (P_next cs) = False" | "is_worker (P_signal cs) = False" | "is_worker (D_set cs) = False"
| "is_worker (D_unlock cs) = False" | "is_worker (D_broadcast cs) = False" | "is_worker (D_join cs) = False"
| "is_worker (D_release cs) = False" | "is_worker p = True"

fun is_push :: "sp_pc \<Rightarrow> bool" where
  "is_push (P_next (Push j # cs)) = True" | "is_push (P_next (Push_fails # cs)) = True" | "is_push (P_signal cs) = True"
| "is_push p = False"

text \<open>What a thread does of its own accord, and a wake-up for no reason.\<close>

definition sp_next :: "spool \<Rightarrow> sp_pc \<Rightarrow> (spool \<times> sp_pc) option" where
  "sp_next m p = (if is_worker p then thread_work m p else if is_push p then sh_push_thread_pool m p
     else sh_destory_thread_pool m p)"

definition sp_own :: "spool \<Rightarrow> sp_pc \<Rightarrow> spool \<Rightarrow> sp_pc \<Rightarrow> bool" where
  "sp_own m p m' p' \<longleftrightarrow> sp_next m p = Some (m', p')"

inductive pool_act :: "spool \<Rightarrow> sp_pc \<Rightarrow> spool \<Rightarrow> sp_pc \<Rightarrow> bool" where
  own: "sp_next m p = Some (m', p') \<Longrightarrow> pool_act m p m' p'"
| spurious: "0 < sp_waiters m \<Longrightarrow>
    pool_act m T_waiting (m\<lparr>sp_wakes := min (sp_wakes m) (sp_waiters m - 1), sp_waiters := sp_waiters m - 1\<rparr>) T_relock"

subsection \<open>The invariant\<close>

fun has_mutex :: "sp_pc \<Rightarrow> bool" where
  "has_mutex T_check = True" | "has_mutex T_break = True" | "has_mutex T_cond = True" | "has_mutex T_unlock = True"
| "has_mutex (D_set cs) = True" | "has_mutex (D_unlock cs) = True" | "has_mutex p = False"

fun busy :: "sp_pc \<Rightarrow> bool" where
  "busy T_waiting = False" | "busy T_done = False" | "busy p = is_worker p"

fun will_broadcast :: "sp_pc \<Rightarrow> bool" where
  "will_broadcast (D_unlock cs) = True" | "will_broadcast (D_broadcast cs) = True" | "will_broadcast p = False"

fun destroying :: "sp_pc \<Rightarrow> bool" where
  "destroying (D_unlock cs) = True" | "destroying (D_broadcast cs) = True" | "destroying (D_join cs) = True"
| "destroying (D_release cs) = True" | "destroying p = False"

fun releasing :: "sp_pc \<Rightarrow> bool" where
  "releasing (D_release cs) = True" | "releasing p = False"

definition sp_counts :: "spool \<times> sp_pc list \<Rightarrow> bool" where
  "sp_counts = (\<lambda>(m, ps). tally has_mutex ps = (if sp_mutex m then 1 else 0) \<and> tally (\<lambda>p. p = T_waiting) ps = sp_waiters m \<and>
     tally (\<lambda>p. p = T_done) ps = sp_exited m \<and> tally busy ps + sp_waiters m + sp_exited m = sp_count m \<and>
     sp_wakes m \<le> sp_waiters m)"

definition sp_quits :: "spool \<times> sp_pc list \<Rightarrow> bool" where
  "sp_quits = (\<lambda>(m, ps). (0 < tally destroying ps \<or> 0 < sp_exited m \<or> 0 < tally (\<lambda>p. p = T_break) ps \<longrightarrow> sp_quit m) \<and>
     (0 < tally (\<lambda>p. p = T_cond) ps \<longrightarrow> \<not> sp_quit m) \<and>
     (sp_quit m \<and> tally will_broadcast ps = 0 \<longrightarrow> sp_wakes m = sp_waiters m))"

definition sp_tasks :: "spool \<times> sp_pc list \<Rightarrow> bool" where
  "sp_tasks = (\<lambda>(m, ps). sp_pushed m = sp_started m @ sp_dropped m @ sp_queue m \<and>
     (0 < tally releasing ps \<or> sp_dropped m \<noteq> [] \<longrightarrow> sp_exited m = sp_count m))"

definition sp_inv :: "spool \<times> sp_pc list \<Rightarrow> bool" where
  "sp_inv s \<longleftrightarrow> sp_counts s \<and> sp_quits s \<and> sp_tasks s"

lemmas sp_next_defs = sp_next_def take_mutex_def cond_signal_def cond_broadcast_def

lemma sp_pc_cases:
  obtains "p = T_loop" | "p = T_pop" | j where "p = T_run j" | "p = T_lock" | "p = T_check" | "p = T_break" | "p = T_cond"
  | "p = T_waiting" | "p = T_relock" | "p = T_unlock" | "p = T_done" | "p = P_next []" | j cs where "p = P_next (Push j # cs)"
  | cs where "p = P_next (Push_fails # cs)" | cs where "p = P_next (Destroy # cs)" | cs where "p = P_signal cs"
  | cs where "p = D_set cs" | cs where "p = D_unlock cs" | cs where "p = D_broadcast cs" | cs where "p = D_join cs"
  | cs where "p = D_release cs"
proof (cases p)
  case (P_next cs)
  then show ?thesis using that
  proof (cases cs)
    case (Cons c cs')
    then show ?thesis using that P_next by (cases c) auto
  qed auto
qed (use that in auto)

lemma pool_act_elim:
  assumes "pool_act m p m' p'"
  obtains (own) "sp_next m p = Some (m', p')"
  | (spurious) "p = T_waiting" "p' = T_relock" "0 < sp_waiters m"
      "m' = m\<lparr>sp_wakes := min (sp_wakes m) (sp_waiters m - 1), sp_waiters := sp_waiters m - 1\<rparr>"
  using assms by cases auto

lemma sp_counts_kept:
  assumes inv: "sp_counts (m, ps)" and i: "i < length ps" and act: "pool_act m (ps ! i) m' p"
  shows "sp_counts (m', ps[i := p])"
proof -
  note u = tally_update [OF i, of has_mutex p] tally_update [OF i, of "\<lambda>p. p = T_waiting" p]
    tally_update [OF i, of "\<lambda>p. p = T_done" p] tally_update [OF i, of busy p]
  note pos = tally_pos [OF i, of has_mutex] tally_pos [OF i, of "\<lambda>p. p = T_waiting"] tally_pos [OF i, of busy]
  from act show ?thesis
  proof (cases rule: pool_act_elim)
    case own
    then show ?thesis
      by (cases "ps ! i" rule: sp_pc_cases)
        (use inv u pos in \<open>auto simp: sp_counts_def sp_next_defs split: if_splits list.splits\<close>)
  next
    case spurious
    then show ?thesis using inv u pos by (auto simp: sp_counts_def split: if_splits)
  qed
qed

lemma mutex_alone:
  assumes counts: "sp_counts (m, ps)" and i: "i < length ps" and p: "has_mutex (ps ! i)" "ps ! i \<noteq> T_cond"
  shows "tally (\<lambda>p. p = T_cond) ps = 0"
proof -
  have "tally has_mutex (ps[i := T_done]) = 0"
    using tally_update [OF i, of has_mutex T_done] counts p by (auto simp: sp_counts_def split: if_splits)
  then have "tally (\<lambda>p. p = T_cond) (ps[i := T_done]) = 0"
    using tally_mono [of "\<lambda>p. p = T_cond" has_mutex "ps[i := T_done]"] by auto
  then show ?thesis using tally_update [OF i, of "\<lambda>p. p = T_cond" T_done] p by simp
qed

text \<open>The three parts of \<open>sp_quits\<close>, over the accesses of one thread.\<close>

lemma sp_quitsD:
  assumes "sp_quits (m, ps)"
  shows "0 < tally destroying ps \<Longrightarrow> sp_quit m" "0 < sp_exited m \<Longrightarrow> sp_quit m" "0 < tally (\<lambda>p. p = T_break) ps \<Longrightarrow> sp_quit m"
    "sp_quit m \<Longrightarrow> tally (\<lambda>p. p = T_cond) ps = 0" "sp_quit m \<Longrightarrow> tally will_broadcast ps = 0 \<Longrightarrow> sp_wakes m = sp_waiters m"
  using assms by (auto simp: sp_quits_def)

lemma sp_next_quits:
  assumes counts: "sp_counts (m, ps)" and inv: "sp_quits (m, ps)" and i: "i < length ps"
    and act: "sp_next m (ps ! i) = Some (m', p)"
  shows "(destroying p \<or> p = T_break \<longrightarrow> sp_quit m') \<and> (0 < sp_exited m' \<longrightarrow> sp_quit m') \<and> (sp_quit m \<longrightarrow> sp_quit m') \<and>
    (sp_quit m' \<longrightarrow> p \<noteq> T_cond \<and> (sp_quit m \<or> tally (\<lambda>p. p = T_cond) ps = 0 \<and> will_broadcast p))"
  using act mutex_alone [OF counts i] tally_pos [OF i, of destroying] tally_pos [OF i, of "\<lambda>p. p = T_break"]
    sp_quitsD [OF inv]
  by (cases "ps ! i" rule: sp_pc_cases) (auto simp: sp_next_defs split: if_splits list.splits)

lemma sp_next_wakes:
  assumes "sp_next m p = Some (m', p')" "sp_quit m" "sp_wakes m = sp_waiters m" "p \<noteq> T_cond"
  shows "sp_wakes m' = sp_waiters m'"
  using assms by (cases p rule: sp_pc_cases) (auto simp: sp_next_defs split: if_splits list.splits)

lemma sp_next_broadcast:
  assumes "sp_next m p = Some (m', p')" "will_broadcast p"
  shows "will_broadcast p' \<or> sp_wakes m' = sp_waiters m'"
  using assms by (cases p rule: sp_pc_cases) (auto simp: sp_next_defs)

lemma sp_quits_kept:
  assumes counts: "sp_counts (m, ps)" and inv: "sp_quits (m, ps)" and i: "i < length ps"
    and act: "pool_act m (ps ! i) m' p"
  shows "sp_quits (m', ps[i := p])"
proof -
  note u = tally_update [OF i, of destroying p] tally_update [OF i, of "\<lambda>p. p = T_break" p]
    tally_update [OF i, of "\<lambda>p. p = T_cond" p] tally_update [OF i, of will_broadcast p]
  note q = sp_quitsD [OF inv] and b = tally_pos [OF i, of will_broadcast]
  from act show ?thesis
  proof (cases rule: pool_act_elim)
    case own
    note s = sp_next_quits [OF counts inv i own]
    have wakes: "sp_wakes m' = sp_waiters m'" if quit: "sp_quit m'" and none: "tally will_broadcast (ps[i := p]) = 0"
    proof -
      have "\<not> will_broadcast p" using none u(4) b by (auto split: if_splits)
      then have m: "sp_quit m" using s quit by blast
      show ?thesis
      proof (cases "will_broadcast (ps ! i)")
        case True
        then show ?thesis using sp_next_broadcast [OF own] \<open>\<not> will_broadcast p\<close> by blast
      next
        case False
        then have "tally will_broadcast ps = 0" using u(4) none \<open>\<not> will_broadcast p\<close> by simp
        moreover have "ps ! i \<noteq> T_cond" using q(4) [OF m] tally_pos [OF i, of "\<lambda>p. p = T_cond"] by auto
        ultimately show ?thesis using sp_next_wakes [OF own m] q(5) m by blast
      qed
    qed
    have "sp_quit m'" if "0 < tally destroying (ps[i := p])"
      using that s u(1) q(1) by (cases "destroying p") (auto split: if_splits)
    moreover have "sp_quit m'" if "0 < tally (\<lambda>p. p = T_break) (ps[i := p])"
      using that s u(2) q(3) by (cases "p = T_break") (auto split: if_splits)
    moreover have "tally (\<lambda>p. p = T_cond) (ps[i := p]) = 0" if "sp_quit m'"
      using that s u(3) q(4) by (auto split: if_splits)
    ultimately show ?thesis using s wakes by (auto simp: sp_quits_def)
  next
    case spurious
    then show ?thesis using inv u by (auto simp: sp_quits_def min_def)
  qed
qed

lemma sp_tasks_kept:
  assumes counts: "sp_counts (m, ps)" and inv: "sp_tasks (m, ps)" and i: "i < length ps"
    and act: "pool_act m (ps ! i) m' p"
  shows "sp_tasks (m', ps[i := p])"
proof -
  note u = tally_update [OF i, of releasing p]
  note pos = tally_pos [OF i, of releasing] tally_pos [OF i, of busy]
  from act show ?thesis
  proof (cases rule: pool_act_elim)
    case own
    then show ?thesis
      by (cases "ps ! i" rule: sp_pc_cases)
        (use counts inv u pos in \<open>auto simp: sp_tasks_def sp_counts_def sp_next_defs split: if_splits list.splits\<close>)
  next
    case spurious
    then show ?thesis using inv u pos by (auto simp: sp_tasks_def split: if_splits)
  qed
qed

interpretation sp: kept pool_act sp_inv
  by unfold_locales (auto simp: sp_inv_def intro: sp_counts_kept sp_quits_kept sp_tasks_kept)

subsection \<open>The pool when it starts\<close>

definition sp_start :: "nat \<Rightarrow> sp_call list list \<Rightarrow> spool \<times> sp_pc list" where
  "sp_start n calls =
     (\<lparr>sp_queue = [], sp_quit = False, sp_mutex = False, sp_waiters = 0, sp_wakes = 0, sp_count = n, sp_exited = 0,
       sp_pushed = [], sp_started = [], sp_dropped = []\<rparr>, replicate n T_loop @ map P_next calls)"

lemma sp_start_inv: "sp_inv (sp_start n calls)"
  by (simp add: sp_start_def sp_inv_def sp_counts_def sp_quits_def sp_tasks_def cnt_map_zero)

lemma sp_next_count: "sp_next m p = Some (m', p') \<Longrightarrow> sp_count m' = sp_count m"
  by (cases p rule: sp_pc_cases) (auto simp: sp_next_defs split: if_splits list.splits)

lemma pool_act_count: "pool_act m p m' p' \<Longrightarrow> sp_count m' = sp_count m"
  by (erule pool_act_elim) (auto dest: sp_next_count)

interpretation sp_size: kept pool_act "\<lambda>(m, ps). sp_count m = n" for n
  by unfold_locales (use pool_act_count in force)

lemma sp_reachable:
  assumes "(interleave pool_act)\<^sup>*\<^sup>* (sp_start n calls) (m, ps)"
  shows "sp_inv (m, ps)" "sp_count m = n"
  using sp.reachable_inv [OF assms sp_start_inv] sp_size.reachable_inv [OF assms, of n]
  by (simp_all add: sp_start_def)

lemma sp_schedule: "schedule sp_next is s = Some s' \<Longrightarrow> (interleave pool_act)\<^sup>*\<^sup>* s s'"
  by (rule schedule_reaches [of sp_next]) (auto intro: pool_act.own)

subsection \<open>When no thread can go on\<close>

lemma sp_next_None:
  assumes "sp_next m p = None" "\<not> sp_mutex m"
  shows "p = T_waiting \<and> sp_wakes m = 0 \<or> p = T_done \<or> p = P_next [] \<or>
    (\<exists>cs. p = D_join cs) \<and> sp_exited m \<noteq> sp_count m"
  using assms by (cases p rule: sp_pc_cases) (auto simp: sp_next_defs split: if_splits)

lemma mutex_moves: "has_mutex p \<Longrightarrow> sp_next m p \<noteq> None"
  by (cases p) (auto simp: sp_next_defs)

lemma sp_stuck_threads:
  assumes inv: "sp_inv (m, ps)" and stuck: "stuck sp_next (m, ps)" and p: "p \<in> set ps"
  shows "p = T_waiting \<and> sp_wakes m = 0 \<or> p = T_done \<or> p = P_next [] \<or>
    (\<exists>cs. p = D_join cs) \<and> sp_exited m \<noteq> sp_count m"
proof (rule sp_next_None)
  show "sp_next m p = None" using stuck p by (auto simp: stuck_def list_all_iff)
  have "tally has_mutex ps = 0" unfolding tally_zero
    using stuck mutex_moves by (auto simp: stuck_def list_all_iff simp del: not_None_eq)
  then show "\<not> sp_mutex m" using inv by (auto simp: sp_inv_def sp_counts_def split: if_splits)
qed

lemma sp_stuck_state:
  assumes inv: "sp_inv (m, ps)" and stuck: "stuck sp_next (m, ps)"
  shows "(\<forall>p\<in>set ps. p = T_waiting \<or> p = T_done \<or> p = P_next []) \<and>
    (if sp_quit m then sp_exited m = sp_count m else sp_waiters m = sp_count m)"
proof -
  note threads = sp_stuck_threads [OF inv stuck]
  have idle: "tally busy ps = 0" "tally will_broadcast ps = 0" unfolding tally_zero by (auto dest!: threads)
  have counts: "sp_waiters m + sp_exited m = sp_count m" "tally (\<lambda>p. p = T_waiting) ps = sp_waiters m"
    using inv idle by (auto simp: sp_inv_def sp_counts_def)
  have wakes: "sp_wakes m = 0" if "0 < sp_waiters m"
  proof -
    have "T_waiting \<in> set ps" using that counts(2) tally_zero [of "\<lambda>p. p = T_waiting" ps] by auto
    then show ?thesis using threads by blast
  qed
  have shut: "sp_exited m = sp_count m" if "sp_quit m"
    using that inv idle wakes counts by (cases "sp_waiters m = 0") (auto simp: sp_inv_def sp_quits_def)
  have "\<not> (\<exists>cs. p = D_join cs)" if p: "p \<in> set ps" for p
  proof
    assume "\<exists>cs. p = D_join cs"
    then have "0 < tally destroying ps" "sp_exited m \<noteq> sp_count m"
      using tally_in [OF p, of destroying] threads [OF p] by auto
    then show False using shut inv by (auto simp: sp_inv_def sp_quits_def)
  qed
  moreover have "sp_exited m = 0" if "\<not> sp_quit m" using that inv by (auto simp: sp_inv_def sp_quits_def)
  ultimately show ?thesis using threads shut counts(1) by auto
qed

end
