(* ===== verification/Sh_Thread_Pool_Life.thy ===== *)
theory Sh_Thread_Pool_Life
  imports Sh_Thread_Pool
begin

text \<open>
  Creating and destroying the thread pool of \<open>thread_pool.cpp\<close>, and what its protocol promises and does not
  promise: destroying a pool ends, but a task may be left in the queue while every worker sleeps.
\<close>

subsection \<open>What the threads do uses up work\<close>

fun sp_call_work :: "nat \<Rightarrow> sp_call \<Rightarrow> nat" where
  "sp_call_work n (Push j) = 14" | "sp_call_work n Push_fails = 10" | "sp_call_work n Destroy = 8 * n + 7"

fun sp_pc_work :: "nat \<Rightarrow> sp_pc \<Rightarrow> nat" where
  "sp_pc_work n T_done = 0" | "sp_pc_work n T_waiting = 0" | "sp_pc_work n T_cond = 1" | "sp_pc_work n T_break = 1"
| "sp_pc_work n T_check = 2" | "sp_pc_work n T_lock = 3" | "sp_pc_work n T_pop = 4" | "sp_pc_work n T_loop = 5"
| "sp_pc_work n (T_run j) = 6" | "sp_pc_work n T_unlock = 6" | "sp_pc_work n T_relock = 7"
| "sp_pc_work n (P_next cs) = sum_list (map (sp_call_work n) cs)"
| "sp_pc_work n (P_signal cs) = sum_list (map (sp_call_work n) cs) + 9"
| "sp_pc_work n (D_set cs) = sum_list (map (sp_call_work n) cs) + 8 * n + 6"
| "sp_pc_work n (D_unlock cs) = sum_list (map (sp_call_work n) cs) + 8 * n + 5"
| "sp_pc_work n (D_broadcast cs) = sum_list (map (sp_call_work n) cs) + 8 * n + 4"
| "sp_pc_work n (D_join cs) = sum_list (map (sp_call_work n) cs) + 2"
| "sp_pc_work n (D_release cs) = sum_list (map (sp_call_work n) cs) + 1"

lemma sp_next_work:
  assumes "sp_next m p = Some (m', p')" "sp_wakes m \<le> sp_waiters m" "sp_waiters m \<le> sp_count m"
  shows "sp_pc_work (sp_count m) p' + (3 * length (sp_queue m') + 8 * sp_wakes m') <
    sp_pc_work (sp_count m) p + (3 * length (sp_queue m) + 8 * sp_wakes m)"
  using assms
  by (cases p rule: sp_pc_cases) (auto simp: sp_next_defs min_def split: if_splits list.splits)

interpretation spw: resting pool_act sp_inv sp_own "\<lambda>m. sp_pc_work (sp_count m)"
  "\<lambda>m. 3 * length (sp_queue m) + 8 * sp_wakes m"
proof unfold_locales
  fix m p m' p'
  assume step: "sp_own m p m' p'"
  then show "pool_act m p m' p'" unfolding sp_own_def by (rule pool_act.own)
  then show "sp_pc_work (sp_count m') = sp_pc_work (sp_count m)" using pool_act_count by simp
next
  fix m ps p m' p'
  assume inv: "sp_inv (m, ps)" and step: "sp_own m p m' p'"
  have "sp_wakes m \<le> sp_waiters m" "sp_waiters m \<le> sp_count m" using inv by (auto simp: sp_inv_def sp_counts_def)
  then show "sp_pc_work (sp_count m) p' + (3 * length (sp_queue m') + 8 * sp_wakes m') <
      sp_pc_work (sp_count m) p + (3 * length (sp_queue m) + 8 * sp_wakes m)"
    using step unfolding sp_own_def by (intro sp_next_work)
qed

lemma sp_stuck_iff: "stuck sp_next s \<longleftrightarrow> (\<nexists>s'. interleave sp_own s s')"
  by (rule stuck_iff) (rule sp_own_def)

definition sp_work :: "spool \<times> sp_pc list \<Rightarrow> nat" where
  "sp_work = work (\<lambda>m. sp_pc_work (sp_count m)) (\<lambda>m. 3 * length (sp_queue m) + 8 * sp_wakes m)"

subsection \<open>Creating a pool\<close>

text \<open>What the system calls return, and the resources that are allocated and not given back.\<close>

record pool_env =
  e_pool :: bool
  e_queue :: bool
  e_spin :: int
  e_mutex :: int
  e_cond :: int
  e_attr :: int
  e_threads :: bool
  e_create :: "nat \<Rightarrow> int"

datatype pool_res = R_pool | R_queue | R_spin | R_mutex | R_cond | R_attr | R_threads

text \<open>The loop over \<open>pthread_create\<close>: how many threads there are, and the last result.\<close>

fun create_threads :: "pool_env \<Rightarrow> nat \<Rightarrow> nat \<Rightarrow> int \<Rightarrow> nat \<times> int" where
  "create_threads e i 0 ret = (i, ret)"
| "create_threads e i (Suc k) ret =
     (let ret = e_create e i in if ret \<noteq> 0 then (i, ret) else create_threads e (i + 1) k ret)"

text \<open>The result, the number of threads that were joined, and the resources.\<close>

definition init_threads :: "pool_env \<Rightarrow> nat \<Rightarrow> pool_res set \<Rightarrow> int \<times> nat \<times> pool_res set" where
  "init_threads e count rs =
     (let ret = e_attr e in
      if ret = 0 then
        let rs = insert R_attr rs in
        if e_threads e then
          let rs = insert R_threads rs; (i, ret) = create_threads e 0 count ret; rs = rs - {R_attr} in
          if i = count then (0, 0, rs) else (- 1, i, rs - {R_threads})
        else (- 1, 0, rs)
      else (ret, 0, rs))"

definition create_task_queue :: "pool_env \<Rightarrow> pool_res set \<Rightarrow> bool \<times> pool_res set" where
  "create_task_queue e rs =
     (if e_queue e
      then let rs = insert R_queue rs in
        if e_spin e = 0 then (True, insert R_spin rs) else (False, rs - {R_queue})
      else (False, rs))"

definition destory_task_queue :: "pool_res set \<Rightarrow> pool_res set" where
  "destory_task_queue rs = rs - {R_spin} - {R_queue}"

definition sh_create_thread_pool :: "pool_env \<Rightarrow> int \<Rightarrow> pool_res set \<Rightarrow> bool \<times> nat \<times> pool_res set" where
  "sh_create_thread_pool e count rs =
     (if count \<le> 0 then (False, 0, rs)
      else if e_pool e then
        let rs = insert R_pool rs; (queue, rs) = create_task_queue e rs in
        if queue then
          let (done, joined, rs) =
            (if e_mutex e = 0 then
               let rs = insert R_mutex rs;
                 (done, joined, rs) =
                   (if e_cond e = 0 then
                      let rs = insert R_cond rs; (ret, joined, rs) = init_threads e (nat count) rs in
                      if ret = 0 then (True, joined, rs) else (False, joined, rs - {R_cond})
                    else (False, 0, rs)) in
               if done then (True, joined, rs) else (False, joined, rs - {R_mutex})
             else (False, 0, rs)) in
          if done then (True, joined, rs) else (False, joined, destory_task_queue rs - {R_pool})
        else (False, 0, rs - {R_pool})
      else (False, 0, rs))"

definition sh_destory_pool_resources :: "pool_res set \<Rightarrow> pool_res set" where
  "sh_destory_pool_resources rs = destory_task_queue (rs - {R_cond} - {R_mutex}) - {R_threads} - {R_pool}"

lemma create_threads_count:
  "create_threads e i k ret = (n, r) \<Longrightarrow> n \<le> i + k \<and> (n = i + k \<longleftrightarrow> (\<forall>j<k. e_create e (i + j) = 0)) \<and> (n = i + k \<longrightarrow> r = 0 \<or> k = 0)"
proof (induction k arbitrary: i ret)
  case (Suc k)
  show ?case
  proof (cases "e_create e i = 0")
    case True
    then have "(\<forall>j<Suc k. e_create e (i + j) = 0) \<longleftrightarrow> (\<forall>j<k. e_create e (Suc i + j) = 0)"
      by (auto simp: less_Suc_eq_0_disj)
    moreover have "r = 0" if "k = 0" using Suc.prems that True by (simp add: Let_def)
    ultimately show ?thesis using Suc.IH [of "Suc i" 0] Suc.prems True by (auto simp: Let_def)
  next
    case False
    then show ?thesis using Suc.prems by (auto simp: Let_def intro!: exI [of _ 0])
  qed
qed auto

subsection \<open>Threads that are never told to quit\<close>

text \<open>
  When \<open>pthread_create\<close> fails, \<open>init_threads\<close> joins the \<open>i\<close> threads it has created; \<open>quit\<close> is 0 and nobody else knows
  the pool.
\<close>

definition joining_start :: "nat \<Rightarrow> spool \<times> sp_pc list" where
  "joining_start i = (fst (sp_start i []), replicate i T_loop @ [D_join []])"

definition nobody_quits :: "nat \<Rightarrow> spool \<times> sp_pc list \<Rightarrow> bool" where
  "nobody_quits n = (\<lambda>(m, ps). \<not> sp_quit m \<and> sp_exited m = 0 \<and> 0 < sp_count m \<and> length ps = Suc n \<and> last ps = D_join [] \<and>
     (\<forall>p\<in>set ps. p = D_join [] \<or> is_worker p \<and> p \<noteq> T_break))"

lemma nobody_quits_kept:
  assumes inv: "nobody_quits n (m, ps)" and i: "i < length ps" and act: "pool_act m (ps ! i) m' p"
  shows "nobody_quits n (m', ps[i := p])"
proof -
  have p: "ps ! i \<in> set ps" using i by simp
  have "ps ! i \<noteq> D_join []" using act inv by (auto simp: nobody_quits_def sp_next_defs elim!: pool_act.cases)
  then have w: "is_worker (ps ! i)" "ps ! i \<noteq> T_break" using inv p by (auto simp: nobody_quits_def)
  have "ps \<noteq> []" using i by auto
  then have "ps ! (length ps - 1) = D_join []" using inv by (auto simp: nobody_quits_def last_conv_nth)
  then have "i \<noteq> length ps - 1" using \<open>ps ! i \<noteq> D_join []\<close> by auto
  with \<open>ps \<noteq> []\<close> have "last (ps[i := p]) = last ps" by (simp add: last_list_update)
  moreover have "\<not> sp_quit m' \<and> sp_exited m' = 0 \<and> sp_count m' = sp_count m \<and> is_worker p \<and> p \<noteq> T_break"
    using act
  proof (cases rule: pool_act_elim)
    case own
    then show ?thesis using inv w
      by (cases "ps ! i" rule: sp_pc_cases)
        (auto simp: nobody_quits_def sp_next_defs split: if_splits list.splits)
  next
    case spurious
    then show ?thesis using inv by (auto simp: nobody_quits_def)
  qed
  ultimately show ?thesis using inv set_update_subset_insert [of ps i p] by (auto simp: nobody_quits_def)
qed

interpretation nq: kept pool_act "nobody_quits n" for n
  by unfold_locales (rule nobody_quits_kept)

subsection \<open>The properties\<close>

text \<open>
  creating a pool either gives one with all its resources, or gives nothing and keeps nothing, for whatever the
  allocations, the initialisations and the thread creations return, except that the thread attributes are left initialised when there is no
  memory for the array of threads.
\<close>

theorem sh_create_thread_pool_resources:
  assumes "0 < count"
  shows "(case sh_create_thread_pool e count {} of (ok, joined, rs) \<Rightarrow>
     (ok \<longleftrightarrow> e_pool e \<and> e_queue e \<and> e_spin e = 0 \<and> e_mutex e = 0 \<and> e_cond e = 0 \<and> e_attr e = 0 \<and> e_threads e \<and>
       (\<forall>j<nat count. e_create e j = 0)) \<and>
     (ok \<longrightarrow> joined = 0 \<and> rs = {R_pool, R_queue, R_spin, R_mutex, R_cond, R_threads} \<and>
       sh_destory_pool_resources rs = {}) \<and>
     (\<not> ok \<longrightarrow> rs = (if e_pool e \<and> e_queue e \<and> e_spin e = 0 \<and> e_mutex e = 0 \<and> e_cond e = 0 \<and> e_attr e = 0 \<and>
       \<not> e_threads e then {R_attr} else {})))"
proof -
  obtain i r where loop: "create_threads e 0 (nat count) 0 = (i, r)" by (cases "create_threads e 0 (nat count) 0")
  note n = create_threads_count [OF loop]
  show ?thesis
    using assms n
    by (auto simp: sh_create_thread_pool_def create_task_queue_def init_threads_def destory_task_queue_def
        sh_destory_pool_resources_def loop Let_def)
qed

definition no_third_thread :: pool_env where
  "no_third_thread = \<lparr>e_pool = True, e_queue = True, e_spin = 0, e_mutex = 0, e_cond = 0, e_attr = 0, e_threads = True,
     e_create = (\<lambda>i. if i = 2 then 11 else 0)\<rparr>"

theorem sh_create_thread_pool_resources_witness:
  "sh_create_thread_pool no_third_thread 4 {} = (False, 2, {}) \<and>
   (case sh_create_thread_pool no_third_thread 4 {} of (ok, joined, rs) \<Rightarrow> \<not> ok \<and> rs = {})"
proof -
  have "sh_create_thread_pool no_third_thread 4 {} = (False, 2, {})" by code_simp
  then show ?thesis using sh_create_thread_pool_resources [of 4 no_third_thread] by (auto simp: no_third_thread_def)
qed


definition joined_forever :: "spool \<times> sp_pc list" where
  "joined_forever = the (schedule sp_next [0, 0, 0, 0, 0] (joining_start 1))"



definition sp_run_calls :: "spool \<times> sp_pc list" where
  "sp_run_calls = the (schedule sp_next [0, 0, 0, 0, 0, 1, 1, 0, 0, 0, 0, 0, 0, 1, 1, 1, 1, 0, 1, 1]
     (sp_start 1 [[Push 7, Destroy]]))"


text \<open>
  C9: a wake-up can be lost: a worker finds no task, a client pushes one and signals, and then the worker starts to
  wait; the task stays in the queue, the only worker sleeps, and nobody can go on although the pool was not destroyed.
\<close>

theorem sh_push_lost_wakeup:
  "\<exists>m ps. (interleave pool_act)\<^sup>*\<^sup>* (sp_start 1 [[Push 7]]) (m, ps) \<and> stuck sp_next (m, ps) \<and>
     ps = [T_waiting, P_next []] \<and> sp_queue m = [7] \<and> sp_started m = [] \<and> \<not> sp_quit m"
proof -
  let ?is = "[0, 0, 0, 0, 1, 1, 0]" and ?s = "sp_start 1 [[Push 7]]"
  have run: "(case schedule sp_next ?is ?s of None \<Rightarrow> False
    | Some s \<Rightarrow> stuck sp_next s \<and> snd s = [T_waiting, P_next []] \<and> sp_queue (fst s) = [7] \<and> sp_started (fst s) = [] \<and>
        \<not> sp_quit (fst s))"
    by code_simp
  then obtain s where s: "schedule sp_next ?is ?s = Some s" and "stuck sp_next s \<and> snd s = [T_waiting, P_next []] \<and>
      sp_queue (fst s) = [7] \<and> sp_started (fst s) = [] \<and> \<not> sp_quit (fst s)"
    by (auto split: option.splits)
  then show ?thesis using sp_schedule [OF s] by (cases s) auto
qed

end
