(* ===== verification/Bst.thy ===== *)
theory Bst
  imports Prelude "HOL-Library.Tree"
begin

text \<open>
  The search trees of \<open>tree/bst_tree/main.cpp\<close> and \<open>tree/2x_tree/main.cpp\<close> (\<open>tree/bb_tree/main.cpp\<close> is the
  same file as the latter): nodes in a heap, one definition per function.  A node is its address, 0 is
  the null pointer; an access to a node that is not allocated has no result.  \<open>z\<close> is what \<open>malloc\<close> returned for the
  node created.
\<close>

record bst =
  b_key :: "nat \<Rightarrow> int"
  b_data :: "nat \<Rightarrow> nat"
  b_p :: "nat \<Rightarrow> nat"
  b_l :: "nat \<Rightarrow> nat"
  b_r :: "nat \<Rightarrow> nat"
  b_live :: "nat set"
  b_root :: nat

subsection \<open>Nodes\<close>

definition node_get :: "(bst \<Rightarrow> nat \<Rightarrow> 'a) \<Rightarrow> nat \<Rightarrow> bst \<Rightarrow> 'a option" where
  "node_get f a m = (if a \<in> b_live m then Some (f m a) else None)"

definition node_set :: "nat \<Rightarrow> bst \<Rightarrow> bst \<Rightarrow> bst option" where
  "node_set a m' m = (if a \<in> b_live m then Some m' else None)"

definition set_data :: "nat \<Rightarrow> nat \<Rightarrow> bst \<Rightarrow> bst option" where
  "set_data a v m = node_set a (m\<lparr>b_data := (b_data m)(a := v)\<rparr>) m"

definition set_p :: "nat \<Rightarrow> nat \<Rightarrow> bst \<Rightarrow> bst option" where
  "set_p a v m = node_set a (m\<lparr>b_p := (b_p m)(a := v)\<rparr>) m"

definition set_l :: "nat \<Rightarrow> nat \<Rightarrow> bst \<Rightarrow> bst option" where
  "set_l a v m = node_set a (m\<lparr>b_l := (b_l m)(a := v)\<rparr>) m"

definition set_r :: "nat \<Rightarrow> nat \<Rightarrow> bst \<Rightarrow> bst option" where
  "set_r a v m = node_set a (m\<lparr>b_r := (b_r m)(a := v)\<rparr>) m"

definition create_node :: "nat \<Rightarrow> int \<Rightarrow> nat \<Rightarrow> nat \<Rightarrow> nat \<Rightarrow> nat \<Rightarrow> bst \<Rightarrow> (nat \<times> bst) option" where
  "create_node z key data p l r m =
     (if z = 0 then None
      else Some (z, m\<lparr>b_live := insert z (b_live m), b_key := (b_key m)(z := key), b_data := (b_data m)(z := data),
        b_p := (b_p m)(z := p), b_l := (b_l m)(z := l), b_r := (b_r m)(z := r)\<rparr>))"

definition create_leaf :: "nat \<Rightarrow> int \<Rightarrow> nat \<Rightarrow> bst \<Rightarrow> (nat \<times> bst) option" where
  "create_leaf z key data m = create_node z key data 0 0 0 m"

definition release_node :: "nat \<Rightarrow> bst \<Rightarrow> bst option" where
  "release_node node m =
     (if node \<noteq> 0 then if node \<in> b_live m then Some (m\<lparr>b_live := b_live m - {node}\<rparr>) else None else Some m)"

subsection \<open>\<open>bst_tree\<close>\<close>

partial_function (option) insert_node :: "nat \<Rightarrow> nat \<Rightarrow> int \<Rightarrow> nat \<Rightarrow> bst \<Rightarrow> (nat \<times> bst) option" where
  "insert_node z node key data m =
     (if node = 0 then create_node z key data 0 0 0 m
      else do {
        k \<leftarrow> node_get b_key node m;
        if k = key then do { m \<leftarrow> set_data node data m; Some (node, m) }
        else if k > key then do {
          l \<leftarrow> node_get b_l node m;
          if l = 0 then do {
            (n, m) \<leftarrow> create_node z key data node 0 0 m;
            m \<leftarrow> set_l node n m;
            Some (n, m) }
          else insert_node z l key data m }
        else do {
          r \<leftarrow> node_get b_r node m;
          if r = 0 then do {
            (n, m) \<leftarrow> create_node z key data node 0 0 m;
            m \<leftarrow> set_r node n m;
            Some (n, m) }
          else insert_node z r key data m } })"

definition bst_tree_insert :: "nat \<Rightarrow> int \<Rightarrow> nat \<Rightarrow> bst \<Rightarrow> (nat \<times> bst) option" where
  "bst_tree_insert z key data m =
     (if b_root m = 0 then do { (n, m) \<leftarrow> create_leaf z key data m; Some (n, m\<lparr>b_root := n\<rparr>) }
      else insert_node z (b_root m) key data m)"

partial_function (option) find_node :: "nat \<Rightarrow> int \<Rightarrow> bst \<Rightarrow> nat option" where
  "find_node root key m =
     (if root = 0 then Some root
      else do {
        k \<leftarrow> node_get b_key root m;
        if k = key then Some root
        else if k > key then do { l \<leftarrow> node_get b_l root m; find_node l key m }
        else do { r \<leftarrow> node_get b_r root m; find_node r key m } })"

definition bst_find_node :: "int \<Rightarrow> bst \<Rightarrow> nat option" where
  "bst_find_node key m = (if b_root m = 0 then Some 0 else find_node (b_root m) key m)"

partial_function (option) delete_node :: "nat \<Rightarrow> int \<Rightarrow> bst \<Rightarrow> (nat \<times> bst) option" where
  "delete_node root key m =
     (if root = 0 then Some (0, m)
      else do {
        k \<leftarrow> node_get b_key root m;
        l \<leftarrow> node_get b_l root m;
        r \<leftarrow> node_get b_r root m;
        if k = key then
          if l = 0 \<and> r = 0 then do { m \<leftarrow> release_node root m; Some (0, m) }
          else if l \<noteq> 0 \<and> r = 0 then do {
            (node, m) \<leftarrow> delete_node l key m;
            m \<leftarrow> release_node root m;
            Some (node, m) }
          else do {
            rk \<leftarrow> node_get b_key r m;
            (node, m) \<leftarrow> delete_node r rk m;
            m \<leftarrow> release_node root m;
            Some (node, m) }
        else if k > key then do {
          (node, m) \<leftarrow> delete_node l key m;
          m \<leftarrow> set_l root node m;
          Some (root, m) }
        else do {
          (node, m) \<leftarrow> delete_node r key m;
          m \<leftarrow> set_r root node m;
          Some (root, m) } })"

partial_function (option) release_tree :: "nat \<Rightarrow> bst \<Rightarrow> bst option" where
  "release_tree root m =
     (if root \<noteq> 0 then do {
        l \<leftarrow> node_get b_l root m;
        m \<leftarrow> release_tree l m;
        r \<leftarrow> node_get b_r root m;
        m \<leftarrow> release_tree r m;
        release_node root m }
      else Some m)"

definition bst_release_tree :: "bst \<Rightarrow> bst option" where
  "bst_release_tree m =
     (if b_root m \<noteq> 0 then do { m \<leftarrow> release_tree (b_root m) m; Some (m\<lparr>b_root := 0\<rparr>) } else Some m)"

text \<open>What the traversals print.\<close>

partial_function (option) preface_traversal :: "nat \<Rightarrow> bst \<Rightarrow> nat list option" where
  "preface_traversal root m =
     (if root \<noteq> 0 then do {
        d \<leftarrow> node_get b_data root m;
        l \<leftarrow> node_get b_l root m;
        xs \<leftarrow> preface_traversal l m;
        r \<leftarrow> node_get b_r root m;
        ys \<leftarrow> preface_traversal r m;
        Some (d # xs @ ys) }
      else Some [])"

partial_function (option) inorder_traversal :: "nat \<Rightarrow> bst \<Rightarrow> nat list option" where
  "inorder_traversal root m =
     (if root \<noteq> 0 then do {
        l \<leftarrow> node_get b_l root m;
        xs \<leftarrow> inorder_traversal l m;
        d \<leftarrow> node_get b_data root m;
        r \<leftarrow> node_get b_r root m;
        ys \<leftarrow> inorder_traversal r m;
        Some (xs @ d # ys) }
      else Some [])"

partial_function (option) postorder_traversal :: "nat \<Rightarrow> bst \<Rightarrow> nat list option" where
  "postorder_traversal root m =
     (if root \<noteq> 0 then do {
        l \<leftarrow> node_get b_l root m;
        xs \<leftarrow> postorder_traversal l m;
        r \<leftarrow> node_get b_r root m;
        ys \<leftarrow> postorder_traversal r m;
        d \<leftarrow> node_get b_data root m;
        Some (xs @ ys @ [d]) }
      else Some [])"

subsection \<open>\<open>2x_tree\<close>\<close>

text \<open>Its \<open>insert_node\<close> returns the root and links a new node after the recursive call.\<close>

partial_function (option) insert_node_2x :: "nat \<Rightarrow> nat \<Rightarrow> int \<Rightarrow> nat \<Rightarrow> bst \<Rightarrow> (nat \<times> bst) option" where
  "insert_node_2x z root key data m =
     (if root = 0 then create_leaf z key data m
      else do {
        k \<leftarrow> node_get b_key root m;
        if k = key then do { m \<leftarrow> set_data root data m; Some (root, m) }
        else if k > key then do {
          l \<leftarrow> node_get b_l root m;
          (node, m) \<leftarrow> insert_node_2x z l key data m;
          l \<leftarrow> node_get b_l root m;
          if l = 0 then do { m \<leftarrow> set_l root node m; m \<leftarrow> set_p node root m; Some (root, m) }
          else Some (root, m) }
        else if k < key then do {
          r \<leftarrow> node_get b_r root m;
          (node, m) \<leftarrow> insert_node_2x z r key data m;
          r \<leftarrow> node_get b_r root m;
          if r = 0 then do { m \<leftarrow> set_r root node m; m \<leftarrow> set_p node root m; Some (root, m) }
          else Some (root, m) }
        else Some (root, m) })"

subsection \<open>The tree at a node\<close>

text \<open>\<open>bt m par a t\<close>: at \<open>a\<close>, below \<open>par\<close>, there is a tree of the shape and the addresses of \<open>t\<close>.\<close>

fun bt :: "bst \<Rightarrow> nat \<Rightarrow> nat \<Rightarrow> nat tree \<Rightarrow> bool" where
  "bt m par a Leaf \<longleftrightarrow> a = 0"
| "bt m par a (Node l x r) \<longleftrightarrow> a = x \<and> x \<noteq> 0 \<and> x \<in> b_live m \<and> b_p m x = par \<and> bt m x (b_l m x) l \<and> bt m x (b_r m x) r"

text \<open>The same without the parents, which deletion leaves as they were.\<close>

fun shape :: "bst \<Rightarrow> nat \<Rightarrow> nat tree \<Rightarrow> bool" where
  "shape m a Leaf \<longleftrightarrow> a = 0"
| "shape m a (Node l x r) \<longleftrightarrow> a = x \<and> x \<noteq> 0 \<and> x \<in> b_live m \<and> shape m (b_l m x) l \<and> shape m (b_r m x) r"

lemma bt_shape: "bt m par a t \<Longrightarrow> shape m a t"
  by (induction t arbitrary: par a) auto

lemma shape_cong:
  "(\<And>x. x \<in> set_tree t \<Longrightarrow> b_l m' x = b_l m x \<and> b_r m' x = b_r m x \<and> (x \<in> b_live m' \<longleftrightarrow> x \<in> b_live m)) \<Longrightarrow>
    shape m' a t = shape m a t"
  by (induction t arbitrary: a) auto

lemma shape_zero: "shape m a t \<Longrightarrow> a = 0 \<longleftrightarrow> t = Leaf"
  by (cases t) auto

lemma shape_nodes: "shape m a t \<Longrightarrow> x \<in> set_tree t \<Longrightarrow> x \<noteq> 0 \<and> x \<in> b_live m"
  by (induction t arbitrary: a) auto

abbreviation searched :: "bst \<Rightarrow> nat tree \<Rightarrow> bool" where
  "searched m t \<equiv> bst_wrt (\<lambda>x y. b_key m x < b_key m y) t"

lemma bt_cong:
  "(\<And>x. x \<in> set_tree t \<Longrightarrow> b_l m' x = b_l m x \<and> b_r m' x = b_r m x \<and> b_p m' x = b_p m x \<and> (x \<in> b_live m' \<longleftrightarrow> x \<in> b_live m)) \<Longrightarrow>
    bt m' par a t = bt m par a t"
  by (induction t arbitrary: par a) auto

lemma bt_zero: "bt m par a t \<Longrightarrow> a = 0 \<longleftrightarrow> t = Leaf"
  by (cases t) auto

lemma bt_nodes: "bt m par a t \<Longrightarrow> x \<in> set_tree t \<Longrightarrow> x \<noteq> 0 \<and> x \<in> b_live m"
  by (induction t arbitrary: par a) auto

lemma bt_root: "bt m par a t \<Longrightarrow> t \<noteq> Leaf \<Longrightarrow> a \<in> set_tree t"
  by (cases t) auto

lemma keys_cong:
  "(\<And>x. x \<in> set_tree t \<Longrightarrow> f' x = f x) \<Longrightarrow>
    bst_wrt (\<lambda>x y. f' x < (f' y :: 'a :: linorder)) t = bst_wrt (\<lambda>x y. f x < f y) t"
  by (induction t) auto

lemma searched_cong: "(\<And>x. x \<in> set_tree t \<Longrightarrow> b_key m' x = b_key m x) \<Longrightarrow> searched m' t = searched m t"
  by (rule keys_cong)

text \<open>No address occurs twice.\<close>

fun tree_distinct :: "'a tree \<Rightarrow> bool" where
  "tree_distinct Leaf \<longleftrightarrow> True"
| "tree_distinct (Node l x r) \<longleftrightarrow> x \<notin> set_tree l \<and> x \<notin> set_tree r \<and> set_tree l \<inter> set_tree r = {} \<and>
     tree_distinct l \<and> tree_distinct r"

lemma searched_distinct: "searched m t \<Longrightarrow> tree_distinct t"
  by (induction t) fastforce+

lemmas node_defs = node_get_def node_set_def set_data_def set_p_def set_l_def set_r_def create_node_def create_leaf_def
  release_node_def

text \<open>The pairs of key and data, as a map.\<close>

definition pairs :: "bst \<Rightarrow> nat tree \<Rightarrow> (int \<times> nat) set" where
  "pairs m t = (\<lambda>x. (b_key m x, b_data m x)) ` set_tree t"

subsection \<open>Walks\<close>

lemma preface_traversal_ok: "shape m a t \<Longrightarrow> preface_traversal a m = Some (map (b_data m) (preorder t))"
  by (induction t arbitrary: a) (subst preface_traversal.simps; fastforce simp: node_get_def)+

lemma inorder_traversal_ok: "shape m a t \<Longrightarrow> inorder_traversal a m = Some (map (b_data m) (inorder t))"
  by (induction t arbitrary: a) (subst inorder_traversal.simps; fastforce simp: node_get_def)+

lemma postorder_traversal_ok: "shape m a t \<Longrightarrow> postorder_traversal a m = Some (map (b_data m) (postorder t))"
  by (induction t arbitrary: a) (subst postorder_traversal.simps; fastforce simp: node_get_def)+

lemma find_node_ok:
  "shape m a t \<Longrightarrow> searched m t \<Longrightarrow> \<exists>n. find_node a k m = Some n \<and>
    (if n = 0 then \<forall>x\<in>set_tree t. b_key m x \<noteq> k else n \<in> set_tree t \<and> b_key m n = k)"
proof (induction t arbitrary: a)
  case Leaf
  then show ?case by (subst find_node.simps) simp
next
  case (Node l x r)
  let ?n = "if b_key m x > k then l else r" and ?a = "if b_key m x > k then b_l m x else b_r m x"
  show ?case
  proof (cases "b_key m x = k")
    case True
    then show ?thesis using Node.prems by (subst find_node.simps) (auto simp: node_get_def)
  next
    case False
    obtain n where n: "find_node ?a k m = Some n" "if n = 0 then \<forall>x\<in>set_tree ?n. b_key m x \<noteq> k
        else n \<in> set_tree ?n \<and> b_key m n = k"
      using Node by (cases "b_key m x > k") force+
    have "find_node a k m = find_node ?a k m"
      using Node.prems False by (subst find_node.simps) (auto simp: node_get_def)
    then show ?thesis using n Node.prems False by (fastforce split: if_splits)
  qed
qed

lemma release_tree_ok:
  "shape m a t \<Longrightarrow> tree_distinct t \<Longrightarrow> release_tree a m = Some (m\<lparr>b_live := b_live m - set_tree t\<rparr>)"
proof (induction t arbitrary: m a)
  case Leaf
  then show ?case by (subst release_tree.simps) simp
next
  case (Node l x r)
  let ?m1 = "m\<lparr>b_live := b_live m - set_tree l\<rparr>" and ?m2 = "m\<lparr>b_live := b_live m - set_tree l - set_tree r\<rparr>"
  have l: "release_tree (b_l m x) m = Some ?m1" using Node by auto
  have "shape ?m1 (b_r m x) r \<longleftrightarrow> shape m (b_r m x) r" by (rule shape_cong) (use Node.prems in auto)
  then have r: "release_tree (b_r m x) ?m1 = Some ?m2" using Node.IH(2) [of ?m1] Node.prems by auto
  have "b_live m - set_tree l - set_tree r - {x} = b_live m - set_tree (Node l x r)" by auto
  then show ?case using Node.prems l r
    by (subst release_tree.simps) (auto simp: node_get_def release_node_def)
qed

end
