(* ===== verification/Update_Map.thy ===== *)
theory Update_Map
  imports Prelude
begin

text \<open>
  What a dictionary promises whose insertion replaces the value of a key that is there: the interface of the search
  trees that update, with the history of insertions and lookups as its client lemma.
\<close>

datatype ('n, 'v) upd_op = Ins 'n int 'v | Look int

fun run_upds :: "('n \<Rightarrow> int \<Rightarrow> 'v \<Rightarrow> 's \<Rightarrow> 's option) \<Rightarrow> (int \<Rightarrow> 's \<Rightarrow> 'v option option) \<Rightarrow>
    ('n, 'v) upd_op list \<Rightarrow> 's \<Rightarrow> ('v option list \<times> 's) option" where
  "run_upds ins look [] s = Some ([], s)"
| "run_upds ins look (Ins n k v # ops) s = do { s \<leftarrow> ins n k v s; run_upds ins look ops s }"
| "run_upds ins look (Look k # ops) s = do {
     a \<leftarrow> look k s;
     (as, s) \<leftarrow> run_upds ins look ops s;
     Some (a # as, s) }"

fun upd_answers :: "('n, 'v) upd_op list \<Rightarrow> (int \<rightharpoonup> 'v) \<Rightarrow> 'v option list \<times> (int \<rightharpoonup> 'v)" where
  "upd_answers [] f = ([], f)"
| "upd_answers (Ins n k v # ops) f = upd_answers ops (f(k \<mapsto> v))"
| "upd_answers (Look k # ops) f = (let (as, g) = upd_answers ops f in (f k # as, g))"

text \<open>The nodes given to the insertions are new, one after the other.\<close>

fun fresh_nodes :: "('n, 'v) upd_op list \<Rightarrow> 'n set \<Rightarrow> bool" where
  "fresh_nodes [] L \<longleftrightarrow> True"
| "fresh_nodes (Ins n k v # ops) L \<longleftrightarrow> n \<notin> L \<and> fresh_nodes ops (insert n L)"
| "fresh_nodes (Look k # ops) L \<longleftrightarrow> fresh_nodes ops L"

lemma fresh_nodes_less: "fresh_nodes ops L \<Longrightarrow> L' \<subseteq> L \<Longrightarrow> fresh_nodes ops L'"
  by (induction ops L arbitrary: L' rule: fresh_nodes.induct) (auto, meson insert_mono)

locale update_map =
  fixes rel :: "'s \<Rightarrow> (int \<rightharpoonup> 'v) \<Rightarrow> 'n set \<Rightarrow> bool"
    and ins :: "'n \<Rightarrow> int \<Rightarrow> 'v \<Rightarrow> 's \<Rightarrow> 's option"
    and look :: "int \<Rightarrow> 's \<Rightarrow> 'v option option"
  assumes ins_law: "rel s f L \<Longrightarrow> n \<notin> L \<Longrightarrow> \<exists>s'. ins n k v s = Some s' \<and> rel s' (f(k \<mapsto> v)) (insert n L)"
    and look_law: "rel s f L \<Longrightarrow> look k s = Some (f k)"
begin

lemma history:
  "rel s f L \<Longrightarrow> fresh_nodes ops L \<Longrightarrow> \<exists>s' L'. run_upds ins look ops s = Some (fst (upd_answers ops f), s') \<and>
    rel s' (snd (upd_answers ops f)) L'"
proof (induction ops f arbitrary: s L rule: upd_answers.induct)
  case (2 n k v ops f)
  then obtain s1 where "ins n k v s = Some s1" "rel s1 (f(k \<mapsto> v)) (insert n L)" using ins_law by fastforce
  then show ?case using 2 by fastforce
next
  case (3 k ops f)
  then obtain s' L' where "run_upds ins look ops s = Some (fst (upd_answers ops f), s')"
    "rel s' (snd (upd_answers ops f)) L'"
    by fastforce
  then show ?case using look_law [OF "3.prems"(1)] by (auto simp: Let_def split_beta)
qed auto

end

end
