(* ===== verification/Bst_Map.thy ===== *)
theory Bst_Map
  imports Bst Update_Map
begin

text \<open>
  The search trees as maps: what insertion does to the tree of addresses, for both versions of \<open>insert_node\<close>, that
  lookups answer as a map does, and what deletion does.
\<close>

subsection \<open>Insertion on trees of addresses\<close>

fun ins :: "(nat \<Rightarrow> int) \<Rightarrow> int \<Rightarrow> nat \<Rightarrow> nat tree \<Rightarrow> nat tree" where
  "ins f k z Leaf = Node Leaf z Leaf"
| "ins f k z (Node l x r) =
     (if f x = k then Node l x r else if f x > k then Node (ins f k z l) x r else Node l x (ins f k z r))"

text \<open>The node that holds the key after the insertion.\<close>

fun holder :: "(nat \<Rightarrow> int) \<Rightarrow> int \<Rightarrow> nat \<Rightarrow> nat tree \<Rightarrow> nat" where
  "holder f k z Leaf = z"
| "holder f k z (Node l x r) = (if f x = k then x else if f x > k then holder f k z l else holder f k z r)"

lemma set_ins: "set_tree (ins f k z t) = insert (holder f k z t) (set_tree t)"
  by (induction t) auto

lemma holder_cases: "holder f k z t = z \<or> holder f k z t \<in> set_tree t \<and> f (holder f k z t) = k"
  by (induction t) auto

lemma holder_found: "bst_wrt (\<lambda>x y. f x < f y) t \<Longrightarrow> x \<in> set_tree t \<Longrightarrow> f x = k \<Longrightarrow> holder f k z t = x"
proof (induction t)
  case (Node l y r)
  then consider "x = y" | "x \<in> set_tree l" "f x < f y" | "x \<in> set_tree r" "f y < f x" by auto
  then show ?case using Node by cases auto
qed simp

lemma ins_searched:
  assumes "bst_wrt (\<lambda>x y. f x < f y) t" "z \<notin> set_tree t" "f' = f(holder f k z t := k)"
  shows "bst_wrt (\<lambda>x y. f' x < f' y) (ins f k z t)"
  using assms
proof (induction t arbitrary: f')
  case (Node l x r)
  consider "f x = k" | "f x > k" | "f x < k" by linarith
  then show ?case
  proof cases
    case 1
    then have "f' = f" using Node.prems by auto
    then show ?thesis using 1 Node.prems by simp
  next
    case 2
    let ?h = "holder f k z l"
    have h: "?h = z \<or> ?h \<in> set_tree l" using holder_cases [of f k z l] by auto
    have f': "f' = f(?h := k)" using 2 Node.prems(3) by (simp add: fun_upd_def)
    have same: "f' y = f y" if "y \<in> insert x (set_tree r)" for y
      using that h Node.prems(1,2) f' by force
    have "bst_wrt (\<lambda>x y. f' x < f' y) r \<longleftrightarrow> bst_wrt (\<lambda>x y. f x < f y) r"
      using same by (intro keys_cong) auto
    moreover have "\<forall>y\<in>set_tree (ins f k z l). f' y < f' x"
      using 2 Node.prems(1) f' same by (auto simp: set_ins)
    ultimately show ?thesis using 2 Node.IH(1) Node.prems same f' by simp
  next
    case 3
    let ?h = "holder f k z r"
    have h: "?h = z \<or> ?h \<in> set_tree r" using holder_cases [of f k z r] by auto
    have f': "f' = f(?h := k)" using 3 Node.prems(3) by (simp add: fun_upd_def)
    have same: "f' y = f y" if "y \<in> insert x (set_tree l)" for y
      using that h Node.prems(1,2) f' by force
    have "bst_wrt (\<lambda>x y. f' x < f' y) l \<longleftrightarrow> bst_wrt (\<lambda>x y. f x < f y) l"
      using same by (intro keys_cong) auto
    moreover have "\<forall>y\<in>set_tree (ins f k z r). f' x < f' y"
      using 3 Node.prems(1) f' same by (auto simp: set_ins)
    ultimately show ?thesis using 3 Node.IH(2) Node.prems same f' by simp
  qed
qed simp

subsection \<open>Insertion in the heap\<close>

text \<open>The heap after the insertion, but for the links.\<close>

definition put_in :: "int \<Rightarrow> nat \<Rightarrow> nat \<Rightarrow> bst \<Rightarrow> bst \<Rightarrow> bool" where
  "put_in k v n m m' \<longleftrightarrow> b_key m' = (b_key m)(n := k) \<and> b_data m' = (b_data m)(n := v) \<and> b_live m' = insert n (b_live m) \<and>
     b_root m' = b_root m"

definition links_kept :: "nat set \<Rightarrow> bst \<Rightarrow> bst \<Rightarrow> bool" where
  "links_kept A m m' \<longleftrightarrow> (\<forall>x. x \<notin> A \<longrightarrow> b_l m' x = b_l m x \<and> b_r m' x = b_r m x \<and> b_p m' x = b_p m x)"

lemma insert_node_ok:
  "bt m par a t \<Longrightarrow> t \<noteq> Leaf \<Longrightarrow> tree_distinct t \<Longrightarrow> z \<noteq> 0 \<Longrightarrow> z \<notin> b_live m \<Longrightarrow>
    \<exists>m'. insert_node z a k v m = Some (holder (b_key m) k z t, m') \<and> bt m' par a (ins (b_key m) k z t) \<and>
      put_in k v (holder (b_key m) k z t) m m' \<and> links_kept (insert z (set_tree t)) m m'"
proof (induction t arbitrary: par a)
  case (Node l x r)
  have x: "a = x" "x \<noteq> 0" "x \<in> b_live m" "b_p m x = par" "bt m x (b_l m x) l" "bt m x (b_r m x) r"
    using Node.prems(1) by auto
  have z: "z \<notin> set_tree (Node l x r)" using Node.prems bt_nodes by blast
  consider (eq) "b_key m x = k" | (left) "b_key m x > k" | (right) "b_key m x < k" by linarith
  then show ?case
  proof cases
    case eq
    let ?m = "m\<lparr>b_data := (b_data m)(x := v)\<rparr>"
    have "bt ?m par a (Node l x r)" using Node.prems(1) by (subst bt_cong) auto
    then show ?thesis using x eq
      by (subst insert_node.simps) (auto simp: node_defs put_in_def links_kept_def)
  next
    case left
    show ?thesis
    proof (cases "l = Leaf")
      case True
      let ?m = "m\<lparr>b_live := insert z (b_live m), b_key := (b_key m)(z := k), b_data := (b_data m)(z := v),
        b_p := (b_p m)(z := x), b_r := (b_r m)(z := 0), b_l := (b_l m)(z := 0, x := z)\<rparr>"
      have "bt ?m x (b_r m x) r" using x(6) z Node.prems(3) by (subst bt_cong) auto
      then show ?thesis using x left True z Node.prems(4)
        by (subst insert_node.simps) (auto simp: node_defs put_in_def links_kept_def)
    next
      case False
      from Node.IH(1) [OF x(5) False] Node.prems obtain m' where m': "insert_node z (b_l m x) k v m =
          Some (holder (b_key m) k z l, m')" "bt m' x (b_l m x) (ins (b_key m) k z l)"
        "put_in k v (holder (b_key m) k z l) m m'" "links_kept (insert z (set_tree l)) m m'" by auto
      have "bt m' x (b_r m x) r \<longleftrightarrow> bt m x (b_r m x) r"
        using m'(3,4) z Node.prems(3) x(6) by (intro bt_cong) (auto simp: put_in_def links_kept_def dest: bt_nodes)
      moreover have "b_l m' x = b_l m x" "b_r m' x = b_r m x" "b_p m' x = b_p m x"
        using m'(4) z Node.prems(3) by (auto simp: links_kept_def)
      moreover have "insert_node z a k v m = insert_node z (b_l m x) k v m"
        using x left False bt_zero [OF x(5)] by (subst insert_node.simps) (auto simp: node_get_def)
      ultimately show ?thesis using m' x left by (auto simp: put_in_def links_kept_def)
    qed
  next
    case right
    show ?thesis
    proof (cases "r = Leaf")
      case True
      let ?m = "m\<lparr>b_live := insert z (b_live m), b_key := (b_key m)(z := k), b_data := (b_data m)(z := v),
        b_p := (b_p m)(z := x), b_l := (b_l m)(z := 0), b_r := (b_r m)(z := 0, x := z)\<rparr>"
      have "bt ?m x (b_l m x) l" using x(5) z Node.prems(3) by (subst bt_cong) auto
      then show ?thesis using x right True z Node.prems(4)
        by (subst insert_node.simps) (auto simp: node_defs put_in_def links_kept_def)
    next
      case False
      from Node.IH(2) [OF x(6) False] Node.prems obtain m' where m': "insert_node z (b_r m x) k v m =
          Some (holder (b_key m) k z r, m')" "bt m' x (b_r m x) (ins (b_key m) k z r)"
        "put_in k v (holder (b_key m) k z r) m m'" "links_kept (insert z (set_tree r)) m m'" by auto
      have "bt m' x (b_l m x) l \<longleftrightarrow> bt m x (b_l m x) l"
        using m'(3,4) z Node.prems(3) x(5) by (intro bt_cong) (auto simp: put_in_def links_kept_def dest: bt_nodes)
      moreover have "b_l m' x = b_l m x" "b_r m' x = b_r m x" "b_p m' x = b_p m x"
        using m'(4) z Node.prems(3) by (auto simp: links_kept_def)
      moreover have "insert_node z a k v m = insert_node z (b_r m x) k v m"
        using x right False bt_zero [OF x(6)] by (subst insert_node.simps) (auto simp: node_get_def)
      ultimately show ?thesis using m' x right by (auto simp: put_in_def links_kept_def)
    qed
  qed
qed simp

text \<open>
  The other version, from any node: on an empty tree it creates the node, whose parent the caller then sets; otherwise it
  returns the root.
\<close>

lemma insert_node_2x_ok:
  "bt m par a t \<Longrightarrow> tree_distinct t \<Longrightarrow> z \<noteq> 0 \<Longrightarrow> z \<notin> b_live m \<Longrightarrow>
    \<exists>m'. insert_node_2x z a k v m = Some (if t = Leaf then z else a, m') \<and>
      bt m' (if t = Leaf then 0 else par) (if t = Leaf then z else a) (ins (b_key m) k z t) \<and>
      put_in k v (holder (b_key m) k z t) m m' \<and> links_kept (insert z (set_tree t)) m m'"
proof (induction t arbitrary: par a)
  case Leaf
  then show ?case
    by (subst insert_node_2x.simps) (auto simp: node_defs put_in_def links_kept_def)
next
  case (Node l x r)
  have x: "a = x" "x \<noteq> 0" "x \<in> b_live m" "b_p m x = par" "bt m x (b_l m x) l" "bt m x (b_r m x) r"
    using Node.prems(1) by auto
  have z: "z \<notin> set_tree (Node l x r)" using Node.prems bt_nodes by blast
  consider (eq) "b_key m x = k" | (left) "b_key m x > k" | (right) "b_key m x < k" by linarith
  then show ?case
  proof cases
    case eq
    let ?m = "m\<lparr>b_data := (b_data m)(x := v)\<rparr>"
    have "bt ?m par a (Node l x r)" using Node.prems(1) by (subst bt_cong) auto
    then show ?thesis using x eq
      by (subst insert_node_2x.simps) (auto simp: node_defs put_in_def links_kept_def)
  next
    case left
    from Node.IH(1) [OF x(5)] Node.prems obtain m' where m': "insert_node_2x z (b_l m x) k v m =
        Some (if l = Leaf then z else b_l m x, m')"
      "bt m' (if l = Leaf then 0 else x) (if l = Leaf then z else b_l m x) (ins (b_key m) k z l)"
      "put_in k v (holder (b_key m) k z l) m m'" "links_kept (insert z (set_tree l)) m m'" by auto
    have r: "bt m' x (b_r m x) r"
      using m'(3,4) z Node.prems(2) x(6) by (subst bt_cong) (auto simp: put_in_def links_kept_def dest: bt_nodes)
    have same: "b_l m' x = b_l m x" "b_r m' x = b_r m x" "b_p m' x = b_p m x" "x \<in> b_live m'"
      using m'(3,4) z x Node.prems(2) by (auto simp: links_kept_def put_in_def)
    show ?thesis
    proof (cases "l = Leaf")
      case True
      let ?m = "m'\<lparr>b_l := (b_l m')(x := z), b_p := (b_p m')(z := x)\<rparr>"
      have "bt ?m x (b_r m x) r" using r z Node.prems(2) by (subst bt_cong) auto
      then show ?thesis using m' True x left z same
        by (subst insert_node_2x.simps) (auto simp: node_defs put_in_def links_kept_def)
    next
      case False
      then show ?thesis using m' x left same r bt_zero [OF x(5)]
        by (subst insert_node_2x.simps) (auto simp: node_defs put_in_def links_kept_def)
    qed
  next
    case right
    from Node.IH(2) [OF x(6)] Node.prems obtain m' where m': "insert_node_2x z (b_r m x) k v m =
        Some (if r = Leaf then z else b_r m x, m')"
      "bt m' (if r = Leaf then 0 else x) (if r = Leaf then z else b_r m x) (ins (b_key m) k z r)"
      "put_in k v (holder (b_key m) k z r) m m'" "links_kept (insert z (set_tree r)) m m'" by auto
    have l: "bt m' x (b_l m x) l"
      using m'(3,4) z Node.prems(2) x(5) by (subst bt_cong) (auto simp: put_in_def links_kept_def dest: bt_nodes)
    have same: "b_l m' x = b_l m x" "b_r m' x = b_r m x" "b_p m' x = b_p m x" "x \<in> b_live m'"
      using m'(3,4) z x Node.prems(2) by (auto simp: links_kept_def put_in_def)
    show ?thesis
    proof (cases "r = Leaf")
      case True
      let ?m = "m'\<lparr>b_r := (b_r m')(x := z), b_p := (b_p m')(z := x)\<rparr>"
      have "bt ?m x (b_l m x) l" using l z Node.prems(2) by (subst bt_cong) auto
      then show ?thesis using m' True x right z same
        by (subst insert_node_2x.simps) (auto simp: node_defs put_in_def links_kept_def)
    next
      case False
      then show ?thesis using m' x right same l bt_zero [OF x(6)]
        by (subst insert_node_2x.simps) (auto simp: node_defs put_in_def links_kept_def)
    qed
  qed
qed

subsection \<open>The trees as maps\<close>

text \<open>The whole tree: the root is a top, and \<open>f\<close> is the map of its keys.\<close>

definition bst_rel :: "bst \<Rightarrow> (int \<rightharpoonup> nat) \<Rightarrow> nat set \<Rightarrow> bool" where
  "bst_rel m f L \<longleftrightarrow> (\<exists>t. bt m 0 (b_root m) t \<and> searched m t \<and> b_live m = set_tree t \<and> set_tree t \<subseteq> L \<and> 0 \<in> L \<and>
     (\<forall>k v. f k = Some v \<longleftrightarrow> (k, v) \<in> pairs m t))"

definition bst_look :: "int \<Rightarrow> bst \<Rightarrow> nat option option" where
  "bst_look k m = do {
     n \<leftarrow> bst_find_node k m;
     if n = 0 then Some None else do { d \<leftarrow> node_get b_data n m; Some (Some d) } }"

definition bst_put :: "nat \<Rightarrow> int \<Rightarrow> nat \<Rightarrow> bst \<Rightarrow> bst option" where
  "bst_put z k v m = do { (n, m) \<leftarrow> bst_tree_insert z k v m; Some m }"

text \<open>In \<open>2x_tree\<close>, \<open>main\<close> keeps the root that the first insertion returns.\<close>

definition put_2x :: "nat \<Rightarrow> int \<Rightarrow> nat \<Rightarrow> bst \<Rightarrow> bst option" where
  "put_2x z k v m = do { (root, m) \<leftarrow> insert_node_2x z (b_root m) k v m; Some (m\<lparr>b_root := root\<rparr>) }"

definition look_2x :: "int \<Rightarrow> bst \<Rightarrow> nat option option" where
  "look_2x k m = do {
     n \<leftarrow> find_node (b_root m) k m;
     if n = 0 then Some None else do { d \<leftarrow> node_get b_data n m; Some (Some d) } }"

lemma same_key: "searched m t \<Longrightarrow> x \<in> set_tree t \<Longrightarrow> y \<in> set_tree t \<Longrightarrow> b_key m x = b_key m y \<Longrightarrow> x = y"
  by (metis holder_found)

text \<open>What inserting does to the pairs.\<close>

lemma pairs_put:
  assumes s: "searched m t" and z: "z \<notin> set_tree t" and put: "put_in k v (holder (b_key m) k z t) m m'"
  shows "pairs m' (ins (b_key m) k z t) = insert (k, v) {(i, u) \<in> pairs m t. i \<noteq> k}"
proof -
  let ?h = "holder (b_key m) k z t"
  have other: "x \<noteq> ?h \<longleftrightarrow> b_key m x \<noteq> k" if "x \<in> set_tree t" for x
    using holder_cases [of "b_key m" k z t] holder_found [OF s that, of k] that z by auto
  have "pairs m' (ins (b_key m) k z t) = insert (k, v) ((\<lambda>x. (b_key m x, b_data m x)) ` {x \<in> set_tree t. x \<noteq> ?h})"
    using put by (auto simp: pairs_def set_ins put_in_def)
  also have "{x \<in> set_tree t. x \<noteq> ?h} = {x \<in> set_tree t. b_key m x \<noteq> k}" using other by auto
  also have "(\<lambda>x. (b_key m x, b_data m x)) ` \<dots> = {(i, u) \<in> pairs m t. i \<noteq> k}" by (auto simp: pairs_def)
  finally show ?thesis .
qed

lemma rel_put:
  assumes s: "searched m t" and f: "\<forall>k v. f k = Some v \<longleftrightarrow> (k, v) \<in> pairs m t" and live: "b_live m = set_tree t"
    and L: "set_tree t \<subseteq> L" "0 \<in> L" "z \<notin> L" and m': "bt m' 0 (b_root m') (ins (b_key m) k z t)"
    and put: "put_in k v (holder (b_key m) k z t) m (m'\<lparr>b_root := b_root m\<rparr>)"
  shows "bst_rel m' (f(k \<mapsto> v)) (insert z L)"
proof -
  let ?h = "holder (b_key m) k z t" and ?t = "ins (b_key m) k z t"
  have zt: "z \<notin> set_tree t" using L by auto
  have "searched m' ?t" using ins_searched [OF s zt] put by (simp add: put_in_def)
  moreover have "b_live m' = set_tree ?t" using put live by (simp add: put_in_def set_ins)
  moreover have "set_tree ?t \<subseteq> insert z L" using L holder_cases [of "b_key m" k z t] by (auto simp: set_ins)
  moreover have "pairs m' ?t = insert (k, v) {(i, u) \<in> pairs m t. i \<noteq> k}"
    using pairs_put [OF s zt put] by (simp add: pairs_def)
  then have "\<forall>i u. (f(k \<mapsto> v)) i = Some u \<longleftrightarrow> (i, u) \<in> pairs m' ?t" using f by auto
  ultimately show ?thesis using m' L(2) unfolding bst_rel_def by blast
qed

lemma bst_put_law:
  assumes "bst_rel m f L" "z \<notin> L"
  shows "\<exists>m'. bst_put z k v m = Some m' \<and> bst_rel m' (f(k \<mapsto> v)) (insert z L)"
proof -
  from assms(1) obtain t where t: "bt m 0 (b_root m) t" "searched m t" "b_live m = set_tree t" "set_tree t \<subseteq> L" "0 \<in> L"
    "\<forall>k v. f k = Some v \<longleftrightarrow> (k, v) \<in> pairs m t" by (auto simp: bst_rel_def)
  have z: "z \<noteq> 0" "z \<notin> b_live m" using t(3-5) assms(2) by metis (use t(3-5) assms(2) in auto)
  show ?thesis
  proof (cases "t = Leaf")
    case True
    let ?m = "m\<lparr>b_live := insert z (b_live m), b_key := (b_key m)(z := k), b_data := (b_data m)(z := v),
      b_p := (b_p m)(z := 0), b_l := (b_l m)(z := 0), b_r := (b_r m)(z := 0), b_root := z\<rparr>"
    have "bst_rel ?m (f(k \<mapsto> v)) (insert z L)"
      by (rule rel_put [OF t(2,6,3-5) assms(2)]) (use True z(1) in \<open>auto simp: put_in_def\<close>)
    then show ?thesis using True t(1) z(1) by (simp add: bst_put_def bst_tree_insert_def node_defs)
  next
    case False
    from insert_node_ok [OF t(1) False searched_distinct [OF t(2)] z] obtain m' where m':
      "insert_node z (b_root m) k v m = Some (holder (b_key m) k z t, m')" "bt m' 0 (b_root m) (ins (b_key m) k z t)"
      "put_in k v (holder (b_key m) k z t) m m'" by blast
    have "bst_rel m' (f(k \<mapsto> v)) (insert z L)"
      by (rule rel_put [OF t(2,6,3-5) assms(2)]) (use m'(2,3) in \<open>auto simp: put_in_def\<close>)
    then show ?thesis using m'(1) bt_zero [OF t(1)] False by (simp add: bst_put_def bst_tree_insert_def)
  qed
qed

lemma put_2x_law:
  assumes "bst_rel m f L" "z \<notin> L"
  shows "\<exists>m'. put_2x z k v m = Some m' \<and> bst_rel m' (f(k \<mapsto> v)) (insert z L)"
proof -
  from assms(1) obtain t where t: "bt m 0 (b_root m) t" "searched m t" "b_live m = set_tree t" "set_tree t \<subseteq> L" "0 \<in> L"
    "\<forall>k v. f k = Some v \<longleftrightarrow> (k, v) \<in> pairs m t" by (auto simp: bst_rel_def)
  have z: "z \<noteq> 0" "z \<notin> b_live m" using t(3-5) assms(2) by metis (use t(3-5) assms(2) in auto)
  from insert_node_2x_ok [OF t(1) searched_distinct [OF t(2)] z] obtain m' where m':
    "insert_node_2x z (b_root m) k v m = Some (if t = Leaf then z else b_root m, m')"
    "bt m' 0 (if t = Leaf then z else b_root m) (ins (b_key m) k z t)" "put_in k v (holder (b_key m) k z t) m m'"
    by (auto split: if_splits)
  let ?m = "m'\<lparr>b_root := if t = Leaf then z else b_root m\<rparr>"
  have "bt ?m 0 (b_root ?m) (ins (b_key m) k z t)" using m'(2) by (subst bt_cong) auto
  then have "bst_rel ?m (f(k \<mapsto> v)) (insert z L)"
    by (rule rel_put [OF t(2,6,3-5) assms(2)]) (use m'(3) in \<open>auto simp: put_in_def\<close>)
  then show ?thesis using m'(1) by (simp add: put_2x_def)
qed

lemma look_law:
  assumes "bst_rel m f L"
  shows "bst_look k m = Some (f k) \<and> look_2x k m = Some (f k)"
proof -
  from assms obtain t where t: "bt m 0 (b_root m) t" "searched m t"
    "\<forall>k v. f k = Some v \<longleftrightarrow> (k, v) \<in> pairs m t" by (auto simp: bst_rel_def)
  from find_node_ok [OF bt_shape [OF t(1)] t(2), of k] obtain n where n: "find_node (b_root m) k m = Some n"
    "if n = 0 then \<forall>x\<in>set_tree t. b_key m x \<noteq> k else n \<in> set_tree t \<and> b_key m n = k" by blast
  have "bst_find_node k m = Some n" using n(1) by (auto simp: bst_find_node_def) (subst (asm) find_node.simps, simp)
  moreover have "f k = (if n = 0 then None else Some (b_data m n))"
  proof (cases "n = 0")
    case True
    then have "(k, v) \<notin> pairs m t" for v using n(2) by (auto simp: pairs_def)
    then show ?thesis using t(3) True by (metis option.exhaust)
  next
    case False
    then have "(k, b_data m n) \<in> pairs m t" using n(2) by (auto simp: pairs_def)
    then show ?thesis using t(3) False by simp
  qed
  moreover have "n \<noteq> 0 \<Longrightarrow> n \<in> b_live m" using n(2) bt_nodes [OF t(1)] by auto
  ultimately show ?thesis using n(1) by (simp add: bst_look_def look_2x_def node_get_def)
qed

interpretation bm: update_map bst_rel bst_put bst_look
  by unfold_locales (use bst_put_law look_law in blast)+

interpretation xm: update_map bst_rel put_2x look_2x
  by unfold_locales (use put_2x_law look_law in blast)+

end
