(* ===== verification/Bst_Delete.thy ===== *)
theory Bst_Delete
  imports Bst_Map
begin

text \<open>What \<open>delete_node\<close> of \<open>bst_tree\<close> does to the tree of addresses.\<close>

text \<open>
  Where the key is found the code goes down the right spine, frees it, and puts the left subtree of its last node
  in place of the node.
\<close>

fun last_left :: "'a tree \<Rightarrow> 'a tree" where
  "last_left Leaf = Leaf"
| "last_left (Node l x r) = (if r = Leaf then l else last_left r)"

fun spine :: "'a tree \<Rightarrow> 'a set" where
  "spine Leaf = {}"
| "spine (Node l x r) = insert x (spine r)"

fun del :: "(nat \<Rightarrow> int) \<Rightarrow> int \<Rightarrow> nat tree \<Rightarrow> nat tree" where
  "del f k Leaf = Leaf"
| "del f k (Node l x r) =
     (if f x = k then last_left (Node l x r) else if f x > k then Node (del f k l) x r else Node l x (del f k r))"

fun freed :: "(nat \<Rightarrow> int) \<Rightarrow> int \<Rightarrow> nat tree \<Rightarrow> nat set" where
  "freed f k Leaf = {}"
| "freed f k (Node l x r) =
     (if f x = k then spine (Node l x r) else if f x > k then freed f k l else freed f k r)"

lemma spine_subset: "spine t \<subseteq> set_tree t"
  by (induction t) auto

lemma last_left_subset: "set_tree (last_left t) \<subseteq> set_tree t"
  by (induction t) auto

lemma last_left_spine: "tree_distinct t \<Longrightarrow> set_tree (last_left t) \<inter> spine t = {}"
proof (induction t)
  case (Node l x r)
  then show ?case using last_left_subset [of r] by (cases r) auto
qed simp

lemma del_subset: "set_tree (del f k t) \<subseteq> set_tree t"
proof (induction t)
  case (Node l x r)
  then show ?case using last_left_subset [of "Node l x r"] by (auto simp del: last_left.simps)
qed simp

lemma freed_subset: "freed f k t \<subseteq> set_tree t"
proof (induction t)
  case (Node l x r)
  then show ?case using spine_subset [of "Node l x r"] by auto
qed simp

lemma del_absent: "\<forall>x\<in>set_tree t. f x \<noteq> k \<Longrightarrow> del f k t = t \<and> freed f k t = {}"
  by (induction t) auto

lemma del_freed: "tree_distinct t \<Longrightarrow> set_tree (del f k t) \<inter> freed f k t = {}"
proof (induction t)
  case (Node l x r)
  then show ?case
    using last_left_spine [OF Node.prems] del_subset [of f k l] del_subset [of f k r] freed_subset [of f k l]
      freed_subset [of f k r]
    by (cases "f x = k") (simp, auto)
qed simp

lemma last_left_searched: "bst_wrt P t \<Longrightarrow> bst_wrt P (last_left t)"
  by (induction t) auto

lemma del_searched: "bst_wrt (\<lambda>x y. f x < f y) t \<Longrightarrow> bst_wrt (\<lambda>x y. f x < f y) (del f k t)"
proof (induction t)
  case (Node l x r)
  then show ?case
    using del_subset [of f k l] del_subset [of f k r] last_left_searched [of _ "Node l x r"] by (auto simp del: last_left.simps)
qed simp

lemma delete_node_ok:
  "shape m a t \<Longrightarrow> searched m t \<Longrightarrow> \<exists>a' m'. delete_node a k m = Some (a', m') \<and>
    shape m' a' (del (b_key m) k t) \<and> b_live m' = b_live m - freed (b_key m) k t \<and> b_key m' = b_key m \<and> b_data m' = b_data m \<and>
    (\<forall>x. x \<notin> set_tree t \<longrightarrow> b_l m' x = b_l m x \<and> b_r m' x = b_r m x)"
proof (induction t arbitrary: a k)
  case Leaf
  then show ?case by (subst delete_node.simps) simp
next
  case (Node l x r)
  have x: "a = x" "x \<noteq> 0" "x \<in> b_live m" "shape m (b_l m x) l" "shape m (b_r m x) r" using Node.prems by auto
  have d: "tree_distinct (Node l x r)" using Node.prems(2) by (rule searched_distinct)
  have zero: "b_l m x = 0 \<longleftrightarrow> l = Leaf" "b_r m x = 0 \<longleftrightarrow> r = Leaf" using x shape_zero by blast+
  note IHl = Node.IH(1) [OF x(4)] and IHr = Node.IH(2) [OF x(5)]
  consider (leaf) "b_key m x = k" "l = Leaf" "r = Leaf" | (lonly) "b_key m x = k" "l \<noteq> Leaf" "r = Leaf"
    | (right) "b_key m x = k" "r \<noteq> Leaf" | (below_l) "b_key m x > k" | (below_r) "b_key m x < k" by linarith
  then show ?case
  proof cases
    case leaf
    then show ?thesis using x zero
      by (subst delete_node.simps) (simp add: node_get_def release_node_def)
  next
    case lonly
    have "\<forall>y\<in>set_tree l. b_key m y \<noteq> k" using Node.prems(2) lonly(1) by auto
    note same = del_absent [OF this]
    from IHl [of k] Node.prems(2) same obtain a' m' where m': "delete_node (b_l m x) k m = Some (a', m')" "shape m' a' l"
      "b_live m' = b_live m" "b_key m' = b_key m" "b_data m' = b_data m"
      "\<forall>y. y \<notin> set_tree l \<longrightarrow> b_l m' y = b_l m y \<and> b_r m' y = b_r m y" by auto
    let ?m = "m'\<lparr>b_live := b_live m - {x}\<rparr>"
    have "shape ?m a' l" using m'(2,3) d by (subst shape_cong) auto
    then show ?thesis using x zero lonly m'
      by (subst delete_node.simps) (simp add: node_get_def release_node_def)
  next
    case right
    then obtain rl y rr where r: "r = Node rl y rr" by (cases r) auto
    then have y: "b_r m x = y" "y \<in> b_live m" using x(5) by auto
    from IHr [of "b_key m y"] Node.prems(2) obtain a' m' where m': "delete_node (b_r m x) (b_key m y) m = Some (a', m')"
      "shape m' a' (last_left r)" "b_live m' = b_live m - spine r" "b_key m' = b_key m" "b_data m' = b_data m"
      "\<forall>z. z \<notin> set_tree r \<longrightarrow> b_l m' z = b_l m z \<and> b_r m' z = b_r m z" unfolding r by auto
    let ?m = "m'\<lparr>b_live := b_live m' - {x}\<rparr>"
    have "x \<notin> set_tree (last_left r)" using d last_left_subset [of r] by auto
    then have "shape ?m a' (last_left r)" using m'(2) by (subst shape_cong) auto
    moreover have "x \<in> b_live m'" using m'(3) x(3) d spine_subset [of r] by auto
    moreover have "b_live m - spine r - {x} = b_live m - spine (Node l x r)" by auto
    ultimately show ?thesis using x zero right m' y
      by (subst delete_node.simps) (simp add: node_get_def release_node_def)
  next
    case below_l
    from IHl [of k] Node.prems(2) obtain a' m' where m': "delete_node (b_l m x) k m = Some (a', m')"
      "shape m' a' (del (b_key m) k l)" "b_live m' = b_live m - freed (b_key m) k l" "b_key m' = b_key m" "b_data m' = b_data m"
      "\<forall>z. z \<notin> set_tree l \<longrightarrow> b_l m' z = b_l m z \<and> b_r m' z = b_r m z" by auto
    let ?m = "m'\<lparr>b_l := (b_l m')(x := a')\<rparr>"
    have live: "x \<in> b_live m'" using m'(3) x(3) d freed_subset [of "b_key m" k l] by auto
    have "shape ?m a' (del (b_key m) k l) \<longleftrightarrow> shape m' a' (del (b_key m) k l)"
      using d del_subset [of "b_key m" k l] by (intro shape_cong) auto
    moreover have "shape ?m (b_r m x) r \<longleftrightarrow> shape m (b_r m x) r"
      using d m'(3,6) freed_subset [of "b_key m" k l] by (intro shape_cong) auto
    ultimately show ?thesis using x below_l m' live d
      by (subst delete_node.simps) (auto simp: node_get_def set_l_def node_set_def)
  next
    case below_r
    from IHr [of k] Node.prems(2) obtain a' m' where m': "delete_node (b_r m x) k m = Some (a', m')"
      "shape m' a' (del (b_key m) k r)" "b_live m' = b_live m - freed (b_key m) k r" "b_key m' = b_key m" "b_data m' = b_data m"
      "\<forall>z. z \<notin> set_tree r \<longrightarrow> b_l m' z = b_l m z \<and> b_r m' z = b_r m z" by auto
    let ?m = "m'\<lparr>b_r := (b_r m')(x := a')\<rparr>"
    have live: "x \<in> b_live m'" using m'(3) x(3) d freed_subset [of "b_key m" k r] by auto
    have "shape ?m a' (del (b_key m) k r) \<longleftrightarrow> shape m' a' (del (b_key m) k r)"
      using d del_subset [of "b_key m" k r] by (intro shape_cong) auto
    moreover have "shape ?m (b_l m x) l \<longleftrightarrow> shape m (b_l m x) l"
      using d m'(3,6) freed_subset [of "b_key m" k r] by (intro shape_cong) auto
    ultimately show ?thesis using x below_r m' live d
      by (subst delete_node.simps) (auto simp: node_get_def set_r_def node_set_def)
  qed
qed

subsection \<open>The properties\<close>

lemma pairs_same: "b_key m' = b_key m \<Longrightarrow> b_data m' = b_data m \<Longrightarrow> pairs m' t = (\<lambda>x. (b_key m x, b_data m x)) ` set_tree t"
  by (simp add: pairs_def)

text \<open>A node without a right child is taken out as it should be.\<close>

lemma del_set:
  assumes "bst_wrt (\<lambda>x y. f x < f y) t" "shape m a t" "\<forall>x\<in>set_tree t. f x = k \<longrightarrow> b_r m x = 0"
  shows "set_tree (del f k t) = {x \<in> set_tree t. f x \<noteq> k} \<and> freed f k t = {x \<in> set_tree t. f x = k}"
  using assms
proof (induction t arbitrary: a)
  case (Node l x r)
  consider "f x = k" | "f x > k" | "f x < k" by linarith
  then show ?case
  proof cases
    case 1
    then have "r = Leaf" using Node.prems shape_zero [of m "b_r m x" r] by auto
    then show ?thesis using 1 Node.prems(1) by auto
  next
    case 2
    then have "\<forall>y\<in>set_tree r. f y \<noteq> k" using Node.prems(1) by force
    moreover have "set_tree (del f k l) = {y \<in> set_tree l. f y \<noteq> k} \<and> freed f k l = {y \<in> set_tree l. f y = k}"
      using Node.IH(1) [of "b_l m x"] Node.prems by simp
    ultimately show ?thesis using 2 by auto
  next
    case 3
    then have "\<forall>y\<in>set_tree l. f y \<noteq> k" using Node.prems(1) by force
    moreover have "set_tree (del f k r) = {y \<in> set_tree r. f y \<noteq> k} \<and> freed f k r = {y \<in> set_tree r. f y = k}"
      using Node.IH(2) [of "b_r m x"] Node.prems by simp
    ultimately show ?thesis using 3 by auto
  qed
qed simp

text \<open>Where there is a right child, its key goes too.\<close>

lemma root_not_last_left: "tree_distinct (Node l x r) \<Longrightarrow> y \<in> spine (Node l x r) \<Longrightarrow> y \<notin> set_tree (last_left (Node l x r))"
  using last_left_spine by blast

lemma del_right_child:
  assumes "bst_wrt (\<lambda>x y. f x < f y) t" "shape m a t" "x \<in> set_tree t" "f x = k" "b_r m x \<noteq> 0"
  shows "b_r m x \<in> set_tree t \<and> b_r m x \<notin> set_tree (del f k t) \<and> x \<notin> set_tree (del f k t) \<and>
    {x, b_r m x} \<subseteq> freed f k t"
  using assms
proof (induction t arbitrary: a)
  case (Node l y r)
  have d: "tree_distinct (Node l y r)"
    using Node.prems(1) searched_distinct [of "\<lparr>b_key = f, b_data = id, b_p = id, b_l = id, b_r = id, b_live = {}, b_root = 0\<rparr>"
        "Node l y r"] by simp
  consider (here) "x = y" | (left) "x \<in> set_tree l" "f y > k" | (right) "x \<in> set_tree r" "f y < k"
    using Node.prems by auto
  then show ?case
  proof cases
    case here
    then obtain rl z rr where r: "r = Node rl z rr" "b_r m x = z" using Node.prems by (cases r) auto
    then have "z \<in> spine (Node l y r)" "y \<in> spine (Node l y r)" by auto
    then show ?thesis using root_not_last_left [OF d] here Node.prems(4) r by (simp del: last_left.simps)
  next
    case left
    then show ?thesis using Node.IH(1) [of "b_l m y"] Node.prems d by auto
  next
    case right
    then show ?thesis using Node.IH(2) [of "b_r m y"] Node.prems d by auto
  qed
qed simp

text \<open>
  C37: the search trees are maps: whatever keys are inserted, at new nodes, and looked up, from an empty tree, both
  versions of the insertion succeed and each lookup gives the value inserted last for its key, or none.
\<close>

theorem bst_history:
  assumes "b_root m = 0" "b_live m = {}" "fresh_nodes ops {0}"
  shows "(\<exists>m'. run_upds bst_put bst_look ops m = Some (fst (upd_answers ops Map.empty), m')) \<and>
    (\<exists>m'. run_upds put_2x look_2x ops m = Some (fst (upd_answers ops Map.empty), m'))"
proof -
  have "bst_rel m Map.empty {0}"
    using assms(1,2) unfolding bst_rel_def by (intro exI [of _ Leaf]) (simp add: pairs_def)
  then show ?thesis using bm.history xm.history assms(3) by blast
qed

definition no_tree :: bst where
  "no_tree = \<lparr>b_key = (\<lambda>_. 0), b_data = (\<lambda>_. 0), b_p = id, b_l = id, b_r = id, b_live = {}, b_root = 0\<rparr>"

theorem bst_history_witness:
  "\<exists>m'. run_upds bst_put bst_look [Ins 8 50 1, Ins 16 30 2, Ins 24 80 3, Ins 32 30 4, Look 30, Look 31] no_tree =
     Some ([Some 4, None], m')"
  using bst_history [of no_tree "[Ins 8 50 1, Ins 16 30 2, Ins 24 80 3, Ins 32 30 4, Look 30, Look 31]"]
  by (simp add: no_tree_def)

text \<open>
  deleting a key whose node has no right child, or that is not there, removes exactly that key: the tree left is a
  search tree with the other pairs, and exactly the nodes with the key are freed.
\<close>

theorem delete_node_without_right:
  assumes "shape m a t" "searched m t" "\<forall>x\<in>set_tree t. b_key m x = k \<longrightarrow> b_r m x = 0"
  shows "\<exists>a' m' t'. delete_node a k m = Some (a', m') \<and> shape m' a' t' \<and> searched m' t' \<and>
    pairs m' t' = {(i, v) \<in> pairs m t. i \<noteq> k} \<and> b_live m' = b_live m - {x \<in> set_tree t. b_key m x = k}"
proof -
  obtain a' m' where m': "delete_node a k m = Some (a', m')" "shape m' a' (del (b_key m) k t)"
    "b_live m' = b_live m - freed (b_key m) k t" "b_key m' = b_key m" "b_data m' = b_data m"
    using delete_node_ok [OF assms(1,2)] by blast
  note s = del_set [OF assms(2,1,3)]
  have "searched m' (del (b_key m) k t)" using del_searched [OF assms(2)] m'(4) by simp
  moreover have "pairs m' (del (b_key m) k t) = {(i, v) \<in> pairs m t. i \<noteq> k}"
    using s by (auto simp: pairs_def m'(4,5))
  ultimately show ?thesis using m'(1-3) s by auto
qed

definition three_nodes :: bst where
  "three_nodes = \<lparr>b_key = (\<lambda>x. if x = 1 then 50 else if x = 2 then 30 else 80), b_data = id, b_p = (\<lambda>x. if x = 1 then 0 else 1),
     b_l = (\<lambda>x. if x = 1 then 2 else 0), b_r = (\<lambda>x. if x = 1 then 3 else 0), b_live = {1, 2, 3}, b_root = 1\<rparr>"

abbreviation three_tree :: "nat tree" where
  "three_tree \<equiv> Node (Node Leaf 2 Leaf) 1 (Node Leaf 3 Leaf)"

lemma three_ok: "shape three_nodes 1 three_tree" "searched three_nodes three_tree"
  by (simp_all add: three_nodes_def)

theorem delete_node_without_right_witness:
  "\<exists>a' m' t'. delete_node 1 80 three_nodes = Some (a', m') \<and> shape m' a' t' \<and> pairs m' t' = {(50, 1), (30, 2)}"
proof -
  have "\<forall>x\<in>set_tree three_tree. b_key three_nodes x = 80 \<longrightarrow> b_r three_nodes x = 0" by (simp add: three_nodes_def)
  from delete_node_without_right [OF three_ok this] obtain a' m' t' where d: "delete_node 1 80 three_nodes = Some (a', m')"
    "shape m' a' t'" and p: "pairs m' t' = {(i, v) \<in> pairs three_nodes three_tree. i \<noteq> 80}" by blast
  have "{(i, v) \<in> pairs three_nodes three_tree. i \<noteq> 80} = {(50, 1), (30, 2)}" by (auto simp: pairs_def three_nodes_def)
  then show ?thesis using d p by auto
qed

text \<open>
  deleting a key whose node has a right child loses the right child's key as well: it was found before and is not
  found afterwards, and its node is freed with the other.
\<close>

theorem delete_node_loses_right:
  assumes "shape m a t" "searched m t" "x \<in> set_tree t" "b_r m x \<noteq> 0"
  shows "\<exists>a' m'. delete_node a (b_key m x) m = Some (a', m') \<and> find_node a (b_key m (b_r m x)) m = Some (b_r m x) \<and>
    find_node a' (b_key m (b_r m x)) m' = Some 0 \<and> b_live m' \<inter> {x, b_r m x} = {}"
proof -
  let ?y = "b_r m x" and ?t = "del (b_key m) (b_key m x) t"
  obtain a' m' where m': "delete_node a (b_key m x) m = Some (a', m')" "shape m' a' ?t"
    "b_live m' = b_live m - freed (b_key m) (b_key m x) t" "b_key m' = b_key m" "b_data m' = b_data m"
    using delete_node_ok [OF assms(1,2)] by blast
  have y: "?y \<in> set_tree t" "?y \<notin> set_tree ?t" "{x, ?y} \<subseteq> freed (b_key m) (b_key m x) t"
    using del_right_child [OF assms(2,1,3) refl assms(4)] by auto
  have only: "z = ?y" if "z \<in> set_tree t" "b_key m z = b_key m ?y" for z
    using same_key [OF assms(2) that(1) y(1)] that(2) by simp
  have "searched m' ?t" using del_searched [OF assms(2)] m'(4) by simp
  from find_node_ok [OF m'(2) this] obtain n where n: "find_node a' (b_key m ?y) m' = Some n"
    "if n = 0 then \<forall>z\<in>set_tree ?t. b_key m' z \<noteq> b_key m ?y else n \<in> set_tree ?t \<and> b_key m' n = b_key m ?y" by blast
  have "n = 0"
  proof (rule ccontr)
    assume "n \<noteq> 0"
    then have "n \<in> set_tree ?t" "b_key m n = b_key m ?y" using n(2) m'(4) by auto
    then show False using only del_subset [of "b_key m" "b_key m x" t] y(2) by auto
  qed
  moreover obtain i where "find_node a (b_key m ?y) m = Some i"
    "if i = 0 then \<forall>z\<in>set_tree t. b_key m z \<noteq> b_key m ?y else i \<in> set_tree t \<and> b_key m i = b_key m ?y"
    using find_node_ok [OF assms(1,2)] by blast
  then have "find_node a (b_key m ?y) m = Some ?y" using only y(1) by (auto split: if_splits)
  ultimately show ?thesis using m'(1,3) n(1) y(3) by auto
qed

theorem delete_node_loses_right_witness:
  "\<exists>a' m'. delete_node 1 50 three_nodes = Some (a', m') \<and> find_node 1 80 three_nodes = Some 3 \<and> find_node a' 80 m' = Some 0"
proof -
  have "(1::nat) \<in> set_tree three_tree" "b_r three_nodes 1 \<noteq> 0" by (simp_all add: three_nodes_def)
  from delete_node_loses_right [OF three_ok this] show ?thesis by (simp add: three_nodes_def) blast
qed

text \<open>
  releasing a tree frees every node once and only those, and leaves an empty tree; the traversals print the data in
  preorder, inorder (which is ascending key order) and postorder.
\<close>

theorem bst_release_and_walks:
  assumes "shape m (b_root m) t" "searched m t"
  shows "bst_release_tree m = Some (m\<lparr>b_live := b_live m - set_tree t, b_root := 0\<rparr>) \<and>
    preface_traversal (b_root m) m = Some (map (b_data m) (preorder t)) \<and>
    inorder_traversal (b_root m) m = Some (map (b_data m) (inorder t)) \<and> sorted (map (b_key m) (inorder t)) \<and>
    postorder_traversal (b_root m) m = Some (map (b_data m) (postorder t))"
proof -
  have "sorted (map (b_key m) (inorder t))"
    using assms(2) by (induction t) (fastforce simp: sorted_append)+
  moreover have "bst_release_tree m = Some (m\<lparr>b_live := b_live m - set_tree t, b_root := 0\<rparr>)"
    using release_tree_ok [OF assms(1) searched_distinct [OF assms(2)]] shape_zero [OF assms(1)]
    by (cases t) (auto simp: bst_release_tree_def)
  ultimately show ?thesis
    using preface_traversal_ok inorder_traversal_ok postorder_traversal_ok assms(1) by blast
qed

theorem bst_release_and_walks_witness:
  "bst_release_tree three_nodes = Some (three_nodes\<lparr>b_live := {}, b_root := 0\<rparr>) \<and>
    inorder_traversal 1 three_nodes = Some [2, 1, 3]"
proof -
  have "shape three_nodes (b_root three_nodes) three_tree" using three_ok(1) by (simp add: three_nodes_def)
  from bst_release_and_walks [OF this three_ok(2)] show ?thesis by (simp add: three_nodes_def)
qed

end
