(* ===== verification/Level_Order.thy ===== *)
theory Level_Order
  imports Bst
begin

text \<open>
  The level-order traversals of \<open>tree/bst_tree/main.cpp\<close>, with the queue of \<open>malloc\<close>ed cells they build.  A queue cell is
  its address; an access to a cell that is not allocated, or a \<open>malloc\<close> without memory, has no result.  Where \<open>malloc\<close> puts a
  cell, given the cells in use, is the parameter \<open>new\<close>.
\<close>

record qheap =
  qn_data :: "nat \<Rightarrow> nat"
  qn_next :: "nat \<Rightarrow> nat"
  qn_live :: "nat set"

definition cell_get :: "(qheap \<Rightarrow> nat \<Rightarrow> nat) \<Rightarrow> nat \<Rightarrow> qheap \<Rightarrow> nat option" where
  "cell_get f c q = (if c \<in> qn_live q then Some (f q c) else None)"

definition cell_data :: "nat \<Rightarrow> nat \<Rightarrow> qheap \<Rightarrow> qheap option" where
  "cell_data c v q = (if c \<in> qn_live q then Some (q\<lparr>qn_data := (qn_data q)(c := v)\<rparr>) else None)"

definition cell_next :: "nat \<Rightarrow> nat \<Rightarrow> qheap \<Rightarrow> qheap option" where
  "cell_next c v q = (if c \<in> qn_live q then Some (q\<lparr>qn_next := (qn_next q)(c := v)\<rparr>) else None)"

definition cell_malloc :: "(nat set \<Rightarrow> nat) \<Rightarrow> qheap \<Rightarrow> nat \<times> qheap" where
  "cell_malloc new q = (let c = new (qn_live q) in if c = 0 then (0, q) else (c, q\<lparr>qn_live := insert c (qn_live q)\<rparr>))"

definition cell_free :: "nat \<Rightarrow> qheap \<Rightarrow> qheap option" where
  "cell_free c q = (if c \<in> qn_live q then Some (q\<lparr>qn_live := qn_live q - {c}\<rparr>) else None)"

subsection \<open>\<open>level_order_traversal\<close>\<close>

text \<open>Filling the empty cell at the rear and adding a new empty one.\<close>

definition fill_rear :: "(nat set \<Rightarrow> nat) \<Rightarrow> nat \<Rightarrow> nat \<Rightarrow> qheap \<Rightarrow> (nat \<times> qheap) option" where
  "fill_rear new x rear q = do {
     q \<leftarrow> cell_data rear x q;
     (c, q) \<leftarrow> Some (cell_malloc new q);
     q \<leftarrow> cell_next rear c q;
     rear \<leftarrow> cell_get qn_next rear q;
     q \<leftarrow> cell_next rear 0 q;
     q \<leftarrow> cell_data rear 0 q;
     Some (rear, q) }"

partial_function (option) level_loop ::
  "(nat set \<Rightarrow> nat) \<Rightarrow> bst \<Rightarrow> nat \<Rightarrow> nat \<Rightarrow> qheap \<Rightarrow> nat list \<Rightarrow> (nat list \<times> qheap) option" where
  "level_loop new m front rear q out =
     (if front = 0 then Some (out, q)
      else do {
        temp \<leftarrow> Some front;
        tn \<leftarrow> cell_get qn_data front q;
        front \<leftarrow> cell_get qn_next front q;
        (out, rear, q) \<leftarrow>
          (if tn \<noteq> 0 then do {
             d \<leftarrow> node_get b_data tn m;
             l \<leftarrow> node_get b_l tn m;
             (rear, q) \<leftarrow> (if l \<noteq> 0 then fill_rear new l rear q else Some (rear, q));
             r \<leftarrow> node_get b_r tn m;
             (rear, q) \<leftarrow> (if r \<noteq> 0 then fill_rear new r rear q else Some (rear, q));
             Some (out @ [d], rear, q) }
           else Some (out, rear, q));
        q \<leftarrow> cell_free temp q;
        level_loop new m front rear q out })"

definition level_order_traversal :: "(nat set \<Rightarrow> nat) \<Rightarrow> nat \<Rightarrow> bst \<Rightarrow> qheap \<Rightarrow> (nat list \<times> qheap) option" where
  "level_order_traversal new root m q = do {
     (front, q) \<leftarrow> Some (cell_malloc new q);
     (rear, q) \<leftarrow> Some (cell_malloc new q);
     q \<leftarrow> cell_data front root q;
     q \<leftarrow> cell_next front rear q;
     q \<leftarrow> cell_data rear 0 q;
     q \<leftarrow> cell_next rear 0 q;
     level_loop new m front rear q [] }"

subsection \<open>\<open>level_order_traversal1\<close>\<close>

definition add_rear :: "(nat set \<Rightarrow> nat) \<Rightarrow> nat \<Rightarrow> nat \<Rightarrow> qheap \<Rightarrow> (nat \<times> qheap) option" where
  "add_rear new x rear q = do {
     (c, q) \<leftarrow> Some (cell_malloc new q);
     q \<leftarrow> cell_next rear c q;
     rear \<leftarrow> cell_get qn_next rear q;
     q \<leftarrow> cell_data rear x q;
     q \<leftarrow> cell_next rear 0 q;
     Some (rear, q) }"

partial_function (option) level_loop1 ::
  "(nat set \<Rightarrow> nat) \<Rightarrow> bst \<Rightarrow> nat \<Rightarrow> nat \<Rightarrow> qheap \<Rightarrow> nat list \<Rightarrow> (nat list \<times> qheap) option" where
  "level_loop1 new m front rear q out =
     (if front = 0 then Some (out, q)
      else do {
        temp \<leftarrow> Some front;
        tn \<leftarrow> cell_get qn_data front q;
        front \<leftarrow> cell_get qn_next front q;
        (out, rear, q) \<leftarrow>
          (if tn \<noteq> 0 then do {
             d \<leftarrow> node_get b_data tn m;
             l \<leftarrow> node_get b_l tn m;
             (rear, q) \<leftarrow> (if l \<noteq> 0 then add_rear new l rear q else Some (rear, q));
             r \<leftarrow> node_get b_r tn m;
             (rear, q) \<leftarrow> (if r \<noteq> 0 then add_rear new r rear q else Some (rear, q));
             Some (out @ [d], rear, q) }
           else Some (out, rear, q));
        q \<leftarrow> cell_free temp q;
        level_loop1 new m front rear q out })"

definition level_order_traversal1 :: "(nat set \<Rightarrow> nat) \<Rightarrow> nat \<Rightarrow> bst \<Rightarrow> qheap \<Rightarrow> (nat list \<times> qheap) option" where
  "level_order_traversal1 new root m q =
     (if root = 0 then Some ([], q)
      else do {
        (front, q) \<leftarrow> Some (cell_malloc new q);
        q \<leftarrow> cell_data front root q;
        q \<leftarrow> cell_next front 0 q;
        level_loop1 new m front front q [] })"

lemmas cell_defs = cell_get_def cell_data_def cell_next_def cell_malloc_def cell_free_def

text \<open>\<open>malloc\<close> gives cells that are not in use; it does not fail here.\<close>

definition cells_fresh :: "(nat set \<Rightarrow> nat) \<Rightarrow> bool" where
  "cells_fresh new \<longleftrightarrow> (\<forall>L. finite L \<longrightarrow> new L \<noteq> 0 \<and> new L \<notin> L)"

lemma cells_freshD: "cells_fresh new \<Longrightarrow> finite L \<Longrightarrow> new L \<noteq> 0 \<and> new L \<notin> L"
  by (simp add: cells_fresh_def)

subsection \<open>The order\<close>

fun children :: "'a tree \<Rightarrow> 'a tree list" where
  "children Leaf = []"
| "children (Node l x r) = filter (\<lambda>t. t \<noteq> Leaf) [l, r]"

text \<open>The nodes at each depth, from left to right, and one depth after the other.\<close>

fun at_depth :: "nat \<Rightarrow> 'a tree \<Rightarrow> 'a list" where
  "at_depth n Leaf = []"
| "at_depth 0 (Node l x r) = [x]"
| "at_depth (Suc n) (Node l x r) = at_depth n l @ at_depth n r"

definition level_order :: "'a tree \<Rightarrow> 'a list" where
  "level_order t = concat (map (\<lambda>n. at_depth n t) [0..<height t])"

text \<open>The nodes in the order of a queue of trees.\<close>

function queue_order :: "'a tree list \<Rightarrow> 'a list" where
  "queue_order [] = []"
| "queue_order (Leaf # ts) = queue_order ts"
| "queue_order (Node l x r # ts) = x # queue_order (ts @ children (Node l x r))"
  by pat_completeness auto
termination
proof (relation "measure (\<lambda>ts. sum_list (map (\<lambda>t. 2 * size t + 1) ts))")
  fix l r :: "'a tree" and x ts
  show "(ts @ children (Node l x r), Node l x r # ts) \<in> measure (\<lambda>ts. sum_list (map (\<lambda>t. 2 * size t + 1) ts))"
    by (auto simp: size1_size)
qed auto

text \<open>A queue with one depth of a tree in front and part of the next behind it.\<close>

lemma queue_order_depth:
  "queue_order (ts @ us) = concat (map (at_depth 0) ts) @ queue_order (us @ concat (map children ts))"
proof (induction ts arbitrary: us)
  case (Cons t ts)
  show ?case
  proof (cases t)
    case Leaf
    then show ?thesis using Cons by simp
  next
    case (Node l x r)
    have "queue_order ((t # ts) @ us) = x # queue_order (ts @ (us @ children t))" by (simp add: Node)
    also have "\<dots> = x # concat (map (at_depth 0) ts) @ queue_order ((us @ children t) @ concat (map children ts))"
      by (simp only: Cons.IH)
    finally show ?thesis by (simp add: Node)
  qed
qed simp

lemma at_depth_children: "concat (map (at_depth n) (children t)) = at_depth (Suc n) t"
  by (cases t) auto

lemma at_depth_children_list:
  "concat (map (at_depth n) (concat (map children ts))) = concat (map (at_depth (Suc n)) ts)"
  by (induction ts) (simp_all add: at_depth_children del: at_depth.simps)

lemma height_children: "t' \<in> set (children t) \<Longrightarrow> height t' < height t"
  by (cases t) (auto split: if_splits)

lemma queue_order_levels:
  "\<forall>t\<in>set ts. height t \<le> h \<Longrightarrow> queue_order ts = concat (map (\<lambda>n. concat (map (at_depth n) ts)) [0..<h])"
proof (induction h arbitrary: ts)
  case 0
  then have "\<forall>t\<in>set ts. t = Leaf" by auto
  then show ?case by (induction ts) auto
next
  case (Suc h)
  let ?us = "concat (map children ts)"
  have "queue_order ts = concat (map (at_depth 0) ts) @ queue_order ?us"
    using queue_order_depth [of ts "[]"] by simp
  also have "queue_order ?us = concat (map (\<lambda>n. concat (map (at_depth n) ?us)) [0..<h])"
    using Suc.prems height_children by (intro Suc.IH) fastforce
  also have "\<dots> = concat (map (\<lambda>n. concat (map (at_depth (Suc n)) ts)) [0..<h])"
    by (simp only: at_depth_children_list)
  also have "\<dots> = concat (map (\<lambda>n. concat (map (at_depth n) ts)) (map Suc [0..<h]))"
    by (simp add: comp_def)
  finally show ?case by (simp add: upt_conv_Cons map_Suc_upt del: upt_Suc)
qed

lemma queue_order_level_order: "queue_order [t] = level_order t"
  using queue_order_levels [of "[t]" "height t"] by (simp add: level_order_def)

subsection \<open>The queue in the heap\<close>

text \<open>From \<open>c\<close> on, the cells hold trees up to the empty cell \<open>rear\<close>.\<close>

fun queued :: "qheap \<Rightarrow> bst \<Rightarrow> nat \<Rightarrow> (nat \<times> nat tree) list \<Rightarrow> nat \<Rightarrow> bool" where
  "queued q m c [] rear \<longleftrightarrow> c = rear"
| "queued q m c ((c', t) # cs) rear \<longleftrightarrow> c = c' \<and> shape m (qn_data q c) t \<and> queued q m (qn_next q c) cs rear"

text \<open>\<open>E\<close> are the other cells in use.\<close>

definition queue_inv :: "nat set \<Rightarrow> qheap \<Rightarrow> bst \<Rightarrow> nat \<Rightarrow> (nat \<times> nat tree) list \<Rightarrow> nat \<Rightarrow> bool" where
  "queue_inv E q m c cs rear \<longleftrightarrow> queued q m c cs rear \<and> distinct (map fst cs @ [rear]) \<and>
     qn_live q = insert rear (set (map fst cs)) \<union> E \<and> insert rear (set (map fst cs)) \<inter> E = {} \<and>
     0 \<notin> qn_live q \<and> finite (qn_live q) \<and> qn_data q rear = 0 \<and> qn_next q rear = 0"

lemma queue_invD:
  assumes "queue_inv E q m c cs rear"
  shows "queued q m c cs rear" "distinct (map fst cs @ [rear])" "qn_live q = insert rear (set (map fst cs)) \<union> E"
    "insert rear (set (map fst cs)) \<inter> E = {}" "0 \<notin> qn_live q" "finite (qn_live q)" "qn_data q rear = 0" "qn_next q rear = 0"
  using assms unfolding queue_inv_def by blast+

lemma queued_append: "queued q m c (cs @ ds) rear \<longleftrightarrow> (\<exists>d. queued q m c cs d \<and> queued q m d ds rear)"
  by (induction q m c cs rear rule: queued.induct) auto

lemma queued_cong:
  "(\<And>c. c \<in> set (map fst cs) \<Longrightarrow> qn_data q' c = qn_data q c \<and> qn_next q' c = qn_next q c) \<Longrightarrow>
    queued q' m c cs rear = queued q m c cs rear"
  by (induction q m c cs rear rule: queued.induct) auto

lemma fill_rear_cells:
  assumes "rear \<in> qn_live q" "new (qn_live q) = n" "n \<noteq> 0" "n \<noteq> rear"
  shows "fill_rear new x rear q = Some (n, q\<lparr>qn_data := (qn_data q)(rear := x, n := 0), qn_live := insert n (qn_live q),
    qn_next := (qn_next q)(rear := n, n := 0)\<rparr>)"
  using assms by (simp add: fill_rear_def cell_defs Let_def)

lemma fill_rear_ok:
  assumes inv: "queue_inv E q m c cs rear" and new: "cells_fresh new" and x: "shape m x t"
  shows "\<exists>rear' q'. fill_rear new x rear q = Some (rear', q') \<and> queue_inv E q' m c (cs @ [(rear, t)]) rear'"
proof -
  define n where "n = new (qn_live q)"
  define q' where "q' = q\<lparr>qn_data := (qn_data q)(rear := x, n := 0), qn_live := insert n (qn_live q),
    qn_next := (qn_next q)(rear := n, n := 0)\<rparr>"
  have n: "n \<noteq> 0" "n \<notin> qn_live q" using cells_freshD [OF new, of "qn_live q"] inv unfolding n_def queue_inv_def by blast+
  note i = queue_invD [OF inv]
  have new': "n \<notin> set (map fst cs)" "n \<noteq> rear" "n \<notin> E" using n(2) i(3) by auto
  have "queued q' m c cs rear \<longleftrightarrow> queued q m c cs rear"
    using i(2) new'(1) by (intro queued_cong) (auto simp: q'_def)
  then have "queued q' m c (cs @ [(rear, t)]) n"
    using i(1) x new'(2) by (simp add: queued_append q'_def)
  moreover have "qn_live q' = insert n (set (map fst (cs @ [(rear, t)]))) \<union> E"
    using i(3) by (auto simp: q'_def)
  moreover have "0 \<notin> qn_live q'" "finite (qn_live q')" "qn_data q' n = 0" "qn_next q' n = 0"
    using i(5,6) n(1) by (simp_all add: q'_def)
  moreover have "distinct (map fst (cs @ [(rear, t)]) @ [n])" using i(2) new' by auto
  moreover have "insert n (set (map fst (cs @ [(rear, t)]))) \<inter> E = {}" using i(4) new' by auto
  ultimately have "queue_inv E q' m c (cs @ [(rear, t)]) n" unfolding queue_inv_def by blast
  moreover have "rear \<in> qn_live q" using i(3) by simp
  then have "fill_rear new x rear q = Some (n, q')"
    unfolding q'_def by (rule fill_rear_cells) (use n(1) new' in \<open>auto simp: n_def\<close>)
  ultimately show ?thesis by blast
qed

lemma queue_inv_tl:
  "queue_inv E q m c ((c, t) # cs) rear \<Longrightarrow> queue_inv (insert c E) q m (qn_next q c) cs rear"
  by (auto simp: queue_inv_def)

lemma queue_inv_free:
  assumes "queue_inv (insert c E) q m d cs rear" "c \<notin> E"
  shows "\<exists>q'. cell_free c q = Some q' \<and> queue_inv E q' m d cs rear"
proof -
  define q' where "q' = q\<lparr>qn_live := qn_live q - {c}\<rparr>"
  note i = queue_invD [OF assms(1)]
  have "queued q' m d cs rear \<longleftrightarrow> queued q m d cs rear" unfolding q'_def by (rule queued_cong) simp
  moreover have "qn_live q' = insert rear (set (map fst cs)) \<union> E"
    using i(3,4) assms(2) unfolding q'_def by auto
  moreover have "insert rear (set (map fst cs)) \<inter> E = {}" using i(4) by auto
  moreover have "0 \<notin> qn_live q'" "finite (qn_live q')" "qn_data q' rear = 0" "qn_next q' rear = 0"
    using i(5-8) by (simp_all add: q'_def)
  ultimately have "queue_inv E q' m d cs rear" using i(1,2) unfolding queue_inv_def by blast
  moreover have "c \<in> qn_live q" using i(3) by simp
  then have "cell_free c q = Some q'" by (simp add: cell_free_def q'_def)
  ultimately show ?thesis by blast
qed

lemma level_loop_ok:
  assumes "queue_inv E q m c cs rear" "cells_fresh new"
  shows "\<exists>q'. level_loop new m c rear q out = Some (out @ map (b_data m) (queue_order (map snd cs)), q') \<and> qn_live q' = E"
  using assms(1)
proof (induction "map snd cs" arbitrary: cs c rear q out rule: queue_order.induct)
  case 1
  then have cs: "cs = []" by simp
  note d = queue_invD [OF 1(2) [unfolded cs]]
  have c: "c = rear" "rear \<in> qn_live q" "qn_data q rear = 0" "qn_next q rear = 0" using d(1,3,7,8) by simp_all
  then have "rear \<noteq> 0" using d(5) by metis
  moreover have "qn_live q - {rear} = E" using d(3,4) by simp
  moreover have "level_loop new m 0 rear q' out = Some (out, q')" for q' by (subst level_loop.simps) simp
  ultimately show ?case using c by (subst level_loop.simps) (simp add: cs cell_get_def cell_free_def)
next
  case (2 ts)
  then obtain cs' where cs: "cs = (c, Leaf) # cs'" "ts = map snd cs'" by (cases cs) (auto simp: queue_inv_def)
  have c: "c \<in> qn_live q" "c \<noteq> 0" "qn_data q c = 0" "c \<notin> E" using 2(3) by (auto simp: queue_inv_def cs)
  from queue_inv_free [OF queue_inv_tl [OF 2(3) [unfolded cs(1)]] c(4)] obtain q' where q':
    "cell_free c q = Some q'" "queue_inv E q' m (qn_next q c) cs' rear" by blast
  have "level_loop new m c rear q out = level_loop new m (qn_next q c) rear q' out"
    using c q'(1) by (subst level_loop.simps) (simp add: cell_get_def)
  then show ?case using 2(1) [OF cs(2) q'(2)] by (simp add: cs)
next
  case (3 l x r ts)
  then obtain cs' where cs: "cs = (c, Node l x r) # cs'" "ts = map snd cs'" by (cases cs) (auto simp: queue_inv_def)
  have c: "c \<in> qn_live q" "c \<noteq> 0" "qn_data q c = x" "c \<notin> E" "shape m x (Node l x r)"
    using 3(3) by (auto simp: queue_inv_def cs)
  have zero: "b_l m x = 0 \<longleftrightarrow> l = Leaf" "b_r m x = 0 \<longleftrightarrow> r = Leaf" using c(5) shape_zero by auto
  note inv1 = queue_inv_tl [OF 3(3) [unfolded cs(1)]]
  obtain rear1 q1 ds1 where f1: "(if b_l m x \<noteq> 0 then fill_rear new (b_l m x) rear q else Some (rear, q)) = Some (rear1, q1)"
    "queue_inv (insert c E) q1 m (qn_next q c) ds1 rear1" "map snd ds1 = ts @ (if l = Leaf then [] else [l])"
  proof (cases "l = Leaf")
    case True
    then show ?thesis using that inv1 zero cs(2) by simp
  next
    case False
    then show ?thesis using that fill_rear_ok [OF inv1 assms(2), of "b_l m x" l] zero cs(2) c(5) by auto
  qed
  obtain rear2 q2 ds2 where f2: "(if b_r m x \<noteq> 0 then fill_rear new (b_r m x) rear1 q1 else Some (rear1, q1)) = Some (rear2, q2)"
    "queue_inv (insert c E) q2 m (qn_next q c) ds2 rear2"
    "map snd ds2 = ts @ children (Node l x r)"
  proof (cases "r = Leaf")
    case True
    then show ?thesis using that f1 zero by simp
  next
    case False
    then show ?thesis using that fill_rear_ok [OF f1(2) assms(2), of "b_r m x" r] f1(3) zero c(5) by auto
  qed
  from queue_inv_free [OF f2(2) c(4)] obtain q' where q':
    "cell_free c q2 = Some q'" "queue_inv E q' m (qn_next q c) ds2 rear2" by blast
  have "level_loop new m c rear q out = level_loop new m (qn_next q c) rear2 q' (out @ [b_data m x])"
    using c f1(1) f2(1) q'(1) by (subst level_loop.simps) (simp add: cell_get_def node_get_def)
  moreover have "map snd cs = Node l x r # ts" using 3(2) by simp
  then have "queue_order (map snd cs) = x # queue_order (map snd ds2)" by (simp only: queue_order.simps f2(3))
  ultimately show ?case using 3(1) [OF f2(3) [symmetric] q'(2), of "out @ [b_data m x]"] by simp
qed

subsection \<open>The properties\<close>

text \<open>
  C38: the level-order traversal prints the data of the tree depth by depth, each depth from left to right, and gives
  back every cell of its queue.
\<close>

theorem level_order_traversal_correct:
  assumes "shape m root t" "cells_fresh new" "finite (qn_live q)" "0 \<notin> qn_live q"
  shows "\<exists>q'. level_order_traversal new root m q = Some (map (b_data m) (level_order t), q') \<and> qn_live q' = qn_live q"
proof -
  define f where "f = new (qn_live q)"
  define r where "r = new (insert f (qn_live q))"
  define q0 where "q0 = q\<lparr>qn_live := insert r (insert f (qn_live q)), qn_data := (qn_data q)(f := root, r := 0),
    qn_next := (qn_next q)(f := r, r := 0)\<rparr>"
  have f: "f \<noteq> 0" "f \<notin> qn_live q" "r \<noteq> 0" "r \<notin> qn_live q" "r \<noteq> f"
    using assms(2,3) unfolding f_def r_def cells_fresh_def by (metis finite_insert insertCI)+
  have "queue_inv (qn_live q) q0 m f [(f, t)] r"
    using assms(1,3,4) f by (auto simp: queue_inv_def q0_def)
  from level_loop_ok [OF this assms(2), of "[]"] obtain q' where
    "level_loop new m f r q0 [] = Some (map (b_data m) (queue_order [t]), q')" "qn_live q' = qn_live q" by auto
  moreover have "level_order_traversal new root m q = level_loop new m f r q0 []"
    using f by (simp add: level_order_traversal_def cell_defs Let_def f_def [symmetric] r_def [symmetric] q0_def)
  ultimately show ?thesis by (simp add: queue_order_level_order)
qed

definition next_cell :: "nat set \<Rightarrow> nat" where
  "next_cell L = (if L = {} then 1 else Suc (Max L))"

lemma cells_fresh_next: "cells_fresh next_cell"
  unfolding cells_fresh_def next_cell_def by (auto dest: Max_ge)

definition five_nodes :: bst where
  "five_nodes = \<lparr>b_key = int, b_data = (\<lambda>x. 10 * x), b_p = id, b_l = (\<lambda>x. if x = 1 then 2 else if x = 3 then 5 else 0),
     b_r = (\<lambda>x. if x = 1 then 3 else if x = 2 then 4 else 0), b_live = {1, 2, 3, 4, 5}, b_root = 1\<rparr>"

abbreviation five_tree :: "nat tree" where
  "five_tree \<equiv> Node (Node Leaf 2 (Node Leaf 4 Leaf)) 1 (Node (Node Leaf 5 Leaf) 3 Leaf)"

definition no_cells :: qheap where
  "no_cells = \<lparr>qn_data = (\<lambda>_. 0), qn_next = (\<lambda>_. 0), qn_live = {}\<rparr>"

theorem level_order_traversal_correct_witness:
  "\<exists>q'. level_order_traversal next_cell 1 five_nodes no_cells = Some ([10, 20, 30, 40, 50], q') \<and> qn_live q' = {}"
proof -
  have "shape five_nodes 1 five_tree" by (simp add: five_nodes_def)
  from level_order_traversal_correct [OF this cells_fresh_next, of no_cells] show ?thesis
    by (simp add: no_cells_def level_order_def five_nodes_def upt_rec [of 0] upt_rec [of "Suc 0"] upt_rec [of "Suc (Suc 0)"] numeral_eq_Suc)
qed

lemma add_rear_ok:
  assumes "rear \<in> qn_live q" "cells_fresh new" "finite (qn_live q)"
  shows "\<exists>c q'. add_rear new x rear q = Some (c, q') \<and> c \<notin> qn_live q \<and> qn_live q' = insert c (qn_live q)"
proof -
  have "new (qn_live q) \<noteq> 0" "new (qn_live q) \<notin> qn_live q" using assms(2,3) by (auto simp: cells_fresh_def)
  then show ?thesis using assms(1) by (auto simp: add_rear_def cell_defs Let_def)
qed

text \<open>
  the version marked as wrong prints only the root, whatever the tree below it, and keeps the cells of the root's
  children.
\<close>

theorem level_order_traversal1_wrong:
  assumes "shape m root (Node l x r)" "cells_fresh new" "finite (qn_live q)" "0 \<notin> qn_live q"
  shows "\<exists>q' C. level_order_traversal1 new root m q = Some ([b_data m root], q') \<and> qn_live q' = qn_live q \<union> C \<and>
    C \<inter> qn_live q = {} \<and> card C = length (children (Node l x r))"
proof -
  let ?f = "new (qn_live q)"
  let ?q = "q\<lparr>qn_live := insert ?f (qn_live q), qn_data := (qn_data q)(?f := root), qn_next := (qn_next q)(?f := 0)\<rparr>"
  have f: "?f \<noteq> 0" "?f \<notin> qn_live q" using assms(2,3) by (auto simp: cells_fresh_def)
  have root: "root \<noteq> 0" "root \<in> b_live m" "shape m (b_l m root) l" "shape m (b_r m root) r" using assms(1) by auto
  have zero: "b_l m root = 0 \<longleftrightarrow> l = Leaf" "b_r m root = 0 \<longleftrightarrow> r = Leaf" using root(3,4) shape_zero by auto
  obtain c1 q1 C1 where l: "(if b_l m root \<noteq> 0 then add_rear new (b_l m root) ?f ?q else Some (?f, ?q)) = Some (c1, q1)"
    "qn_live q1 = insert ?f (qn_live q) \<union> C1" "c1 \<in> qn_live q1" "finite C1" "C1 \<inter> insert ?f (qn_live q) = {}"
    "card C1 = (if l = Leaf then 0 else 1)"
  proof (cases "l = Leaf")
    case True
    then show ?thesis using that [of ?f ?q "{}"] zero by simp
  next
    case False
    from add_rear_ok [of ?f ?q new "b_l m root"] obtain c q' where
      "add_rear new (b_l m root) ?f ?q = Some (c, q')" "c \<notin> insert ?f (qn_live q)" "qn_live q' = insert c (insert ?f (qn_live q))"
      using assms(2,3) by auto
    then show ?thesis using that [of c q' "{c}"] zero False by auto
  qed
  obtain c2 q2 C2 where r: "(if b_r m root \<noteq> 0 then add_rear new (b_r m root) c1 q1 else Some (c1, q1)) = Some (c2, q2)"
    "qn_live q2 = insert ?f (qn_live q) \<union> C2" "C2 \<inter> insert ?f (qn_live q) = {}"
    "card C2 = length (children (Node l x r))"
  proof (cases "r = Leaf")
    case True
    then show ?thesis using that [of c1 q1 C1] l zero by simp
  next
    case False
    have "finite (qn_live q1)" using l(2,4) assms(3) by simp
    from add_rear_ok [OF l(3) assms(2) this, of "b_r m root"] obtain c q' where
      "add_rear new (b_r m root) c1 q1 = Some (c, q')" "c \<notin> qn_live q1" "qn_live q' = insert c (qn_live q1)" by blast
    then show ?thesis using that [of c q' "insert c C1"] l zero False by auto
  qed
  let ?q3 = "q2\<lparr>qn_live := qn_live q2 - {?f}\<rparr>"
  have "level_loop1 new m 0 c2 ?q3 [b_data m root] = Some ([b_data m root], ?q3)" by (subst level_loop1.simps) simp
  moreover have "level_loop1 new m ?f ?f ?q [] = level_loop1 new m 0 c2 ?q3 [b_data m root]"
    using f root l(1) r(1,2) by (subst level_loop1.simps) (simp add: cell_get_def cell_free_def node_get_def)
  moreover have "level_order_traversal1 new root m q = level_loop1 new m ?f ?f ?q []"
    using f root by (simp add: level_order_traversal1_def cell_defs Let_def)
  moreover have "qn_live ?q3 = qn_live q \<union> C2" using r(2,3) f(2) by auto
  ultimately show ?thesis using r(3,4) by (intro exI [of _ ?q3] exI [of _ C2]) auto
qed

theorem level_order_traversal1_wrong_witness:
  "\<exists>q' C. level_order_traversal1 next_cell 1 five_nodes no_cells = Some ([10], q') \<and> qn_live q' = C \<and> card C = 2"
proof -
  have "shape five_nodes 1 five_tree" by (simp add: five_nodes_def)
  from level_order_traversal1_wrong [OF this cells_fresh_next, of no_cells] show ?thesis
    by (auto simp: no_cells_def five_nodes_def)
qed

end
