(* ===== verification/Sh_Strings.thy ===== *)
theory Sh_Strings
  imports Prelude
begin

text \<open>
  The string helpers of \<open>inc/sh_strings_fns.h\<close> and \<open>inc/sh_unistd.h\<close>.  A character array is a list; a pointer into it is an
  offset, and the C string at a pointer ends before the first \<open>NUL\<close>.  Reading behind the array has no result.  The
  functions of the C library that are called (\<open>strtoull\<close>, \<open>fgets\<close>, \<open>strstr\<close>, \<open>isspace\<close>) are defined as the standard describes
  them, for the arguments the code gives.
\<close>

abbreviation NUL :: char where "NUL \<equiv> CHR 0x00"

definition c_string :: "char list \<Rightarrow> string" where
  "c_string buf = takeWhile (\<lambda>c. c \<noteq> NUL) buf"

definition char_at :: "char list \<Rightarrow> nat \<Rightarrow> char option" where
  "char_at buf i = (if i < length buf then Some (buf ! i) else None)"

subsection \<open>Splitting a line\<close>

text \<open>\<open>tokens\<close> are the pointers stored so far, \<open>tok\<close> is their number.\<close>

function rte_strsplit_loop :: "nat \<Rightarrow> nat \<Rightarrow> char \<Rightarrow> nat \<Rightarrow> char list \<Rightarrow> nat list \<Rightarrow> bool \<Rightarrow> (char list \<times> nat list) option" where
  "rte_strsplit_loop stringlen maxtokens delim i string tokens tokstart =
     (if i < stringlen then do {
        c \<leftarrow> char_at string i;
        if c = NUL \<or> length tokens \<ge> maxtokens then Some (string, tokens)
        else
          let tokens = (if tokstart then tokens @ [i] else tokens) in
          if c = delim
          then rte_strsplit_loop stringlen maxtokens delim (i + 1) (string[i := NUL]) tokens True
          else rte_strsplit_loop stringlen maxtokens delim (i + 1) string tokens False }
      else Some (string, tokens))"
  by pat_completeness auto
termination by (relation "measure (\<lambda>(n, _, _, i, _). n - i)") auto

function sh_strsplit_loop :: "nat \<Rightarrow> nat \<Rightarrow> char \<Rightarrow> nat \<Rightarrow> char list \<Rightarrow> nat list \<Rightarrow> bool \<Rightarrow> (char list \<times> nat list) option" where
  "sh_strsplit_loop stringlen maxtokens delim i string tokens tokstart =
     (if i < stringlen then do {
        c \<leftarrow> char_at string i;
        if c = NUL \<or> length tokens \<ge> maxtokens then Some (string, tokens)
        else if tokstart \<and> c = delim
        then sh_strsplit_loop stringlen maxtokens delim (i + 1) string tokens True
        else
          let tokens = (if tokstart then tokens @ [i] else tokens) in
          if c = delim
          then sh_strsplit_loop stringlen maxtokens delim (i + 1) (string[i := NUL]) tokens True
          else sh_strsplit_loop stringlen maxtokens delim (i + 1) string tokens False }
      else Some (string, tokens))"
  by pat_completeness auto
termination by (relation "measure (\<lambda>(n, _, _, i, _). n - i)") auto

declare rte_strsplit_loop.simps [simp del] sh_strsplit_loop.simps [simp del]

text \<open>The value returned, the array afterwards and the tokens stored; a null pointer is \<open>None\<close>.\<close>

definition rte_strsplit ::
    "char list option \<Rightarrow> nat \<Rightarrow> nat \<Rightarrow> char \<Rightarrow> (int \<times> char list \<times> nat list) option" where
  "rte_strsplit string stringlen maxtokens delim =
     (case string of
        None \<Rightarrow> Some (- 1, [], [])
      | Some string \<Rightarrow> map_option (\<lambda>(string, tokens). (int (length tokens), string, tokens))
          (rte_strsplit_loop stringlen maxtokens delim 0 string [] True))"

definition sh_strsplit ::
    "char list option \<Rightarrow> nat \<Rightarrow> nat \<Rightarrow> char \<Rightarrow> (int \<times> char list \<times> nat list) option" where
  "sh_strsplit string stringlen maxtokens delim =
     (case string of
        None \<Rightarrow> Some (0, [], [])
      | Some string \<Rightarrow> map_option (\<lambda>(string, tokens). (int (length tokens), string, tokens))
          (sh_strsplit_loop stringlen maxtokens delim 0 string [] True))"

subsection \<open>Numbers\<close>

definition c_isspace :: "char \<Rightarrow> bool" where
  "c_isspace c \<longleftrightarrow> c \<in> {CHR '' '', CHR 0x09, CHR 0x0A, CHR 0x0B, CHR 0x0C, CHR 0x0D}"

definition digit_value :: "char \<Rightarrow> nat option" where
  "digit_value c =
     (let n = of_char c :: nat in
      if 48 \<le> n \<and> n \<le> 57 then Some (n - 48)
      else if 97 \<le> n \<and> n \<le> 122 then Some (n - 87)
      else if 65 \<le> n \<and> n \<le> 90 then Some (n - 55)
      else None)"

definition is_digit :: "nat \<Rightarrow> char \<Rightarrow> bool" where
  "is_digit base c \<longleftrightarrow> (case digit_value c of None \<Rightarrow> False | Some d \<Rightarrow> d < base)"

definition number :: "nat \<Rightarrow> string \<Rightarrow> nat" where
  "number base ds = foldl (\<lambda>v c. v * base + the (digit_value c)) 0 ds"

text \<open>The sign and the base of a number, for a base argument of 0.\<close>

definition number_sign :: "string \<Rightarrow> bool \<times> string" where
  "number_sign s = (if s \<noteq> [] \<and> hd s = CHR ''-'' then (True, tl s) else if s \<noteq> [] \<and> hd s = CHR ''+'' then (False, tl s) else (False, s))"

definition number_base :: "string \<Rightarrow> nat \<times> string" where
  "number_base s =
     (if 2 < length s \<and> s ! 0 = CHR ''0'' \<and> s ! 1 \<in> {CHR ''x'', CHR ''X''} \<and> is_digit 16 (s ! 2) then (16, drop 2 s)
      else if s \<noteq> [] \<and> hd s = CHR ''0'' then (8, s) else (10, s))"

text \<open>\<open>strtoull (s, &endptr, 0)\<close>: the number, the string at \<open>endptr\<close>, and whether \<open>errno\<close> is set.\<close>

definition strtoull :: "string \<Rightarrow> u64 \<times> string \<times> bool" where
  "strtoull s =
     (let (neg, s') = number_sign (dropWhile c_isspace s);
          (base, s') = number_base s';
          ds = takeWhile (is_digit base) s';
          n = number base ds in
      if ds = [] then (0, s, False)
      else if n \<ge> 2 ^ 64 then (- 1, drop (length ds) s', True)
      else ((if neg then - of_nat n else of_nat n), drop (length ds) s', False))"

text \<open>The factor of a unit, by the \<open>switch\<close> that falls through.\<close>

definition unit_scale :: "string \<Rightarrow> u64 \<Rightarrow> u64" where
  "unit_scale endptr sz =
     (let sz = (if endptr \<noteq> [] \<and> hd endptr \<in> {CHR ''G'', CHR ''g''} then sz * 1024 else sz);
          sz = (if endptr \<noteq> [] \<and> hd endptr \<in> {CHR ''G'', CHR ''g'', CHR ''M'', CHR ''m''} then sz * 1024 else sz) in
      if endptr \<noteq> [] \<and> hd endptr \<in> {CHR ''G'', CHR ''g'', CHR ''M'', CHR ''m'', CHR ''K'', CHR ''k''} then sz * 1024 else sz)"

definition rte_str_to_size :: "string \<Rightarrow> u64" where
  "rte_str_to_size str =
     (let str = dropWhile c_isspace str in
      if str \<noteq> [] \<and> hd str = CHR ''-'' then 0
      else
        let (size, endptr, errno) = strtoull str in
        if errno then 0
        else unit_scale (if endptr \<noteq> [] \<and> hd endptr = CHR '' '' then tl endptr else endptr) size)"

subsection \<open>Reading files\<close>

text \<open>
  \<open>fgets\<close> for an array of \<open>n\<close> characters: the characters stored before the final \<open>NUL\<close>, and what is left of the file.
\<close>

definition fgets :: "nat \<Rightarrow> string \<Rightarrow> (string \<times> string) option" where
  "fgets n file =
     (if file = [] then None
      else
        let body = takeWhile (\<lambda>c. c \<noteq> CHR 0x0A) file;
            line = take (n - 1) (if length body < length file then body @ [CHR 0x0A] else body) in
        Some (line, drop (length line) file))"

definition BUFSIZ :: nat where "BUFSIZ = 8192"

text \<open>
  The value returned and the number stored in \<open>val\<close>, if it is; \<open>None\<close> as file is one that cannot be opened.  The first
  character is \<open>NUL\<close> when the string in the buffer is empty, and the one at \<open>end\<close> must be a newline.
\<close>

definition eal_parse_sysfs_value :: "string option \<Rightarrow> int \<times> u64 option" where
  "eal_parse_sysfs_value file =
     (case file of
        None \<Rightarrow> (- 1, None)
      | Some f \<Rightarrow>
          (case fgets BUFSIZ f of
             None \<Rightarrow> (- 1, None)
           | Some (line, _) \<Rightarrow>
               let buf = c_string line;
                   (val, end', _) = strtoull buf in
               if buf = [] \<or> end' = [] \<or> hd end' \<noteq> CHR 0x0A then (- 1, Some val) else (0, Some val)))"

definition starts_with :: "string \<Rightarrow> string \<Rightarrow> bool" where
  "starts_with p s \<longleftrightarrow> take (length p) s = p"

fun strstr :: "string \<Rightarrow> string \<Rightarrow> string option" where
  "strstr [] needle = (if needle = [] then Some [] else None)"
| "strstr (c # cs) needle = (if starts_with needle (c # cs) then Some (c # cs) else strstr cs needle)"

subsection \<open>What a split gives\<close>

text \<open>
  The fields of a line.  Of the last one allowed the rest of the line is not cut off, unless it begins with the delimiter;
  \<open>sh_strsplit\<close> in addition skips the delimiters before a field.
\<close>

primrec split_fields :: "char \<Rightarrow> nat \<Rightarrow> string \<Rightarrow> string list" where
  "split_fields d 0 xs = []"
| "split_fields d (Suc n) xs =
     (if xs = [] then []
      else if n = 0 then [if hd xs = d then [] else xs]
      else takeWhile (\<lambda>c. c \<noteq> d) xs # split_fields d n (tl (dropWhile (\<lambda>c. c \<noteq> d) xs)))"

primrec sh_split_fields :: "char \<Rightarrow> nat \<Rightarrow> string \<Rightarrow> string list" where
  "sh_split_fields d 0 xs = []"
| "sh_split_fields d (Suc n) xs =
     (let xs = dropWhile (\<lambda>c. c = d) xs in
      if xs = [] then []
      else if n = 0 then [xs]
      else takeWhile (\<lambda>c. c \<noteq> d) xs # sh_split_fields d n (tl (dropWhile (\<lambda>c. c \<noteq> d) xs)))"

text \<open>Both loops by recursion on the rest of the line, with the offsets of the tokens in it.\<close>

fun cut_line :: "bool \<Rightarrow> char \<Rightarrow> nat \<Rightarrow> bool \<Rightarrow> string \<Rightarrow> char list \<times> nat list" where
  "cut_line skip d r start [] = ([], [])"
| "cut_line skip d r start (c # cs) =
     (if r = 0 then (c # cs, [])
      else if skip \<and> start \<and> c = d
      then (let (ys, os) = cut_line skip d r True cs in (c # ys, map Suc os))
      else
        let (ys, os) = cut_line skip d (if start then r - 1 else r) (c = d) cs in
        ((if c = d then NUL else c) # ys, (if start then [0] else []) @ map Suc os))"

lemma c_string_simps [simp]: "c_string (NUL # cs) = []" "c \<noteq> NUL \<Longrightarrow> c_string (c # cs) = c # c_string cs"
  by (simp_all add: c_string_def)

lemma char_at_append [simp]: "char_at (pre @ c # cs) (length pre) = Some c"
  by (simp add: char_at_def)

lemma map_add_Suc: "map ((+) m) (map Suc os) = map ((+) (Suc m)) os"
  by (simp add: o_def)

lemma rte_strsplit_loop_cut:
  assumes "NUL \<notin> set xs" "length pre + length xs < stringlen" "length toks \<le> maxtokens"
    and "cut_line False d (maxtokens - length toks) start xs = (ys, os)"
  shows "rte_strsplit_loop stringlen maxtokens d (length pre) (pre @ xs @ NUL # rest) toks start =
    Some (pre @ ys @ NUL # rest, toks @ map ((+) (length pre)) os)"
  using assms
proof (induction xs arbitrary: pre toks start ys os)
  case Nil
  then show ?case by (simp add: rte_strsplit_loop.simps [of _ _ _ _ "pre @ NUL # rest"])
next
  case (Cons c cs)
  note IH = Cons.IH [of "pre @ [c']" _ "c = d" for c', simplified]
  show ?case
    using Cons.prems IH [of "if start then toks @ [length pre] else toks" _ _ "if c = d then NUL else c"]
    by (subst rte_strsplit_loop.simps) (auto simp: Let_def map_add_Suc split: prod.splits if_splits)
qed

lemma sh_strsplit_loop_cut:
  assumes "NUL \<notin> set xs" "length pre + length xs < stringlen" "length toks \<le> maxtokens"
    and "cut_line True d (maxtokens - length toks) start xs = (ys, os)"
  shows "sh_strsplit_loop stringlen maxtokens d (length pre) (pre @ xs @ NUL # rest) toks start =
    Some (pre @ ys @ NUL # rest, toks @ map ((+) (length pre)) os)"
  using assms
proof (induction xs arbitrary: pre toks start ys os)
  case Nil
  then show ?case by (simp add: sh_strsplit_loop.simps [of _ _ _ _ "pre @ NUL # rest"])
next
  case (Cons c cs)
  note IH = Cons.IH [of "pre @ [c']" _ "c = d" for c', simplified]
  show ?case
    using Cons.prems IH [of "if start then toks @ [length pre] else toks" _ _ "if c = d then NUL else c"]
      IH [of toks _ _ c]
    by (subst sh_strsplit_loop.simps) (auto simp: Let_def map_add_Suc split: prod.splits if_splits)
qed

text \<open>The strings at the tokens.\<close>

abbreviation strings_at :: "char list \<Rightarrow> nat list \<Rightarrow> string list" where
  "strings_at buf os \<equiv> map (\<lambda>i. c_string (drop i buf)) os"

lemma fields_Nil [simp]: "split_fields d n [] = []" by (cases n) auto

lemma sh_fields_Nil [simp]: "sh_split_fields d n [] = []" by (cases n) auto

lemma sh_fields_skip [simp]: "sh_split_fields d n (d # xs) = sh_split_fields d n xs" by (cases n) auto

lemma c_string_line: "NUL \<notin> set xs \<Longrightarrow> c_string (xs @ NUL # rest) = xs"
  by (induction xs) (auto simp: c_string_def)

lemma cut_fields:
  assumes "NUL \<notin> set xs" "cut_line False d r start xs = (ys, os)"
  shows "(if start then strings_at (ys @ NUL # rest) os = split_fields d r xs
     else c_string (ys @ NUL # rest) = (if r = 0 then xs else takeWhile (\<lambda>c. c \<noteq> d) xs) \<and>
       strings_at (ys @ NUL # rest) os = split_fields d r (tl (dropWhile (\<lambda>c. c \<noteq> d) xs)))"
  using assms
proof (induction xs arbitrary: r start ys os)
  case (Cons c cs)
  obtain ys' os' where c: "cut_line False d (if start then r - 1 else r) (c = d) cs = (ys', os')" by fastforce
  show ?case
    using Cons.IH [OF _ c] Cons.prems c
    by (cases r) (auto simp: o_def c_string_line split: if_splits)
qed simp

lemma cut_sh_fields:
  assumes "NUL \<notin> set xs" "cut_line True d r start xs = (ys, os)"
  shows "(if start then strings_at (ys @ NUL # rest) os = sh_split_fields d r xs
     else c_string (ys @ NUL # rest) = (if r = 0 then xs else takeWhile (\<lambda>c. c \<noteq> d) xs) \<and>
       strings_at (ys @ NUL # rest) os = sh_split_fields d r (tl (dropWhile (\<lambda>c. c \<noteq> d) xs)))"
  using assms
proof (induction xs arbitrary: r start ys os)
  case (Cons c cs)
  obtain ys' os' where c: "cut_line True d (if start \<and> c \<noteq> d then r - 1 else r) (c = d) cs = (ys', os')" by fastforce
  show ?case
    using Cons.IH [OF _ c] Cons.prems c
    by (cases r) (auto simp: o_def c_string_line split: if_splits)
qed simp

lemma rte_strsplit_fields:
  assumes "NUL \<notin> set line" "length line < stringlen"
  shows "\<exists>buf toks. rte_strsplit (Some (line @ NUL # rest)) stringlen maxtokens d = Some (int (length toks), buf, toks) \<and>
    strings_at buf toks = split_fields d maxtokens line"
proof -
  obtain ys os where c: "cut_line False d maxtokens True line = (ys, os)" by fastforce
  then show ?thesis
    using rte_strsplit_loop_cut [of line "[]" stringlen "[]" maxtokens d True ys os rest] cut_fields [OF _ c] assms
    by (intro exI [of _ "ys @ NUL # rest"] exI [of _ os]) (simp add: rte_strsplit_def map_idI)
qed

lemma sh_strsplit_fields:
  assumes "NUL \<notin> set line" "length line < stringlen"
  shows "\<exists>buf toks. sh_strsplit (Some (line @ NUL # rest)) stringlen maxtokens d = Some (int (length toks), buf, toks) \<and>
    strings_at buf toks = sh_split_fields d maxtokens line"
proof -
  obtain ys os where c: "cut_line True d maxtokens True line = (ys, os)" by fastforce
  then show ?thesis
    using sh_strsplit_loop_cut [of line "[]" stringlen "[]" maxtokens d True ys os rest] cut_sh_fields [OF _ c] assms
    by (intro exI [of _ "ys @ NUL # rest"] exI [of _ os]) (simp add: sh_strsplit_def map_idI)
qed

text \<open>Where no field is empty the two agree.\<close>

lemma sh_fields_single:
  assumes "xs \<noteq> [] \<longrightarrow> hd xs \<noteq> d" "\<And>i. Suc i < length xs \<Longrightarrow> xs ! i = d \<Longrightarrow> xs ! Suc i \<noteq> d"
  shows "sh_split_fields d n xs = split_fields d n xs"
  using assms
proof (induction n arbitrary: xs)
  case (Suc n)
  show ?case
  proof (cases xs)
    case (Cons x xs')
    let ?rest = "tl (dropWhile (\<lambda>c. c \<noteq> d) xs)" and ?k = "length (takeWhile (\<lambda>c. c \<noteq> d) xs)"
    have rest: "?rest = drop (Suc ?k) xs" by (simp add: dropWhile_eq_drop drop_Suc tl_drop)
    have "xs ! ?k = d" if "?k < length xs" using nth_length_takeWhile [OF that] by simp
    then have "?rest \<noteq> [] \<longrightarrow> hd ?rest \<noteq> d"
      using Suc.prems(2) [of ?k] by (auto simp: rest hd_drop_conv_nth)
    moreover have "\<And>i. Suc i < length ?rest \<Longrightarrow> ?rest ! i = d \<Longrightarrow> ?rest ! Suc i \<noteq> d"
      using Suc.prems(2) by (simp add: rest)
    ultimately have "sh_split_fields d n ?rest = split_fields d n ?rest" by (intro Suc.IH) auto
    then show ?thesis using Suc.prems(1) Cons by (simp add: Let_def)
  qed simp
qed simp

subsection \<open>Decimal numbers\<close>

definition digit :: "nat \<Rightarrow> char" where "digit n = char_of (48 + n)"

fun decimal :: "nat \<Rightarrow> string" where
  "decimal n = (if n < 10 then [digit n] else decimal (n div 10) @ [digit (n mod 10)])"

declare decimal.simps [simp del]

lemma below_ten: "n < 10 \<Longrightarrow> n \<in> {0, 1, 2, 3, 4, 5, 6, 7, 8, 9 :: nat}"
  by auto

lemma digit_value_digit [simp]: "n < 10 \<Longrightarrow> digit_value (digit n) = Some n"
  by (simp add: digit_value_def digit_def of_char_of)

lemma digit_plain:
  "n < 10 \<Longrightarrow> \<not> c_isspace (digit n) \<and> digit n \<noteq> CHR ''-'' \<and> digit n \<noteq> CHR ''+'' \<and> digit n \<noteq> NUL \<and> digit n \<noteq> CHR 0x0A"
  by (drule below_ten) (auto simp: digit_def c_isspace_def char_of_def)

lemma digit_eq_0: "n < 10 \<Longrightarrow> digit n = CHR ''0'' \<longleftrightarrow> n = 0"
  by (drule below_ten) (auto simp: digit_def char_of_def bit_Suc_0_iff bit_0)

lemma number_snoc: "number b (ds @ [c]) = number b ds * b + the (digit_value c)"
  by (simp add: number_def)

lemma number_decimal: "number 10 (decimal n) = n"
proof (induction n rule: decimal.induct)
  case (1 n)
  then show ?case
    by (subst decimal.simps) (auto simp: number_snoc, simp add: number_def)
qed

lemma decimal_digits: "c \<in> set (decimal n) \<Longrightarrow> \<exists>k < 10. c = digit k"
proof (induction n rule: decimal.induct)
  case (1 n)
  then have "c = digit (n mod 10) \<or> \<not> n < 10 \<and> c \<in> set (decimal (n div 10))"
    by (subst (asm) (2) decimal.simps) (auto split: if_splits)
  then show ?case using 1(1) by (metis mod_less_divisor zero_less_numeral)
qed

lemma decimal_not_Nil [simp]: "decimal n \<noteq> []"
  by (subst decimal.simps) auto

lemma hd_decimal: "0 < n \<Longrightarrow> hd (decimal n) \<noteq> CHR ''0''"
proof (induction n rule: decimal.induct)
  case (1 n)
  then show ?case by (subst decimal.simps) (auto simp: digit_eq_0)
qed

lemma length_decimal: "n < 10 ^ k \<Longrightarrow> 0 < k \<Longrightarrow> length (decimal n) \<le> k"
proof (induction k arbitrary: n)
  case (Suc k)
  then show ?case by (subst decimal.simps) (cases k; auto simp: less_mult_imp_div_less mult.commute)
qed simp

text \<open>What may follow a number.\<close>

definition ends_number :: "nat \<Rightarrow> string \<Rightarrow> bool" where
  "ends_number n u \<longleftrightarrow> (u = [] \<or> \<not> is_digit 10 (hd u) \<and> (n = 0 \<longrightarrow> hd u \<notin> {CHR ''x'', CHR ''X''}))"

lemma decimal_0: "decimal 0 = [CHR ''0'']"
  by (subst decimal.simps) (simp add: digit_def char_of_def bit_0)

lemma is_digit_mono: "is_digit b c \<Longrightarrow> b \<le> b' \<Longrightarrow> is_digit b' c"
  by (auto simp: is_digit_def split: option.splits)

lemma takeWhile_decimal:
  assumes "u = [] \<or> \<not> is_digit 10 (hd u)"
  shows "takeWhile (is_digit 10) (decimal n @ u) = decimal n"
proof -
  have "\<forall>c \<in> set (decimal n). is_digit 10 c" using decimal_digits by (force simp: is_digit_def)
  then show ?thesis using assms by (cases u) (auto simp: takeWhile_append2)
qed

lemma strtoull_decimal:
  assumes "\<forall>c \<in> set sp. c_isspace c" "n < 2 ^ 64" "ends_number n u"
  shows "strtoull (sp @ decimal n @ u) = (of_nat n, u, False)"
proof -
  obtain k ds where k: "decimal n = digit k # ds" "k < 10"
    by (metis decimal_digits decimal_not_Nil list.exhaust list.set_intros(1))
  then have sign: "number_sign (dropWhile c_isspace (sp @ decimal n @ u)) = (False, decimal n @ u)"
    using assms(1) digit_plain [OF k(2)] by (simp add: dropWhile_append number_sign_def)
  show ?thesis
  proof (cases "n = 0")
    case True
    then have "number_base (decimal n @ u) = (8, decimal n @ u)"
      using assms(3) by (cases u) (auto simp: number_base_def decimal_0 ends_number_def)
    moreover have "takeWhile (is_digit 8) (decimal n @ u) = decimal n"
      using True assms(3) is_digit_mono [of 8 _ 10]
      by (cases u) (auto simp: decimal_0 ends_number_def is_digit_def digit_value_def split: option.splits)
    ultimately show ?thesis
      using True sign by (simp add: strtoull_def number_def decimal_0 digit_value_def)
  next
    case False
    then have "number_base (decimal n @ u) = (10, decimal n @ u)"
      using k hd_decimal [of n] by (auto simp: number_base_def)
    then show ?thesis
      using sign assms(2,3) takeWhile_decimal [of u n] takeWhile_decimal [of "[]" n]
      by (auto simp: strtoull_def number_decimal ends_number_def)
  qed
qed

definition scale :: "string \<Rightarrow> nat" where
  "scale u =
     (if u = [] then 1
      else if hd u \<in> {CHR ''G'', CHR ''g''} then 1024 ^ 3
      else if hd u \<in> {CHR ''M'', CHR ''m''} then 1024 ^ 2
      else if hd u \<in> {CHR ''K'', CHR ''k''} then 1024
      else 1)"

lemma unit_scale_scale: "unit_scale u sz = sz * of_nat (scale u)"
  by (simp add: unit_scale_def scale_def)

lemma unit_scale_zero [simp]: "unit_scale u 0 = 0"
  by (simp add: unit_scale_scale)

lemma rte_str_to_size_decimal:
  assumes "\<forall>c \<in> set sp. c_isspace c" "n < 2 ^ 64" "gap \<in> {[], '' ''}" "ends_number n (gap @ u)" "gap = [] \<Longrightarrow> u = [] \<or> hd u \<noteq> CHR '' ''"
  shows "rte_str_to_size (sp @ decimal n @ gap @ u) = of_nat (n * scale u)"
proof -
  obtain k ds where k: "decimal n = digit k # ds" "k < 10"
    by (metis decimal_digits decimal_not_Nil list.exhaust list.set_intros(1))
  then have "dropWhile c_isspace (sp @ decimal n @ gap @ u) = decimal n @ gap @ u"
    using assms(1) digit_plain [OF k(2)] by (simp add: dropWhile_append)
  moreover have "hd (decimal n @ gap @ u) \<noteq> CHR ''-''" using k digit_plain [OF k(2)] by simp
  moreover have "strtoull (decimal n @ gap @ u) = (of_nat n, gap @ u, False)"
    using strtoull_decimal [of "[]"] assms by simp
  ultimately show ?thesis
    using assms(3,5) by (auto simp: rte_str_to_size_def unit_scale_scale)
qed

lemma is_digit_space: "\<not> is_digit b CHR '' ''"
  by (simp add: is_digit_def digit_value_def)

lemma mod_by_cases: "x = m mod k \<Longrightarrow> 0 < (k :: nat) \<Longrightarrow> x = m mod k \<and> (m < k \<longrightarrow> x = m) \<and> (k \<le> m \<longrightarrow> x < m)"
  by (metis mod_less mod_less_divisor order_less_le_trans)

text \<open>
  \<open>rte_str_to_size\<close> reads back a decimal number below 2^64 written after blanks, with an optional unit after at most
  one space, as the number times the unit, modulo 2^64: exactly where the product fits, and as a smaller size where it does
  not (which is not reported).
\<close>

theorem rte_str_to_size_roundtrip:
  assumes "\<forall>c \<in> set sp. c_isspace c" "n < 2 ^ 64" "gap \<in> {[], '' ''}"
    and "u \<in> {[], ''K'', ''k'', ''kB'', ''M'', ''m'', ''MB'', ''G'', ''g'', ''GB''}"
  shows "unat (rte_str_to_size (sp @ decimal n @ gap @ u)) = n * scale u mod 2 ^ 64 \<and>
    (n * scale u < 2 ^ 64 \<longrightarrow> unat (rte_str_to_size (sp @ decimal n @ gap @ u)) = n * scale u) \<and>
    (2 ^ 64 \<le> n * scale u \<longrightarrow> unat (rte_str_to_size (sp @ decimal n @ gap @ u)) < n * scale u)"
proof -
  have "ends_number n (gap @ u)" "u = [] \<or> hd u \<noteq> CHR '' ''"
    using assms(3,4) by (auto simp: ends_number_def is_digit_space is_digit_def digit_value_def)
  then have "rte_str_to_size (sp @ decimal n @ gap @ u) = of_nat (n * scale u)"
    using assms(1-3) by (intro rte_str_to_size_decimal) auto
  then have "unat (rte_str_to_size (sp @ decimal n @ gap @ u)) = n * scale u mod 2 ^ LENGTH(64)"
    by (simp only: unat_of_nat take_bit_eq_mod)
  then have "unat (rte_str_to_size (sp @ decimal n @ gap @ u)) = n * scale u mod 2 ^ 64"
    by (simp only: len_bit0 len_num1 mult_1_right num_double numeral_times_numeral)
  then show ?thesis by (rule mod_by_cases) simp
qed

theorem rte_str_to_size_roundtrip_witness:
  "unat (rte_str_to_size (''  '' @ decimal 2048 @ '' '' @ ''kB'')) = 2097152 \<and>
   unat (rte_str_to_size ([] @ decimal 17179869184 @ [] @ ''G'')) = 0"
  using rte_str_to_size_roundtrip [of "''  ''" 2048 "'' ''" "''kB''"] rte_str_to_size_roundtrip [of "[]" 17179869184 "[]" "''G''"]
  unfolding c_isspace_def scale_def by simp

lemma newline_ends: "ends_number n (CHR 0x0A # u)"
  by (simp add: ends_number_def is_digit_def digit_value_def)

lemma eal_parse_sysfs_value_decimal:
  assumes "n < 2 ^ 64"
  shows "eal_parse_sysfs_value (Some (decimal n @ CHR 0x0A # more)) = (0, Some (of_nat n))"
proof -
  have "n < 10 ^ 20" using assms by simp
  then have len: "length (decimal n) \<le> 20" by (rule length_decimal) simp
  have plain: "c \<noteq> NUL \<and> c \<noteq> CHR 0x0A" if "c \<in> set (decimal n)" for c
    using decimal_digits [OF that] digit_plain by auto
  then have "takeWhile (\<lambda>c. c \<noteq> CHR 0x0A) (decimal n @ CHR 0x0A # more) = decimal n"
    by (simp add: takeWhile_append2)
  then have "fgets BUFSIZ (decimal n @ CHR 0x0A # more) = Some (decimal n @ [CHR 0x0A], more)"
    using len by (simp add: fgets_def BUFSIZ_def)
  moreover have "c_string (decimal n @ [CHR 0x0A]) = decimal n @ [CHR 0x0A]"
    using plain by (simp add: c_string_def takeWhile_append2)
  moreover have "strtoull (decimal n @ [CHR 0x0A]) = (of_nat n, [CHR 0x0A], False)"
    using strtoull_decimal [of "[]"] assms newline_ends [of n "[]"] by simp
  ultimately show ?thesis by (simp add: eal_parse_sysfs_value_def)
qed

text \<open>
  C31: On a line that ends before the array does, \<open>rte_strsplit\<close> stores pointers to the fields of the line and cuts them off
  with \<open>NUL\<close>s (the last one allowed keeps the rest of the line) and returns their number; \<open>sh_strsplit\<close> does it for the fields
  that remain when leading and repeated delimiters are skipped.  On a line without an empty field the two agree.
\<close>

theorem strsplit_correct:
  assumes "NUL \<notin> set line" "length line < stringlen"
  shows "(\<exists>buf toks. rte_strsplit (Some (line @ NUL # rest)) stringlen maxtokens d = Some (int (length toks), buf, toks) \<and>
      strings_at buf toks = split_fields d maxtokens line) \<and>
    (\<exists>buf toks. sh_strsplit (Some (line @ NUL # rest)) stringlen maxtokens d = Some (int (length toks), buf, toks) \<and>
      strings_at buf toks = sh_split_fields d maxtokens line) \<and>
    ((line \<noteq> [] \<longrightarrow> hd line \<noteq> d) \<and> (\<forall>i. Suc i < length line \<longrightarrow> line ! i = d \<longrightarrow> line ! Suc i \<noteq> d) \<longrightarrow>
      sh_split_fields d maxtokens line = split_fields d maxtokens line)"
  using rte_strsplit_fields [OF assms] sh_strsplit_fields [OF assms] sh_fields_single [of line d maxtokens] by blast

theorem strsplit_correct_witness:
  "(\<exists>buf toks. rte_strsplit (Some (''a  b c d'' @ NUL # ''junk'')) 20 4 CHR '' '' = Some (int (length toks), buf, toks) \<and>
      strings_at buf toks = [''a'', [], ''b'', ''c d'']) \<and>
   (\<exists>buf toks. sh_strsplit (Some (''a  b c d'' @ NUL # ''junk'')) 20 4 CHR '' '' = Some (int (length toks), buf, toks) \<and>
      strings_at buf toks = [''a'', ''b'', ''c'', ''d''])"
proof -
  have "split_fields CHR '' '' 4 ''a  b c d'' = [''a'', [], ''b'', ''c d'']" "sh_split_fields CHR '' '' 4 ''a  b c d'' = [''a'', ''b'', ''c'', ''d'']"
    by code_simp+
  then show ?thesis
    using strsplit_correct [of "''a  b c d''" 20 "''junk''" 4 "CHR '' ''"] by simp
qed

end
