(* ===== verification/Eal_Lcore.thy ===== *)
theory Eal_Lcore
  imports Sh_Strings
begin

text \<open>
  The CPUs and NUMA nodes of the machine, as \<open>dpdk_eal/eal.c\<close> and \<open>dpdk_eal/eal_lcore.c\<close> find them in \<open>/sys\<close>.
  What is in \<open>/sys\<close> is a parameter.  Counters are at most 128 and are naturals; socket ids are kept at their width.
\<close>

definition RTE_MAX_LCORE :: nat where "RTE_MAX_LCORE = 128"
definition RTE_MAX_NUMA_NODES :: nat where "RTE_MAX_NUMA_NODES = 8"

text \<open>
  Whether \<open>node<socket>/cpu<lcore>\<close> and \<open>cpu<lcore>/topology/core_id\<close> exist, and the text of the latter when it can be
  opened.
\<close>

record sysfs =
  sys_node_cpu :: "nat \<Rightarrow> nat \<Rightarrow> bool"
  sys_core_file :: "nat \<Rightarrow> bool"
  sys_core_text :: "nat \<Rightarrow> string option"

record lcore_config =
  lc_detected :: nat
  lc_socket_id :: u32
  lc_core_id :: u32
  lc_core_index :: nat

record eal_config =
  ec_numa_node_count :: nat
  ec_numa_nodes :: "u32 list"
  ec_lcore_count :: nat
  ec_lcore_config :: "lcore_config list"

definition eal_cpu_detected :: "sysfs \<Rightarrow> nat \<Rightarrow> nat" where
  "eal_cpu_detected sys lcore_id = (if \<not> sys_core_file sys lcore_id then 0 else 1)"

fun socket_search :: "sysfs \<Rightarrow> nat \<Rightarrow> nat list \<Rightarrow> nat" where
  "socket_search sys lcore_id [] = 0"
| "socket_search sys lcore_id (socket # ss) =
     (if sys_node_cpu sys socket lcore_id then socket else socket_search sys lcore_id ss)"

definition eal_cpu_socket_id :: "sysfs \<Rightarrow> nat \<Rightarrow> u32" where
  "eal_cpu_socket_id sys lcore_id = of_nat (socket_search sys lcore_id [0..<RTE_MAX_NUMA_NODES])"

definition eal_cpu_core_id :: "sysfs \<Rightarrow> nat \<Rightarrow> u32" where
  "eal_cpu_core_id sys lcore_id =
     (case eal_parse_sysfs_value (sys_core_text sys lcore_id) of (r, val) \<Rightarrow> if r \<noteq> 0 then 0 else ucast (the val))"

text \<open>The first loop of \<open>eal_cpu_init\<close>, over the CPUs given, with the table of sockets.\<close>

fun scan_lcores :: "sysfs \<Rightarrow> nat list \<Rightarrow> eal_config \<Rightarrow> int list \<Rightarrow> eal_config \<times> int list" where
  "scan_lcores sys [] cfg tbl = (cfg, tbl)"
| "scan_lcores sys (lcore_id # ids) cfg tbl =
     (let socket_id = eal_cpu_socket_id sys lcore_id;
          core = (ec_lcore_config cfg ! lcore_id)\<lparr>lc_socket_id := socket_id, lc_detected := eal_cpu_detected sys lcore_id\<rparr> in
      if lc_detected core = 0
      then scan_lcores sys ids (cfg\<lparr>ec_lcore_config := (ec_lcore_config cfg)[lcore_id := core]\<rparr>) tbl
      else
        let core = core\<lparr>lc_core_id := eal_cpu_core_id sys lcore_id, lc_core_index := ec_lcore_count cfg\<rparr> in
        scan_lcores sys ids (cfg\<lparr>ec_lcore_config := (ec_lcore_config cfg)[lcore_id := core],
          ec_lcore_count := ec_lcore_count cfg + 1\<rparr>) (tbl[lcore_id := sint socket_id]))"

text \<open>The second loop; writing behind \<open>numa_nodes\<close> has no result.\<close>

fun collect_nodes :: "int list \<Rightarrow> u32 \<Rightarrow> eal_config \<Rightarrow> eal_config option" where
  "collect_nodes [] prev cfg = Some cfg"
| "collect_nodes (s # ss) prev cfg =
     (let socket_id = word_of_int s in
      if socket_id \<noteq> prev
      then if ec_numa_node_count cfg < length (ec_numa_nodes cfg)
        then collect_nodes ss socket_id (cfg\<lparr>ec_numa_nodes := (ec_numa_nodes cfg)[ec_numa_node_count cfg := socket_id],
          ec_numa_node_count := ec_numa_node_count cfg + 1\<rparr>)
        else None
      else collect_nodes ss socket_id cfg)"

text \<open>
  \<open>tbl\<close> is the array \<open>lcore_to_socket_id\<close> as it is found on the stack.  \<open>socket_id_cmp\<close> orders the numbers, so \<open>qsort\<close> sorts
  them.
\<close>

definition eal_cpu_init :: "sysfs \<Rightarrow> int list \<Rightarrow> eal_config \<Rightarrow> (int \<times> eal_config) option" where
  "eal_cpu_init sys tbl cfg =
     (let (cfg, tbl) = scan_lcores sys [0..<RTE_MAX_LCORE] (cfg\<lparr>ec_lcore_count := 0\<rparr>) tbl in
      if ec_lcore_count cfg = 0 then Some (- 1, cfg)
      else
        let tbl = sort (take (ec_lcore_count cfg) tbl) @ drop (ec_lcore_count cfg) tbl in
        do {
          cfg \<leftarrow> collect_nodes (take (ec_lcore_count cfg) tbl) (- 1) (cfg\<lparr>ec_numa_node_count := 0\<rparr>);
          Some (0, cfg) })"

definition rte_socket_count :: "eal_config \<Rightarrow> nat" where
  "rte_socket_count cfg = ec_numa_node_count cfg"

definition rte_socket_id_by_idx :: "eal_config \<Rightarrow> nat \<Rightarrow> int" where
  "rte_socket_id_by_idx cfg idx = (if idx \<ge> ec_numa_node_count cfg then - 1 else sint (ec_numa_nodes cfg ! idx))"

text \<open>A configuration has its arrays.\<close>

definition ec_ok :: "eal_config \<Rightarrow> bool" where
  "ec_ok cfg \<longleftrightarrow> length (ec_numa_nodes cfg) = RTE_MAX_NUMA_NODES \<and> length (ec_lcore_config cfg) = RTE_MAX_LCORE"

subsection \<open>The scan\<close>

lemma socket_search_mem: "socket_search sys i ss \<in> insert 0 (set ss)"
  by (induction ss) auto

lemma socket_id_less: "unat (eal_cpu_socket_id sys i) < 8"
  using socket_search_mem [of sys i "[0..<8]"]
  by (auto simp: eal_cpu_socket_id_def RTE_MAX_NUMA_NODES_def unat_of_nat take_bit_nat_eq_self_iff intro!: le_less_trans [OF take_bit_nat_less_eq_self])

lemma sint_socket_id: "sint (eal_cpu_socket_id sys i) = int (unat (eal_cpu_socket_id sys i))"
proof -
  have "unat (eal_cpu_socket_id sys i) < 2 ^ 31" using socket_id_less [of sys i] by simp
  then show ?thesis by (simp add: sint_eq_unat)
qed

lemma nth_updated: "j < length xs \<Longrightarrow> xs[i := x] ! j = (if i = j then x else xs ! j)"
  by (simp add: nth_list_update)

lemma detected_iff: "eal_cpu_detected sys i = 0 \<longleftrightarrow> \<not> sys_core_file sys i"
  by (simp add: eal_cpu_detected_def)

lemma scan_count: "ec_lcore_count (fst (scan_lcores sys ids cfg tbl)) = ec_lcore_count cfg + length (filter (sys_core_file sys) ids)"
  by (induction sys ids cfg tbl rule: scan_lcores.induct) (simp_all add: Let_def detected_iff)

lemma scan_nodes:
  "ec_numa_nodes (fst (scan_lcores sys ids cfg tbl)) = ec_numa_nodes cfg"
  "length (ec_lcore_config (fst (scan_lcores sys ids cfg tbl))) = length (ec_lcore_config cfg)"
  "length (snd (scan_lcores sys ids cfg tbl)) = length tbl"
  by (induction sys ids cfg tbl rule: scan_lcores.induct) (simp_all add: Let_def detected_iff)

lemma scan_table:
  "i < length tbl \<Longrightarrow> snd (scan_lcores sys ids cfg tbl) ! i =
    (if i \<in> set ids \<and> sys_core_file sys i then sint (eal_cpu_socket_id sys i) else tbl ! i)"
  by (induction sys ids cfg tbl rule: scan_lcores.induct) (auto simp add: Let_def detected_iff nth_updated)

lemma scan_core_other:
  "i \<notin> set ids \<Longrightarrow> ec_lcore_config (fst (scan_lcores sys ids cfg tbl)) ! i = ec_lcore_config cfg ! i"
  by (induction sys ids cfg tbl rule: scan_lcores.induct) (simp_all add: Let_def detected_iff nth_updated)

lemma scan_core:
  assumes "distinct ids" "i \<in> set ids" "i < length (ec_lcore_config cfg)"
  shows "ec_lcore_config (fst (scan_lcores sys ids cfg tbl)) ! i =
    (let core = (ec_lcore_config cfg ! i)\<lparr>lc_socket_id := eal_cpu_socket_id sys i, lc_detected := eal_cpu_detected sys i\<rparr> in
     if sys_core_file sys i then core\<lparr>lc_core_id := eal_cpu_core_id sys i,
       lc_core_index := ec_lcore_count cfg + length (filter (sys_core_file sys) (takeWhile (\<lambda>j. j \<noteq> i) ids))\<rparr>
     else core)"
  using assms
  by (induction sys ids cfg tbl rule: scan_lcores.induct)
    (auto simp add: Let_def detected_iff nth_updated scan_core_other)


subsection \<open>The collection\<close>

text \<open>The numbers of a list that differ from the one before them.\<close>

fun changes :: "u32 \<Rightarrow> int list \<Rightarrow> u32 list" where
  "changes prev [] = []"
| "changes prev (s # ss) = (if word_of_int s \<noteq> prev then word_of_int s # changes (word_of_int s) ss else changes prev ss)"

lemma collect_nodes_changes:
  "ec_numa_node_count cfg \<le> length (ec_numa_nodes cfg) \<Longrightarrow>
    collect_nodes ss prev cfg =
      (if ec_numa_node_count cfg + length (changes prev ss) \<le> length (ec_numa_nodes cfg)
       then Some (cfg\<lparr>ec_numa_node_count := ec_numa_node_count cfg + length (changes prev ss),
         ec_numa_nodes := take (ec_numa_node_count cfg) (ec_numa_nodes cfg) @ changes prev ss @
           drop (ec_numa_node_count cfg + length (changes prev ss)) (ec_numa_nodes cfg)\<rparr>)
       else None)"
proof (induction ss prev cfg rule: collect_nodes.induct)
  case (2 s ss prev cfg)
  then show ?case
    by (auto simp: Let_def take_Suc_conv_app_nth upd_conv_take_nth_drop ac_simps)
qed simp

lemma changes_mem: "s \<in> set ss \<Longrightarrow> word_of_int s \<noteq> prev \<Longrightarrow> word_of_int s \<in> set (changes prev ss)"
  by (induction ss arbitrary: prev) auto

lemma changes_sorted:
  assumes "sorted (p # ss)" "\<forall>s \<in> set (p # ss). 0 \<le> s \<and> s < 2 ^ 31"
  shows "map uint (changes (word_of_int p) ss) = sorted_list_of_set (set ss - {p})"
  using assms
proof (induction ss arbitrary: p)
  case (Cons s ss)
  have u: "uint (word_of_int s :: u32) = s" "uint (word_of_int p :: u32) = p"
    using Cons.prems(2) by (auto simp: unsigned_of_int take_bit_int_eq_self_iff)
  then have "(word_of_int s :: u32) = word_of_int p \<longleftrightarrow> s = p" by metis
  moreover have "map uint (changes (word_of_int s) ss) = sorted_list_of_set (set ss - {s})"
    using Cons.prems by (intro Cons.IH) auto
  moreover have "s \<noteq> p \<Longrightarrow> set (s # ss) - {p} = insert s (set ss - {s})" using Cons.prems(1) by auto
  moreover have "sorted_list_of_set (insert s (set ss - {s})) = s # sorted_list_of_set (set ss - {s})"
    using Cons.prems(1) by (intro sorted_list_of_set_nonempty [THEN trans]) (auto simp: Min_insert2)
  ultimately show ?case using u by auto
qed simp

lemma changes_first:
  assumes "sorted ss" "\<forall>s \<in> set ss. 0 \<le> s \<and> s < 2 ^ 31"
  shows "map uint (changes (- 1) ss) = sorted_list_of_set (set ss)"
proof (cases ss)
  case (Cons s ss')
  have u: "uint (word_of_int s :: u32) = s"
    using assms Cons by (auto simp: unsigned_of_int take_bit_int_eq_self_iff)
  moreover have "uint (- 1 :: u32) = 4294967295" by (simp add: unsigned_minus_1_eq_mask mask_eq_exp_minus_1)
  moreover have "s < 2 ^ 31" using assms Cons by simp
  ultimately have ne: "(word_of_int s :: u32) \<noteq> - 1" by auto
  have "sorted_list_of_set (set ss) = s # sorted_list_of_set (set ss' - {s})"
    using assms(1) Cons by (intro sorted_list_of_set_nonempty [THEN trans]) (auto simp: Min_insert2)
  then show ?thesis using Cons u ne changes_sorted [of s ss'] assms by simp
qed simp


subsection \<open>\<open>eal_cpu_init\<close>\<close>

definition lcore_ids :: "nat list" where "lcore_ids = [0..<RTE_MAX_LCORE]"

text \<open>The table after the scan, and the sockets of the CPUs below \<open>n\<close>.\<close>

definition scanned :: "sysfs \<Rightarrow> int list \<Rightarrow> int list" where
  "scanned sys tbl = map (\<lambda>i. if sys_core_file sys i then sint (eal_cpu_socket_id sys i) else tbl ! i) lcore_ids"

lemma scan_scanned:
  assumes "length tbl = RTE_MAX_LCORE"
  shows "snd (scan_lcores sys lcore_ids cfg tbl) = scanned sys tbl"
  using assms by (intro nth_equalityI) (auto simp: scanned_def lcore_ids_def scan_nodes scan_table)

lemma eal_cpu_init_changes:
  assumes ok: "ec_ok cfg" and tbl: "length tbl = RTE_MAX_LCORE"
    and n: "n = length (filter (sys_core_file sys) lcore_ids)" "0 < n"
    and cs: "cs = changes (- 1) (sort (take n (scanned sys tbl)))"
  shows "eal_cpu_init sys tbl cfg =
    (if length cs \<le> RTE_MAX_NUMA_NODES
     then Some (0, (fst (scan_lcores sys lcore_ids (cfg\<lparr>ec_lcore_count := 0\<rparr>) tbl))\<lparr>ec_numa_node_count := length cs,
       ec_numa_nodes := cs @ drop (length cs) (ec_numa_nodes cfg)\<rparr>)
     else None)"
proof -
  obtain cfg' tbl' where sc: "scan_lcores sys lcore_ids (cfg\<lparr>ec_lcore_count := 0\<rparr>) tbl = (cfg', tbl')" by fastforce
  have "ec_lcore_count cfg' = n" "ec_numa_nodes cfg' = ec_numa_nodes cfg"
    using scan_count [of sys lcore_ids "cfg\<lparr>ec_lcore_count := 0\<rparr>" tbl] scan_nodes [of sys lcore_ids "cfg\<lparr>ec_lcore_count := 0\<rparr>" tbl] sc n
    by auto
  moreover have "tbl' = scanned sys tbl"
    using scan_scanned [OF tbl, of sys "cfg\<lparr>ec_lcore_count := 0\<rparr>"] sc by simp
  moreover have "n \<le> length (scanned sys tbl)"
    using n length_filter_le [of "sys_core_file sys" lcore_ids] by (simp add: scanned_def)
  ultimately show ?thesis
    using n ok cs by (simp add: eal_cpu_init_def lcore_ids_def [symmetric] sc collect_nodes_changes ec_ok_def)
qed

lemma length_changes_le:
  "sorted ss \<Longrightarrow> set ss \<subseteq> {0..<8} \<Longrightarrow> length (changes (- 1) ss) = card (set ss) \<and> card (set ss) \<le> 8"
proof -
  assume a: "sorted ss" "set ss \<subseteq> {0..<8}"
  then have "map uint (changes (- 1) ss) = sorted_list_of_set (set ss)" by (intro changes_first) auto
  then have "length (changes (- 1) ss) = card (set ss)" by (metis length_map length_sorted_list_of_set)
  moreover have "card (set ss) \<le> card {0..<8 :: int}" using a by (intro card_mono) auto
  ultimately show ?thesis by simp
qed

lemma filter_all_below: "(\<And>i. i < m \<Longrightarrow> P i \<longleftrightarrow> i < n) \<Longrightarrow> n \<le> m \<Longrightarrow> filter P [0..<m] = [0..<n]"
proof -
  assume a: "\<And>i. i < m \<Longrightarrow> P i \<longleftrightarrow> i < n" "n \<le> m"
  then have "[0..<m] = [0..<n] @ [n..<m]" by (metis le_add_diff_inverse upt_add_eq_append zero_le)
  then show ?thesis using a by (simp add: filter_empty_conv)
qed

lemma sint_socket_range: "sint (eal_cpu_socket_id sys i) \<in> {0..<8}"
proof -
  have "int (unat (eal_cpu_socket_id sys i)) < int 8" using socket_id_less [of sys i] by (simp only: of_nat_less_iff)
  then show ?thesis using sint_socket_id [of sys i] by simp
qed

lemma takeWhile_first: "i < m \<Longrightarrow> takeWhile (\<lambda>j. j \<noteq> i) [0..<m] = [0..<i]"
proof -
  assume "i < m"
  then have "[0..<m] = [0..<i] @ i # [Suc i..<m]" by (metis le_add_diff_inverse less_imp_le upt_add_eq_append upt_conv_Cons zero_le)
  then show ?thesis by (simp add: takeWhile_append)
qed

lemma scan_core_below:
  assumes ok: "ec_ok cfg" and n: "n \<le> RTE_MAX_LCORE" and i: "i < RTE_MAX_LCORE"
    and cpus: "\<And>i. i < RTE_MAX_LCORE \<Longrightarrow> sys_core_file sys i \<longleftrightarrow> i < n"
    and core: "core = ec_lcore_config (fst (scan_lcores sys lcore_ids (cfg\<lparr>ec_lcore_count := 0\<rparr>) tbl)) ! i"
  shows "lc_detected core = (if i < n then 1 else 0) \<and> lc_socket_id core = eal_cpu_socket_id sys i \<and>
    (i < n \<longrightarrow> lc_core_id core = eal_cpu_core_id sys i \<and> lc_core_index core = i)"
proof -
  have "filter (sys_core_file sys) [0..<i] = [0..<i]" if "i < n"
    using that i cpus by (intro filter_all_below) auto
  then show ?thesis
    using scan_core [of lcore_ids i "cfg\<lparr>ec_lcore_count := 0\<rparr>" sys tbl] ok i cpus [OF i] unfolding core
    by (auto simp: lcore_ids_def ec_ok_def Let_def takeWhile_first eal_cpu_detected_def)
qed

lemma eal_cpu_init_below:
  assumes ok: "ec_ok cfg" and tbl: "length tbl = RTE_MAX_LCORE"
    and n: "0 < n" "n \<le> RTE_MAX_LCORE" and cpus: "\<And>i. i < RTE_MAX_LCORE \<Longrightarrow> sys_core_file sys i \<longleftrightarrow> i < n"
    and S: "S = (\<lambda>i. sint (eal_cpu_socket_id sys i)) ` {..<n}"
  shows "\<exists>cfg'. eal_cpu_init sys tbl cfg = Some (0, cfg') \<and> ec_ok cfg' \<and> ec_lcore_count cfg' = n \<and>
    rte_socket_count cfg' = card S \<and>
    map (rte_socket_id_by_idx cfg') [0..<rte_socket_count cfg'] = sorted_list_of_set S \<and>
    (\<forall>idx \<ge> rte_socket_count cfg'. rte_socket_id_by_idx cfg' idx = - 1) \<and>
    (\<forall>i < RTE_MAX_LCORE. lc_detected (ec_lcore_config cfg' ! i) = (if i < n then 1 else 0) \<and>
      lc_socket_id (ec_lcore_config cfg' ! i) = eal_cpu_socket_id sys i \<and>
      (i < n \<longrightarrow> lc_core_id (ec_lcore_config cfg' ! i) = eal_cpu_core_id sys i \<and> lc_core_index (ec_lcore_config cfg' ! i) = i))"
proof -
  define cfg' where "cfg' = fst (scan_lcores sys lcore_ids (cfg\<lparr>ec_lcore_count := 0\<rparr>) tbl)"
  define ss where "ss = map (\<lambda>i. sint (eal_cpu_socket_id sys i)) [0..<n]"
  define cs where "cs = changes (- 1) (sort ss)"
  have few: "filter (sys_core_file sys) lcore_ids = [0..<n]"
    unfolding lcore_ids_def using cpus n by (intro filter_all_below) auto
  have "take n (scanned sys tbl) = ss"
    using n cpus by (intro nth_equalityI) (auto simp: ss_def scanned_def lcore_ids_def)
  note init = eal_cpu_init_changes [OF ok tbl, of n sys cs, unfolded few this, folded cs_def, OF _ n(1) refl]
  have S': "set (sort ss) = S" "S \<subseteq> {0..<8}"
    using sint_socket_range [of sys] by (auto simp: ss_def S atLeast0LessThan)
  have len: "length cs = card S" "card S \<le> 8"
    using length_changes_le [of "sort ss"] S' by (auto simp: cs_def)
  have cs: "map uint cs = sorted_list_of_set S"
    unfolding cs_def S'(1) [symmetric] using S' by (intro changes_first) auto
  have "uint c = sint c" if "c \<in> set cs" for c
  proof -
    have "finite S" using S'(2) finite_subset by blast
    moreover have "uint c \<in> set (map uint cs)" using that by simp
    ultimately have "uint c \<in> S" unfolding cs by simp
    then have "uint c < 8" using S'(2) by (meson atLeastLessThan_iff subsetD)
    then have "int (unat c) < int 8" by simp
    then have "unat c < 8" by (simp only: of_nat_less_iff)
    then show ?thesis using sint_eq_unat [of c] by simp
  qed
  then have "map sint cs = sorted_list_of_set S" using cs by (metis map_cong)
  moreover define c where "c = cfg'\<lparr>ec_numa_node_count := length cs, ec_numa_nodes := cs @ drop (length cs) (ec_numa_nodes cfg)\<rparr>"
  moreover have "map (rte_socket_id_by_idx c) [0..<rte_socket_count c] = map sint cs"
    by (intro nth_equalityI) (auto simp: c_def rte_socket_id_by_idx_def rte_socket_count_def nth_append)
  moreover have "eal_cpu_init sys tbl cfg = Some (0, c)"
    using init len by (simp add: c_def cfg'_def RTE_MAX_NUMA_NODES_def)
  moreover have "ec_ok c" using ok len scan_nodes [of sys lcore_ids "cfg\<lparr>ec_lcore_count := 0\<rparr>" tbl]
    by (simp add: ec_ok_def c_def cfg'_def RTE_MAX_NUMA_NODES_def)
  moreover have "ec_lcore_count c = n" by (simp add: c_def cfg'_def scan_count few)
  moreover have "ec_lcore_config c = ec_lcore_config cfg'" by (simp add: c_def)
  moreover have "\<forall>idx \<ge> rte_socket_count c. rte_socket_id_by_idx c idx = - 1"
    by (simp add: rte_socket_count_def rte_socket_id_by_idx_def)
  ultimately show ?thesis
    using len scan_core_below [OF ok n(2) _ cpus refl, of _ tbl, folded cfg'_def]
    by (intro exI [of _ c]) (simp add: rte_socket_count_def c_def)
qed

text \<open>
  C12: When the CPUs the kernel shows are \<open>0 \<dots> n - 1\<close> (of at most 128), \<open>eal_cpu_init\<close> succeeds whatever was on the stack: it
  counts them, gives each its socket, core and index, and the NUMA nodes \<open>rte_socket_count\<close> and \<open>rte_socket_id_by_idx\<close> report
  are the sockets of these CPUs, each once and in ascending order; an index behind them is answered by -1.
\<close>

theorem eal_cpu_init_correct:
  assumes ok: "ec_ok cfg" and tbl: "length tbl = RTE_MAX_LCORE"
    and n: "0 < n" "n \<le> RTE_MAX_LCORE" and cpus: "\<And>i. i < RTE_MAX_LCORE \<Longrightarrow> sys_core_file sys i \<longleftrightarrow> i < n"
    and S: "S = (\<lambda>i. sint (eal_cpu_socket_id sys i)) ` {..<n}"
  shows "\<exists>cfg'. eal_cpu_init sys tbl cfg = Some (0, cfg') \<and> ec_ok cfg' \<and> ec_lcore_count cfg' = n \<and>
    rte_socket_count cfg' = card S \<and>
    map (rte_socket_id_by_idx cfg') [0..<rte_socket_count cfg'] = sorted_list_of_set S \<and>
    (\<forall>idx \<ge> rte_socket_count cfg'. rte_socket_id_by_idx cfg' idx = - 1) \<and>
    (\<forall>i < RTE_MAX_LCORE. lc_detected (ec_lcore_config cfg' ! i) = (if i < n then 1 else 0) \<and>
      lc_socket_id (ec_lcore_config cfg' ! i) = eal_cpu_socket_id sys i \<and>
      (i < n \<longrightarrow> lc_core_id (ec_lcore_config cfg' ! i) = eal_cpu_core_id sys i \<and> lc_core_index (ec_lcore_config cfg' ! i) = i))"
  by (rule eal_cpu_init_below [OF ok tbl n cpus S])

definition four_cpus :: sysfs where
  "four_cpus = \<lparr>sys_node_cpu = (\<lambda>s c. s = c mod 2), sys_core_file = (\<lambda>c. c < 4), sys_core_text = (\<lambda>c. Some (decimal c @ [CHR 0x0A]))\<rparr>"

definition blank_config :: eal_config where
  "blank_config = \<lparr>ec_numa_node_count = 0, ec_numa_nodes = replicate 8 0, ec_lcore_count = 0,
     ec_lcore_config = replicate 128 \<lparr>lc_detected = 0, lc_socket_id = 0, lc_core_id = 0, lc_core_index = 0\<rparr>\<rparr>"

lemma four_sockets: "(\<lambda>i. sint (eal_cpu_socket_id four_cpus i)) ` {..<4} = {0, 1}"
  by (simp add: lessThan_nat_numeral lessThan_Suc eal_cpu_socket_id_def four_cpus_def RTE_MAX_NUMA_NODES_def upt_rec insert_commute)

theorem eal_cpu_init_correct_witness:
  "\<exists>cfg'. eal_cpu_init four_cpus (replicate 128 77) blank_config = Some (0, cfg') \<and> ec_lcore_count cfg' = 4 \<and>
    map (rte_socket_id_by_idx cfg') [0..<rte_socket_count cfg'] = [0, 1]"
proof -
  have "ec_ok blank_config" by (simp add: ec_ok_def blank_config_def RTE_MAX_LCORE_def RTE_MAX_NUMA_NODES_def)
  from eal_cpu_init_correct [OF this, of "replicate 128 77" 4 four_cpus, OF _ _ _ _ refl, unfolded four_sockets]
  show ?thesis by (auto simp: RTE_MAX_LCORE_def four_cpus_def)
qed

lemma eal_cpu_init_none:
  "\<lbrakk>ec_ok cfg; \<And>i. i < RTE_MAX_LCORE \<Longrightarrow> \<not> sys_core_file sys i\<rbrakk> \<Longrightarrow> map_option fst (eal_cpu_init sys tbl cfg) = Some (- 1)"
  using scan_count [of sys lcore_ids "cfg\<lparr>ec_lcore_count := 0\<rparr>" tbl]
  by (auto simp: eal_cpu_init_def lcore_ids_def filter_empty_conv split: prod.splits)

lemma eal_cpu_init_status:
  "eal_cpu_init sys tbl cfg = Some (r, cfg') \<Longrightarrow> 0 < length (filter (sys_core_file sys) [0..<RTE_MAX_LCORE]) \<Longrightarrow> r = 0"
  using scan_count [of sys lcore_ids "cfg\<lparr>ec_lcore_count := 0\<rparr>" tbl]
  by (auto simp: eal_cpu_init_def lcore_ids_def filter_empty_conv split: prod.splits if_splits Option.bind_splits)

lemma eal_cpu_init_garbage:
  assumes "ec_ok cfg" "length tbl = RTE_MAX_LCORE" "i < length (filter (sys_core_file sys) [0..<RTE_MAX_LCORE])"
    and "\<not> sys_core_file sys i" "word_of_int (tbl ! i) \<noteq> (- 1 :: u32)"
    and "eal_cpu_init sys tbl cfg = Some (r, cfg')"
  shows "r = 0 \<and> word_of_int (tbl ! i) \<in> set (take (rte_socket_count cfg') (ec_numa_nodes cfg')) \<and>
    length (ec_numa_nodes cfg') = RTE_MAX_NUMA_NODES"
proof -
  define n where "n = length (filter (sys_core_file sys) lcore_ids)"
  define cs where "cs = changes (- 1) (sort (take n (scanned sys tbl)))"
  have "n \<le> RTE_MAX_LCORE" using length_filter_le [of "sys_core_file sys" lcore_ids] by (simp add: n_def lcore_ids_def)
  then have "i < RTE_MAX_LCORE" "i < n" using assms by (auto simp: n_def lcore_ids_def)
  then have "take n (scanned sys tbl) ! i = tbl ! i" "i < length (take n (scanned sys tbl))"
    using assms by (auto simp: scanned_def lcore_ids_def)
  then have "tbl ! i \<in> set (take n (scanned sys tbl))" by (metis nth_mem)
  then have "word_of_int (tbl ! i) \<in> set cs" unfolding cs_def using assms by (intro changes_mem) auto
  then show ?thesis
    using eal_cpu_init_changes [OF assms(1,2) n_def _ cs_def] \<open>i < n\<close> assms
    by (auto simp: rte_socket_count_def ec_ok_def split: if_splits)
qed

lemma eal_cpu_init_overflow:
  assumes "ec_ok cfg" "length tbl = RTE_MAX_LCORE" "0 < length (filter (sys_core_file sys) [0..<RTE_MAX_LCORE])"
    and "\<And>s. s \<in> G \<Longrightarrow> word_of_int s \<noteq> (- 1 :: u32) \<and>
      (\<exists>i < length (filter (sys_core_file sys) [0..<RTE_MAX_LCORE]). \<not> sys_core_file sys i \<and> tbl ! i = s)"
    and "RTE_MAX_NUMA_NODES < card ((word_of_int :: int \<Rightarrow> u32) ` G)"
  shows "eal_cpu_init sys tbl cfg = None"
proof (rule ccontr)
  assume "eal_cpu_init sys tbl cfg \<noteq> None"
  then obtain r cfg' where cfg': "eal_cpu_init sys tbl cfg = Some (r, cfg')" by auto
  let ?ns = "take (rte_socket_count cfg') (ec_numa_nodes cfg')"
  note garbage = eal_cpu_init_garbage [OF assms(1,2) _ _ _ cfg']
  have "word_of_int ` G \<subseteq> set ?ns" using garbage assms(4) by fastforce
  then have "card ((word_of_int :: int \<Rightarrow> u32) ` G) \<le> length ?ns"
    by (meson List.finite_set card_length card_mono le_trans)
  moreover have "G \<noteq> {}" using assms(5) by auto
  then have "length (ec_numa_nodes cfg') = RTE_MAX_NUMA_NODES" using garbage assms(4) by fastforce
  ultimately show False using assms(5) by simp
qed

text \<open>
  C36: When a CPU below the number of detected ones is missing (a hole, as when one is offline), its entry of the array of
  sockets was never written: whatever number the stack held there becomes one of the NUMA nodes \<open>eal_cpu_init\<close> reports with
  success (the number -1 excepted), and with more than eight holes there are stack contents for which it writes behind
  \<open>numa_nodes\<close>.
\<close>

theorem eal_cpu_init_hole:
  assumes "ec_ok cfg" "length tbl = RTE_MAX_LCORE" and n: "n = length (filter (sys_core_file sys) [0..<RTE_MAX_LCORE])"
    and i: "i < n" "\<not> sys_core_file sys i"
  shows "(\<forall>r cfg'. eal_cpu_init sys tbl cfg = Some (r, cfg') \<longrightarrow>
      r = 0 \<and> word_of_int (tbl ! i) \<in> insert (- 1) (set (take (rte_socket_count cfg') (ec_numa_nodes cfg')))) \<and>
    (RTE_MAX_NUMA_NODES < card {i. i < n \<and> \<not> sys_core_file sys i} \<longrightarrow>
      (\<exists>tbl'. length tbl' = RTE_MAX_LCORE \<and> eal_cpu_init sys tbl' cfg = None))"
proof (intro conjI impI allI)
  fix r cfg' assume "eal_cpu_init sys tbl cfg = Some (r, cfg')"
  then show "r = 0" "word_of_int (tbl ! i) \<in> insert (- 1) (set (take (rte_socket_count cfg') (ec_numa_nodes cfg')))"
    using eal_cpu_init_garbage [OF assms(1,2), of i sys r cfg'] eal_cpu_init_status [of sys tbl cfg] n i by fastforce+
next
  let ?holes = "{i. i < n \<and> \<not> sys_core_file sys i}" and ?tbl = "map int [0..<RTE_MAX_LCORE]"
  assume many: "RTE_MAX_NUMA_NODES < card ?holes"
  have n128: "n \<le> 128" using n length_filter_le [of "sys_core_file sys" "[0..<RTE_MAX_LCORE]"] by (simp add: RTE_MAX_LCORE_def)
  have small: "uint (word_of_int (int j) :: u32) = int j" if "j < n" for j
    using that n128 by (simp add: unsigned_of_nat take_bit_nat_eq_self_iff)
  then have "inj_on (\<lambda>j. word_of_int (int j) :: u32) ?holes" by (intro inj_onI) (metis (no_types, lifting) mem_Collect_eq of_nat_eq_iff)
  then have "card ((word_of_int :: int \<Rightarrow> u32) ` int ` ?holes) = card ?holes" by (simp add: card_image image_image)
  moreover have "uint (- 1 :: u32) = 4294967295" by (simp add: unsigned_minus_1_eq_mask mask_eq_exp_minus_1)
  then have "word_of_int (int j) \<noteq> (- 1 :: u32)" if "j < n" for j using small [OF that] that n128 by auto
  ultimately have "eal_cpu_init sys ?tbl cfg = None"
    using assms many n128
    by (intro eal_cpu_init_overflow [where G = "int ` ?holes"]) (auto simp: RTE_MAX_LCORE_def)
  then show "\<exists>tbl'. length tbl' = RTE_MAX_LCORE \<and> eal_cpu_init sys tbl' cfg = None"
    by (intro exI [of _ ?tbl]) simp
qed

definition second_offline :: sysfs where
  "second_offline = four_cpus\<lparr>sys_core_file := (\<lambda>c. c < 4 \<and> c \<noteq> 1)\<rparr>"

lemma length_changes: "length (changes prev ss) \<le> length ss"
  by (induction ss arbitrary: prev) (auto simp: le_SucI)

theorem eal_cpu_init_hole_witness:
  "\<exists>cfg'. eal_cpu_init second_offline (replicate 128 77) blank_config = Some (0, cfg') \<and>
    77 \<in> set (take (rte_socket_count cfg') (ec_numa_nodes cfg'))"
proof -
  have ok: "ec_ok blank_config" by (simp add: ec_ok_def blank_config_def RTE_MAX_LCORE_def RTE_MAX_NUMA_NODES_def)
  have len: "length (replicate 128 77 :: int list) = RTE_MAX_LCORE" by (simp add: RTE_MAX_LCORE_def)
  have n: "3 = length (filter (sys_core_file second_offline) [0..<RTE_MAX_LCORE])"
    by (simp add: RTE_MAX_LCORE_def second_offline_def upt_rec)
  define cs where "cs = changes (- 1) (sort (take 3 (scanned second_offline (replicate 128 77))))"
  have "length cs \<le> 3" using length_changes [of "- 1" "sort (take 3 (scanned second_offline (replicate 128 77)))"] by (simp add: cs_def)
  then obtain cfg' where "eal_cpu_init second_offline (replicate 128 77) blank_config = Some (0, cfg')"
    using eal_cpu_init_changes [OF ok len n [folded lcore_ids_def] _ cs_def] by (simp add: RTE_MAX_NUMA_NODES_def)
  then show ?thesis
    using eal_cpu_init_hole [OF ok len n, of 1] by (simp add: second_offline_def)
qed

end
