(* ===== verification/Mem_Hugepage.thy ===== *)
theory Mem_Hugepage
  imports Sh_Strings Eal_Lcore "HOL-Library.Multiset"
begin

text \<open>
  The huge pages of the machine, as \<open>dpdk_eal/mem_hugepage.c\<close> and the older \<open>dpdk_mem/mem.h\<close> find them.  The files and
  directories, the descriptors and the locks are parameters.  \<open>rte_panic\<close> ends the program; an access outside an array or
  reading from a null stream is \<open>Undefined\<close>.
\<close>

datatype 'a run = Returned 'a | Panicked | Undefined

definition of_option :: "'a option \<Rightarrow> 'a run" where
  "of_option r = (case r of None \<Rightarrow> Undefined | Some x \<Rightarrow> Returned x)"

text \<open>
  The contents of a file that can be opened, the entries of a directory, the descriptor \<open>open\<close> gives (negative when it
  fails), whether \<open>flock\<close> succeeds on a descriptor, and for a file in a directory whether it can be opened and locked.
\<close>

record hp_sys =
  hs_file :: "string \<Rightarrow> string option"
  hs_dir :: "string \<Rightarrow> string list option"
  hs_open :: "string \<Rightarrow> int"
  hs_flock :: "int \<Rightarrow> bool"
  hs_openat :: "string \<Rightarrow> string \<Rightarrow> bool"
  hs_flockat :: "string \<Rightarrow> string \<Rightarrow> bool"

definition sys_dir_path :: string where "sys_dir_path = ''/sys/kernel/mm/hugepages''"
definition sys_pages_numa_dir_path :: string where "sys_pages_numa_dir_path = ''/sys/devices/system/node''"
definition PATH_MAX :: nat where "PATH_MAX = 4096"
definition MAX_HUGEPAGE_SIZES :: nat where "MAX_HUGEPAGE_SIZES = 3"
definition UINT32_MAX :: u64 where "UINT32_MAX = 4294967295"

text \<open>\<open>snprintf\<close> into an array of \<open>n\<close> characters, for a string already formatted.\<close>

definition snprintf :: "nat \<Rightarrow> string \<Rightarrow> string" where
  "snprintf n s = take (n - 1) s"

record hugepage_info =
  hi_hugepage_sz :: u64
  hi_hugedir :: string
  hi_numa_node_count :: nat
  hi_num_pages :: "u32 list"
  hi_lock_descriptor :: int

record hugepage_conf =
  hc_num_hugepage_sizes :: nat
  hc_hugepage_info :: "hugepage_info list"

subsection \<open>Where the pages of a size are mounted\<close>

lemma fgets_shorter: "fgets n f = Some (line, rest) \<Longrightarrow> 1 < n \<Longrightarrow> length rest < length f"
  by (cases f) (auto simp: fgets_def Let_def split: if_splits)

function meminfo_loop :: "string \<Rightarrow> u64" where
  "meminfo_loop file =
     (case fgets 256 file of
        None \<Rightarrow> 0
      | Some (buffer, rest) \<Rightarrow>
          if starts_with ''Hugepagesize:'' (c_string buffer) then rte_str_to_size (drop 13 (c_string buffer))
          else meminfo_loop rest)"
  by pat_completeness auto
termination by (relation "measure length") (auto intro: fgets_shorter)

definition get_default_hp_size :: "hp_sys \<Rightarrow> u64 run" where
  "get_default_hp_size sys =
     (case hs_file sys ''/proc/meminfo'' of
        None \<Rightarrow> Panicked
      | Some fd \<Rightarrow> let sz = meminfo_loop fd in if sz = 0 then Panicked else Returned sz)"

text \<open>What is done with the four fields of a line: the directory, when the page size is the one asked for.\<close>

definition mount_dir :: "u64 \<Rightarrow> u64 \<Rightarrow> nat \<Rightarrow> char list \<Rightarrow> nat list \<Rightarrow> string option" where
  "mount_dir default_size hugepage_sz len buf splitstr =
     (if starts_with ''hugetlbfs'' (c_string (drop (splitstr ! 2) buf))
      then (case strstr (c_string (drop (splitstr ! 3) buf)) ''pagesize='' of
          None \<Rightarrow> if hugepage_sz = default_size then Some (snprintf len (c_string (drop (splitstr ! 1) buf))) else None
        | Some pagesz_str \<Rightarrow>
            let pagesz = rte_str_to_size (drop 9 pagesz_str) in
            if pagesz = hugepage_sz then Some (snprintf len (c_string (drop (splitstr ! 1) buf))) else None)
      else None)"

function mounts_loop :: "u64 \<Rightarrow> u64 \<Rightarrow> nat \<Rightarrow> string \<Rightarrow> (int \<times> string option) option" where
  "mounts_loop default_size hugepage_sz len fd =
     (case fgets BUFSIZ fd of
        None \<Rightarrow> Some (- 1, None)
      | Some (line, rest) \<Rightarrow> do {
          (n, buf, splitstr) \<leftarrow> rte_strsplit (Some (line @ [NUL])) BUFSIZ 4 CHR '' '';
          if n \<noteq> 4 then Some (- 1, None)
          else
            (case mount_dir default_size hugepage_sz len buf splitstr of
               Some hugedir \<Rightarrow> Some (0, Some hugedir)
             | None \<Rightarrow> mounts_loop default_size hugepage_sz len rest) })"
  by pat_completeness auto
termination by (relation "measure (\<lambda>(_, _, _, fd). length fd)") (auto intro: fgets_shorter simp: BUFSIZ_def)

text \<open>The result, the directory when it is written, and the static \<open>default_size\<close> afterwards.\<close>

definition get_hugepage_dir :: "hp_sys \<Rightarrow> u64 \<Rightarrow> u64 \<Rightarrow> nat \<Rightarrow> (int \<times> string option \<times> u64) run" where
  "get_hugepage_dir sys default_size hugepage_sz len =
     (case hs_file sys ''/proc/mounts'' of
        None \<Rightarrow> Panicked
      | Some fd \<Rightarrow>
          (case (if default_size = 0 then get_default_hp_size sys else Returned default_size) of
             Returned default_size \<Rightarrow>
               of_option (map_option (\<lambda>(r, dir). (r, dir, default_size)) (mounts_loop default_size hugepage_sz len fd))
           | Panicked \<Rightarrow> Panicked
           | Undefined \<Rightarrow> Undefined))"

text \<open>The older versions return instead of ending the program, and the first reads on when there is no stream.\<close>

definition mem_get_default_hp_size :: "hp_sys \<Rightarrow> u64" where
  "mem_get_default_hp_size sys = (case hs_file sys ''/proc/meminfo'' of None \<Rightarrow> 0 | Some fd \<Rightarrow> meminfo_loop fd)"

function mem_mounts_loop :: "u64 \<Rightarrow> u64 \<Rightarrow> nat \<Rightarrow> string \<Rightarrow> (int \<times> string option) option" where
  "mem_mounts_loop default_size hugepage_sz len fd =
     (case fgets BUFSIZ fd of
        None \<Rightarrow> Some (- 1, None)
      | Some (line, rest) \<Rightarrow> do {
          (n, buf, splitstr) \<leftarrow> sh_strsplit (Some (line @ [NUL])) BUFSIZ 4 CHR '' '';
          if n \<noteq> 4 then Some (- 1, None)
          else
            (case mount_dir default_size hugepage_sz len buf splitstr of
               Some hugedir \<Rightarrow> Some (0, Some hugedir)
             | None \<Rightarrow> mem_mounts_loop default_size hugepage_sz len rest) })"
  by pat_completeness auto
termination by (relation "measure (\<lambda>(_, _, _, fd). length fd)") (auto intro: fgets_shorter simp: BUFSIZ_def)

definition mem_get_hugepage_dir :: "hp_sys \<Rightarrow> u64 \<Rightarrow> nat \<Rightarrow> (int \<times> string option) option" where
  "mem_get_hugepage_dir sys hugepage_sz len =
     (let default_size = mem_get_default_hp_size sys in
      if default_size = 0 then Some (- 1, None)
      else
        (case hs_file sys ''/proc/mounts'' of
           None \<Rightarrow> None
         | Some fd \<Rightarrow> mem_mounts_loop default_size hugepage_sz len fd))"

declare meminfo_loop.simps [simp del] mounts_loop.simps [simp del] mem_mounts_loop.simps [simp del]

subsection \<open>Counting the pages\<close>

definition get_num_hugepages :: "hp_sys \<Rightarrow> string \<Rightarrow> u32" where
  "get_num_hugepages sys subdir =
     (let path = snprintf PATH_MAX (sys_dir_path @ ''/'' @ subdir @ ''/'' @ ''resv_hugepages'') in
      case eal_parse_sysfs_value (hs_file sys path) of (r, resv) \<Rightarrow>
        if r < 0 then 0
        else
          let path = snprintf PATH_MAX (sys_dir_path @ ''/'' @ subdir @ ''/'' @ ''free_hugepages'') in
          case eal_parse_sysfs_value (hs_file sys path) of (r, num) \<Rightarrow>
            if r < 0 then 0
            else
              let resv_pages = the resv;
                  num_pages = the num;
                  num_pages = (if num_pages \<ge> resv_pages then num_pages - resv_pages else if resv_pages \<noteq> 0 then 0 else num_pages);
                  num_pages = (if num_pages > UINT32_MAX then UINT32_MAX else num_pages) in
              ucast num_pages)"

definition get_num_hugepages_on_node :: "hp_sys \<Rightarrow> string \<Rightarrow> u32 \<Rightarrow> u32" where
  "get_num_hugepages_on_node sys subdir socket =
     (let socketpath = snprintf PATH_MAX (sys_pages_numa_dir_path @ ''/node'' @ decimal (unat socket) @ ''/hugepages'') in
      case hs_dir sys socketpath of
        None \<Rightarrow> 0
      | Some _ \<Rightarrow>
          let path = snprintf (PATH_MAX * 3) (socketpath @ ''/'' @ subdir @ ''/'' @ ''free_hugepages'') in
          case eal_parse_sysfs_value (hs_file sys path) of (r, num) \<Rightarrow>
            if r < 0 then 0
            else
              let num_pages = the num;
                  num_pages = (if num_pages > UINT32_MAX then UINT32_MAX else num_pages) in
              ucast num_pages)"

subsection \<open>Removing unused files\<close>

text \<open>\<open>fnmatch ("*map_*", name, 0)\<close> is 0 when the name contains \<open>map_\<close> and 1 (\<open>FNM_NOMATCH\<close>) otherwise.\<close>

definition fnmatch_map :: "string \<Rightarrow> int" where
  "fnmatch_map name = (if strstr name ''map_'' \<noteq> None then 0 else 1)"

fun clear_entries :: "hp_sys \<Rightarrow> string \<Rightarrow> string list \<Rightarrow> string list" where
  "clear_entries sys hugedir [] = []"
| "clear_entries sys hugedir (d_name # ds) =
     (if fnmatch_map d_name > 0 then clear_entries sys hugedir ds
      else if \<not> hs_openat sys hugedir d_name then clear_entries sys hugedir ds
      else if hs_flockat sys hugedir d_name then d_name # clear_entries sys hugedir ds
      else clear_entries sys hugedir ds)"

text \<open>The result and the files removed.\<close>

definition clear_hugedir :: "hp_sys \<Rightarrow> string \<Rightarrow> int \<times> string list" where
  "clear_hugedir sys hugedir =
     (case hs_dir sys hugedir of
        None \<Rightarrow> (- 1, [])
      | Some ds \<Rightarrow> if ds = [] then (- 1, []) else (0, clear_entries sys hugedir ds))"

subsection \<open>\<open>hugepage_info_init\<close>\<close>

text \<open>The difference of the sizes becomes an \<open>int\<close>.\<close>

definition compare_hpi :: "hugepage_info \<Rightarrow> hugepage_info \<Rightarrow> int" where
  "compare_hpi a b = sint (ucast (hi_hugepage_sz b - hi_hugepage_sz a) :: u32)"

text \<open>The loop over the NUMA nodes, with the pages found so far.\<close>

fun node_loop :: "hp_sys \<Rightarrow> eal_config \<Rightarrow> string \<Rightarrow> nat list \<Rightarrow> u32 list \<Rightarrow> u32 \<Rightarrow> (u32 list \<times> u32) option" where
  "node_loop sys cfg d_name [] pages total_pages = Some (pages, total_pages)"
| "node_loop sys cfg d_name (i # is) pages total_pages =
     (let socket = rte_socket_id_by_idx cfg i;
          num_pages = get_num_hugepages_on_node sys d_name (word_of_int socket) in
      if socket < 0 \<or> int (length pages) \<le> socket then None
      else node_loop sys cfg d_name is (pages[nat socket := num_pages]) (total_pages + num_pages))"

text \<open>
  The loop over the directory: whether it reached the end, the entries, how many are in use, the static \<open>default_size\<close> and
  the files removed.
\<close>

fun sizes_loop :: "hp_sys \<Rightarrow> eal_config \<Rightarrow> string list \<Rightarrow> hugepage_info list \<Rightarrow> nat \<Rightarrow> u64 \<Rightarrow> string list \<Rightarrow>
    (bool \<times> hugepage_info list \<times> nat \<times> u64 \<times> string list) run" where
  "sizes_loop sys cfg [] infos num_sizes default_size gone = Returned (True, infos, num_sizes, default_size, gone)"
| "sizes_loop sys cfg (d_name # ds) infos num_sizes default_size gone =
     (if \<not> starts_with ''hugepages-'' d_name then sizes_loop sys cfg ds infos num_sizes default_size gone
      else if num_sizes \<ge> MAX_HUGEPAGE_SIZES then Returned (False, infos, num_sizes, default_size, gone)
      else
        let sz = rte_str_to_size (drop 10 d_name);
            hpi = (infos ! num_sizes)\<lparr>hi_hugepage_sz := sz\<rparr> in
        case get_hugepage_dir sys default_size sz PATH_MAX of
          Panicked \<Rightarrow> Panicked
        | Undefined \<Rightarrow> Undefined
        | Returned (r, dir, default_size) \<Rightarrow>
            let hpi = (case dir of None \<Rightarrow> hpi | Some dir \<Rightarrow> hpi\<lparr>hi_hugedir := dir\<rparr>) in
            if r < 0 then sizes_loop sys cfg ds (infos[num_sizes := hpi]) num_sizes default_size gone
            else
              let hpi = hpi\<lparr>hi_lock_descriptor := hs_open sys (hi_hugedir hpi)\<rparr> in
              if \<not> hs_flock sys (hi_lock_descriptor hpi)
              then Returned (False, infos[num_sizes := hpi], num_sizes, default_size, gone)
              else
                let (r, cleared) = clear_hugedir sys (hi_hugedir hpi) in
                if r = - 1 then Returned (False, infos[num_sizes := hpi], num_sizes, default_size, gone @ cleared)
                else
                  let hpi = hpi\<lparr>hi_numa_node_count := rte_socket_count cfg\<rparr> in
                  case node_loop sys cfg d_name [0..<hi_numa_node_count hpi] (hi_num_pages hpi) 0 of
                    None \<Rightarrow> Undefined
                  | Some (pages, total_pages) \<Rightarrow>
                      let pages = (if total_pages = 0 then pages[0 := get_num_hugepages sys d_name] else pages);
                          hpi = hpi\<lparr>hi_num_pages := pages\<rparr> in
                      sizes_loop sys cfg ds (infos[num_sizes := hpi]) (num_sizes + 1) default_size (gone @ cleared))"

text \<open>The last loop: there is a size with a directory and pages.\<close>

definition usable :: "hugepage_info \<Rightarrow> bool" where
  "usable hpi \<longleftrightarrow> hi_hugedir hpi \<noteq> [] \<and> foldl (+) 0 (hi_num_pages hpi) > 0"

definition hugepage_info_init ::
    "((hugepage_info \<Rightarrow> hugepage_info \<Rightarrow> int) \<Rightarrow> hugepage_info list \<Rightarrow> hugepage_info list) \<Rightarrow> hp_sys \<Rightarrow> eal_config \<Rightarrow>
      hugepage_conf \<Rightarrow> u64 \<Rightarrow> (int \<times> hugepage_conf \<times> u64 \<times> string list) run" where
  "hugepage_info_init qsort sys cfg conf default_size =
     (case hs_dir sys sys_dir_path of
        None \<Rightarrow> Returned (- 1, conf, default_size, [])
      | Some dir \<Rightarrow>
          (case sizes_loop sys cfg dir (hc_hugepage_info conf) 0 default_size [] of
             Panicked \<Rightarrow> Panicked
           | Undefined \<Rightarrow> Undefined
           | Returned (end_reached, infos, num_sizes, default_size, gone) \<Rightarrow>
               if \<not> end_reached then Returned (- 1, conf\<lparr>hc_hugepage_info := infos\<rparr>, default_size, gone)
               else
                 let infos = qsort compare_hpi (take num_sizes infos) @ drop num_sizes infos;
                     conf = conf\<lparr>hc_num_hugepage_sizes := num_sizes, hc_hugepage_info := infos\<rparr> in
                 Returned (if list_ex usable (take num_sizes infos) then 0 else - 1, conf, default_size, gone)))"

subsection \<open>Finding the directory\<close>

text \<open>An entry of \<open>/proc/mounts\<close>: device, directory, type, and options to the end of the line.\<close>

record mount =
  mt_device :: string
  mt_dir :: string
  mt_type :: string
  mt_options :: string

abbreviation newline :: char where "newline \<equiv> CHR 0x0A"

definition mount_line :: "mount \<Rightarrow> string" where
  "mount_line m = mt_device m @ '' '' @ mt_dir m @ '' '' @ mt_type m @ '' '' @ mt_options m"

definition mounts_text :: "mount list \<Rightarrow> string" where
  "mounts_text ms = concat (map (\<lambda>m. mount_line m @ [newline]) ms)"

definition field_ok :: "string \<Rightarrow> bool" where
  "field_ok s \<longleftrightarrow> s \<noteq> [] \<and> CHR '' '' \<notin> set s \<and> NUL \<notin> set s \<and> newline \<notin> set s"

definition mount_ok :: "mount \<Rightarrow> bool" where
  "mount_ok m \<longleftrightarrow> field_ok (mt_device m) \<and> field_ok (mt_dir m) \<and> field_ok (mt_type m) \<and>
    mt_options m \<noteq> [] \<and> hd (mt_options m) \<noteq> CHR '' '' \<and> NUL \<notin> set (mt_options m) \<and> newline \<notin> set (mt_options m) \<and>
    length (mount_line m) + 2 < BUFSIZ"

text \<open>The page size of an entry: none when it is of another type.\<close>

definition mount_size :: "u64 \<Rightarrow> mount \<Rightarrow> u64 option" where
  "mount_size default_size m =
     (if starts_with ''hugetlbfs'' (mt_type m)
      then Some (case strstr (mt_options m @ [newline]) ''pagesize='' of
          None \<Rightarrow> default_size
        | Some p \<Rightarrow> rte_str_to_size (drop 9 p))
      else None)"

text \<open>The directory of the first entry with a page size.\<close>

definition mount_of :: "u64 \<Rightarrow> u64 \<Rightarrow> mount list \<Rightarrow> string option" where
  "mount_of default_size sz ms = map_option mt_dir (find (\<lambda>m. mount_size default_size m = Some sz) ms)"

lemma fgets_line:
  assumes "newline \<notin> set l" "length l + 2 < n"
  shows "fgets n (l @ newline # rest) = Some (l @ [newline], rest)"
proof -
  have "takeWhile (\<lambda>c. c \<noteq> newline) (l @ newline # rest) = l"
    using assms(1) by (induction l) auto
  then show ?thesis using assms(2) by (simp add: fgets_def)
qed

lemma While_stop:
  assumes "d \<notin> set f"
  shows "takeWhile (\<lambda>c. c \<noteq> d) (f @ d # xs) = f" "dropWhile (\<lambda>c. c \<noteq> d) (f @ d # xs) = d # xs"
  using assms by (induction f) auto

lemma fields_cons:
  "\<lbrakk>d \<notin> set f; 0 < n\<rbrakk> \<Longrightarrow> split_fields d (Suc n) (f @ d # xs) = f # split_fields d n xs"
  by (simp add: While_stop)

lemma sh_fields_cons:
  "\<lbrakk>d \<notin> set f; f \<noteq> []; 0 < n\<rbrakk> \<Longrightarrow> sh_split_fields d (Suc n) (f @ d # xs) = f # sh_split_fields d n xs"
  using While_stop [of d f xs] by (cases f) auto

lemma fields_last:
  "\<lbrakk>xs \<noteq> []; hd xs \<noteq> d\<rbrakk> \<Longrightarrow> split_fields d (Suc 0) xs = [xs] \<and> sh_split_fields d (Suc 0) xs = [xs]"
  by (cases xs) auto

lemma mount_fields:
  assumes "mount_ok m"
  shows "split_fields CHR '' '' 4 (mount_line m @ [newline]) = [mt_device m, mt_dir m, mt_type m, mt_options m @ [newline]]"
    and "sh_split_fields CHR '' '' 4 (mount_line m @ [newline]) = [mt_device m, mt_dir m, mt_type m, mt_options m @ [newline]]"
proof -
  have last: "split_fields CHR '' '' (Suc 0) (mt_options m @ [newline]) = [mt_options m @ [newline]]"
    "sh_split_fields CHR '' '' (Suc 0) (mt_options m @ [newline]) = [mt_options m @ [newline]]"
    using assms fields_last [of "mt_options m @ [newline]" "CHR '' ''"] by (auto simp: mount_ok_def)
  have four: "4 = Suc (Suc (Suc (Suc 0)))" by simp
  have "field_ok (mt_device m)" "field_ok (mt_dir m)" "field_ok (mt_type m)" using assms by (auto simp: mount_ok_def)
  note ok = this [unfolded field_ok_def]
  show "split_fields CHR '' '' 4 (mount_line m @ [newline]) = [mt_device m, mt_dir m, mt_type m, mt_options m @ [newline]]"
    using ok by (simp add: four mount_line_def fields_cons last del: split_fields.simps(2))
  show "sh_split_fields CHR '' '' 4 (mount_line m @ [newline]) = [mt_device m, mt_dir m, mt_type m, mt_options m @ [newline]]"
    using ok by (simp add: four mount_line_def sh_fields_cons last del: sh_split_fields.simps(2))
qed

lemma mount_dir_fields:
  assumes "strings_at buf toks = [dev, dir, typ, opts]"
  shows "mount_dir default_size sz len buf toks =
    (if starts_with ''hugetlbfs'' typ \<and>
       sz = (case strstr opts ''pagesize='' of None \<Rightarrow> default_size | Some p \<Rightarrow> rte_str_to_size (drop 9 p))
     then Some (snprintf len dir) else None)"
proof -
  obtain a b c d where "toks = [a, b, c, d]"
    using assms by (auto simp: map_eq_Cons_conv)
  then show ?thesis using assms by (auto simp: mount_dir_def Let_def split: option.splits)
qed

lemma mount_line_ok:
  assumes "mount_ok m"
  shows "newline \<notin> set (mount_line m)" "NUL \<notin> set (mount_line m @ [newline])" "length (mount_line m @ [newline]) < BUFSIZ"
  using assms by (auto simp: mount_ok_def field_ok_def mount_line_def)

lemma mounts_loop_step:
  assumes "mount_ok m"
  shows "mounts_loop default_size sz len (mount_line m @ newline # rest) =
      (if mount_size default_size m = Some sz then Some (0, Some (snprintf len (mt_dir m)))
       else mounts_loop default_size sz len rest)"
    and "mem_mounts_loop default_size sz len (mount_line m @ newline # rest) =
      (if mount_size default_size m = Some sz then Some (0, Some (snprintf len (mt_dir m)))
       else mem_mounts_loop default_size sz len rest)"
proof -
  note ok = mount_line_ok [OF assms] mount_fields [OF assms]
  have get: "fgets BUFSIZ (mount_line m @ newline # rest) = Some (mount_line m @ [newline], rest)"
    using ok(1) assms by (intro fgets_line) (simp_all add: mount_ok_def)
  obtain buf toks where "rte_strsplit (Some ((mount_line m @ [newline]) @ NUL # [])) BUFSIZ 4 CHR '' '' = Some (int (length toks), buf, toks)"
    "strings_at buf toks = [mt_device m, mt_dir m, mt_type m, mt_options m @ [newline]]"
    using rte_strsplit_fields [OF ok(2,3), of "[]" 4 "CHR '' ''"] ok(4) by metis
  moreover from this(2) have "length toks = 4" by (auto simp: map_eq_Cons_conv)
  ultimately show "mounts_loop default_size sz len (mount_line m @ newline # rest) =
      (if mount_size default_size m = Some sz then Some (0, Some (snprintf len (mt_dir m)))
       else mounts_loop default_size sz len rest)"
    using mount_dir_fields [of buf toks _ _ _ _ default_size sz len]
    by (subst mounts_loop.simps) (auto simp: get mount_size_def)
  obtain buf toks where "sh_strsplit (Some ((mount_line m @ [newline]) @ NUL # [])) BUFSIZ 4 CHR '' '' = Some (int (length toks), buf, toks)"
    "strings_at buf toks = [mt_device m, mt_dir m, mt_type m, mt_options m @ [newline]]"
    using sh_strsplit_fields [OF ok(2,3), of "[]" 4 "CHR '' ''"] ok(5) by metis
  moreover from this(2) have "length toks = 4" by (auto simp: map_eq_Cons_conv)
  ultimately show "mem_mounts_loop default_size sz len (mount_line m @ newline # rest) =
      (if mount_size default_size m = Some sz then Some (0, Some (snprintf len (mt_dir m)))
       else mem_mounts_loop default_size sz len rest)"
    using mount_dir_fields [of buf toks _ _ _ _ default_size sz len]
    by (subst mem_mounts_loop.simps) (auto simp: get mount_size_def)
qed

definition found_dir :: "u64 \<Rightarrow> u64 \<Rightarrow> nat \<Rightarrow> mount list \<Rightarrow> int \<times> string option" where
  "found_dir default_size sz len ms =
     (case mount_of default_size sz ms of None \<Rightarrow> (- 1, None) | Some dir \<Rightarrow> (0, Some (snprintf len dir)))"

lemma loops_end: "mounts_loop default_size sz len [] = Some (- 1, None)" "mem_mounts_loop default_size sz len [] = Some (- 1, None)"
  by (simp_all add: mounts_loop.simps mem_mounts_loop.simps fgets_def)

lemma found_dir_Cons:
  "found_dir default_size sz len (m # ms) =
    (if mount_size default_size m = Some sz then (0, Some (snprintf len (mt_dir m))) else found_dir default_size sz len ms)"
  by (simp add: found_dir_def mount_of_def)

lemma mounts_loop_mounts:
  assumes "\<forall>m \<in> set ms. mount_ok m"
  shows "mounts_loop default_size sz len (mounts_text ms) = Some (found_dir default_size sz len ms)"
    and "mem_mounts_loop default_size sz len (mounts_text ms) = Some (found_dir default_size sz len ms)"
  using assms
  by (induction ms) (auto simp: mounts_text_def mounts_loop_step found_dir_Cons loops_end, simp_all add: found_dir_def mount_of_def)

text \<open>The text of \<open>/proc/meminfo\<close>: lines before, and the one that gives the default size in kB.\<close>

definition meminfo_text :: "string list \<Rightarrow> string \<Rightarrow> nat \<Rightarrow> string \<Rightarrow> string" where
  "meminfo_text before sp n after =
     concat (map (\<lambda>l. l @ [newline]) before) @ ''Hugepagesize:'' @ sp @ decimal n @ '' kB'' @ [newline] @ after"

definition meminfo_line_ok :: "string \<Rightarrow> bool" where
  "meminfo_line_ok l \<longleftrightarrow> newline \<notin> set l \<and> length l + 2 < 256 \<and> \<not> starts_with ''Hugepagesize:'' (c_string (l @ [newline]))"

lemma decimal_plain: "c \<in> set (decimal n) \<Longrightarrow> c \<noteq> NUL \<and> c \<noteq> newline"
  using decimal_digits [of c n] digit_plain by auto

lemma c_string_whole: "NUL \<notin> set xs \<Longrightarrow> c_string xs = xs"
  by (induction xs) (auto simp: c_string_def)

lemma meminfo_size_line:
  assumes "\<forall>c \<in> set sp. c = CHR '' ''" "length sp \<le> 200" "n < 2 ^ 64"
  shows "meminfo_loop (''Hugepagesize:'' @ sp @ decimal n @ '' kB'' @ [newline] @ after) = of_nat (n * 1024)"
proof -
  let ?l = "''Hugepagesize:'' @ sp @ decimal n @ '' kB''"
  have "n < 10 ^ 20" using assms by simp
  then have len: "length (decimal n) \<le> 20" by (rule length_decimal) simp
  have plain: "newline \<notin> set ?l" "NUL \<notin> set (?l @ [newline])" using assms(1) decimal_plain [of _ n] by auto
  have "length ?l + 2 < 256" using assms(2) len by simp
  note this [THEN fgets_line [OF plain(1)]] c_string_whole [OF plain(2)]
  moreover have "rte_str_to_size (sp @ decimal n @ '' '' @ ''kB'' @ [newline]) = of_nat (n * scale (''kB'' @ [newline]))"
    using assms by (intro rte_str_to_size_decimal) (auto simp: c_isspace_def ends_number_def is_digit_space)
  ultimately show ?thesis
    by (subst meminfo_loop.simps) (simp add: starts_with_def scale_def)
qed

lemma meminfo_loop_text:
  assumes "\<forall>l \<in> set before. meminfo_line_ok l" "\<forall>c \<in> set sp. c = CHR '' ''" "length sp \<le> 200" "n < 2 ^ 64"
  shows "meminfo_loop (meminfo_text before sp n after) = of_nat (n * 1024)"
  using assms(1)
proof (induction before)
  case Nil
  then show ?case using meminfo_size_line [OF assms(2-4)] by (simp add: meminfo_text_def)
next
  case (Cons l ls)
  have "fgets 256 (l @ newline # meminfo_text ls sp n after) = Some (l @ [newline], meminfo_text ls sp n after)"
    using Cons.prems by (intro fgets_line) (auto simp: meminfo_line_ok_def)
  then show ?case
    using Cons by (subst meminfo_loop.simps) (simp add: meminfo_text_def meminfo_line_ok_def)
qed

text \<open>
  C30: For a \<open>/proc/mounts\<close> of well-formed entries and a \<open>/proc/meminfo\<close> with a default size, \<open>get_hugepage_dir\<close> finds the
  directory of the first \<open>hugetlbfs\<close> entry whose page size (its \<open>pagesize\<close> option, or the default) is the one asked for, and
  -1 when there is none; it remembers the default size.  The older version, which splits lines in another way and asks for
  the default each time, gives the same.
\<close>

theorem get_hugepage_dir_correct:
  assumes mounts: "hs_file sys ''/proc/mounts'' = Some (mounts_text ms)" "\<forall>m \<in> set ms. mount_ok m"
    and meminfo: "hs_file sys ''/proc/meminfo'' = Some (meminfo_text before sp n after)"
      "\<forall>l \<in> set before. meminfo_line_ok l" "\<forall>c \<in> set sp. c = CHR '' ''" "length sp \<le> 200" "n < 2 ^ 64"
    and default: "default_size = of_nat (n * 1024)" "default_size \<noteq> 0" "known \<in> {0, default_size}"
  shows "get_hugepage_dir sys known sz len =
      (case found_dir default_size sz len ms of (r, dir) \<Rightarrow> Returned (r, dir, default_size)) \<and>
    mem_get_hugepage_dir sys sz len = Some (found_dir default_size sz len ms)"
proof -
  have info: "meminfo_loop (meminfo_text before sp n after) = default_size"
    unfolding default(1) by (rule meminfo_loop_text [OF meminfo(2-5)])
  then have "get_hugepage_dir sys known sz len =
      (case found_dir default_size sz len ms of (r, dir) \<Rightarrow> Returned (r, dir, default_size))"
    using mounts meminfo(1) default(2,3)
    by (auto simp: get_hugepage_dir_def get_default_hp_size_def of_option_def mounts_loop_mounts(1) split: prod.splits)
  moreover have "mem_get_hugepage_dir sys sz len = Some (found_dir default_size sz len ms)"
    using mounts meminfo(1) default(2) info
    by (simp add: mem_get_hugepage_dir_def mem_get_default_hp_size_def mounts_loop_mounts(2))
  ultimately show ?thesis by simp
qed

definition one_mount :: mount where
  "one_mount = \<lparr>mt_device = ''nodev'', mt_dir = ''/mnt/huge'', mt_type = ''hugetlbfs'', mt_options = ''rw,pagesize=2M 0 0''\<rparr>"

definition one_sys :: hp_sys where
  "one_sys = \<lparr>hs_file = [''/proc/mounts'' \<mapsto> mounts_text [one_mount], ''/proc/meminfo'' \<mapsto> meminfo_text [''MemFree: 1 kB''] ''  '' 2048 []],
     hs_dir = (\<lambda>_. None), hs_open = (\<lambda>_. 3), hs_flock = (\<lambda>_. True), hs_openat = (\<lambda>_ _. True), hs_flockat = (\<lambda>_ _. True)\<rparr>"

theorem get_hugepage_dir_correct_witness:
  "get_hugepage_dir one_sys 0 2097152 4096 = Returned (0, Some ''/mnt/huge'', 2097152) \<and>
   get_hugepage_dir one_sys 0 1073741824 4096 = Returned (- 1, None, 2097152)"
proof -
  have "decimal 2 = ''2''" by (subst decimal.simps) code_simp
  then have "rte_str_to_size (''2M 0 0'' @ [newline]) = 2097152"
    using rte_str_to_size_decimal [of "[]" 2 "[]" "''M 0 0'' @ [newline]"]
    by (simp add: ends_number_def is_digit_def digit_value_def scale_def)
  then have "mount_size 2097152 one_mount = Some 2097152"
    by (simp add: mount_size_def one_mount_def starts_with_def)
  moreover have "mount_ok one_mount"
    by (simp add: mount_ok_def one_mount_def field_ok_def mount_line_def BUFSIZ_def)
  moreover have "meminfo_line_ok ''MemFree: 1 kB''"
    by (simp add: meminfo_line_ok_def starts_with_def)
  ultimately show ?thesis
    using get_hugepage_dir_correct [of one_sys "[one_mount]" "[''MemFree: 1 kB'']" "''  ''" 2048 "[]" 2097152 0 2097152 4096]
      get_hugepage_dir_correct [of one_sys "[one_mount]" "[''MemFree: 1 kB'']" "''  ''" 2048 "[]" 2097152 0 1073741824 4096]
    by (simp add: one_sys_def found_dir_Cons, simp add: found_dir_def mount_of_def snprintf_def one_mount_def)
qed

subsection \<open>The number of pages\<close>

lemma unat_UINT32_MAX: "unat UINT32_MAX = 4294967295"
  by (simp add: UINT32_MAX_def)

lemma clamped:
  "unat (ucast (if w > UINT32_MAX then UINT32_MAX else w) :: u32) = min (unat w) (2 ^ 32 - 1)" for w :: u64
  by (simp add: unat_ucast_mod word_less_nat_alt unat_UINT32_MAX min_def)

text \<open>
  The number of free pages of a size is what the two files of the kernel say: free less reserved, none when more are
  reserved than free, and at most 2^32 - 1.
\<close>

theorem get_num_hugepages_correct:
  assumes "hs_file sys (snprintf PATH_MAX (sys_dir_path @ ''/'' @ subdir @ ''/'' @ ''resv_hugepages'')) = Some (decimal r @ CHR 0x0A # m1)"
    and "hs_file sys (snprintf PATH_MAX (sys_dir_path @ ''/'' @ subdir @ ''/'' @ ''free_hugepages'')) = Some (decimal n @ CHR 0x0A # m2)"
    and "r < 2 ^ 64" "n < 2 ^ 64"
  shows "unat (get_num_hugepages sys subdir) = min (n - r) (2 ^ 32 - 1)"
proof -
  have u: "unat (of_nat r :: u64) = r" "unat (of_nat n :: u64) = n" using assms by (auto intro!: unat_of_nat_small)
  let ?w = "if (of_nat n :: u64) \<ge> of_nat r then of_nat n - of_nat r else if of_nat r \<noteq> (0 :: u64) then 0 else (of_nat n :: u64)"
  have "(of_nat n :: u64) \<ge> of_nat r \<longleftrightarrow> r \<le> n" using u by (simp add: word_le_nat_alt)
  then have "unat ?w = n - r" using u unat_sub_le [of "of_nat r :: u64" "of_nat n"] by (auto simp: not_le)
  moreover have "get_num_hugepages sys subdir = ucast (if ?w > UINT32_MAX then UINT32_MAX else ?w)"
    using assms(1,2) eal_parse_sysfs_value_decimal [OF assms(3), of m1] eal_parse_sysfs_value_decimal [OF assms(4), of m2]
    by (simp add: get_num_hugepages_def Let_def)
  ultimately show ?thesis using clamped [of ?w] by metis
qed

definition counted_sys :: hp_sys where
  "counted_sys = one_sys\<lparr>hs_file := [''/sys/kernel/mm/hugepages/hugepages-2048kB/resv_hugepages'' \<mapsto> decimal 3 @ [newline],
     ''/sys/kernel/mm/hugepages/hugepages-2048kB/free_hugepages'' \<mapsto> decimal 10 @ [newline]]\<rparr>"

theorem get_num_hugepages_correct_witness: "unat (get_num_hugepages counted_sys ''hugepages-2048kB'') = 7"
  using get_num_hugepages_correct [of counted_sys "''hugepages-2048kB''" 3 "[]" 10 "[]"]
  by (simp add: counted_sys_def snprintf_def PATH_MAX_def sys_dir_path_def)

subsection \<open>The whole scan\<close>

lemma rte_strsplit_total:
  assumes "length line < stringlen"
  shows "\<exists>buf toks. rte_strsplit (Some (line @ [NUL])) stringlen maxtokens d = Some (int (length toks), buf, toks)"
proof -
  obtain l rest where l: "line @ [NUL] = l @ NUL # rest" "NUL \<notin> set l"
    by (metis split_list_first in_set_conv_decomp_first list.set_intros(1) set_append UnCI)
  then have "length l \<le> length line" by (metis One_nat_def Suc_le_mono length_Cons length_append length_append_singleton le_add1 add_Suc_right)
  then show ?thesis using rte_strsplit_fields [OF l(2), of stringlen rest maxtokens d] assms l by auto
qed

lemma fgets_length: "fgets n f = Some (line, rest) \<Longrightarrow> 0 < n \<Longrightarrow> length line < n"
  by (auto simp: fgets_def Let_def split: if_splits)

lemma mounts_loop_total [simp]: "mounts_loop default_size sz len fd \<noteq> None"
proof (induction "length fd" arbitrary: fd rule: less_induct)
  case less
  show ?case
  proof (cases "fgets BUFSIZ fd")
    case None
    then show ?thesis by (subst mounts_loop.simps) simp
  next
    case (Some a)
    then obtain line rest where f: "fgets BUFSIZ fd = Some (line, rest)" by (cases a) auto
    have "0 < BUFSIZ" "1 < BUFSIZ" by (simp_all add: BUFSIZ_def)
    then have "length line < BUFSIZ" "mounts_loop default_size sz len rest \<noteq> None"
      using less fgets_length [OF f] fgets_shorter [OF f] by auto
    then show ?thesis
      using rte_strsplit_total [of line BUFSIZ 4 "CHR '' ''"]
      by (subst mounts_loop.simps) (auto simp: f split: option.splits)
  qed
qed

lemma get_hugepage_dir_total: "get_hugepage_dir sys default_size sz len \<noteq> Undefined"
  by (simp add: get_hugepage_dir_def of_option_def get_default_hp_size_def Let_def split: option.splits run.splits)

text \<open>The state the loops keep: every entry has its array of pages.\<close>

definition infos_ok :: "hugepage_info list \<Rightarrow> bool" where
  "infos_ok infos \<longleftrightarrow> length infos = MAX_HUGEPAGE_SIZES \<and> (\<forall>hpi \<in> set infos. length (hi_num_pages hpi) = RTE_MAX_NUMA_NODES)"

definition nodes_ok :: "eal_config \<Rightarrow> bool" where
  "nodes_ok cfg \<longleftrightarrow> (\<forall>i < rte_socket_count cfg. 0 \<le> rte_socket_id_by_idx cfg i \<and> rte_socket_id_by_idx cfg i < int RTE_MAX_NUMA_NODES)"

lemma node_loop_ok:
  assumes "nodes_ok cfg" "\<forall>i \<in> set is. i < rte_socket_count cfg" "length pages = RTE_MAX_NUMA_NODES"
  shows "\<exists>pages' t. node_loop sys cfg d is pages t0 = Some (pages', t) \<and> length pages' = RTE_MAX_NUMA_NODES"
  using assms(2,3)
  by (induction "is" arbitrary: pages t0) (use assms(1) in \<open>auto simp: nodes_ok_def Let_def not_le\<close>)

lemma infos_ok_update:
  "\<lbrakk>infos_ok infos; length (hi_num_pages hpi) = RTE_MAX_NUMA_NODES\<rbrakk> \<Longrightarrow> infos_ok (infos[k := hpi])"
  by (auto simp: infos_ok_def dest: set_update_subset_insert [THEN subsetD])

lemma infos_ok_nth:
  "\<lbrakk>infos_ok infos; k < MAX_HUGEPAGE_SIZES\<rbrakk> \<Longrightarrow> length (hi_num_pages (infos ! k)) = RTE_MAX_NUMA_NODES"
  by (simp add: infos_ok_def)

definition sizes_post :: "nat \<Rightarrow> (bool \<times> hugepage_info list \<times> nat \<times> u64 \<times> string list) run \<Rightarrow> bool" where
  "sizes_post k r \<longleftrightarrow> (case r of
      Undefined \<Rightarrow> False
    | Panicked \<Rightarrow> True
    | Returned (_, infos', k', _) \<Rightarrow> infos_ok infos' \<and> k \<le> k' \<and> k' \<le> MAX_HUGEPAGE_SIZES)"

lemma sizes_post_simps [simp]:
  "sizes_post k Panicked" "\<not> sizes_post k Undefined"
  "sizes_post k (Returned (b, infos', k', z)) \<longleftrightarrow> infos_ok infos' \<and> k \<le> k' \<and> k' \<le> MAX_HUGEPAGE_SIZES"
  by (simp_all add: sizes_post_def)

lemma sizes_post_mono: "sizes_post k' r \<Longrightarrow> k \<le> k' \<Longrightarrow> sizes_post k r"
  by (auto simp: sizes_post_def split: run.splits)

lemma sizes_loop_ok:
  assumes "nodes_ok cfg" "infos_ok infos" "k \<le> MAX_HUGEPAGE_SIZES"
  shows "sizes_post k (sizes_loop sys cfg ds infos k known gone)"
  using assms(2,3)
proof (induction ds arbitrary: infos k known gone)
  case (Cons d ds)
  show ?case
  proof (cases "starts_with ''hugepages-'' d \<and> k < MAX_HUGEPAGE_SIZES")
    case True
    note pages = infos_ok_nth [OF Cons.prems(1), of k]
    have nl: "\<exists>pages' t. node_loop sys cfg d [0..<rte_socket_count cfg] (hi_num_pages (infos ! k)) 0 = Some (pages', t) \<and>
        length pages' = RTE_MAX_NUMA_NODES"
      using assms(1) pages True by (intro node_loop_ok) auto
    have next_k: "sizes_post k (sizes_loop sys cfg ds infos' (Suc k) known' gone')" if "infos_ok infos'" for infos' known' gone'
      using that True by (intro sizes_post_mono [OF Cons.IH]) auto
    show ?thesis
    proof (cases "get_hugepage_dir sys known (rte_str_to_size (drop 10 d)) PATH_MAX")
      case (Returned a)
      obtain r dir known' where a: "a = (r, dir, known')" by (cases a)
      show ?thesis
        using True Cons.prems Returned a nl pages
        by (auto simp: Let_def not_le split: prod.splits option.splits
            intro!: Cons.IH infos_ok_update next_k)
    next
      case Undefined
      then show ?thesis using get_hugepage_dir_total by blast
    qed (use True in simp)
  next
    case False
    then show ?thesis using Cons by auto
  qed
qed simp

subsection \<open>The order of the sizes\<close>

text \<open>
  What the C standard says of \<open>qsort\<close>: it permutes the array, and sorts it when the comparison orders the elements
  consistently.
\<close>

definition consistent :: "('a \<Rightarrow> 'a \<Rightarrow> int) \<Rightarrow> 'a set \<Rightarrow> bool" where
  "consistent cmp X \<longleftrightarrow> (\<forall>a \<in> X. \<forall>b \<in> X. sgn (cmp a b) = - sgn (cmp b a)) \<and>
    (\<forall>a \<in> X. \<forall>b \<in> X. \<forall>c \<in> X. cmp a b \<le> 0 \<longrightarrow> cmp b c \<le> 0 \<longrightarrow> cmp a c \<le> 0)"

definition qsort_ok :: "(('a \<Rightarrow> 'a \<Rightarrow> int) \<Rightarrow> 'a list \<Rightarrow> 'a list) \<Rightarrow> bool" where
  "qsort_ok qsort \<longleftrightarrow> (\<forall>cmp xs. mset (qsort cmp xs) = mset xs \<and>
    (consistent cmp (set xs) \<longrightarrow> sorted_wrt (\<lambda>a b. cmp a b \<le> 0) (qsort cmp xs)))"

lemma signed_difference: "x < 2 ^ 31 \<Longrightarrow> y < 2 ^ 31 \<Longrightarrow> signed_take_bit 31 (int y - int x) = int y - int x"
  by (intro signed_take_bit_int_eq_self) auto

lemma compare_hpi_small:
  assumes "unat (hi_hugepage_sz a) < 2 ^ 31" "unat (hi_hugepage_sz b) < 2 ^ 31"
  shows "compare_hpi a b = int (unat (hi_hugepage_sz b)) - int (unat (hi_hugepage_sz a))"
proof -
  let ?a = "int (unat (hi_hugepage_sz a))" and ?b = "int (unat (hi_hugepage_sz b))"
  have "uint (hi_hugepage_sz b - hi_hugepage_sz a) = take_bit 64 (?b - ?a)"
    by (simp add: uint_word_ariths take_bit_eq_mod)
  then have "compare_hpi a b = signed_take_bit 31 (?b - ?a)"
    by (simp add: compare_hpi_def signed_ucast_eq signed_take_bit_take_bit)
  also have "\<dots> = ?b - ?a"
    using assms by (rule signed_difference)
  finally show ?thesis .
qed

lemma compare_hpi_consistent:
  assumes "\<forall>hpi \<in> X. unat (hi_hugepage_sz hpi) < 2 ^ 31"
  shows "consistent compare_hpi X"
  using assms by (auto simp: consistent_def compare_hpi_small sgn_if)

lemma qsort_mem: "qsort_ok qsort \<Longrightarrow> set (qsort cmp xs) = set xs \<and> length (qsort cmp xs) = length xs"
  unfolding qsort_ok_def by (metis mset_eq_setD mset_eq_length)

definition by_size :: "hugepage_info \<Rightarrow> hugepage_info \<Rightarrow> bool" where
  "by_size a b \<longleftrightarrow> hi_hugepage_sz b \<le> hi_hugepage_sz a"

lemma qsort_by_size:
  assumes "qsort_ok qsort" "\<forall>hpi \<in> set xs. unat (hi_hugepage_sz hpi) < 2 ^ 31"
  shows "sorted_wrt by_size (qsort compare_hpi xs)"
proof -
  have "sorted_wrt (\<lambda>a b. compare_hpi a b \<le> 0) (qsort compare_hpi xs)"
    using assms compare_hpi_consistent [OF assms(2)] by (auto simp: qsort_ok_def)
  then show ?thesis
    using assms(2) qsort_mem [OF assms(1), of compare_hpi xs]
    by (elim sorted_wrt_mono_rel [rotated]) (auto simp: by_size_def compare_hpi_small word_le_def)
qed

text \<open>The entries in use after a run that returns.\<close>

definition sizes_in_use :: "hugepage_conf \<Rightarrow> hugepage_info list" where
  "sizes_in_use conf = take (hc_num_hugepage_sizes conf) (hc_hugepage_info conf)"

lemma hugepage_info_init_ok:
  assumes "nodes_ok cfg" "infos_ok (hc_hugepage_info conf)" "qsort_ok qsort"
  shows "case hugepage_info_init qsort sys cfg conf known of
      Undefined \<Rightarrow> False
    | Panicked \<Rightarrow> True
    | Returned (r, conf', _) \<Rightarrow> infos_ok (hc_hugepage_info conf') \<and> r \<in> {0, - 1} \<and>
        (r = 0 \<longrightarrow> list_ex usable (sizes_in_use conf') \<and>
          ((\<forall>hpi \<in> set (sizes_in_use conf'). unat (hi_hugepage_sz hpi) < 2 ^ 31) \<longrightarrow> sorted_wrt by_size (sizes_in_use conf')))"
proof (cases "hs_dir sys sys_dir_path")
  case None
  then show ?thesis using assms(2) by (simp add: hugepage_info_init_def)
next
  case (Some dir)
  have post: "sizes_post 0 (sizes_loop sys cfg dir (hc_hugepage_info conf) 0 known [])"
    using assms by (intro sizes_loop_ok) auto
  show ?thesis
  proof (cases "sizes_loop sys cfg dir (hc_hugepage_info conf) 0 known []")
    case (Returned a)
    obtain e infos k d gone where a: "a = (e, infos, k, d, gone)" by (cases a)
    let ?s = "qsort compare_hpi (take k infos)"
    have i: "infos_ok infos" "k \<le> length infos" using post Returned a by (auto simp: infos_ok_def)
    have s: "set ?s = set (take k infos)" "length ?s = k"
      using qsort_mem [OF assms(3)] i(2) by auto
    then have "set ?s \<subseteq> set infos" by (simp add: set_take_subset)
    then have "infos_ok (?s @ drop k infos)"
      using i s by (auto simp: infos_ok_def dest: in_set_dropD)
    then show ?thesis
      using Some Returned a i s qsort_by_size [OF assms(3), of "take k infos"]
      by (auto simp: hugepage_info_init_def sizes_in_use_def Let_def)
  qed (use Some post in \<open>auto simp: hugepage_info_init_def\<close>)
qed

lemma cpu_init_nodes_ok:
  assumes "ec_ok cfg" "length tbl = RTE_MAX_LCORE" "0 < n" "n \<le> RTE_MAX_LCORE"
    and "\<And>i. i < RTE_MAX_LCORE \<Longrightarrow> sys_core_file cpus i \<longleftrightarrow> i < n"
    and "eal_cpu_init cpus tbl cfg = Some (r, cfg')"
  shows "nodes_ok cfg'"
proof -
  let ?S = "(\<lambda>i. sint (eal_cpu_socket_id cpus i)) ` {..<n}"
  have m: "map (rte_socket_id_by_idx cfg') [0..<rte_socket_count cfg'] = sorted_list_of_set ?S"
    using eal_cpu_init_below [OF assms(1-5) refl] assms(6) by auto
  have "rte_socket_id_by_idx cfg' i \<in> ?S" if "i < rte_socket_count cfg'" for i
  proof -
    have "rte_socket_id_by_idx cfg' i \<in> set (map (rte_socket_id_by_idx cfg') [0..<rte_socket_count cfg'])" using that by simp
    then show ?thesis unfolding m by simp
  qed
  then show ?thesis using sint_socket_range [of cpus] by (fastforce simp: nodes_ok_def RTE_MAX_NUMA_NODES_def)
qed


text \<open>A \<open>qsort\<close> by insertion.\<close>

fun insert_by :: "('a \<Rightarrow> 'a \<Rightarrow> int) \<Rightarrow> 'a \<Rightarrow> 'a list \<Rightarrow> 'a list" where
  "insert_by cmp x [] = [x]"
| "insert_by cmp x (y # ys) = (if cmp x y \<le> 0 then x # y # ys else y # insert_by cmp x ys)"

definition insertion_sort :: "('a \<Rightarrow> 'a \<Rightarrow> int) \<Rightarrow> 'a list \<Rightarrow> 'a list" where
  "insertion_sort cmp xs = foldr (insert_by cmp) xs []"

lemma mset_insert_by [simp]: "mset (insert_by cmp x ys) = add_mset x (mset ys)"
  by (induction ys) auto

lemma sorted_insert_by:
  assumes "consistent cmp X" "x \<in> X" "set ys \<subseteq> X" "sorted_wrt (\<lambda>a b. cmp a b \<le> 0) ys"
  shows "sorted_wrt (\<lambda>a b. cmp a b \<le> 0) (insert_by cmp x ys)"
  using assms(3,4)
proof (induction ys)
  case (Cons y ys)
  have "set (insert_by cmp x ys) = insert x (set ys)"
    using mset_insert_by [of cmp x ys] by (metis set_mset_mset set_mset_add_mset_insert)
  moreover have "y \<in> X" using Cons.prems by simp
  moreover from this have "sgn (cmp x y) = - sgn (cmp y x)" using assms(1,2) unfolding consistent_def by blast
  then have "cmp x y \<le> 0 \<or> cmp y x \<le> 0" by (auto simp: sgn_if split: if_splits)
  moreover have trans: "\<forall>a \<in> X. \<forall>b \<in> X. \<forall>c \<in> X. cmp a b \<le> 0 \<longrightarrow> cmp b c \<le> 0 \<longrightarrow> cmp a c \<le> 0"
    using assms(1) unfolding consistent_def by blast
  have "cmp x y \<le> 0 \<Longrightarrow> z \<in> set ys \<Longrightarrow> cmp x z \<le> 0" for z
    using Cons.prems assms(2) trans [rule_format, of x y z] by auto
  ultimately show ?case using Cons by auto
qed simp

lemma insertion_sort_ok: "qsort_ok insertion_sort"
  unfolding qsort_ok_def
proof (intro allI conjI impI)
  fix cmp :: "'a \<Rightarrow> 'a \<Rightarrow> int" and xs :: "'a list"
  have sub: "mset (foldr (insert_by cmp) ys []) = mset ys" for ys by (induction ys) auto
  then show "mset (insertion_sort cmp xs) = mset xs" by (simp add: insertion_sort_def)
  assume c: "consistent cmp (set xs)"
  have "set ys \<subseteq> set xs \<Longrightarrow> sorted_wrt (\<lambda>a b. cmp a b \<le> 0) (foldr (insert_by cmp) ys [])" for ys
  proof (induction ys)
    case (Cons y ys)
    then show ?case using sub [THEN mset_eq_setD, of ys] by (auto intro!: sorted_insert_by [OF c])
  qed simp
  then show "sorted_wrt (\<lambda>a b. cmp a b \<le> 0) (insertion_sort cmp xs)" by (simp add: insertion_sort_def)
qed

definition blank_conf :: hugepage_conf where
  "blank_conf = \<lparr>hc_num_hugepage_sizes = 0, hc_hugepage_info =
     replicate 3 \<lparr>hi_hugepage_sz = 0, hi_hugedir = [], hi_numa_node_count = 0, hi_num_pages = replicate 8 0, hi_lock_descriptor = 0\<rparr>\<rparr>"


text \<open>
  With sizes 2 GB and more apart \<open>compare_hpi\<close> loses the high bits of their difference: pages of 16 GB come after those
  of 2 MB, although the comment promises the largest first.
\<close>

theorem hugepage_order_wrong:
  assumes "qsort_ok qsort" "hi_hugepage_sz a = 2 ^ 34" "hi_hugepage_sz b = 2 ^ 21"
  shows "qsort compare_hpi [a, b] = [b, a] \<and> \<not> sorted_wrt by_size (qsort compare_hpi [a, b])"
proof -
  have c: "compare_hpi a b = 2 ^ 21" "compare_hpi b a = - (2 ^ 21)" "compare_hpi a a = 0" "compare_hpi b b = 0"
    using assms(2,3) by (simp_all add: compare_hpi_def)
  then have "consistent compare_hpi {a, b}" by (simp add: consistent_def)
  then have s: "sorted_wrt (\<lambda>a b. compare_hpi a b \<le> 0) (qsort compare_hpi [a, b])" "mset (qsort compare_hpi [a, b]) = {#a, b#}"
    using assms(1) by (auto simp: qsort_ok_def)
  then have "length (qsort compare_hpi [a, b]) = 2" by (metis mset.simps mset_eq_length length_Cons list.size(3) numeral_2_eq_2)
  then obtain x y where xy: "qsort compare_hpi [a, b] = [x, y]" by (auto simp: numeral_2_eq_2 length_Suc_conv)
  then have "{x, y} = {a, b}" using qsort_mem [OF assms(1), of compare_hpi "[a, b]"] by simp
  moreover have "a \<noteq> b" using assms(2,3) by auto
  ultimately have "x = a \<and> y = b \<or> x = b \<and> y = a" by (auto simp: doubleton_eq_iff)
  then show ?thesis using s(1) xy c assms(2,3) by (auto simp: by_size_def)
qed

theorem hugepage_order_wrong_witness:
  "insertion_sort compare_hpi [hd (hc_hugepage_info blank_conf)\<lparr>hi_hugepage_sz := 2 ^ 34\<rparr>, hd (hc_hugepage_info blank_conf)\<lparr>hi_hugepage_sz := 2 ^ 21\<rparr>] =
    [hd (hc_hugepage_info blank_conf)\<lparr>hi_hugepage_sz := 2 ^ 21\<rparr>, hd (hc_hugepage_info blank_conf)\<lparr>hi_hugepage_sz := 2 ^ 34\<rparr>]"
  using hugepage_order_wrong [OF insertion_sort_ok, of "hd (hc_hugepage_info blank_conf)\<lparr>hi_hugepage_sz := 2 ^ 34\<rparr>"
      "hd (hc_hugepage_info blank_conf)\<lparr>hi_hugepage_sz := 2 ^ 21\<rparr>"] by simp

end
