(* ===== verification/Eal_Mem.thy ===== *)
theory Eal_Mem
  imports Mem_Hugepage
begin

text \<open>
  Physical addresses and the plan of the huge pages: \<open>dpdk_eal/mem.c\<close>.  The configuration the code refers to and does not
  declare (\<open>internal_config\<close>, the logical cores, \<open>get_socket_mem_size\<close>, \<open>eal_memalloc_alloc_seg_bulk\<close>) is a parameter.
  Sizes are 64-bit words and wrap; a division by zero and an access outside an array have no result.
\<close>

subsection \<open>Physical addresses\<close>

definition RTE_BAD_IOVA :: u64 where "RTE_BAD_IOVA = - 1"

text \<open>
  What \<open>/proc/self/pagemap\<close> gives: whether it can be opened and the offset sought, and the value \<open>read\<close> returns with the
  entry it reads.
\<close>

record pagemap =
  pm_page_size :: u64
  pm_open :: bool
  pm_seek :: "u64 \<Rightarrow> bool"
  pm_read :: "u64 \<Rightarrow> int \<times> u64"

definition PFN_MASK_SIZE :: int where "PFN_MASK_SIZE = 8"

definition rte_mem_virt2phy :: "pagemap \<Rightarrow> bool \<Rightarrow> u64 \<Rightarrow> u64" where
  "rte_mem_virt2phy pm phys_addrs_available virtaddr =
     (if \<not> phys_addrs_available then RTE_BAD_IOVA
      else if \<not> pm_open pm then RTE_BAD_IOVA
      else
        let virt_pfn = virtaddr div pm_page_size pm;
            offset = 8 * virt_pfn in
        if \<not> pm_seek pm offset then RTE_BAD_IOVA
        else
          let (retval, page) = pm_read pm offset in
          if retval < 0 then RTE_BAD_IOVA
          else if retval \<noteq> PFN_MASK_SIZE then RTE_BAD_IOVA
          else if page AND 0x7fffffffffffff = 0 then RTE_BAD_IOVA
          else (page AND 0x7fffffffffffff) * pm_page_size pm + virtaddr mod pm_page_size pm)"

text \<open>The static flag after the test; \<open>tmp\<close> is the address of a variable.\<close>

definition test_phys_addrs_available :: "pagemap \<Rightarrow> bool \<Rightarrow> u64 \<Rightarrow> bool" where
  "test_phys_addrs_available pm phys_addrs_available tmp =
     (if rte_mem_virt2phy pm phys_addrs_available tmp = RTE_BAD_IOVA then False else phys_addrs_available)"

record hugepage_file =
  hf_orig_va :: u64
  hf_physaddr :: u64
  hf_size :: u64

fun find_physaddrs_loop :: "pagemap \<Rightarrow> bool \<Rightarrow> nat list \<Rightarrow> hugepage_file list \<Rightarrow> (int \<times> hugepage_file list) option" where
  "find_physaddrs_loop pm avail [] tbl = Some (0, tbl)"
| "find_physaddrs_loop pm avail (i # is) tbl =
     (if length tbl \<le> i then None
      else
        let addr = rte_mem_virt2phy pm avail (hf_orig_va (tbl ! i)) in
        if addr = RTE_BAD_IOVA then Some (- 1, tbl)
        else find_physaddrs_loop pm avail is (tbl[i := (tbl ! i)\<lparr>hf_physaddr := addr\<rparr>]))"

definition find_physaddrs :: "pagemap \<Rightarrow> bool \<Rightarrow> hugepage_file list \<Rightarrow> hugepage_info \<Rightarrow> (int \<times> hugepage_file list) option" where
  "find_physaddrs pm avail tbl hpi = find_physaddrs_loop pm avail [0..<unat (hi_num_pages hpi ! 0)] tbl"

text \<open>The static address is what the next call starts from.\<close>

fun set_physaddrs_loop :: "nat list \<Rightarrow> u64 \<Rightarrow> hugepage_file list \<Rightarrow> (u64 \<times> hugepage_file list) option" where
  "set_physaddrs_loop [] addr tbl = Some (addr, tbl)"
| "set_physaddrs_loop (i # is) addr tbl =
     (if length tbl \<le> i then None
      else set_physaddrs_loop is (addr + hf_size (tbl ! i)) (tbl[i := (tbl ! i)\<lparr>hf_physaddr := addr\<rparr>]))"

definition set_physaddrs :: "u64 \<Rightarrow> hugepage_file list \<Rightarrow> hugepage_info \<Rightarrow> (u64 \<times> hugepage_file list) option" where
  "set_physaddrs addr tbl hpi = set_physaddrs_loop [0..<unat (hi_num_pages hpi ! 0)] addr tbl"

subsection \<open>The memory of each socket\<close>

record internal_config =
  ic_memory :: u64
  ic_force_sockets :: bool
  ic_socket_mem :: "u64 list"
  ic_lcore_sockets :: "nat list"
  ic_lcore_count :: u64
  ic_socket_mem_size :: "nat \<Rightarrow> u64"

definition RTE_MIN64 :: "u64 \<Rightarrow> u64 \<Rightarrow> u64" where "RTE_MIN64 a b = (if a < b then a else b)"

text \<open>The sockets of the cores, counted.\<close>

definition count_cpus :: "nat list \<Rightarrow> nat list" where
  "count_cpus sockets = foldl (\<lambda>cpus s. cpus[s := cpus ! s + 1]) (replicate RTE_MAX_NUMA_NODES 0) sockets"

text \<open>The first loop, which shares the memory by cores, and the second, which takes whatever is available.\<close>

fun share_loop :: "internal_config \<Rightarrow> nat list \<Rightarrow> nat list \<Rightarrow> u64 list \<Rightarrow> u64 \<Rightarrow> u64 list \<times> u64" where
  "share_loop ic cpus [] memory total_size = (memory, total_size)"
| "share_loop ic cpus (socket # ss) memory total_size =
     (if total_size = 0 then (memory, total_size)
      else
        let default_size = (ic_memory ic * of_nat (cpus ! socket)) div ic_lcore_count ic;
            default_size = RTE_MIN64 default_size (ic_socket_mem_size ic socket) in
        share_loop ic cpus ss (memory[socket := default_size]) (total_size - default_size))"

fun rest_loop :: "internal_config \<Rightarrow> nat list \<Rightarrow> u64 list \<Rightarrow> u64 \<Rightarrow> u64 list \<times> u64" where
  "rest_loop ic [] memory total_size = (memory, total_size)"
| "rest_loop ic (socket # ss) memory total_size =
     (if total_size = 0 then (memory, total_size)
      else
        let default_size = RTE_MIN64 (ic_socket_mem_size ic socket - memory ! socket) total_size in
        rest_loop ic ss (memory[socket := memory ! socket + default_size]) (total_size - default_size))"

definition spread_memory :: "internal_config \<Rightarrow> u64 list \<Rightarrow> u64 list option" where
  "spread_memory ic memory =
     (if ic_lcore_count ic = 0 \<and> ic_memory ic \<noteq> 0 \<or> (\<exists>s \<in> set (ic_lcore_sockets ic). s \<ge> RTE_MAX_NUMA_NODES) then None
      else
        let (memory, total_size) =
          share_loop ic (count_cpus (ic_lcore_sockets ic)) [0..<RTE_MAX_NUMA_NODES] memory (ic_memory ic) in
        Some (fst (rest_loop ic [0..<RTE_MAX_NUMA_NODES] memory total_size)))"

subsection \<open>The pages of each socket\<close>

text \<open>The number of pages of an entry on a socket, and an entry with it set.\<close>

definition pages_at :: "hugepage_info list \<Rightarrow> nat \<Rightarrow> nat \<Rightarrow> u32" where
  "pages_at infos i socket = hi_num_pages (infos ! i) ! socket"

definition set_pages :: "hugepage_info list \<Rightarrow> nat \<Rightarrow> nat \<Rightarrow> u32 \<Rightarrow> hugepage_info list" where
  "set_pages infos i socket n = infos[i := (infos ! i)\<lparr>hi_num_pages := (hi_num_pages (infos ! i))[socket := n]\<rparr>]"

text \<open>What the sizes from \<open>j\<close> on still have.\<close>

definition remaining :: "hugepage_info list \<Rightarrow> nat \<Rightarrow> nat \<Rightarrow> nat \<Rightarrow> u64" where
  "remaining hp_info socket j num_hp_info =
     foldl (\<lambda>m j. m + hi_hugepage_sz (hp_info ! j) * ucast (pages_at hp_info j socket)) 0 [j..<num_hp_info]"

text \<open>
  The loop over the sizes for one socket, from the size \<open>i\<close>: the memory still wanted of the socket and in total, the entries
  used, and the pages counted.
\<close>

function pages_loop :: "hugepage_info list \<Rightarrow> nat \<Rightarrow> nat \<Rightarrow> nat \<Rightarrow> u64 \<Rightarrow> u64 \<Rightarrow> hugepage_info list \<Rightarrow> int \<Rightarrow>
    (u64 \<times> u64 \<times> hugepage_info list \<times> int) option" where
  "pages_loop hp_info num_hp_info socket i mem total_mem hp_used total_num_pages =
     (if i < num_hp_info \<and> mem \<noteq> 0 then
        if hi_hugepage_sz (hp_info ! i) = 0 then None
        else
          let hp_used = hp_used[i := (hp_used ! i)\<lparr>hi_hugedir := hi_hugedir (hp_info ! i)\<rparr>];
              hp_used = set_pages hp_used i socket
                (ucast (RTE_MIN64 (mem div hi_hugepage_sz (hp_info ! i)) (ucast (pages_at hp_info i socket))));
              cur_mem = ucast (pages_at hp_used i socket) * hi_hugepage_sz (hp_used ! i);
              mem = mem - cur_mem;
              total_mem = total_mem - cur_mem;
              total_num_pages = total_num_pages + int (unat (pages_at hp_used i socket)) in
          if mem = 0 then Some (mem, total_mem, hp_used, total_num_pages)
          else if pages_at hp_used i socket = pages_at hp_info i socket
          then pages_loop hp_info num_hp_info socket (i + 1) mem total_mem hp_used total_num_pages
          else if remaining hp_info socket (i + 1) num_hp_info < mem
          then
            let cur_mem = RTE_MIN64 mem (hi_hugepage_sz (hp_info ! i));
                hp_used = set_pages hp_used i socket (pages_at hp_used i socket + 1) in
            Some (mem - cur_mem, total_mem - cur_mem, hp_used, total_num_pages + 1)
          else pages_loop hp_info num_hp_info socket (i + 1) mem total_mem hp_used total_num_pages
      else Some (mem, total_mem, hp_used, total_num_pages))"
  by pat_completeness auto
termination by (relation "measure (\<lambda>(_, n, _, i, _). n - i)") auto

declare pages_loop.simps [simp del]

text \<open>The loop over the sockets: the value returned, the memory left and the entries used.\<close>

fun sockets_loop :: "internal_config \<Rightarrow> hugepage_info list \<Rightarrow> nat \<Rightarrow> nat list \<Rightarrow> u64 list \<Rightarrow> u64 \<Rightarrow> hugepage_info list \<Rightarrow> int \<Rightarrow>
    (int \<times> u64 list \<times> hugepage_info list) option" where
  "sockets_loop ic hp_info num_hp_info [] memory total_mem hp_used total_num_pages =
     Some (if total_mem > 0 then - 1 else total_num_pages, memory, hp_used)"
| "sockets_loop ic hp_info num_hp_info (socket # ss) memory total_mem hp_used total_num_pages =
     (if total_mem = 0 then Some (total_num_pages, memory, hp_used)
      else do {
        (mem, total_mem, hp_used, total_num_pages) \<leftarrow>
          pages_loop hp_info num_hp_info socket 0 (memory ! socket) total_mem hp_used total_num_pages;
        let memory = memory[socket := mem] in
        if mem > 0 \<and> ic_socket_mem ic ! socket \<noteq> 0 then Some (- 1, memory, hp_used)
        else sockets_loop ic hp_info num_hp_info ss memory total_mem hp_used total_num_pages })"

definition calc_num_pages_per_socket ::
    "internal_config \<Rightarrow> u64 list \<Rightarrow> hugepage_info list \<Rightarrow> hugepage_info list \<Rightarrow> nat \<Rightarrow> (int \<times> u64 list \<times> hugepage_info list) option" where
  "calc_num_pages_per_socket ic memory hp_info hp_used num_hp_info =
     (if num_hp_info = 0 then Some (- 1, memory, hp_used)
      else do {
        memory \<leftarrow> (if \<not> ic_force_sockets ic then spread_memory ic memory else Some memory);
        sockets_loop ic hp_info num_hp_info [0..<RTE_MAX_NUMA_NODES] memory (ic_memory ic) hp_used 0 })"

text \<open>
  \<open>eal_hugepage_init\<close>: the entries used start as zeros with the sizes known.  \<open>alloc\<close> stands for
  \<open>eal_memalloc_alloc_seg_bulk\<close>: given a number of pages, their size and the socket it returns how many it has allocated, or a
  negative number.  The result carries the pages marked \<open>RTE_MEMSEG_FLAG_DO_NOT_FREE\<close>, by size and socket.
\<close>

definition zeroed_hp :: hugepage_info where
  "zeroed_hp = \<lparr>hi_hugepage_sz = 0, hi_hugedir = [], hi_numa_node_count = 0, hi_num_pages = replicate RTE_MAX_NUMA_NODES 0,
     hi_lock_descriptor = 0\<rparr>"

definition used_hp :: "hugepage_conf \<Rightarrow> hugepage_info list" where
  "used_hp conf = map (\<lambda>i. if i < hc_num_hugepage_sizes conf
     then zeroed_hp\<lparr>hi_hugepage_sz := hi_hugepage_sz (hc_hugepage_info conf ! i)\<rparr> else zeroed_hp) [0..<MAX_HUGEPAGE_SIZES]"

fun alloc_loop :: "(u32 \<Rightarrow> u64 \<Rightarrow> nat \<Rightarrow> int) \<Rightarrow> hugepage_info list \<Rightarrow> (nat \<times> nat) list \<Rightarrow> (nat \<times> nat \<times> int) list \<Rightarrow>
    int \<times> (nat \<times> nat \<times> int) list" where
  "alloc_loop alloc used [] marked = (0, marked)"
| "alloc_loop alloc used ((i, socket) # ps) marked =
     (let num_pages = pages_at used i socket in
      if num_pages = 0 then alloc_loop alloc used ps marked
      else
        let num_pages_alloc = alloc num_pages (hi_hugepage_sz (used ! i)) socket in
        if num_pages_alloc < 0 then (- 1, marked)
        else alloc_loop alloc used ps (marked @ [(i, socket, num_pages_alloc)]))"

definition eal_hugepage_init ::
    "internal_config \<Rightarrow> (u32 \<Rightarrow> u64 \<Rightarrow> nat \<Rightarrow> int) \<Rightarrow> u64 list \<Rightarrow> hugepage_conf \<Rightarrow> (int \<times> (nat \<times> nat \<times> int) list) option" where
  "eal_hugepage_init ic alloc memory conf = do {
     (r, memory, used) \<leftarrow> calc_num_pages_per_socket ic memory (hc_hugepage_info conf) (used_hp conf) (hc_num_hugepage_sizes conf);
     if r < 0 then Some (- 1, [])
     else Some (alloc_loop alloc used (List.product [0..<hc_num_hugepage_sizes conf] [0..<RTE_MAX_NUMA_NODES]) []) }"

subsection \<open>One socket\<close>

text \<open>What the sizes from \<open>k\<close> on offer on a socket, as a natural number.\<close>

definition offer :: "hugepage_info list \<Rightarrow> nat \<Rightarrow> nat \<Rightarrow> nat \<Rightarrow> nat" where
  "offer infos socket k num = sum_list (map (\<lambda>j. unat (pages_at infos j socket) * unat (hi_hugepage_sz (infos ! j))) [k..<num])"

lemma offer_step: "k < num \<Longrightarrow> offer infos socket k num =
    unat (pages_at infos k socket) * unat (hi_hugepage_sz (infos ! k)) + offer infos socket (Suc k) num"
  by (simp add: offer_def upt_conv_Cons)

lemma unat_ucast_pages [simp]: "unat (ucast (w :: u32) :: u64) = unat w"
proof -
  have "unat w < 2 ^ LENGTH(32)" by (rule unsigned_less)
  then show ?thesis by (simp only: unat_ucast_mod) simp
qed

lemma unat_mult_small: "unat a * unat b < 2 ^ 64 \<Longrightarrow> unat (a * b :: u64) = unat a * unat b"
  by (simp add: unat_word_ariths)

lemma remaining_offer:
  assumes "offer infos socket k num < 2 ^ 64"
  shows "unat (remaining infos socket k num) = offer infos socket k num"
proof -
  have "unat (foldl (\<lambda>m j. m + hi_hugepage_sz (infos ! j) * ucast (pages_at infos j socket)) m is) =
      unat m + sum_list (map (\<lambda>j. unat (pages_at infos j socket) * unat (hi_hugepage_sz (infos ! j))) is)"
    if "unat m + sum_list (map (\<lambda>j. unat (pages_at infos j socket) * unat (hi_hugepage_sz (infos ! j))) is) < 2 ^ 64" for m :: u64 and "is"
    using that
  proof (induction "is" arbitrary: m)
    case (Cons j js)
    let ?p = "unat (pages_at infos j socket) * unat (hi_hugepage_sz (infos ! j))"
    have "unat (hi_hugepage_sz (infos ! j) * ucast (pages_at infos j socket) :: u64) = ?p"
      using Cons.prems by (subst unat_mult_small) (simp_all add: mult.commute)
    moreover from this have "unat (m + hi_hugepage_sz (infos ! j) * ucast (pages_at infos j socket)) = unat m + ?p"
      using Cons.prems by (subst unat_add_no_wrap) simp_all
    ultimately show ?case using Cons.IH [of "m + hi_hugepage_sz (infos ! j) * ucast (pages_at infos j socket)"] Cons.prems by simp
  qed simp
  from this [of 0 "[k..<num]"] show ?thesis using assms by (simp add: remaining_def offer_def)
qed

text \<open>
  The entries used after the sizes from \<open>k\<close> on have been gone through for \<open>m\<close> bytes: only their pages on the socket have
  changed, there are no more than were available, they hold the \<open>m\<close> bytes, and there are \<open>t\<close> of them.
\<close>

definition planned :: "hugepage_info list \<Rightarrow> nat \<Rightarrow> nat \<Rightarrow> nat \<Rightarrow> nat \<Rightarrow> hugepage_info list \<Rightarrow> hugepage_info list \<Rightarrow> nat \<Rightarrow> bool" where
  "planned hp_info num socket k m used used' t \<longleftrightarrow>
    length used' = length used \<and>
    (\<forall>i < length used. hi_hugepage_sz (used' ! i) = hi_hugepage_sz (used ! i) \<and>
      length (hi_num_pages (used' ! i)) = length (hi_num_pages (used ! i)) \<and>
      (\<forall>s. s \<noteq> socket \<or> i < k \<or> num \<le> i \<longrightarrow> pages_at used' i s = pages_at used i s)) \<and>
    (\<forall>i. k \<le> i \<longrightarrow> i < num \<longrightarrow> pages_at used' i socket \<le> pages_at hp_info i socket) \<and>
    m \<le> offer used' socket k num \<and> t = sum_list (map (\<lambda>i. unat (pages_at used' i socket)) [k..<num])"

lemma planned_nothing:
  assumes "\<forall>i. k \<le> i \<longrightarrow> i < num \<longrightarrow> pages_at used i socket = 0"
  shows "planned hp_info num socket k 0 used used 0"
  using assms by (auto simp: planned_def)

definition with_dir :: "hugepage_info list \<Rightarrow> nat \<Rightarrow> string \<Rightarrow> hugepage_info list" where
  "with_dir infos i dir = infos[i := (infos ! i)\<lparr>hi_hugedir := dir\<rparr>]"

definition take_pages :: "hugepage_info list \<Rightarrow> nat \<Rightarrow> nat \<Rightarrow> string \<Rightarrow> u32 \<Rightarrow> hugepage_info list" where
  "take_pages used k socket dir q = set_pages (with_dir used k dir) k socket q"

lemma nth_updated_field:
  "f (xs[k := x] ! i) = (if i = k \<and> k < length xs then f x else f (xs ! i))"
  by (cases "k < length xs") (auto simp: nth_list_update list_update_beyond not_less)

lemma take_pages_simps [simp]:
  "length (take_pages used k socket dir q) = length used"
  "hi_hugepage_sz (take_pages used k socket dir q ! i) = hi_hugepage_sz (used ! i)"
  "length (hi_num_pages (take_pages used k socket dir q ! i)) = length (hi_num_pages (used ! i))"
  by (simp_all add: take_pages_def set_pages_def with_dir_def nth_updated_field)

lemma pages_take:
  assumes "k < length used" "socket < length (hi_num_pages (used ! k))"
  shows "pages_at (take_pages used k socket dir q) i s = (if i = k \<and> s = socket then q else pages_at used i s)"
  using assms by (auto simp: take_pages_def set_pages_def with_dir_def pages_at_def nth_list_update)

lemma set_take_pages:
  assumes "k < length used" "socket < length (hi_num_pages (used ! k))"
  shows "set_pages (take_pages used k socket dir q) k socket q' = take_pages used k socket dir q'"
  using assms by (simp add: take_pages_def set_pages_def with_dir_def)

lemma planned_take:
  assumes rest: "planned hp_info num socket (Suc k) m' (take_pages used k socket dir q) used' t"
    and k: "k < num" "num \<le> length used" "socket < length (hi_num_pages (used ! k))"
    and q: "q \<le> pages_at hp_info k socket" "m \<le> unat q * unat (hi_hugepage_sz (used ! k)) + m'"
  shows "planned hp_info num socket k m used used' (unat q + t)"
proof -
  have at_k: "pages_at used' k socket = q" "hi_hugepage_sz (used' ! k) = hi_hugepage_sz (used ! k)"
    using rest k by (auto simp: planned_def pages_take)
  then have "offer used' socket k num = unat q * unat (hi_hugepage_sz (used ! k)) + offer used' socket (Suc k) num"
    using k by (simp add: offer_step)
  then have "m \<le> offer used' socket k num" using rest q(2) by (simp add: planned_def)
  moreover have "pages_at used' i socket \<le> pages_at hp_info i socket" if "k \<le> i" "i < num" for i
    using that rest q(1) at_k by (cases "i = k") (auto simp: planned_def)
  moreover have "\<forall>i < length used. hi_hugepage_sz (used' ! i) = hi_hugepage_sz (used ! i) \<and>
      length (hi_num_pages (used' ! i)) = length (hi_num_pages (used ! i)) \<and>
      (\<forall>s. s \<noteq> socket \<or> i < k \<or> num \<le> i \<longrightarrow> pages_at used' i s = pages_at used i s)"
    using rest k by (auto simp: planned_def pages_take)
  ultimately show ?thesis using rest k at_k by (simp add: planned_def upt_conv_Cons)
qed

text \<open>The body of the loop, with \<open>q\<close> pages taken of the size \<open>k\<close>.\<close>

lemma pages_loop_body:
  assumes "k < num" "mem \<noteq> 0" "hi_hugepage_sz (hp_info ! k) \<noteq> 0" "hi_hugepage_sz (used ! k) = hi_hugepage_sz (hp_info ! k)"
    and "k < length used" "socket < length (hi_num_pages (used ! k))"
  defines "z \<equiv> unat (hi_hugepage_sz (hp_info ! k))" and "a \<equiv> unat (pages_at hp_info k socket)"
  defines "q \<equiv> min (unat mem div z) a"
  defines "used1 \<equiv> take_pages used k socket (hi_hugedir (hp_info ! k)) (of_nat q)"
  defines "cur \<equiv> of_nat q * hi_hugepage_sz (hp_info ! k)"
  shows "pages_loop hp_info num socket k mem total_mem used n =
    (if mem - cur = 0 then Some (0, total_mem - cur, used1, n + int q)
     else if q = a then pages_loop hp_info num socket (Suc k) (mem - cur) (total_mem - cur) used1 (n + int q)
     else if remaining hp_info socket (Suc k) num < mem - cur
     then Some (mem - cur - RTE_MIN64 (mem - cur) (hi_hugepage_sz (hp_info ! k)),
       total_mem - cur - RTE_MIN64 (mem - cur) (hi_hugepage_sz (hp_info ! k)),
       take_pages used k socket (hi_hugedir (hp_info ! k)) (of_nat q + 1), n + int q + 1)
     else pages_loop hp_info num socket (Suc k) (mem - cur) (total_mem - cur) used1 (n + int q))"
    and "unat cur = q * z" "unat (mem - cur) = unat mem - q * z" "unat (of_nat q :: u32) = q"
proof -
  have a32: "a < 2 ^ 32" using unsigned_less [of "pages_at hp_info k socket"] by (simp add: a_def)
  then have "q < 2 ^ 32" by (simp add: q_def min_less_iff_disj)
  then show q32: "unat (of_nat q :: u32) = q" by (intro unat_of_nat_small) simp
  have q64: "unat (of_nat q :: u64) = q" using \<open>q < 2 ^ 32\<close> by (intro unat_of_nat_small) simp
  have le: "q * z \<le> unat mem"
    by (metis div_times_less_eq_dividend le_trans min.cobounded1 mult_le_mono1 q_def)
  moreover have "unat mem < 2 ^ 64" using unsigned_less [of mem] by simp
  ultimately show cur: "unat cur = q * z" unfolding cur_def using q64 by (subst unat_mult_small) (simp_all add: z_def)
  then have "cur \<le> mem" using le by (simp add: word_le_nat_alt)
  then show "unat (mem - cur) = unat mem - q * z" using cur by (simp add: unat_sub_le)
  have "RTE_MIN64 (mem div hi_hugepage_sz (hp_info ! k)) (ucast (pages_at hp_info k socket)) = of_nat q"
  proof -
    have "unat (RTE_MIN64 (mem div hi_hugepage_sz (hp_info ! k)) (ucast (pages_at hp_info k socket))) = q"
      by (auto simp: RTE_MIN64_def q_def a_def z_def word_less_nat_alt unat_div min_def)
    then show ?thesis by (metis of_nat_unat_same)
  qed
  moreover have "unat (ucast (of_nat q :: u64) :: u32) = q"
    using \<open>q < 2 ^ 32\<close> by (simp only: unat_ucast_mod q64) simp
  then have "ucast (of_nat q :: u64) = (of_nat q :: u32)" by (metis of_nat_unat_same)
  moreover have "ucast (of_nat m :: u32) = (of_nat m :: u64)" if "m < 2 ^ 32" for m
    using that unat_ucast_pages [of "of_nat m"] unat_of_nat_small [where 'a = 32, of m] by (metis len_bit0 len_num1 mult_1_right num_double numeral_times_numeral of_nat_unat_same)
  then have "ucast (of_nat q :: u32) = (of_nat q :: u64)" "ucast (of_nat a :: u32) = (of_nat a :: u64)"
    using \<open>q < 2 ^ 32\<close> a32 by auto
  moreover have "(of_nat q :: u32) = pages_at hp_info k socket \<longleftrightarrow> q = a" using q32 by (metis a_def of_nat_unat_same)
  moreover have "uint (of_nat m :: u32) = int m" if "m < 2 ^ 32" for m
    using that by (simp add: unsigned_of_nat take_bit_nat_eq_self_iff)
  then have "uint (of_nat q :: u32) = int q" "uint (of_nat a :: u32) = int a" using \<open>q < 2 ^ 32\<close> a32 by auto
  ultimately show "pages_loop hp_info num socket k mem total_mem used n =
    (if mem - cur = 0 then Some (0, total_mem - cur, used1, n + int q)
     else if q = a then pages_loop hp_info num socket (Suc k) (mem - cur) (total_mem - cur) used1 (n + int q)
     else if remaining hp_info socket (Suc k) num < mem - cur
     then Some (mem - cur - RTE_MIN64 (mem - cur) (hi_hugepage_sz (hp_info ! k)),
       total_mem - cur - RTE_MIN64 (mem - cur) (hi_hugepage_sz (hp_info ! k)),
       take_pages used k socket (hi_hugedir (hp_info ! k)) (of_nat q + 1), n + int q + 1)
     else pages_loop hp_info num socket (Suc k) (mem - cur) (total_mem - cur) used1 (n + int q))"
    using assms(1-4) q32
    by (subst pages_loop.simps)
      (simp add: Let_def cur_def used1_def take_pages_def [symmetric] with_dir_def [symmetric] set_take_pages [OF assms(5,6)]
        pages_take [OF assms(5,6)])
qed

text \<open>The arrays are long enough, the sizes are positive and known to the entries used.\<close>

definition entries_ok :: "hugepage_info list \<Rightarrow> nat \<Rightarrow> hugepage_info list \<Rightarrow> bool" where
  "entries_ok hp_info num used \<longleftrightarrow> num \<le> length used \<and>
    (\<forall>i < num. hi_hugepage_sz (hp_info ! i) \<noteq> 0 \<and> hi_hugepage_sz (used ! i) = hi_hugepage_sz (hp_info ! i) \<and>
      length (hi_num_pages (used ! i)) = RTE_MAX_NUMA_NODES)"

definition unused :: "hugepage_info list \<Rightarrow> nat \<Rightarrow> nat \<Rightarrow> nat \<Rightarrow> bool" where
  "unused used num socket k \<longleftrightarrow> (\<forall>i. k \<le> i \<longrightarrow> i < num \<longrightarrow> pages_at used i socket = 0)"

lemma entries_ok_take: "entries_ok hp_info num used \<Longrightarrow> entries_ok hp_info num (take_pages used k socket dir q)"
  by (simp add: entries_ok_def)

lemma pages_loop_ok:
  assumes "entries_ok hp_info num used" "socket < RTE_MAX_NUMA_NODES" "unused used num socket k"
    and "unat mem \<le> offer hp_info socket k num" "offer hp_info socket k num < 2 ^ 64"
  shows "\<exists>used' t. pages_loop hp_info num socket k mem total_mem used n = Some (0, total_mem - mem, used', n + int t) \<and>
    planned hp_info num socket k (unat mem) used used' t"
  using assms
proof (induction "num - k" arbitrary: k mem total_mem used n)
  case (0 k)
  then have "mem = 0" by (simp add: offer_def unsigned_eq_0_iff)
  then show ?case
    using 0 planned_nothing [of k num used socket hp_info]
    by (subst pages_loop.simps) (auto simp: unused_def)
next
  case (Suc d k)
  then have k: "k < num" by simp
  show ?case
  proof (cases "mem = 0")
    case True
    then show ?thesis
      using Suc planned_nothing [of k num used socket hp_info]
      by (subst pages_loop.simps) (auto simp: unused_def)
  next
    case False
    have used: "hi_hugepage_sz (hp_info ! k) \<noteq> 0" "hi_hugepage_sz (used ! k) = hi_hugepage_sz (hp_info ! k)" "num \<le> length used"
      "k < length used" "socket < length (hi_num_pages (used ! k))"
      using Suc.prems(1,2) k by (auto simp: entries_ok_def)
    define z a q dir where "z = unat (hi_hugepage_sz (hp_info ! k))" and "a = unat (pages_at hp_info k socket)"
      and "q = min (unat mem div z) a" and "dir = hi_hugedir (hp_info ! k)"
    define used1 cur where "used1 = take_pages used k socket dir (of_nat q)" and "cur = of_nat q * hi_hugepage_sz (hp_info ! k)"
    note body = pages_loop_body [OF k False used(1,2,4,5), folded z_def a_def, folded q_def dir_def, folded used1_def cur_def]
    have z: "0 < z" using used(1) by (simp add: z_def unat_gt_0)
    have off: "offer hp_info socket k num = a * z + offer hp_info socket (Suc k) num"
      using k by (simp add: offer_step a_def z_def)
    have qa: "(of_nat q :: u32) \<le> pages_at hp_info k socket" using body(4) by (simp add: word_le_nat_alt a_def q_def)
    have un1: "unused used1 num socket (Suc k)" using Suc.prems(3) used(4,5) by (auto simp: unused_def used1_def pages_take)
    have take: "planned hp_info num socket k (unat mem) used used' (q + t)"
      if "planned hp_info num socket (Suc k) (unat (mem - cur)) used1 used' t" for used' t
      using planned_take [OF that [unfolded used1_def] k used(3,5) qa, of "unat mem"] body(2-4) used(2) by (simp add: z_def)
    have IH: "\<exists>used' t. pages_loop hp_info num socket (Suc k) (mem - cur) (total_mem - cur) used1 (n + int q) =
        Some (0, total_mem - cur - (mem - cur), used', n + int q + int t) \<and>
        planned hp_info num socket (Suc k) (unat (mem - cur)) used1 used' t"
      if "unat (mem - cur) \<le> offer hp_info socket (Suc k) num"
      using that Suc.hyps(2) Suc.prems off un1 by (intro Suc.hyps(1)) (auto simp: used1_def entries_ok_take)
    have total: "total_mem - cur - (mem - cur) = total_mem - mem" by simp
    have rem: "unat (remaining hp_info socket (Suc k) num) = offer hp_info socket (Suc k) num"
      using Suc.prems(5) off by (intro remaining_offer) simp
    consider "mem - cur = 0" | "mem - cur \<noteq> 0" "unat (mem - cur) \<le> offer hp_info socket (Suc k) num"
      | "offer hp_info socket (Suc k) num < unat (mem - cur)" by linarith
    then show ?thesis
    proof cases
      case 1
      then have "planned hp_info num socket (Suc k) (unat (mem - cur)) used1 used1 0"
        using planned_nothing [of "Suc k" num used1 socket hp_info] un1 by (simp add: unused_def)
      then show ?thesis using body(1) take [of used1 0] 1 total by auto
    next
      case 2
      then have "\<not> remaining hp_info socket (Suc k) num < mem - cur" using rem by (simp add: word_less_nat_alt)
      then have "pages_loop hp_info num socket k mem total_mem used n =
          pages_loop hp_info num socket (Suc k) (mem - cur) (total_mem - cur) used1 (n + int q)"
        using body(1) 2(1) by simp
      moreover obtain used' t where "pages_loop hp_info num socket (Suc k) (mem - cur) (total_mem - cur) used1 (n + int q) =
          Some (0, total_mem - mem, used', n + int (q + t))" "planned hp_info num socket (Suc k) (unat (mem - cur)) used1 used' t"
        using IH [OF 2(2)] unfolding total by (auto simp: add.assoc)
      ultimately show ?thesis using take by metis
    next
      case 3
      have "q < a"
      proof (rule ccontr)
        assume "\<not> q < a"
        then have "q = a" by (simp add: q_def)
        then show False using 3 body(3) off Suc.prems(4) by simp
      qed
      then have "q = unat mem div z" by (simp add: q_def min_def split: if_splits)
      then have m1: "unat (mem - cur) = unat mem mod z" using body(3) by (simp add: minus_div_mult_eq_mod)
      then have "unat (mem - cur) < z" using z by simp
      then have min: "RTE_MIN64 (mem - cur) (hi_hugepage_sz (hp_info ! k)) = mem - cur"
        by (simp add: RTE_MIN64_def word_less_nat_alt z_def)
      have a32: "a < 2 ^ 32" using unsigned_less [of "pages_at hp_info k socket"] by (simp add: a_def)
      then have q1: "unat (of_nat q + 1 :: u32) = q + 1"
        using \<open>q < a\<close> body(4) unat_add_no_wrap [of "of_nat q :: u32" 1] by simp
      let ?u = "take_pages used k socket dir (of_nat q + 1)"
      have room: "unat mem \<le> (q + 1) * z" using body(3) \<open>unat (mem - cur) < z\<close> by simp
      have "mem - cur \<noteq> 0" "remaining hp_info socket (Suc k) num < mem - cur"
        using 3 rem by (auto simp: word_less_nat_alt)
      then have "pages_loop hp_info num socket k mem total_mem used n = Some (0, total_mem - mem, ?u, n + int (q + 1))"
        using body(1) \<open>q < a\<close> min total by simp
      moreover have "unused ?u num socket (Suc k)" using Suc.prems(3) used(4,5) by (auto simp: unused_def pages_take)
      then have "planned hp_info num socket (Suc k) 0 ?u ?u 0" by (intro planned_nothing) (simp add: unused_def)
      then have "planned hp_info num socket k (unat mem) used ?u (q + 1 + 0)"
        using planned_take [OF _ k used(3,5), of hp_info 0 dir "of_nat q + 1" ?u 0 "unat mem"] q1 \<open>q < a\<close> room used(2)
        by (simp add: word_le_nat_alt a_def [symmetric] z_def [symmetric])
      ultimately show ?thesis by (intro exI [of _ ?u] exI [of _ "q + 1"]) simp
    qed
  qed
qed

subsection \<open>All the sockets\<close>

definition pages_on :: "hugepage_info list \<Rightarrow> nat \<Rightarrow> nat \<Rightarrow> nat" where
  "pages_on infos num socket = sum_list (map (\<lambda>i. unat (pages_at infos i socket)) [0..<num])"

text \<open>The pages used on the sockets \<open>ss\<close> serve the memory of each and are available, and \<open>t\<close> is their number.\<close>

definition served :: "hugepage_info list \<Rightarrow> nat \<Rightarrow> nat list \<Rightarrow> u64 list \<Rightarrow> hugepage_info list \<Rightarrow> nat \<Rightarrow> bool" where
  "served hp_info num ss memory used t \<longleftrightarrow>
    (\<forall>s \<in> set ss. unat (memory ! s) \<le> offer used s 0 num \<and> (\<forall>i < num. pages_at used i s \<le> pages_at hp_info i s)) \<and>
    t = sum_list (map (pages_on used num) ss)"

text \<open>Only the pages of the sockets \<open>ss\<close> differ.\<close>

definition differ_on :: "nat \<Rightarrow> nat set \<Rightarrow> hugepage_info list \<Rightarrow> hugepage_info list \<Rightarrow> bool" where
  "differ_on num S used used' \<longleftrightarrow> length used' = length used \<and>
    (\<forall>i < num. hi_hugepage_sz (used' ! i) = hi_hugepage_sz (used ! i) \<and>
      length (hi_num_pages (used' ! i)) = length (hi_num_pages (used ! i)) \<and>
      (\<forall>s. s \<notin> S \<longrightarrow> pages_at used' i s = pages_at used i s))"

lemma differ_on_refl [simp]: "differ_on num S used used"
  by (simp add: differ_on_def)

lemma differ_on_trans: "differ_on num S used used1 \<Longrightarrow> differ_on num T used1 used2 \<Longrightarrow> differ_on num (S \<union> T) used used2"
  by (auto simp: differ_on_def)

lemma differ_on_offer:
  assumes "differ_on num S used used'" "s \<notin> S"
  shows "offer used' s 0 num = offer used s 0 num" "pages_on used' num s = pages_on used num s"
  using assms by (auto simp: differ_on_def offer_def pages_on_def intro!: arg_cong [of _ _ sum_list])

lemma planned_differ: "planned hp_info num s 0 m used used' t \<Longrightarrow> num \<le> length used \<Longrightarrow> differ_on num {s} used used'"
  by (auto simp: planned_def differ_on_def)

lemma entries_ok_differ: "entries_ok hp_info num used \<Longrightarrow> differ_on num S used used' \<Longrightarrow> entries_ok hp_info num used'"
  by (simp add: entries_ok_def differ_on_def)

lemma unused_differ: "unused used num s 0 \<Longrightarrow> differ_on num S used used' \<Longrightarrow> s \<notin> S \<Longrightarrow> unused used' num s 0"
  by (simp add: unused_def differ_on_def)

lemma served_Cons:
  assumes "planned hp_info num s 0 (unat (memory ! s)) used used1 t" "num \<le> length used"
    and "served hp_info num ss memory1 used2 t'" "differ_on num (set ss) used1 used2" "s \<notin> set ss"
    and "\<forall>s' \<in> set ss. memory1 ! s' = memory ! s'"
  shows "served hp_info num (s # ss) memory used2 (t + t')"
proof -
  have "pages_on used2 num s = t" "unat (memory ! s) \<le> offer used2 s 0 num"
    "\<forall>i < num. pages_at used2 i s \<le> pages_at hp_info i s"
    using assms(1,4,5) differ_on_offer [OF assms(4,5)] by (auto simp: planned_def pages_on_def differ_on_def)
  then show ?thesis using assms(3,6) by (simp add: served_def)
qed

text \<open>When the memory still wanted is that of the next \<open>k\<close> sockets, it is served.\<close>

lemma sockets_loop_ok:
  assumes "entries_ok hp_info num used" "distinct ss" "\<forall>s \<in> set ss. s < RTE_MAX_NUMA_NODES \<and> unused used num s 0"
    and "length memory = RTE_MAX_NUMA_NODES"
    and "\<forall>s \<in> set (take k ss). unat (memory ! s) \<le> offer hp_info s 0 num \<and> offer hp_info s 0 num < 2 ^ 64"
    and "unat total_mem = sum_list (map (\<lambda>s. unat (memory ! s)) (take k ss))"
  shows "\<exists>memory' used' t. sockets_loop ic hp_info num ss memory total_mem used n = Some (n + int t, memory', used') \<and>
    served hp_info num (take k ss) memory used' t \<and> differ_on num (set (take k ss)) used used'"
  using assms
proof (induction ss arbitrary: k memory total_mem used n)
  case Nil
  then have "total_mem = 0" by (simp add: unsigned_eq_0_iff)
  then show ?case by (auto simp: served_def)
next
  case (Cons s ss)
  show ?case
  proof (cases "total_mem = 0")
    case True
    then have z: "\<forall>s' \<in> set (take k (s # ss)). unat (memory ! s') = 0" using Cons.prems(6) by simp
    have "\<forall>s' \<in> set (take k (s # ss)). unused used num s' 0" using Cons.prems(3) by (meson in_set_takeD)
    then have "served hp_info num (take k (s # ss)) memory used 0"
      using z by (auto simp: served_def unused_def pages_on_def)
    then show ?thesis using True by (intro exI [of _ memory] exI [of _ used] exI [of _ 0]) simp
  next
    case False
    then obtain k' where k: "k = Suc k'" using Cons.prems(6) by (cases k) (auto simp: unsigned_eq_0_iff)
    have tot: "unat total_mem = unat (memory ! s) + sum_list (map (\<lambda>s. unat (memory ! s)) (take k' ss))"
      using Cons.prems(6) k by simp
    obtain used1 t where p: "pages_loop hp_info num s 0 (memory ! s) total_mem used n = Some (0, total_mem - memory ! s, used1, n + int t)"
      "planned hp_info num s 0 (unat (memory ! s)) used used1 t"
      using pages_loop_ok [of hp_info num used s 0 "memory ! s" total_mem n] Cons.prems(1,3,5) k by auto
    let ?memory = "memory[s := 0]"
    have len: "num \<le> length used" using Cons.prems(1) by (simp add: entries_ok_def)
    have d1: "differ_on num {s} used used1" by (rule planned_differ [OF p(2) len])
    have mem: "\<forall>s' \<in> set ss. ?memory ! s' = memory ! s'" using Cons.prems(2) by (auto intro!: nth_list_update_neq)
    then have mem': "\<forall>s' \<in> set (take k' ss). ?memory ! s' = memory ! s'" by (meson in_set_takeD)
    have "unused used1 num s' 0" if "s' \<in> set ss" for s'
      using that Cons.prems(2,3) by (intro unused_differ [OF _ d1]) auto
    moreover have "unat (total_mem - memory ! s) = sum_list (map (\<lambda>s. unat (memory ! s)) (take k' ss))"
      using tot by (subst unat_sub_le) (simp_all add: word_le_nat_alt)
    then have "unat (total_mem - memory ! s) = sum_list (map (\<lambda>s. unat (?memory ! s)) (take k' ss))"
      using mem' by (metis (no_types, lifting) map_cong)
    ultimately obtain memory' used' t' where
      IH: "sockets_loop ic hp_info num ss ?memory (total_mem - memory ! s) used1 (n + int t) = Some (n + int t + int t', memory', used')"
      "served hp_info num (take k' ss) ?memory used' t'" "differ_on num (set (take k' ss)) used1 used'"
      using Cons.IH [of used1 ?memory k' "total_mem - memory ! s" "n + int t"] Cons.prems entries_ok_differ [OF _ d1] mem' k
      by auto
    have "served hp_info num (s # take k' ss) memory used' (t + t')"
      using Cons.prems(2) mem' by (intro served_Cons [OF p(2) len IH(2,3)]) (auto dest: in_set_takeD)
    moreover have "differ_on num (set (s # take k' ss)) used used'" using differ_on_trans [OF d1 IH(3)] by simp
    ultimately show ?thesis
      using False p(1) IH(1) k by (intro exI [of _ memory'] exI [of _ used'] exI [of _ "t + t'"]) simp
  qed
qed

text \<open>When more is wanted than that of all the sockets, the result is -1.\<close>

lemma sockets_loop_short:
  assumes "entries_ok hp_info num used" "distinct ss" "\<forall>s \<in> set ss. s < RTE_MAX_NUMA_NODES \<and> unused used num s 0"
    and "\<forall>s \<in> set ss. unat (memory ! s) \<le> offer hp_info s 0 num \<and> offer hp_info s 0 num < 2 ^ 64"
    and "sum_list (map (\<lambda>s. unat (memory ! s)) ss) < unat total_mem"
  shows "map_option fst (sockets_loop ic hp_info num ss memory total_mem used n) = Some (- 1)"
  using assms
proof (induction ss arbitrary: memory total_mem used n)
  case Nil
  then show ?case by (simp add: word_less_nat_alt)
next
  case (Cons s ss)
  obtain used1 t where p: "pages_loop hp_info num s 0 (memory ! s) total_mem used n = Some (0, total_mem - memory ! s, used1, n + int t)"
    "planned hp_info num s 0 (unat (memory ! s)) used used1 t"
    using pages_loop_ok [of hp_info num used s 0 "memory ! s" total_mem n] Cons.prems(1,3,4) by auto
  let ?memory = "memory[s := 0]"
  have "num \<le> length used" using Cons.prems(1) by (simp add: entries_ok_def)
  then have d1: "differ_on num {s} used used1" by (rule planned_differ [OF p(2)])
  have mem: "\<forall>s' \<in> set ss. ?memory ! s' = memory ! s'" using Cons.prems(2) by (auto intro!: nth_list_update_neq)
  have "unused used1 num s' 0" if "s' \<in> set ss" for s'
    using that Cons.prems(2,3) by (intro unused_differ [OF _ d1]) auto
  moreover have "unat (total_mem - memory ! s) = unat total_mem - unat (memory ! s)"
    using Cons.prems(5) by (subst unat_sub_le) (simp_all add: word_le_nat_alt)
  then have "sum_list (map (\<lambda>s. unat (?memory ! s)) ss) < unat (total_mem - memory ! s)"
    using mem Cons.prems(5) by (simp cong: map_cong)
  ultimately have "map_option fst (sockets_loop ic hp_info num ss ?memory (total_mem - memory ! s) used1 (n + int t)) = Some (- 1)"
    using Cons.prems entries_ok_differ [OF _ d1] mem by (intro Cons.IH) auto
  moreover have "total_mem \<noteq> 0" using Cons.prems(5) by auto
  ultimately show ?case using p(1) by simp
qed

subsection \<open>The memory shared among the sockets\<close>

lemma count_cpus_sum:
  assumes "\<forall>s \<in> set sockets. s < RTE_MAX_NUMA_NODES"
  shows "length (count_cpus sockets) = RTE_MAX_NUMA_NODES \<and> sum_list (count_cpus sockets) = length sockets"
proof -
  have "length (foldl (\<lambda>cpus s. cpus[s := cpus ! s + 1]) cpus sockets) = length cpus \<and>
      sum_list (foldl (\<lambda>cpus s. cpus[s := cpus ! s + 1]) cpus sockets) = sum_list cpus + length sockets"
    if "length cpus = RTE_MAX_NUMA_NODES" for cpus :: "nat list"
    using that assms
  proof (induction sockets arbitrary: cpus)
    case (Cons s ss)
    then have "sum_list (cpus[s := cpus ! s + 1]) = sum_list cpus + 1"
      using member_le_sum_list [of "cpus ! s" cpus] by (simp add: sum_list_update)
    then show ?case using Cons by simp
  qed simp
  from this [of "replicate RTE_MAX_NUMA_NODES 0"] show ?thesis by (simp add: count_cpus_def sum_list_replicate)
qed

text \<open>What the sharing needs of the configuration: cores on known sockets, as many as are counted, and no overflow.\<close>

definition config_ok :: "internal_config \<Rightarrow> hugepage_info list \<Rightarrow> nat \<Rightarrow> bool" where
  "config_ok ic hp_info num \<longleftrightarrow>
    (\<forall>s \<in> set (ic_lcore_sockets ic). s < RTE_MAX_NUMA_NODES) \<and> ic_lcore_sockets ic \<noteq> [] \<and>
    unat (ic_lcore_count ic) = length (ic_lcore_sockets ic) \<and>
    unat (ic_memory ic) * length (ic_lcore_sockets ic) < 2 ^ 64 \<and> length (ic_lcore_sockets ic) < 2 ^ 64 \<and>
    (\<forall>s < RTE_MAX_NUMA_NODES. offer hp_info s 0 num < 2 ^ 64 \<and> unat (ic_socket_mem_size ic s) = offer hp_info s 0 num)"

lemma share_amount:
  assumes "config_ok ic hp_info num" "c \<le> length (ic_lcore_sockets ic)"
  shows "unat ((ic_memory ic * of_nat c) div ic_lcore_count ic) = unat (ic_memory ic) * c div length (ic_lcore_sockets ic)"
proof -
  have "unat (of_nat c :: u64) = c" using assms by (intro unat_of_nat_small) (auto simp: config_ok_def)
  moreover have "unat (ic_memory ic) * c < 2 ^ 64"
    using assms by (auto simp: config_ok_def intro: le_less_trans [OF mult_le_mono2])
  ultimately have "unat (ic_memory ic * of_nat c) = unat (ic_memory ic) * c" by (subst unat_mult_small) simp_all
  then show ?thesis using assms(1) by (simp add: unat_div config_ok_def)
qed

lemma unat_RTE_MIN64: "unat (RTE_MIN64 a b) = min (unat a) (unat b)"
  by (auto simp: RTE_MIN64_def word_less_nat_alt min_def)

text \<open>
  The state of the memory while it is shared: what the sockets \<open>S\<close> have been given they can offer, the others have what they
  had, and together with the rest it makes up the total.
\<close>

definition shared :: "hugepage_info list \<Rightarrow> nat \<Rightarrow> nat list \<Rightarrow> u64 list \<Rightarrow> u64 list \<Rightarrow> nat \<Rightarrow> bool" where
  "shared hp_info num ss memory memory' given \<longleftrightarrow> length memory' = length memory \<and>
    (\<forall>s. s \<notin> set ss \<longrightarrow> memory' ! s = memory ! s) \<and>
    (\<forall>s \<in> set ss. unat (memory' ! s) \<le> offer hp_info s 0 num) \<and>
    sum_list (map (\<lambda>s. unat (memory' ! s)) ss) = given"

lemma shared_Cons:
  assumes "shared hp_info num ss (memory[s := m]) memory' given" "s \<notin> set ss" "s < length memory" "unat m \<le> offer hp_info s 0 num"
  shows "shared hp_info num (s # ss) memory memory' (unat m + given)"
  using assms by (auto simp: shared_def)

lemma share_loop_ok:
  assumes "config_ok ic hp_info num" "distinct ss" "\<forall>s \<in> set ss. s < length memory \<and> s < RTE_MAX_NUMA_NODES"
    and "\<forall>s \<in> set ss. cpus ! s \<le> length (ic_lcore_sockets ic)"
    and "sum_list (map (\<lambda>s. unat (ic_memory ic) * cpus ! s div length (ic_lcore_sockets ic)) ss) \<le> unat total_size"
  shows "\<exists>k memory' rest. share_loop ic cpus ss memory total_size = (memory', rest) \<and> unat rest \<le> unat total_size \<and>
    shared hp_info num (take k ss) memory memory' (unat total_size - unat rest) \<and> (rest = 0 \<or> length ss \<le> k)"
  using assms(2-5)
proof (induction ss arbitrary: memory total_size)
  case Nil
  then show ?case by (auto simp: shared_def)
next
  case (Cons s ss)
  show ?case
  proof (cases "total_size = 0")
    case True
    then show ?thesis by (intro exI [of _ 0]) (auto simp: shared_def)
  next
    case False
    define d where "d = RTE_MIN64 ((ic_memory ic * of_nat (cpus ! s)) div ic_lcore_count ic) (ic_socket_mem_size ic s)"
    have d: "unat d = min (unat (ic_memory ic) * cpus ! s div length (ic_lcore_sockets ic)) (offer hp_info s 0 num)"
      using share_amount [OF assms(1), of "cpus ! s"] Cons.prems(2,3) assms(1) by (simp add: d_def unat_RTE_MIN64 config_ok_def)
    then have le: "unat d + sum_list (map (\<lambda>s. unat (ic_memory ic) * cpus ! s div length (ic_lcore_sockets ic)) ss) \<le> unat total_size"
      using Cons.prems(4) by simp
    then have sub: "unat (total_size - d) = unat total_size - unat d" by (subst unat_sub_le) (simp_all add: word_le_nat_alt)
    then have prem: "sum_list (map (\<lambda>s. unat (ic_memory ic) * cpus ! s div length (ic_lcore_sockets ic)) ss) \<le> unat (total_size - d)"
      using le by simp
    obtain k memory' rest where IH: "share_loop ic cpus ss (memory[s := d]) (total_size - d) = (memory', rest)"
      "unat rest \<le> unat (total_size - d)" "shared hp_info num (take k ss) (memory[s := d]) memory' (unat (total_size - d) - unat rest)"
      "rest = 0 \<or> length ss \<le> k"
      using Cons.IH [of "memory[s := d]" "total_size - d"] Cons.prems prem by auto
    have "shared hp_info num (s # take k ss) memory memory' (unat d + (unat (total_size - d) - unat rest))"
      using Cons.prems(1,2) d by (intro shared_Cons [OF IH(3)]) (auto dest: in_set_takeD)
    then show ?thesis
      using IH False sub le by (intro exI [of _ "Suc k"]) (auto simp: d_def [symmetric] Let_def)
  qed
qed

lemma rest_loop_ok:
  assumes "config_ok ic hp_info num" "distinct ss" "\<forall>s \<in> set ss. s < length memory \<and> s < RTE_MAX_NUMA_NODES"
    and "\<forall>s \<in> set ss. unat (memory ! s) \<le> offer hp_info s 0 num"
  shows "\<exists>memory' rest. rest_loop ic ss memory total_size = (memory', rest) \<and> unat rest \<le> unat total_size \<and>
    shared hp_info num ss memory memory' (sum_list (map (\<lambda>s. unat (memory ! s)) ss) + (unat total_size - unat rest)) \<and>
    (rest = 0 \<or> (\<forall>s \<in> set ss. unat (memory' ! s) = offer hp_info s 0 num))"
  using assms(2-4)
proof (induction ss arbitrary: memory total_size)
  case Nil
  then show ?case by (auto simp: shared_def)
next
  case (Cons s ss)
  show ?case
  proof (cases "total_size = 0")
    case True
    then show ?thesis using Cons.prems by (auto simp: shared_def)
  next
    case False
    define d where "d = RTE_MIN64 (ic_socket_mem_size ic s - memory ! s) total_size"
    have "unat (ic_socket_mem_size ic s - memory ! s) = offer hp_info s 0 num - unat (memory ! s)"
      using assms(1) Cons.prems(2,3) by (subst unat_sub_le) (simp_all add: word_le_nat_alt config_ok_def)
    then have d: "unat d = min (offer hp_info s 0 num - unat (memory ! s)) (unat total_size)" by (simp add: d_def unat_RTE_MIN64)
    then have sub: "unat (total_size - d) = unat total_size - unat d" by (subst unat_sub_le) (simp_all add: word_le_nat_alt)
    have "offer hp_info s 0 num < 2 ^ 64" using assms(1) Cons.prems(2) by (simp add: config_ok_def)
    then have add: "unat (memory ! s + d) = unat (memory ! s) + unat d"
      using d Cons.prems(3) by (subst unat_add_no_wrap) auto
    let ?memory = "memory[s := memory ! s + d]"
    have mem: "\<forall>s' \<in> set ss. ?memory ! s' = memory ! s'" using Cons.prems(1) by (auto intro!: nth_list_update_neq)
    then have sum: "sum_list (map (\<lambda>s. unat (?memory ! s)) ss) = sum_list (map (\<lambda>s. unat (memory ! s)) ss)" by (simp cong: map_cong)
    obtain memory' rest where IH: "rest_loop ic ss ?memory (total_size - d) = (memory', rest)"
      "unat rest \<le> unat (total_size - d)"
      "shared hp_info num ss ?memory memory' (sum_list (map (\<lambda>s. unat (?memory ! s)) ss) + (unat (total_size - d) - unat rest))"
      "rest = 0 \<or> (\<forall>s \<in> set ss. unat (memory' ! s) = offer hp_info s 0 num)"
      using Cons.IH [of ?memory "total_size - d"] Cons.prems mem by auto
    have "shared hp_info num (s # ss) memory memory' (unat (memory ! s + d) +
        (sum_list (map (\<lambda>s. unat (?memory ! s)) ss) + (unat (total_size - d) - unat rest)))"
      using Cons.prems d add by (intro shared_Cons [OF IH(3)]) auto
    moreover have "rest = 0 \<or> unat (memory' ! s) = offer hp_info s 0 num"
    proof (cases "rest = 0")
      case False
      then have "unat d < unat total_size" using IH(2) sub by (auto simp: unat_gt_0 [symmetric] simp del: unat_gt_0)
      then show ?thesis using d add IH(3) Cons.prems by (auto simp: shared_def)
    qed simp
    moreover have "unat d \<le> unat total_size" using d by simp
    then have "unat (memory ! s + d) + (sum_list (map (\<lambda>s. unat (?memory ! s)) ss) + (unat (total_size - d) - unat rest)) =
        sum_list (map (\<lambda>s. unat (memory ! s)) (s # ss)) + (unat total_size - unat rest)" "unat rest \<le> unat total_size"
      using sum add sub IH(2) by simp_all
    moreover have "rest_loop ic (s # ss) memory total_size = (memory', rest)" using IH(1) False by (simp add: d_def)
    ultimately show ?thesis using IH(4) by (intro exI [of _ memory'] exI [of _ rest]) (auto simp del: rest_loop.simps)
  qed
qed

abbreviation all_sockets :: "nat list" where "all_sockets \<equiv> [0..<RTE_MAX_NUMA_NODES]"

lemma sum_div_le: "0 < L \<Longrightarrow> sum_list (map (\<lambda>s. M * f s div L) ss) \<le> M * sum_list (map f ss) div (L :: nat)"
proof (induction ss)
  case (Cons s ss)
  have "M * f s div L + M * sum_list (map f ss) div L \<le> (M * f s + M * sum_list (map f ss)) div L"
    by (metis add.commute div_add1_eq le_add1)
  then show ?case using Cons by (simp add: distrib_left)
qed simp

lemma spread_memory_ok:
  assumes "config_ok ic hp_info num" "length memory = RTE_MAX_NUMA_NODES"
  shows "\<exists>memory'. spread_memory ic memory = Some memory' \<and> length memory' = RTE_MAX_NUMA_NODES \<and>
    ((\<exists>k. (\<forall>s \<in> set (take k all_sockets). unat (memory' ! s) \<le> offer hp_info s 0 num) \<and>
        unat (ic_memory ic) = sum_list (map (\<lambda>s. unat (memory' ! s)) (take k all_sockets))) \<or>
     (\<forall>s \<in> set all_sockets. unat (memory' ! s) = offer hp_info s 0 num) \<and>
        sum_list (map (\<lambda>s. unat (memory' ! s)) all_sockets) < unat (ic_memory ic))"
proof -
  let ?cpus = "count_cpus (ic_lcore_sockets ic)" and ?L = "length (ic_lcore_sockets ic)" and ?M = "unat (ic_memory ic)"
  have cpus: "length ?cpus = RTE_MAX_NUMA_NODES" "sum_list ?cpus = ?L"
    using count_cpus_sum [of "ic_lcore_sockets ic"] assms(1) by (auto simp: config_ok_def)
  have L: "0 < ?L" using assms(1) by (simp add: config_ok_def)
  have "map (\<lambda>s. ?cpus ! s) all_sockets = ?cpus" using cpus(1) by (metis map_nth)
  then have "sum_list (map (\<lambda>s. ?M * ?cpus ! s div ?L) all_sockets) \<le> ?M"
    using sum_div_le [OF L, of ?M "\<lambda>s. ?cpus ! s" all_sockets] cpus(2) L by simp
  moreover have "?cpus ! s \<le> ?L" if "s < RTE_MAX_NUMA_NODES" for s
    using that cpus member_le_sum_list [of "?cpus ! s" ?cpus] by simp
  ultimately obtain k memory1 rest1 where share: "share_loop ic ?cpus all_sockets memory (ic_memory ic) = (memory1, rest1)"
    "unat rest1 \<le> ?M" "shared hp_info num (take k all_sockets) memory memory1 (?M - unat rest1)" "rest1 = 0 \<or> RTE_MAX_NUMA_NODES \<le> k"
    using share_loop_ok [OF assms(1), of all_sockets memory ?cpus "ic_memory ic"] assms(2) by auto
  obtain memory2 rest2 where rest: "rest_loop ic all_sockets memory1 rest1 = (memory2, rest2)" by fastforce
  have spread: "spread_memory ic memory = Some memory2"
    using assms(1) share(1) rest L by (auto simp: spread_memory_def config_ok_def not_le)
  show ?thesis
  proof (cases "rest1 = 0")
    case True
    then have "memory2 = memory1" using rest by (auto simp: RTE_MAX_NUMA_NODES_def upt_conv_Cons)
    then show ?thesis
      using spread share(3) True assms(2) by (intro exI [of _ memory1]) (auto simp: shared_def)
  next
    case False
    then have all: "take k all_sockets = all_sockets" using share(4) by simp
    then have given: "sum_list (map (\<lambda>s. unat (memory1 ! s)) all_sockets) = ?M - unat rest1"
      "\<forall>s \<in> set all_sockets. unat (memory1 ! s) \<le> offer hp_info s 0 num" "length memory1 = RTE_MAX_NUMA_NODES"
      using share(3) assms(2) by (auto simp: shared_def)
    then have r: "unat rest2 \<le> unat rest1"
      "shared hp_info num all_sockets memory1 memory2 (?M - unat rest1 + (unat rest1 - unat rest2))"
      "rest2 = 0 \<or> (\<forall>s \<in> set all_sockets. unat (memory2 ! s) = offer hp_info s 0 num)"
      using rest_loop_ok [OF assms(1), of all_sockets memory1 rest1] rest by auto
    then have sum: "sum_list (map (\<lambda>s. unat (memory2 ! s)) all_sockets) = ?M - unat rest2"
      "\<forall>s \<in> set all_sockets. unat (memory2 ! s) \<le> offer hp_info s 0 num" "length memory2 = RTE_MAX_NUMA_NODES"
      using share(2) given(3) by (auto simp: shared_def)
    show ?thesis
    proof (cases "rest2 = 0")
      case True
      then show ?thesis using spread sum by (intro exI [of _ memory2] conjI disjI1 exI [of _ RTE_MAX_NUMA_NODES]) auto
    next
      case False
      then have "0 < unat rest2" by (simp add: unat_gt_0)
      then have "?M - unat rest2 < ?M" using r(1) share(2) by simp
      then show ?thesis using spread sum r(3) False by (intro exI [of _ memory2] conjI disjI2) auto
    qed
  qed
qed

lemma sum_list_take_rest:
  assumes "\<forall>x \<in> set xs. x \<notin> set (take k xs) \<longrightarrow> f x = (0 :: nat)" "distinct xs"
  shows "sum_list (map f (take k xs)) = sum_list (map f xs)"
proof -
  have "set (take k xs) \<inter> set (drop k xs) = {}" using assms(2) by (rule set_take_disj_set_drop_if_distinct) simp
  then have "\<forall>x \<in> set (drop k xs). f x = 0" using assms(1) in_set_dropD by fastforce
  then have "sum_list (map f (drop k xs)) = 0" by (induction "drop k xs") auto
  then show ?thesis
    by (metis add.right_neutral append_take_drop_id map_append sum_list_append)
qed

lemma sum_list_take_le: "sum_list (map f (take k xs)) \<le> (sum_list (map f xs) :: nat)"
  by (metis append_take_drop_id le_add1 map_append sum_list_append)

lemma calc_num_pages_plan:
  assumes "config_ok ic hp_info num" "entries_ok hp_info num used" "0 < num" "\<not> ic_force_sockets ic"
    and "length memory = RTE_MAX_NUMA_NODES" "\<forall>s < RTE_MAX_NUMA_NODES. unused used num s 0"
  shows "if unat (ic_memory ic) \<le> sum_list (map (\<lambda>s. offer hp_info s 0 num) all_sockets)
    then \<exists>t memory' used'. calc_num_pages_per_socket ic memory hp_info used num = Some (int t, memory', used') \<and>
      unat (ic_memory ic) \<le> sum_list (map (\<lambda>s. offer used' s 0 num) all_sockets) \<and>
      (\<forall>i < num. \<forall>s < RTE_MAX_NUMA_NODES. pages_at used' i s \<le> pages_at hp_info i s) \<and>
      t = sum_list (map (pages_on used' num) all_sockets)
    else map_option fst (calc_num_pages_per_socket ic memory hp_info used num) = Some (- 1)"
proof -
  obtain memory1 where m1: "spread_memory ic memory = Some memory1" "length memory1 = RTE_MAX_NUMA_NODES"
    and cases: "(\<exists>k. (\<forall>s \<in> set (take k all_sockets). unat (memory1 ! s) \<le> offer hp_info s 0 num) \<and>
        unat (ic_memory ic) = sum_list (map (\<lambda>s. unat (memory1 ! s)) (take k all_sockets))) \<or>
     (\<forall>s \<in> set all_sockets. unat (memory1 ! s) = offer hp_info s 0 num) \<and>
        sum_list (map (\<lambda>s. unat (memory1 ! s)) all_sockets) < unat (ic_memory ic)"
    using spread_memory_ok [OF assms(1,5)] by auto
  have calc: "calc_num_pages_per_socket ic memory hp_info used num = sockets_loop ic hp_info num all_sockets memory1 (ic_memory ic) used 0"
    using assms(3,4) m1(1) by (simp add: calc_num_pages_per_socket_def)
  have bound: "\<forall>s \<in> set all_sockets. offer hp_info s 0 num < 2 ^ 64" using assms(1) by (simp add: config_ok_def)
  have ready: "\<forall>s \<in> set all_sockets. s < RTE_MAX_NUMA_NODES \<and> unused used num s 0" using assms(6) by simp
  show ?thesis
    using cases
  proof (elim disjE exE conjE)
    fix k
    assume k: "\<forall>s \<in> set (take k all_sockets). unat (memory1 ! s) \<le> offer hp_info s 0 num"
      "unat (ic_memory ic) = sum_list (map (\<lambda>s. unat (memory1 ! s)) (take k all_sockets))"
    have "\<forall>s \<in> set (take k all_sockets). unat (memory1 ! s) \<le> offer hp_info s 0 num \<and> offer hp_info s 0 num < 2 ^ 64"
      using k(1) bound by (meson in_set_takeD)
    from sockets_loop_ok [OF assms(2) _ ready m1(2) this k(2), of ic 0]
    obtain memory' used' t where r: "calc_num_pages_per_socket ic memory hp_info used num = Some (int t, memory', used')"
      "served hp_info num (take k all_sockets) memory1 used' t" "differ_on num (set (take k all_sockets)) used used'"
      by (auto simp: calc)
    have out: "pages_at used' i s = 0" if "s \<notin> set (take k all_sockets)" "s < RTE_MAX_NUMA_NODES" "i < num" for i s
      using that r(3) assms(6) by (simp add: differ_on_def unused_def)
    then have "pages_on used' num s = 0" if "s \<notin> set (take k all_sockets)" "s < RTE_MAX_NUMA_NODES" for s
      using that by (simp add: pages_on_def)
    then have "t = sum_list (map (pages_on used' num) all_sockets)"
      using r(2) sum_list_take_rest [of all_sockets k "pages_on used' num"] by (simp add: served_def)
    moreover have "\<forall>i < num. \<forall>s < RTE_MAX_NUMA_NODES. pages_at used' i s \<le> pages_at hp_info i s"
      using r(2) out by (auto simp: served_def)
    moreover have "sum_list (map (\<lambda>s. unat (memory1 ! s)) (take k all_sockets)) \<le> sum_list (map (\<lambda>s. offer used' s 0 num) (take k all_sockets))"
      using r(2) by (intro sum_list_mono) (simp add: served_def)
    then have "unat (ic_memory ic) \<le> sum_list (map (\<lambda>s. offer used' s 0 num) all_sockets)"
      unfolding k(2) using sum_list_take_le [of "\<lambda>s. offer used' s 0 num" k all_sockets] by simp
    moreover have "unat (ic_memory ic) \<le> sum_list (map (\<lambda>s. offer hp_info s 0 num) (take k all_sockets))"
      unfolding k(2) using k(1) by (intro sum_list_mono) simp
    then have "unat (ic_memory ic) \<le> sum_list (map (\<lambda>s. offer hp_info s 0 num) all_sockets)"
      using sum_list_take_le [of "\<lambda>s. offer hp_info s 0 num" k all_sockets] by simp
    ultimately show ?thesis using r(1) by auto
  next
    assume short: "\<forall>s \<in> set all_sockets. unat (memory1 ! s) = offer hp_info s 0 num"
      "sum_list (map (\<lambda>s. unat (memory1 ! s)) all_sockets) < unat (ic_memory ic)"
    then have "sum_list (map (\<lambda>s. offer hp_info s 0 num) all_sockets) < unat (ic_memory ic)"
      by (metis (no_types, lifting) map_cong)
    moreover have "map_option fst (calc_num_pages_per_socket ic memory hp_info used num) = Some (- 1)"
      unfolding calc using short bound ready assms(2) by (intro sockets_loop_short) auto
    ultimately show ?thesis by simp
  qed
qed


definition two_mb :: "u32 list \<Rightarrow> hugepage_info" where
  "two_mb pages = \<lparr>hi_hugepage_sz = 0x200000, hi_hugedir = ''/mnt/huge'', hi_numa_node_count = 2, hi_num_pages = pages, hi_lock_descriptor = 3\<rparr>"

definition small_plan :: internal_config where
  "small_plan = \<lparr>ic_memory = 0x700000, ic_force_sockets = False, ic_socket_mem = replicate 8 0, ic_lcore_sockets = [0, 0, 1],
     ic_lcore_count = 3, ic_socket_mem_size = (\<lambda>s. remaining [two_mb [3, 5, 0, 0, 0, 0, 0, 0]] s 0 1)\<rparr>"

lemma two_mb_offer: "s < 8 \<Longrightarrow> offer [two_mb [3, 5, 0, 0, 0, 0, 0, 0]] s 0 1 = (if s = 0 then 0x600000 else if s = 1 then 0xA00000 else 0)"
  by (simp add: offer_def pages_at_def two_mb_def nth_Cons')

lemma eight: "all_sockets = [0, 1, 2, 3, 4, 5, 6, 7]"
  by (simp add: RTE_MAX_NUMA_NODES_def upt_rec)


text \<open>The entries \<open>eal_hugepage_init\<close> starts from are those the plan needs.\<close>

lemma used_hp_ready:
  assumes "hc_num_hugepage_sizes conf \<le> MAX_HUGEPAGE_SIZES"
    and "\<forall>i < hc_num_hugepage_sizes conf. hi_hugepage_sz (hc_hugepage_info conf ! i) \<noteq> 0"
  shows "entries_ok (hc_hugepage_info conf) (hc_num_hugepage_sizes conf) (used_hp conf)"
    and "s < RTE_MAX_NUMA_NODES \<Longrightarrow> unused (used_hp conf) (hc_num_hugepage_sizes conf) s 0"
  using assms by (auto simp: entries_ok_def used_hp_def zeroed_hp_def unused_def pages_at_def)

lemma alloc_loop_all:
  assumes "\<forall>n sz s. 0 \<le> alloc n sz s"
  shows "alloc_loop alloc used ps marked =
    (0, marked @ map (\<lambda>(i, s). (i, s, alloc (pages_at used i s) (hi_hugepage_sz (used ! i)) s)) (filter (\<lambda>(i, s). pages_at used i s \<noteq> 0) ps))"
  using assms by (induction ps arbitrary: marked) (auto simp: Let_def not_less)

lemma eal_hugepage_init_status:
  assumes "config_ok ic (hc_hugepage_info conf) (hc_num_hugepage_sizes conf)" "\<not> ic_force_sockets ic"
    and "0 < hc_num_hugepage_sizes conf" "hc_num_hugepage_sizes conf \<le> MAX_HUGEPAGE_SIZES"
    and "\<forall>i < hc_num_hugepage_sizes conf. hi_hugepage_sz (hc_hugepage_info conf ! i) \<noteq> 0"
    and "length memory = RTE_MAX_NUMA_NODES" "\<forall>n sz s. 0 \<le> alloc n sz s"
  shows "map_option fst (eal_hugepage_init ic alloc memory conf) =
    Some (if unat (ic_memory ic) \<le> sum_list (map (\<lambda>s. offer (hc_hugepage_info conf) s 0 (hc_num_hugepage_sizes conf)) all_sockets) then 0 else - 1)"
  using calc_num_pages_plan [OF assms(1) used_hp_ready(1) [OF assms(4,5)] assms(3,2,6)] used_hp_ready(2) [OF assms(4,5)] alloc_loop_all [OF assms(7)]
  by (auto simp: eal_hugepage_init_def split: if_splits)

subsection \<open>Addresses\<close>

text \<open>A physical address is in the frame of the entry, at the offset of the virtual address in its page.\<close>

lemma rte_mem_virt2phy_address:
  assumes "pm_open pm" "unat (pm_page_size pm) = 2 ^ b" "pm_seek pm (8 * (virtaddr div pm_page_size pm))"
    and "pm_read pm (8 * (virtaddr div pm_page_size pm)) = (8, page)" "page AND 0x7fffffffffffff \<noteq> 0"
    and "(unat (page AND 0x7fffffffffffff) + 1) * 2 ^ b \<le> 2 ^ 64"
  shows "unat (rte_mem_virt2phy pm True virtaddr) div 2 ^ b = unat (page AND 0x7fffffffffffff) \<and>
    unat (rte_mem_virt2phy pm True virtaddr) mod 2 ^ b = unat virtaddr mod 2 ^ b"
proof -
  let ?f = "unat (page AND 0x7fffffffffffff)" and ?o = "unat virtaddr mod 2 ^ b"
  have o: "?o < 2 ^ b" by simp
  then have small: "?f * 2 ^ b + ?o < 2 ^ 64" using assms(6) unfolding distrib_right by linarith
  have "unat ((page AND 0x7fffffffffffff) * pm_page_size pm) = ?f * 2 ^ b"
    using small assms(2) by (subst unat_mult_small) simp_all
  moreover have "unat (virtaddr mod pm_page_size pm) = ?o" using assms(2) by (simp add: unat_mod)
  ultimately have "unat ((page AND 0x7fffffffffffff) * pm_page_size pm + virtaddr mod pm_page_size pm) = ?f * 2 ^ b + ?o"
    using small by (subst unat_add_no_wrap) simp_all
  then have "unat (rte_mem_virt2phy pm True virtaddr) = ?f * 2 ^ b + ?o"
    using assms(1,3-5) by (simp add: rte_mem_virt2phy_def PFN_MASK_SIZE_def)
  then show ?thesis using o by simp
qed

text \<open>\<open>set_physaddrs\<close> lays the pages out one behind the other.\<close>

lemma set_physaddrs_loop_layout:
  assumes "set_physaddrs_loop is addr tbl = Some (addr', tbl')" "distinct is"
  shows "addr' = addr + sum_list (map (\<lambda>i. hf_size (tbl ! i)) is) \<and> length tbl' = length tbl \<and>
    (\<forall>i. i \<notin> set is \<longrightarrow> tbl' ! i = tbl ! i) \<and>
    (\<forall>k < length is. hf_physaddr (tbl' ! (is ! k)) = addr + sum_list (map (\<lambda>i. hf_size (tbl ! i)) (take k is)))"
  using assms
proof (induction "is" addr tbl rule: set_physaddrs_loop.induct)
  case (2 i js addr tbl)
  let ?tbl = "tbl[i := (tbl ! i)\<lparr>hf_physaddr := addr\<rparr>]"
  have i: "i < length tbl" "i \<notin> set js" using "2.prems" by (auto split: if_splits)
  have same: "hf_size (?tbl ! j) = hf_size (tbl ! j)" for j using i by (simp add: nth_list_update)
  note IH = "2.IH" [unfolded not_le, OF i(1)]
  have "hf_physaddr (tbl' ! ((i # js) ! k)) = addr + sum_list (map (\<lambda>i. hf_size (tbl ! i)) (take k (i # js)))" if "k < length (i # js)" for k
    using that IH i "2.prems" by (cases k) (auto simp: same add.assoc)
  then show ?case using IH i "2.prems" by (auto simp: same add.assoc)
qed simp

end
