(* ===== verification/Vpn_Stream.thy ===== *)
theory Vpn_Stream
  imports Prelude
begin

text \<open>
  The messages of the VPN (\<open>vpn/com_lib/protocol/vpv_protocol.h\<close>) as bytes, and how server and client cut them out of what a
  socket receives: \<open>on_recv_data\<close> of \<open>vpn/server/business_server.cpp\<close> and \<open>vpn/client/vnp_client.cpp\<close> under the loop of
  \<open>vpn/com_lib/net_lib/sh_socket_server.cpp\<close>.  Numbers are little-endian and the structures packed.  A loop that does not
  return and an access outside the buffer have no result.
\<close>

subsection \<open>Messages\<close>

definition vpn_version :: u8 where "vpn_version = 0xf1"
definition heartbeat :: u8 where "heartbeat = 0x68"
definition creace_tcp_channel :: u8 where "creace_tcp_channel = 0x74"
definition client_register :: u8 where "client_register = 0x72"

record vpn_head =
  m_body_len :: u16
  m_type :: u8
  m_version :: u8

definition sizeof_vpn_head :: nat where "sizeof_vpn_head = 4"
definition sizeof_vpn_client_register :: nat where "sizeof_vpn_client_register = 40"
definition sizeof_vpn_creace_tcp_channel :: nat where "sizeof_vpn_creace_tcp_channel = 80"

definition le16 :: "u16 \<Rightarrow> u8 list" where "le16 w = [ucast w, ucast (drop_bit 8 w)]"

definition le32 :: "u32 \<Rightarrow> u8 list" where
  "le32 w = [ucast w, ucast (drop_bit 8 w), ucast (drop_bit 16 w), ucast (drop_bit 24 w)]"

definition head_bytes :: "vpn_head \<Rightarrow> u8 list" where
  "head_bytes h = le16 (m_body_len h) @ [m_type h, m_version h]"

text \<open>The head at an offset of the buffer.\<close>

definition head_at :: "u8 list \<Rightarrow> nat \<Rightarrow> vpn_head option" where
  "head_at buf off =
     (if off + sizeof_vpn_head \<le> length buf
      then Some \<lparr>m_body_len = ucast (buf ! off) + push_bit 8 (ucast (buf ! (off + 1))), m_type = buf ! (off + 2), m_version = buf ! (off + 3)\<rparr>
      else None)"

definition vpn_heartbeat :: "u8 list" where
  "vpn_heartbeat = head_bytes \<lparr>m_body_len = 0, m_type = heartbeat, m_version = vpn_version\<rparr>"

text \<open>A registration with an id, the address and the name; a message for a channel with the two addresses and the flag.\<close>

definition vpn_client_register :: "u32 \<Rightarrow> u8 list \<Rightarrow> u8 list \<Rightarrow> u8 list" where
  "vpn_client_register clinet_id mac name =
     head_bytes \<lparr>m_body_len = of_nat (sizeof_vpn_client_register - sizeof_vpn_head), m_type = client_register, m_version = vpn_version\<rparr> @
     le32 clinet_id @ mac @ name"

definition vpn_creace_tcp_channel :: "u8 list \<Rightarrow> u32 \<Rightarrow> u8 list \<Rightarrow> u32 \<Rightarrow> u32 \<Rightarrow> u8 list" where
  "vpn_creace_tcp_channel server_ip server_port client_ip client_port flag =
     head_bytes \<lparr>m_body_len = of_nat (sizeof_vpn_creace_tcp_channel - sizeof_vpn_head), m_type = creace_tcp_channel, m_version = vpn_version\<rparr> @
     server_ip @ le32 server_port @ client_ip @ le32 client_port @ le32 flag"

text \<open>Copying bytes into the buffer.\<close>

definition put_bytes :: "u8 list \<Rightarrow> nat \<Rightarrow> u8 list \<Rightarrow> u8 list" where
  "put_bytes buf off bs = take off buf @ bs @ drop (off + length bs) buf"

text \<open>
  What \<open>log_msg\<close> reads is in the buffer: the numbers of the structure, and the strings up to a null character.
\<close>

definition log_msg :: "u8 list \<Rightarrow> nat \<Rightarrow> u8 \<Rightarrow> bool" where
  "log_msg buf off type \<longleftrightarrow>
     (if type = creace_tcp_channel
      then off + sizeof_vpn_creace_tcp_channel \<le> length buf \<and> 0 \<in> set (drop (off + 4) buf) \<and> 0 \<in> set (drop (off + 40) buf)
      else if type = client_register
      then off + sizeof_vpn_client_register \<le> length buf \<and> 0 \<in> set (drop (off + 8) buf) \<and> 0 \<in> set (drop (off + 26) buf)
      else True)"

subsection \<open>Cutting the messages\<close>

definition need_len :: "vpn_head \<Rightarrow> nat" where
  "need_len h = unat (m_body_len h) + sizeof_vpn_head"

text \<open>
  The loop of \<open>on_recv_data\<close>: \<open>off\<close> is where \<open>buff\<close> points, \<open>buff_len\<close> what is left, \<open>deal\<close> is \<open>deal_data\<close>.  While a head is
  complete and its body is not, nothing changes.
\<close>

partial_function (option) recv_loop ::
    "(u8 list \<Rightarrow> nat \<Rightarrow> 's \<Rightarrow> (u8 list \<times> 's) option) \<Rightarrow> u8 list \<Rightarrow> nat \<Rightarrow> nat \<Rightarrow> nat \<Rightarrow> 's \<Rightarrow> (nat \<times> u8 list \<times> 's) option" where
  "recv_loop deal buf off buff_len deal_len st =
     (if buff_len \<ge> sizeof_vpn_head then
        do {
          h \<leftarrow> head_at buf off;
          if buff_len \<ge> need_len h
          then do {
            (buf, st) \<leftarrow> deal buf off st;
            recv_loop deal buf (off + need_len h) (buff_len - need_len h) (deal_len + need_len h) st }
          else recv_loop deal buf off buff_len deal_len st }
      else Some (deal_len, buf, st))"

record socket_data =
  sd_buff_len :: nat
  sd_buff :: "u8 list"

definition SOCKET_CAPACITY :: nat where "SOCKET_CAPACITY = 8 * 1024"

definition on_recv_data ::
    "(u8 list \<Rightarrow> nat \<Rightarrow> 's \<Rightarrow> (u8 list \<times> 's) option) \<Rightarrow> socket_data \<Rightarrow> 's \<Rightarrow> (nat \<times> u8 list \<times> 's) option" where
  "on_recv_data deal d st = recv_loop deal (sd_buff d) 0 (sd_buff_len d) 0 st"

text \<open>
  What the thread of the server does when \<open>recv\<close> has stored \<open>chunk\<close>, a number of bytes that fit: \<open>on_recv_data\<close>, and what
  was not used moves to the front.
\<close>

definition epoll_in ::
    "(u8 list \<Rightarrow> nat \<Rightarrow> 's \<Rightarrow> (u8 list \<times> 's) option) \<Rightarrow> u8 list \<Rightarrow> socket_data \<Rightarrow> 's \<Rightarrow> (socket_data \<times> 's) option" where
  "epoll_in deal chunk d st =
     (let d = d\<lparr>sd_buff := put_bytes (sd_buff d) (sd_buff_len d) chunk, sd_buff_len := sd_buff_len d + length chunk\<rparr> in
      do {
        (use_len, buf, st) \<leftarrow> on_recv_data deal d st;
        let d = d\<lparr>sd_buff := buf\<rparr> in
        if use_len < sd_buff_len d
        then if use_len > 0
          then Some (d\<lparr>sd_buff := put_bytes buf 0 (take (sd_buff_len d - use_len) (drop use_len buf)),
            sd_buff_len := sd_buff_len d - use_len\<rparr>, st)
          else Some (d, st)
        else Some (d\<lparr>sd_buff_len := 0\<rparr>, st) })"

subsection \<open>Messages of a stream\<close>

text \<open>A complete message, and the messages a stream begins with.\<close>

definition message :: "u8 list \<Rightarrow> bool" where
  "message m \<longleftrightarrow> (case head_at m 0 of None \<Rightarrow> False | Some h \<Rightarrow> need_len h = length m)"

function parse :: "u8 list \<Rightarrow> u8 list list \<times> u8 list" where
  "parse bs =
     (case head_at bs 0 of
        None \<Rightarrow> ([], bs)
      | Some h \<Rightarrow>
          if need_len h \<le> length bs
          then (let (ms, rest) = parse (drop (need_len h) bs) in (take (need_len h) bs # ms, rest))
          else ([], bs))"
  by pat_completeness auto
termination by (relation "measure length") (auto simp: need_len_def sizeof_vpn_head_def)

declare parse.simps [simp del]

lemma head_at_append:
  assumes "off + 4 \<le> length bs"
  shows "head_at (bs @ cs) off = head_at bs off"
proof -
  have "(bs @ cs) ! (off + i) = bs ! (off + i)" if "i < 4" for i using assms that by (simp add: nth_append)
  from this [of 0] this [of 1] this [of 2] this [of 3] show ?thesis
    using assms by (simp add: head_at_def sizeof_vpn_head_def)
qed

lemma head_at_prefix: "head_at (pre @ bs) (length pre) = head_at bs 0"
proof -
  have "(pre @ bs) ! (length pre + i) = bs ! i" for i by (simp add: nth_append)
  from this [of 0] this [of 1] this [of 2] this [of 3] show ?thesis
    by (simp add: head_at_def sizeof_vpn_head_def eval_nat_numeral)
qed

lemma head_at_iff: "head_at bs 0 = None \<longleftrightarrow> length bs < 4"
  by (simp add: head_at_def sizeof_vpn_head_def not_le)

lemma need_len_ge [simp]: "4 \<le> need_len h"
  by (simp add: need_len_def sizeof_vpn_head_def)

lemma message_head:
  assumes "message m"
  obtains h where "head_at m 0 = Some h" "need_len h = length m" "4 \<le> length m"
proof -
  obtain h where "head_at m 0 = Some h" "need_len h = length m" using assms by (auto simp: message_def split: option.splits)
  moreover from this have "4 \<le> length m" using need_len_ge [of h] by simp
  ultimately show thesis using that by blast
qed

text \<open>A rest without a complete message.\<close>

definition incomplete :: "u8 list \<Rightarrow> bool" where
  "incomplete r \<longleftrightarrow> (case head_at r 0 of None \<Rightarrow> True | Some h \<Rightarrow> length r < need_len h)"

lemma parse_incomplete: "incomplete r \<Longrightarrow> parse r = ([], r)"
  by (subst parse.simps) (auto simp: incomplete_def split: option.splits)

lemma parse_message: "message m \<Longrightarrow> parse (m @ bs) = (m # fst (parse bs), snd (parse bs))"
  by (erule message_head, subst parse.simps) (simp add: head_at_append split: prod.splits)

lemma parse_messages: "\<forall>m \<in> set ms. message m \<Longrightarrow> parse (concat ms @ bs) = (ms @ fst (parse bs), snd (parse bs))"
  by (induction ms) (simp_all add: parse_message)

lemma message_take:
  assumes "head_at bs 0 = Some h" "need_len h \<le> length bs"
  shows "message (take (need_len h) bs)"
proof -
  have "head_at (take (need_len h) bs @ drop (need_len h) bs) 0 = head_at (take (need_len h) bs) 0"
    using assms by (intro head_at_append) simp
  then have "head_at (take (need_len h) bs) 0 = Some h" using assms(1) by simp
  then show ?thesis using assms(2) by (simp add: message_def min_def)
qed

lemma parse_parts: "concat (fst (parse bs)) @ snd (parse bs) = bs \<and> (\<forall>m \<in> set (fst (parse bs)). message m) \<and> incomplete (snd (parse bs))"
proof (induction bs rule: parse.induct)
  case (1 bs)
  show ?case
  proof (cases "head_at bs 0")
    case None
    then show ?thesis by (subst (1 2 3 4) parse.simps) (simp add: incomplete_def)
  next
    case (Some h)
    show ?thesis
    proof (cases "need_len h \<le> length bs")
      case True
      then have "parse bs = (take (need_len h) bs # fst (parse (drop (need_len h) bs)), snd (parse (drop (need_len h) bs)))"
        using Some by (subst parse.simps) (simp split: prod.splits)
      then show ?thesis using 1 [OF Some True] message_take [OF Some True] by simp
    next
      case False
      then show ?thesis using Some by (subst (1 2 3 4) parse.simps) (simp add: incomplete_def)
    qed
  qed
qed

lemma parse_append:
  "parse (bs @ cs) = (fst (parse bs) @ fst (parse (snd (parse bs) @ cs)), snd (parse (snd (parse bs) @ cs)))"
proof -
  have "bs @ cs = concat (fst (parse bs)) @ (snd (parse bs) @ cs)" using parse_parts [of bs] by (metis append.assoc)
  then show ?thesis using parse_messages [of "fst (parse bs)" "snd (parse bs) @ cs"] parse_parts [of bs] by metis
qed

text \<open>
  What the loop needs of \<open>deal_data\<close>: a message \<open>wf\<close> is dealt with inside its own bytes, with the effect \<open>spec\<close>, wherever it
  stands in the buffer.
\<close>

locale framing =
  fixes deal :: "u8 list \<Rightarrow> nat \<Rightarrow> 's \<Rightarrow> (u8 list \<times> 's) option"
    and wf :: "u8 list \<Rightarrow> bool"
    and spec :: "u8 list \<Rightarrow> 's \<Rightarrow> 's"
  assumes deal_wf: "\<lbrakk>message m; wf m\<rbrakk> \<Longrightarrow>
    \<exists>m'. length m' = length m \<and> deal (pre @ m @ post) (length pre) st = Some (pre @ m' @ post, spec m st)"
begin

lemma recv_loop_messages:
  assumes "\<forall>m \<in> set ms. message m \<and> wf m"
  shows "\<exists>bs'. length bs' = length (concat ms) \<and>
    recv_loop deal (pre @ concat ms @ post) (length pre) (length (concat ms) + k) dealt st =
      recv_loop deal (pre @ bs' @ post) (length pre + length (concat ms)) k (dealt + length (concat ms)) (fold spec ms st)"
  using assms
proof (induction ms arbitrary: pre dealt st)
  case (Cons m ms)
  then obtain h where h: "head_at m 0 = Some h" "need_len h = length m" "4 \<le> length m" by (auto elim: message_head)
  obtain m' where m': "length m' = length m" "deal (pre @ m @ concat ms @ post) (length pre) st = Some (pre @ m' @ concat ms @ post, spec m st)"
    using deal_wf [of m pre "concat ms @ post" st] Cons.prems by auto
  have "head_at (pre @ m @ concat ms @ post) (length pre) = Some h" using h by (simp add: head_at_prefix head_at_append)
  then have step: "recv_loop deal (pre @ m @ concat ms @ post) (length pre) (length (concat (m # ms)) + k) dealt st =
      recv_loop deal (pre @ m' @ concat ms @ post) (length pre + length m) (length (concat ms) + k) (dealt + length m) (spec m st)"
    using h m' by (subst recv_loop.simps) (simp add: sizeof_vpn_head_def)
  obtain bs' where "length bs' = length (concat ms)"
    "recv_loop deal ((pre @ m') @ concat ms @ post) (length (pre @ m')) (length (concat ms) + k) (dealt + length m) (spec m st) =
      recv_loop deal ((pre @ m') @ bs' @ post) (length (pre @ m') + length (concat ms)) k (dealt + length m + length (concat ms)) (fold spec ms (spec m st))"
    using Cons.IH [of "pre @ m'" "dealt + length m" "spec m st"] Cons.prems by auto
  then show ?case using step m' by (intro exI [of _ "m' @ bs'"]) (simp add: add.assoc)
qed simp

lemma recv_loop_short: "k < 4 \<Longrightarrow> recv_loop deal buf off k dealt st = Some (dealt, buf, st)"
  by (subst recv_loop.simps) (simp add: sizeof_vpn_head_def)

end

text \<open>A complete head without its body is read again and again.\<close>

lemma recv_loop_stuck:
  assumes "head_at buf off = Some h" "4 \<le> k" "k < need_len h"
  shows "recv_loop deal buf off k dealt st = None"
proof -
  have "\<not> (head_at buf off = Some h \<and> 4 \<le> k \<and> k < need_len h)" if "recv_loop deal buf off k dealt st = Some r" for r
    by (rule recv_loop.raw_induct [where P = "\<lambda>deal buf off k dealt st r. \<not> (head_at buf off = Some h \<and> 4 \<le> k \<and> k < need_len h)", OF _ that])
      (auto simp: sizeof_vpn_head_def split: if_splits Option.bind_splits)
  then show ?thesis using assms by (cases "recv_loop deal buf off k dealt st") auto
qed

text \<open>What a socket has received and not used.\<close>

definition buffered :: "socket_data \<Rightarrow> u8 list \<Rightarrow> bool" where
  "buffered d r \<longleftrightarrow> length (sd_buff d) = SOCKET_CAPACITY \<and> sd_buff_len d = length r \<and> take (length r) (sd_buff d) = r"

text \<open>The chunks received one after the other.\<close>

fun recv_all ::
    "(u8 list \<Rightarrow> nat \<Rightarrow> 's \<Rightarrow> (u8 list \<times> 's) option) \<Rightarrow> u8 list list \<Rightarrow> socket_data \<Rightarrow> 's \<Rightarrow> (socket_data \<times> 's) option" where
  "recv_all deal [] d st = Some (d, st)"
| "recv_all deal (chunk # chunks) d st = do {
     (d, st) \<leftarrow> epoll_in deal chunk d st;
     recv_all deal chunks d st }"

text \<open>Chunks that fit behind what the socket keeps, and that end where less than a head is left.\<close>

fun received :: "u8 list \<Rightarrow> u8 list list \<Rightarrow> bool" where
  "received r [] \<longleftrightarrow> True"
| "received r (c # chunks) \<longleftrightarrow> c \<noteq> [] \<and> length r + length c \<le> SOCKET_CAPACITY \<and> received (snd (parse (r @ c))) chunks"

fun quiet :: "u8 list \<Rightarrow> u8 list list \<Rightarrow> bool" where
  "quiet r [] \<longleftrightarrow> True"
| "quiet r (c # chunks) \<longleftrightarrow> length (snd (parse (r @ c))) < 4 \<and> quiet (snd (parse (r @ c))) chunks"

lemma put_bytes_append: "length pre = off \<Longrightarrow> length old = length bs \<Longrightarrow> put_bytes (pre @ old @ post) off bs = pre @ bs @ post"
  by (simp add: put_bytes_def)

lemma buffered_split:
  assumes "buffered d r"
  obtains post where "sd_buff d = r @ post" "length r + length post = SOCKET_CAPACITY" "sd_buff_len d = length r"
  using assms that [of "drop (length r) (sd_buff d)"]
  by (auto simp: buffered_def) (metis append_take_drop_id length_append length_drop length_take)

context framing
begin

lemma on_recv_messages:
  assumes "\<forall>m \<in> set ms. message m \<and> wf m" "length r < 4"
  shows "\<exists>bs. length bs = length (concat ms) \<and>
    on_recv_data deal \<lparr>sd_buff_len = length (concat ms) + length r, sd_buff = concat ms @ r @ post\<rparr> st =
      Some (length (concat ms), bs @ r @ post, fold spec ms st)"
  using recv_loop_messages [OF assms(1), of "[]" "r @ post" "length r" 0 st] assms(2)
  by (auto simp: on_recv_data_def recv_loop_short)

lemma on_recv_stuck:
  assumes "\<forall>m \<in> set ms. message m \<and> wf m" "incomplete r" "4 \<le> length r"
  shows "on_recv_data deal \<lparr>sd_buff_len = length (concat ms) + length r, sd_buff = concat ms @ r @ post\<rparr> st = None"
proof -
  obtain h where h: "head_at r 0 = Some h" "length r < need_len h"
    using assms(2,3) by (auto simp: incomplete_def head_at_iff split: option.splits)
  have "recv_loop deal (bs @ r @ post) (length bs) (length r) k st' = None" for bs k st'
    using h assms(3) by (intro recv_loop_stuck [of _ _ h]) (simp_all add: head_at_prefix head_at_append)
  note stuck = this
  obtain bs' where "length bs' = length (concat ms)"
    "recv_loop deal (concat ms @ r @ post) 0 (length (concat ms) + length r) 0 st =
      recv_loop deal (bs' @ r @ post) (length (concat ms)) (length r) (length (concat ms)) (fold spec ms st)"
    using recv_loop_messages [OF assms(1), of "[]" "r @ post" "length r" 0 st] by auto
  moreover from this(1) [symmetric] have "recv_loop deal (bs' @ r @ post) (length (concat ms)) (length r) (length (concat ms)) (fold spec ms st) = None"
    by (simp only: stuck)
  ultimately show ?thesis by (simp add: on_recv_data_def)
qed

lemma epoll_in_parse:
  assumes d: "buffered d r" and chunk: "chunk \<noteq> []" "length r + length chunk \<le> SOCKET_CAPACITY"
    and p: "parse (r @ chunk) = (ms, r')" and wf: "\<forall>m \<in> set ms. wf m"
  shows "if length r' < 4 then \<exists>d'. epoll_in deal chunk d st = Some (d', fold spec ms st) \<and> buffered d' r' else epoll_in deal chunk d st = None"
proof -
  obtain post where post: "sd_buff d = r @ post" "length r + length post = SOCKET_CAPACITY" "sd_buff_len d = length r"
    using d by (rule buffered_split)
  have parts: "concat ms @ r' = r @ chunk" "\<forall>m \<in> set ms. message m" "incomplete r'"
    using parse_parts [of "r @ chunk"] p by auto
  let ?post = "drop (length chunk) post"
  have "post = take (length chunk) post @ ?post" by simp
  then have "put_bytes (sd_buff d) (sd_buff_len d) chunk = r @ chunk @ ?post"
    using post chunk(2) put_bytes_append [of r "length r" "take (length chunk) post" chunk ?post] by simp
  then have buf: "put_bytes (sd_buff d) (sd_buff_len d) chunk = concat ms @ r' @ ?post" using parts(1) by (metis append.assoc)
  have len: "sd_buff_len d + length chunk = length (concat ms) + length r'"
    using parts(1) post(3) by (metis length_append)
  have d1: "d\<lparr>sd_buff := put_bytes (sd_buff d) (sd_buff_len d) chunk, sd_buff_len := sd_buff_len d + length chunk\<rparr> =
      \<lparr>sd_buff_len = length (concat ms) + length r', sd_buff = concat ms @ r' @ ?post\<rparr>"
    unfolding buf len by simp
  have ms: "\<forall>m \<in> set ms. message m \<and> wf m" using parts(2) wf by blast
  have cap: "length (concat ms) + length r' + length ?post = SOCKET_CAPACITY" using len post chunk(2) by simp
  show ?thesis
  proof (cases "length r' < 4")
    case True
    obtain bs where bs: "length bs = length (concat ms)"
      "on_recv_data deal \<lparr>sd_buff_len = length (concat ms) + length r', sd_buff = concat ms @ r' @ ?post\<rparr> st =
        Some (length (concat ms), bs @ r' @ ?post, fold spec ms st)"
      using on_recv_messages [OF ms True, of ?post st] by blast
    have pos: "0 < length (concat ms) + length r'" using len chunk(1) length_greater_0_conv [of chunk] by linarith
    have empty: "ms = []" if "length (concat ms) = 0"
      using that parts(2) by (cases ms) (auto elim: message_head)
    have "put_bytes (bs @ r' @ ?post) 0 r' = r' @ drop (length r') (bs @ r' @ ?post)" by (simp add: put_bytes_def)
    moreover have "length (r' @ drop (length r') (bs @ r' @ ?post)) = SOCKET_CAPACITY" using cap bs(1) by simp
    ultimately have moved: "buffered \<lparr>sd_buff_len = length r', sd_buff = put_bytes (bs @ r' @ ?post) 0 r'\<rparr> r'"
      by (simp add: buffered_def)
    have none: "buffered \<lparr>sd_buff_len = 0, sd_buff = bs @ r' @ ?post\<rparr> []" using cap bs(1) by (simp add: buffered_def)
    have kept: "buffered \<lparr>sd_buff_len = length r', sd_buff = bs @ r' @ ?post\<rparr> r'" if "length (concat ms) = 0"
      using cap bs(1) that by (simp add: buffered_def)
    have cut: "take (length (concat ms) + length r' - length (concat ms)) (drop (length (concat ms)) (bs @ r' @ ?post)) = r'"
      using bs(1) by simp
    have step: "epoll_in deal chunk d st =
        (if 0 < length r'
         then if 0 < length (concat ms)
           then Some (\<lparr>sd_buff_len = length r', sd_buff = put_bytes (bs @ r' @ ?post) 0 r'\<rparr>, fold spec ms st)
           else Some (\<lparr>sd_buff_len = length (concat ms) + length r', sd_buff = bs @ r' @ ?post\<rparr>, fold spec ms st)
         else Some (\<lparr>sd_buff_len = 0, sd_buff = bs @ r' @ ?post\<rparr>, fold spec ms st))"
      using cut by (simp add: epoll_in_def d1 bs(2))
    show ?thesis
      using True moved none kept by (auto simp only: step split: if_splits) auto
  next
    case False
    then show ?thesis using on_recv_stuck [OF ms parts(3), of ?post st] by (simp add: epoll_in_def d1)
  qed
qed

text \<open>All the chunks: they fit, and no chunk ends behind a head whose body is not there.\<close>

lemma recv_all_parse:
  assumes "buffered d r" "incomplete r" "received r chunks" "\<forall>m \<in> set (fst (parse (r @ concat chunks))). wf m"
  shows "if quiet r chunks
    then \<exists>d'. recv_all deal chunks d st = Some (d', fold spec (fst (parse (r @ concat chunks))) st) \<and> buffered d' (snd (parse (r @ concat chunks)))
    else recv_all deal chunks d st = None"
  using assms
proof (induction chunks arbitrary: d r st)
  case Nil
  then show ?case by (simp add: parse_incomplete)
next
  case (Cons c chunks)
  obtain ms r' where p: "parse (r @ c) = (ms, r')" by fastforce
  have all: "fst (parse (r @ concat (c # chunks))) = ms @ fst (parse (r' @ concat chunks))"
    "snd (parse (r @ concat (c # chunks))) = snd (parse (r' @ concat chunks))"
    using parse_append [of "r @ c" "concat chunks"] p by simp_all
  have wf: "\<forall>m \<in> set ms. wf m" "\<forall>m \<in> set (fst (parse (r' @ concat chunks))). wf m"
    using Cons.prems(4) unfolding all by auto
  have inc: "incomplete r'" using parse_parts [of "r @ c"] p by simp
  have rec: "c \<noteq> []" "length r + length c \<le> SOCKET_CAPACITY" "received r' chunks" using Cons.prems(3) p by simp_all
  note ep = epoll_in_parse [OF Cons.prems(1) rec(1,2) p wf(1), of st]
  show ?case
  proof (cases "length r' < 4")
    case True
    then obtain d' where d': "epoll_in deal c d st = Some (d', fold spec ms st)" "buffered d' r'" using ep by auto
    show ?thesis using Cons.IH [OF d'(2) inc rec(3) wf(2), of "fold spec ms st"] d'(1) True p unfolding all by simp
  next
    case False
    then show ?thesis using ep p by simp
  qed
qed

end

lemma quiet_iff: "quiet r chunks \<longleftrightarrow> (\<forall>k < length chunks. length (snd (parse (r @ concat (take (Suc k) chunks)))) < 4)"
proof (induction chunks arbitrary: r)
  case (Cons c chunks)
  have "snd (parse (r @ concat (take (Suc (Suc k)) (c # chunks)))) = snd (parse (snd (parse (r @ c)) @ concat (take (Suc k) chunks)))" for k
    using parse_append [of "r @ c" "concat (take (Suc k) chunks)"] by simp
  then show ?case using Cons.IH [of "snd (parse (r @ c))"] by (simp only: quiet.simps length_Cons All_less_Suc2) simp
qed simp

lemma incomplete_Nil: "incomplete []"
  by (simp add: incomplete_def head_at_def sizeof_vpn_head_def)

lemma message_alone: "message m \<Longrightarrow> parse m = ([m], [])"
  using parse_message [of m "[]"] parse_incomplete [OF incomplete_Nil] by simp

lemma message_not_Nil: "message m \<Longrightarrow> m \<noteq> []"
  by (auto elim: message_head)

lemma message_cut:
  assumes "message m" "4 \<le> n" "n < length m"
  shows "incomplete (take n m)"
proof -
  obtain h where h: "head_at m 0 = Some h" "need_len h = length m" using assms(1) by (rule message_head)
  have "head_at (take n m @ drop n m) 0 = head_at (take n m) 0" using assms(2,3) by (intro head_at_append) simp
  then have "head_at (take n m) 0 = Some h" using h(1) by simp
  then show ?thesis using h(2) assms(3) by (simp add: incomplete_def)
qed

context framing
begin

lemma recv_all_stream:
  assumes "buffered d []" "received [] chunks" "\<forall>m \<in> set (fst (parse (concat chunks))). wf m"
  shows "if \<forall>k < length chunks. length (snd (parse (concat (take (Suc k) chunks)))) < 4
    then \<exists>d'. recv_all deal chunks d st = Some (d', fold spec (fst (parse (concat chunks))) st) \<and> buffered d' (snd (parse (concat chunks)))
    else recv_all deal chunks d st = None"
  using recv_all_parse [OF assms(1) incomplete_Nil assms(2)] assms(3) unfolding quiet_iff append_Nil by blast

lemma one_message:
  assumes "buffered d []" "message m" "wf m" "length m \<le> SOCKET_CAPACITY"
  shows "\<exists>d'. epoll_in deal m d st = Some (d', spec m st) \<and> buffered d' []"
  using epoll_in_parse [OF assms(1), of m "[m]" "[]" st] message_alone [OF assms(2)] message_not_Nil [OF assms(2)] assms(3,4)
  by auto

lemma split_message:
  assumes "buffered d []" "message m" "length m \<le> SOCKET_CAPACITY" "4 \<le> n" "n < length m"
  shows "recv_all deal [take n m, drop n m] d st = None"
proof -
  note p = parse_incomplete [OF message_cut [OF assms(2,4,5)]]
  have "take n m \<noteq> []" using assms(4,5) by auto
  then have "epoll_in deal (take n m) d st = None"
    using epoll_in_parse [OF assms(1), of "take n m" "[]" "take n m" st] assms(3-5) p by (auto simp: not_less)
  then show ?thesis by simp
qed

end

end
