(* ===== verification/Vpn_Messages.thy ===== *)
theory Vpn_Messages
  imports Vpn_Stream
begin

text \<open>
  What server and client of the VPN do with a message: \<open>deal_data\<close> of \<open>vpn/server/business_server.cpp\<close> and of
  \<open>vpn/client/vnp_client.cpp\<close>, the messages they build, and both as instances of the loop that cuts the messages out of the
  stream.
\<close>

subsection \<open>The server's messages\<close>

text \<open>
  The id of the client, when the socket has one, and the messages sent back.  The answer to a registration is the message
  itself, with the id written into it.
\<close>

record server_side =
  sv_client :: "u32 option"
  sv_sent :: "u8 list list"

definition deal_client_register :: "u8 list \<Rightarrow> nat \<Rightarrow> server_side \<Rightarrow> (u8 list \<times> server_side) option" where
  "deal_client_register buf off st =
     (case sv_client st of
        None \<Rightarrow> Some (buf, st)
      | Some clinet_id \<Rightarrow>
          if off + sizeof_vpn_client_register \<le> length buf
          then let buf = put_bytes buf (off + 4) (le32 clinet_id) in
            Some (buf, st\<lparr>sv_sent := sv_sent st @ [take sizeof_vpn_client_register (drop off buf)]\<rparr>)
          else None)"

definition deal_data :: "u8 list \<Rightarrow> nat \<Rightarrow> server_side \<Rightarrow> (u8 list \<times> server_side) option" where
  "deal_data buf off st =
     do {
       h \<leftarrow> head_at buf off;
       if \<not> log_msg buf off (m_type h) then None
       else if m_type h = client_register then deal_client_register buf off st
       else Some (buf, st) }"

subsection \<open>The client's messages\<close>

text \<open>
  Whether the connections to the server and to the local service succeed, by the number of requests answered and the
  address; the messages sent, and the channels linked.
\<close>

record client_side =
  cl_server :: "nat \<Rightarrow> u8 list \<Rightarrow> u32 \<Rightarrow> bool"
  cl_local :: "nat \<Rightarrow> u8 list \<Rightarrow> u32 \<Rightarrow> bool"
  cl_sent :: "u8 list list"
  cl_linked :: "(u8 list \<times> u32 \<times> u8 list \<times> u32) list"

definition bytes_string :: "u8 list \<Rightarrow> nat \<Rightarrow> u8 list" where
  "bytes_string buf off = takeWhile (\<lambda>b. b \<noteq> 0) (drop off buf)"

definition word_at :: "u8 list \<Rightarrow> nat \<Rightarrow> u32" where
  "word_at buf off = ucast (buf ! off) + push_bit 8 (ucast (buf ! (off + 1))) + push_bit 16 (ucast (buf ! (off + 2))) +
     push_bit 24 (ucast (buf ! (off + 3)))"

definition wait_create_tcp_channel :: "u8 list \<Rightarrow> nat \<Rightarrow> client_side \<Rightarrow> (u8 list \<times> client_side) option" where
  "wait_create_tcp_channel buf off st =
     (if off + sizeof_vpn_creace_tcp_channel \<le> length buf then
        let sip = bytes_string buf (off + 4); sport = word_at buf (off + 36);
            lip = bytes_string buf (off + 40); lport = word_at buf (off + 72) in
        if cl_server st (length (cl_sent st)) sip sport \<and> cl_local st (length (cl_sent st)) lip lport
        then let buf = put_bytes buf (off + 76) (le32 1) in
          Some (buf, st\<lparr>cl_sent := cl_sent st @ [take sizeof_vpn_creace_tcp_channel (drop off buf)],
            cl_linked := cl_linked st @ [(sip, sport, lip, lport)]\<rparr>)
        else let buf = put_bytes buf (off + 76) (le32 0) in
          Some (buf, st\<lparr>cl_sent := cl_sent st @ [take sizeof_vpn_creace_tcp_channel (drop off buf)]\<rparr>)
      else None)"

definition client_deal_data :: "u8 list \<Rightarrow> nat \<Rightarrow> client_side \<Rightarrow> (u8 list \<times> client_side) option" where
  "client_deal_data buf off st =
     do {
       h \<leftarrow> head_at buf off;
       if \<not> log_msg buf off (m_type h) then None
       else if m_type h = creace_tcp_channel then wait_create_tcp_channel buf off st
       else Some (buf, st) }"

text \<open>The callback of the client, and a test of a head that nothing calls.\<close>

definition client_on_recv_data :: "socket_data \<Rightarrow> client_side \<Rightarrow> (nat \<times> u8 list \<times> client_side) option" where
  "client_on_recv_data d st = recv_loop client_deal_data (sd_buff d) 0 (sd_buff_len d) 0 st"

definition check_head :: "vpn_head \<Rightarrow> bool" where
  "check_head h \<longleftrightarrow> m_version h = vpn_version \<and> (m_type h = heartbeat \<or> m_type h = creace_tcp_channel \<or> m_type h = client_register)"

lemma client_on_recv_data_eq: "client_on_recv_data = on_recv_data client_deal_data"
  by (simp add: fun_eq_iff client_on_recv_data_def on_recv_data_def)

subsection \<open>Dealing with one message\<close>

lemma put_bytes_inside:
  assumes "k + length bs \<le> length m"
  shows "put_bytes (pre @ m @ post) (length pre + k) bs = pre @ put_bytes m k bs @ post"
  using assms by (simp add: put_bytes_def)

lemma length_put_bytes: "k + length bs \<le> length m \<Longrightarrow> length (put_bytes m k bs) = length m"
  by (simp add: put_bytes_def)

lemma length_le [simp]: "length (le16 w) = 2" "length (le32 v) = 4"
  by (simp_all add: le16_def le32_def)

lemma head_at_inside: "\<lbrakk>head_at m 0 = Some h\<rbrakk> \<Longrightarrow> head_at (pre @ m @ post) (length pre) = Some h"
  using head_at_iff [of m] head_at_append [of 0 m post] by (simp add: head_at_prefix)

lemma log_msg_inside: "log_msg m 0 t \<Longrightarrow> log_msg (pre @ m @ post) (length pre) t"
  by (auto simp: log_msg_def split: if_splits)

lemma bytes_string_inside: "0 \<in> set (drop k m) \<Longrightarrow> bytes_string (pre @ m @ post) (length pre + k) = bytes_string m k"
proof -
  assume z: "0 \<in> set (drop k m)"
  then have "k \<le> length m" by (cases "k \<le> length m") auto
  then show ?thesis using takeWhile_append1 [OF z, of "\<lambda>b. b \<noteq> 0" post] by (simp add: bytes_string_def)
qed

lemma word_at_inside:
  assumes "k + 4 \<le> length m"
  shows "word_at (pre @ m @ post) (length pre + k) = word_at m k"
proof -
  have "(pre @ m @ post) ! (length pre + k + i) = m ! (k + i)" if "i < 4" for i
    using assms that by (simp add: nth_append add.assoc)
  from this [of 0] this [of 1] this [of 2] this [of 3] show ?thesis
    by (simp add: word_at_def add.assoc)
qed

lemma take_drop_inside: "n \<le> length m \<Longrightarrow> take n (drop (length pre) (pre @ m @ post)) = take n m"
  by simp

text \<open>A message that is as long as its type says, with its strings ended.\<close>

definition sound_message :: "u8 list \<Rightarrow> bool" where
  "sound_message m \<longleftrightarrow> (case head_at m 0 of None \<Rightarrow> False | Some h \<Rightarrow> log_msg m 0 (m_type h))"

definition server_answer :: "u8 list \<Rightarrow> server_side \<Rightarrow> server_side" where
  "server_answer m st =
     (case (map_option m_type (head_at m 0), sv_client st) of
        (Some t, Some clinet_id) \<Rightarrow>
          if t = client_register then st\<lparr>sv_sent := sv_sent st @ [take sizeof_vpn_client_register (put_bytes m 4 (le32 clinet_id))]\<rparr> else st
      | _ \<Rightarrow> st)"

definition client_answer :: "u8 list \<Rightarrow> client_side \<Rightarrow> client_side" where
  "client_answer m st =
     (if map_option m_type (head_at m 0) = Some creace_tcp_channel
      then let sip = bytes_string m 4; sport = word_at m 36; lip = bytes_string m 40; lport = word_at m 72;
               linked = cl_server st (length (cl_sent st)) sip sport \<and> cl_local st (length (cl_sent st)) lip lport in
        st\<lparr>cl_sent := cl_sent st @ [take sizeof_vpn_creace_tcp_channel (put_bytes m 76 (le32 (if linked then 1 else 0)))],
          cl_linked := cl_linked st @ (if linked then [(sip, sport, lip, lport)] else [])\<rparr>
      else st)"

lemma server_deal_wf:
  assumes "sound_message m"
  shows "\<exists>m'. length m' = length m \<and> deal_data (pre @ m @ post) (length pre) st = Some (pre @ m' @ post, server_answer m st)"
proof -
  obtain h where h: "head_at m 0 = Some h" "log_msg m 0 (m_type h)" using assms by (auto simp: sound_message_def split: option.splits)
  note in_buf = head_at_inside [OF h(1), of pre post] log_msg_inside [OF h(2), of pre post]
  show ?thesis
  proof (cases "m_type h = client_register")
    case True
    then have len: "40 \<le> length m" using h(2) by (simp add: log_msg_def client_register_def creace_tcp_channel_def sizeof_vpn_client_register_def)
    show ?thesis
    proof (cases "sv_client st")
      case None
      then show ?thesis using in_buf True h by (intro exI [of _ m]) (simp add: deal_data_def deal_client_register_def server_answer_def)
    next
      case (Some i)
      have "put_bytes (pre @ m @ post) (length pre + 4) (le32 i) = pre @ put_bytes m 4 (le32 i) @ post"
        using len by (intro put_bytes_inside) simp
      moreover have "length (put_bytes m 4 (le32 i)) = length m" using len by (intro length_put_bytes) simp
      ultimately show ?thesis using in_buf True h Some len
        by (intro exI [of _ "put_bytes m 4 (le32 i)"])
          (simp add: deal_data_def deal_client_register_def server_answer_def sizeof_vpn_client_register_def)
    qed
  next
    case False
    then show ?thesis using in_buf h by (intro exI [of _ m]) (simp add: deal_data_def server_answer_def split: option.splits)
  qed
qed

lemma client_deal_wf:
  assumes "sound_message m"
  shows "\<exists>m'. length m' = length m \<and> client_deal_data (pre @ m @ post) (length pre) st = Some (pre @ m' @ post, client_answer m st)"
proof -
  obtain h where h: "head_at m 0 = Some h" "log_msg m 0 (m_type h)" using assms by (auto simp: sound_message_def split: option.splits)
  note in_buf = head_at_inside [OF h(1), of pre post] log_msg_inside [OF h(2), of pre post]
  show ?thesis
  proof (cases "m_type h = creace_tcp_channel")
    case True
    then have len: "80 \<le> length m" "0 \<in> set (drop 4 m)" "0 \<in> set (drop 40 m)"
      using h(2) by (simp_all add: log_msg_def sizeof_vpn_creace_tcp_channel_def)
    have put: "put_bytes (pre @ m @ post) (length pre + 76) (le32 v) = pre @ put_bytes m 76 (le32 v) @ post"
      "length (put_bytes m 76 (le32 v)) = length m" for v
      using len(1) put_bytes_inside [of 76 "le32 v" m pre post] length_put_bytes [of 76 "le32 v" m] by simp_all
    note parts = bytes_string_inside [OF len(2), of pre post] bytes_string_inside [OF len(3), of pre post]
      word_at_inside [of 36 m pre post] word_at_inside [of 72 m pre post]
    let ?v = "if cl_server st (length (cl_sent st)) (bytes_string m 4) (word_at m 36) \<and>
        cl_local st (length (cl_sent st)) (bytes_string m 40) (word_at m 72) then 1 else 0"
    show ?thesis using in_buf True h len(1) parts put
      by (intro exI [of _ "put_bytes m 76 (le32 ?v)"])
        (simp add: client_deal_data_def wait_create_tcp_channel_def client_answer_def sizeof_vpn_creace_tcp_channel_def Let_def)
  next
    case False
    then show ?thesis using in_buf h by (intro exI [of _ m]) (simp add: client_deal_data_def client_answer_def)
  qed
qed

interpretation server: framing deal_data sound_message server_answer
  by unfold_locales (rule server_deal_wf)

interpretation client: framing client_deal_data sound_message client_answer
  by unfold_locales (rule client_deal_wf)

subsection \<open>Numbers and heads read back\<close>

lemma ucast_byte: "(ucast (ucast w :: u8) :: u32) = take_bit 8 w"
  by (simp add: unsigned_ucast_eq)

lemma word_at_le32: "word_at (pre @ le32 w @ post) (length pre) = w"
proof -
  have split: "take_bit n w + push_bit n (take_bit 8 (drop_bit n w)) = take_bit (n + 8) w" for n
    using bits_ident [of n "take_bit (n + 8) w"] by (simp add: drop_bit_take_bit add.commute)
  have "(pre @ le32 w @ post) ! (length pre + i) = le32 w ! i" if "i < 4" for i
    using that by (simp add: nth_append)
  from this [of 0] this [of 1] this [of 2] this [of 3]
  have "word_at (pre @ le32 w @ post) (length pre) =
      take_bit 8 w + push_bit 8 (take_bit 8 (drop_bit 8 w)) + push_bit 16 (take_bit 8 (drop_bit 16 w)) + push_bit 24 (take_bit 8 (drop_bit 24 w))"
    by (simp add: word_at_def le32_def ucast_byte eval_nat_numeral)
  also have "\<dots> = take_bit 32 w" using split [of 8] split [of 16] split [of 24] by simp
  finally show ?thesis by (simp add: take_bit_word_eq_self)
qed

lemma length_head_bytes [simp]: "length (head_bytes h) = 4"
  by (simp add: head_bytes_def)

lemma head_at_head_bytes: "head_at (pre @ head_bytes h @ post) (length pre) = Some h"
proof -
  have b: "(ucast (ucast w :: u8) :: u16) = take_bit 8 w" for w :: u16 by (simp add: unsigned_ucast_eq)
  have "(ucast (ucast w :: u8) :: u16) + push_bit 8 (ucast (ucast (drop_bit 8 w) :: u8)) = w" for w :: u16
  proof -
    have "take_bit 16 w = w" by (rule take_bit_word_eq_self) simp
    then show ?thesis using bits_ident [of 8 "take_bit 16 w"] drop_bit_take_bit [of 8 16 w] by (simp add: b add.commute)
  qed
  moreover have "(pre @ head_bytes h @ post) ! (length pre + i) = head_bytes h ! i" if "i < 4" for i
    using that by (simp add: nth_append)
  from this [of 0] this [of 1] this [of 2] this [of 3]
  have "(pre @ head_bytes h @ post) ! length pre = ucast (m_body_len h)"
    "(pre @ head_bytes h @ post) ! Suc (length pre) = ucast (drop_bit 8 (m_body_len h))"
    "(pre @ head_bytes h @ post) ! (length pre + 2) = m_type h"
    "(pre @ head_bytes h @ post) ! (length pre + 3) = m_version h"
    by (simp_all add: head_bytes_def le16_def eval_nat_numeral)
  ultimately show ?thesis by (simp add: head_at_def sizeof_vpn_head_def head_bytes_def)
qed

subsection \<open>The messages that are built\<close>

text \<open>\<open>strcpy\<close> into an array of \<open>n\<close> characters that holds \<open>junk\<close>; a longer string does not fit.\<close>

definition strcpy_field :: "nat \<Rightarrow> u8 list \<Rightarrow> u8 list \<Rightarrow> u8 list option" where
  "strcpy_field n junk str = (if length str < n then Some (str @ [0] @ drop (length str + 1) junk) else None)"

definition send_msg_tcp_channel :: "u8 list \<Rightarrow> u32 \<Rightarrow> u8 list \<Rightarrow> u32 \<Rightarrow> u8 list \<Rightarrow> u8 list \<Rightarrow> u8 list option" where
  "send_msg_tcp_channel server_ip server_port local_ip local_port junk1 junk2 =
     do {
       ip1 \<leftarrow> strcpy_field 32 junk1 server_ip;
       ip2 \<leftarrow> strcpy_field 32 junk2 local_ip;
       Some (vpn_creace_tcp_channel ip1 server_port ip2 local_port 0) }"

text \<open>\<open>A8-5E-45-D5-0A-9A\<close> and \<open>vpn_client\<close>.\<close>

definition client_mac :: "u8 list" where
  "client_mac = [0x41, 0x38, 0x2d, 0x35, 0x45, 0x2d, 0x34, 0x35, 0x2d, 0x44, 0x35, 0x2d, 0x30, 0x41, 0x2d, 0x39, 0x41]"

definition client_name :: "u8 list" where
  "client_name = [0x76, 0x70, 0x6e, 0x5f, 0x63, 0x6c, 0x69, 0x65, 0x6e, 0x74]"

definition set_msg_client_register :: "u8 list \<Rightarrow> u8 list \<Rightarrow> u8 list option" where
  "set_msg_client_register junk1 junk2 =
     do {
       mac \<leftarrow> strcpy_field 18 junk1 client_mac;
       name \<leftarrow> strcpy_field 14 junk2 client_name;
       Some (vpn_client_register 0 mac name) }"

lemma strcpy_field_SomeD:
  assumes "strcpy_field n junk str = Some f" "length junk = n"
  shows "length f = n" "0 \<in> set f" "0 \<notin> set str \<Longrightarrow> takeWhile (\<lambda>b. b \<noteq> 0) (f @ rest) = str"
proof -
  have f: "length str < n" "f = str @ [0] @ drop (length str + 1) junk" using assms(1) by (auto simp: strcpy_field_def split: if_splits)
  show "length f = n" "0 \<in> set f" using f assms(2) by simp_all
  assume "0 \<notin> set str"
  then have "takeWhile (\<lambda>b. b \<noteq> 0) (str @ ([0] @ drop (length str + 1) junk) @ rest) = str @ takeWhile (\<lambda>b. b \<noteq> 0) (([0] @ drop (length str + 1) junk) @ rest)"
    by (intro takeWhile_append2) auto
  then show "takeWhile (\<lambda>b. b \<noteq> 0) (f @ rest) = str" by (simp add: f(2))
qed

lemma message_head_bytes: "length body = unat (m_body_len h) \<Longrightarrow> message (head_bytes h @ body)"
  using head_at_head_bytes [of "[]" h body] by (simp add: message_def need_len_def sizeof_vpn_head_def)

text \<open>A request for a channel, and what the client reads in it.\<close>

lemma channel_message:
  assumes "length ip1 = 32" "length ip2 = 32" "0 \<in> set ip1" "0 \<in> set ip2"
  assumes m_def: "m = vpn_creace_tcp_channel ip1 sport ip2 lport flag"
  shows "message m" "length m = 80" "map_option m_type (head_at m 0) = Some creace_tcp_channel" "sound_message m"
    "bytes_string m 4 = takeWhile (\<lambda>b. b \<noteq> 0) ip1" "word_at m 36 = sport"
    "bytes_string m 40 = takeWhile (\<lambda>b. b \<noteq> 0) ip2" "word_at m 72 = lport"
    "put_bytes m 76 (le32 v) = vpn_creace_tcp_channel ip1 sport ip2 lport v"
proof -
  let ?h = "\<lparr>m_body_len = of_nat (sizeof_vpn_creace_tcp_channel - sizeof_vpn_head), m_type = creace_tcp_channel, m_version = vpn_version\<rparr>"
  let ?hb = "head_bytes ?h"
  have m: "m = ?hb @ ip1 @ le32 sport @ ip2 @ le32 lport @ le32 flag" by (simp add: m_def vpn_creace_tcp_channel_def)
  have h: "head_at m 0 = Some ?h" using head_at_head_bytes [of "[]" ?h] by (simp add: m)
  show "message m" unfolding m using assms(1,2)
    by (intro message_head_bytes) (simp add: sizeof_vpn_creace_tcp_channel_def sizeof_vpn_head_def)
  show "length m = 80" using assms(1,2) by (simp add: m)
  show "map_option m_type (head_at m 0) = Some creace_tcp_channel" by (simp add: h)
  show "sound_message m" using assms(1-4) h
    by (simp add: sound_message_def log_msg_def sizeof_vpn_creace_tcp_channel_def) (simp add: m)
  show "bytes_string m 4 = takeWhile (\<lambda>b. b \<noteq> 0) ip1" "bytes_string m 40 = takeWhile (\<lambda>b. b \<noteq> 0) ip2"
    using assms(1-4) by (simp_all add: m bytes_string_def)
  show "word_at m 36 = sport" using word_at_le32 [of "?hb @ ip1" sport] assms(1) by (simp add: m)
  show "word_at m 72 = lport" using word_at_le32 [of "?hb @ ip1 @ le32 sport @ ip2" lport] assms(1,2) by (simp add: m)
  show "put_bytes m 76 (le32 v) = vpn_creace_tcp_channel ip1 sport ip2 lport v"
    using assms(1,2) by (simp add: m put_bytes_def vpn_creace_tcp_channel_def)
qed

lemma register_message:
  assumes "length mac = 18" "length name = 14" "0 \<in> set mac" "0 \<in> set name"
  assumes m_def: "m = vpn_client_register i mac name"
  shows "message m" "length m = 40" "map_option m_type (head_at m 0) = Some client_register" "sound_message m"
    "put_bytes m 4 (le32 v) = vpn_client_register v mac name"
proof -
  let ?h = "\<lparr>m_body_len = of_nat (sizeof_vpn_client_register - sizeof_vpn_head), m_type = client_register, m_version = vpn_version\<rparr>"
  have m: "m = head_bytes ?h @ le32 i @ mac @ name" by (simp add: m_def vpn_client_register_def)
  have h: "head_at m 0 = Some ?h" using head_at_head_bytes [of "[]" ?h] by (simp add: m)
  show "message m" unfolding m using assms(1,2)
    by (intro message_head_bytes) (simp add: sizeof_vpn_client_register_def sizeof_vpn_head_def)
  show "length m = 40" using assms(1,2) by (simp add: m)
  show "map_option m_type (head_at m 0) = Some client_register" by (simp add: h)
  show "sound_message m" using assms(1-4) h
    by (simp add: sound_message_def log_msg_def sizeof_vpn_client_register_def client_register_def creace_tcp_channel_def)
      (simp add: m)
  show "put_bytes m 4 (le32 v) = vpn_client_register v mac name"
    using assms(1,2) by (simp add: m put_bytes_def vpn_client_register_def)
qed

subsection \<open>Streams and conversations\<close>


lemma client_stream_dealt:
  assumes "buffered d []" "received [] chunks" "\<forall>m \<in> set (fst (parse (concat chunks))). sound_message m"
  shows "if \<forall>k < length chunks. length (snd (parse (concat (take (Suc k) chunks)))) < 4
    then \<exists>d'. recv_all client_deal_data chunks d st = Some (d', fold client_answer (fst (parse (concat chunks))) st) \<and>
      buffered d' (snd (parse (concat chunks)))
    else recv_all client_deal_data chunks d st = None"
  using assms by (rule client.recv_all_stream)

lemma buffered_empty: "buffered \<lparr>sd_buff_len = 0, sd_buff = replicate SOCKET_CAPACITY 0\<rparr> []"
  by (simp add: buffered_def)

text \<open>The bytes of two heartbeats in two parts, cut inside the second head.\<close>

lemma parse_heartbeats:
  "parse (vpn_heartbeat @ take 2 vpn_heartbeat) = ([vpn_heartbeat], take 2 vpn_heartbeat)"
  "parse (vpn_heartbeat @ vpn_heartbeat) = ([vpn_heartbeat, vpn_heartbeat], [])"
  "parse vpn_heartbeat = ([vpn_heartbeat], [])" "length vpn_heartbeat = 4" "sound_message vpn_heartbeat"
proof -
  have m: "message vpn_heartbeat"
    using message_head_bytes [of "[]" "\<lparr>m_body_len = 0, m_type = heartbeat, m_version = vpn_version\<rparr>"] by (simp add: vpn_heartbeat_def)
  show len: "length vpn_heartbeat = 4" by (simp add: vpn_heartbeat_def)
  have "parse (take 2 vpn_heartbeat) = ([], take 2 vpn_heartbeat)"
    by (rule parse_incomplete) (simp add: incomplete_def head_at_def sizeof_vpn_head_def len)
  then show "parse (vpn_heartbeat @ take 2 vpn_heartbeat) = ([vpn_heartbeat], take 2 vpn_heartbeat)"
    by (simp add: parse_message [OF m])
  show "parse vpn_heartbeat = ([vpn_heartbeat], [])" "parse (vpn_heartbeat @ vpn_heartbeat) = ([vpn_heartbeat, vpn_heartbeat], [])"
    by (simp_all add: parse_message [OF m] message_alone [OF m])
  show "sound_message vpn_heartbeat"
    using head_at_head_bytes [of "[]" "\<lparr>m_body_len = 0, m_type = heartbeat, m_version = vpn_version\<rparr>" "[]"]
    by (simp add: sound_message_def vpn_heartbeat_def log_msg_def heartbeat_def client_register_def creace_tcp_channel_def)
qed


text \<open>a message that arrives in two parts, the first with its head, is never dealt with: the thread of the server hangs.\<close>

theorem split_message_hangs:
  assumes "buffered d []" "message m" "length m \<le> SOCKET_CAPACITY" "4 \<le> n" "n < length m"
  shows "recv_all deal_data [take n m, drop n m] d st = None"
  using assms by (rule server.split_message)

theorem split_message_hangs_witness:
  "recv_all deal_data [take 4 (vpn_client_register 0 (replicate 18 0) (replicate 14 0)), drop 4 (vpn_client_register 0 (replicate 18 0) (replicate 14 0))]
    \<lparr>sd_buff_len = 0, sd_buff = replicate SOCKET_CAPACITY 0\<rparr> \<lparr>sv_client = Some 7, sv_sent = []\<rparr> = None"
  by (rule split_message_hangs [OF buffered_empty register_message(1)])
    (simp_all add: vpn_client_register_def SOCKET_CAPACITY_def)

lemma strcpy_field_Some: "length str < n \<Longrightarrow> strcpy_field n junk str = Some (str @ [0] @ drop (length str + 1) junk)"
  by (simp add: strcpy_field_def)



text \<open>
  The registration of a client: the server answers with the same message, carrying the id it gave the client.
\<close>

lemma registration_answered:
  assumes "buffered d []" "length junk1 = 18" "length junk2 = 14" "sv_client st = Some i"
  shows "\<exists>m mac name d'. set_msg_client_register junk1 junk2 = Some m \<and> m = vpn_client_register 0 mac name \<and>
    epoll_in deal_data m d st = Some (d', st\<lparr>sv_sent := sv_sent st @ [vpn_client_register i mac name]\<rparr>) \<and> buffered d' []"
proof -
  let ?mac = "client_mac @ [0] @ drop (length client_mac + 1) junk1" and ?name = "client_name @ [0] @ drop (length client_name + 1) junk2"
  have f: "strcpy_field 18 junk1 client_mac = Some ?mac" "strcpy_field 14 junk2 client_name = Some ?name"
    by (rule strcpy_field_Some, simp add: client_mac_def client_name_def)+
  note str = strcpy_field_SomeD(1,2) [OF f(1) assms(2)] strcpy_field_SomeD(1,2) [OF f(2) assms(3)]
  let ?m = "vpn_client_register 0 ?mac ?name"
  note msg = register_message [OF str(1,3,2,4) refl, of 0]
  have len: "length (vpn_client_register i ?mac ?name) = sizeof_vpn_client_register"
    using register_message(2) [OF str(1,3,2,4) refl] by (simp only: sizeof_vpn_client_register_def)
  obtain d' where d': "epoll_in deal_data ?m d st = Some (d', server_answer ?m st)" "buffered d' []"
    using server.one_message [OF assms(1) msg(1,4)] msg(2) by (auto simp: SOCKET_CAPACITY_def)
  have "server_answer ?m st = st\<lparr>sv_sent := sv_sent st @ [vpn_client_register i ?mac ?name]\<rparr>"
    unfolding server_answer_def msg(3,5) assms(4) using len by simp
  moreover have "set_msg_client_register junk1 junk2 = Some ?m"
    using f by (simp add: set_msg_client_register_def)
  ultimately show ?thesis using d' by (intro exI [of _ ?m] exI [of _ ?mac] exI [of _ ?name] exI [of _ d']) simp
qed

text \<open>
  A registration whose head counts no body: the id of the client is written over the head of the next message.
\<close>

lemma short_register_overwrites:
  assumes "length n = 4" "sv_client st = Some i" "32 \<le> length post" "0 \<in> set post" "0 \<in> set (drop 18 post)"
  shows "\<exists>st'. deal_data (head_bytes \<lparr>m_body_len = 0, m_type = client_register, m_version = v\<rparr> @ n @ post) 0 st =
    Some (head_bytes \<lparr>m_body_len = 0, m_type = client_register, m_version = v\<rparr> @ le32 i @ post, st')"
proof -
  let ?h = "\<lparr>m_body_len = 0, m_type = client_register, m_version = v\<rparr>"
  have "head_at (head_bytes ?h @ n @ post) 0 = Some ?h" using head_at_head_bytes [of "[]"] by simp
  moreover have "log_msg (head_bytes ?h @ n @ post) 0 client_register"
    using assms by (simp add: log_msg_def client_register_def creace_tcp_channel_def sizeof_vpn_client_register_def)
  ultimately show ?thesis
    using assms by (simp add: deal_data_def deal_client_register_def sizeof_vpn_client_register_def put_bytes_def)
qed

end
