(* ===== verification/Vpn_Channels.thy ===== *)
theory Vpn_Channels
  imports Vpn_Messages
begin

text \<open>
  The channels of the VPN server (\<open>vpn/server/business_server.cpp\<close>, \<open>vpn/server/data_channel_server.cpp\<close>,
  \<open>vpn/com_lib/net_lib/sh_socket_manager.cpp\<close>): the clients and their channels, the two listening sockets of a channel, the
  pairing of the accepted connections, and the forwarding between the two of a pair.  Objects have addresses; an access to an
  object that was deleted has no result.  What the operating system answers is an argument.
\<close>

subsection \<open>The objects\<close>

text \<open>
  A \<open>socket_info\<close>, as far as it matters here: its descriptor, the \<open>m_ptr\<close> and the buffer of its data, whether it was added to
  the epoll descriptor (\<open>m_epfd\<close> is 0 before), and whether \<open>close_socket\<close> has asked for it to be closed.
\<close>

record socket_info =
  so_fd :: nat
  so_ptr :: nat
  so_epfd :: bool
  so_out :: bool
  so_buff :: "u8 list"

record server_socket_info =
  si_fd :: nat
  si_epfd :: bool
  si_type :: u32
  si_client_id :: u32
  si_channel_id :: u32
  si_local_ip :: "u8 list"
  si_local_port :: u32
  si_free_socket :: "nat list"
  si_busy_socket :: "nat list"
  si_removte :: nat

record vpn_channel_info =
  ch_client_id :: u32
  ch_channel_id :: u32
  ch_out_ip :: "u8 list"
  ch_out_ip1 :: "u8 list"
  ch_out_port :: u32
  ch_in_ip :: "u8 list"
  ch_in_ip1 :: "u8 list"
  ch_in_port :: u32
  ch_local_ip :: "u8 list"
  ch_local_port :: u32

text \<open>A client, with its channels in the order of their ids.\<close>

record vpn_client_info =
  ci_clinet_id :: u32
  ci_fd :: nat
  ci_channel_map :: "(u32 \<times> vpn_channel_info) list"

text \<open>
  The server.  \<open>vs_sent\<close> are the bytes forwarded, with the two sockets, and \<open>vs_requests\<close> the requests for channels, with the
  descriptor of the client, the two addresses and the two ports.
\<close>

record vpn_server =
  vs_next :: nat
  vs_socks :: "nat \<Rightarrow> socket_info option"
  vs_infos :: "nat \<Rightarrow> server_socket_info option"
  vs_channel_map :: "u64 \<Rightarrow> nat option"
  vs_clinet_map :: "u32 \<Rightarrow> vpn_client_info option"
  vs_sent :: "(nat \<times> nat \<times> u8 list) list"
  vs_requests :: "(nat \<times> u8 list \<times> u32 \<times> u8 list \<times> u32) list"

definition set_sock :: "nat \<Rightarrow> socket_info \<Rightarrow> vpn_server \<Rightarrow> vpn_server" where
  "set_sock x so s = s\<lparr>vs_socks := (vs_socks s)(x := Some so)\<rparr>"

definition set_info :: "nat \<Rightarrow> server_socket_info \<Rightarrow> vpn_server \<Rightarrow> vpn_server" where
  "set_info a si s = s\<lparr>vs_infos := (vs_infos s)(a := Some si)\<rparr>"

subsection \<open>Sockets\<close>

text \<open>\<open>get_clinet_info\<close> of the data sockets: the pointer of a new socket is the socket itself.\<close>

definition get_clinet_info :: "nat \<Rightarrow> vpn_server \<Rightarrow> nat \<times> vpn_server" where
  "get_clinet_info fd s =
     (let x = vs_next s in
      (x, (set_sock x \<lparr>so_fd = fd, so_ptr = x, so_epfd = False, so_out = False, so_buff = []\<rparr> s)\<lparr>vs_next := x + 1\<rparr>))"

definition del_clinet_info :: "nat \<Rightarrow> vpn_server \<Rightarrow> vpn_server" where
  "del_clinet_info x s = s\<lparr>vs_socks := (vs_socks s)(x := None)\<rparr>"

definition set_ptr :: "nat \<Rightarrow> nat \<Rightarrow> vpn_server \<Rightarrow> vpn_server option" where
  "set_ptr x p s = do { so \<leftarrow> vs_socks s x; Some (set_sock x (so\<lparr>so_ptr := p\<rparr>) s) }"

definition add_eool :: "nat \<Rightarrow> vpn_server \<Rightarrow> vpn_server option" where
  "add_eool x s = do { so \<leftarrow> vs_socks s x; Some (set_sock x (so\<lparr>so_epfd := True\<rparr>) s) }"

text \<open>\<open>epoll_ctl\<close> fails for a socket that was not added.\<close>

definition close_socket :: "nat \<Rightarrow> vpn_server \<Rightarrow> vpn_server option" where
  "close_socket x s = do { so \<leftarrow> vs_socks s x; Some (if so_epfd so then set_sock x (so\<lparr>so_out := True\<rparr>) s else s) }"

subsection \<open>Accepting\<close>

definition find_channel :: "u32 \<Rightarrow> u32 \<Rightarrow> vpn_server \<Rightarrow> (vpn_client_info \<times> vpn_channel_info) option" where
  "find_channel client_id channel_id s =
     do {
       c \<leftarrow> vs_clinet_map s client_id;
       ch \<leftarrow> map_of (ci_channel_map c) channel_id;
       Some (c, ch) }"

definition send_create_channel_msg :: "u32 \<Rightarrow> u32 \<Rightarrow> vpn_server \<Rightarrow> bool \<times> vpn_server" where
  "send_create_channel_msg client_id channel_id s =
     (case find_channel client_id channel_id s of
        Some (c, ch) \<Rightarrow> (True, s\<lparr>vs_requests := vs_requests s @ [(ci_fd c, ch_in_ip1 ch, ch_in_port ch, ch_local_ip ch, ch_local_port ch)]\<rparr>)
      | None \<Rightarrow> (False, s))"

definition date_socket_accept :: "nat \<Rightarrow> nat \<Rightarrow> vpn_server \<Rightarrow> vpn_server option" where
  "date_socket_accept server_info info s =
     do {
       si \<leftarrow> vs_infos s server_info;
       let is_out = (si_type si = 1);
       let s = (if is_out then snd (send_create_channel_msg (si_client_id si) (si_channel_id si) s) else s);
       re \<leftarrow> vs_infos s (si_removte si);
       (case si_free_socket re of
          [] \<Rightarrow> Some (set_info server_info (si\<lparr>si_free_socket := si_free_socket si @ [info]\<rparr>) s)
        | re_info # rest \<Rightarrow> do {
            let s = set_info (si_removte si) (re\<lparr>si_free_socket := rest\<rparr>) s;
            s \<leftarrow> set_ptr info re_info s;
            s \<leftarrow> set_ptr re_info info s;
            si \<leftarrow> vs_infos s server_info;
            let s = set_info server_info (si\<lparr>si_busy_socket := si_busy_socket si @ [info]\<rparr>) s;
            re \<leftarrow> vs_infos s (si_removte si);
            let s = set_info (si_removte si) (re\<lparr>si_busy_socket := si_busy_socket re @ [re_info]\<rparr>) s;
            if is_out then do { s \<leftarrow> add_eool re_info s; add_eool info s }
            else do { s \<leftarrow> add_eool info s; add_eool re_info s } }) }"

text \<open>A connection on a listening socket: one round of \<open>run_accept\<close> in which \<open>accept\<close> returned \<open>fd\<close>.\<close>

definition accept_event :: "nat \<Rightarrow> nat \<Rightarrow> vpn_server \<Rightarrow> vpn_server option" where
  "accept_event server_info fd s = (let (info, s) = get_clinet_info fd s in date_socket_accept server_info info s)"

subsection \<open>Data\<close>

text \<open>\<open>on_recv_data\<close>: \<open>sent\<close> is what \<open>send\<close> returns, 0 for an error.  The result is the length that was used.\<close>

definition data_on_recv_data :: "nat \<Rightarrow> nat \<Rightarrow> vpn_server \<Rightarrow> (nat \<times> vpn_server) option" where
  "data_on_recv_data info sent s =
     do {
       so \<leftarrow> vs_socks s info;
       if so_ptr so = 0 then do { s \<leftarrow> close_socket info s; Some (length (so_buff so), s) }
       else do {
         re \<leftarrow> vs_socks s (so_ptr so);
         if sent > 0 then Some (sent, s\<lparr>vs_sent := vs_sent s @ [(info, so_ptr so, take sent (so_buff so))]\<rparr>)
         else Some (length (so_buff so), s) } }"

text \<open>What the thread of the data sockets does with the bytes \<open>recv\<close> has added to the buffer.\<close>

definition data_received :: "nat \<Rightarrow> u8 list \<Rightarrow> nat \<Rightarrow> vpn_server \<Rightarrow> vpn_server option" where
  "data_received info bs sent s =
     do {
       so \<leftarrow> vs_socks s info;
       let s = set_sock info (so\<lparr>so_buff := so_buff so @ bs\<rparr>) s;
       (use_len, s) \<leftarrow> data_on_recv_data info sent s;
       so \<leftarrow> vs_socks s info;
       Some (set_sock info (so\<lparr>so_buff := if use_len < length (so_buff so) then drop use_len (so_buff so) else []\<rparr>) s) }"

definition data_on_disconnected :: "nat \<Rightarrow> vpn_server \<Rightarrow> vpn_server option" where
  "data_on_disconnected info s =
     do {
       so \<leftarrow> vs_socks s info;
       if so_ptr so \<noteq> 0 then do { s \<leftarrow> set_ptr (so_ptr so) 0 s; close_socket (so_ptr so) s } else Some s }"

text \<open>
  The events of a socket: bytes, with what \<open>send\<close> returns for them, the end of the stream, an error of \<open>recv\<close>, and the turn of a socket to be closed
  (\<open>run_epoll\<close> of \<open>sh_socket_client.cpp\<close>).
\<close>

datatype vpn_event = Accept nat nat | Bytes nat "u8 list" nat | End nat | Failed nat | Close nat

definition vpn_event_ready :: "vpn_event \<Rightarrow> vpn_server \<Rightarrow> bool" where
  "vpn_event_ready e s =
     (case e of
        Accept a fd \<Rightarrow> (case vs_infos s a of None \<Rightarrow> False | Some si \<Rightarrow> si_epfd si)
      | Bytes x bs sent \<Rightarrow> (case vs_socks s x of None \<Rightarrow> False | Some so \<Rightarrow> so_epfd so \<and> \<not> so_out so \<and>
          length (so_buff so) + length bs \<le> SOCKET_CAPACITY \<and> sent \<le> length (so_buff so) + length bs)
      | End x \<Rightarrow> (case vs_socks s x of None \<Rightarrow> False | Some so \<Rightarrow> so_epfd so \<and> \<not> so_out so)
      | Failed x \<Rightarrow> (case vs_socks s x of None \<Rightarrow> False | Some so \<Rightarrow> so_epfd so \<and> \<not> so_out so)
      | Close x \<Rightarrow> (case vs_socks s x of None \<Rightarrow> False | Some so \<Rightarrow> so_out so))"

fun vpn_event_run :: "vpn_event \<Rightarrow> vpn_server \<Rightarrow> vpn_server option" where
  "vpn_event_run (Accept a fd) s = accept_event a fd s"
| "vpn_event_run (Bytes x bs sent) s = data_received x bs sent s"
| "vpn_event_run (End x) s = do { s \<leftarrow> data_on_disconnected x s; Some (del_clinet_info x s) }"
| "vpn_event_run (Failed x) s = Some (del_clinet_info x s)"
| "vpn_event_run (Close x) s = Some (del_clinet_info x s)"

lemma send_create_channel_msg_fields [simp]:
  "vs_next (snd (send_create_channel_msg c k s)) = vs_next s" "vs_socks (snd (send_create_channel_msg c k s)) = vs_socks s"
  "vs_infos (snd (send_create_channel_msg c k s)) = vs_infos s" "vs_sent (snd (send_create_channel_msg c k s)) = vs_sent s"
  "vs_channel_map (snd (send_create_channel_msg c k s)) = vs_channel_map s"
  "vs_clinet_map (snd (send_create_channel_msg c k s)) = vs_clinet_map s"
  by (simp_all add: send_create_channel_msg_def split: option.splits)

text \<open>What a connection adds: the requests, by the listening socket.\<close>

definition requested :: "server_socket_info \<Rightarrow> vpn_server \<Rightarrow> (nat \<times> u8 list \<times> u32 \<times> u8 list \<times> u32) list" where
  "requested si s =
     (if si_type si = 1 then
        (case find_channel (si_client_id si) (si_channel_id si) s of
           None \<Rightarrow> []
         | Some (c, ch) \<Rightarrow> [(ci_fd c, ch_in_ip1 ch, ch_in_port ch, ch_local_ip ch, ch_local_port ch)])
      else [])"

lemma find_channel_cong:
  "vs_clinet_map s = vs_clinet_map s' \<Longrightarrow> find_channel c k s = find_channel c k s'"
  by (simp add: find_channel_def)

lemma requested_cong: "vs_clinet_map s = vs_clinet_map s' \<Longrightarrow> requested si s = requested si s'"
  by (simp add: requested_def cong: find_channel_cong)

lemma requested_update [simp]:
  "requested si (s\<lparr>vs_next := k\<rparr>) = requested si s" "requested si (s\<lparr>vs_socks := so\<rparr>) = requested si s"
  by (rule requested_cong, simp)+

lemma send_requested:
  "(if si_type si = 1 then snd (send_create_channel_msg (si_client_id si) (si_channel_id si) s) else s) =
    s\<lparr>vs_requests := vs_requests s @ requested si s\<rparr>"
  by (auto simp: requested_def send_create_channel_msg_def split: option.splits)

lemma accept_waits:
  assumes "vs_infos s a = Some si" "vs_infos s (si_removte si) = Some re" "si_free_socket re = []"
  shows "accept_event a fd s = Some (s\<lparr>
    vs_next := vs_next s + 1,
    vs_socks := (vs_socks s)(vs_next s \<mapsto> \<lparr>so_fd = fd, so_ptr = vs_next s, so_epfd = False, so_out = False, so_buff = []\<rparr>),
    vs_infos := (vs_infos s)(a \<mapsto> si\<lparr>si_free_socket := si_free_socket si @ [vs_next s]\<rparr>),
    vs_requests := vs_requests s @ requested si s\<rparr>)"
  using assms unfolding accept_event_def get_clinet_info_def Let_def prod.case date_socket_accept_def send_requested
  by (simp add: set_info_def set_sock_def)

lemma accept_pairs:
  assumes "vs_infos s a = Some si" "vs_infos s (si_removte si) = Some re" "si_free_socket re = r # rest"
    "si_removte si \<noteq> a" "vs_socks s r = Some ro" "r \<noteq> vs_next s"
  shows "accept_event a fd s = Some (s\<lparr>
    vs_next := vs_next s + 1,
    vs_socks := (vs_socks s)(vs_next s \<mapsto> \<lparr>so_fd = fd, so_ptr = r, so_epfd = True, so_out = False, so_buff = []\<rparr>, r \<mapsto> ro\<lparr>so_ptr := vs_next s, so_epfd := True\<rparr>),
    vs_infos := (vs_infos s)(a \<mapsto> si\<lparr>si_busy_socket := si_busy_socket si @ [vs_next s]\<rparr>,
      si_removte si \<mapsto> re\<lparr>si_free_socket := rest, si_busy_socket := si_busy_socket re @ [r]\<rparr>),
    vs_requests := vs_requests s @ requested si s\<rparr>)"
  using assms unfolding accept_event_def get_clinet_info_def Let_def prod.case date_socket_accept_def send_requested
  by (auto simp add: set_info_def set_sock_def set_ptr_def add_eool_def fun_upd_twist)

subsection \<open>Pairs\<close>

text \<open>
  The two listening sockets of a channel name each other, have paired the same number of connections, and at most one of them
  has connections that wait.
\<close>

definition infos_ok :: "(nat \<Rightarrow> server_socket_info option) \<Rightarrow> bool" where
  "infos_ok I \<longleftrightarrow> (\<forall>a si. I a = Some si \<longrightarrow>
     (\<exists>re. I (si_removte si) = Some re \<and> si_removte re = a \<and> si_removte si \<noteq> a \<and>
       length (si_busy_socket re) = length (si_busy_socket si) \<and> (si_free_socket si = [] \<or> si_free_socket re = [])))"

definition waiting_ok :: "(nat \<Rightarrow> server_socket_info option) \<Rightarrow> bool" where
  "waiting_ok I \<longleftrightarrow> (\<forall>a si. I a = Some si \<longrightarrow> distinct (si_free_socket si) \<and>
     (\<forall>b sj. I b = Some sj \<and> b \<noteq> a \<longrightarrow> set (si_free_socket si) \<inter> set (si_free_socket sj) = {}))"

text \<open>Two sockets paired with each other on some channel.\<close>

definition linked :: "(nat \<Rightarrow> server_socket_info option) \<Rightarrow> nat \<Rightarrow> nat \<Rightarrow> bool" where
  "linked I x y \<longleftrightarrow> (\<exists>a si re. I a = Some si \<and> I (si_removte si) = Some re \<and> (x, y) \<in> set (zip (si_busy_socket si) (si_busy_socket re)))"

definition partner_ok :: "(nat \<Rightarrow> server_socket_info option) \<Rightarrow> (nat \<Rightarrow> socket_info option) \<Rightarrow> nat \<Rightarrow> socket_info \<Rightarrow> bool" where
  "partner_ok I S x so \<longleftrightarrow>
     (if so_epfd so
      then so_ptr so = 0 \<or> (\<not> so_out so \<and> so_ptr so \<noteq> x \<and> linked I x (so_ptr so) \<and>
        (\<exists>re. S (so_ptr so) = Some re \<and> so_epfd re \<and> so_ptr re = x))
      else \<not> so_out so)"

definition socks_ok :: "vpn_server \<Rightarrow> bool" where
  "socks_ok s \<longleftrightarrow> (\<forall>x so. vs_socks s x = Some so \<longrightarrow> 0 < x \<and> x < vs_next s \<and> partner_ok (vs_infos s) (vs_socks s) x so) \<and>
     (\<forall>a si x. vs_infos s a = Some si \<and> x \<in> set (si_free_socket si) \<longrightarrow> (\<exists>so. vs_socks s x = Some so \<and> \<not> so_epfd so))"

definition channels_ok :: "vpn_server \<Rightarrow> bool" where
  "channels_ok s \<longleftrightarrow> 0 < vs_next s \<and> infos_ok (vs_infos s) \<and> waiting_ok (vs_infos s) \<and> socks_ok s \<and>
     (\<forall>(x, y, bs) \<in> set (vs_sent s). linked (vs_infos s) x y)"

lemma infos_okD:
  assumes "infos_ok I" "I a = Some si"
  obtains re where "I (si_removte si) = Some re" "si_removte re = a" "si_removte si \<noteq> a"
    "length (si_busy_socket re) = length (si_busy_socket si)" "si_free_socket si = [] \<or> si_free_socket re = []"
  using assms unfolding infos_ok_def by metis

text \<open>A socket that waits behind the others.\<close>

lemma infos_ok_wait:
  assumes "infos_ok I" "I a = Some si" "I (si_removte si) = Some re" "si_free_socket re = []"
  shows "infos_ok (I(a \<mapsto> si\<lparr>si_free_socket := si_free_socket si @ [x]\<rparr>))"
proof -
  obtain re where re: "I (si_removte si) = Some re" "si_removte re = a" "si_removte si \<noteq> a"
    "length (si_busy_socket re) = length (si_busy_socket si)" using assms(1,2) by (rule infos_okD)
  show ?thesis unfolding infos_ok_def
  proof (intro allI impI)
    fix b sj assume b: "(I(a \<mapsto> si\<lparr>si_free_socket := si_free_socket si @ [x]\<rparr>)) b = Some sj"
    show "\<exists>re. (I(a \<mapsto> si\<lparr>si_free_socket := si_free_socket si @ [x]\<rparr>)) (si_removte sj) = Some re \<and> si_removte re = b \<and> si_removte sj \<noteq> b \<and>
        length (si_busy_socket re) = length (si_busy_socket sj) \<and> (si_free_socket sj = [] \<or> si_free_socket re = [])"
    proof (cases "b = a")
      case True
      then show ?thesis using b re assms(3,4) by auto
    next
      case False
      then have "I b = Some sj" using b by simp
      with assms(1) obtain rj where rj: "I (si_removte sj) = Some rj" "si_removte rj = b" "si_removte sj \<noteq> b"
        "length (si_busy_socket rj) = length (si_busy_socket sj)" "si_free_socket sj = [] \<or> si_free_socket rj = []" by (rule infos_okD)
      then show ?thesis using False \<open>I b = Some sj\<close> assms by (cases "si_removte sj = a") auto
    qed
  qed
qed

lemma infos_ok_pair:
  assumes "infos_ok I" "I a = Some si" "I (si_removte si) = Some re" "si_free_socket re = r # rest"
  shows "infos_ok (I(a \<mapsto> si\<lparr>si_busy_socket := si_busy_socket si @ [x]\<rparr>,
    si_removte si \<mapsto> re\<lparr>si_free_socket := rest, si_busy_socket := si_busy_socket re @ [r]\<rparr>))" (is "infos_ok ?I")
proof -
  have re: "si_removte re = a" "si_removte si \<noteq> a" "length (si_busy_socket re) = length (si_busy_socket si)" "si_free_socket si = []"
    using assms by (auto elim: infos_okD)
  show ?thesis unfolding infos_ok_def
  proof (intro allI impI)
    fix b sj assume b: "?I b = Some sj"
    show "\<exists>re. ?I (si_removte sj) = Some re \<and> si_removte re = b \<and> si_removte sj \<noteq> b \<and>
        length (si_busy_socket re) = length (si_busy_socket sj) \<and> (si_free_socket sj = [] \<or> si_free_socket re = [])"
    proof (cases "b = a \<or> b = si_removte si")
      case True
      then show ?thesis using b re by (auto split: if_splits)
    next
      case False
      then have "I b = Some sj" using b by simp
      with assms(1) obtain rj where rj: "I (si_removte sj) = Some rj" "si_removte rj = b" "si_removte sj \<noteq> b"
        "length (si_busy_socket rj) = length (si_busy_socket sj)" "si_free_socket sj = [] \<or> si_free_socket rj = []" by (rule infos_okD)
      then show ?thesis using False assms(2,3) re(1) by (intro exI [of _ rj]) auto
    qed
  qed
qed

lemma waiting_ok_wait:
  assumes "waiting_ok I" "I a = Some si" "\<forall>b sj. I b = Some sj \<longrightarrow> x \<notin> set (si_free_socket sj)"
  shows "waiting_ok (I(a \<mapsto> si\<lparr>si_free_socket := si_free_socket si @ [x]\<rparr>))"
  using assms unfolding waiting_ok_def by (auto simp: disjoint_iff)

lemma waiting_ok_pair:
  assumes "waiting_ok I" "I a = Some si" "I b = Some re" "b \<noteq> a" "si_free_socket re = r # rest"
  shows "waiting_ok (I(a \<mapsto> si\<lparr>si_busy_socket := bs\<rparr>, b \<mapsto> re\<lparr>si_free_socket := rest, si_busy_socket := cs\<rparr>))"
proof -
  let ?I = "I(a \<mapsto> si\<lparr>si_busy_socket := bs\<rparr>, b \<mapsto> re\<lparr>si_free_socket := rest, si_busy_socket := cs\<rparr>)"
  have old: "\<exists>sj'. I c = Some sj' \<and> set (si_free_socket sj) \<subseteq> set (si_free_socket sj') \<and>
      (distinct (si_free_socket sj') \<longrightarrow> distinct (si_free_socket sj))" if "?I c = Some sj" for c sj
    using that assms by (cases "c = a"; cases "c = b") auto
  show ?thesis unfolding waiting_ok_def
  proof (intro allI impI conjI)
    fix c sj assume c: "?I c = Some sj"
    then show "distinct (si_free_socket sj)" using old [OF c] assms(1) unfolding waiting_ok_def by blast
    fix d sk assume d: "?I d = Some sk \<and> d \<noteq> c"
    then show "set (si_free_socket sj) \<inter> set (si_free_socket sk) = {}"
      using old [OF c] old [of d sk] assms(1) unfolding waiting_ok_def by blast
  qed
qed

lemma zip_longer: "p \<in> set (zip xs ys) \<Longrightarrow> p \<in> set (zip (xs @ us) (ys @ vs))"
  by (auto simp: in_set_zip nth_append)

lemma linked_wait:
  assumes "I a = Some si" "linked I x y"
  shows "linked (I(a \<mapsto> si\<lparr>si_free_socket := fs\<rparr>)) x y"
proof -
  obtain b sj re where l: "I b = Some sj" "I (si_removte sj) = Some re" "(x, y) \<in> set (zip (si_busy_socket sj) (si_busy_socket re))"
    using assms(2) by (auto simp: linked_def)
  let ?f = "\<lambda>c s. if c = a then s\<lparr>si_free_socket := fs\<rparr> else s"
  show ?thesis unfolding linked_def
    by (rule exI [of _ b], rule exI [of _ "?f b sj"], rule exI [of _ "?f (si_removte sj) re"]) (use l assms(1) in auto)
qed

lemma linked_pair:
  assumes "I a = Some si" "I b = Some re" "b \<noteq> a" "si_removte si = b" "si_removte re = a"
    "length (si_busy_socket si) = length (si_busy_socket re)"
    and I': "I' = I(a \<mapsto> si\<lparr>si_busy_socket := si_busy_socket si @ [x]\<rparr>, b \<mapsto> re\<lparr>si_free_socket := rest, si_busy_socket := si_busy_socket re @ [r]\<rparr>)"
  shows "linked I' x r" "linked I' r x" "linked I u v \<Longrightarrow> linked I' u v"
proof -
  let ?si = "si\<lparr>si_busy_socket := si_busy_socket si @ [x]\<rparr>"
  let ?re = "re\<lparr>si_free_socket := rest, si_busy_socket := si_busy_socket re @ [r]\<rparr>"
  show "linked I' x r" unfolding linked_def
    by (rule exI [of _ a], rule exI [of _ ?si], rule exI [of _ ?re]) (use assms in auto)
  show "linked I' r x" unfolding linked_def
    by (rule exI [of _ b], rule exI [of _ ?re], rule exI [of _ ?si]) (use assms in auto)
  assume "linked I u v"
  then obtain c sj rj where l: "I c = Some sj" "I (si_removte sj) = Some rj" "(u, v) \<in> set (zip (si_busy_socket sj) (si_busy_socket rj))"
    by (auto simp: linked_def)
  let ?f = "\<lambda>c s. if c = a then ?si else if c = b then ?re else s"
  have longer: "\<exists>us. si_busy_socket (?f c s) = si_busy_socket s @ us" if "I c = Some s" for c s
    using that assms(1,2) by auto
  obtain us vs where "si_busy_socket (?f c sj) = si_busy_socket sj @ us"
    "si_busy_socket (?f (si_removte sj) rj) = si_busy_socket rj @ vs" using longer [OF l(1)] longer [OF l(2)] by blast
  then have "(u, v) \<in> set (zip (si_busy_socket (?f c sj)) (si_busy_socket (?f (si_removte sj) rj)))"
    using zip_longer [OF l(3)] by simp
  moreover have "si_removte (?f c sj) = si_removte sj" using l assms by auto
  moreover have "I' c' = Some (?f c' s)" if "I c' = Some s" for c' s using that assms by (simp add: I')
  ultimately show "linked I' u v" unfolding linked_def using l(1,2) by metis
qed

subsection \<open>Every event keeps the pairs\<close>

lemma partner_ok_link:
  assumes "partner_ok I S x so" "\<And>u v. linked I u v \<Longrightarrow> linked I' u v" "\<And>y re. S y = Some re \<Longrightarrow> so_epfd re \<Longrightarrow> S' y = Some re"
  shows "partner_ok I' S' x so"
  using assms by (auto simp: partner_ok_def split: if_splits)

lemma socks_okD:
  assumes "socks_ok s" "vs_socks s x = Some so"
  shows "0 < x" "x < vs_next s" "partner_ok (vs_infos s) (vs_socks s) x so"
  using assms by (auto simp: socks_ok_def)

lemma waits_socks:
  assumes "socks_ok s" "vs_infos s a = Some si" "x \<in> set (si_free_socket si)"
  obtains so where "vs_socks s x = Some so" "\<not> so_epfd so" "x < vs_next s"
  using assms unfolding socks_ok_def by metis

lemma accept_wait_ok:
  assumes ok: "channels_ok s" and si: "vs_infos s a = Some si" "vs_infos s (si_removte si) = Some re" "si_free_socket re = []"
  shows "\<exists>s'. accept_event a fd s = Some s' \<and> channels_ok s'"
proof -
  note parts = ok [unfolded channels_ok_def]
  let ?x = "vs_next s"
  let ?so = "\<lparr>so_fd = fd, so_ptr = ?x, so_epfd = False, so_out = False, so_buff = []\<rparr>"
  let ?I = "(vs_infos s)(a \<mapsto> si\<lparr>si_free_socket := si_free_socket si @ [?x]\<rparr>)"
  let ?S = "(vs_socks s)(?x \<mapsto> ?so)"
  define s' where "s' = s\<lparr>vs_next := ?x + 1, vs_socks := ?S, vs_infos := ?I, vs_requests := vs_requests s @ requested si s\<rparr>"
  have fresh: "vs_socks s ?x = None" using parts socks_okD(2) [of s ?x] by (cases "vs_socks s ?x") auto
  have new: "\<forall>b sj. vs_infos s b = Some sj \<longrightarrow> ?x \<notin> set (si_free_socket sj)"
    using parts waits_socks [of s] by (metis less_irrefl)
  have link: "linked (vs_infos s) u v \<Longrightarrow> linked ?I u v" for u v using si(1) by (rule linked_wait)
  have "socks_ok s'" unfolding socks_ok_def
  proof (intro conjI allI impI)
    fix y so assume y: "vs_socks s' y = Some so"
    show "0 < y" "y < vs_next s'" using y parts socks_okD [of s y so] by (auto simp: s'_def split: if_splits)
    show "partner_ok (vs_infos s') (vs_socks s') y so"
    proof (cases "y = ?x")
      case True
      then show ?thesis using y by (auto simp: s'_def partner_ok_def)
    next
      case False
      then have "partner_ok (vs_infos s) (vs_socks s) y so" using y parts socks_okD(3) [of s y so] by (simp add: s'_def)
      then show ?thesis by (rule partner_ok_link) (use link fresh in \<open>auto simp: s'_def\<close>)
    qed
  next
    fix b sj y assume y: "vs_infos s' b = Some sj \<and> y \<in> set (si_free_socket sj)"
    show "\<exists>so. vs_socks s' y = Some so \<and> \<not> so_epfd so"
    proof (cases "y = ?x")
      case False
      then have "\<exists>sj. vs_infos s b = Some sj \<and> y \<in> set (si_free_socket sj)" using y si(1) by (auto simp: s'_def split: if_splits)
      then show ?thesis using False parts waits_socks [of s b _ y] by (auto simp: s'_def) metis
    qed (simp add: s'_def)
  qed
  moreover have "infos_ok (vs_infos s')" using infos_ok_wait [where I = "vs_infos s", OF _ si] parts by (simp add: s'_def)
  moreover have "waiting_ok (vs_infos s')" using waiting_ok_wait [where I = "vs_infos s", OF _ si(1) new] parts by (simp add: s'_def)
  moreover have "\<forall>(x, y, bs) \<in> set (vs_sent s'). linked (vs_infos s') x y" using parts link by (auto simp: s'_def)
  ultimately have "channels_ok s'" by (simp add: channels_ok_def) (simp add: s'_def)
  then show ?thesis using accept_waits [OF si] by (auto simp: s'_def)
qed

lemma accept_pair_ok:
  assumes ok: "channels_ok s" and si: "vs_infos s a = Some si" "vs_infos s (si_removte si) = Some re" "si_free_socket re = r # rest"
  shows "\<exists>s'. accept_event a fd s = Some s' \<and> channels_ok s'"
proof -
  note parts = ok [unfolded channels_ok_def]
  have re: "si_removte re = a" "si_removte si \<noteq> a" "length (si_busy_socket si) = length (si_busy_socket re)"
    using si(1,2) parts by (auto elim: infos_okD)
  obtain ro where ro: "vs_socks s r = Some ro" "\<not> so_epfd ro" "r < vs_next s"
    using waits_socks [of s "si_removte si" re r] parts si(2,3) by auto
  let ?x = "vs_next s"
  let ?b = "si_removte si"
  let ?so = "\<lparr>so_fd = fd, so_ptr = r, so_epfd = True, so_out = False, so_buff = []\<rparr>"
  let ?ro = "ro\<lparr>so_ptr := ?x, so_epfd := True\<rparr>"
  let ?I = "(vs_infos s)(a \<mapsto> si\<lparr>si_busy_socket := si_busy_socket si @ [?x]\<rparr>,
      ?b \<mapsto> re\<lparr>si_free_socket := rest, si_busy_socket := si_busy_socket re @ [r]\<rparr>)"
  let ?S = "(vs_socks s)(?x \<mapsto> ?so, r \<mapsto> ?ro)"
  define s' where "s' = s\<lparr>vs_next := ?x + 1, vs_socks := ?S, vs_infos := ?I, vs_requests := vs_requests s @ requested si s\<rparr>"
  have fresh: "vs_socks s ?x = None" using parts socks_okD(2) [of s ?x] by (cases "vs_socks s ?x") auto
  note link = linked_pair [where I = "vs_infos s" and x = ?x and rest = rest and r = r, OF si(1,2) re(2) refl re(1,3) refl]
  have r0: "0 < r" "\<not> so_out ro" using socks_okD [of s r ro] parts ro by (auto simp: partner_ok_def)
  have "socks_ok s'" unfolding socks_ok_def
  proof (intro conjI allI impI)
    fix y so assume y: "vs_socks s' y = Some so"
    show "0 < y" "y < vs_next s'" using y parts socks_okD [of s y so] ro(3) r0 by (auto simp: s'_def split: if_splits)
    show "partner_ok (vs_infos s') (vs_socks s') y so"
    proof (cases "y = ?x \<or> y = r")
      case True
      then show ?thesis using y link(1,2) ro(3) r0(2) by (auto simp: s'_def partner_ok_def split: if_splits)
    next
      case False
      then have "partner_ok (vs_infos s) (vs_socks s) y so" using y parts socks_okD(3) [of s y so] by (simp add: s'_def)
      then show ?thesis by (rule partner_ok_link) (use link(3) fresh ro in \<open>auto simp: s'_def\<close>)
    qed
  next
    fix c sj y assume y: "vs_infos s' c = Some sj \<and> y \<in> set (si_free_socket sj)"
    then obtain sk where k: "vs_infos s c = Some sk" "y \<in> set (si_free_socket sk)" "c = ?b \<longrightarrow> y \<in> set rest"
      using si re(2) by (auto simp: s'_def split: if_splits)
    have "y \<noteq> r"
    proof
      assume "y = r"
      then show False using k parts si(2,3) unfolding waiting_ok_def by (cases "c = ?b") (fastforce, metis disjoint_iff list.set_intros(1))
    qed
    moreover obtain so where "vs_socks s y = Some so" "\<not> so_epfd so" "y < ?x"
      using waits_socks [of s c sk y] parts k by blast
    ultimately show "\<exists>so. vs_socks s' y = Some so \<and> \<not> so_epfd so" by (auto simp: s'_def)
  qed
  moreover have "infos_ok (vs_infos s')" using infos_ok_pair [where I = "vs_infos s", OF _ si] parts by (simp add: s'_def)
  moreover have "waiting_ok (vs_infos s')" using waiting_ok_pair [where I = "vs_infos s", OF _ si(1,2) re(2) si(3)] parts by (simp add: s'_def)
  moreover have "\<forall>(x, y, bs) \<in> set (vs_sent s'). linked (vs_infos s') x y" using parts link(3) by (auto simp: s'_def)
  ultimately have "channels_ok s'" by (simp add: channels_ok_def) (simp add: s'_def)
  then show ?thesis using accept_pairs [OF si re(2) ro(1)] ro(3) by (auto simp: s'_def)
qed

text \<open>The lists of the pairs do not change with the sockets.\<close>

lemma close_socket_Some: "vs_socks s x = Some so \<Longrightarrow> close_socket x s = Some (if so_epfd so then set_sock x (so\<lparr>so_out := True\<rparr>) s else s)"
  by (simp add: close_socket_def)

lemma socks_ok_change:
  assumes ok: "channels_ok s"
    and live: "\<And>x so. S x = Some so \<Longrightarrow> \<exists>so'. vs_socks s x = Some so' \<and> so_epfd so' = so_epfd so"
    and waits: "\<And>x so. vs_socks s x = Some so \<Longrightarrow> \<not> so_epfd so \<Longrightarrow> S x \<noteq> None"
    and partner: "\<And>x so. S x = Some so \<Longrightarrow> partner_ok (vs_infos s) S x so"
  shows "channels_ok (s\<lparr>vs_socks := S\<rparr>)"
proof -
  note parts = ok [unfolded channels_ok_def]
  have "socks_ok (s\<lparr>vs_socks := S\<rparr>)" unfolding socks_ok_def
  proof (intro conjI allI impI)
    fix x so assume x: "vs_socks (s\<lparr>vs_socks := S\<rparr>) x = Some so"
    then obtain so' where "vs_socks s x = Some so'" using live by fastforce
    then show "0 < x" "x < vs_next (s\<lparr>vs_socks := S\<rparr>)" using parts socks_okD by auto
    show "partner_ok (vs_infos (s\<lparr>vs_socks := S\<rparr>)) (vs_socks (s\<lparr>vs_socks := S\<rparr>)) x so" using x partner by simp
  next
    fix a si x assume "vs_infos (s\<lparr>vs_socks := S\<rparr>) a = Some si \<and> x \<in> set (si_free_socket si)"
    then obtain so where so: "vs_socks s x = Some so" "\<not> so_epfd so" using parts waits_socks [of s a si x] by auto
    then obtain so' where "S x = Some so'" using waits by blast
    then show "\<exists>so. vs_socks (s\<lparr>vs_socks := S\<rparr>) x = Some so \<and> \<not> so_epfd so" using live so by fastforce
  qed
  then show ?thesis using parts by (simp add: channels_ok_def)
qed

text \<open>The buffer of a socket does not matter to the pairs.\<close>

lemma buffer_ok:
  assumes ok: "channels_ok s" and so: "vs_socks s x = Some so"
  shows "channels_ok (set_sock x (so\<lparr>so_buff := b\<rparr>) s)"
proof -
  note parts = ok [unfolded channels_ok_def]
  let ?S = "(vs_socks s)(x \<mapsto> so\<lparr>so_buff := b\<rparr>)"
  have "channels_ok (s\<lparr>vs_socks := ?S\<rparr>)"
  proof (rule socks_ok_change [OF ok])
    fix y so' assume y: "?S y = Some so'"
    then show "\<exists>so''. vs_socks s y = Some so'' \<and> so_epfd so'' = so_epfd so'" using so by (auto split: if_splits)
    obtain so'' where old: "vs_socks s y = Some so''" "so_ptr so'' = so_ptr so'" "so_epfd so'' = so_epfd so'" "so_out so'' = so_out so'"
      using y so by (auto split: if_splits)
    then have "partner_ok (vs_infos s) (vs_socks s) y so''" using parts socks_okD by blast
    then show "partner_ok (vs_infos s) ?S y so'" using so old by (auto simp: partner_ok_def split: if_splits)
  qed (use so in auto)
  then show ?thesis by (simp add: set_sock_def)
qed

lemma data_on_recv_data_ok:
  assumes ok: "channels_ok s" and so: "vs_socks s x = Some so" "so_epfd so" "\<not> so_out so"
  shows "\<exists>n s' so'. data_on_recv_data x sent s = Some (n, s') \<and> channels_ok s' \<and> vs_socks s' x = Some so'"
proof -
  note parts = ok [unfolded channels_ok_def]
  show ?thesis
  proof (cases "so_ptr so = 0")
    case True
    let ?S = "(vs_socks s)(x \<mapsto> so\<lparr>so_out := True\<rparr>)"
    have "channels_ok (s\<lparr>vs_socks := ?S\<rparr>)"
    proof (rule socks_ok_change [OF ok])
      fix y so' assume y: "?S y = Some so'"
      then show "\<exists>so''. vs_socks s y = Some so'' \<and> so_epfd so'' = so_epfd so'" using so by (auto split: if_splits)
      show "partner_ok (vs_infos s) ?S y so'"
      proof (cases "y = x")
        case False
        then have "vs_socks s y = Some so'" using y by simp
        moreover from this have "partner_ok (vs_infos s) (vs_socks s) y so'" using parts socks_okD by blast
        ultimately show ?thesis using so True False parts socks_okD(1) [of s y so'] by (auto simp: partner_ok_def split: if_splits)
      qed (use y True so in \<open>auto simp: partner_ok_def\<close>)
    qed (use so in auto)
    then show ?thesis using so True by (simp add: data_on_recv_data_def close_socket_Some set_sock_def)
  next
    case False
    then have re: "linked (vs_infos s) x (so_ptr so)" "\<exists>re. vs_socks s (so_ptr so) = Some re"
      using parts socks_okD(3) [of s x so] so by (auto simp: partner_ok_def)
    have "socks_ok (s\<lparr>vs_sent := L\<rparr>)" for L using parts by (simp add: socks_ok_def)
    then have "channels_ok (s\<lparr>vs_sent := vs_sent s @ [(x, so_ptr so, bs)]\<rparr>)" for bs using parts re(1) by (auto simp: channels_ok_def)
    then show ?thesis using so ok False re(2) by (auto simp: data_on_recv_data_def)
  qed
qed

lemma bytes_ok:
  assumes ok: "channels_ok s" and ready: "vpn_event_ready (Bytes x bs sent) s"
  shows "\<exists>s'. vpn_event_run (Bytes x bs sent) s = Some s' \<and> channels_ok s'"
proof -
  obtain so where so: "vs_socks s x = Some so" "so_epfd so" "\<not> so_out so" using ready by (auto simp: vpn_event_ready_def split: option.splits)
  let ?s = "set_sock x (so\<lparr>so_buff := so_buff so @ bs\<rparr>) s"
  have "vs_socks ?s x = Some (so\<lparr>so_buff := so_buff so @ bs\<rparr>)" by (simp add: set_sock_def)
  then obtain n s1 so1 where s1: "data_on_recv_data x sent ?s = Some (n, s1)" "channels_ok s1" "vs_socks s1 x = Some so1"
    using data_on_recv_data_ok [OF buffer_ok [OF ok so(1)], where x = x and sent = sent] so(2,3) by fastforce
  show ?thesis using so(1) s1 buffer_ok [OF s1(2,3)] by (auto simp: data_received_def Let_def)
qed

lemma close_ok:
  assumes ok: "channels_ok s" and ready: "vpn_event_ready (Close x) s"
  shows "\<exists>s'. vpn_event_run (Close x) s = Some s' \<and> channels_ok s'"
proof -
  note parts = ok [unfolded channels_ok_def]
  obtain so where so: "vs_socks s x = Some so" "so_out so" using ready by (auto simp: vpn_event_ready_def split: option.splits)
  have epfd: "so_epfd so" "so_ptr so = 0" using parts socks_okD(3) [of s x so] so by (auto simp: partner_ok_def split: if_splits)
  let ?S = "(vs_socks s)(x := None)"
  have "channels_ok (s\<lparr>vs_socks := ?S\<rparr>)"
  proof (rule socks_ok_change [OF ok])
    fix y so' assume y: "?S y = Some so'"
    then show "\<exists>so''. vs_socks s y = Some so'' \<and> so_epfd so'' = so_epfd so'" by (auto split: if_splits)
    have "vs_socks s y = Some so'" using y by (auto split: if_splits)
    moreover from this have "partner_ok (vs_infos s) (vs_socks s) y so'" using parts socks_okD by blast
    ultimately show "partner_ok (vs_infos s) ?S y so'"
      using so epfd parts socks_okD(1) [of s y so'] by (auto simp: partner_ok_def split: if_splits)
  qed (use so epfd in \<open>auto split: if_splits\<close>)
  then show ?thesis by (simp add: del_clinet_info_def)
qed

lemma end_ok:
  assumes ok: "channels_ok s" and ready: "vpn_event_ready (End x) s"
  shows "\<exists>s'. vpn_event_run (End x) s = Some s' \<and> channels_ok s'"
proof -
  note parts = ok [unfolded channels_ok_def]
  obtain so where so: "vs_socks s x = Some so" "so_epfd so" "\<not> so_out so" using ready by (auto simp: vpn_event_ready_def split: option.splits)
  show ?thesis
  proof (cases "so_ptr so = 0")
    case True
    let ?S = "(vs_socks s)(x := None)"
    have "channels_ok (s\<lparr>vs_socks := ?S\<rparr>)"
    proof (rule socks_ok_change [OF ok])
      fix y so' assume y: "?S y = Some so'"
      then show "\<exists>so''. vs_socks s y = Some so'' \<and> so_epfd so'' = so_epfd so'" by (auto split: if_splits)
      have "vs_socks s y = Some so'" using y by (auto split: if_splits)
      moreover from this have "partner_ok (vs_infos s) (vs_socks s) y so'" using parts socks_okD by blast
      ultimately show "partner_ok (vs_infos s) ?S y so'"
        using so True parts socks_okD(1) [of s y so'] by (auto simp: partner_ok_def split: if_splits)
    qed (use so in \<open>auto split: if_splits\<close>)
    then show ?thesis using so True by (simp add: data_on_disconnected_def del_clinet_info_def)
  next
    case False
    then obtain re where re: "vs_socks s (so_ptr so) = Some re" "so_epfd re" "so_ptr re = x" "so_ptr so \<noteq> x"
      using parts socks_okD(3) [of s x so] so by (auto simp: partner_ok_def)
    let ?S = "(vs_socks s)(so_ptr so \<mapsto> re\<lparr>so_ptr := 0, so_out := True\<rparr>, x := None)"
    have "channels_ok (s\<lparr>vs_socks := ?S\<rparr>)"
    proof (rule socks_ok_change [OF ok])
      fix y so' assume y: "?S y = Some so'"
      then show "\<exists>so''. vs_socks s y = Some so'' \<and> so_epfd so'' = so_epfd so'" using re by (auto split: if_splits)
      show "partner_ok (vs_infos s) ?S y so'"
      proof (cases "y = so_ptr so")
        case False
        then have "vs_socks s y = Some so'" "y \<noteq> x" using y by (auto split: if_splits)
        moreover from this have "partner_ok (vs_infos s) (vs_socks s) y so'" using parts socks_okD by blast
        ultimately show ?thesis using so re False parts socks_okD(1) [of s y so'] by (auto simp: partner_ok_def split: if_splits)
      qed (use y re in \<open>auto simp: partner_ok_def split: if_splits\<close>)
    qed (use so re in \<open>auto split: if_splits\<close>)
    then show ?thesis using so re False
      by (simp add: data_on_disconnected_def del_clinet_info_def set_ptr_def close_socket_def set_sock_def)
  qed
qed

lemma accept_ok:
  assumes ok: "channels_ok s" and si: "vs_infos s a = Some si"
  shows "\<exists>s'. accept_event a fd s = Some s' \<and> channels_ok s'"
proof -
  obtain re where re: "vs_infos s (si_removte si) = Some re"
    using si ok by (auto simp: channels_ok_def elim: infos_okD)
  show ?thesis using accept_wait_ok [OF ok si re] accept_pair_ok [OF ok si re] by (cases "si_free_socket re") auto
qed

subsection \<open>Runs\<close>

text \<open>A run: an event that cannot happen is passed over.\<close>

fun vpn_run :: "vpn_event list \<Rightarrow> vpn_server \<Rightarrow> vpn_server option" where
  "vpn_run [] s = Some s"
| "vpn_run (e # es) s = (if vpn_event_ready e s then do { s \<leftarrow> vpn_event_run e s; vpn_run es s } else vpn_run es s)"

fun no_error :: "vpn_event \<Rightarrow> bool" where
  "no_error (Failed x) \<longleftrightarrow> False"
| "no_error _ \<longleftrightarrow> True"

lemma vpn_event_ok:
  assumes "channels_ok s" "vpn_event_ready e s" "no_error e"
  shows "\<exists>s'. vpn_event_run e s = Some s' \<and> channels_ok s'"
proof (cases e)
  case (Accept a fd)
  then obtain si where "vs_infos s a = Some si" using assms(2) by (auto simp: vpn_event_ready_def split: option.splits)
  then show ?thesis using accept_ok [OF assms(1)] Accept by simp
qed (use assms bytes_ok close_ok end_ok in auto)

lemma vpn_run_ok: "\<lbrakk>channels_ok s; \<forall>e \<in> set es. no_error e\<rbrakk> \<Longrightarrow> \<exists>s'. vpn_run es s = Some s' \<and> channels_ok s'"
proof (induction es arbitrary: s)
  case (Cons e es)
  show ?case
  proof (cases "vpn_event_ready e s")
    case True
    then obtain s1 where "vpn_event_run e s = Some s1" "channels_ok s1" using vpn_event_ok [of s e] Cons.prems by auto
    then show ?thesis using True Cons.IH [of s1] Cons.prems(2) by simp
  qed (use Cons in simp)
qed simp

text \<open>The sockets accepted on a listening socket, in their order; the others only use up addresses.\<close>

fun accepted :: "(nat \<Rightarrow> bool) \<Rightarrow> nat \<Rightarrow> vpn_event list \<Rightarrow> nat \<Rightarrow> nat list" where
  "accepted listens a [] x = []"
| "accepted listens a (Accept b fd # es) x =
     (if listens b then (if b = a then [x] else []) @ accepted listens a es (x + 1) else accepted listens a es x)"
| "accepted listens a (e # es) x = accepted listens a es x"

definition listening :: "vpn_server \<Rightarrow> nat \<Rightarrow> bool" where
  "listening s a \<longleftrightarrow> (case vs_infos s a of None \<Rightarrow> False | Some si \<Rightarrow> si_epfd si)"

text \<open>All connections of a listening socket: first the paired ones, then those that wait.\<close>

definition arrivals :: "vpn_server \<Rightarrow> nat \<Rightarrow> nat list" where
  "arrivals s a = (case vs_infos s a of None \<Rightarrow> [] | Some si \<Rightarrow> si_busy_socket si @ si_free_socket si)"

text \<open>What an event never changes in a listening socket.\<close>

definition si_fixed :: "server_socket_info \<Rightarrow> nat \<times> u32 \<times> u32 \<times> u32 \<times> bool" where
  "si_fixed si = (si_removte si, si_type si, si_client_id si, si_channel_id si, si_epfd si)"

lemma arrivals_Some: "vs_infos s a = Some si \<Longrightarrow> arrivals s a = si_busy_socket si @ si_free_socket si"
  by (simp add: arrivals_def)

lemma accept_event_arrivals:
  assumes "channels_ok s" "vs_infos s b = Some si" "accept_event b fd s = Some s'"
  shows "arrivals s' a = arrivals s a @ (if a = b then [vs_next s] else []) \<and> vs_next s' = vs_next s + 1 \<and> listening s' = listening s \<and>
    map_option si_fixed (vs_infos s' a) = map_option si_fixed (vs_infos s a)"
proof -
  obtain re where re: "vs_infos s (si_removte si) = Some re" "si_removte re = b" "si_removte si \<noteq> b"
      "si_free_socket si = [] \<or> si_free_socket re = []"
    using assms(1,2) by (auto simp: channels_ok_def elim: infos_okD)
  show ?thesis
  proof (cases "si_free_socket re")
    case Nil
    show ?thesis
      using accept_waits [OF assms(2) re(1) Nil, of fd] assms(2,3) by (auto simp: arrivals_def listening_def si_fixed_def fun_eq_iff)
  next
    case (Cons r rest)
    obtain ro where ro: "vs_socks s r = Some ro" "r < vs_next s"
      using waits_socks [of s "si_removte si" re r] assms(1) re(1) Cons by (auto simp: channels_ok_def)
    then show ?thesis
      using accept_pairs [OF assms(2) re(1) Cons re(3) ro(1), of fd] assms(2,3) re Cons by (auto simp: arrivals_def listening_def si_fixed_def fun_eq_iff)
  qed
qed

text \<open>Only the sockets and the bytes sent change with the other events.\<close>

definition same_rest :: "vpn_server \<Rightarrow> vpn_server \<Rightarrow> bool" where
  "same_rest s s' \<longleftrightarrow> vs_infos s' = vs_infos s \<and> vs_next s' = vs_next s \<and> vs_clinet_map s' = vs_clinet_map s \<and>
     vs_channel_map s' = vs_channel_map s"

lemma same_rest_simps [simp]:
  "same_rest s s" "same_rest s (set_sock x so s') \<longleftrightarrow> same_rest s s'" "same_rest (set_sock x so s) s' \<longleftrightarrow> same_rest s s'"
  "same_rest s (del_clinet_info x s') \<longleftrightarrow> same_rest s s'" "same_rest s (s'\<lparr>vs_sent := L\<rparr>) \<longleftrightarrow> same_rest s s'"
  by (auto simp: same_rest_def set_sock_def del_clinet_info_def)

lemma same_rest_trans: "same_rest s s1 \<Longrightarrow> same_rest s1 s2 \<Longrightarrow> same_rest s s2"
  by (simp add: same_rest_def)

lemma socket_rest:
  "close_socket x s = Some s' \<Longrightarrow> same_rest s s'" "set_ptr x p s = Some s' \<Longrightarrow> same_rest s s'"
  by (auto simp: close_socket_def set_ptr_def split: Option.bind_splits if_splits)

lemma data_rest:
  "data_on_recv_data x sent s = Some (n, s') \<Longrightarrow> same_rest s s'" "data_on_disconnected x s = Some s' \<Longrightarrow> same_rest s s'"
  by (auto simp: data_on_recv_data_def data_on_disconnected_def dest: socket_rest intro: same_rest_trans split: Option.bind_splits if_splits)

lemma data_received_rest:
  assumes "data_received x bs sent s = Some s'"
  shows "same_rest s s'"
proof -
  obtain so n s1 so1 where "data_on_recv_data x sent (set_sock x (so\<lparr>so_buff := so_buff so @ bs\<rparr>) s) = Some (n, s1)"
    "s' = set_sock x (so1\<lparr>so_buff := if n < length (so_buff so1) then drop n (so_buff so1) else []\<rparr>) s1"
    using assms by (auto simp: data_received_def Let_def split: Option.bind_splits)
  then show ?thesis using data_rest(1) by fastforce
qed

lemma other_event_rest:
  assumes "vpn_event_run e s = Some s'" "\<And>a fd. e \<noteq> Accept a fd"
  shows "same_rest s s'"
  using assms by (cases e) (auto dest: data_rest data_received_rest split: Option.bind_splits)

lemma other_event_infos:
  assumes "vpn_event_run e s = Some s'" "\<And>a fd. e \<noteq> Accept a fd"
  shows "vs_infos s' = vs_infos s" "vs_next s' = vs_next s"
  using other_event_rest [OF assms] by (simp_all add: same_rest_def)

lemma vpn_run_arrivals:
  assumes "channels_ok s" "\<forall>e \<in> set es. no_error e" "vpn_run es s = Some s'"
  shows "arrivals s' a = arrivals s a @ accepted (listening s) a es (vs_next s)"
    "map_option si_fixed (vs_infos s' a) = map_option si_fixed (vs_infos s a)"
  using assms
proof (atomize (full), induction es arbitrary: s)
  case (Cons e es)
  show ?case
  proof (cases "vpn_event_ready e s")
    case False
    have "accepted (listening s) a (e # es) (vs_next s) = accepted (listening s) a es (vs_next s)"
      using False by (cases e) (auto simp: vpn_event_ready_def listening_def)
    then show ?thesis using False Cons by simp
  next
    case True
    obtain s1 where s1: "vpn_event_run e s = Some s1" "channels_ok s1" using vpn_event_ok [OF Cons.prems(1) True] Cons.prems(2) by auto
    have run: "vpn_run es s1 = Some s'" using Cons.prems(3) True s1(1) by simp
    have IH: "arrivals s' a = arrivals s1 a @ accepted (listening s1) a es (vs_next s1) \<and>
        map_option si_fixed (vs_infos s' a) = map_option si_fixed (vs_infos s1 a)"
      using Cons.IH [OF s1(2) _ run] Cons.prems(2) by simp
    show ?thesis
    proof (cases "\<exists>b fd. e = Accept b fd")
      case True
      then obtain b fd where e: "e = Accept b fd" by blast
      obtain si where si: "vs_infos s b = Some si" "si_epfd si"
        using \<open>vpn_event_ready e s\<close> e by (auto simp: vpn_event_ready_def split: option.splits)
      note acc = accept_event_arrivals [OF Cons.prems(1) si(1), of fd s1]
      have "listening s b" using si by (simp add: listening_def)
      then show ?thesis using IH acc s1(1) e by simp
    next
      case False
      then have "vs_infos s1 = vs_infos s" "vs_next s1 = vs_next s" using other_event_infos [OF s1(1)] by blast+
      then have "arrivals s1 = arrivals s" "listening s1 = listening s" by (simp_all add: arrivals_def listening_def fun_eq_iff)
      moreover have "accepted (listening s) a (e # es) (vs_next s) = accepted (listening s) a es (vs_next s)"
        using False by (cases e) auto
      ultimately show ?thesis using IH \<open>vs_next s1 = vs_next s\<close> \<open>vs_infos s1 = vs_infos s\<close> by simp
    qed
  qed
qed simp

text \<open>What a run never changes in the server.\<close>

lemma vpn_event_keeps:
  assumes "channels_ok s" "vpn_event_ready e s" "vpn_event_run e s = Some s'"
  shows "vs_clinet_map s' = vs_clinet_map s \<and> vs_channel_map s' = vs_channel_map s \<and> vs_next s \<le> vs_next s'"
proof (cases "\<exists>a fd. e = Accept a fd")
  case True
  then obtain a fd where e: "e = Accept a fd" by blast
  obtain si where si: "vs_infos s a = Some si" using assms(2) e by (auto simp: vpn_event_ready_def split: option.splits)
  obtain re where re: "vs_infos s (si_removte si) = Some re" "si_removte si \<noteq> a"
    using si assms(1) by (auto simp: channels_ok_def elim: infos_okD)
  show ?thesis
  proof (cases "si_free_socket re")
    case Nil
    then show ?thesis using accept_waits [OF si re(1) Nil, of fd] assms(3) e by auto
  next
    case (Cons r rest)
    obtain ro where "vs_socks s r = Some ro" "r < vs_next s"
      using waits_socks [of s "si_removte si" re r] assms(1) re(1) Cons by (auto simp: channels_ok_def)
    then show ?thesis using accept_pairs [OF si re(1) Cons re(2), of ro fd] assms(3) e by auto
  qed
next
  case False
  then show ?thesis using other_event_rest [OF assms(3)] by (auto simp: same_rest_def)
qed

lemma vpn_run_keeps:
  "\<lbrakk>channels_ok s; \<forall>e \<in> set es. no_error e; vpn_run es s = Some s'\<rbrakk> \<Longrightarrow>
    vs_clinet_map s' = vs_clinet_map s \<and> vs_channel_map s' = vs_channel_map s \<and> vs_next s \<le> vs_next s'"
proof (induction es arbitrary: s)
  case (Cons e es)
  show ?case
  proof (cases "vpn_event_ready e s")
    case True
    then obtain s1 where s1: "vpn_event_run e s = Some s1" "channels_ok s1" using vpn_event_ok [of s e] Cons.prems by auto
    then have "vpn_run es s1 = Some s'" using True Cons.prems(3) by simp
    then show ?thesis using Cons.IH [OF s1(2)] Cons.prems(2) vpn_event_keeps [OF Cons.prems(1) True s1(1)] by fastforce
  qed (use Cons in simp)
qed simp



text \<open>A server with one channel, whose sockets 1 and 2 listen.\<close>

definition one_channel :: vpn_server where
  "one_channel =
     \<lparr>vs_next = 3, vs_socks = Map.empty,
      vs_infos = [1 \<mapsto> \<lparr>si_fd = 4, si_epfd = True, si_type = 1, si_client_id = 0, si_channel_id = 0, si_local_ip = [], si_local_port = 0,
          si_free_socket = [], si_busy_socket = [], si_removte = 2\<rparr>,
        2 \<mapsto> \<lparr>si_fd = 5, si_epfd = True, si_type = 0, si_client_id = 0, si_channel_id = 0, si_local_ip = [], si_local_port = 0,
          si_free_socket = [], si_busy_socket = [], si_removte = 1\<rparr>],
      vs_channel_map = [0 \<mapsto> 2], vs_clinet_map = Map.empty, vs_sent = [], vs_requests = []\<rparr>"

lemma one_channel_ok: "channels_ok one_channel"
  by (auto simp: channels_ok_def infos_ok_def waiting_ok_def socks_ok_def one_channel_def)

lemma one_channel_listening: "listening one_channel 1" "listening one_channel 2" "arrivals one_channel 1 = []" "arrivals one_channel 2 = []"
  "vs_next one_channel = 3" "vs_infos one_channel 1 \<noteq> None" "map_option si_removte (vs_infos one_channel 1) = Some 2"
  by (simp_all add: listening_def arrivals_def one_channel_def)



subsection \<open>A failed \<open>recv\<close>\<close>

text \<open>
  C33: when a \<open>recv\<close> fails on one socket of a pair, the socket is deleted and its partner keeps the pointer: the next bytes of
  the partner are forwarded to a socket that was deleted.
\<close>

theorem vpn_failed_dangles:
  assumes "channels_ok s" "vs_socks s x = Some so" "so_epfd so" "so_ptr so \<noteq> 0" "vpn_event_ready (Bytes (so_ptr so) bs sent) s"
  shows "vpn_run [Failed x, Bytes (so_ptr so) bs sent] s = None"
proof -
  obtain re where re: "vs_socks s (so_ptr so) = Some re" "so_epfd re" "so_ptr re = x" "so_ptr so \<noteq> x" "\<not> so_out so" "0 < x"
    using assms socks_okD [of s x so] by (auto simp: channels_ok_def partner_ok_def)
  let ?s = "del_clinet_info x s"
  have "vpn_event_ready (Failed x) s" using assms(2,3) re(5) by (simp add: vpn_event_ready_def)
  moreover have "vpn_event_ready (Bytes (so_ptr so) bs sent) ?s" using assms(5) re(4) by (simp add: vpn_event_ready_def del_clinet_info_def)
  moreover have "data_received (so_ptr so) bs sent ?s = None"
    using re by (simp add: data_received_def data_on_recv_data_def del_clinet_info_def set_sock_def)
  ultimately show ?thesis by simp
qed

lemma one_channel_pair:
  "\<exists>s. vpn_run [Accept 1 10, Accept 2 12] one_channel = Some s \<and> channels_ok s \<and> vs_channel_map s 0 = Some 2 \<and>
    vs_socks s 3 = Some \<lparr>so_fd = 10, so_ptr = 4, so_epfd = True, so_out = False, so_buff = []\<rparr> \<and>
    vs_socks s 4 = Some \<lparr>so_fd = 12, so_ptr = 3, so_epfd = True, so_out = False, so_buff = []\<rparr> \<and> map_option si_busy_socket (vs_infos s 2) = Some [4]"
proof -
  obtain s where s: "vpn_run [Accept 1 10, Accept 2 12] one_channel = Some s" "channels_ok s"
    using vpn_run_ok [OF one_channel_ok, of "[Accept 1 10, Accept 2 12]"] by auto
  moreover have "vs_channel_map s 0 = Some 2 \<and> vs_socks s 3 = Some \<lparr>so_fd = 10, so_ptr = 4, so_epfd = True, so_out = False, so_buff = []\<rparr> \<and>
      vs_socks s 4 = Some \<lparr>so_fd = 12, so_ptr = 3, so_epfd = True, so_out = False, so_buff = []\<rparr> \<and> map_option si_busy_socket (vs_infos s 2) = Some [4]"
    using s(1) by (auto simp: one_channel_def vpn_event_ready_def accept_event_def get_clinet_info_def date_socket_accept_def set_sock_def
      set_info_def set_ptr_def add_eool_def send_create_channel_msg_def find_channel_def Let_def)
  ultimately show ?thesis by blast
qed

theorem vpn_failed_dangles_witness:
  "\<exists>s. vpn_run [Accept 1 10, Accept 2 12] one_channel = Some s \<and> vpn_run [Failed 3, Bytes 4 [7] 1] s = None"
proof -
  obtain s where s: "vpn_run [Accept 1 10, Accept 2 12] one_channel = Some s" "channels_ok s"
    "vs_socks s 3 = Some \<lparr>so_fd = 10, so_ptr = 4, so_epfd = True, so_out = False, so_buff = []\<rparr>" using one_channel_pair by blast
  have "vpn_event_ready (Bytes 4 [7] 1) s"
    using one_channel_pair s(1) by (auto simp: vpn_event_ready_def SOCKET_CAPACITY_def)
  then show ?thesis using vpn_failed_dangles [OF s(2,3), of "[7]" 1] s(1) by auto
qed

end
