(* ===== verification/Vpn_Server.thy ===== *)
theory Vpn_Server
  imports Vpn_Channels
begin

text \<open>
  The rest of the VPN server: clients come and go (\<open>vpn/server/business_server.cpp\<close>), channels are created and deleted
  (\<open>vpn/server/data_channel_server.cpp\<close>).
\<close>

subsection \<open>Creating a channel\<close>

text \<open>The key of a channel: \<open>((long long)client_id << 32) + channel_id\<close>.\<close>

definition channel_key :: "u32 \<Rightarrow> u32 \<Rightarrow> u64" where
  "channel_key client_id channel_id = push_bit 32 (scast client_id) + scast channel_id"

text \<open>
  \<open>out_socket\<close> and \<open>in_socket\<close> are what \<open>server_sock_init\<close> returns, \<open>None\<close> for -1.  The socket for the connections from
  outside has type 1 and the other 0; the result is the other.
\<close>

definition init_server_socket ::
    "u8 list \<Rightarrow> u32 \<Rightarrow> u8 list \<Rightarrow> u32 \<Rightarrow> nat option \<Rightarrow> nat option \<Rightarrow> vpn_server \<Rightarrow> (nat option \<times> vpn_server) option" where
  "init_server_socket out_ip out_port in_ip in_port out_socket in_socket s =
     (case (out_socket, in_socket) of
        (Some out_fd, Some in_fd) \<Rightarrow>
          if length out_ip < 32 \<and> length in_ip < 32
          then let out_info = vs_next s; in_info = vs_next s + 1;
              s = s\<lparr>vs_next := vs_next s + 2\<rparr>;
              s = set_info out_info \<lparr>si_fd = out_fd, si_epfd = False, si_type = 1, si_client_id = 0, si_channel_id = 0, si_local_ip = out_ip,
                si_local_port = out_port, si_free_socket = [], si_busy_socket = [], si_removte = in_info\<rparr> s;
              s = set_info in_info \<lparr>si_fd = in_fd, si_epfd = False, si_type = 0, si_client_id = 0, si_channel_id = 0, si_local_ip = in_ip,
                si_local_port = in_port, si_free_socket = [], si_busy_socket = [], si_removte = out_info\<rparr> s in
            Some (Some in_info, s)
          else None
      | _ \<Rightarrow> Some (None, s))"

definition set_ids :: "nat \<Rightarrow> u32 \<Rightarrow> u32 \<Rightarrow> vpn_server \<Rightarrow> vpn_server option" where
  "set_ids a client_id channel_id s =
     do { si \<leftarrow> vs_infos s a; Some (set_info a (si\<lparr>si_client_id := client_id, si_channel_id := channel_id\<rparr>) s) }"

text \<open>\<open>listens\<close> is what \<open>listen\<close> answers.\<close>

definition server_add_eool :: "nat \<Rightarrow> bool \<Rightarrow> vpn_server \<Rightarrow> (bool \<times> vpn_server) option" where
  "server_add_eool server_info listens s =
     do {
       si \<leftarrow> vs_infos s server_info;
       if listens then Some (True, set_info server_info (si\<lparr>si_epfd := True\<rparr>) s) else Some (False, s) }"

text \<open>
  When a socket does not listen, \<open>delete server_info\<close> comes before \<open>server_info->m_p_removte\<close> is read.
\<close>

definition data_create_channel_server ::
    "vpn_channel_info \<Rightarrow> nat option \<Rightarrow> nat option \<Rightarrow> bool \<Rightarrow> bool \<Rightarrow> vpn_server \<Rightarrow> (bool \<times> vpn_server) option" where
  "data_create_channel_server ch out_socket in_socket out_listens in_listens s =
     do {
       (server_info, s) \<leftarrow> init_server_socket (ch_out_ip ch) (ch_out_port ch) (ch_in_ip ch) (ch_in_port ch) out_socket in_socket s;
       case server_info of
         None \<Rightarrow> Some (False, s)
       | Some server_info \<Rightarrow> do {
           s \<leftarrow> set_ids server_info (ch_client_id ch) (ch_channel_id ch) s;
           si \<leftarrow> vs_infos s server_info;
           s \<leftarrow> set_ids (si_removte si) (ch_client_id ch) (ch_channel_id ch) s;
           let key = channel_key (ch_client_id ch) (ch_channel_id ch);
           (ok, s) \<leftarrow> server_add_eool (si_removte si) out_listens s;
           (ok, s) \<leftarrow> (if ok then server_add_eool server_info in_listens s else Some (False, s));
           if ok
           then Some (True, if vs_channel_map s key = None then s\<lparr>vs_channel_map := (vs_channel_map s)(key \<mapsto> server_info)\<rparr> else s)
           else do {
             let s = s\<lparr>vs_infos := (vs_infos s)(server_info := None)\<rparr>;
             si \<leftarrow> vs_infos s server_info;
             Some (False, s\<lparr>vs_infos := (vs_infos s)(si_removte si := None)\<rparr>) } } }"

subsection \<open>Deleting a channel\<close>

fun close_queue :: "nat list \<Rightarrow> vpn_server \<Rightarrow> vpn_server option" where
  "close_queue [] s = Some s"
| "close_queue (info # queue) s = do { s \<leftarrow> close_socket info s; close_queue queue s }"

definition server_delete_eool :: "nat \<Rightarrow> vpn_server \<Rightarrow> vpn_server option" where
  "server_delete_eool server_info s = do { si \<leftarrow> vs_infos s server_info; Some (set_info server_info (si\<lparr>si_epfd := False\<rparr>) s) }"

text \<open>The queues of a listening socket are closed and left empty.\<close>

definition close_queues :: "nat \<Rightarrow> vpn_server \<Rightarrow> vpn_server option" where
  "close_queues server_info s =
     do {
       si \<leftarrow> vs_infos s server_info;
       s \<leftarrow> close_queue (si_free_socket si) s;
       s \<leftarrow> close_queue (si_busy_socket si) s;
       Some (set_info server_info (si\<lparr>si_free_socket := [], si_busy_socket := []\<rparr>) s) }"

definition delete_channel_server :: "u32 \<Rightarrow> u32 \<Rightarrow> vpn_server \<Rightarrow> (bool \<times> vpn_server) option" where
  "delete_channel_server client_id channel_id s =
     (case vs_channel_map s (channel_key client_id channel_id) of
        None \<Rightarrow> Some (False, s)
      | Some server_info \<Rightarrow> do {
          si \<leftarrow> vs_infos s server_info;
          s \<leftarrow> server_delete_eool server_info s;
          s \<leftarrow> server_delete_eool (si_removte si) s;
          s \<leftarrow> close_queues server_info s;
          s \<leftarrow> close_queues (si_removte si) s;
          Some (True, s) })"

subsection \<open>Clients\<close>

text \<open>A client with the descriptor \<open>fd\<close>, the \<open>sh_fd\<close>-th socket of the process; \<open>std::map::insert\<close> keeps an older entry.\<close>

definition on_connected :: "nat \<Rightarrow> u32 \<Rightarrow> vpn_server \<Rightarrow> vpn_server" where
  "on_connected fd sh_fd s =
     (if vs_clinet_map s sh_fd = None
      then s\<lparr>vs_clinet_map := (vs_clinet_map s)(sh_fd \<mapsto> \<lparr>ci_clinet_id = sh_fd, ci_fd = fd, ci_channel_map = []\<rparr>)\<rparr>
      else s)"

fun delete_channels :: "u32 \<Rightarrow> (u32 \<times> vpn_channel_info) list \<Rightarrow> vpn_server \<Rightarrow> vpn_server option" where
  "delete_channels client_id [] s = Some s"
| "delete_channels client_id ((k, ch) # channels) s =
     do { (ok, s) \<leftarrow> delete_channel_server client_id (ch_channel_id ch) s; delete_channels client_id channels s }"

definition on_disconnected :: "u32 \<Rightarrow> vpn_server \<Rightarrow> vpn_server option" where
  "on_disconnected sh_fd s =
     (case vs_clinet_map s sh_fd of
        None \<Rightarrow> Some s
      | Some c \<Rightarrow> do {
          s \<leftarrow> delete_channels (ci_clinet_id c) (ci_channel_map c) s;
          Some (s\<lparr>vs_clinet_map := (vs_clinet_map s)(sh_fd := None)\<rparr>) })"

text \<open>The loop over the channels of a client, and the number after the largest; the numbers are signed.\<close>

fun max_channel_id :: "(u32 \<times> vpn_channel_info) list \<Rightarrow> u32 \<Rightarrow> u32" where
  "max_channel_id [] m = m"
| "max_channel_id ((k, ch) # channels) m =
     max_channel_id channels (if sint (ch_channel_id ch) > sint m then ch_channel_id ch else m)"

text \<open>
  Creating a channel for a client: no channel, or the channel, which is added to those of the client.  A string that does not
  fit in its array and an increment over the largest number have no result.
\<close>

definition create_channel_server ::
    "u32 \<Rightarrow> u8 list \<Rightarrow> u8 list \<Rightarrow> u32 \<Rightarrow> u8 list \<Rightarrow> u8 list \<Rightarrow> u32 \<Rightarrow> u8 list \<Rightarrow> u32 \<Rightarrow>
     nat option \<Rightarrow> nat option \<Rightarrow> bool \<Rightarrow> bool \<Rightarrow> vpn_server \<Rightarrow> (vpn_channel_info option \<times> vpn_server) option" where
  "create_channel_server client_id out_ip out_ip1 out_port in_ip in_ip1 in_port local_ip local_port
     out_socket in_socket out_listens in_listens s =
     (case vs_clinet_map s client_id of
        None \<Rightarrow> Some (None, s)
      | Some c \<Rightarrow>
          let m = max_channel_id (ci_channel_map c) 0 in
          if sint m = 2 ^ 31 - 1 \<or> \<not> list_all (\<lambda>str. length str < 32) [out_ip, out_ip1, in_ip, in_ip1, local_ip] then None
          else let ch = \<lparr>ch_client_id = client_id, ch_channel_id = m + 1, ch_out_ip = out_ip, ch_out_ip1 = out_ip1, ch_out_port = out_port,
                 ch_in_ip = in_ip, ch_in_ip1 = in_ip1, ch_in_port = in_port, ch_local_ip = local_ip, ch_local_port = local_port\<rparr> in
            do {
              (ok, s) \<leftarrow> data_create_channel_server ch out_socket in_socket out_listens in_listens s;
              if \<not> ok then Some (None, s)
              else Some (Some ch, s\<lparr>vs_clinet_map := (vs_clinet_map s)(client_id \<mapsto> c\<lparr>ci_channel_map := ci_channel_map c @ [(m + 1, ch)]\<rparr>)\<rparr>) })"

subsection \<open>Keys and numbers\<close>

lemma channel_key_low: "(ucast (channel_key c k) :: u32) = k"
proof -
  have add: "(ucast (a + b :: u64) :: u32) = ucast a + ucast b" for a b
  proof transfer
    fix a b :: int
    show "take_bit LENGTH(32) (take_bit LENGTH(64) (a + b)) = take_bit LENGTH(32) (take_bit LENGTH(64) a + take_bit LENGTH(64) b)"
      using take_bit_add [of 32 a b] take_bit_add [of 32 "take_bit 64 a" "take_bit 64 b"] by simp
  qed
  have "(ucast (push_bit 32 (scast c :: u64)) :: u32) = 0" by (rule bit_word_eqI) (simp add: bit_simps)
  moreover have "(ucast (scast k :: u64) :: u32) = k" by (rule bit_word_eqI) (simp add: bit_simps)
  ultimately show ?thesis by (simp add: channel_key_def add)
qed

lemma channel_key_eq: "channel_key c k = channel_key c' k' \<longleftrightarrow> c = c' \<and> k = k'"
proof
  assume eq: "channel_key c k = channel_key c' k'"
  have k: "k = k'" using channel_key_low [of c k] channel_key_low [of c' k'] eq by simp
  then have high: "push_bit 32 (scast c :: u64) = push_bit 32 (scast c')" using eq by (simp add: channel_key_def)
  have "bit w i \<longleftrightarrow> bit (push_bit 32 (scast w :: u64)) (i + 32)" if "i < 32" for w :: u32 and i
    using that by (simp add: bit_simps)
  then have "c = c'" using high by (intro bit_word_eqI) simp
  then show "c = c' \<and> k = k'" using k by simp
qed simp

text \<open>The new number is larger than all the numbers of the client.\<close>

lemma max_channel_id_ge:
  "sint m \<le> sint (max_channel_id L m)" "(k, ch) \<in> set L \<Longrightarrow> sint (ch_channel_id ch) \<le> sint (max_channel_id L m)"
proof (induction L m rule: max_channel_id.induct)
  case (2 k' ch' L m)
  {
    case 1
    show ?case using "2.IH"(1) by (auto split: if_splits)
  next
    case 2
    then show ?case using "2.IH" by (cases "(k, ch) = (k', ch')") (auto split: if_splits)
  }
qed simp_all

lemma sint_plus_1: "sint (m :: u32) \<noteq> 2 ^ 31 - 1 \<Longrightarrow> sint (m + 1) = sint m + 1"
proof -
  assume "sint m \<noteq> 2 ^ 31 - 1"
  moreover have "- (2 ^ 31) \<le> sint m" "sint m < 2 ^ 31" using sint_ge [of m] sint_lt [of m] by simp_all
  ultimately show ?thesis
    by (simp add: sint_word_ariths signed_take_bit_int_eq_self)
qed

subsection \<open>A new channel\<close>

text \<open>All listening sockets are older than the next address.\<close>

definition infos_below :: "vpn_server \<Rightarrow> bool" where
  "infos_below s \<longleftrightarrow> (\<forall>a si. vs_infos s a = Some si \<longrightarrow> a < vs_next s)"

lemma data_create_channel_server_eq:
  assumes "length (ch_out_ip ch) < 32" "length (ch_in_ip ch) < 32" "vs_channel_map s (channel_key (ch_client_id ch) (ch_channel_id ch)) = None"
  shows "data_create_channel_server ch (Some out_fd) (Some in_fd) True True s = Some (True, s\<lparr>
    vs_next := vs_next s + 2,
    vs_infos := (vs_infos s)(
      vs_next s \<mapsto> \<lparr>si_fd = out_fd, si_epfd = True, si_type = 1, si_client_id = ch_client_id ch, si_channel_id = ch_channel_id ch,
        si_local_ip = ch_out_ip ch, si_local_port = ch_out_port ch, si_free_socket = [], si_busy_socket = [], si_removte = vs_next s + 1\<rparr>,
      vs_next s + 1 \<mapsto> \<lparr>si_fd = in_fd, si_epfd = True, si_type = 0, si_client_id = ch_client_id ch, si_channel_id = ch_channel_id ch,
        si_local_ip = ch_in_ip ch, si_local_port = ch_in_port ch, si_free_socket = [], si_busy_socket = [], si_removte = vs_next s\<rparr>),
    vs_channel_map := (vs_channel_map s)(channel_key (ch_client_id ch) (ch_channel_id ch) \<mapsto> vs_next s + 1)\<rparr>)"
  using assms
  by (simp add: data_create_channel_server_def init_server_socket_def set_ids_def server_add_eool_def set_info_def Let_def fun_upd_twist)

lemma linked_new:
  assumes "I a = None" "I b = None" "linked I x y"
  shows "linked (I(a \<mapsto> si, b \<mapsto> re)) x y"
proof -
  obtain c sj rj where "I c = Some sj" "I (si_removte sj) = Some rj" "(x, y) \<in> set (zip (si_busy_socket sj) (si_busy_socket rj))"
    using assms(3) by (auto simp: linked_def)
  moreover from this have "c \<noteq> a" "c \<noteq> b" "si_removte sj \<noteq> a" "si_removte sj \<noteq> b" using assms(1,2) by auto
  ultimately show ?thesis unfolding linked_def by (intro exI [of _ c] exI [of _ sj] exI [of _ rj]) simp
qed

text \<open>Two listening sockets that name each other and have no connections.\<close>

lemma channels_ok_new:
  assumes ok: "channels_ok s" and below: "infos_below s"
    and si: "si_removte si = vs_next s + 1" "si_free_socket si = []" "si_busy_socket si = []"
    and re: "si_removte re = vs_next s" "si_free_socket re = []" "si_busy_socket re = []"
  shows "channels_ok (s\<lparr>vs_next := vs_next s + 2, vs_infos := (vs_infos s)(vs_next s \<mapsto> si, vs_next s + 1 \<mapsto> re), vs_channel_map := M\<rparr>)"
    (is "channels_ok ?s")
proof -
  note parts = ok [unfolded channels_ok_def]
  let ?I = "(vs_infos s)(vs_next s \<mapsto> si, vs_next s + 1 \<mapsto> re)"
  have fresh: "vs_infos s (vs_next s) = None" "vs_infos s (vs_next s + 1) = None"
    using below unfolding infos_below_def by (metis less_irrefl not_None_eq, metis add_lessD1 less_irrefl not_None_eq)
  have old: "vs_infos s a = Some sj \<Longrightarrow> ?I a = Some sj" for a sj using fresh by auto
  have new: "?I a = Some sj \<Longrightarrow> vs_infos s a = Some sj \<or> (a = vs_next s \<and> sj = si) \<or> (a = vs_next s + 1 \<and> sj = re)" for a sj
    by (auto split: if_splits)
  have "infos_ok ?I" unfolding infos_ok_def
  proof (intro allI impI)
    fix a sj assume a: "?I a = Some sj"
    from new [OF a] show "\<exists>re. ?I (si_removte sj) = Some re \<and> si_removte re = a \<and> si_removte sj \<noteq> a \<and>
        length (si_busy_socket re) = length (si_busy_socket sj) \<and> (si_free_socket sj = [] \<or> si_free_socket re = [])"
    proof (elim disjE)
      assume "vs_infos s a = Some sj"
      then obtain rj where "vs_infos s (si_removte sj) = Some rj" "si_removte rj = a" "si_removte sj \<noteq> a"
        "length (si_busy_socket rj) = length (si_busy_socket sj)" "si_free_socket sj = [] \<or> si_free_socket rj = []"
        using parts by (auto elim: infos_okD)
      then show ?thesis using old by blast
    qed (use si re in auto)
  qed
  moreover have "waiting_ok ?I" unfolding waiting_ok_def
  proof (intro allI impI conjI)
    fix a sj assume a: "?I a = Some sj"
    show "distinct (si_free_socket sj)" using new [OF a] parts si re unfolding waiting_ok_def by auto
    fix b sk assume b: "?I b = Some sk \<and> b \<noteq> a"
    show "set (si_free_socket sj) \<inter> set (si_free_socket sk) = {}"
      using new [OF a] new [of b sk] b parts si re unfolding waiting_ok_def by fastforce
  qed
  moreover have link: "linked (vs_infos s) x y \<Longrightarrow> linked ?I x y" for x y by (rule linked_new [OF fresh])
  moreover have "socks_ok ?s" unfolding socks_ok_def
  proof (intro conjI allI impI)
    fix x so assume x: "vs_socks ?s x = Some so"
    then show "0 < x" "x < vs_next ?s" using parts socks_okD(1,2) [of s x so] by auto
    have "partner_ok (vs_infos s) (vs_socks s) x so" using x parts socks_okD(3) by simp
    then show "partner_ok (vs_infos ?s) (vs_socks ?s) x so" by (rule partner_ok_link) (use link in auto)
  next
    fix a sj x assume "vs_infos ?s a = Some sj \<and> x \<in> set (si_free_socket sj)"
    then have "vs_infos s a = Some sj" "x \<in> set (si_free_socket sj)" using new [of a sj] si re by auto
    then show "\<exists>so. vs_socks ?s x = Some so \<and> \<not> so_epfd so" using parts waits_socks [of s a sj x] by auto
  qed
  ultimately show ?thesis using parts by (auto simp: channels_ok_def)
qed

subsection \<open>Clients and their channels\<close>

text \<open>
  The channels of a client have the client's id and their own, and the listening sockets that the key leads to carry both; a
  key of the client belongs to one of its channels.
\<close>

definition has_sockets :: "vpn_server \<Rightarrow> u32 \<Rightarrow> u32 \<Rightarrow> bool" where
  "has_sockets s client_id channel_id \<longleftrightarrow> (\<exists>a si re. vs_channel_map s (channel_key client_id channel_id) = Some a \<and> vs_infos s a = Some si \<and>
     vs_infos s (si_removte si) = Some re \<and> si_client_id si = client_id \<and> si_channel_id si = channel_id \<and>
     si_client_id re = client_id \<and> si_channel_id re = channel_id)"

definition client_ok :: "vpn_server \<Rightarrow> u32 \<Rightarrow> vpn_client_info \<Rightarrow> bool" where
  "client_ok s client_id c \<longleftrightarrow> ci_clinet_id c = client_id \<and>
     (\<forall>(k, ch) \<in> set (ci_channel_map c). ch_channel_id ch = k \<and> ch_client_id ch = client_id \<and> has_sockets s client_id k) \<and>
     (\<forall>k. vs_channel_map s (channel_key client_id k) \<noteq> None \<longrightarrow> k \<in> fst ` set (ci_channel_map c))"

definition server_ok :: "vpn_server \<Rightarrow> bool" where
  "server_ok s \<longleftrightarrow> channels_ok s \<and> infos_below s \<and> (\<forall>client_id c. vs_clinet_map s client_id = Some c \<longrightarrow> client_ok s client_id c)"

lemma server_okD:
  assumes "server_ok s"
  shows "channels_ok s" "infos_below s" "vs_clinet_map s client_id = Some c \<Longrightarrow> client_ok s client_id c"
  using assms by (auto simp: server_ok_def)

definition empty_server :: vpn_server where
  "empty_server = \<lparr>vs_next = 1, vs_socks = Map.empty, vs_infos = Map.empty, vs_channel_map = Map.empty, vs_clinet_map = Map.empty,
     vs_sent = [], vs_requests = []\<rparr>"

lemma empty_server_ok: "server_ok empty_server"
  by (auto simp: server_ok_def infos_below_def channels_ok_def infos_ok_def waiting_ok_def socks_ok_def empty_server_def)

text \<open>A client whose id was never used.\<close>

lemma on_connected_ok:
  assumes ok: "server_ok s" and fresh: "\<And>k. vs_channel_map s (channel_key sh_fd k) = None"
  shows "server_ok (on_connected fd sh_fd s)"
proof -
  let ?c = "\<lparr>ci_clinet_id = sh_fd, ci_fd = fd, ci_channel_map = []\<rparr>"
  let ?s = "s\<lparr>vs_clinet_map := (vs_clinet_map s)(sh_fd \<mapsto> ?c)\<rparr>"
  have "channels_ok ?s" "infos_below ?s" using ok by (simp_all add: server_ok_def channels_ok_def infos_below_def socks_ok_def)
  moreover have "client_ok ?s i c" if "vs_clinet_map ?s i = Some c" for i c
    using that ok fresh by (auto simp: server_ok_def client_ok_def has_sockets_def split: if_splits)
  ultimately show ?thesis using ok by (simp add: on_connected_def server_ok_def)
qed

text \<open>Events keep clients and channels.\<close>

lemma has_sockets_run:
  assumes "channels_ok s" "\<forall>e \<in> set es. no_error e" "vpn_run es s = Some s'" "has_sockets s i k"
  shows "has_sockets s' i k"
proof -
  note fixed = vpn_run_arrivals(2) [OF assms(1-3)]
  have keep: "\<exists>si'. vs_infos s' a = Some si' \<and> si_fixed si' = si_fixed si" if "vs_infos s a = Some si" for a si
    using fixed [of a] that by auto
  obtain a si re where a: "vs_channel_map s (channel_key i k) = Some a" "vs_infos s a = Some si" "vs_infos s (si_removte si) = Some re"
    "si_client_id si = i" "si_channel_id si = k" "si_client_id re = i" "si_channel_id re = k"
    using assms(4) by (auto simp: has_sockets_def)
  obtain si' re' where "vs_infos s' a = Some si'" "si_fixed si' = si_fixed si" "vs_infos s' (si_removte si) = Some re'" "si_fixed re' = si_fixed re"
    using keep [OF a(2)] keep [OF a(3)] by blast
  then show ?thesis using a vpn_run_keeps [OF assms(1-3)] unfolding has_sockets_def
    by (intro exI [of _ a] exI [of _ si'] exI [of _ re']) (simp add: si_fixed_def)
qed

lemma vpn_run_server_ok:
  assumes "server_ok s" "\<forall>e \<in> set es. no_error e"
  shows "\<exists>s'. vpn_run es s = Some s' \<and> server_ok s'"
proof -
  note ok = server_okD(1) [OF assms(1)]
  obtain s' where s': "vpn_run es s = Some s'" "channels_ok s'" using vpn_run_ok [OF ok assms(2)] by blast
  note keeps = vpn_run_keeps [OF ok assms(2) s'(1)]
  have "a < vs_next s'" if a: "vs_infos s' a = Some si" for a si
  proof -
    obtain sj where "vs_infos s a = Some sj" using a vpn_run_arrivals(2) [OF ok assms(2) s'(1), of a]
      by (cases "vs_infos s a") auto
    then show ?thesis using server_okD(2) [OF assms(1)] keeps unfolding infos_below_def by fastforce
  qed
  moreover have "client_ok s' i c" if "vs_clinet_map s' i = Some c" for i c
    using that keeps server_okD(3) [OF assms(1), of i c] has_sockets_run [OF ok assms(2) s'(1)]
    unfolding client_ok_def by fastforce
  ultimately show ?thesis using s' by (auto simp: server_ok_def infos_below_def)
qed

text \<open>A channel more.\<close>

lemma new_channel_number:
  assumes "client_ok s client_id c" "max_channel_id (ci_channel_map c) 0 = m" "sint m \<noteq> 2 ^ 31 - 1"
  shows "m + 1 \<notin> fst ` set (ci_channel_map c)" "vs_channel_map s (channel_key client_id (m + 1)) = None" "0 < sint (m + 1)"
proof -
  have plus: "sint (m + 1) = sint m + 1" by (rule sint_plus_1) fact
  have "sint k \<le> sint m" if "(k, ch) \<in> set (ci_channel_map c)" for k ch
    using max_channel_id_ge(2) [OF that, of 0] assms(1,2) that by (auto simp: client_ok_def)
  then show no: "m + 1 \<notin> fst ` set (ci_channel_map c)" using plus by fastforce
  then show "vs_channel_map s (channel_key client_id (m + 1)) = None" using assms(1) unfolding client_ok_def by blast
  show "0 < sint (m + 1)" using plus max_channel_id_ge(1) [of 0 "ci_channel_map c"] assms(2) by simp
qed

lemma has_sockets_more:
  assumes "has_sockets s i k" "\<And>a si. vs_infos s a = Some si \<Longrightarrow> vs_infos s' a = Some si"
    "vs_channel_map s' (channel_key i k) = vs_channel_map s (channel_key i k)"
  shows "has_sockets s' i k"
  using assms unfolding has_sockets_def by metis

lemma client_ok_more:
  assumes ok: "client_ok s i c" and infos: "\<And>a si. vs_infos s a = Some si \<Longrightarrow> vs_infos s' a = Some si"
    and map: "vs_channel_map s' = (vs_channel_map s)(channel_key client_id k \<mapsto> b)"
    and fresh: "vs_channel_map s (channel_key client_id k) = None" and other: "i \<noteq> client_id"
  shows "client_ok s' i c"
proof -
  have "vs_channel_map s' (channel_key i j) = vs_channel_map s (channel_key i j)" for j
    using other by (simp add: map channel_key_eq)
  moreover from this have "has_sockets s i j \<Longrightarrow> has_sockets s' i j" for j
    using has_sockets_more [OF _ infos] by simp
  ultimately show ?thesis using ok unfolding client_ok_def by auto
qed

text \<open>Creating a channel, in full.\<close>

lemma create_channel_server_result:
  assumes ok: "server_ok s" and c: "vs_clinet_map s client_id = Some c"
    and m: "max_channel_id (ci_channel_map c) 0 = m" "sint m \<noteq> 2 ^ 31 - 1"
    and fits: "list_all (\<lambda>str. length str < 32) [out_ip, out_ip1, in_ip, in_ip1, local_ip]"
    and ch: "ch = \<lparr>ch_client_id = client_id, ch_channel_id = m + 1, ch_out_ip = out_ip, ch_out_ip1 = out_ip1, ch_out_port = out_port,
      ch_in_ip = in_ip, ch_in_ip1 = in_ip1, ch_in_port = in_port, ch_local_ip = local_ip, ch_local_port = local_port\<rparr>"
  shows "\<exists>s' c' si re. create_channel_server client_id out_ip out_ip1 out_port in_ip in_ip1 in_port local_ip local_port (Some out_fd) (Some in_fd) True True s =
      Some (Some ch, s') \<and> server_ok s' \<and> m + 1 \<notin> fst ` set (ci_channel_map c) \<and>
    vs_clinet_map s' client_id = Some c' \<and> ci_fd c' = ci_fd c \<and> find_channel client_id (m + 1) s' = Some (c', ch) \<and>
    vs_channel_map s' (channel_key client_id (m + 1)) = Some (vs_next s + 1) \<and>
    vs_infos s' (vs_next s) = Some si \<and> vs_infos s' (vs_next s + 1) = Some re \<and>
    si_type si = 1 \<and> si_type re = 0 \<and> si_removte si = vs_next s + 1 \<and> si_removte re = vs_next s \<and>
    si_client_id si = client_id \<and> si_channel_id si = m + 1 \<and> listening s' (vs_next s) \<and> listening s' (vs_next s + 1) \<and>
    arrivals s' (vs_next s) = [] \<and> arrivals s' (vs_next s + 1) = [] \<and> vs_requests s' = vs_requests s"
proof -
  note cok = server_okD(3) [OF ok c]
  note num = new_channel_number [OF cok m]
  let ?a = "vs_next s"
  let ?k = "channel_key client_id (m + 1)"
  let ?si = "\<lparr>si_fd = out_fd, si_epfd = True, si_type = 1, si_client_id = client_id, si_channel_id = m + 1,
        si_local_ip = out_ip, si_local_port = out_port, si_free_socket = [], si_busy_socket = [], si_removte = ?a + 1\<rparr>"
  let ?re = "\<lparr>si_fd = in_fd, si_epfd = True, si_type = 0, si_client_id = client_id, si_channel_id = m + 1,
        si_local_ip = in_ip, si_local_port = in_port, si_free_socket = [], si_busy_socket = [], si_removte = ?a\<rparr>"
  define s1 where "s1 = s\<lparr>vs_next := ?a + 2, vs_infos := (vs_infos s)(?a \<mapsto> ?si, ?a + 1 \<mapsto> ?re), vs_channel_map := (vs_channel_map s)(?k \<mapsto> ?a + 1)\<rparr>"
  define c' where "c' = c\<lparr>ci_channel_map := ci_channel_map c @ [(m + 1, ch)]\<rparr>"
  define s' where "s' = s1\<lparr>vs_clinet_map := (vs_clinet_map s)(client_id \<mapsto> c')\<rparr>"
  have "data_create_channel_server ch (Some out_fd) (Some in_fd) True True s = Some (True, s1)"
    using data_create_channel_server_eq [of ch s out_fd in_fd] fits num(2) by (simp add: ch s1_def)
  then have run: "create_channel_server client_id out_ip out_ip1 out_port in_ip in_ip1 in_port local_ip local_port (Some out_fd) (Some in_fd) True True s =
      Some (Some ch, s')"
    using c m fits by (simp add: create_channel_server_def Let_def s'_def c'_def s1_def flip: ch)
  have fresh: "vs_infos s ?a = None" "vs_infos s (?a + 1) = None"
    using server_okD(2) [OF ok] unfolding infos_below_def by (metis less_irrefl not_None_eq, metis add_lessD1 less_irrefl not_None_eq)
  have "channels_ok s1" unfolding s1_def
    by (rule channels_ok_new [OF server_okD(1,2) [OF ok]]) simp_all
  then have "channels_ok s'" by (simp add: s'_def channels_ok_def socks_ok_def)
  moreover have "infos_below s'" using server_okD(2) [OF ok] by (fastforce simp: infos_below_def s'_def s1_def)
  moreover have "client_ok s' i d" if d: "vs_clinet_map s' i = Some d" for i d
  proof (cases "i = client_id")
    case False
    then show ?thesis using server_okD(3) [OF ok, of i d] d fresh num(2)
      by (intro client_ok_more [of s i d s' client_id "m + 1" "?a + 1"]) (auto simp: s'_def s1_def)
  next
    case True
    have map: "vs_channel_map s' (channel_key client_id k) = (if k = m + 1 then Some (?a + 1) else vs_channel_map s (channel_key client_id k))" for k
      by (simp add: s'_def s1_def channel_key_eq)
    have "has_sockets s' client_id k" if "has_sockets s client_id k" for k
    proof (rule has_sockets_more [OF that])
      show "vs_infos s' a = Some si" if "vs_infos s a = Some si" for a si using that fresh by (auto simp: s'_def s1_def)
      have "k \<noteq> m + 1" using that num(2) by (auto simp: has_sockets_def)
      then show "vs_channel_map s' (channel_key client_id k) = vs_channel_map s (channel_key client_id k)" by (simp add: map)
    qed
    moreover have "has_sockets s' client_id (m + 1)" unfolding has_sockets_def by (simp add: s'_def s1_def)
    moreover have "d = c'" "ci_clinet_id c' = client_id" "set (ci_channel_map c') = insert (m + 1, ch) (set (ci_channel_map c))"
      "ch_channel_id ch = m + 1" "ch_client_id ch = client_id"
      using d True cok by (auto simp: s'_def c'_def ch client_ok_def)
    ultimately show ?thesis using cok True map unfolding client_ok_def by auto
  qed
  ultimately have sok: "server_ok s'" by (simp add: server_ok_def)
  have "map_of (ci_channel_map c) (m + 1) = None" using num(1) by (simp add: map_of_eq_None_iff)
  then have "find_channel client_id (m + 1) s' = Some (c', ch)"
    by (simp add: find_channel_def s'_def c'_def map_add_def map_of_append)
  then show ?thesis using run sok num(1)
    by (intro exI [of _ s'] exI [of _ c'] exI [of _ ?si] exI [of _ ?re])
      (simp add: s'_def s1_def c'_def listening_def arrivals_def)
qed



text \<open>Without a socket the server stays as it is.\<close>

lemma create_channel_no_socket:
  assumes "vs_clinet_map s client_id = Some c" "sint (max_channel_id (ci_channel_map c) 0) \<noteq> 2 ^ 31 - 1"
    "list_all (\<lambda>str. length str < 32) [out_ip, out_ip1, in_ip, in_ip1, local_ip]" "out_socket = None \<or> in_socket = None"
  shows "create_channel_server client_id out_ip out_ip1 out_port in_ip in_ip1 in_port local_ip local_port
    out_socket in_socket out_listens in_listens s = Some (None, s)"
  using assms by (auto simp: create_channel_server_def data_create_channel_server_def init_server_socket_def Let_def split: option.splits)

text \<open>
  when one of the two sockets of a new channel does not listen, \<open>create_channel_server\<close> reads the partner of a socket from
  the object it has just deleted.
\<close>

theorem create_channel_listen_fails:
  assumes "vs_clinet_map s client_id = Some c" "\<not> (out_listens \<and> in_listens)"
  shows "create_channel_server client_id out_ip out_ip1 out_port in_ip in_ip1 in_port local_ip local_port
    (Some out_fd) (Some in_fd) out_listens in_listens s = None"
  using assms
  by (auto simp: create_channel_server_def data_create_channel_server_def init_server_socket_def set_ids_def server_add_eool_def
      set_info_def Let_def)

theorem create_channel_listen_fails_witness:
  "create_channel_server 1 [1] [2] 80 [3] [4] 81 [5] 82 (Some 10) (Some 11) True False (on_connected 7 1 empty_server) = None"
  by (rule create_channel_listen_fails [of _ _ "\<lparr>ci_clinet_id = 1, ci_fd = 7, ci_channel_map = []\<rparr>"])
    (simp_all add: on_connected_def empty_server_def)

subsection \<open>Deleting a channel closes its sockets\<close>

definition to_close :: "socket_info \<Rightarrow> socket_info" where
  "to_close so = (if so_epfd so then so\<lparr>so_out := True\<rparr> else so)"

lemma close_socket_to_close: "vs_socks s x = Some so \<Longrightarrow> close_socket x s = Some (s\<lparr>vs_socks := (vs_socks s)(x \<mapsto> to_close so)\<rparr>)"
  by (auto simp: close_socket_def set_sock_def to_close_def fun_upd_idem)

lemma to_close_twice [simp]: "to_close (to_close so) = to_close so"
  by (simp add: to_close_def)

text \<open>All sockets of a set.\<close>

definition close_all :: "nat set \<Rightarrow> (nat \<Rightarrow> socket_info option) \<Rightarrow> nat \<Rightarrow> socket_info option" where
  "close_all X S = (\<lambda>x. if x \<in> X then map_option to_close (S x) else S x)"

lemma close_all_Un: "close_all X (close_all Y S) = close_all (Y \<union> X) S"
proof
  have "map_option to_close (map_option to_close so) = map_option to_close so" for so by (cases so) simp_all
  then show "close_all X (close_all Y S) x = close_all (Y \<union> X) S x" for x by (simp add: close_all_def)
qed

lemma close_all_None [simp]: "close_all X S x = None \<longleftrightarrow> S x = None"
  by (simp add: close_all_def)

lemma close_queue_Some:
  assumes "\<forall>x \<in> set q. vs_socks s x \<noteq> None"
  shows "close_queue q s = Some (s\<lparr>vs_socks := close_all (set q) (vs_socks s)\<rparr>)"
  using assms
proof (induction q arbitrary: s)
  case Nil
  then show ?case by (simp add: close_all_def)
next
  case (Cons y q)
  then obtain so where so: "vs_socks s y = Some so" by auto
  have "close_socket y s = Some (s\<lparr>vs_socks := close_all {y} (vs_socks s)\<rparr>)"
    using so by (auto simp: close_socket_to_close close_all_def intro!: arg_cong [of _ _ "\<lambda>f. s\<lparr>vs_socks := f\<rparr>"])
  then show ?case using Cons.IH [of "s\<lparr>vs_socks := close_all {y} (vs_socks s)\<rparr>"] Cons.prems by (simp add: close_all_Un)
qed

lemma close_socket_keeps:
  "close_socket y s = Some s' \<Longrightarrow> vs_infos s' = vs_infos s \<and> (vs_socks s' x = None \<longleftrightarrow> vs_socks s x = None)"
  by (auto simp: close_socket_def set_sock_def split: Option.bind_splits if_splits)

lemma close_queue_None: "\<lbrakk>x \<in> set q; vs_socks s x = None\<rbrakk> \<Longrightarrow> close_queue q s = None"
proof (induction q arbitrary: s)
  case (Cons y q)
  show ?case
  proof (cases "close_socket y s")
    case (Some s1)
    then have "x \<noteq> y" using Cons.prems(2) by (auto simp: close_socket_def)
    then show ?thesis using Cons Some close_socket_keeps [OF Some, of x] by simp
  qed simp
qed simp

lemma close_queue_keeps:
  "close_queue q s = Some s' \<Longrightarrow> vs_infos s' = vs_infos s \<and> (vs_socks s' x = None \<longleftrightarrow> vs_socks s x = None)"
proof (induction q arbitrary: s)
  case (Cons y q)
  then obtain s1 where s1: "close_socket y s = Some s1" "close_queue q s1 = Some s'" by (auto split: Option.bind_splits)
  show ?case using Cons.IH [OF s1(2)] close_socket_keeps [OF s1(1), of x] by simp
qed simp

lemma delete_channel_freed:
  assumes "vs_channel_map s (channel_key client_id channel_id) = Some a" "vs_infos s a = Some si" "si_removte si \<noteq> a"
    "x \<in> set (si_busy_socket si)" "vs_socks s x = None"
  shows "delete_channel_server client_id channel_id s = None"
proof (rule ccontr)
  assume "delete_channel_server client_id channel_id s \<noteq> None"
  then obtain s1 s2 s3 where s: "server_delete_eool a s = Some s1" "server_delete_eool (si_removte si) s1 = Some s2" "close_queues a s2 = Some s3"
    using assms(1,2) by (auto simp: delete_channel_server_def split: Option.bind_splits)
  have "vs_infos s2 a = Some (si\<lparr>si_epfd := False\<rparr>)" "vs_socks s2 x = None"
    using s(1,2) assms by (auto simp: server_delete_eool_def set_info_def split: Option.bind_splits)
  then show False using s(3) assms(4) close_queue_None [of x "si_busy_socket si"] close_queue_keeps
    by (auto simp: close_queues_def split: Option.bind_splits)
qed

text \<open>
  C34: a socket of a pair that was closed by its client stays in the queue of its listening socket; deleting the channel, as the
  server does when the client that asked for it leaves, then uses the socket after it was deleted.
\<close>

theorem delete_channel_dangles:
  assumes "channels_ok s" "vs_channel_map s (channel_key client_id channel_id) = Some a" "vs_infos s a = Some si"
    "x \<in> set (si_busy_socket si)" "vpn_event_ready (End x) s"
  shows "\<exists>s'. vpn_run [End x] s = Some s' \<and> delete_channel_server client_id channel_id s' = None"
proof -
  obtain s' where s': "vpn_run [End x] s = Some s'" using vpn_run_ok [OF assms(1), of "[End x]"] by auto
  then have run: "vpn_event_run (End x) s = Some s'" using assms(5) by (simp split: Option.bind_splits)
  note keeps = vpn_event_keeps [OF assms(1,5) run] other_event_infos(1) [OF run]
  have "vs_socks s' x = None" using run by (auto simp: del_clinet_info_def split: Option.bind_splits)
  moreover have "si_removte si \<noteq> a" using assms(1,3) by (auto simp: channels_ok_def elim: infos_okD)
  ultimately have "delete_channel_server client_id channel_id s' = None"
    using keeps assms(2-4) by (intro delete_channel_freed [of s' _ _ a si x]) auto
  then show ?thesis using s' by blast
qed

theorem delete_channel_dangles_witness:
  "\<exists>s s'. vpn_run [Accept 1 10, Accept 2 12] one_channel = Some s \<and> vpn_run [End 4] s = Some s' \<and> delete_channel_server 0 0 s' = None"
proof -
  obtain s si where s: "vpn_run [Accept 1 10, Accept 2 12] one_channel = Some s" "channels_ok s" "vs_channel_map s 0 = Some 2"
    "vs_socks s 4 = Some \<lparr>so_fd = 12, so_ptr = 3, so_epfd = True, so_out = False, so_buff = []\<rparr>" "vs_infos s 2 = Some si" "si_busy_socket si = [4]"
    using one_channel_pair by (auto simp: map_option_eq_Some)
  have "vs_channel_map s (channel_key 0 0) = Some 2" using s(3) by (simp add: channel_key_def)
  then show ?thesis
    using delete_channel_dangles [OF s(2) _ s(5), of 0 0 4] s(1,4,6) by (auto simp: vpn_event_ready_def)
qed

text \<open>
  A channel whose connections are all still there: its sockets no longer listen, its queues are empty, and the sockets that were
  added to the epoll descriptor are to be closed.
\<close>

lemma close_queues_Some:
  assumes "vs_infos s a = Some si" "\<forall>x \<in> set (arrivals s a). vs_socks s x \<noteq> None"
  shows "close_queues a s = Some (s\<lparr>vs_socks := close_all (set (arrivals s a)) (vs_socks s),
    vs_infos := (vs_infos s)(a \<mapsto> si\<lparr>si_free_socket := [], si_busy_socket := []\<rparr>)\<rparr>)"
proof -
  have arr: "set (arrivals s a) = set (si_free_socket si) \<union> set (si_busy_socket si)" using assms(1) by (auto simp: arrivals_Some)
  have "close_queue (si_free_socket si) s = Some (s\<lparr>vs_socks := close_all (set (si_free_socket si)) (vs_socks s)\<rparr>)"
    using assms(2) arr by (intro close_queue_Some) blast
  moreover have "close_queue (si_busy_socket si) (s\<lparr>vs_socks := close_all (set (si_free_socket si)) (vs_socks s)\<rparr>) =
      Some (s\<lparr>vs_socks := close_all (set (arrivals s a)) (vs_socks s)\<rparr>)"
    using assms(2) arr by (subst close_queue_Some) (simp_all add: close_all_Un)
  ultimately show ?thesis using assms(1) by (simp add: close_queues_def set_info_def)
qed

lemma delete_channel_closes:
  assumes "vs_channel_map s (channel_key client_id channel_id) = Some a" "vs_infos s a = Some si" "vs_infos s (si_removte si) = Some re"
    "si_removte si \<noteq> a" "\<forall>x \<in> set (arrivals s a) \<union> set (arrivals s (si_removte si)). vs_socks s x \<noteq> None"
  shows "\<exists>s'. delete_channel_server client_id channel_id s = Some (True, s') \<and>
    \<not> listening s' a \<and> \<not> listening s' (si_removte si) \<and> arrivals s' a = [] \<and> arrivals s' (si_removte si) = [] \<and>
    vs_socks s' = close_all (set (arrivals s a) \<union> set (arrivals s (si_removte si))) (vs_socks s)"
proof -
  let ?b = "si_removte si"
  let ?si = "si\<lparr>si_epfd := False\<rparr>" and ?re = "re\<lparr>si_epfd := False\<rparr>"
  define s2 where "s2 = s\<lparr>vs_infos := (vs_infos s)(a \<mapsto> ?si, ?b \<mapsto> ?re)\<rparr>"
  have two: "vs_infos s2 a = Some ?si" "vs_infos s2 ?b = Some ?re" "vs_socks s2 = vs_socks s"
    "arrivals s2 a = arrivals s a" "arrivals s2 ?b = arrivals s ?b"
    using assms(2-4) by (auto simp: s2_def arrivals_def)
  define s3 where "s3 = s2\<lparr>vs_socks := close_all (set (arrivals s a)) (vs_socks s),
      vs_infos := (vs_infos s2)(a \<mapsto> ?si\<lparr>si_free_socket := [], si_busy_socket := []\<rparr>)\<rparr>"
  have c3: "close_queues a s2 = Some s3" using close_queues_Some [OF two(1)] two assms(5) by (simp add: s3_def)
  have three: "vs_infos s3 ?b = Some ?re" "arrivals s3 ?b = arrivals s ?b" "vs_socks s3 = close_all (set (arrivals s a)) (vs_socks s)"
    using two(2,5) assms(4) by (auto simp: s3_def arrivals_def)
  define s4 where "s4 = s3\<lparr>vs_socks := close_all (set (arrivals s ?b)) (vs_socks s3),
      vs_infos := (vs_infos s3)(?b \<mapsto> ?re\<lparr>si_free_socket := [], si_busy_socket := []\<rparr>)\<rparr>"
  have c4: "close_queues ?b s3 = Some s4" using close_queues_Some [OF three(1)] three assms(5) by (simp add: s4_def)
  have "vs_socks s4 = close_all (set (arrivals s a) \<union> set (arrivals s ?b)) (vs_socks s)" by (simp add: s4_def three(3) close_all_Un)
  moreover have "delete_channel_server client_id channel_id s = Some (True, s4)"
    using assms(1-4) c3 c4 by (simp add: delete_channel_server_def server_delete_eool_def set_info_def flip: s2_def)
  ultimately show ?thesis using assms(4)
    by (intro exI [of _ s4]) (simp add: s4_def s3_def listening_def arrivals_def)
qed

end
