(* ===== verification/Packet_Capture.thy ===== *)
theory Packet_Capture
  imports Vpn_Messages Sh_Strings
begin

text \<open>
  The reader of capture files (\<open>pcap_analyze/main.cpp\<close>, \<open>pcap_analyze/pro.h\<close>): one line for each TCP segment of a file.  The
  file is a list of bytes, numbers in memory are little-endian, and an access outside a buffer has no result.
\<close>

subsection \<open>Byte order\<close>

definition swap16 :: "u16 \<Rightarrow> u16" where
  "swap16 x = or (drop_bit 8 (and x 0xFF00)) (push_bit 8 (and x 0x00FF))"

definition swap32 :: "u32 \<Rightarrow> u32" where
  "swap32 x = or (or (drop_bit 24 (and x 0xFF000000)) (drop_bit 8 (and x 0x00FF0000)))
     (or (push_bit 8 (and x 0x0000FF00)) (push_bit 24 (and x 0x000000FF)))"

definition swap64 :: "u64 \<Rightarrow> u64" where
  "swap64 x = or (or (or (drop_bit 56 (and x 0xFF00000000000000)) (drop_bit 40 (and x 0x00FF000000000000)))
       (or (drop_bit 24 (and x 0x0000FF0000000000)) (drop_bit 8 (and x 0x000000FF00000000))))
     (or (or (push_bit 8 (and x 0x00000000FF000000)) (push_bit 24 (and x 0x0000000000FF0000)))
       (or (push_bit 40 (and x 0x000000000000FF00)) (push_bit 56 (and x 0x00000000000000FF))))"

text \<open>Fields of a structure in a buffer.\<close>

definition u8_at :: "u8 list \<Rightarrow> nat \<Rightarrow> u8 option" where
  "u8_at buf off = (if off < length buf then Some (buf ! off) else None)"

definition u16_at :: "u8 list \<Rightarrow> nat \<Rightarrow> u16 option" where
  "u16_at buf off =
     (if off + 2 \<le> length buf then Some (ucast (buf ! off) + push_bit 8 (ucast (buf ! (off + 1)))) else None)"

definition u32_at :: "u8 list \<Rightarrow> nat \<Rightarrow> u32 option" where
  "u32_at buf off = (if off + 4 \<le> length buf then Some (word_at buf off) else None)"

subsection \<open>Addresses\<close>

definition addr_digits :: "u8 \<Rightarrow> string" where
  "addr_digits a =
     (let n = unat a in
      if n > 99 then [digit (n div 100), digit (n mod 100 div 10), digit (n mod 100 mod 10)]
      else if n > 9 then [digit (n div 10), digit (n mod 10)]
      else [digit (n mod 10)])"

fun ip_str_loop :: "u8 list \<Rightarrow> string \<Rightarrow> string" where
  "ip_str_loop [] str = str"
| "ip_str_loop (a # addr) str = ip_str_loop addr (str @ addr_digits a @ [CHR ''.''])"

text \<open>The number of characters and the string; \<open>len\<close> is the room for it, and the last dot becomes the null character.\<close>

definition ip_str :: "u32 \<Rightarrow> nat \<Rightarrow> nat \<times> string" where
  "ip_str ip len =
     (if len < 16 then (0, [])
      else let str = ip_str_loop (le32 ip) [] in (length str - 1, butlast str))"

subsection \<open>Packets\<close>

text \<open>\<open>%u\<close> of a number.\<close>

definition print_u16 :: "u16 \<Rightarrow> string" where "print_u16 x = decimal (unat x)"
definition print_u32 :: "u32 \<Rightarrow> string" where "print_u32 x = decimal (unat x)"

definition segment_line :: "string \<Rightarrow> u16 \<Rightarrow> string \<Rightarrow> u16 \<Rightarrow> u32 \<Rightarrow> u32 \<Rightarrow> string" where
  "segment_line src_ip s_port des_ip d_port seq ack =
     take 127 (''['' @ src_ip @ '':'' @ print_u16 s_port @ '']->['' @ des_ip @ '':'' @ print_u16 d_port @ ''] ['' @
       print_u32 seq @ ''|'' @ print_u32 ack @ '']'' @ [CHR 0x0A])"

definition sizeof_ether_hdr :: nat where "sizeof_ether_hdr = 14"

definition proc_net_data :: "u8 list \<Rightarrow> string option" where
  "proc_net_data data =
     do {
       ether_type \<leftarrow> u16_at data 12;
       if swap16 ether_type = 0x0800
       then do {
         let ip_hdr = sizeof_ether_hdr;
         protocol \<leftarrow> u8_at data (ip_hdr + 9);
         if protocol = 6
         then do {
           vh_len \<leftarrow> u8_at data ip_hdr;
           let tcp_hdr = sizeof_ether_hdr + unat (and vh_len 0x0f) * 4;
           src_ip \<leftarrow> u32_at data (ip_hdr + 12);
           des_ip \<leftarrow> u32_at data (ip_hdr + 16);
           s_port \<leftarrow> u16_at data tcp_hdr;
           d_port \<leftarrow> u16_at data (tcp_hdr + 2);
           seq \<leftarrow> u32_at data (tcp_hdr + 4);
           ack \<leftarrow> u32_at data (tcp_hdr + 8);
           Some (segment_line (snd (ip_str src_ip 32)) (swap16 s_port) (snd (ip_str des_ip 32)) (swap16 d_port) (swap32 seq) (swap32 ack)) }
         else Some [] }
       else Some [] }"

subsection \<open>Files\<close>

definition sizeof_pcap_head :: nat where "sizeof_pcap_head = 24"
definition sizeof_pcap_data :: nat where "sizeof_pcap_data = 16"

text \<open>
  The buffer of a packet after \<open>read\<close>: 8192 zeroes, or more when the packet is longer, with the bytes the file still has at
  the front.
\<close>

definition packet_buffer :: "nat \<Rightarrow> u8 list \<Rightarrow> u8 list" where
  "packet_buffer caplen bs = put_bytes (replicate (if caplen > 8192 then caplen else 8192) 0) 0 (take caplen bs)"

function capture_loop :: "u8 list \<Rightarrow> nat \<Rightarrow> string \<Rightarrow> string option" where
  "capture_loop file f_pos out =
     (if f_pos < length file then
        if f_pos + sizeof_pcap_data > length file then Some out
        else do {
          caplen \<leftarrow> u32_at file (f_pos + 8);
          let f_pos = f_pos + sizeof_pcap_data;
          line \<leftarrow> proc_net_data (packet_buffer (unat caplen) (drop f_pos file));
          capture_loop file (f_pos + unat caplen) (out @ line) }
      else Some out)"
  by pat_completeness auto
termination
  by (relation "measure (\<lambda>(file, f_pos, out). length file - f_pos)") (auto simp: sizeof_pcap_data_def)

declare capture_loop.simps [simp del]

definition capture_main :: "u8 list \<Rightarrow> string option" where
  "capture_main file = capture_loop file sizeof_pcap_head []"

subsection \<open>Network order\<close>

definition be16 :: "u16 \<Rightarrow> u8 list" where "be16 w = [ucast (drop_bit 8 w), ucast w]"

definition be32 :: "u32 \<Rightarrow> u8 list" where
  "be32 w = [ucast (drop_bit 24 w), ucast (drop_bit 16 w), ucast (drop_bit 8 w), ucast w]"

lemma byte_masks:
  "(0xFF00 :: u16) = push_bit 8 (mask 8)" "(0x00FF :: u16) = mask 8"
  "(0xFF000000 :: u32) = push_bit 24 (mask 8)" "(0x00FF0000 :: u32) = push_bit 16 (mask 8)"
  "(0x0000FF00 :: u32) = push_bit 8 (mask 8)" "(0x000000FF :: u32) = mask 8"
  by (simp_all add: mask_eq_exp_minus_1 push_bit_eq_mult)

lemma swap16_bits: "m < 8 \<Longrightarrow> bit (swap16 w) m = bit w (8 + m) \<and> bit (swap16 w) (8 + m) = bit w m"
  unfolding swap16_def byte_masks by (simp add: bit_simps)

lemma swap32_bits: "m < 8 \<Longrightarrow> bit (swap32 w) m = bit w (24 + m) \<and> bit (swap32 w) (8 + m) = bit w (16 + m) \<and>
    bit (swap32 w) (16 + m) = bit w (8 + m) \<and> bit (swap32 w) (24 + m) = bit w m"
  unfolding swap32_def byte_masks by (simp add: bit_simps)

lemma byte_bit:
  fixes n :: nat
  assumes "n < 16" obtains m where "m < 8" "n = m \<or> n = 8 + m"
  using assms that [of "n mod 8"] by (cases "n < 8") (auto simp: not_less le_mod_geq)

lemma byte_bit_32:
  fixes n :: nat
  assumes "n < 32" obtains m where "m < 8" "n = m \<or> n = 8 + m \<or> n = 16 + m \<or> n = 24 + m"
  using assms that [of n] that [of "n - 8"] that [of "n - 16"] that [of "n - 24"]
  by (cases "n < 8"; cases "n < 16"; cases "n < 24") auto

lemma swap16_swap16: "swap16 (swap16 w) = w"
proof (rule bit_word_eqI)
  fix n assume "n < LENGTH(16)"
  then obtain m where "m < 8" "n = m \<or> n = 8 + m" by (auto elim: byte_bit)
  then show "bit (swap16 (swap16 w)) n = bit w n" using swap16_bits [of m w] swap16_bits [of m "swap16 w"] by auto
qed

lemma swap32_swap32: "swap32 (swap32 w) = w"
proof (rule bit_word_eqI)
  fix n assume "n < LENGTH(32)"
  then obtain m where "m < 8" "n = m \<or> n = 8 + m \<or> n = 16 + m \<or> n = 24 + m" by (auto elim: byte_bit_32)
  then show "bit (swap32 (swap32 w)) n = bit w n" using swap32_bits [of m w] swap32_bits [of m "swap32 w"] by auto
qed

lemma byte_eq_bits: "(\<And>m. m < 8 \<Longrightarrow> bit v (k + m) = bit w (l + m)) \<Longrightarrow> (ucast (drop_bit k v) :: u8) = ucast (drop_bit l w)"
  by (rule bit_word_eqI) (simp add: bit_simps)

lemma be16_le16: "be16 w = le16 (swap16 w)"
  using byte_eq_bits [of w 8 "swap16 w" 0] byte_eq_bits [of w 0 "swap16 w" 8] swap16_bits [of _ w] by (simp add: be16_def le16_def)

lemma be32_le32: "be32 w = le32 (swap32 w)"
  using byte_eq_bits [of w 24 "swap32 w" 0] byte_eq_bits [of w 16 "swap32 w" 8] byte_eq_bits [of w 8 "swap32 w" 16]
    byte_eq_bits [of w 0 "swap32 w" 24] swap32_bits [of _ w] by (simp add: be32_def le32_def)

lemma u32_at_be32: "off = length pre \<Longrightarrow> u32_at (pre @ be32 w @ post) off = Some (swap32 w)"
  using word_at_le32 [of pre "swap32 w" post] by (simp add: u32_at_def be32_le32)

lemma u16_at_be16: "off = length pre \<Longrightarrow> u16_at (pre @ be16 w @ post) off = Some (swap16 w)"
proof -
  let ?v = "swap16 w"
  have "(ucast (ucast ?v :: u8) :: u16) = take_bit 8 ?v" by (simp add: unsigned_ucast_eq)
  moreover have "(ucast (ucast (drop_bit 8 ?v) :: u8) :: u16) = take_bit 8 (drop_bit 8 ?v)" by (simp add: unsigned_ucast_eq)
  moreover have "take_bit 8 ?v + push_bit 8 (take_bit 8 (drop_bit 8 ?v)) = ?v"
    using bits_ident [of 8 "take_bit 16 ?v"] drop_bit_take_bit [of 8 16 ?v] take_bit_word_eq_self [of 16 ?v] by (simp add: add.commute)
  moreover assume "off = length pre"
  ultimately show ?thesis by (simp add: u16_at_def be16_le16 le16_def nth_append)
qed

subsection \<open>Printing an address\<close>

lemma decimal_below_1000:
  "n < 10 \<Longrightarrow> decimal n = [digit n]"
  "\<lbrakk>9 < n; n < 100\<rbrakk> \<Longrightarrow> decimal n = [digit (n div 10), digit (n mod 10)]"
  "\<lbrakk>99 < n; n < 1000\<rbrakk> \<Longrightarrow> decimal n = [digit (n div 100), digit (n mod 100 div 10), digit (n mod 100 mod 10)]"
proof -
  show one: "n < 10 \<Longrightarrow> decimal n = [digit n]" for n by (subst decimal.simps) simp
  show two: "\<lbrakk>9 < n; n < 100\<rbrakk> \<Longrightarrow> decimal n = [digit (n div 10), digit (n mod 10)]" for n
    by (subst decimal.simps) (simp add: one)
  assume n: "99 < n" "n < 1000"
  have "decimal n = decimal (n div 10) @ [digit (n mod 10)]" using n by (subst decimal.simps) simp
  moreover have "n div 10 < 100" "9 < n div 10" using n by simp_all
  moreover have "n div 10 div 10 = n div 100" by (simp add: div_mult2_eq [of n 10 10, symmetric])
  moreover have "n div 10 mod 10 = n mod 100 div 10" "n mod 100 mod 10 = n mod 10" 
    using mod_mult2_eq [of n 10 10] by (simp_all add: mod_mod_cancel)
  ultimately show "decimal n = [digit (n div 100), digit (n mod 100 div 10), digit (n mod 100 mod 10)]"
    by (simp add: two)
qed

lemma addr_digits_decimal: "addr_digits a = decimal (unat a)"
proof -
  have "unat a < 2 ^ LENGTH(8)" by (rule unsigned_less)
  then have "unat a < 1000" by simp
  then show ?thesis using decimal_below_1000 [of "unat a"] by (simp add: addr_digits_def Let_def)
qed

text \<open>
  \<open>ip_str\<close> writes the four bytes of an address as decimal numbers with dots between them, in the order they have in memory,
  returns the number of characters, and needs at most the 16 characters it asks for.
\<close>

theorem ip_str_correct:
  "le32 ip = [a, b, c, d] \<Longrightarrow> ip_str ip 32 =
    (length (snd (ip_str ip 32)), decimal (unat a) @ ''.'' @ decimal (unat b) @ ''.'' @ decimal (unat c) @ ''.'' @ decimal (unat d)) \<and>
    fst (ip_str ip 32) < 16"
proof -
  assume ip: "le32 ip = [a, b, c, d]"
  have len: "length (decimal (unat x)) \<le> 3" for x :: u8
    proof -
    have "unat x < 2 ^ LENGTH(8)" by (rule unsigned_less)
    then show ?thesis by (intro length_decimal) simp_all
  qed
  show ?thesis using len [of a] len [of b] len [of c] len [of d]
    by (simp add: ip_str_def ip addr_digits_decimal butlast_append)
qed

theorem ip_str_correct_witness: "ip_str 0x0101A8C0 32 = (11, ''192.168.1.1'')"
proof -
  have "le32 0x0101A8C0 = [192, 168, 1, 1]" by (simp add: le32_def drop_bit_eq_div)
  from ip_str_correct [OF this] show ?thesis by (simp add: decimal_below_1000 digit_def char_of_def bit_0 prod_eq_iff)
qed

subsection \<open>No access outside a buffer\<close>

lemma length_packet_buffer: "8192 \<le> length (packet_buffer caplen bs)"
  by (simp add: packet_buffer_def put_bytes_def)

lemma proc_net_data_Some:
  assumes "8192 \<le> length data"
  shows "\<exists>line. proc_net_data data = Some line"
proof -
  have "unat (and v 0x0f) < 16" for v :: u8
  proof -
    have "and v 0x0f = take_bit 4 v" by (simp add: take_bit_eq_mask mask_eq_exp_minus_1)
    then show ?thesis using take_bit_nat_less_exp [of 4 "unat v"] by (simp add: unsigned_take_bit_eq)
  qed
  then have "sizeof_ether_hdr + unat (and v 0x0f) * 4 + 12 \<le> length data" for v :: u8
  proof -
    have "unat (and v 0x0f) < 16" by fact
    then show ?thesis using assms by (simp add: sizeof_ether_hdr_def)
  qed
  from this [of "data ! 14"] show ?thesis using assms
    by (auto simp: proc_net_data_def u16_at_def u8_at_def u32_at_def sizeof_ether_hdr_def Let_def add.assoc)
qed

lemma capture_loop_Some: "\<exists>out'. capture_loop f f_pos out = Some out'"
proof (induction f f_pos out rule: capture_loop.induct)
  case (1 f f_pos out)
  show ?case
  proof (cases "f_pos < length f \<and> \<not> f_pos + sizeof_pcap_data > length f")
    case False
    then show ?thesis by (subst capture_loop.simps) auto
  next
    case True
    then obtain c where c: "u32_at f (f_pos + 8) = Some c" by (auto simp: u32_at_def sizeof_pcap_data_def)
    obtain line where line: "proc_net_data (packet_buffer (unat c) (drop (f_pos + sizeof_pcap_data) f)) = Some line"
      using proc_net_data_Some [OF length_packet_buffer] by blast
    show ?thesis using 1 [OF _ _ c refl line] True c line by (subst capture_loop.simps) simp
  qed
qed

text \<open>
  for every file, whatever its bytes are, the reader ends and touches nothing outside the buffers it has allocated.
\<close>

theorem capture_main_total: "\<exists>out. capture_main file = Some out"
  unfolding capture_main_def by (rule capture_loop_Some)

subsection \<open>A file of segments\<close>

text \<open>The packets of a file: the bytes of the header before and after the length, and the packet.\<close>

definition capture_file :: "u8 list \<Rightarrow> (u8 list \<times> u8 list \<times> u8 list) list \<Rightarrow> u8 list \<Rightarrow> u8 list" where
  "capture_file head records tail = head @ concat (map (\<lambda>(time, len, p). time @ le32 (of_nat (length p)) @ len @ p) records) @ tail"

definition records_ok :: "(u8 list \<times> u8 list \<times> u8 list) list \<Rightarrow> bool" where
  "records_ok records \<longleftrightarrow> (\<forall>(time, len, p) \<in> set records. length time = 8 \<and> length len = 4 \<and> length p < 2 ^ 32)"

lemma packet_buffer_front: "packet_buffer (length p) (p @ bs) = p @ drop (length p) (replicate (if length p > 8192 then length p else 8192) 0)"
  by (simp add: packet_buffer_def put_bytes_def)

lemma capture_loop_records:
  assumes "records_ok records" "length tail < 16"
  shows "capture_loop (pre @ concat (map (\<lambda>(time, len, p). time @ le32 (of_nat (length p)) @ len @ p) records) @ tail) (length pre) out =
    Some (out @ concat (map (\<lambda>(time, len, p). the (proc_net_data (packet_buffer (length p) p))) records))"
  using assms(1)
proof (induction records arbitrary: pre out)
  case Nil
  show ?case using assms(2) by (subst capture_loop.simps) (simp add: sizeof_pcap_data_def)
next
  case (Cons r records)
  obtain t l p where r: "r = (t, l, p)" by (cases r)
  have len: "length t = 8" "length l = 4" "length p < 2 ^ 32" "records_ok records" using Cons.prems r by (auto simp: records_ok_def)
  let ?rest = "concat (map (\<lambda>(time, len, p). time @ le32 (of_nat (length p)) @ len @ p) records) @ tail"
  let ?file = "pre @ t @ le32 (of_nat (length p)) @ l @ p @ ?rest"
  have "u32_at ((pre @ t) @ le32 (of_nat (length p)) @ l @ p @ ?rest) (length (pre @ t)) = Some (of_nat (length p))"
    by (simp only: u32_at_def word_at_le32) simp
  then have c: "u32_at ?file (length pre + 8) = Some (of_nat (length p))" using len(1) by simp
  have n: "unat (of_nat (length p) :: u32) = length p" using len(3) by (simp add: unat_of_nat)
  obtain line where line: "proc_net_data (packet_buffer (length p) p) = Some line"
    using proc_net_data_Some [OF length_packet_buffer] by blast
  have buf: "packet_buffer (length p) (drop (length pre + 16) ?file) = packet_buffer (length p) p"
    using len packet_buffer_front [of p ?rest] packet_buffer_front [of p "[]"] by simp
  have "capture_loop ?file (length pre) out =
      capture_loop ((pre @ t @ le32 (of_nat (length p)) @ l @ p) @ ?rest) (length (pre @ t @ le32 (of_nat (length p)) @ l @ p)) (out @ line)"
    using len c n line buf by (subst capture_loop.simps) (simp add: sizeof_pcap_data_def add.assoc)
  also have "\<dots> = Some ((out @ line) @ concat (map (\<lambda>(time, len, p). the (proc_net_data (packet_buffer (length p) p))) records))"
    by (rule Cons.IH [OF len(4)])
  finally show ?case by (simp add: r line)
qed

text \<open>A TCP segment in its frame; the options fill the header up to the length it states.\<close>

record tcp_segment =
  sg_macs :: "u8 list"
  sg_vh_len :: u8
  sg_mid :: "u8 list"
  sg_cksum :: "u8 list"
  sg_src_ip :: u32
  sg_des_ip :: u32
  sg_options :: "u8 list"
  sg_s_port :: u16
  sg_d_port :: u16
  sg_seq :: u32
  sg_ack :: u32
  sg_rest :: "u8 list"

definition segment_ok :: "tcp_segment \<Rightarrow> bool" where
  "segment_ok g \<longleftrightarrow> length (sg_macs g) = 12 \<and> length (sg_mid g) = 8 \<and> length (sg_cksum g) = 2 \<and>
     20 + length (sg_options g) = unat (and (sg_vh_len g) 0x0f) * 4 \<and> length (sg_rest g) < 2 ^ 31"

definition segment_bytes :: "tcp_segment \<Rightarrow> u8 list" where
  "segment_bytes g =
     sg_macs g @ be16 0x0800 @ [sg_vh_len g] @ sg_mid g @ [6] @ sg_cksum g @ le32 (sg_src_ip g) @ le32 (sg_des_ip g) @ sg_options g @
     be16 (sg_s_port g) @ be16 (sg_d_port g) @ be32 (sg_seq g) @ be32 (sg_ack g) @ sg_rest g"

definition segment_text :: "tcp_segment \<Rightarrow> string" where
  "segment_text g = segment_line (snd (ip_str (sg_src_ip g) 32)) (sg_s_port g) (snd (ip_str (sg_des_ip g) 32)) (sg_d_port g) (sg_seq g) (sg_ack g)"

lemma length_be [simp]: "length (be16 w) = 2" "length (be32 v) = 4"
  by (simp_all add: be16_def be32_def)

lemma u8_at_append: "off = length pre \<Longrightarrow> u8_at (pre @ b # post) off = Some b"
  by (simp add: u8_at_def)

lemma u32_at_le32: "off = length pre \<Longrightarrow> u32_at (pre @ le32 w @ post) off = Some w"
  using word_at_le32 [of pre w post] by (simp add: u32_at_def)

lemma proc_net_data_segment:
  assumes "segment_ok g"
  shows "proc_net_data (segment_bytes g @ bs) = Some (segment_text g)"
proof -
  let ?d = "segment_bytes g @ bs"
  let ?ip = "sg_macs g @ be16 0x0800"
  let ?src = "?ip @ [sg_vh_len g] @ sg_mid g @ [6] @ sg_cksum g"
  let ?tcp = "?src @ le32 (sg_src_ip g) @ le32 (sg_des_ip g) @ sg_options g"
  have len: "length (sg_macs g) = 12" "length (sg_mid g) = 8" "length (sg_cksum g) = 2"
    "length (sg_options g) = unat (and (sg_vh_len g) 0x0f) * 4 - 20" "20 \<le> unat (and (sg_vh_len g) 0x0f) * 4"
    using assms by (auto simp: segment_ok_def)
  let ?t = "sizeof_ether_hdr + unat (and (sg_vh_len g) 0x0f) * 4"
  have lt: "length ?tcp = ?t" using len by (simp add: sizeof_ether_hdr_def)
  have "u16_at ?d 12 = Some (swap16 0x0800)"
    using u16_at_be16 [of 12 "sg_macs g" "0x0800"] len by (simp add: segment_bytes_def)
  moreover have "u8_at ?d 14 = Some (sg_vh_len g)"
    using u8_at_append [of 14 ?ip] len by (simp add: segment_bytes_def)
  moreover have "u8_at ?d 23 = Some 6"
    using u8_at_append [of 23 "?ip @ [sg_vh_len g] @ sg_mid g"] len by (simp add: segment_bytes_def)
  moreover have "u32_at ?d 26 = Some (sg_src_ip g)" using u32_at_le32 [of 26 ?src] len by (simp add: segment_bytes_def)
  moreover have "u32_at ?d 30 = Some (sg_des_ip g)"
    using u32_at_le32 [of 30 "?src @ le32 (sg_src_ip g)"] len by (simp add: segment_bytes_def)
  moreover have "u16_at ?d ?t = Some (swap16 (sg_s_port g))" using u16_at_be16 [of ?t ?tcp] lt by (simp add: segment_bytes_def)
  moreover have "u16_at ?d (?t + 2) = Some (swap16 (sg_d_port g))"
  proof -
    have "?d = (?tcp @ be16 (sg_s_port g)) @ be16 (sg_d_port g) @ be32 (sg_seq g) @ be32 (sg_ack g) @ sg_rest g @ bs" by (simp add: segment_bytes_def)
    then show ?thesis using lt by (simp only:) (rule u16_at_be16, simp)
  qed
  moreover have "u32_at ?d (?t + 4) = Some (swap32 (sg_seq g))"
  proof -
    have "?d = (?tcp @ be16 (sg_s_port g) @ be16 (sg_d_port g)) @ be32 (sg_seq g) @ be32 (sg_ack g) @ sg_rest g @ bs" by (simp add: segment_bytes_def)
    then show ?thesis using lt by (simp only:) (rule u32_at_be32, simp)
  qed
  moreover have "u32_at ?d (?t + 8) = Some (swap32 (sg_ack g))"
  proof -
    have "?d = (?tcp @ be16 (sg_s_port g) @ be16 (sg_d_port g) @ be32 (sg_seq g)) @ be32 (sg_ack g) @ sg_rest g @ bs" by (simp add: segment_bytes_def)
    then show ?thesis using lt by (simp only:) (rule u32_at_be32, simp)
  qed
  ultimately show ?thesis
    by (simp add: proc_net_data_def segment_text_def swap16_swap16 swap32_swap32) (simp add: sizeof_ether_hdr_def swap16_swap16 swap32_swap32)
qed

lemma length_segment_bytes:
  assumes "segment_ok g"
  shows "length (segment_bytes g) < 2 ^ 32"
proof -
  have "unat (and (sg_vh_len g) 0x0f) < 2 ^ LENGTH(8)" by (rule unsigned_less)
  then have "length (sg_options g) < 2000" using assms by (simp add: segment_ok_def)
  then show ?thesis using assms by (simp add: segment_bytes_def segment_ok_def)
qed



end
