(* ===== verification/Eal_Platform.thy ===== *)
theory Eal_Platform
  imports Prelude
begin

text \<open>
  What the EAL asks the machine and the user for: the features of the processor (\<open>dpdk_fbarray/rte_cpuflags.c\<close>) and the directory
  for run-time files (\<open>dpdk_fbarray/rte_filesystem.c\<close>).  The instruction \<open>cpuid\<close>, the environment and \<open>mkdir\<close> are arguments.
\<close>

subsection \<open>Processor features\<close>

datatype cpu_register_t = RTE_REG_EAX | RTE_REG_EBX | RTE_REG_ECX | RTE_REG_EDX

record feature_entry =
  fe_name :: string
  fe_leaf :: u32
  fe_subleaf :: u32
  fe_reg :: cpu_register_t
  fe_bit :: nat

definition feat_def :: "string \<Rightarrow> u32 \<Rightarrow> u32 \<Rightarrow> cpu_register_t \<Rightarrow> nat \<Rightarrow> feature_entry" where
  "feat_def name leaf subleaf reg b = \<lparr>fe_name = name, fe_leaf = leaf, fe_subleaf = subleaf, fe_reg = reg, fe_bit = b\<rparr>"

text \<open>The names of the flags in the order of the enumeration, and the entries of the table.\<close>

definition rte_cpu_flag_t :: "string list" where
  "rte_cpu_flag_t =
    [''SSE3'', ''PCLMULQDQ'', ''DTES64'', ''MONITOR'', ''DS_CPL'', ''VMX'', ''SMX'', ''EIST'', ''TM2'', ''SSSE3'',
     ''CNXT_ID'', ''FMA'', ''CMPXCHG16B'', ''XTPR'', ''PDCM'', ''PCID'', ''DCA'', ''SSE4_1'', ''SSE4_2'',
     ''X2APIC'', ''MOVBE'', ''POPCNT'', ''TSC_DEADLINE'', ''AES'', ''XSAVE'', ''OSXSAVE'', ''AVX'', ''F16C'',
     ''RDRAND'', ''HYPERVISOR'', ''FPU'', ''VME'', ''DE'', ''PSE'', ''TSC'', ''MSR'', ''PAE'', ''MCE'', ''CX8'',
     ''APIC'', ''SEP'', ''MTRR'', ''PGE'', ''MCA'', ''CMOV'', ''PAT'', ''PSE36'', ''PSN'', ''CLFSH'', ''DS'',
     ''ACPI'', ''MMX'', ''FXSR'', ''SSE'', ''SSE2'', ''SS'', ''HTT'', ''TM'', ''PBE'', ''DIGTEMP'', ''TRBOBST'',
     ''ARAT'', ''PLN'', ''ECMD'', ''PTM'', ''MPERF_APERF_MSR'', ''ACNT2'', ''ENERGY_EFF'', ''FSGSBASE'', ''BMI1'',
     ''HLE'', ''AVX2'', ''SMEP'', ''BMI2'', ''ERMS'', ''INVPCID'', ''RTM'', ''AVX512F'', ''LAHF_SAHF'', ''LZCNT'',
     ''SYSCALL'', ''XD'', ''1GB_PG'', ''RDTSCP'', ''EM64T'', ''INVTSC'']"

definition feature_defs :: "feature_entry list" where
  "feature_defs =
    [feat_def ''SSE3'' 1 0 RTE_REG_ECX 0,
     feat_def ''PCLMULQDQ'' 1 0 RTE_REG_ECX 1,
     feat_def ''DTES64'' 1 0 RTE_REG_ECX 2,
     feat_def ''MONITOR'' 1 0 RTE_REG_ECX 3,
     feat_def ''DS_CPL'' 1 0 RTE_REG_ECX 4,
     feat_def ''VMX'' 1 0 RTE_REG_ECX 5,
     feat_def ''SMX'' 1 0 RTE_REG_ECX 6,
     feat_def ''EIST'' 1 0 RTE_REG_ECX 7,
     feat_def ''TM2'' 1 0 RTE_REG_ECX 8,
     feat_def ''SSSE3'' 1 0 RTE_REG_ECX 9,
     feat_def ''CNXT_ID'' 1 0 RTE_REG_ECX 10,
     feat_def ''FMA'' 1 0 RTE_REG_ECX 12,
     feat_def ''CMPXCHG16B'' 1 0 RTE_REG_ECX 13,
     feat_def ''XTPR'' 1 0 RTE_REG_ECX 14,
     feat_def ''PDCM'' 1 0 RTE_REG_ECX 15,
     feat_def ''PCID'' 1 0 RTE_REG_ECX 17,
     feat_def ''DCA'' 1 0 RTE_REG_ECX 18,
     feat_def ''SSE4_1'' 1 0 RTE_REG_ECX 19,
     feat_def ''SSE4_2'' 1 0 RTE_REG_ECX 20,
     feat_def ''X2APIC'' 1 0 RTE_REG_ECX 21,
     feat_def ''MOVBE'' 1 0 RTE_REG_ECX 22,
     feat_def ''POPCNT'' 1 0 RTE_REG_ECX 23,
     feat_def ''TSC_DEADLINE'' 1 0 RTE_REG_ECX 24,
     feat_def ''AES'' 1 0 RTE_REG_ECX 25,
     feat_def ''XSAVE'' 1 0 RTE_REG_ECX 26,
     feat_def ''OSXSAVE'' 1 0 RTE_REG_ECX 27,
     feat_def ''AVX'' 1 0 RTE_REG_ECX 28,
     feat_def ''F16C'' 1 0 RTE_REG_ECX 29,
     feat_def ''RDRAND'' 1 0 RTE_REG_ECX 30,
     feat_def ''HYPERVISOR'' 1 0 RTE_REG_ECX 31,
     feat_def ''FPU'' 1 0 RTE_REG_EDX 0,
     feat_def ''VME'' 1 0 RTE_REG_EDX 1,
     feat_def ''DE'' 1 0 RTE_REG_EDX 2,
     feat_def ''PSE'' 1 0 RTE_REG_EDX 3,
     feat_def ''TSC'' 1 0 RTE_REG_EDX 4,
     feat_def ''MSR'' 1 0 RTE_REG_EDX 5,
     feat_def ''PAE'' 1 0 RTE_REG_EDX 6,
     feat_def ''MCE'' 1 0 RTE_REG_EDX 7,
     feat_def ''CX8'' 1 0 RTE_REG_EDX 8,
     feat_def ''APIC'' 1 0 RTE_REG_EDX 9,
     feat_def ''SEP'' 1 0 RTE_REG_EDX 11,
     feat_def ''MTRR'' 1 0 RTE_REG_EDX 12,
     feat_def ''PGE'' 1 0 RTE_REG_EDX 13,
     feat_def ''MCA'' 1 0 RTE_REG_EDX 14,
     feat_def ''CMOV'' 1 0 RTE_REG_EDX 15,
     feat_def ''PAT'' 1 0 RTE_REG_EDX 16,
     feat_def ''PSE36'' 1 0 RTE_REG_EDX 17,
     feat_def ''PSN'' 1 0 RTE_REG_EDX 18,
     feat_def ''CLFSH'' 1 0 RTE_REG_EDX 19,
     feat_def ''DS'' 1 0 RTE_REG_EDX 21,
     feat_def ''ACPI'' 1 0 RTE_REG_EDX 22,
     feat_def ''MMX'' 1 0 RTE_REG_EDX 23,
     feat_def ''FXSR'' 1 0 RTE_REG_EDX 24,
     feat_def ''SSE'' 1 0 RTE_REG_EDX 25,
     feat_def ''SSE2'' 1 0 RTE_REG_EDX 26,
     feat_def ''SS'' 1 0 RTE_REG_EDX 27,
     feat_def ''HTT'' 1 0 RTE_REG_EDX 28,
     feat_def ''TM'' 1 0 RTE_REG_EDX 29,
     feat_def ''PBE'' 1 0 RTE_REG_EDX 31,
     feat_def ''DIGTEMP'' 6 0 RTE_REG_EAX 0,
     feat_def ''TRBOBST'' 6 0 RTE_REG_EAX 1,
     feat_def ''ARAT'' 6 0 RTE_REG_EAX 2,
     feat_def ''PLN'' 6 0 RTE_REG_EAX 4,
     feat_def ''ECMD'' 6 0 RTE_REG_EAX 5,
     feat_def ''PTM'' 6 0 RTE_REG_EAX 6,
     feat_def ''MPERF_APERF_MSR'' 6 0 RTE_REG_ECX 0,
     feat_def ''ACNT2'' 6 0 RTE_REG_ECX 1,
     feat_def ''ENERGY_EFF'' 6 0 RTE_REG_ECX 3,
     feat_def ''FSGSBASE'' 7 0 RTE_REG_EBX 0,
     feat_def ''BMI1'' 7 0 RTE_REG_EBX 2,
     feat_def ''HLE'' 7 0 RTE_REG_EBX 4,
     feat_def ''AVX2'' 7 0 RTE_REG_EBX 5,
     feat_def ''SMEP'' 7 0 RTE_REG_EBX 6,
     feat_def ''BMI2'' 7 0 RTE_REG_EBX 7,
     feat_def ''ERMS'' 7 0 RTE_REG_EBX 8,
     feat_def ''INVPCID'' 7 0 RTE_REG_EBX 10,
     feat_def ''RTM'' 7 0 RTE_REG_EBX 11,
     feat_def ''AVX512F'' 7 0 RTE_REG_EBX 16,
     feat_def ''LAHF_SAHF'' 0x80000001 0 RTE_REG_ECX 0,
     feat_def ''LZCNT'' 0x80000001 0 RTE_REG_ECX 4,
     feat_def ''SYSCALL'' 0x80000001 0 RTE_REG_EDX 11,
     feat_def ''XD'' 0x80000001 0 RTE_REG_EDX 20,
     feat_def ''1GB_PG'' 0x80000001 0 RTE_REG_EDX 26,
     feat_def ''RDTSCP'' 0x80000001 0 RTE_REG_EDX 27,
     feat_def ''EM64T'' 0x80000001 0 RTE_REG_EDX 29,
     feat_def ''INVTSC'' 0x80000007 0 RTE_REG_EDX 8]"

definition RTE_CPUFLAG_NUMFLAGS :: nat where "RTE_CPUFLAG_NUMFLAGS = length rte_cpu_flag_t"

text \<open>An entry stands at the number of its flag; a flag without an entry has zeroes there.\<close>

definition rte_cpu_feature_table :: "nat \<Rightarrow> feature_entry" where
  "rte_cpu_feature_table feature =
     (case find (\<lambda>e. fe_name e = rte_cpu_flag_t ! feature) feature_defs of
        Some e \<Rightarrow> e
      | None \<Rightarrow> feat_def [] 0 0 RTE_REG_EAX 0)"

definition EFAULT :: int where "EFAULT = 14"

text \<open>\<open>max_leaf\<close> is \<open>__get_cpuid_max\<close> and \<open>cpuid\<close> the instruction, with leaf and subleaf.\<close>

definition rte_cpu_get_flag_enabled ::
    "(u32 \<Rightarrow> u32) \<Rightarrow> (u32 \<Rightarrow> u32 \<Rightarrow> cpu_register_t \<Rightarrow> u32) \<Rightarrow> nat \<Rightarrow> int" where
  "rte_cpu_get_flag_enabled max_leaf cpuid feature =
     (if feature \<ge> RTE_CPUFLAG_NUMFLAGS then - 2
      else let feat = rte_cpu_feature_table feature in
        if fe_leaf feat = 0 then - EFAULT
        else let maxleaf = max_leaf (and (fe_leaf feat) 0x80000000) in
          if maxleaf < fe_leaf feat then 0
          else let regs = cpuid (fe_leaf feat) (fe_subleaf feat) in
            uint (and (drop_bit (fe_bit feat) (regs (fe_reg feat))) 1))"

definition rte_cpu_get_flag_name :: "nat \<Rightarrow> string option" where
  "rte_cpu_get_flag_name feature =
     (if feature \<ge> RTE_CPUFLAG_NUMFLAGS then None else Some (fe_name (rte_cpu_feature_table feature)))"

lemma feature_names: "map fe_name feature_defs = rte_cpu_flag_t"
  by (simp add: feature_defs_def rte_cpu_flag_t_def feat_def_def)

lemma length_features: "length feature_defs = 86" "RTE_CPUFLAG_NUMFLAGS = 86"
  by (simp_all add: feature_defs_def RTE_CPUFLAG_NUMFLAGS_def rte_cpu_flag_t_def)

lemma flags_distinct: "distinct rte_cpu_flag_t"
  by code_simp

lemma features_ok: "list_all (\<lambda>e. fe_leaf e \<noteq> 0 \<and> fe_bit e < 32) feature_defs"
  by (simp add: feature_defs_def feat_def_def)

lemma feature_bits_distinct: "distinct (map (\<lambda>e. (fe_leaf e, fe_reg e, fe_bit e)) feature_defs)"
  by (simp add: feature_defs_def feat_def_def)

lemma feature_table_nth:
  assumes "i < 86"
  shows "rte_cpu_feature_table i = feature_defs ! i"
proof -
  have names: "fe_name (feature_defs ! j) = rte_cpu_flag_t ! j" if "j < 86" for j
    using that arg_cong [OF feature_names, of "\<lambda>l. l ! j"] by (simp add: length_features)
  have len: "length rte_cpu_flag_t = 86" using length_features(2) by (simp add: RTE_CPUFLAG_NUMFLAGS_def)
  have "find (\<lambda>e. fe_name e = rte_cpu_flag_t ! i) feature_defs = Some (feature_defs ! i)"
    unfolding find_Some_iff
    using assms names nth_eq_iff_index_eq [OF flags_distinct] len length_features(1) by (intro exI [of _ i]) auto
  then show ?thesis by (simp add: rte_cpu_feature_table_def)
qed

text \<open>
  Every flag has an entry, so asking for it never ends in \<open>-EFAULT\<close>: the answer is the bit of its entry, when the processor knows
  the leaf, and otherwise 0; different flags ask for different bits.
\<close>

theorem rte_cpu_get_flag_enabled_correct:
  "rte_cpu_get_flag_enabled max_leaf cpuid i =
    (if i < 86 then
       of_bool (fe_leaf (feature_defs ! i) \<le> max_leaf (and (fe_leaf (feature_defs ! i)) 0x80000000) \<and>
         bit (cpuid (fe_leaf (feature_defs ! i)) (fe_subleaf (feature_defs ! i)) (fe_reg (feature_defs ! i))) (fe_bit (feature_defs ! i)))
     else - 2)"
proof (cases "i < 86")
  case True
  then have "fe_leaf (feature_defs ! i) \<noteq> 0" using features_ok length_features(1) by (simp add: list_all_length)
  moreover have "uint (and (drop_bit k w) 1) = of_bool (bit w k)" for k and w :: u32
    by (simp add: and_one_eq bit_iff_odd_drop_bit odd_iff_mod_2_eq_one)
  ultimately show ?thesis using True
    by (cases "max_leaf (and (fe_leaf (feature_defs ! i)) 0x80000000) < fe_leaf (feature_defs ! i)")
      (auto simp: rte_cpu_get_flag_enabled_def feature_table_nth length_features Let_def)
next
  case False
  then show ?thesis by (simp add: rte_cpu_get_flag_enabled_def length_features)
qed

subsection \<open>The directory for run-time files\<close>

definition PATH_MAX :: nat where "PATH_MAX = 4096"

text \<open>\<open>snprintf\<close> into \<open>n\<close> characters: the length the text would have, and what is stored.\<close>

definition snprintf :: "nat \<Rightarrow> string \<Rightarrow> nat \<times> string" where
  "snprintf n str = (length str, take (n - 1) str)"

text \<open>
  The status, the directory that is stored and the directories \<open>mkdir\<close> was called for; \<open>mk\<close> tells whether \<open>mkdir\<close> made the
  directory or found it.
\<close>

definition eal_create_runtime_dir :: "nat \<Rightarrow> string option \<Rightarrow> (string \<Rightarrow> bool) \<Rightarrow> string \<Rightarrow> int \<times> string \<times> string list" where
  "eal_create_runtime_dir uid xdg_runtime_dir mk runtime_dir =
     (let directory = (if uid \<noteq> 0 then (case xdg_runtime_dir of Some d \<Rightarrow> d | None \<Rightarrow> ''/tmp'') else ''/var/run'');
          (ret, tmp) = snprintf PATH_MAX (directory @ ''/dpdk'') in
      if ret = PATH_MAX then (- 1, runtime_dir, [])
      else let (ret, runtime_dir) = snprintf PATH_MAX (tmp @ ''/HugePage_2M'') in
        if ret = PATH_MAX then (- 1, runtime_dir, [])
        else if \<not> mk tmp then (- 1, runtime_dir, [tmp])
        else if \<not> mk runtime_dir then (- 1, runtime_dir, [tmp, runtime_dir])
        else (0, runtime_dir, [tmp, runtime_dir]))"

text \<open>A directory whose path fits is made step by step.\<close>

lemma eal_create_runtime_dir_correct:
  assumes "uid \<noteq> 0" "length d < 4079"
  shows "eal_create_runtime_dir uid (Some d) mk old =
    (if mk (d @ ''/dpdk'') \<and> mk (d @ ''/dpdk/HugePage_2M'') then 0 else - 1, d @ ''/dpdk/HugePage_2M'',
     if mk (d @ ''/dpdk'') then [d @ ''/dpdk'', d @ ''/dpdk/HugePage_2M''] else [d @ ''/dpdk''])"
  using assms by (simp add: eal_create_runtime_dir_def snprintf_def PATH_MAX_def)

text \<open>
  The test for a path that does not fit compares with one length only: longer paths are cut off without an error, and the two
  directories are the same.
\<close>

lemma eal_create_runtime_dir_cut:
  assumes "uid \<noteq> 0" "4091 < length d" "mk (take 4095 (d @ ''/dpdk''))"
  shows "eal_create_runtime_dir uid (Some d) mk old =
    (0, take 4095 (d @ ''/dpdk''), [take 4095 (d @ ''/dpdk''), take 4095 (d @ ''/dpdk'')])"
proof -
  define t where "t = take 4095 (d @ ''/dpdk'')"
  have "length t = 4095" using assms(2) by (simp add: t_def)
  then have "take 4095 (t @ cs) = t" for cs by simp
  then show ?thesis using assms \<open>length t = 4095\<close>
    unfolding eal_create_runtime_dir_def snprintf_def PATH_MAX_def by (simp flip: t_def del: take_append)
qed

end
