(* ===== verification/Spec2Isabelle.thy ===== *)
theory Spec2Isabelle
  imports Prelude Interleaving Rte_Common Rte_Ring Rte_Ring_Fifo Rte_Ring_Concurrent Rte_Ring_Progress Rte_Atomic Rte_Locks Lock_Protocols Fbarray Fbarray_Search
    Fbarray_Life Sys_Queue Sys_Queue_Lists Ordered_Map Rbtree Rbtree_Shape Rbtree_Balance Rbtree_Walk Rbtree_Insert
    Rbtree_Delete Rbtree_Map Byte_Heap Mem_Pool Mem_Pool_Laws Mem_Pool_History Block_Allocator Mem_Pool_Client Mm_Pool
    Fifo_Queue Thread_Pool Thread_Pool_Progress Sh_Thread_Pool Sh_Thread_Pool_Life
    Bst Update_Map Bst_Map Bst_Delete Level_Order
    Sh_Strings Eal_Lcore Mem_Hugepage Eal_Mem Vpn_Stream Vpn_Messages Vpn_Channels Vpn_Server Packet_Capture Eal_Platform
begin

text \<open>
  A verification library for the C and C++ programs of this repository (directory \<open>src\<close>): the data structures taken from DPDK and
  their memory and CPU set-up, the memory pools, thread pools, trees and lists of their own, the VPN, and the reader of capture
  files.  Definitions have the names of the functions they translate; where a name is used twice or clashes with HOL, a prefix or a
  suffix tells them apart.

  \<^bold>\<open>How programs are modelled.\<close>  C integers are words of their width, so that sums wrap as in C; a pointer is an address
  (a number, 0 for null) into a heap that is a map from addresses to records, or into a heap of bytes (\<open>Byte_Heap\<close>).  A function
  takes the state it uses and returns it changed.  An access outside an array or to memory that is not allocated, a null pointer
  and other undefined behaviour have the result \<open>None\<close>; the errors of the code are values.  A loop that can wait for ever is a
  \<open>partial_function (option)\<close>, so that not returning is \<open>None\<close> as well; the other loops are functions with a proof of
  termination, and no fuel is used.  Threads are step relations over a shared state in which one step is one atomic access
  (\<open>Interleaving\<close>): sequentially consistent, which promises more than the hardware does and is the main idealisation here.
  What the system calls and the libraries answer are arguments of the definitions.

  \<^bold>\<open>Ring\<close> (\<open>dpdk_ring\<close>).  \<open>Rte_Ring\<close> has the ring with head and tail of both sides, creation, the copying macros and every form of
  enqueue and dequeue; \<open>Rte_Ring_Fifo\<close> shows that a call on the array is the call on a list (refinement, with the wrap of the 32-bit
  indexes) and that a history of calls is first in, first out.  \<open>Rte_Ring_Concurrent\<close> has the producers and consumers access by
  access: no two write or read a cell at once, nothing is lost, doubled or reordered.  \<open>Rte_Ring_Progress\<close>: some thread can always
  finish its call, and a thread alone does what the sequential call does.

  \<^bold>\<open>Atomics and locks\<close> (\<open>dpdk_fbarray/rte_*atomic*.h\<close>, \<open>rte_rwlock.h\<close>, \<open>rte_spinlock.h\<close>, \<open>vpn/com_lib/lock_lib\<close>).  \<open>Rte_Atomic\<close>,
  \<open>Rte_Locks\<close> have the operations one by one, the waiting loops and the transactional variants included; \<open>Lock_Protocols\<close> has the
  locks under any interleaving: writers exclude readers and writers, the recursive lock has one owner with the right count.

  \<^bold>\<open>File-backed array\<close> (\<open>dpdk_fbarray/eal_common_fbarray.h\<close>).  \<open>Fbarray\<close> has all operations on the mask words and the life of the
  mapping, \<open>Fbarray_Search\<close> the specifications of the searches and the two errors of \<open>find_next_n\<close>, \<open>Fbarray_Life\<close> the resources on
  every path of creation, attaching and destruction.

  \<^bold>\<open>Lists and trees.\<close>  \<open>Sys_Queue\<close>, \<open>Sys_Queue_Lists\<close>: the macros of \<open>sys_queue/sys_queue.h\<close> on a heap, against lists.  \<open>Rbtree\<close> to
  \<open>Rbtree_Map\<close>: \<open>rbtree/main.cpp\<close> with parent pointers and sentinel, shown to keep the red-black invariants and to be a map
  (\<open>Rbtree_Map\<close>), with the walks and the bound on the depth.  \<open>Bst\<close>, \<open>Bst_Map\<close>, \<open>Bst_Delete\<close>, \<open>Level_Order\<close>: the search trees of
  \<open>tree/bst_tree\<close> and \<open>tree/2x_tree\<close>, what their deletion loses, and the level-order traversals with their queue.  \<open>Fifo_Queue\<close>: the
  task queue of the thread pool and \<open>tree/fifo_list\<close>.  The shared contracts are locales, each interpreted on the code:
  \<open>Ordered_Map\<close> and \<open>Update_Map\<close> (maps), \<open>Fifo_Queue\<close> (queues).

  \<^bold>\<open>Pools.\<close>  \<open>Mem_Pool\<close>, \<open>Mem_Pool_Laws\<close>, \<open>Mem_Pool_Client\<close>, \<open>Mem_Pool_History\<close>: the growing pool of \<open>vpn/com_lib/mem_lib/mem_pool.h\<close>
  on bytes; blocks handed out are disjoint and keep what is stored in them (locale \<open>block_allocator\<close> in \<open>Block_Allocator\<close>).
  \<open>Mm_Pool\<close>: the fixed pool, whose list of free blocks leaves its region.  \<open>Thread_Pool\<close>, \<open>Thread_Pool_Progress\<close>: \<open>ThreadPool.h\<close>, no lost
  wake-up, every job runs once, shutdown ends.  \<open>Sh_Thread_Pool\<close>, \<open>Sh_Thread_Pool_Life\<close>: \<open>thread_pool.cpp\<close>, its lost wake-up, its
  creation errors and destruction.

  \<^bold>\<open>EAL.\<close>  \<open>Rte_Common\<close>: alignment and bit helpers.  \<open>Sh_Strings\<close>: splitting, sizes and the C library functions they call.
  \<open>Eal_Lcore\<close>: CPUs and NUMA nodes from \<open>/sys\<close>, right when the CPUs have no hole.  \<open>Mem_Hugepage\<close>: mount points, page counts and the table of page
  sizes, safe on what \<open>Eal_Lcore\<close> detected.  \<open>Eal_Mem\<close>: the plan of pages per socket.  \<open>Eal_Platform\<close>: the processor features and the
  run-time directory.

  \<^bold>\<open>VPN\<close> (\<open>vpn\<close>).  \<open>Vpn_Stream\<close> has the messages as bytes and the loop that cuts them out of a stream, with the locale \<open>framing\<close> for what it
  needs of the function that deals with a message; \<open>Vpn_Messages\<close> has that function of the server and of the client and interprets the
  locale on both: the messages of a stream are dealt with in order exactly when no part ends behind a complete head, and otherwise the
  thread hangs; a request of the server reaches the client with its addresses.  \<open>Vpn_Channels\<close> has the listening sockets, the
  pairing and the forwarding as events over a heap of sockets: pairs are made in the order of arrival, bytes go to the partner only and
  no deleted socket is used, unless a \<open>recv\<close> fails.  \<open>Vpn_Server\<close> has the clients and the creation and deletion of channels.  An event is one
  turn of one thread: the data races between the accepting thread and the forwarding thread are not modelled, addresses are never used
  again, and \<open>m_sh_fd\<close> does not wrap.

  \<^bold>\<open>Capture files\<close> (\<open>pcap_analyze\<close>).  \<open>Packet_Capture\<close>: every file is read to its end inside the buffers, and a file of TCP segments
  gives back their addresses, ports and numbers.

  \<^bold>\<open>Not modelled.\<close>  The socket demonstrations (\<open>select\<close>, \<open>poll\<close>, \<open>epoll\<close>, \<open>epoll_event\<close>, \<open>lib_epoll_event\<close>, \<open>tcp_p2p\<close>) and the start and stop of the
  VPN programs are sequences of system calls; \<open>cvpn\<close> and \<open>svpn\<close> are older copies of the VPN; \<open>hello_world_bak\<close> and \<open>ustack\<close> call SPDK and
  DPDK, which are not in the repository; the hooks, coroutines and core dumps are experiments with the loader, \<open>ucontext\<close> and signals; the
  B-tree has no implementation; build settings, logging, printing and the test programs have no state of their own.  The 32-bit branch of
  \<open>calc_num_pages_per_socket\<close> is compiled out (\<open>RTE_ARCH_64\<close>).
\<close>

end
